(* ===== verification/Prelude.thy ===== *)
theory Prelude
  imports Main "HOL-Library.Word" "HOL-Library.Sublist"
begin

unbundle bit_operations_syntax

text \<open>
  Shared vocabulary of the development: the machine integer types of the crates, Rust's
  \<open>Result\<close> with its early-return operator \<open>?\<close> (\<open>and_then\<close>), I/O errors, and the list and word
  lemmas every component uses.  The collections \<open>result_simps\<close> and \<open>slice_simps\<close> are meant for
  \<open>simp add:\<close> in component proofs.
\<close>

section \<open>Rewrite collections\<close>

named_theorems result_simps
named_theorems slice_simps
named_theorems byte_simps

section \<open>Machine integers\<close>

type_synonym byte = "8 word"
type_synonym u8 = "8 word"
type_synonym u16 = "16 word"
type_synonym u32 = "32 word"
type_synonym u64 = "64 word"

text \<open>Rust's \<open>i64\<close>: the same 64 bits, read by \<open>sint\<close>.\<close>

type_synonym i64 = "64 word"

text \<open>An \<open>io::Read\<close> over finite data: the bytes that are still to be read.\<close>

type_synonym reader = "byte list"

section \<open>Results\<close>

datatype ('e, 'a) result = Err 'e | Ok 'a

fun and_then :: "('e, 'a) result \<Rightarrow> ('a \<Rightarrow> ('e, 'b) result) \<Rightarrow> ('e, 'b) result" where
  "and_then (Err e) f = Err e"
| "and_then (Ok x) f = f x"

fun map_err :: "('e \<Rightarrow> 'f) \<Rightarrow> ('e, 'a) result \<Rightarrow> ('f, 'a) result" where
  "map_err f (Err e) = Err (f e)"
| "map_err f (Ok x) = Ok x"

fun is_ok :: "('e, 'a) result \<Rightarrow> bool" where
  "is_ok (Err e) = False"
| "is_ok (Ok x) = True"

definition ok_or :: "'a option \<Rightarrow> 'e \<Rightarrow> ('e, 'a) result" where
  "ok_or v e = (case v of None \<Rightarrow> Err e | Some x \<Rightarrow> Ok x)"

definition ensure :: "bool \<Rightarrow> 'e \<Rightarrow> ('e, unit) result" where
  "ensure b e = (if b then Ok () else Err e)"

lemma and_then_cong [fundef_cong]:
  assumes "m = m'" and "\<And>x. m' = Ok x \<Longrightarrow> f x = f' x"
  shows "and_then m f = and_then m' f'"
  using assms by (cases m') auto

lemma and_then_eq_Ok [result_simps]:
  "and_then m f = Ok y \<longleftrightarrow> (\<exists>x. m = Ok x \<and> f x = Ok y)"
  by (cases m) auto

lemma and_then_eq_Err [result_simps]:
  "and_then m f = Err e \<longleftrightarrow> m = Err e \<or> (\<exists>x. m = Ok x \<and> f x = Err e)"
  by (cases m) auto

lemma and_then_assoc: "and_then (and_then m f) g = and_then m (\<lambda>x. and_then (f x) g)"
  by (cases m) auto

lemma map_err_eq_Ok [result_simps]: "map_err f m = Ok y \<longleftrightarrow> m = Ok y"
  by (cases m) auto

lemma ensure_eq_Ok [result_simps]: "ensure b e = Ok u \<longleftrightarrow> b"
  by (simp add: ensure_def)

lemma ensure_True [simp]: "ensure True e = Ok ()"
  by (simp add: ensure_def)

lemma ensure_False [simp]: "ensure False e = Err e"
  by (simp add: ensure_def)

lemma ok_or_eq_Ok [result_simps]: "ok_or v e = Ok x \<longleftrightarrow> v = Some x"
  by (cases v) (auto simp: ok_or_def)

lemma ok_or_simps [simp]: "ok_or None e = Err e" "ok_or (Some x) e = Ok x"
  by (simp_all add: ok_or_def)

lemma is_ok_iff: "is_ok r \<longleftrightarrow> (\<exists>x. r = Ok x)"
  by (cases r) auto

section \<open>I/O errors\<close>

datatype io_kind = UnexpectedEof | NotFoundKind | InvalidData | WouldBlock | TimedOut
  | AlreadyExists | Interrupted | OtherKind

datatype io_error = IoError (kind: io_kind) (message: string)

text \<open>\<open>Read::read_exact\<close> on a finite reader: all \<open>n\<close> bytes or \<open>UnexpectedEof\<close>.\<close>

definition read_exact :: "nat \<Rightarrow> reader \<Rightarrow> (io_error, byte list \<times> reader) result" where
  "read_exact n r =
     (if length r < n then Err (IoError UnexpectedEof ''failed to fill whole buffer'')
      else Ok (take n r, drop n r))"

lemma read_exact_append [simp]:
  "length xs = n \<Longrightarrow> read_exact n (xs @ ys) = Ok (xs, ys)"
  by (simp add: read_exact_def)

lemma read_exact_0 [simp]: "read_exact 0 r = Ok ([], r)"
  by (simp add: read_exact_def)

lemma read_exact_eq_Ok:
  "read_exact n r = Ok (xs, ys) \<longleftrightarrow> r = xs @ ys \<and> length xs = n"
  by (auto simp: read_exact_def not_less)

lemma read_exact_consumes: "read_exact n r = Ok (xs, ys) \<Longrightarrow> length ys + n = length r"
  by (auto simp: read_exact_eq_Ok)

lemma read_exact_suffix: "read_exact n r = Ok (xs, ys) \<Longrightarrow> suffix ys r"
  by (auto simp: read_exact_eq_Ok suffix_def)

section \<open>Slices\<close>

text \<open>Rust's \<open>b[i..j]\<close> on a buffer known to be long enough.\<close>

definition subslice :: "nat \<Rightarrow> nat \<Rightarrow> 'a list \<Rightarrow> 'a list" where
  "subslice i j xs = take (j - i) (drop i xs)"

lemma slice_0 [slice_simps]: "subslice 0 j xs = take j xs"
  by (simp add: subslice_def)

lemma length_subslice: "j \<le> length xs \<Longrightarrow> length (subslice i j xs) = j - i"
  by (simp add: subslice_def)

lemma slice_append_left [slice_simps]:
  "j \<le> length xs \<Longrightarrow> subslice i j (xs @ ys) = subslice i j xs"
  by (simp add: subslice_def)

lemma slice_append_right [slice_simps]:
  "length xs \<le> i \<Longrightarrow> subslice i j (xs @ ys) = subslice (i - length xs) (j - length xs) ys"
  by (simp add: subslice_def)

lemma slice_full [slice_simps]: "length xs \<le> j \<Longrightarrow> subslice 0 j xs = xs"
  by (simp add: subslice_def)

section \<open>Lists\<close>

lemma sorted_wrt_less_butlast:
  fixes xs :: "'a :: linorder list"
  shows "sorted_wrt (<) (xs @ [x]) \<Longrightarrow> y \<in> set xs \<Longrightarrow> y < x"
  by (simp add: sorted_wrt_append)

lemma last_in_set_if: "xs \<noteq> [] \<Longrightarrow> last xs \<in> set xs"
  by simp

lemma map_of_distinct_append:
  "distinct (map fst (xs @ ys)) \<Longrightarrow> map_of (xs @ ys) = map_of xs ++ map_of ys"
  by (metis inf_commute distinct_append map_add_comm map_append map_of_append dom_map_of_conv_image_fst set_map)

lemma map_of_filter_fst: "map_of (filter (\<lambda>(k, _). P k) m) = map_of m |` {k. P k}"
  by (induction m) (auto simp: fun_eq_iff restrict_map_def)

section \<open>Ordered maps\<close>

text \<open>A \<open>BTreeMap\<close>: its entries in key order.\<close>

fun btree_insert :: "'k :: linorder \<Rightarrow> 'v \<Rightarrow> ('k \<times> 'v) list \<Rightarrow> ('k \<times> 'v) list" where
  "btree_insert k v [] = [(k, v)]"
| "btree_insert k v ((k', v') # m) =
     (if k < k' then (k, v) # (k', v') # m
      else if k = k' then (k, v) # m
      else (k', v') # btree_insert k v m)"

lemma map_of_btree_insert [simp]: "map_of (btree_insert k v m) = (map_of m)(k \<mapsto> v)"
  by (induction k v m rule: btree_insert.induct) (auto simp: fun_eq_iff)

lemma set_btree_insert: "set (map fst (btree_insert k v m)) = insert k (set (map fst m))"
  by (induction k v m rule: btree_insert.induct) auto

lemma sorted_btree_insert:
  "sorted_wrt (<) (map fst m) \<Longrightarrow> sorted_wrt (<) (map fst (btree_insert k v m))"
proof (induction k v m rule: btree_insert.induct)
  case (2 k v k' v' m)
  then show ?case using set_btree_insert [of k v m] by auto
qed simp

lemma btree_insert_last:
  "\<forall>k' \<in> set (map fst m). k' < k \<Longrightarrow> btree_insert k v m = m @ [(k, v)]"
  by (induction k v m rule: btree_insert.induct) auto

section \<open>Words\<close>

lemma word_less_unat: "(a :: 'a :: len word) < b \<longleftrightarrow> unat a < unat b"
  by (rule word_less_nat_alt)

lemma word_le_unat: "(a :: 'a :: len word) \<le> b \<longleftrightarrow> unat a \<le> unat b"
  by (rule word_le_nat_alt)

lemma unat_add_no_wrap:
  fixes a b :: "'a :: len word"
  shows "unat a + unat b < 2 ^ LENGTH('a) \<Longrightarrow> unat (a + b) = unat a + unat b"
  by (simp add: unat_word_ariths)

lemma unat_Suc_no_wrap:
  fixes a b :: "'a :: len word"
  assumes "a < b"
  shows "unat (a + 1) = unat a + 1"
proof -
  have "unat b < 2 ^ LENGTH('a)" by (rule unsigned_less)
  moreover have "unat a < unat b" using assms by (simp add: word_less_unat)
  ultimately have "Suc (unat a) < 2 ^ LENGTH('a)" by linarith
  then show ?thesis by (simp add: unat_word_ariths unsigned_1)
qed

lemma word_less_Suc_le:
  fixes a b :: "'a :: len word"
  assumes "a < b"
  shows "a + 1 \<le> b"
  using unat_Suc_no_wrap [OF assms] assms by (simp add: word_le_unat word_less_unat)

lemma word_less_plus_one:
  fixes a :: "'a::len word"
  assumes "a + 1 \<noteq> 0"
  shows "a < a + 1"
proof (cases "Suc (unat a) < 2 ^ LENGTH('a)")
  case True
  then have "unat (a + 1) = Suc (unat a)" by (simp add: unat_word_ariths)
  then show ?thesis by (simp add: word_less_unat)
next
  case False
  moreover have "unat a < 2 ^ LENGTH('a)" by (rule unsigned_less)
  ultimately have "Suc (unat a) = 2 ^ LENGTH('a)" by linarith
  then have "unat (a + 1) = 0" by (simp add: unat_word_ariths)
  with assms show ?thesis by (simp add: unat_eq_0)
qed

end
