(* ===== verification/Bytes.thy ===== *)
theory Bytes
  imports Prelude
begin

text \<open>
  Byte-level plumbing of the standard library the crates use: big- and little-endian integers
  (\<open>to_be_bytes\<close>, \<open>from_be_bytes\<close>, \<open>to_le_bytes\<close>, \<open>from_le_bytes\<close>), number formatting
  (\<open>{}\<close>, \<open>{:x}\<close>, \<open>{:016x}\<close>) and number parsing (\<open>from_str_radix\<close>, \<open>parse\<close>), with their round
  trips.  The locale \<open>wire_codec\<close> is the interface of a self-delimiting wire format: decoding an
  encoded value gives it back and leaves exactly the bytes that follow it.
\<close>

section \<open>Fixed-width integers on the wire\<close>

fun to_be :: "nat \<Rightarrow> 'a :: len word \<Rightarrow> byte list" where
  "to_be 0 w = []"
| "to_be (Suc n) w = to_be n (drop_bit 8 w) @ [ucast w]"

definition to_le :: "nat \<Rightarrow> 'a :: len word \<Rightarrow> byte list" where
  "to_le n w = rev (to_be n w)"

definition from_be :: "byte list \<Rightarrow> 'a :: len word" where
  "from_be bs = foldl (\<lambda>acc b. push_bit 8 acc OR ucast b) 0 bs"

definition from_le :: "byte list \<Rightarrow> 'a :: len word" where
  "from_le bs = from_be (rev bs)"

lemma length_to_be [simp]: "length (to_be n w) = n"
  by (induction n w rule: to_be.induct) auto

lemma length_to_le [simp]: "length (to_le n w) = n"
  by (simp add: to_le_def)

lemma from_be_snoc: "from_be (bs @ [b]) = push_bit 8 (from_be bs) OR ucast b"
  by (simp add: from_be_def)

lemma from_be_to_be_take: "from_be (to_be n w) = (take_bit (8 * n) w :: 'a :: len word)"
proof (induction n arbitrary: w)
  case 0
  then show ?case by (simp add: from_be_def)
next
  case (Suc n)
  have "push_bit 8 (take_bit (8 * n) (drop_bit 8 w)) OR ucast (ucast w :: byte)
        = (take_bit (8 * Suc n) w :: 'a word)"
  proof (rule bit_word_eqI)
    fix k assume "k < LENGTH('a)"
    then show "bit (push_bit 8 (take_bit (8 * n) (drop_bit 8 w)) OR ucast (ucast w :: byte)) k
      \<longleftrightarrow> bit (take_bit (8 * Suc n) w :: 'a word) k"
      by (auto simp: bit_simps)
  qed
  then show ?case by (simp add: Suc from_be_snoc)
qed

lemma from_be_to_be [simp]:
  "LENGTH('a) \<le> 8 * n \<Longrightarrow> from_be (to_be n (w :: 'a :: len word)) = w"
  by (simp add: from_be_to_be_take take_bit_word_eq_self)

lemma from_le_to_le [simp]:
  "LENGTH('a) \<le> 8 * n \<Longrightarrow> from_le (to_le n (w :: 'a :: len word)) = w"
  by (simp add: from_le_def to_le_def)

lemma bit_from_beD: "bit (from_be bs :: 'a :: len word) k \<Longrightarrow> k < 8 * length bs"
proof (induction bs arbitrary: k rule: rev_induct)
  case Nil
  then show ?case by (simp add: from_be_def)
next
  case (snoc b bs)
  from snoc.prems consider "8 \<le> k" "bit (from_be bs :: 'a word) (k - 8)" | "k < 8"
    using bit_imp_le_length [of b k] by (auto simp: from_be_snoc bit_simps)
  then show ?case
  proof cases
    case 1
    from snoc.IH [OF 1(2)] 1(1) show ?thesis by simp
  qed simp
qed

lemma to_be_from_be:
  "8 * length bs \<le> LENGTH('a) \<Longrightarrow> to_be (length bs) (from_be bs :: 'a :: len word) = bs"
proof (induction bs rule: rev_induct)
  case Nil
  then show ?case by simp
next
  case (snoc b bs)
  have high: "drop_bit 8 (push_bit 8 (from_be bs) OR ucast b) = (from_be bs :: 'a word)"
    using snoc.prems by (intro bit_word_eqI) (auto simp: bit_simps dest: bit_from_beD bit_imp_le_length)
  have low: "ucast (push_bit 8 (from_be bs) OR ucast b :: 'a word) = b"
    using snoc.prems by (intro bit_word_eqI) (auto simp: bit_simps)
  from snoc show ?case by (simp add: from_be_snoc high low del: drop_bit_or)
qed

abbreviation be16 :: "u16 \<Rightarrow> byte list" where "be16 \<equiv> to_be 2"
abbreviation be32 :: "u32 \<Rightarrow> byte list" where "be32 \<equiv> to_be 4"
abbreviation be64 :: "u64 \<Rightarrow> byte list" where "be64 \<equiv> to_be 8"
abbreviation le32 :: "u32 \<Rightarrow> byte list" where "le32 \<equiv> to_le 4"

section \<open>Self-delimiting wire formats\<close>

text \<open>
  \<open>put\<close> writes a value, \<open>get\<close> reads one from the front of the input; \<open>ok\<close> says which values the
  format represents.
\<close>

locale wire_codec =
  fixes put :: "'a \<Rightarrow> byte list"
    and get :: "reader \<Rightarrow> ('e, 'a \<times> reader) result"
    and ok :: "'a \<Rightarrow> bool"
  assumes get_put: "ok x \<Longrightarrow> get (put x @ rest) = Ok (x, rest)"
begin

lemma put_injective:
  assumes "ok x" and "ok y" and "put x = put y"
  shows "x = y"
proof -
  have "Ok (x, []) = (get (put x) :: ('e, 'a \<times> reader) result)"
    using get_put [OF \<open>ok x\<close>, of "[]"] by simp
  also have "\<dots> = Ok (y, [])"
    using get_put [OF \<open>ok y\<close>, of "[]"] \<open>put x = put y\<close> by simp
  finally show ?thesis by simp
qed

text \<open>No encoding is a proper prefix of another: a stream of values splits in one way only.\<close>

lemma put_prefix_free:
  assumes "ok x" and "ok y" and "put x @ r = put y @ s"
  shows "x = y \<and> r = s"
proof -
  have "Ok (x, r) = get (put x @ r)" using get_put [OF \<open>ok x\<close>] by simp
  also have "\<dots> = Ok (y, s)" using get_put [OF \<open>ok y\<close>] assms(3) by simp
  finally show ?thesis by simp
qed

end

section \<open>Formatting and parsing numbers\<close>

fun digits_of :: "nat \<Rightarrow> nat \<Rightarrow> nat list" where
  "digits_of b n = (if n < b \<or> b < 2 then [n] else digits_of b (n div b) @ [n mod b])"

declare digits_of.simps [simp del]

definition digit_char :: "nat \<Rightarrow> char" where
  "digit_char d = char_of (if d < 10 then 48 + d else 87 + d)"

text \<open>\<open>char::to_digit(radix)\<close> on one byte.\<close>

definition digit_val :: "nat \<Rightarrow> char \<Rightarrow> nat option" where
  "digit_val radix c =
     (let n = of_char c :: nat;
          d = (if 48 \<le> n \<and> n \<le> 57 then n - 48
               else if 97 \<le> n \<and> n \<le> 122 then n - 87
               else if 65 \<le> n \<and> n \<le> 90 then n - 55 else 36)
      in if d < radix then Some d else None)"

definition is_ascii_hexdigit :: "char \<Rightarrow> bool" where
  "is_ascii_hexdigit c \<longleftrightarrow> digit_val 16 c \<noteq> None"

definition is_ascii_digit :: "char \<Rightarrow> bool" where
  "is_ascii_digit c \<longleftrightarrow> digit_val 10 c \<noteq> None"

text \<open>\<open>{}\<close> on an unsigned integer, \<open>{:x}\<close>, and \<open>{:0wx}\<close>.\<close>

definition fmt_dec :: "nat \<Rightarrow> string" where
  "fmt_dec n = map digit_char (digits_of 10 n)"

definition fmt_hex :: "nat \<Rightarrow> string" where
  "fmt_hex n = map digit_char (digits_of 16 n)"

definition fmt_hex0 :: "nat \<Rightarrow> nat \<Rightarrow> string" where
  "fmt_hex0 w n = (let s = fmt_hex n in replicate (w - length s) (CHR ''0'') @ s)"

fun parse_digits :: "nat \<Rightarrow> nat \<Rightarrow> string \<Rightarrow> nat option" where
  "parse_digits radix acc [] = Some acc"
| "parse_digits radix acc (c # cs) =
     (case digit_val radix c of None \<Rightarrow> None
      | Some d \<Rightarrow> parse_digits radix (radix * acc + d) cs)"

text \<open>
  \<open>uN::from_str_radix\<close>: rejects the empty string and a lone sign, accepts one leading \<open>+\<close>, and
  rejects values of \<open>2 ^ bits\<close> and above.
\<close>

definition from_str_radix :: "nat \<Rightarrow> nat \<Rightarrow> string \<Rightarrow> nat option" where
  "from_str_radix bits radix s =
     (let ds = (case s of c # cs \<Rightarrow> if c = CHR ''+'' \<and> cs \<noteq> [] then cs else s | [] \<Rightarrow> s)
      in if ds = [] then None
         else case parse_digits radix 0 ds of None \<Rightarrow> None
              | Some n \<Rightarrow> if n < 2 ^ bits then Some n else None)"

abbreviation parse_dec :: "nat \<Rightarrow> string \<Rightarrow> nat option" where
  "parse_dec bits \<equiv> from_str_radix bits 10"

lemma digits_of_bound: "2 \<le> b \<Longrightarrow> \<forall>d \<in> set (digits_of b n). d < b"
proof (induction b n rule: digits_of.induct)
  case (1 b n)
  then show ?case by (subst digits_of.simps) auto
qed

lemma digits_of_not_Nil [simp]: "digits_of b n \<noteq> []"
  by (subst digits_of.simps) simp

lemma length_digits_of_le: "2 \<le> b \<Longrightarrow> 0 < k \<Longrightarrow> n < b ^ k \<Longrightarrow> length (digits_of b n) \<le> k"
proof (induction b n arbitrary: k rule: digits_of.induct)
  case (1 b n)
  show ?case
  proof (cases "n < b")
    case True
    with "1.prems" show ?thesis by (subst digits_of.simps) simp
  next
    case False
    then obtain m where k: "k = Suc m" and "0 < m"
      using "1.prems" by (cases k; cases "k = 1") auto
    have "n div b < b ^ m"
      using "1.prems" k by (simp add: less_mult_imp_div_less mult.commute)
    then have "length (digits_of b (n div b)) \<le> m"
      using "1.IH" "1.prems" False \<open>0 < m\<close> by simp
    then show ?thesis using False k by (subst digits_of.simps) simp
  qed
qed

lemma of_char_digit_char: "d < 16 \<Longrightarrow> (of_char (digit_char d) :: nat) = (if d < 10 then 48 + d else 87 + d)"
  by (simp add: digit_char_def)

lemma digit_val_digit_char: "d < radix \<Longrightarrow> radix \<le> 16 \<Longrightarrow> digit_val radix (digit_char d) = Some d"
  by (auto simp: digit_val_def of_char_digit_char Let_def)

lemma parse_digits_append:
  "parse_digits radix acc (xs @ ys) =
     (case parse_digits radix acc xs of None \<Rightarrow> None | Some a \<Rightarrow> parse_digits radix a ys)"
  by (induction xs arbitrary: acc) (auto split: option.splits)

lemma parse_digits_digits_of:
  "2 \<le> b \<Longrightarrow> b \<le> 16 \<Longrightarrow> parse_digits b 0 (map digit_char (digits_of b n)) = Some n"
proof (induction b n rule: digits_of.induct)
  case (1 b n)
  show ?case
  proof (cases "n < b")
    case True
    with "1.prems" show ?thesis by (subst digits_of.simps) (simp add: digit_val_digit_char)
  next
    case False
    with 1 show ?thesis
      by (subst digits_of.simps) (simp add: parse_digits_append digit_val_digit_char)
  qed
qed

lemma parse_digits_zeros:
  "parse_digits radix 0 (replicate k (CHR ''0'') @ s) = parse_digits radix 0 s" if "0 < radix"
  using that by (induction k) (auto simp: digit_val_def Let_def)

lemma parse_fmt_hex0: "parse_digits 16 0 (fmt_hex0 w n) = Some n"
  by (simp add: fmt_hex0_def fmt_hex_def Let_def parse_digits_zeros parse_digits_digits_of)

lemma length_fmt_hex0: "0 < w \<Longrightarrow> n < 16 ^ w \<Longrightarrow> length (fmt_hex0 w n) = w"
  using length_digits_of_le [of 16 w n] by (simp add: fmt_hex0_def fmt_hex_def Let_def)

lemma of_char_eqD: "(of_char c :: nat) = n \<Longrightarrow> n < 256 \<Longrightarrow> c = char_of n"
  by (metis char_of_char)

lemma digit_char_lower:
  "d < 16 \<Longrightarrow> is_ascii_digit (digit_char d) \<or> (97 \<le> (of_char (digit_char d) :: nat) \<and> (of_char (digit_char d) :: nat) \<le> 102)"
  by (auto simp: is_ascii_digit_def digit_val_def of_char_digit_char Let_def)

lemma digit_char_neq_plus: "d < 16 \<Longrightarrow> digit_char d \<noteq> CHR ''+''"
proof
  assume "d < 16" and eq: "digit_char d = CHR ''+''"
  then have "(of_char (digit_char d) :: nat) = of_char (CHR ''+'')" by simp
  with \<open>d < 16\<close> show False by (auto simp: of_char_digit_char split: if_splits)
qed

lemma digit_char_0: "digit_char 0 = CHR ''0''"
  using of_char_eqD [of "CHR ''0''" 48] by (simp add: digit_char_def)

lemma set_fmt_hex0:
  "c \<in> set (fmt_hex0 w n) \<Longrightarrow> \<exists>d < 16. c = digit_char d"
proof -
  assume "c \<in> set (fmt_hex0 w n)"
  then consider "c = digit_char 0" | d where "d \<in> set (digits_of 16 n)" "c = digit_char d"
    by (auto simp: fmt_hex0_def fmt_hex_def Let_def digit_char_0)
  then show ?thesis
  proof cases
    case 1
    then show ?thesis by (intro exI [of _ 0]) simp
  next
    case 2
    with digits_of_bound [of 16 n] show ?thesis by (intro exI [of _ d]) simp
  qed
qed

lemma hexdigit_digit_char: "d < 16 \<Longrightarrow> is_ascii_hexdigit (digit_char d)"
  by (simp add: is_ascii_hexdigit_def digit_val_digit_char)

lemma from_str_radix_no_sign:
  "s \<noteq> [] \<Longrightarrow> hd s \<noteq> CHR ''+'' \<Longrightarrow> parse_digits radix 0 s = Some n \<Longrightarrow> n < 2 ^ bits \<Longrightarrow>
   from_str_radix bits radix s = Some n"
  by (auto simp: from_str_radix_def Let_def split: list.splits)

lemma parse_fmt_dec: "n < 2 ^ bits \<Longrightarrow> parse_dec bits (fmt_dec n) = Some n"
proof (rule from_str_radix_no_sign)
  have "hd (digits_of 10 n) \<in> set (digits_of 10 n)" by (rule hd_in_set) simp
  with digits_of_bound [of 10 n] have "hd (digits_of 10 n) < 10" by simp
  then have "hd (digits_of 10 n) < 16" by linarith
  then show "hd (fmt_dec n) \<noteq> CHR ''+''"
    by (simp add: fmt_dec_def hd_map digit_char_neq_plus)
qed (simp_all add: fmt_dec_def parse_digits_digits_of)

end
