(* ===== verification/Checksum.thy ===== *)
theory Checksum
  imports Bytes
begin

text \<open>
  Model of \<open>crates/ltx/src/checksum.rs\<close>.  CRC-64/GO-ISO is the \<open>crc\<close> crate's: it is the argument
  \<open>crc64\<close> (the digest of a byte string) of every definition that hashes.  A running digest is the
  list of bytes fed to it so far, so \<open>update\<close> is append and \<open>finalize\<close> applies \<open>crc64\<close>.
\<close>

section \<open>Checksums\<close>

type_synonym checksum = u64
type_synonym crc = "byte list \<Rightarrow> u64"

definition CHECKSUM_FLAG :: u64 where
  "CHECKSUM_FLAG = push_bit 63 1"

definition checksum_EMPTY :: checksum where
  "checksum_EMPTY = CHECKSUM_FLAG"

definition checksum_is_zero :: "checksum \<Rightarrow> bool" where
  "checksum_is_zero c \<longleftrightarrow> c = 0"

definition is_flagged :: "checksum \<Rightarrow> bool" where
  "is_flagged c \<longleftrightarrow> c AND CHECKSUM_FLAG \<noteq> 0"

text \<open>\<open>Checksum::parse\<close>: exactly sixteen hexadecimal digits of either case.\<close>

definition checksum_parse :: "string \<Rightarrow> checksum option" where
  "checksum_parse s =
     (if length s \<noteq> 16 \<or> \<not> list_all is_ascii_hexdigit s then None
      else map_option of_nat (from_str_radix 64 16 s))"

definition checksum_display :: "checksum \<Rightarrow> string" where
  "checksum_display c = fmt_hex0 16 (unat c)"

definition checksum_page :: "crc \<Rightarrow> u32 \<Rightarrow> byte list \<Rightarrow> checksum" where
  "checksum_page crc64 pgno data = CHECKSUM_FLAG OR crc64 (be32 pgno @ data)"

definition xor_page_checksum :: "checksum \<Rightarrow> checksum \<Rightarrow> checksum" where
  "xor_page_checksum db page = CHECKSUM_FLAG OR (db XOR page)"

section \<open>Hex parsing and printing\<close>

lemma length_hex16 [simp]: "length (fmt_hex0 16 (unat (w :: u64))) = 16"
proof -
  have "unat w < 2 ^ LENGTH(64)" by (rule unsigned_less)
  then have "unat w < 16 ^ 16" by simp
  then show ?thesis by (simp add: length_fmt_hex0)
qed

lemma hex16_hexdigits: "list_all is_ascii_hexdigit (fmt_hex0 w n)"
  by (auto simp: list_all_iff hexdigit_digit_char dest: set_fmt_hex0)

lemma from_str_radix_hex16: "from_str_radix 64 16 (fmt_hex0 16 (unat (w :: u64))) = Some (unat w)"
proof (rule from_str_radix_no_sign)
  let ?s = "fmt_hex0 16 (unat w)"
  show ne: "?s \<noteq> []" by (metis length_hex16 list.size(3) zero_neq_numeral)
  have "hd ?s \<in> set ?s" using ne by (rule hd_in_set)
  then obtain d where "d < 16" and "hd ?s = digit_char d" by (blast dest: set_fmt_hex0)
  then show "hd ?s \<noteq> CHR ''+''" by (simp add: digit_char_neq_plus)
  show "unat w < 2 ^ 64" using unsigned_less [of w] by simp
qed (rule parse_fmt_hex0)

lemma checksum_parse_display: "checksum_parse (checksum_display c) = Some c"
  by (simp add: checksum_parse_def checksum_display_def hex16_hexdigits from_str_radix_hex16)

section \<open>Flagged checksums and the rolling checksum\<close>

lemma bit_CHECKSUM_FLAG: "bit CHECKSUM_FLAG k \<longleftrightarrow> k = 63"
  unfolding CHECKSUM_FLAG_def by (simp only: bit_push_bit_iff bit_1_iff) auto

lemma is_flagged_bit: "is_flagged c \<longleftrightarrow> bit c 63"
proof -
  have "c AND CHECKSUM_FLAG = (if bit c 63 then CHECKSUM_FLAG else 0)"
    by (rule bit_word_eqI) (auto simp: bit_simps bit_CHECKSUM_FLAG)
  moreover have "CHECKSUM_FLAG \<noteq> 0" by (simp add: CHECKSUM_FLAG_def)
  ultimately show ?thesis by (simp add: is_flagged_def)
qed

lemma flagged_nonzero: "is_flagged c \<Longrightarrow> c \<noteq> 0"
  by (auto simp: is_flagged_def)

lemma flag_or_flagged [simp]: "is_flagged (CHECKSUM_FLAG OR c)" "CHECKSUM_FLAG OR c \<noteq> 0"
proof -
  show "is_flagged (CHECKSUM_FLAG OR c)" by (simp add: is_flagged_bit bit_simps bit_CHECKSUM_FLAG)
  then show "CHECKSUM_FLAG OR c \<noteq> 0" by (rule flagged_nonzero)
qed

lemma checksum_page_flagged [simp]: "is_flagged (checksum_page crc64 pgno data)"
  by (simp add: is_flagged_bit checksum_page_def bit_simps bit_CHECKSUM_FLAG)

lemma xor_page_checksum_flagged [simp]: "is_flagged (xor_page_checksum db page)"
  by (simp add: is_flagged_bit xor_page_checksum_def bit_simps bit_CHECKSUM_FLAG)

lemma xor_page_checksum_left_commute:
  "xor_page_checksum (xor_page_checksum db p) q = xor_page_checksum (xor_page_checksum db q) p"
  by (rule bit_word_eqI) (auto simp: xor_page_checksum_def bit_simps bit_CHECKSUM_FLAG)

lemma xor_page_checksum_cancel:
  "is_flagged db \<Longrightarrow> xor_page_checksum (xor_page_checksum db p) p = db"
  by (rule bit_word_eqI) (auto simp: xor_page_checksum_def is_flagged_bit bit_simps bit_CHECKSUM_FLAG)

text \<open>
  The rolling checksum of a database: every page folded into the flag.  It does not depend on the
  order of the pages, and replacing one page's content is removing the old checksum and folding in
  the new one.
\<close>

definition db_checksum :: "crc \<Rightarrow> (u32 \<times> byte list) list \<Rightarrow> checksum" where
  "db_checksum crc64 pages =
     foldl (\<lambda>c (pgno, data). xor_page_checksum c (checksum_page crc64 pgno data)) CHECKSUM_FLAG pages"

lemma db_checksum_snoc:
  "db_checksum crc64 (ps @ [(n, d)]) = xor_page_checksum (db_checksum crc64 ps) (checksum_page crc64 n d)"
  by (simp add: db_checksum_def)

lemma db_checksum_flagged [simp]: "is_flagged (db_checksum crc64 ps)"
proof (cases ps rule: rev_cases)
  case Nil
  then show ?thesis by (simp add: db_checksum_def is_flagged_bit bit_CHECKSUM_FLAG)
next
  case (snoc ys y)
  then show ?thesis by (cases y) (simp add: db_checksum_snoc)
qed

lemma fold_xor_commute:
  "foldl (\<lambda>c (pgno, data). xor_page_checksum c (checksum_page crc64 pgno data)) (xor_page_checksum c p) ps =
   xor_page_checksum (foldl (\<lambda>c (pgno, data). xor_page_checksum c (checksum_page crc64 pgno data)) c ps) p"
proof (induction ps arbitrary: c)
  case (Cons q ps)
  then show ?case
    by (cases q) (simp add: xor_page_checksum_left_commute [of c p])
qed simp

lemma db_checksum_move:
  "db_checksum crc64 (ps @ (n, d) # qs) =
   xor_page_checksum (db_checksum crc64 (ps @ qs)) (checksum_page crc64 n d)"
  by (simp add: db_checksum_def fold_xor_commute)

end
