(* ===== verification/LtxTypes.thy ===== *)
theory LtxTypes
  imports Checksum
begin

text \<open>
  Model of \<open>crates/ltx/src/types.rs\<close>, \<open>error.rs\<close> and the constants of \<open>lib.rs\<close>: transaction ids,
  positions, the 100-byte header, the 16-byte trailer, the 6-byte page header, file names and file
  metadata.  Times are integers (nanoseconds since the Unix epoch).
\<close>

section \<open>Constants of lib.rs\<close>

definition MAGIC :: "byte list" where
  "MAGIC = [0x4C, 0x54, 0x58, 0x31]"

lemma length_MAGIC [simp]: "length MAGIC = 4"
  by (simp add: MAGIC_def)

definition HEADER_SIZE :: nat where "HEADER_SIZE = 100"
definition PAGE_HEADER_SIZE :: nat where "PAGE_HEADER_SIZE = 6"
definition TRAILER_SIZE :: nat where "TRAILER_SIZE = 16"
definition CHECKSUM_SIZE :: nat where "CHECKSUM_SIZE = 8"
definition HEADER_FLAG_NO_CHECKSUM :: u32 where "HEADER_FLAG_NO_CHECKSUM = push_bit 1 1"
definition HEADER_FLAG_MASK :: u32 where "HEADER_FLAG_MASK = HEADER_FLAG_NO_CHECKSUM"
definition MAX_PAGE_SIZE :: u32 where "MAX_PAGE_SIZE = 65536"
definition PENDING_BYTE :: u64 where "PENDING_BYTE = 0x40000000"

section \<open>Transaction ids and positions\<close>

type_synonym txid = u64

definition txid_is_zero :: "txid \<Rightarrow> bool" where
  "txid_is_zero t \<longleftrightarrow> t = 0"

definition txid_parse :: "string \<Rightarrow> txid option" where
  "txid_parse s =
     (if length s \<noteq> 16 \<or> \<not> list_all is_ascii_hexdigit s then None
      else map_option of_nat (from_str_radix 64 16 s))"

definition txid_display :: "txid \<Rightarrow> string" where
  "txid_display t = fmt_hex0 16 (unat t)"

record pos =
  p_txid :: txid
  p_post_apply_checksum :: checksum

definition pos_new :: "txid \<Rightarrow> checksum \<Rightarrow> pos" where
  "pos_new t c = \<lparr>p_txid = t, p_post_apply_checksum = c\<rparr>"

definition pos_default :: pos where
  "pos_default = pos_new 0 0"

definition pos_is_zero :: "pos \<Rightarrow> bool" where
  "pos_is_zero p \<longleftrightarrow> p = pos_default"

text \<open>\<open>Pos::parse\<close>; the slices are in range because the length was checked first.\<close>

definition pos_parse :: "string \<Rightarrow> pos option" where
  "pos_parse s =
     (if length s \<noteq> 33 \<or> s ! 16 \<noteq> CHR ''/'' then None
      else case txid_parse (take 16 s) of None \<Rightarrow> None
      | Some t \<Rightarrow> (case checksum_parse (drop 17 s) of None \<Rightarrow> None
          | Some c \<Rightarrow> Some \<lparr>p_txid = t, p_post_apply_checksum = c\<rparr>))"

definition pos_display :: "pos \<Rightarrow> string" where
  "pos_display p = txid_display (p_txid p) @ ''/'' @ checksum_display (p_post_apply_checksum p)"

section \<open>Errors\<close>

datatype ltx_error =
    InvalidFile
  | ChecksumMismatch
  | PostApplyChecksumMismatch checksum checksum
  | PosMismatch pos
  | Invalid string
  | Lz4 string
  | LtxIo io_error

fun ltx_error_display :: "ltx_error \<Rightarrow> string" where
  "ltx_error_display InvalidFile = ''invalid LTX file''"
| "ltx_error_display ChecksumMismatch = ''file checksum mismatch''"
| "ltx_error_display (PostApplyChecksumMismatch trl computed) =
     ''post-apply checksum in trailer ('' @ checksum_display trl @
     '') does not match calculated checksum ('' @ checksum_display computed @ '')''"
| "ltx_error_display (PosMismatch p) = ''ltx position mismatch ('' @ pos_display p @ '')''"
| "ltx_error_display (Invalid m) = m"
| "ltx_error_display (Lz4 m) = ''lz4: '' @ m"
| "ltx_error_display (LtxIo e) = message e"

type_synonym 'a ltx_result = "(ltx_error, 'a) result"

text \<open>\<open>{}\<close> on an \<open>i64\<close>.\<close>

definition fmt_i64 :: "i64 \<Rightarrow> string" where
  "fmt_i64 w = (if sint w < 0 then ''-'' @ fmt_dec (nat (- sint w)) else fmt_dec (nat (sint w)))"

section \<open>Predicates on sizes, flags and ranges\<close>

definition count_ones :: "'a :: len word \<Rightarrow> nat" where
  "count_ones w = length (filter (bit w) [0..<LENGTH('a)])"

definition is_power_of_two :: "'a :: len word \<Rightarrow> bool" where
  "is_power_of_two w \<longleftrightarrow> count_ones w = 1"

definition is_valid_page_size :: "u32 \<Rightarrow> bool" where
  "is_valid_page_size sz \<longleftrightarrow> 512 \<le> sz \<and> sz \<le> MAX_PAGE_SIZE \<and> is_power_of_two sz"

definition is_valid_header_flags :: "u32 \<Rightarrow> bool" where
  "is_valid_header_flags flags \<longleftrightarrow> flags = flags AND HEADER_FLAG_MASK"

definition lock_pgno :: "u32 \<Rightarrow> u32" where
  "lock_pgno page_size = ucast (PENDING_BYTE div ucast page_size) + 1"

definition is_contiguous :: "txid \<Rightarrow> txid \<Rightarrow> txid \<Rightarrow> bool" where
  "is_contiguous prev_max_txid min_txid max_txid \<longleftrightarrow>
     min_txid \<le> prev_max_txid + 1 \<and> prev_max_txid < max_txid"

section \<open>File names\<close>

definition format_filename :: "txid \<Rightarrow> txid \<Rightarrow> string" where
  "format_filename min_txid max_txid =
     txid_display min_txid @ ''-'' @ txid_display max_txid @ ''.ltx''"

definition strip_suffix :: "string \<Rightarrow> string \<Rightarrow> string option" where
  "strip_suffix suf s =
     (if length suf \<le> length s \<and> drop (length s - length suf) s = suf
      then Some (take (length s - length suf) s) else None)"

definition is_lower_hex :: "char \<Rightarrow> bool" where
  "is_lower_hex c \<longleftrightarrow> is_ascii_digit c \<or> (97 \<le> (of_char c :: nat) \<and> (of_char c :: nat) \<le> 102)"

definition parse_filename :: "string \<Rightarrow> (txid \<times> txid) option" where
  "parse_filename name =
     (case strip_suffix ''.ltx'' name of None \<Rightarrow> None
      | Some rest \<Rightarrow>
          if length rest \<noteq> 33 \<or> rest ! 16 \<noteq> CHR ''-'' then None
          else if \<not> list_all is_lower_hex (take 16 rest @ drop 17 rest) then None
          else case txid_parse (take 16 rest) of None \<Rightarrow> None
          | Some a \<Rightarrow> (case txid_parse (drop 17 rest) of None \<Rightarrow> None
              | Some b \<Rightarrow> Some (a, b)))"

section \<open>The header\<close>

record header =
  h_flags :: u32
  h_page_size :: u32
  h_commit :: u32
  h_min_txid :: txid
  h_max_txid :: txid
  h_timestamp :: i64
  h_pre_apply_checksum :: checksum
  h_wal_offset :: i64
  h_wal_size :: i64
  h_wal_salt1 :: u32
  h_wal_salt2 :: u32
  h_node_id :: u64

definition header_default :: header where
  "header_default = \<lparr>h_flags = 0, h_page_size = 0, h_commit = 0, h_min_txid = 0, h_max_txid = 0,
     h_timestamp = 0, h_pre_apply_checksum = 0, h_wal_offset = 0, h_wal_size = 0,
     h_wal_salt1 = 0, h_wal_salt2 = 0, h_node_id = 0\<rparr>"

definition is_snapshot :: "header \<Rightarrow> bool" where
  "is_snapshot h \<longleftrightarrow> h_min_txid h = 1"

definition no_checksum :: "header \<Rightarrow> bool" where
  "no_checksum h \<longleftrightarrow> h_flags h AND HEADER_FLAG_NO_CHECKSUM \<noteq> 0"

definition header_lock_pgno :: "header \<Rightarrow> u32" where
  "header_lock_pgno h = lock_pgno (h_page_size h)"

definition header_pre_apply_pos :: "header \<Rightarrow> pos" where
  "header_pre_apply_pos h =
     \<lparr>p_txid = h_min_txid h - 1, p_post_apply_checksum = h_pre_apply_checksum h\<rparr>"

definition header_validate :: "header \<Rightarrow> unit ltx_result" where
  "header_validate h =
     (if \<not> is_valid_header_flags (h_flags h)
        then Err (Invalid (''invalid flags: 0x'' @ fmt_hex0 8 (unat (h_flags h))))
      else if \<not> is_valid_page_size (h_page_size h)
        then Err (Invalid (''invalid page size: '' @ fmt_dec (unat (h_page_size h))))
      else if txid_is_zero (h_min_txid h) then Err (Invalid ''minimum transaction id required'')
      else if txid_is_zero (h_max_txid h) then Err (Invalid ''maximum transaction id required'')
      else if h_max_txid h < h_min_txid h
        then Err (Invalid (''transaction ids out of order: ('' @ fmt_dec (unat (h_min_txid h)) @ '','' @
               fmt_dec (unat (h_max_txid h)) @ '')''))
      else if sint (h_wal_offset h) < 0
        then Err (Invalid (''wal offset cannot be negative: '' @ fmt_i64 (h_wal_offset h)))
      else if sint (h_wal_size h) < 0
        then Err (Invalid (''wal size cannot be negative: '' @ fmt_i64 (h_wal_size h)))
      else if (h_wal_salt1 h \<noteq> 0 \<or> h_wal_salt2 h \<noteq> 0) \<and> h_wal_offset h = 0
        then Err (Invalid ''wal offset required if salt exists'')
      else if h_wal_offset h = 0 \<and> h_wal_size h \<noteq> 0
        then Err (Invalid ''wal offset required if wal size exists'')
      else if is_snapshot h then
        (if \<not> checksum_is_zero (h_pre_apply_checksum h)
           then Err (Invalid ''pre-apply checksum must be zero on snapshots'') else Ok ())
      else if no_checksum h then
        (if \<not> checksum_is_zero (h_pre_apply_checksum h)
           then Err (Invalid ''pre-apply checksum not allowed'') else Ok ())
      else if checksum_is_zero (h_pre_apply_checksum h)
        then Err (Invalid ''pre-apply checksum required on non-snapshot files'')
      else if \<not> is_flagged (h_pre_apply_checksum h)
        then Err (Invalid ''invalid pre-apply checksum format'')
      else Ok ())"

definition header_encode :: "header \<Rightarrow> byte list" where
  "header_encode h =
     MAGIC @ be32 (h_flags h) @ be32 (h_page_size h) @ be32 (h_commit h) @
     be64 (h_min_txid h) @ be64 (h_max_txid h) @ be64 (h_timestamp h) @
     be64 (h_pre_apply_checksum h) @ be64 (h_wal_offset h) @ be64 (h_wal_size h) @
     be32 (h_wal_salt1 h) @ be32 (h_wal_salt2 h) @ be64 (h_node_id h) @ replicate 20 0"

definition header_decode :: "byte list \<Rightarrow> header ltx_result" where
  "header_decode b =
     (if length b < HEADER_SIZE then Err (LtxIo (IoError UnexpectedEof ''short header buffer''))
      else if subslice 0 4 b \<noteq> MAGIC then Err InvalidFile
      else Ok \<lparr>h_flags = from_be (subslice 4 8 b), h_page_size = from_be (subslice 8 12 b),
        h_commit = from_be (subslice 12 16 b), h_min_txid = from_be (subslice 16 24 b),
        h_max_txid = from_be (subslice 24 32 b), h_timestamp = from_be (subslice 32 40 b),
        h_pre_apply_checksum = from_be (subslice 40 48 b), h_wal_offset = from_be (subslice 48 56 b),
        h_wal_size = from_be (subslice 56 64 b), h_wal_salt1 = from_be (subslice 64 68 b),
        h_wal_salt2 = from_be (subslice 68 72 b), h_node_id = from_be (subslice 72 80 b)\<rparr>)"

section \<open>The trailer\<close>

record trailer =
  t_post_apply_checksum :: checksum
  t_file_checksum :: checksum

definition trailer_default :: trailer where
  "trailer_default = \<lparr>t_post_apply_checksum = 0, t_file_checksum = 0\<rparr>"

definition trailer_validate :: "trailer \<Rightarrow> header \<Rightarrow> unit ltx_result" where
  "trailer_validate t h =
     and_then
       (if no_checksum h then
          (if \<not> checksum_is_zero (t_post_apply_checksum t)
             then Err (Invalid ''post-apply checksum not allowed'') else Ok ())
        else if checksum_is_zero (t_post_apply_checksum t)
          then Err (Invalid ''post-apply checksum required'')
        else if \<not> is_flagged (t_post_apply_checksum t)
          then Err (Invalid ''invalid post-apply checksum format'')
        else Ok ())
       (\<lambda>_. if checksum_is_zero (t_file_checksum t) then Err (Invalid ''file checksum required'')
            else if \<not> is_flagged (t_file_checksum t)
              then Err (Invalid ''invalid file checksum format'')
            else Ok ())"

definition trailer_encode :: "trailer \<Rightarrow> byte list" where
  "trailer_encode t = be64 (t_post_apply_checksum t) @ be64 (t_file_checksum t)"

definition trailer_decode :: "byte list \<Rightarrow> trailer ltx_result" where
  "trailer_decode b =
     (if length b < TRAILER_SIZE then Err (LtxIo (IoError UnexpectedEof ''short trailer buffer''))
      else Ok \<lparr>t_post_apply_checksum = from_be (subslice 0 8 b), t_file_checksum = from_be (subslice 8 16 b)\<rparr>)"

section \<open>The page header\<close>

record page_header =
  ph_pgno :: u32
  ph_flags :: u16

definition page_header_default :: page_header where
  "page_header_default = \<lparr>ph_pgno = 0, ph_flags = 0\<rparr>"

definition page_header_is_zero :: "page_header \<Rightarrow> bool" where
  "page_header_is_zero h \<longleftrightarrow> h = page_header_default"

definition page_header_validate :: "page_header \<Rightarrow> unit ltx_result" where
  "page_header_validate h =
     (if ph_pgno h = 0 then Err (Invalid ''page number required'')
      else if ph_flags h \<noteq> 0 then Err (Invalid ''no flags allowed, reserved for future use'')
      else Ok ())"

definition page_header_encode :: "page_header \<Rightarrow> byte list" where
  "page_header_encode h = be32 (ph_pgno h) @ be16 (ph_flags h)"

definition page_header_decode :: "byte list \<Rightarrow> page_header ltx_result" where
  "page_header_decode b =
     (if length b < PAGE_HEADER_SIZE
      then Err (LtxIo (IoError UnexpectedEof ''short page header buffer''))
      else Ok \<lparr>ph_pgno = from_be (subslice 0 4 b), ph_flags = from_be (subslice 4 6 b)\<rparr>)"

section \<open>File metadata\<close>

type_synonym sys_time = int

record file_info =
  fi_level :: u8
  fi_min_txid :: txid
  fi_max_txid :: txid
  fi_pre_apply_checksum :: checksum
  fi_post_apply_checksum :: checksum
  fi_size :: u64
  fi_created_at :: "sys_time option"

definition file_info_pre_apply_pos :: "file_info \<Rightarrow> pos" where
  "file_info_pre_apply_pos f =
     \<lparr>p_txid = fi_min_txid f - 1, p_post_apply_checksum = fi_pre_apply_checksum f\<rparr>"

definition file_info_pos :: "file_info \<Rightarrow> pos" where
  "file_info_pos f = \<lparr>p_txid = fi_max_txid f, p_post_apply_checksum = fi_post_apply_checksum f\<rparr>"

definition file_info_filename :: "file_info \<Rightarrow> string" where
  "file_info_filename f = format_filename (fi_min_txid f) (fi_max_txid f)"

lemmas ltx_size_defs [byte_simps] =
  HEADER_SIZE_def PAGE_HEADER_SIZE_def TRAILER_SIZE_def CHECKSUM_SIZE_def

section \<open>Header, trailer and page header on the wire\<close>

lemma length_header_encode [simp]: "length (header_encode h) = HEADER_SIZE"
  by (simp add: header_encode_def HEADER_SIZE_def)

lemma length_trailer_encode [simp]: "length (trailer_encode t) = TRAILER_SIZE"
  by (simp add: trailer_encode_def TRAILER_SIZE_def)

lemma length_page_header_encode [simp]: "length (page_header_encode h) = PAGE_HEADER_SIZE"
  by (simp add: page_header_encode_def PAGE_HEADER_SIZE_def)

lemma header_decode_encode_append: "header_decode (header_encode h @ rest) = Ok h"
  unfolding header_decode_def header_encode_def
  by (simp add: slice_simps HEADER_SIZE_def)

lemma trailer_decode_encode_append: "trailer_decode (trailer_encode t @ rest) = Ok t"
  by (simp add: trailer_decode_def trailer_encode_def slice_simps ltx_size_defs)

lemma page_header_decode_encode_append: "page_header_decode (page_header_encode h @ rest) = Ok h"
  by (simp add: page_header_decode_def page_header_encode_def slice_simps ltx_size_defs)

lemma header_decode_encode [simp]: "header_decode (header_encode h) = Ok h"
  using header_decode_encode_append [of h "[]"] by simp

lemma trailer_decode_encode [simp]: "trailer_decode (trailer_encode t) = Ok t"
  using trailer_decode_encode_append [of t "[]"] by simp

lemma page_header_decode_encode [simp]: "page_header_decode (page_header_encode h) = Ok h"
  using page_header_decode_encode_append [of h "[]"] by simp

text \<open>Splitting a buffer into consecutive slices.\<close>

lemma slice_split: "i \<le> j \<Longrightarrow> j \<le> k \<Longrightarrow> subslice i j xs @ subslice j k xs = subslice i k xs"
proof -
  assume "i \<le> j" and "j \<le> k"
  then have "take (k - i) (drop i xs) = take (j - i) (drop i xs) @ take (k - j) (drop (j - i) (drop i xs))"
    by (metis Nat.diff_add_assoc2 add_diff_inverse_nat le_add_diff_inverse2 not_less take_add)
  then show ?thesis using \<open>i \<le> j\<close> by (simp add: subslice_def)
qed

section \<open>File names are canonical\<close>

lemma txid_parse_display [simp]: "txid_parse (txid_display t) = Some t"
  by (simp add: txid_parse_def txid_display_def hex16_hexdigits from_str_radix_hex16)

lemma length_txid_display [simp]: "length (txid_display t) = 16"
  by (simp add: txid_display_def)

lemma txid_display_lower: "list_all is_lower_hex (txid_display t)"
  using digit_char_lower
  by (auto simp: txid_display_def list_all_iff is_lower_hex_def dest!: set_fmt_hex0)

lemma digit_val_lower_inj:
  assumes "is_lower_hex c" and "is_lower_hex d" and "digit_val 16 c = digit_val 16 d"
  shows "c = d"
proof -
  have "(of_char c :: nat) = of_char d"
    using assms by (auto simp: is_lower_hex_def is_ascii_digit_def digit_val_def Let_def simp del: of_char_eq_iff split: if_splits)
  then show ?thesis by simp
qed

lemma digit_val_bound: "digit_val radix c = Some d \<Longrightarrow> d < radix"
  by (auto simp: digit_val_def Let_def split: if_splits)

lemma parse_digits_lower_inj:
  assumes "length s = length t" and "list_all is_lower_hex s" and "list_all is_lower_hex t"
    and "parse_digits 16 0 s = Some n" and "parse_digits 16 0 t = Some n"
  shows "s = t"
  using assms
proof (induction s arbitrary: t n rule: rev_induct)
  case Nil
  then show ?case by simp
next
  case (snoc c s)
  then obtain t' d where t: "t = t' @ [d]" and len: "length s = length t'"
    by (cases t rule: rev_cases) auto
  from snoc.prems(4) obtain a x where a: "parse_digits 16 0 s = Some a" "digit_val 16 c = Some x"
    and n1: "n = 16 * a + x" by (auto simp: parse_digits_append split: option.splits)
  from snoc.prems(5) t obtain b y where b: "parse_digits 16 0 t' = Some b" "digit_val 16 d = Some y"
    and n2: "n = 16 * b + y" by (auto simp: parse_digits_append split: option.splits)
  have xy: "x < 16" "y < 16" using a b by (auto dest: digit_val_bound)
  have "a = b" using n1 n2 xy by presburger
  with n1 n2 have "x = y" by simp
  have "s = t'" using a b snoc.prems t len \<open>a = b\<close> by (auto intro: snoc.IH)
  moreover have "c = d" using snoc.prems t a b \<open>x = y\<close> by (auto intro: digit_val_lower_inj)
  ultimately show ?case using t by simp
qed

lemma txid_display_parse:
  assumes "txid_parse s = Some t" and "list_all is_lower_hex s"
  shows "s = txid_display t"
proof -
  from assms(1) obtain n where len: "length s = 16" and n: "from_str_radix 64 16 s = Some n"
    and t: "t = of_nat n" and hex: "list_all is_ascii_hexdigit s"
    by (auto simp: txid_parse_def split: if_splits)
  obtain c cs where s: "s = c # cs" using len by (cases s) auto
  have "c \<noteq> CHR ''+''" using hex s by (auto simp: is_ascii_hexdigit_def digit_val_def)
  with n s have p: "parse_digits 16 0 s = Some n" and bound: "n < 2 ^ 64"
    by (auto simp: from_str_radix_def Let_def split: option.splits if_splits)
  have "unat t = n" using bound t by (simp add: unsigned_of_nat take_bit_nat_eq_self)
  then have "parse_digits 16 0 (txid_display t) = Some n"
    by (simp add: txid_display_def parse_fmt_hex0)
  with p assms(2) txid_display_lower len show ?thesis
    by (intro parse_digits_lower_inj) auto
qed

lemma strip_suffix_append [simp]: "strip_suffix suf (s @ suf) = Some s"
  by (simp add: strip_suffix_def)

lemma strip_suffix_SomeD: "strip_suffix suf s = Some r \<Longrightarrow> s = r @ suf"
  by (auto simp: strip_suffix_def split: if_splits) (metis append_take_drop_id)

lemma parse_format_filename: "parse_filename (format_filename a b) = Some (a, b)"
proof -
  have "strip_suffix ''.ltx'' (format_filename a b) = Some (txid_display a @ ''-'' @ txid_display b)"
    using strip_suffix_append [of "''.ltx''" "txid_display a @ ''-'' @ txid_display b"]
    by (simp add: format_filename_def)
  then show ?thesis
    by (simp add: parse_filename_def nth_append txid_display_lower)
qed

lemma format_parse_filename:
  assumes "parse_filename name = Some (a, b)"
  shows "name = format_filename a b"
proof -
  from assms obtain r where r: "strip_suffix ''.ltx'' name = Some r"
    and len: "length r = 33" and dash: "r ! 16 = CHR ''-''"
    and low: "list_all is_lower_hex (take 16 r)" "list_all is_lower_hex (drop 17 r)"
    and a: "txid_parse (take 16 r) = Some a" and b: "txid_parse (drop 17 r) = Some b"
    by (auto simp: parse_filename_def split: option.splits if_splits)
  have "r = take 16 r @ r ! 16 # drop 17 r"
    using id_take_nth_drop [of 16 r] len by simp
  with txid_display_parse [OF a low(1)] txid_display_parse [OF b low(2)] dash
  have "r = txid_display a @ ''-'' @ txid_display b" by simp
  with strip_suffix_SomeD [OF r] show ?thesis by (simp add: format_filename_def)
qed

lemma pos_parse_display: "pos_parse (pos_display p) = Some p"
  using checksum_parse_display [of "p_post_apply_checksum p"]
  by (simp add: pos_parse_def pos_display_def nth_append checksum_display_def)

section \<open>Page sizes\<close>

lemma count_ones_1: "count_ones w = 1 \<Longrightarrow> \<exists>k < LENGTH('a). w = push_bit k (1 :: 'a :: len word)"
proof -
  assume one: "count_ones w = 1"
  then obtain k where k: "filter (bit w) [0..<LENGTH('a)] = [k]"
    by (auto simp: count_ones_def length_Suc_conv)
  then have "set (filter (bit w) [0..<LENGTH('a)]) = {k}" by simp
  then have iff: "i < LENGTH('a) \<and> bit w i \<longleftrightarrow> i = k" for i by auto
  then have "w = push_bit k 1" by (intro bit_word_eqI) (auto simp: bit_simps)
  with iff show ?thesis by blast
qed

lemma valid_page_size_cases:
  assumes "is_valid_page_size sz"
  shows "sz \<in> {512, 1024, 2048, 4096, 8192, 16384, 32768, 65536}"
proof -
  from assms have one: "count_ones sz = 1" and lo: "512 \<le> sz" and hi: "sz \<le> 65536"
    by (auto simp: is_valid_page_size_def is_power_of_two_def MAX_PAGE_SIZE_def)
  from count_ones_1 [OF one] obtain k where "k < LENGTH(32)" and sz: "sz = push_bit k 1" by blast
  then have "k \<in> set [0..<32]" by simp
  with sz lo hi show ?thesis by (auto simp: upt_rec word_le_unat)
qed

lemma valid_page_size_unat:
  assumes "is_valid_page_size sz"
  shows "512 \<le> unat sz" "unat sz \<le> 65536"
  using valid_page_size_cases [OF assms] by auto

lemma lock_pgno_unat:
  assumes "is_valid_page_size sz"
  shows "unat (lock_pgno sz) = 2 ^ 30 div unat sz + 1"
  using valid_page_size_cases [OF assms] by (auto simp: lock_pgno_def PENDING_BYTE_def)

section \<open>Validation\<close>

lemma header_validate_OkD:
  assumes "header_validate h = Ok u"
  shows "is_valid_header_flags (h_flags h)" and "is_valid_page_size (h_page_size h)"
    and "h_min_txid h \<noteq> 0" and "h_max_txid h \<noteq> 0" and "h_min_txid h \<le> h_max_txid h"
    and "0 \<le> sint (h_wal_offset h)" and "0 \<le> sint (h_wal_size h)"
    and "is_snapshot h \<or> no_checksum h \<longrightarrow> h_pre_apply_checksum h = 0"
    and "\<not> is_snapshot h \<and> \<not> no_checksum h \<longrightarrow> is_flagged (h_pre_apply_checksum h)"
  using assms
  by (auto simp: header_validate_def txid_is_zero_def checksum_is_zero_def split: if_splits)

lemma is_contiguous_unat:
  "is_contiguous prev lo hi \<longleftrightarrow> unat lo \<le> unat prev + 1 \<and> unat prev < unat hi"
proof (cases "prev < hi")
  case True
  from unat_Suc_no_wrap [OF True] True show ?thesis
    by (simp add: is_contiguous_def word_le_unat word_less_unat)
next
  case False
  then show ?thesis by (simp add: is_contiguous_def word_less_unat)
qed

end
