(* ===== verification/Storage.thy ===== *)
theory Storage
  imports LtxTypes
begin

text \<open>
  Model of \<open>crates/liters-storage/src/lib.rs\<close> and \<open>cancel.rs\<close>: storage errors, the cancellation
  token and the \<open>ReplicaClient\<close> interface.  A trait object is a record of its operations over the
  backend's state; the locale \<open>replica_client\<close> states what the trait's documentation promises, and
  the backends interpret it.
\<close>

section \<open>Errors\<close>

definition SNAPSHOT_LEVEL :: u8 where "SNAPSHOT_LEVEL = 9"

datatype storage_error =
    NotFound u8 txid txid
  | StLtx ltx_error
  | StIo io_error
  | Unavailable string
  | Unauthorized string
  | Conflict string
  | ReadOnly string
  | StCancelled
  | StOther string

type_synonym 'a st_result = "(storage_error, 'a) result"

definition storage_is_transient :: "storage_error \<Rightarrow> bool" where
  "storage_is_transient e = (case e of Unavailable _ \<Rightarrow> True | StIo _ \<Rightarrow> True | _ \<Rightarrow> False)"

section \<open>Cancellation\<close>

text \<open>
  The sticky flag another thread may set at any time: the number of checks that still pass before
  the flag is seen (\<open>Never\<close> when nobody cancels).
\<close>

datatype cancel_token = Never | CancelAfter nat

definition token_new :: cancel_token where "token_new = Never"

definition token_cancel :: "cancel_token \<Rightarrow> cancel_token" where "token_cancel t = CancelAfter 0"

definition token_is_cancelled :: "cancel_token \<Rightarrow> bool" where
  "token_is_cancelled t \<longleftrightarrow> t = CancelAfter 0"

fun token_check :: "cancel_token \<Rightarrow> cancel_token st_result" where
  "token_check Never = Ok Never"
| "token_check (CancelAfter 0) = Err StCancelled"
| "token_check (CancelAfter (Suc n)) = Ok (CancelAfter n)"

text \<open>\<open>is_cancelled\<close> reads the flag once.\<close>

definition token_poll :: "cancel_token \<Rightarrow> bool \<times> cancel_token" where
  "token_poll t = (case token_check t of Err _ \<Rightarrow> (True, t) | Ok t' \<Rightarrow> (False, t'))"

section \<open>The client interface\<close>

text \<open>A write or a deletion gives the new state of the backend when it succeeds; one that fails leaves the backend as it was.
  An opened file is its bytes, so an error while it is streamed is an error of opening it.\<close>

record 's client =
  ltx_files :: "'s \<Rightarrow> u8 \<Rightarrow> txid \<Rightarrow> bool \<Rightarrow> file_info list st_result"
  open_ltx_file :: "'s \<Rightarrow> u8 \<Rightarrow> txid \<Rightarrow> txid \<Rightarrow> u64 \<Rightarrow> u64 \<Rightarrow> byte list st_result"
  write_ltx_file :: "'s \<Rightarrow> u8 \<Rightarrow> txid \<Rightarrow> txid \<Rightarrow> reader \<Rightarrow> (file_info \<times> 's) st_result"
  delete_ltx_files :: "'s \<Rightarrow> file_info list \<Rightarrow> 's st_result"
  delete_all :: "'s \<Rightarrow> 's st_result"

text \<open>\<open>Iterator::max_by_key\<close>: the last of the elements with the greatest key.\<close>

fun max_by_key :: "('a \<Rightarrow> 'k :: linorder) \<Rightarrow> 'a list \<Rightarrow> 'a option" where
  "max_by_key key [] = None"
| "max_by_key key (x # xs) =
     (case max_by_key key xs of None \<Rightarrow> Some x | Some y \<Rightarrow> Some (if key x \<le> key y then y else x))"

lemma max_by_key_None: "max_by_key key xs = None \<longleftrightarrow> xs = []"
  by (cases xs) (auto split: option.splits)

lemma max_by_key_Some:
  assumes "max_by_key key xs = Some y"
  shows "y \<in> set xs" and "x \<in> set xs \<Longrightarrow> key x \<le> key y"
proof -
  have "y \<in> set xs \<and> (\<forall>x \<in> set xs. key x \<le> key y)" using assms
  proof (induction xs arbitrary: y)
    case (Cons x xs)
    show ?case
    proof (cases "max_by_key key xs")
      case None
      with Cons.prems show ?thesis by (auto simp: max_by_key_None)
    next
      case (Some z)
      from Cons.IH [OF this] Some Cons.prems show ?thesis by (auto split: if_splits)
    qed
  qed simp
  then show "y \<in> set xs" "x \<in> set xs \<Longrightarrow> key x \<le> key y" by auto
qed

definition max_ltx_file_info :: "'s client \<Rightarrow> 's \<Rightarrow> u8 \<Rightarrow> file_info option st_result" where
  "max_ltx_file_info c s level =
     and_then (ltx_files c s level 0 False) (\<lambda>files. Ok (max_by_key fi_max_txid files))"

text \<open>The events of a live change stream.\<close>

datatype stream_event =
    EvLtx file_info
  | EvIdle "txid option"
  | EvGap txid
  | EvReset txid
  | EvClosed

section \<open>Contents of a store\<close>

text \<open>
  What a backend holds, abstractly: for every key (level and transaction range) the file's bytes
  and its creation time.
\<close>

type_synonym file_key = "u8 \<times> txid \<times> txid"
type_synonym contents = "file_key \<Rightarrow> (byte list \<times> sys_time) option"

definition info_key :: "file_info \<Rightarrow> file_key" where
  "info_key f = (fi_level f, fi_min_txid f, fi_max_txid f)"

definition range_key :: "file_info \<Rightarrow> txid \<times> txid" where
  "range_key f = (fi_min_txid f, fi_max_txid f)"

definition mk_info :: "u8 \<Rightarrow> txid \<Rightarrow> txid \<Rightarrow> u64 \<Rightarrow> sys_time option \<Rightarrow> file_info" where
  "mk_info level min_txid max_txid sz created_at =
     \<lparr>fi_level = level, fi_min_txid = min_txid, fi_max_txid = max_txid, fi_pre_apply_checksum = 0,
      fi_post_apply_checksum = 0, fi_size = sz, fi_created_at = created_at\<rparr>"

lemma info_key_mk_info [simp]: "info_key (mk_info l a b n t) = (l, a, b)"
  by (simp add: info_key_def mk_info_def)

lemma mk_info_sel [simp]:
  "fi_level (mk_info l a b n t) = l" "fi_min_txid (mk_info l a b n t) = a" "fi_max_txid (mk_info l a b n t) = b"
  "fi_size (mk_info l a b n t) = n" "fi_created_at (mk_info l a b n t) = t"
  by (simp_all add: mk_info_def)

text \<open>The order of listings: by first, then by last transaction id.\<close>

definition range_less :: "file_info \<Rightarrow> file_info \<Rightarrow> bool" where
  "range_less f g \<longleftrightarrow>
     fi_min_txid f < fi_min_txid g \<or> fi_min_txid f = fi_min_txid g \<and> fi_max_txid f < fi_max_txid g"

definition is_listing :: "contents \<Rightarrow> u8 \<Rightarrow> txid \<Rightarrow> file_info list \<Rightarrow> bool" where
  "is_listing m level seek fs \<longleftrightarrow>
     sorted_wrt range_less fs \<and>
     set fs = {mk_info level a b (of_nat (length d)) (Some t) | a b d t.
                 m (level, a, b) = Some (d, t) \<and> seek \<le> a}"

text \<open>The creation time a backend keeps for a file: the header's timestamp, never negative.\<close>

definition header_time :: "header \<Rightarrow> sys_time" where
  "header_time h = (if 0 \<le> sint (h_timestamp h) then sint (h_timestamp h) * 1000000 else 0)"

section \<open>The contract of a backend\<close>

text \<open>
  What every backend promises of the calls that succeed, over a network too: a listing is complete
  and in order, an opened file is the stored one, a written file is stored whole under its key and
  nothing else changes, deleting removes the named files only.
\<close>

locale bucket_client =
  fixes c :: "'s client" and inv :: "'s \<Rightarrow> bool" and contents :: "'s \<Rightarrow> contents"
  assumes ltx_files_Ok: "inv s \<Longrightarrow> ltx_files c s level seek use_metadata = Ok fs \<Longrightarrow> is_listing (contents s) level seek fs"
    and open_ltx_file_Ok: "inv s \<Longrightarrow> open_ltx_file c s level a b 0 0 = Ok d \<Longrightarrow> \<exists>t. contents s (level, a, b) = Some (d, t)"
    and write_ltx_file_Ok: "inv s \<Longrightarrow> write_ltx_file c s level a b rd = Ok (info, s') \<Longrightarrow>
           inv s' \<and> (\<exists>t. contents s' = (contents s)((level, a, b) \<mapsto> (rd, t)))"
    and delete_ltx_files_Ok: "inv s \<Longrightarrow> delete_ltx_files c s infos = Ok s' \<Longrightarrow>
           inv s' \<and> contents s' = contents s |` (- (info_key ` set infos))"
begin

lemma listed_iff:
  assumes "inv s" and "ltx_files c s level 0 um = Ok fs"
  shows "(\<exists>f \<in> set fs. info_key f = (level, a, b)) \<longleftrightarrow> contents s (level, a, b) \<noteq> None"
    and "f \<in> set fs \<Longrightarrow> fi_level f = level"
proof -
  have set: "set fs = {mk_info level a b (of_nat (length d)) (Some t) | a b d t. contents s (level, a, b) = Some (d, t)}"
    using ltx_files_Ok [OF assms] by (simp add: is_listing_def)
  then show "f \<in> set fs \<Longrightarrow> fi_level f = level" by auto
  show "(\<exists>f \<in> set fs. info_key f = (level, a, b)) \<longleftrightarrow> contents s (level, a, b) \<noteq> None"
    unfolding set by (cases "contents s (level, a, b)") force+
qed

lemma max_ltx_file_info_Ok:
  assumes "inv s" and "max_ltx_file_info c s level = Ok r"
  shows "r = None \<longleftrightarrow> (\<forall>a b. contents s (level, a, b) = None)"
    and "r = Some f \<Longrightarrow> fi_level f = level \<and> contents s (info_key f) \<noteq> None"
    and "r = Some f \<Longrightarrow> contents s (level, a, b) \<noteq> None \<Longrightarrow> b \<le> fi_max_txid f"
proof -
  from assms(2) obtain fs where fs: "ltx_files c s level 0 False = Ok fs" and r: "r = max_by_key fi_max_txid fs"
    by (auto simp: max_ltx_file_info_def and_then_eq_Ok)
  note l = listed_iff [OF assms(1) fs]
  have empty: "fs = [] \<longleftrightarrow> (\<forall>a b. contents s (level, a, b) = None)"
  proof
    assume "\<forall>a b. contents s (level, a, b) = None"
    then have "\<not> (\<exists>f \<in> set fs. info_key f = (level, a, b))" for a b using l(1) by simp
    then show "fs = []" using l(2) by (cases fs) (auto simp: info_key_def)
  next
    assume "fs = []"
    then show "\<forall>a b. contents s (level, a, b) = None" using l(1) by (metis empty_iff list.set(1))
  qed
  then show "r = None \<longleftrightarrow> (\<forall>a b. contents s (level, a, b) = None)" by (simp add: r max_by_key_None)
  show "fi_level f = level \<and> contents s (info_key f) \<noteq> None" if "r = Some f"
  proof -
    have "f \<in> set fs" using that r max_by_key_Some(1) [of fi_max_txid fs f] by simp
    with l(2) have "info_key f = (level, fi_min_txid f, fi_max_txid f)" "fi_level f = level" by (auto simp: info_key_def)
    with l(1) \<open>f \<in> set fs\<close> show ?thesis by metis
  qed
  show "b \<le> fi_max_txid f" if "r = Some f" "contents s (level, a, b) \<noteq> None"
  proof -
    from that(2) l(1) obtain g where "g \<in> set fs" "info_key g = (level, a, b)" by blast
    then show ?thesis using that(1) r max_by_key_Some(2) [of fi_max_txid fs f g] by (auto simp: info_key_def)
  qed
qed

end

text \<open>A backend that is always available, like a directory.\<close>

locale replica_client =
  fixes c :: "'s client" and inv :: "'s \<Rightarrow> bool" and contents :: "'s \<Rightarrow> contents"
  assumes ltx_files_listing:
      "inv s \<Longrightarrow> \<exists>fs. ltx_files c s level seek use_metadata = Ok fs \<and> is_listing (contents s) level seek fs"
    and open_ltx_file_contents:
      "inv s \<Longrightarrow> open_ltx_file c s level a b 0 0 =
         (case contents s (level, a, b) of None \<Rightarrow> Err (NotFound level a b) | Some (d, t) \<Rightarrow> Ok d)"
    and write_ltx_file_contents:
      "inv s \<Longrightarrow> HEADER_SIZE \<le> length rd \<Longrightarrow> header_decode (take HEADER_SIZE rd) = Ok h \<Longrightarrow>
         \<exists>s'. write_ltx_file c s level a b rd =
                Ok (mk_info level a b (of_nat (length rd)) (Some (header_time h)), s') \<and>
              inv s' \<and> contents s' = (contents s)((level, a, b) \<mapsto> (rd, header_time h))"
    and write_ltx_file_checks:
      "inv s \<Longrightarrow> write_ltx_file c s level a b rd = Ok r \<Longrightarrow>
         HEADER_SIZE \<le> length rd \<and> (\<exists>h. header_decode (take HEADER_SIZE rd) = Ok h)"
    and delete_ltx_files_contents:
      "inv s \<Longrightarrow> \<exists>s'. delete_ltx_files c s infos = Ok s' \<and> inv s' \<and>
         contents s' = contents s |` (- (info_key ` set infos))"
begin

lemma write_then_open:
  assumes "inv s" and "HEADER_SIZE \<le> length rd" and "header_decode (take HEADER_SIZE rd) = Ok h"
  shows "\<exists>info s'. write_ltx_file c s level a b rd = Ok (info, s') \<and> inv s' \<and>
    open_ltx_file c s' level a b 0 0 = Ok rd \<and>
    (\<forall>k. k \<noteq> (level, a, b) \<longrightarrow> contents s' k = contents s k)"
  using write_ltx_file_contents [OF assms, of level a b] open_ltx_file_contents [of _ level a b] by fastforce

lemma delete_then_not_found:
  assumes "inv s" and "info_key f \<in> info_key ` set infos"
  shows "\<exists>s'. delete_ltx_files c s infos = Ok s' \<and> inv s' \<and>
    open_ltx_file c s' (fi_level f) (fi_min_txid f) (fi_max_txid f) 0 0 =
      Err (NotFound (fi_level f) (fi_min_txid f) (fi_max_txid f)) \<and>
    (\<forall>k. k \<notin> info_key ` set infos \<longrightarrow> contents s' k = contents s k)"
proof -
  obtain s' where s': "delete_ltx_files c s infos = Ok s'" "inv s'"
    "contents s' = contents s |` (- (info_key ` set infos))" using delete_ltx_files_contents [OF assms(1)] by blast
  then have "contents s' (fi_level f, fi_min_txid f, fi_max_txid f) = None"
    using assms(2) by (simp add: info_key_def [of f])
  with s' open_ltx_file_contents [OF s'(2)] show ?thesis by auto
qed

lemma max_file_spec:
  assumes "inv s"
  shows "\<exists>r. max_ltx_file_info c s level = Ok r \<and>
    (r = None \<longleftrightarrow> (\<forall>a b. contents s (level, a, b) = None)) \<and>
    (\<forall>f. r = Some f \<longrightarrow> fi_level f = level \<and> contents s (info_key f) \<noteq> None \<and>
       (\<forall>a b. contents s (level, a, b) \<noteq> None \<longrightarrow> b \<le> fi_max_txid f))"
proof -
  obtain fs where fs: "ltx_files c s level 0 False = Ok fs" "is_listing (contents s) level 0 fs"
    using ltx_files_listing [OF assms] by blast
  have mem: "f \<in> set fs \<longleftrightarrow> (\<exists>a b d t. f = mk_info level a b (of_nat (length d)) (Some t) \<and>
      contents s (level, a, b) = Some (d, t))" for f
    using fs(2) by (auto simp: is_listing_def)
  show ?thesis
  proof (cases "max_by_key fi_max_txid fs")
    case None
    then have "fs = []" by (simp add: max_by_key_None)
    then have "contents s (level, a, b) = None" for a b
      using mem by (cases "contents s (level, a, b)") auto
    with fs(1) None show ?thesis by (simp add: max_ltx_file_info_def)
  next
    case (Some f)
    note m = max_by_key_Some [OF Some]
    from m(1) obtain a b d t where f: "f = mk_info level a b (of_nat (length d)) (Some t)"
      "contents s (level, a, b) = Some (d, t)" using mem by blast
    have "b' \<le> fi_max_txid f" if "contents s (level, a', b') \<noteq> None" for a' b'
    proof -
      from that obtain d' t' where "contents s (level, a', b') = Some (d', t')" by auto
      then have "mk_info level a' b' (of_nat (length d')) (Some t') \<in> set fs" using mem by blast
      with m(2) show ?thesis by fastforce
    qed
    with fs(1) Some f show ?thesis by (auto simp: max_ltx_file_info_def)
  qed
qed

end

sublocale replica_client \<subseteq> bucket_client c inv contents
proof
  fix s level seek use_metadata fs
  assume "inv s" "ltx_files c s level seek use_metadata = Ok fs"
  then show "is_listing (contents s) level seek fs" using ltx_files_listing [of s level seek use_metadata] by auto
next
  fix s level a b d
  assume "inv s" "open_ltx_file c s level a b 0 0 = Ok d"
  then show "\<exists>t. contents s (level, a, b) = Some (d, t)"
    using open_ltx_file_contents [of s level a b] by (auto split: option.splits)
next
  fix s level a b rd info s'
  assume inv: "inv s" and w: "write_ltx_file c s level a b rd = Ok (info, s')"
  then show "inv s' \<and> (\<exists>t. contents s' = (contents s)((level, a, b) \<mapsto> (rd, t)))"
    using write_ltx_file_checks [OF inv w] write_ltx_file_contents [OF inv, of rd] by (metis prod.inject result.inject(2))
next
  fix s infos s'
  assume "inv s" "delete_ltx_files c s infos = Ok s'"
  then show "inv s' \<and> contents s' = contents s |` (- (info_key ` set infos))"
    using delete_ltx_files_contents [of s infos] by auto
qed

end
