(* ===== verification/Wal.thy ===== *)
theory Wal
  imports LtxTypes
begin

text \<open>
  Model of \<open>crates/liters-wal\<close>: SQLite WAL checksums, the verifying frame reader, the scan for the
  committed pages, the salt scan and the database header.  The file is the list of its bytes (the
  \<open>ReadAt for [u8]\<close> instance).  File offsets and frame counters are naturals: they count bytes of a
  file, far below the 64 bits the code gives them.
\<close>

section \<open>Constants and checksums\<close>

definition WAL_HEADER_SIZE :: nat where "WAL_HEADER_SIZE = 32"
definition WAL_FRAME_HEADER_SIZE :: nat where "WAL_FRAME_HEADER_SIZE = 24"
definition WAL_MAGIC_LE :: u32 where "WAL_MAGIC_LE = 0x377F0682"
definition WAL_MAGIC_BE :: u32 where "WAL_MAGIC_BE = 0x377F0683"
definition WAL_VERSION :: u32 where "WAL_VERSION = 3007000"

lemmas wal_size_defs = WAL_HEADER_SIZE_def WAL_FRAME_HEADER_SIZE_def

definition calc_wal_size :: "u32 \<Rightarrow> nat \<Rightarrow> nat" where
  "calc_wal_size page_size n = WAL_HEADER_SIZE + (WAL_FRAME_HEADER_SIZE + unat page_size) * n"

text \<open>Positioned reads: the bytes available at the offset, at most as many as asked for.\<close>

definition read_at :: "byte list \<Rightarrow> nat \<Rightarrow> nat \<Rightarrow> byte list" where
  "read_at r n off = take n (drop off r)"

text \<open>The running checksum over whole 8-byte chunks (\<open>chunks_exact(8)\<close>).\<close>

function wal_checksum :: "bool \<Rightarrow> u32 \<Rightarrow> u32 \<Rightarrow> byte list \<Rightarrow> u32 \<times> u32" where
  "wal_checksum big_endian s0 s1 b =
     (if length b < 8 then (s0, s1)
      else let word = (if big_endian then from_be else from_le);
               w0 = word (subslice 0 4 b); w1 = word (subslice 4 8 b);
               s0' = s0 + (w0 + s1);
               s1' = s1 + (w1 + s0')
           in wal_checksum big_endian s0' s1' (drop 8 b))"
  by pat_completeness auto
termination
  by (relation "measure (\<lambda>(be, s0, s1, b). length b)") auto

declare wal_checksum.simps [simp del]

section \<open>The database header\<close>

record db_header =
  dbh_page_size :: u32
  dbh_page_count :: u32
  dbh_write_version :: u8
  dbh_read_version :: u8
  dbh_change_counter :: u32

definition SQLITE_MAGIC :: "byte list" where
  "SQLITE_MAGIC = map of_char ''SQLite format 3'' @ [0]"

definition db_header_parse :: "byte list \<Rightarrow> db_header option" where
  "db_header_parse b =
     (if length b < 100 \<or> take 16 b \<noteq> SQLITE_MAGIC then None
      else let page_size = ucast (from_be [b ! 16, b ! 17] :: u16);
               page_size = (if page_size = 1 then 65536 else page_size)
           in Some \<lparr>dbh_page_size = page_size, dbh_page_count = from_be (subslice 28 32 b),
                    dbh_write_version = b ! 18, dbh_read_version = b ! 19,
                    dbh_change_counter = from_be (subslice 24 28 b)\<rparr>)"

section \<open>The frame reader\<close>

datatype wal_error = EmptyWal | InvalidMagic u32 | UnsupportedVersion u32
  | UnalignedOffset nat u32 | OffsetTooSmall nat | PrevFrameMismatch | WalIo io_error

type_synonym 'a wal_result = "(wal_error, 'a) result"

record frame =
  fr_pgno :: u32
  fr_commit :: u32

record wal_reader =
  wr_r :: "byte list"
  wr_frame_n :: nat
  wr_big_endian :: bool
  wr_page_size :: u32
  wr_seq :: u32
  wr_salt1 :: u32
  wr_salt2 :: u32
  wr_chksum1 :: u32
  wr_chksum2 :: u32

definition wal_read_header :: "wal_reader \<Rightarrow> wal_reader wal_result" where
  "wal_read_header rd =
     (let hdr = read_at (wr_r rd) WAL_HEADER_SIZE 0 in
      if length hdr < WAL_HEADER_SIZE then Err EmptyWal
      else let magic = from_be (subslice 0 4 hdr) in
      if magic \<noteq> WAL_MAGIC_LE \<and> magic \<noteq> WAL_MAGIC_BE then Err (InvalidMagic magic)
      else let rd = rd\<lparr>wr_big_endian := (magic = WAL_MAGIC_BE)\<rparr>;
               chksum1 = from_be (subslice 24 28 hdr); chksum2 = from_be (subslice 28 32 hdr) in
      if wal_checksum (wr_big_endian rd) 0 0 (take 24 hdr) \<noteq> (chksum1, chksum2) then Err EmptyWal
      else let version = from_be (subslice 4 8 hdr) in
      if version \<noteq> WAL_VERSION then Err (UnsupportedVersion version)
      else Ok (rd\<lparr>wr_page_size := from_be (subslice 8 12 hdr), wr_seq := from_be (subslice 12 16 hdr),
                 wr_salt1 := from_be (subslice 16 20 hdr), wr_salt2 := from_be (subslice 20 24 hdr),
                 wr_chksum1 := chksum1, wr_chksum2 := chksum2\<rparr>))"

definition wal_reader_new :: "byte list \<Rightarrow> wal_reader wal_result" where
  "wal_reader_new r =
     wal_read_header \<lparr>wr_r = r, wr_frame_n = 0, wr_big_endian = False, wr_page_size = 0, wr_seq = 0,
       wr_salt1 = 0, wr_salt2 = 0, wr_chksum1 = 0, wr_chksum2 = 0\<rparr>"

definition frame_size :: "wal_reader \<Rightarrow> nat" where
  "frame_size rd = WAL_FRAME_HEADER_SIZE + unat (wr_page_size rd)"

definition next_frame_start :: "wal_reader \<Rightarrow> nat" where
  "next_frame_start rd = WAL_HEADER_SIZE + wr_frame_n rd * frame_size rd"

text \<open>
  \<open>read_frame_inner\<close>: \<open>None\<close> at the end of the valid WAL.  The buffer is always page-sized (the
  code asserts it); the page content read is returned with the frame.  On a checksum mismatch the
  code has already advanced the running checksum, and so does the model.
\<close>

definition read_frame_inner :: "wal_reader \<Rightarrow> bool \<Rightarrow> (frame \<times> byte list) option \<times> wal_reader" where
  "read_frame_inner rd verify_checksum =
     (let offset = next_frame_start rd;
          hdr = read_at (wr_r rd) WAL_FRAME_HEADER_SIZE offset;
          data = read_at (wr_r rd) (unat (wr_page_size rd)) (offset + WAL_FRAME_HEADER_SIZE) in
      if length hdr \<noteq> WAL_FRAME_HEADER_SIZE then (None, rd)
      else if length data \<noteq> unat (wr_page_size rd) then (None, rd)
      else if wr_salt1 rd \<noteq> from_be (subslice 8 12 hdr) \<or> wr_salt2 rd \<noteq> from_be (subslice 12 16 hdr)
      then (None, rd)
      else let chksum1 = from_be (subslice 16 20 hdr); chksum2 = from_be (subslice 20 24 hdr);
               (s0, s1) = wal_checksum (wr_big_endian rd) (wr_chksum1 rd) (wr_chksum2 rd) (take 8 hdr);
               (s0, s1) = wal_checksum (wr_big_endian rd) s0 s1 data;
               rd1 = (if verify_checksum then rd\<lparr>wr_chksum1 := s0, wr_chksum2 := s1\<rparr>
                      else rd\<lparr>wr_chksum1 := chksum1, wr_chksum2 := chksum2\<rparr>) in
      if verify_checksum \<and> (wr_chksum1 rd1 \<noteq> chksum1 \<or> wr_chksum2 rd1 \<noteq> chksum2) then (None, rd1)
      else (Some (\<lparr>fr_pgno = from_be (subslice 0 4 hdr), fr_commit = from_be (subslice 4 8 hdr)\<rparr>, data),
            rd1\<lparr>wr_frame_n := wr_frame_n rd1 + 1\<rparr>))"

definition read_frame :: "wal_reader \<Rightarrow> (frame \<times> byte list) option \<times> wal_reader" where
  "read_frame rd = read_frame_inner rd True"

definition wal_with_offset :: "byte list \<Rightarrow> nat \<Rightarrow> u32 \<Rightarrow> u32 \<Rightarrow> wal_reader wal_result" where
  "wal_with_offset r offset salt1 salt2 =
     (if offset \<le> WAL_HEADER_SIZE then Err (OffsetTooSmall offset)
      else and_then (wal_reader_new r) (\<lambda>rd.
        let rd = rd\<lparr>wr_salt1 := salt1, wr_salt2 := salt2\<rparr> in
        if (offset - WAL_HEADER_SIZE) mod frame_size rd \<noteq> 0
        then Err (UnalignedOffset offset (wr_page_size rd))
        else let rd = rd\<lparr>wr_frame_n := (offset - WAL_HEADER_SIZE) div frame_size rd - 1\<rparr> in
        case read_frame_inner rd False of
          (Some f, rd) \<Rightarrow> Ok rd
        | (None, rd) \<Rightarrow> Err PrevFrameMismatch))"

definition wal_offset :: "wal_reader \<Rightarrow> nat" where
  "wal_offset rd =
     (if wr_frame_n rd = 0 then 0
      else WAL_HEADER_SIZE + (wr_frame_n rd - 1) * (WAL_FRAME_HEADER_SIZE + unat (wr_page_size rd)))"

lemma read_frame_inner_SomeD:
  assumes "read_frame_inner rd v = (Some f, rd')"
  shows "wr_frame_n rd' = wr_frame_n rd + 1" and "wr_page_size rd' = wr_page_size rd" and "wr_r rd' = wr_r rd"
    and "wr_salt1 rd' = wr_salt1 rd" and "wr_salt2 rd' = wr_salt2 rd" and "wr_big_endian rd' = wr_big_endian rd"
    and "next_frame_start rd + frame_size rd \<le> length (wr_r rd)"
    and "length (snd f) = unat (wr_page_size rd)"
  using assms
  by (auto simp: read_frame_inner_def Let_def read_at_def frame_size_def wal_size_defs next_frame_start_def
      split: if_splits prod.splits)

lemma read_frame_measure:
  assumes "read_frame rd = (Some f, rd')"
  shows "length (wr_r rd') - wr_frame_n rd' < length (wr_r rd) - wr_frame_n rd"
proof -
  note s = read_frame_inner_SomeD [OF assms [unfolded read_frame_def]]
  have "wr_frame_n rd * 1 \<le> wr_frame_n rd * frame_size rd"
    by (intro mult_le_mono) (simp_all add: frame_size_def wal_size_defs)
  then have "wr_frame_n rd < length (wr_r rd)"
    using s(7) unfolding next_frame_start_def wal_size_defs by linarith
  with s(1,3) show ?thesis by simp
qed

section \<open>The page map\<close>

text \<open>The hash maps are kept as association lists in key order; nothing depends on the order.\<close>

record page_map =
  pm_pages :: "(u32 \<times> nat) list"
  pm_max_offset :: nat
  pm_commit :: u32

definition page_map_default :: page_map where
  "page_map_default = \<lparr>pm_pages = [], pm_max_offset = 0, pm_commit = 0\<rparr>"

definition insert_all :: "(u32 \<times> nat) list \<Rightarrow> (u32 \<times> nat) list \<Rightarrow> (u32 \<times> nat) list" where
  "insert_all tx_map m = foldl (\<lambda>m (pgno, offset). btree_insert pgno offset m) m tx_map"

function page_map_loop ::
  "nat \<Rightarrow> (u32 \<times> nat) list \<Rightarrow> (u32 \<times> nat) list \<Rightarrow> u32 \<Rightarrow> wal_reader \<Rightarrow> ((u32 \<times> nat) list \<times> u32) \<times> wal_reader" where
  "page_map_loop end_offset m tx_map commit rd =
     (if end_offset \<le> next_frame_start rd then ((m, commit), rd)
      else case read_frame rd of
        (None, rd) \<Rightarrow> ((m, commit), rd)
      | (Some (fr, data), rd) \<Rightarrow>
          let tx_map = btree_insert (fr_pgno fr) (wal_offset rd) tx_map in
          if fr_commit fr \<noteq> 0 then page_map_loop end_offset (insert_all tx_map m) tx_map (fr_commit fr) rd
          else page_map_loop end_offset m tx_map commit rd)"
  by pat_completeness auto
termination
  by (relation "measure (\<lambda>(e, m, t, c, rd). length (wr_r rd) - wr_frame_n rd)")
     (auto dest: read_frame_measure [OF sym])

declare page_map_loop.simps [simp del]

definition page_map_until :: "nat \<Rightarrow> wal_reader \<Rightarrow> page_map \<times> wal_reader" where
  "page_map_until end_offset rd =
     (let ((m, commit), rd') = page_map_loop end_offset [] [] 0 rd;
          m = filter (\<lambda>(pgno, _). pgno \<le> commit) m
      in if m = [] then (page_map_default, rd')
         else (\<lparr>pm_pages = m,
                pm_max_offset = Max (set (map snd m)) + WAL_FRAME_HEADER_SIZE + unat (wr_page_size rd'),
                pm_commit = commit\<rparr>, rd'))"

text \<open>\<open>page_map\<close> is \<open>page_map_until(u64::MAX)\<close>.\<close>

definition wal_page_map :: "wal_reader \<Rightarrow> page_map \<times> wal_reader" where
  "wal_page_map rd = page_map_until (2 ^ 64 - 1) rd"

function frame_salts_loop ::
  "byte list \<Rightarrow> nat \<Rightarrow> u32 \<times> u32 \<Rightarrow> nat \<Rightarrow> (u32 \<times> u32) list \<Rightarrow> (u32 \<times> u32) list" where
  "frame_salts_loop r page_size until offset m =
     (let hdr = read_at r WAL_FRAME_HEADER_SIZE offset in
      if length hdr \<noteq> WAL_FRAME_HEADER_SIZE then m
      else let salts = (from_be (subslice 8 12 hdr), from_be (subslice 12 16 hdr));
               m = List.insert salts m in
      if salts = until then m
      else frame_salts_loop r page_size until (offset + (WAL_FRAME_HEADER_SIZE + page_size)) m)"
  by pat_completeness auto
termination
  by (relation "measure (\<lambda>(r, n, u, off, m). length r - off)") (auto simp: read_at_def wal_size_defs)

declare frame_salts_loop.simps [simp del]

definition frame_salts_until :: "wal_reader \<Rightarrow> u32 \<times> u32 \<Rightarrow> (u32 \<times> u32) list" where
  "frame_salts_until rd until =
     frame_salts_loop (wr_r rd) (unat (wr_page_size rd)) until WAL_HEADER_SIZE []"

section \<open>The frames of a WAL and its committed transactions\<close>

text \<open>The valid frames from the reader's position on, each with its page and its file offset.\<close>

type_synonym wal_frame = "frame \<times> byte list \<times> nat"

function wal_frames :: "nat \<Rightarrow> wal_reader \<Rightarrow> wal_frame list" where
  "wal_frames end_offset rd =
     (if end_offset \<le> next_frame_start rd then []
      else case read_frame rd of
        (None, rd) \<Rightarrow> []
      | (Some (fr, data), rd) \<Rightarrow> (fr, data, wal_offset rd) # wal_frames end_offset rd)"
  by pat_completeness auto
termination
  by (relation "measure (\<lambda>(e, rd). length (wr_r rd) - wr_frame_n rd)") (auto dest: read_frame_measure [OF sym])

declare wal_frames.simps [simp del]

definition fr_entry :: "wal_frame \<Rightarrow> u32 \<times> nat" where
  "fr_entry f = (fr_pgno (fst f), snd (snd f))"

text \<open>The frames of complete transactions: everything up to the last commit frame.\<close>

fun committed :: "wal_frame list \<Rightarrow> wal_frame list" where
  "committed [] = []"
| "committed (f # fs) =
     (if committed fs = [] \<and> fr_commit (fst f) = 0 then [] else f # committed fs)"

fun latest :: "wal_frame list \<Rightarrow> u32 \<Rightarrow> nat option" where
  "latest [] = Map.empty"
| "latest (f # fs) = [fst (fr_entry f) \<mapsto> snd (fr_entry f)] ++ latest fs"

definition final_commit :: "wal_frame list \<Rightarrow> u32" where
  "final_commit fs = (if committed fs = [] then 0 else fr_commit (fst (last (committed fs))))"

lemma committed_last_commit: "committed fs \<noteq> [] \<Longrightarrow> fr_commit (fst (last (committed fs))) \<noteq> 0"
  by (induction fs) (auto split: if_splits)

lemma committed_prefix: "\<exists>rest. fs = committed fs @ rest \<and> (\<forall>f \<in> set rest. fr_commit (fst f) = 0)"
proof (induction fs)
  case (Cons f fs)
  then obtain rest where rest: "fs = committed fs @ rest" "\<forall>f \<in> set rest. fr_commit (fst f) = 0" by blast
  show ?case
  proof (cases "committed fs = [] \<and> fr_commit (fst f) = 0")
    case True
    with rest show ?thesis by auto
  next
    case False
    with rest show ?thesis by (intro exI [of _ rest]) auto
  qed
qed simp

lemma map_of_insert_all:
  assumes "sorted_wrt (<) (map fst tx)"
  shows "map_of (insert_all tx m) = map_of m ++ map_of tx"
    and "sorted_wrt (<) (map fst m) \<Longrightarrow> sorted_wrt (<) (map fst (insert_all tx m))"
proof -
  have "map_of (insert_all tx m) = map_of m ++ map_of tx \<and>
     (sorted_wrt (<) (map fst m) \<longrightarrow> sorted_wrt (<) (map fst (insert_all tx m)))"
    using assms
  proof (induction tx arbitrary: m)
    case (Cons e tx)
    obtain k v where e: "e = (k, v)" by (cases e)
    have none: "map_of tx k = None" using Cons.prems e by (auto simp: map_of_eq_None_iff)
    have step: "insert_all (e # tx) m = insert_all tx (btree_insert k v m)"
      by (simp add: insert_all_def e)
    have ih: "map_of (insert_all tx (btree_insert k v m)) = map_of (btree_insert k v m) ++ map_of tx"
      "sorted_wrt (<) (map fst (btree_insert k v m)) \<Longrightarrow> sorted_wrt (<) (map fst (insert_all tx (btree_insert k v m)))"
      using Cons.IH [of "btree_insert k v m"] Cons.prems by (simp_all del: map_of_btree_insert)
    have "map_of (btree_insert k v m) ++ map_of tx = map_of m ++ map_of (e # tx)"
      using none by (auto simp: e map_add_def fun_eq_iff split: option.splits)
    with ih show ?case unfolding step using sorted_btree_insert by metis
  qed (simp add: insert_all_def)
  then show "map_of (insert_all tx m) = map_of m ++ map_of tx"
    "sorted_wrt (<) (map fst m) \<Longrightarrow> sorted_wrt (<) (map fst (insert_all tx m))" by auto
qed

lemma map_add_insert: "m ++ t(k \<mapsto> v) ++ l = m ++ t ++ [k \<mapsto> v] ++ l"
  by (auto simp: fun_eq_iff map_add_def split: option.splits)

lemma map_add_twice: "m ++ t ++ t ++ l = m ++ t ++ l"
  by (auto simp: fun_eq_iff map_add_def split: option.splits)

lemma page_map_loop_committed:
  assumes "page_map_loop end_offset m tx c rd = ((m', c'), rd')"
    and "sorted_wrt (<) (map fst tx)" and "sorted_wrt (<) (map fst m)"
  shows "sorted_wrt (<) (map fst m') \<and> wr_page_size rd' = wr_page_size rd \<and>
    (if committed (wal_frames end_offset rd) = [] then m' = m \<and> c' = c
     else map_of m' = map_of m ++ map_of tx ++ latest (committed (wal_frames end_offset rd)) \<and>
       c' = fr_commit (fst (last (committed (wal_frames end_offset rd)))))"
  using assms
proof (induction end_offset m tx c rd rule: page_map_loop.induct)
  case (1 end_offset m tx c rd)
  note eq = "1.prems"(1) [unfolded page_map_loop.simps [of end_offset m tx c rd]]
  show ?case
  proof (cases "end_offset \<le> next_frame_start rd")
    case True
    then have "wal_frames end_offset rd = []" by (subst wal_frames.simps) simp
    with True eq "1.prems" show ?thesis by simp
  next
    case go: False
    obtain f rd1 where step: "read_frame rd = (f, rd1)" by (cases "read_frame rd")
    show ?thesis
    proof (cases f)
      case None
      have "wr_page_size rd1 = wr_page_size rd"
        using step unfolding None read_frame_def
        by (auto simp: read_frame_inner_def Let_def split: if_splits prod.splits)
      moreover have "wal_frames end_offset rd = []" using go step None by (subst wal_frames.simps) simp
      ultimately show ?thesis using eq go step None "1.prems" by simp
    next
      case (Some q)
      obtain fr data where q: "q = (fr, data)" by (cases q)
      have rf: "read_frame rd = (Some (fr, data), rd1)" using step Some q by simp
      have size: "wr_page_size rd1 = wr_page_size rd"
        using read_frame_inner_SomeD(2) [OF rf [unfolded read_frame_def]] .
      let ?tx = "btree_insert (fr_pgno fr) (wal_offset rd1) tx"
      have fs: "wal_frames end_offset rd = (fr, data, wal_offset rd1) # wal_frames end_offset rd1"
        using go rf by (subst wal_frames.simps) simp
      have tx: "sorted_wrt (<) (map fst ?tx)" using "1.prems"(2) by (rule sorted_btree_insert)
      show ?thesis
      proof (cases "fr_commit fr = 0")
        case True
        have loop: "page_map_loop end_offset m ?tx c rd1 = ((m', c'), rd')" using eq go rf True by simp
        have "fr_commit fr \<noteq> 0 \<longleftrightarrow> False" using True by simp
        note ih = "1.IH"(2) [OF go rf [symmetric] refl refl refl _ loop tx "1.prems"(3)]
        from ih True size show ?thesis
          by (auto simp: fs fr_entry_def map_add_insert split: if_splits)
      next
        case False
        note m = map_of_insert_all [OF tx, of m]
        have loop: "page_map_loop end_offset (insert_all ?tx m) ?tx (fr_commit fr) rd1 = ((m', c'), rd')"
          using eq go rf False by (simp add: Let_def)
        note ih = "1.IH"(1) [OF go rf [symmetric] refl refl refl False loop tx m(2) [OF "1.prems"(3)]]
        have cs: "committed (wal_frames end_offset rd) =
            (fr, data, wal_offset rd1) # committed (wal_frames end_offset rd1)" using False by (simp add: fs)
        have one: "map_of m ++ map_of ?tx ++ l =
            map_of m ++ map_of tx ++ ([fr_pgno fr \<mapsto> wal_offset rd1] ++ l)" for l
          by (auto simp: fun_eq_iff map_add_def split: option.splits)
        show ?thesis
        proof (cases "committed (wal_frames end_offset rd1) = []")
          case True
          with ih m(1) size show ?thesis using one [of Map.empty] by (auto simp: cs fr_entry_def)
        next
          case ne: False
          have "map_of m' = map_of (insert_all ?tx m) ++ map_of ?tx ++ latest (committed (wal_frames end_offset rd1))"
            using ih unfolding if_not_P [OF ne] by blast
          also have "\<dots> = map_of m ++ map_of ?tx ++ latest (committed (wal_frames end_offset rd1))"
            unfolding m(1) by (rule map_add_twice)
          also have "\<dots> = map_of m ++ map_of tx ++ latest (committed (wal_frames end_offset rd))"
            unfolding cs latest.simps fr_entry_def fst_conv snd_conv by (rule one)
          finally have "map_of m' = map_of m ++ map_of tx ++ latest (committed (wal_frames end_offset rd))" .
          moreover have "sorted_wrt (<) (map fst m')" "wr_page_size rd' = wr_page_size rd"
            "c' = fr_commit (fst (last (committed (wal_frames end_offset rd))))"
            using ih ne size by (auto simp: cs)
          moreover have "committed (wal_frames end_offset rd) \<noteq> []" by (simp add: cs)
          ultimately show ?thesis by presburger
        qed
      qed
    qed
  qed
qed

section \<open>A concrete WAL\<close>

text \<open>Pages of eight bytes: one transaction of two pages and an uncommitted third frame.\<close>

definition demo_wal :: "byte list" where
  "demo_wal = [55, 127, 6, 131, 0, 45, 226, 24, 0, 0, 0, 8, 0, 0, 0, 0, 0, 0, 0, 1, 0, 0, 0, 2,
     22, 4, 198, 232, 188, 221, 158, 171, 0, 0, 0, 1, 0, 0, 0, 0, 0, 0, 0, 1, 0, 0, 0, 2,
     105, 169, 112, 218, 0, 112, 124, 32, 7, 7, 7, 7, 7, 7, 7, 7, 0, 0, 0, 2, 0, 0, 0, 2,
     0, 0, 0, 1, 0, 0, 0, 2, 221, 173, 95, 35, 81, 64, 209, 74, 9, 9, 9, 9, 9, 9, 9, 9,
     0, 0, 0, 1, 0, 0, 0, 0, 0, 0, 0, 1, 0, 0, 0, 2, 180, 34, 55, 43, 57, 86, 61, 232,
     5, 5, 5, 5, 5, 5, 5, 5]"

definition demo_wal_reader :: wal_reader where
  "demo_wal_reader = \<lparr>wr_r = demo_wal, wr_frame_n = 0, wr_big_endian = True, wr_page_size = 8, wr_seq = 0,
     wr_salt1 = 1, wr_salt2 = 2, wr_chksum1 = 369411816, wr_chksum2 = 3168640683\<rparr>"

lemma demo_wal_new: "wal_reader_new demo_wal = Ok demo_wal_reader"
  by code_simp

section \<open>What the scan returns\<close>

lemma read_frame_offset:
  assumes "read_frame rd = (Some f, rd')"
  shows "wal_offset rd' = next_frame_start rd" and "next_frame_start rd' = next_frame_start rd + frame_size rd"
    and "frame_size rd' = frame_size rd"
  using read_frame_inner_SomeD [OF assms [unfolded read_frame_def]]
  by (simp_all add: wal_offset_def next_frame_start_def frame_size_def)

lemma wal_frames_offsets:
  "sorted_wrt (<) (map (snd \<circ> snd) (wal_frames end_offset rd)) \<and>
   (\<forall>f \<in> set (wal_frames end_offset rd). next_frame_start rd \<le> snd (snd f))"
proof (induction end_offset rd rule: wal_frames.induct)
  case (1 end_offset rd)
  show ?case
  proof (cases "end_offset \<le> next_frame_start rd \<or> fst (read_frame rd) = None")
    case True
    then have "wal_frames end_offset rd = []" by (subst wal_frames.simps) (auto split: prod.splits option.splits)
    then show ?thesis by simp
  next
    case False
    then obtain fr data rd1 where rf: "read_frame rd = (Some (fr, data), rd1)"
      by (cases "read_frame rd") auto
    have fs: "wal_frames end_offset rd = (fr, data, wal_offset rd1) # wal_frames end_offset rd1"
      using False rf by (subst wal_frames.simps) simp
    have go: "\<not> end_offset \<le> next_frame_start rd" using False by simp
    have "0 < frame_size rd" by (simp add: frame_size_def wal_size_defs)
    with "1.IH" [OF go rf [symmetric] refl refl] read_frame_offset [OF rf] show ?thesis
      by (fastforce simp: fs)
  qed
qed

lemma latest_in_set: "latest fs k = Some v \<Longrightarrow> v \<in> set (map (snd \<circ> snd) fs)"
  by (induction fs) (auto simp: fr_entry_def map_add_Some_iff split: if_splits)

lemma latest_snoc: "latest (fs @ [f]) = (latest fs)(fst (fr_entry f) \<mapsto> snd (fr_entry f))"
proof (induction fs)
  case (Cons g fs)
  then show ?case by (simp only: append_Cons latest.simps map_add_upd)
qed (simp add: fun_eq_iff)

lemma max_offset_last:
  assumes "cs \<noteq> []" and "sorted_wrt (<) (map (snd \<circ> snd) cs)" and "sorted_wrt (<) (map fst m)"
    and "map_of m = latest cs" and "fr_pgno (fst (last cs)) \<le> c"
  shows "filter (\<lambda>(pgno, _). pgno \<le> c) m \<noteq> []"
    and "Max (set (map snd (filter (\<lambda>(pgno, _). pgno \<le> c) m))) = snd (snd (last cs))"
proof -
  let ?m = "filter (\<lambda>(pgno, _). pgno \<le> c) m" and ?l = "last cs"
  have cs: "cs = butlast cs @ [?l]" using assms(1) by simp
  have "latest cs (fr_pgno (fst ?l)) = Some (snd (snd ?l))"
    by (subst cs) (simp add: latest_snoc fr_entry_def)
  then have "(fr_pgno (fst ?l), snd (snd ?l)) \<in> set m" using assms(4) by (metis map_of_SomeD)
  then have in_m: "(fr_pgno (fst ?l), snd (snd ?l)) \<in> set ?m" using assms(5) by simp
  then show "?m \<noteq> []" by (metis empty_iff empty_set)
  show "Max (set (map snd ?m)) = snd (snd ?l)"
  proof (rule Max_eqI)
    show "snd (snd ?l) \<in> set (map snd ?m)" using in_m by force
    fix v assume "v \<in> set (map snd ?m)"
    then obtain k where "(k, v) \<in> set m" by auto
    moreover have "distinct (map fst m)" using assms(3) by (simp add: strict_sorted_iff)
    ultimately have "latest cs k = Some v" using assms(4) by (metis map_of_is_SomeI)
    then have "v \<in> set (map (snd \<circ> snd) cs)" by (rule latest_in_set)
    then obtain f where "f \<in> set cs" and v: "v = snd (snd f)" by auto
    then have "f \<in> set (butlast cs @ [?l])" using cs by simp
    then have "f \<in> set (butlast cs) \<or> f = ?l" by auto
    moreover have "\<forall>f \<in> set (butlast cs). snd (snd f) < snd (snd ?l)"
      using assms(2) by (subst (asm) cs) (simp add: sorted_wrt_append)
    ultimately show "v \<le> snd (snd ?l)" using v by auto
  qed simp
qed

text \<open>C7: the page map of a WAL scan is the committed state.  The map returned holds, for every page
  up to the final database size, the offset of the page's last frame among the frames of complete
  transactions; frames after the last commit frame do not appear; the commit size is that of the
  last commit frame, and the end offset is the end of the last commit frame whenever that frame's
  page is within the final size.\<close>

theorem page_map_committed:
  assumes "page_map_until end_offset rd = (pm, rd')"
  shows "\<exists>cs rest. wal_frames end_offset rd = cs @ rest \<and> (\<forall>f \<in> set rest. fr_commit (fst f) = 0) \<and>
    (cs = [] \<longrightarrow> pm = page_map_default) \<and>
    (cs \<noteq> [] \<longrightarrow> (let c = fr_commit (fst (last cs)) in
      c \<noteq> 0 \<and> map_of (pm_pages pm) = latest cs |` {..c} \<and>
      (pm_pages pm \<noteq> [] \<longrightarrow> pm_commit pm = c) \<and>
      (fr_pgno (fst (last cs)) \<le> c \<longrightarrow> pm_max_offset pm = snd (snd (last cs)) + frame_size rd)))"
proof -
  let ?fs = "wal_frames end_offset rd"
  let ?cs = "committed ?fs"
  obtain m c where loop: "page_map_loop end_offset [] [] 0 rd = ((m, c), rd')"
    and pm: "pm = (let m = filter (\<lambda>(pgno, _). pgno \<le> c) m in if m = [] then page_map_default
       else \<lparr>pm_pages = m, pm_max_offset = Max (set (map snd m)) + WAL_FRAME_HEADER_SIZE + unat (wr_page_size rd'),
             pm_commit = c\<rparr>)"
    using assms by (cases "page_map_loop end_offset [] [] 0 rd") (auto simp: page_map_until_def Let_def split: if_splits)
  from page_map_loop_committed [OF loop] have spec: "sorted_wrt (<) (map fst m)" "wr_page_size rd' = wr_page_size rd"
    "if ?cs = [] then m = [] \<and> c = 0 else map_of m = latest ?cs \<and> c = fr_commit (fst (last ?cs))" by auto
  obtain rest where rest: "?fs = ?cs @ rest" "\<forall>f \<in> set rest. fr_commit (fst f) = 0"
    using committed_prefix by blast
  show ?thesis
  proof (cases "?cs = []")
    case True
    with spec rest pm show ?thesis by (intro exI [of _ "[]"] exI [of _ rest]) simp
  next
    case False
    let ?m = "filter (\<lambda>(pgno, _). pgno \<le> c) m" and ?l = "last ?cs"
    have mc: "map_of m = latest ?cs" "c = fr_commit (fst ?l)" using spec(3) False by auto
    have pages: "map_of ?m = latest ?cs |` {..c}"
      by (simp add: map_of_filter_fst mc(1) atMost_def)
    have "pm_max_offset pm = snd (snd ?l) + frame_size rd" if "fr_pgno (fst ?l) \<le> c"
    proof -
      have "sorted_wrt (<) (map (snd \<circ> snd) (?cs @ rest))"
        using wal_frames_offsets [of end_offset rd] rest(1) by simp
      then have "sorted_wrt (<) (map (snd \<circ> snd) ?cs)" by (simp add: sorted_wrt_append)
      from max_offset_last [OF False this spec(1) mc(1) that] show ?thesis
        by (simp add: pm Let_def spec(2) frame_size_def)
    qed
    with False rest pages mc(2) committed_last_commit [OF False] show ?thesis
      by (intro exI [of _ ?cs] exI [of _ rest]) (auto simp: pm Let_def page_map_default_def split: if_splits)
  qed
qed

theorem page_map_committed_witness:
  "fst (page_map_until 1000 demo_wal_reader) =
     \<lparr>pm_pages = [(1, 32), (2, 64)], pm_max_offset = 96, pm_commit = 2\<rparr> \<and>
   (\<exists>cs rest. wal_frames 1000 demo_wal_reader = cs @ rest \<and> (\<forall>f \<in> set rest. fr_commit (fst f) = 0))"
proof -
  have "fst (page_map_until 1000 demo_wal_reader) =
     \<lparr>pm_pages = [(1, 32), (2, 64)], pm_max_offset = 96, pm_commit = 2\<rparr>" by code_simp
  moreover have "page_map_until 1000 demo_wal_reader =
    (fst (page_map_until 1000 demo_wal_reader), snd (page_map_until 1000 demo_wal_reader))" by simp
  from page_map_committed [OF this] have "\<exists>cs rest. wal_frames 1000 demo_wal_reader = cs @ rest \<and>
    (\<forall>f \<in> set rest. fr_commit (fst f) = 0)" by blast
  ultimately show ?thesis by blast
qed

section \<open>Resuming a scan\<close>

text \<open>Reading \<open>n\<close> frames in a row.\<close>

fun read_frames :: "nat \<Rightarrow> wal_reader \<Rightarrow> wal_reader option" where
  "read_frames 0 rd = Some rd"
| "read_frames (Suc n) rd = (case read_frame rd of (None, _) \<Rightarrow> None | (Some f, rd') \<Rightarrow> read_frames n rd')"

text \<open>A verified frame read is an unverified one from any checksum state.\<close>

lemma read_frame_unverified:
  assumes "read_frame rd = (Some f, rd')"
  shows "read_frame_inner (rd\<lparr>wr_chksum1 := c1, wr_chksum2 := c2\<rparr>) False = (Some f, rd')"
  using assms
  by (auto simp: read_frame_def read_frame_inner_def Let_def next_frame_start_def frame_size_def
      split: if_splits prod.splits)

lemma read_frames_last:
  assumes "read_frames (Suc n) rd = Some rd'"
  shows "\<exists>f c1 c2. read_frame (rd\<lparr>wr_frame_n := wr_frame_n rd + n, wr_chksum1 := c1, wr_chksum2 := c2\<rparr>) = (Some f, rd')"
  using assms
proof (induction n arbitrary: rd)
  case 0
  then obtain f where "read_frame rd = (Some f, rd')" by (auto split: prod.splits option.splits)
  then show ?case by (intro exI [of _ f] exI [of _ "wr_chksum1 rd"] exI [of _ "wr_chksum2 rd"]) simp
next
  case (Suc n)
  then obtain f rd1 where rf: "read_frame rd = (Some f, rd1)" and rest: "read_frames (Suc n) rd1 = Some rd'"
    by (auto split: prod.splits option.splits)
  note s = read_frame_inner_SomeD [OF rf [unfolded read_frame_def]]
  from Suc.IH [OF rest] obtain g c1 c2 where
    "read_frame (rd1\<lparr>wr_frame_n := wr_frame_n rd1 + n, wr_chksum1 := c1, wr_chksum2 := c2\<rparr>) = (Some g, rd')" by blast
  moreover have "wr_seq rd1 = wr_seq rd"
    using rf by (auto simp: read_frame_def read_frame_inner_def Let_def split: if_splits prod.splits)
  then have "rd1\<lparr>wr_frame_n := wr_frame_n rd1 + n, wr_chksum1 := c1, wr_chksum2 := c2\<rparr> =
      rd\<lparr>wr_frame_n := wr_frame_n rd + Suc n, wr_chksum1 := c1, wr_chksum2 := c2\<rparr>"
    using s by (cases rd; cases rd1) simp
  ultimately have "read_frame (rd\<lparr>wr_frame_n := wr_frame_n rd + Suc n, wr_chksum1 := c1, wr_chksum2 := c2\<rparr>) = (Some g, rd')"
    by simp
  then show ?case by blast
qed

text \<open>C8: resuming at an offset continues the scan.  Opening the WAL at the offset just after its
  first \<open>n > 0\<close> frames, with the salts of its header, gives exactly the reader that reading these
  frames from the start gives, so the later frames and the running checksum agree.\<close>

theorem wal_resume_continues:
  assumes "wal_reader_new r = Ok rd" and "read_frames n rd = Some rd'" and "0 < n"
  shows "wal_with_offset r (calc_wal_size (wr_page_size rd) n) (wr_salt1 rd) (wr_salt2 rd) = Ok rd'"
proof -
  obtain k where n: "n = Suc k" using assms(3) by (cases n) auto
  have fn: "wr_frame_n rd = 0"
    using assms(1) by (auto simp: wal_reader_new_def wal_read_header_def Let_def split: if_splits)
  from read_frames_last [OF assms(2) [unfolded n]] obtain f c1 c2 where
    rf: "read_frame (rd\<lparr>wr_frame_n := k, wr_chksum1 := c1, wr_chksum2 := c2\<rparr>) = (Some f, rd')"
    by (auto simp: fn)
  have rd: "rd\<lparr>wr_salt1 := wr_salt1 rd, wr_salt2 := wr_salt2 rd\<rparr> = rd" by simp
  have inner: "read_frame_inner (rd\<lparr>wr_frame_n := k\<rparr>) False = (Some f, rd')"
    using read_frame_unverified [OF rf, where ?c1.0 = "wr_chksum1 rd" and ?c2.0 = "wr_chksum2 rd"] by simp
  have sz: "calc_wal_size (wr_page_size rd) n = WAL_HEADER_SIZE + frame_size rd * n" "0 < frame_size rd"
    by (simp_all add: calc_wal_size_def frame_size_def wal_size_defs)
  then have "\<not> calc_wal_size (wr_page_size rd) n \<le> WAL_HEADER_SIZE" using assms(3) by simp
  then show ?thesis
    using inner sz assms(1) unfolding wal_with_offset_def by (simp add: Let_def rd n)
qed

theorem wal_resume_continues_witness:
  "\<exists>rd'. read_frames 2 demo_wal_reader = Some rd' \<and>
     wal_with_offset demo_wal (calc_wal_size (wr_page_size demo_wal_reader) 2) (wr_salt1 demo_wal_reader)
       (wr_salt2 demo_wal_reader) = Ok rd'"
proof -
  have "read_frames 2 demo_wal_reader \<noteq> None" by code_simp
  then obtain rd' where "read_frames 2 demo_wal_reader = Some rd'" by blast
  with wal_resume_continues [OF demo_wal_new this] show ?thesis by simp
qed

end
