(* ===== verification/LitersError.thy ===== *)
theory LitersError
  imports Storage Wal
begin

text \<open>
  Model of \<open>crates/liters/src/error.rs\<close>: the error type of the replication layer, its conversion
  from storage errors and the retry classification.
\<close>

datatype error =
    Sqlite string
  | ELtx ltx_error
  | EWal wal_error
  | EStorage storage_error
  | EIo io_error
  | EnableWalFailed string
  | LocalLtx txid string
  | Diverged txid txid
  | TxNotAvailable
  | LockBusy string int "int option"
  | Cancelled
  | Other string

type_synonym 'a res = "(error, 'a) result"

text \<open>Storage-level cancellation surfaces as \<open>Cancelled\<close>.\<close>

definition from_storage :: "storage_error \<Rightarrow> error" where
  "from_storage e = (case e of StCancelled \<Rightarrow> Cancelled | _ \<Rightarrow> EStorage e)"

definition is_transient :: "error \<Rightarrow> bool" where
  "is_transient e =
     (case e of EStorage s \<Rightarrow> storage_is_transient s | EIo _ \<Rightarrow> True | LockBusy _ _ _ \<Rightarrow> True | _ \<Rightarrow> False)"

text \<open>The \<open>?\<close> on a storage, LTX, WAL or I/O result.\<close>

abbreviation st_q :: "'a st_result \<Rightarrow> 'a res" where "st_q r \<equiv> map_err from_storage r"
abbreviation ltx_q :: "'a ltx_result \<Rightarrow> 'a res" where "ltx_q r \<equiv> map_err ELtx r"
abbreviation wal_q :: "'a wal_result \<Rightarrow> 'a res" where "wal_q r \<equiv> map_err EWal r"
abbreviation io_q :: "(io_error, 'a) result \<Rightarrow> 'a res" where "io_q r \<equiv> map_err EIo r"

lemma transient_from_storage: "is_transient (from_storage e) = storage_is_transient e"
  by (cases e) (simp_all add: is_transient_def from_storage_def storage_is_transient_def)

end
