(* ===== verification/DirClient.thy ===== *)
theory DirClient
  imports Storage "HOL-Library.Product_Lexorder"
begin

text \<open>
  Model of \<open>crates/liters-storage/src/dir.rs\<close>: the directory backend over a file system, a list of
  files with their paths (components), contents and modification times.  The temporary file of
  \<open>write_ltx_file\<close> is renamed onto its path before the call returns, so the state after a call holds
  the file under its final path only; operating system failures other than a missing file are not
  modelled.
\<close>

section \<open>Files and paths\<close>

type_synonym path = "string list"
type_synonym file_system = "(path \<times> byte list \<times> sys_time) list"

definition level_dir :: "path \<Rightarrow> u8 \<Rightarrow> path" where
  "level_dir root level = root @ [''ltx'', fmt_dec (unat level)]"

definition ltx_path :: "path \<Rightarrow> u8 \<Rightarrow> txid \<Rightarrow> txid \<Rightarrow> path" where
  "ltx_path root level min_txid max_txid = level_dir root level @ [format_filename min_txid max_txid]"

text \<open>\<open>fs::read_dir\<close>: the files directly in a directory, in whatever order the system lists them.\<close>

definition read_dir :: "path \<Rightarrow> file_system \<Rightarrow> (string \<times> byte list \<times> sys_time) list" where
  "read_dir dir fs =
     map (\<lambda>(p, f). (last p, f)) (filter (\<lambda>(p, f). p \<noteq> [] \<and> butlast p = dir) fs)"

section \<open>Operations\<close>

definition dir_entry_info :: "u8 \<Rightarrow> txid \<Rightarrow> string \<times> byte list \<times> sys_time \<Rightarrow> file_info option" where
  "dir_entry_info level seek e =
     (case parse_filename (fst e) of
        None \<Rightarrow> None
      | Some (min_txid, max_txid) \<Rightarrow>
          if min_txid < seek then None
          else Some (mk_info level min_txid max_txid (of_nat (length (fst (snd e)))) (Some (snd (snd e)))))"

definition dir_ltx_files :: "path \<Rightarrow> file_system \<Rightarrow> u8 \<Rightarrow> txid \<Rightarrow> bool \<Rightarrow> file_info list st_result" where
  "dir_ltx_files root fs level seek use_metadata =
     Ok (sort_key range_key (List.map_filter (dir_entry_info level seek) (read_dir (level_dir root level) fs)))"

definition dir_open_ltx_file ::
  "path \<Rightarrow> file_system \<Rightarrow> u8 \<Rightarrow> txid \<Rightarrow> txid \<Rightarrow> u64 \<Rightarrow> u64 \<Rightarrow> byte list st_result" where
  "dir_open_ltx_file root fs level min_txid max_txid offset sz =
     (case map_of fs (ltx_path root level min_txid max_txid) of
        None \<Rightarrow> Err (NotFound level min_txid max_txid)
      | Some (d, t) \<Rightarrow>
          let f = (if 0 < offset then drop (unat offset) d else d)
          in Ok (if 0 < sz then take (unat sz) f else f))"

definition fs_put :: "path \<Rightarrow> byte list \<times> sys_time \<Rightarrow> file_system \<Rightarrow> file_system" where
  "fs_put p f fs = (p, f) # filter (\<lambda>(q, _). q \<noteq> p) fs"

definition dir_write_ltx_file ::
  "path \<Rightarrow> file_system \<Rightarrow> u8 \<Rightarrow> txid \<Rightarrow> txid \<Rightarrow> reader \<Rightarrow> (file_info \<times> file_system) st_result" where
  "dir_write_ltx_file root fs level min_txid max_txid rd =
     and_then (map_err StIo (read_exact HEADER_SIZE rd)) (\<lambda>(hdr_buf, rd).
     and_then (map_err StLtx (header_decode hdr_buf)) (\<lambda>hdr.
     let timestamp = header_time hdr;
         path = ltx_path root level min_txid max_txid;
         sz = of_nat (HEADER_SIZE + length rd)
     in Ok (mk_info level min_txid max_txid sz (Some timestamp),
            fs_put path (hdr_buf @ rd, timestamp) fs)))"

fun dir_delete_ltx_files :: "path \<Rightarrow> file_system \<Rightarrow> file_info list \<Rightarrow> file_system st_result" where
  "dir_delete_ltx_files root fs [] = Ok fs"
| "dir_delete_ltx_files root fs (info # infos) =
     dir_delete_ltx_files root
       (filter (\<lambda>(q, _). q \<noteq> ltx_path root (fi_level info) (fi_min_txid info) (fi_max_txid info)) fs) infos"

definition dir_delete_all :: "path \<Rightarrow> file_system \<Rightarrow> file_system st_result" where
  "dir_delete_all root fs = Ok (filter (\<lambda>(q, _). take (length root) q \<noteq> root) fs)"

definition dir_client :: "path \<Rightarrow> file_system client" where
  "dir_client root =
     \<lparr>ltx_files = dir_ltx_files root, open_ltx_file = dir_open_ltx_file root,
      write_ltx_file = dir_write_ltx_file root, delete_ltx_files = dir_delete_ltx_files root,
      delete_all = dir_delete_all root\<rparr>"

section \<open>The directory backend meets the contract\<close>

definition dir_inv :: "file_system \<Rightarrow> bool" where
  "dir_inv fs \<longleftrightarrow> distinct (map fst fs)"

fun dir_contents :: "path \<Rightarrow> file_system \<Rightarrow> contents" where
  "dir_contents root fs (level, a, b) = map_of fs (ltx_path root level a b)"

lemma fmt_dec_inj: "fmt_dec m = fmt_dec n \<Longrightarrow> m = n"
proof -
  assume eq: "fmt_dec m = fmt_dec n"
  have "m < 2 ^ m" "n < 2 ^ n" by (rule less_exp)+
  moreover have "(2 :: nat) ^ m \<le> 2 ^ (m + n)" "(2 :: nat) ^ n \<le> 2 ^ (m + n)" by (rule power_increasing; simp)+
  ultimately have "m < 2 ^ (m + n)" "n < 2 ^ (m + n)" by linarith+
  then have "parse_dec (m + n) (fmt_dec m) = Some m" "parse_dec (m + n) (fmt_dec n) = Some n"
    by (auto intro: parse_fmt_dec)
  with eq show "m = n" by (metis option.inject)
qed

lemma ltx_path_inj:
  "ltx_path root l a b = ltx_path root l' a' b' \<longleftrightarrow> l = l' \<and> a = a' \<and> b = b'"
proof
  assume "ltx_path root l a b = ltx_path root l' a' b'"
  then have "fmt_dec (unat l) = fmt_dec (unat l')" and "format_filename a b = format_filename a' b'"
    by (simp_all add: ltx_path_def level_dir_def)
  then have "unat l = unat l'" and "parse_filename (format_filename a b) = parse_filename (format_filename a' b')"
    by (auto dest: fmt_dec_inj)
  then show "l = l' \<and> a = a' \<and> b = b'" by (simp add: parse_format_filename word_unat_eq_iff)
qed simp

lemma set_read_dir: "(name, f) \<in> set (read_dir dir fs) \<longleftrightarrow> (dir @ [name], f) \<in> set fs"
proof
  assume "(name, f) \<in> set (read_dir dir fs)"
  then obtain p where "(p, f) \<in> set fs" "p \<noteq> []" "butlast p = dir" "last p = name" by (auto simp: read_dir_def)
  then show "(dir @ [name], f) \<in> set fs" by (metis append_butlast_last_id)
next
  assume "(dir @ [name], f) \<in> set fs"
  then show "(name, f) \<in> set (read_dir dir fs)" by (force simp: read_dir_def)
qed

lemma distinct_read_dir: "dir_inv fs \<Longrightarrow> distinct (map fst (read_dir dir fs))"
proof (induction fs)
  case (Cons e fs)
  obtain p f where e: "e = (p, f)" by (cases e)
  have inv: "dir_inv fs" "p \<notin> fst ` set fs" using Cons.prems e by (auto simp: dir_inv_def)
  show ?case
  proof (cases "p \<noteq> [] \<and> butlast p = dir")
    case True
    then have p: "p = dir @ [last p]" by (metis append_butlast_last_id)
    have "last p \<notin> fst ` set (read_dir dir fs)"
    proof
      assume "last p \<in> fst ` set (read_dir dir fs)"
      then obtain f' where "(last p, f') \<in> set (read_dir dir fs)" by auto
      then have "(p, f') \<in> set fs" using p by (simp add: set_read_dir)
      with inv(2) show False by force
    qed
    with Cons.IH [OF inv(1)] True show ?thesis by (simp add: read_dir_def e image_image)
  next
    case False
    with Cons.IH [OF inv(1)] show ?thesis by (auto simp: read_dir_def e)
  qed
qed (simp add: read_dir_def)

lemma dir_entry_info_Some:
  "dir_entry_info level seek e = Some i \<longleftrightarrow>
   (\<exists>a b d t. e = (format_filename a b, d, t) \<and> seek \<le> a \<and> i = mk_info level a b (of_nat (length d)) (Some t))"
proof
  assume info: "dir_entry_info level seek e = Some i"
  obtain name d t where e: "e = (name, d, t)" by (cases e)
  with info obtain a b where ab: "parse_filename name = Some (a, b)" "\<not> a < seek"
    "i = mk_info level a b (of_nat (length d)) (Some t)"
    by (auto simp: dir_entry_info_def split: option.splits if_splits)
  then show "\<exists>a b d t. e = (format_filename a b, d, t) \<and> seek \<le> a \<and> i = mk_info level a b (of_nat (length d)) (Some t)"
    using format_parse_filename [OF ab(1)] e by (auto simp: not_less)
qed (auto simp: dir_entry_info_def parse_format_filename)

lemma sorted_wrt_strict_key:
  fixes key :: "'a \<Rightarrow> 'k :: linorder"
  assumes "distinct (map key xs)"
  shows "sorted_wrt (\<lambda>x y. key x < key y) (sort_key key xs)"
proof -
  have "set (sort_key key xs) = set xs" "length (sort_key key xs) = length xs" by simp_all
  moreover have "distinct xs" "inj_on key (set xs)" using assms by (auto simp: distinct_map)
  ultimately have "distinct (map key (sort_key key xs))" by (simp add: distinct_map)
  then have "sorted_wrt (<) (map key (sort_key key xs))" by (simp add: strict_sorted_iff)
  then show ?thesis by (simp add: sorted_wrt_map)
qed

lemma map_filter_set: "y \<in> set (List.map_filter f xs) \<longleftrightarrow> (\<exists>x \<in> set xs. f x = Some y)"
  by (force simp: List.map_filter_def)

lemma distinct_map_filter_keys:
  assumes "distinct (map fst es)"
  shows "distinct (map range_key (List.map_filter (dir_entry_info level seek) es))"
  using assms
proof (induction es)
  case (Cons e es)
  show ?case
  proof (cases "dir_entry_info level seek e")
    case None
    with Cons show ?thesis by (simp add: List.map_filter_def)
  next
    case (Some i)
    then obtain a b d t where e: "e = (format_filename a b, d, t)" "i = mk_info level a b (of_nat (length d)) (Some t)"
      by (auto simp: dir_entry_info_Some)
    have "range_key i \<notin> range_key ` set (List.map_filter (dir_entry_info level seek) es)"
    proof
      assume "range_key i \<in> range_key ` set (List.map_filter (dir_entry_info level seek) es)"
      then obtain d' t' where "(format_filename a b, d', t') \<in> set es"
        by (auto simp: map_filter_set dir_entry_info_Some range_key_def e)
      with Cons.prems e(1) show False by force
    qed
    with Cons Some show ?thesis by (simp add: List.map_filter_def image_image)
  qed
qed (simp add: List.map_filter_def)

lemma dir_listing:
  assumes "dir_inv fs"
  shows "is_listing (dir_contents root fs) level seek
    (sort_key range_key (List.map_filter (dir_entry_info level seek) (read_dir (level_dir root level) fs)))"
proof -
  let ?es = "read_dir (level_dir root level) fs"
  have "distinct (map range_key (List.map_filter (dir_entry_info level seek) ?es))"
    by (rule distinct_map_filter_keys [OF distinct_read_dir [OF assms]])
  from sorted_wrt_strict_key [OF this]
  have "sorted_wrt range_less (sort_key range_key (List.map_filter (dir_entry_info level seek) ?es))"
    by (rule sorted_wrt_mono_rel [rotated]) (auto simp: range_key_def range_less_def less_prod_def)
  moreover have "(format_filename a b, d, t) \<in> set ?es \<longleftrightarrow> map_of fs (ltx_path root level a b) = Some (d, t)" for a b d t
    using assms by (simp add: set_read_dir ltx_path_def dir_inv_def)
  then have "i \<in> set (List.map_filter (dir_entry_info level seek) ?es) \<longleftrightarrow>
      (\<exists>a b d t. i = mk_info level a b (of_nat (length d)) (Some t) \<and>
         dir_contents root fs (level, a, b) = Some (d, t) \<and> seek \<le> a)" for i
    unfolding map_filter_set dir_entry_info_Some dir_contents.simps by blast
  ultimately show ?thesis unfolding is_listing_def set_sort by blast
qed

lemma map_of_filter_neq: "map_of (filter (\<lambda>(q, _). q \<noteq> p) fs) = (map_of fs)(p := None)"
  by (induction fs) (auto simp: fun_eq_iff)

lemma dir_inv_filter: "dir_inv fs \<Longrightarrow> dir_inv (filter P fs)"
  by (simp add: dir_inv_def distinct_map_filter)

lemma dir_delete_contents:
  "dir_inv fs \<Longrightarrow> \<exists>fs'. dir_delete_ltx_files root fs infos = Ok fs' \<and> dir_inv fs' \<and>
     dir_contents root fs' = dir_contents root fs |` (- (info_key ` set infos))"
proof (induction infos arbitrary: fs)
  case (Cons i infos)
  let ?fs = "filter (\<lambda>(q, _). q \<noteq> ltx_path root (fi_level i) (fi_min_txid i) (fi_max_txid i)) fs"
  obtain fs' where "dir_delete_ltx_files root ?fs infos = Ok fs'" "dir_inv fs'"
    "dir_contents root fs' = dir_contents root ?fs |` (- (info_key ` set infos))"
    using Cons.IH [OF dir_inv_filter [OF Cons.prems]] by blast
  moreover have "dir_contents root ?fs = dir_contents root fs |` (- {info_key i})"
    by (auto simp: fun_eq_iff map_of_filter_neq ltx_path_inj info_key_def restrict_map_def)
  ultimately show ?case by (auto simp: restrict_map_def fun_eq_iff)
qed (simp add: restrict_map_def)

interpretation dir: replica_client "dir_client root" dir_inv "dir_contents root" for root
proof
  fix s level seek use_metadata assume "dir_inv s"
  then show "\<exists>fs. ltx_files (dir_client root) s level seek use_metadata = Ok fs \<and>
      is_listing (dir_contents root s) level seek fs"
    using dir_listing by (simp add: dir_client_def dir_ltx_files_def)
next
  fix s level a b
  show "open_ltx_file (dir_client root) s level a b 0 0 =
     (case dir_contents root s (level, a, b) of None \<Rightarrow> Err (NotFound level a b) | Some (d, t) \<Rightarrow> Ok d)"
    by (simp add: dir_client_def dir_open_ltx_file_def split: option.splits)
next
  fix s and rd :: reader and h level a b
  assume inv: "dir_inv s" and rd: "HEADER_SIZE \<le> length rd" "header_decode (take HEADER_SIZE rd) = Ok h"
  let ?s = "fs_put (ltx_path root level a b) (rd, header_time h) s"
  have "dir_inv ?s" using dir_inv_filter [OF inv] by (auto simp: fs_put_def dir_inv_def)
  moreover have "dir_contents root ?s = (dir_contents root s)((level, a, b) \<mapsto> (rd, header_time h))"
    by (auto simp: fun_eq_iff fs_put_def map_of_filter_neq ltx_path_inj)
  moreover have "dir_write_ltx_file root s level a b rd =
      Ok (mk_info level a b (of_nat (length rd)) (Some (header_time h)), ?s)"
    using rd by (simp add: dir_write_ltx_file_def read_exact_def Let_def)
  ultimately show "\<exists>s'. write_ltx_file (dir_client root) s level a b rd =
      Ok (mk_info level a b (of_nat (length rd)) (Some (header_time h)), s') \<and>
      dir_inv s' \<and> dir_contents root s' = (dir_contents root s)((level, a, b) \<mapsto> (rd, header_time h))"
    by (auto simp: dir_client_def)
next
  fix s level a b and rd :: reader and r
  assume "write_ltx_file (dir_client root) s level a b rd = Ok r"
  then show "HEADER_SIZE \<le> length rd \<and> (\<exists>h. header_decode (take HEADER_SIZE rd) = Ok h)"
    by (auto simp: dir_client_def dir_write_ltx_file_def read_exact_def and_then_eq_Ok map_err_eq_Ok split: if_splits)
next
  fix s infos assume "dir_inv s"
  then show "\<exists>s'. delete_ltx_files (dir_client root) s infos = Ok s' \<and> dir_inv s' \<and>
      dir_contents root s' = dir_contents root s |` (- (info_key ` set infos))"
    using dir_delete_contents by (simp add: dir_client_def)
qed

text \<open>Evaluation of the directory operations on concrete paths.\<close>

lemma fmt_dec_digits:
  "fmt_dec 0 = ''0''" "fmt_dec (Suc 0) = ''1''" "fmt_dec 2 = ''2''" "fmt_dec 3 = ''3''" "fmt_dec 4 = ''4''"
  "fmt_dec 5 = ''5''" "fmt_dec 6 = ''6''" "fmt_dec 7 = ''7''" "fmt_dec 8 = ''8''" "fmt_dec 9 = ''9''"
  by code_simp+

lemma format_filename_inj: "format_filename a b = format_filename a' b' \<longleftrightarrow> a = a' \<and> b = b'"
  by (metis parse_format_filename option.inject prod.inject)

lemmas dir_eval =
  dir_client_def dir_ltx_files_def level_dir_def read_dir_def dir_entry_info_def parse_format_filename
  range_key_def fmt_dec_digits List.map_filter_def

text \<open>C11: what the directory backend writes it reads back.  Writing a file whose header decodes makes
  it readable under its level and transaction range with exactly its bytes, adds it to the level's
  listing with the header's timestamp, and changes no other file.\<close>

theorem dir_write_then_read:
  assumes "dir_inv fs" and "HEADER_SIZE \<le> length rd" and "header_decode (take HEADER_SIZE rd) = Ok h"
  shows "\<exists>fs' fs_listed. dir_write_ltx_file root fs level a b rd =
       Ok (mk_info level a b (of_nat (length rd)) (Some (header_time h)), fs') \<and> dir_inv fs' \<and>
     dir_open_ltx_file root fs' level a b 0 0 = Ok rd \<and>
     dir_ltx_files root fs' level 0 False = Ok fs_listed \<and>
     mk_info level a b (of_nat (length rd)) (Some (header_time h)) \<in> set fs_listed \<and>
     (\<forall>level' a' b'. (level', a', b') \<noteq> (level, a, b) \<longrightarrow>
        dir_open_ltx_file root fs' level' a' b' 0 0 = dir_open_ltx_file root fs level' a' b' 0 0)"
proof -
  obtain fs' where fs': "write_ltx_file (dir_client root) fs level a b rd =
        Ok (mk_info level a b (of_nat (length rd)) (Some (header_time h)), fs')"
      "dir_inv fs'" "dir_contents root fs' = (dir_contents root fs)((level, a, b) \<mapsto> (rd, header_time h))"
    using dir.write_ltx_file_contents [OF assms] by blast
  obtain L where L: "ltx_files (dir_client root) fs' level 0 False = Ok L"
      "is_listing (dir_contents root fs') level 0 L" using dir.ltx_files_listing [OF fs'(2)] by blast
  have "mk_info level a b (of_nat (length rd)) (Some (header_time h)) \<in> set L"
    using L(2) fs'(3) unfolding is_listing_def by auto
  moreover have "open_ltx_file (dir_client root) fs' level a b 0 0 = Ok rd"
    using dir.open_ltx_file_contents [OF fs'(2), of root level a b] fs'(3) by simp
  moreover have "open_ltx_file (dir_client root) fs' level' a' b' 0 0 = open_ltx_file (dir_client root) fs level' a' b' 0 0"
    if "(level', a', b') \<noteq> (level, a, b)" for level' a' b'
  proof -
    have "dir_contents root fs' (level', a', b') = dir_contents root fs (level', a', b')"
      unfolding fs'(3) by (rule fun_upd_other [OF that])
    then show ?thesis using dir.open_ltx_file_contents [OF fs'(2), of root level' a' b']
      dir.open_ltx_file_contents [OF assms(1), of root level' a' b'] by (simp only:)
  qed
  ultimately show ?thesis using fs'(1,2) L(1) by (auto simp: dir_client_def)
qed

theorem dir_write_then_read_witness:
  "\<exists>fs' listed. dir_write_ltx_file [] [] 0 1 1 (header_encode header_default) =
       Ok (mk_info 0 1 1 (of_nat (length (header_encode header_default))) (Some (header_time header_default)), fs') \<and>
     dir_open_ltx_file [] fs' 0 1 1 0 0 = Ok (header_encode header_default) \<and>
     dir_ltx_files [] fs' 0 0 False = Ok listed \<and> listed \<noteq> []"
proof -
  have "dir_inv []" "HEADER_SIZE \<le> length (header_encode header_default)"
    "header_decode (take HEADER_SIZE (header_encode header_default)) = Ok header_default"
    by (simp_all add: dir_inv_def)
  from dir_write_then_read [OF this, of "[]" 0 1 1] show ?thesis by (elim exE conjE) (intro exI conjI, assumption+, auto)
qed

end
