(* ===== verification/Lz4Frame.thy ===== *)
theory Lz4Frame
  imports LtxTypes
begin

text \<open>
  Model of \<open>crates/ltx/src/lz4f.rs\<close>: one standalone LZ4 frame per page.  The raw block codec
  (\<open>lz4_flex::block\<close>) and XxHash32 (\<open>twox_hash\<close>) are other packages: together with CRC-64 they are
  the fields of the record \<open>externs\<close>, the first argument of the codec.  \<open>lz4_ok\<close> states what the
  codec relies on: the block format's own round trip.
\<close>

section \<open>External codecs\<close>

record externs =
  x_crc64 :: crc
  x_xxh32 :: "byte list \<Rightarrow> u32"
  x_lz4_compress :: "byte list \<Rightarrow> byte list"
  x_lz4_decompress :: "byte list \<Rightarrow> nat \<Rightarrow> (string, byte list) result"

text \<open>
  \<open>compress\<close> never produces an empty block, and \<open>decompress_into\<close> a buffer with enough room gives
  the compressed bytes back.
\<close>

definition lz4_ok :: "externs \<Rightarrow> bool" where
  "lz4_ok x \<longleftrightarrow>
     (\<forall>b cap. b \<noteq> [] \<longrightarrow> length b \<le> cap \<longrightarrow>
        x_lz4_compress x b \<noteq> [] \<and> x_lz4_decompress x (x_lz4_compress x b) cap = Ok b)"

section \<open>The frame format\<close>

definition FRAME_MAGIC :: u32 where "FRAME_MAGIC = 0x184D2204"
definition FLG :: byte where "FLG = 0x64"
definition BD :: byte where "BD = 0x40"

definition header_checksum :: "externs \<Rightarrow> byte list \<Rightarrow> byte" where
  "header_checksum x desc = ucast (drop_bit 8 (x_xxh32 x desc))"

function chunks :: "nat \<Rightarrow> 'a list \<Rightarrow> 'a list list" where
  "chunks n xs = (if xs = [] \<or> n = 0 then [] else take n xs # chunks n (drop n xs))"
  by pat_completeness auto
termination
  by (relation "measure (\<lambda>(n, xs). length xs)") auto

declare chunks.simps [simp del]

definition compress_block :: "externs \<Rightarrow> byte list \<Rightarrow> byte list" where
  "compress_block x block =
     (let compressed = x_lz4_compress x block
      in if length block \<le> length compressed
         then le32 (of_nat (length block) OR 0x80000000) @ block
         else le32 (of_nat (length compressed)) @ compressed)"

definition compress_frame :: "externs \<Rightarrow> byte list \<Rightarrow> byte list" where
  "compress_frame x data =
     le32 FRAME_MAGIC @ [FLG, BD, header_checksum x [FLG, BD]] @
     concat (map (compress_block x) (chunks (64 * 1024) data)) @
     le32 0 @ le32 (x_xxh32 x data)"

definition read_exact_into :: "nat \<Rightarrow> reader \<Rightarrow> (byte list \<times> reader) ltx_result" where
  "read_exact_into n r = map_err LtxIo (read_exact n r)"

definition read_u32_le :: "reader \<Rightarrow> (u32 \<times> reader) ltx_result" where
  "read_u32_le r = and_then (read_exact_into 4 r) (\<lambda>(b, r'). Ok (from_le b, r'))"

lemma read_exact_into_append [simp]:
  "length xs = n \<Longrightarrow> read_exact_into n (xs @ ys) = Ok (xs, ys)"
  by (simp add: read_exact_into_def)

lemma read_exact_into_consumes: "read_exact_into n r = Ok (xs, ys) \<Longrightarrow> length ys + n = length r"
  by (auto simp: read_exact_into_def map_err_eq_Ok dest: read_exact_consumes)

lemma read_u32_le_append [simp]: "read_u32_le (le32 w @ ys) = Ok (w, ys)"
  by (simp add: read_u32_le_def)

lemma read_u32_le_consumes: "read_u32_le r = Ok (w, ys) \<Longrightarrow> length ys + 4 = length r"
  by (auto simp: read_u32_le_def and_then_eq_Ok dest: read_exact_into_consumes split: prod.splits)

lemma read_exact_into_suffix: "read_exact_into n r = Ok (xs, ys) \<Longrightarrow> suffix ys r"
  by (auto simp: read_exact_into_def map_err_eq_Ok dest: read_exact_suffix)

lemma read_u32_le_suffix: "read_u32_le r = Ok (w, ys) \<Longrightarrow> suffix ys r"
  by (auto simp: read_u32_le_def and_then_eq_Ok dest: read_exact_into_suffix split: prod.splits)

text \<open>The optional per-block checksum.\<close>

definition check_block :: "externs \<Rightarrow> bool \<Rightarrow> byte list \<Rightarrow> reader \<Rightarrow> reader ltx_result" where
  "check_block x block_checksum block_buf r =
     (if \<not> block_checksum then Ok r
      else and_then (read_exact_into 4 r) (\<lambda>(b, r').
        if from_le b \<noteq> x_xxh32 x block_buf then Err (Lz4 ''block checksum mismatch'') else Ok r'))"

lemma check_block_suffix: "check_block x c b r = Ok r' \<Longrightarrow> suffix r' r"
  by (auto simp: check_block_def and_then_eq_Ok dest: read_exact_into_suffix split: if_splits prod.splits)

lemma check_block_consumes: "check_block x c b r = Ok r' \<Longrightarrow> length r' \<le> length r"
  by (auto simp: check_block_def and_then_eq_Ok dest: read_exact_into_consumes split: if_splits prod.splits)

text \<open>
  The block loop.  \<open>acc\<close> is the filled prefix of the destination, \<open>dst_len\<close> the destination's
  length; the destination beyond the prefix is never read.
\<close>

function read_blocks ::
  "externs \<Rightarrow> bool \<Rightarrow> nat \<Rightarrow> nat \<Rightarrow> byte list \<Rightarrow> reader \<Rightarrow> (byte list \<times> reader) ltx_result" where
  "read_blocks x block_checksum max_block_size dst_len acc r =
     and_then (read_u32_le r) (\<lambda>(raw_size, r1).
       if raw_size = 0 then Ok (acc, r1)
       else let uncompressed = (raw_size AND 0x80000000 \<noteq> 0);
                size = unat (raw_size AND 0x7FFFFFFF)
            in if max_block_size < size
               then Err (Lz4 (''block size '' @ fmt_dec size @ '' exceeds frame max '' @ fmt_dec max_block_size))
               else and_then (read_exact_into size r1) (\<lambda>(block_buf, r2).
                 and_then (check_block x block_checksum block_buf r2) (\<lambda>r3.
                   if uncompressed then
                     (if dst_len < length acc + size
                      then Err (Lz4 ''frame content longer than expected page size'')
                      else read_blocks x block_checksum max_block_size dst_len (acc @ block_buf) r3)
                   else
                     and_then (map_err (\<lambda>e. Lz4 (''block decompress: '' @ e))
                                 (x_lz4_decompress x block_buf (dst_len - length acc)))
                       (\<lambda>out. read_blocks x block_checksum max_block_size dst_len (acc @ out) r3))))"
  by pat_completeness auto
termination
  by (relation "measure (\<lambda>(x, c, m, n, acc, r). length r)")
     (auto dest!: read_u32_le_consumes read_exact_into_consumes check_block_consumes)

declare read_blocks.simps [simp del]

definition max_block_size_of :: "byte \<Rightarrow> nat ltx_result" where
  "max_block_size_of bd =
     (let m = bd AND 0x70
      in if m = 0x40 then Ok (64 * 1024)
         else if m = 0x50 then Ok (256 * 1024)
         else if m = 0x60 then Ok (1024 * 1024)
         else if m = 0x70 then Ok (4 * 1024 * 1024)
         else Err (Lz4 (''invalid BD byte: 0x'' @ fmt_hex0 2 (unat bd))))"

text \<open>
  \<open>decompress_frame\<close> with a destination of \<open>dst_len\<close> bytes: the content and the input after the
  frame.
\<close>

definition decompress_frame :: "externs \<Rightarrow> reader \<Rightarrow> nat \<Rightarrow> (byte list \<times> reader) ltx_result" where
  "decompress_frame x r dst_len =
     and_then (read_u32_le r) (\<lambda>(magic, r).
       if magic \<noteq> FRAME_MAGIC then Err (Lz4 ''bad frame magic'')
       else and_then (read_exact_into 2 r) (\<lambda>(desc, r).
         let flg = desc ! 0; bd = desc ! 1 in
         if drop_bit 6 flg \<noteq> 1
         then Err (Lz4 (''unsupported frame version: FLG=0x'' @ fmt_hex0 2 (unat flg)))
         else let block_checksum = (flg AND 0x10 \<noteq> 0);
                  content_size_present = (flg AND 0x08 \<noteq> 0);
                  content_checksum = (flg AND 0x04 \<noteq> 0);
                  dict_id_present = (flg AND 0x01 \<noteq> 0) in
         and_then (max_block_size_of bd) (\<lambda>max_block_size.
         and_then (if content_size_present then read_exact_into 8 r else Ok ([], r)) (\<lambda>(cs, r).
         and_then (if dict_id_present then read_exact_into 4 r else Ok ([], r)) (\<lambda>(di, r).
         and_then (read_exact_into 1 r) (\<lambda>(hc, r).
           if hc ! 0 \<noteq> header_checksum x ([flg, bd] @ cs @ di)
           then Err (Lz4 ''frame descriptor checksum mismatch'')
           else and_then (read_blocks x block_checksum max_block_size dst_len [] r) (\<lambda>(content, r).
             and_then
               (if content_checksum then and_then (read_exact_into 4 r) (\<lambda>(b, r').
                  if from_le b \<noteq> x_xxh32 x content then Err (Lz4 ''content checksum mismatch'') else Ok r')
                else Ok r) (\<lambda>r.
             if length content \<noteq> dst_len
             then Err (Lz4 (''frame content length mismatch: got '' @ fmt_dec (length content) @
                    '', expected '' @ fmt_dec dst_len))
             else Ok (content, r)))))))))"

section \<open>The frame round trip\<close>

lemma concat_chunks: "0 < n \<Longrightarrow> concat (chunks n xs) = xs"
proof (induction n xs rule: chunks.induct)
  case (1 n xs)
  then show ?case by (subst chunks.simps) auto
qed

lemma chunks_bounds: "b \<in> set (chunks n xs) \<Longrightarrow> b \<noteq> [] \<and> length b \<le> n"
proof (induction n xs rule: chunks.induct)
  case (1 n xs)
  show ?case
  proof (cases "xs = [] \<or> n = 0")
    case True
    with "1.prems" show ?thesis by (simp add: chunks.simps [of n xs])
  next
    case False
    with "1.prems" have "b = take n xs \<or> b \<in> set (chunks n (drop n xs))"
      by (simp add: chunks.simps [of n xs])
    with False "1.IH" show ?thesis by auto
  qed
qed

lemma small_not_bit31: "n < 2 ^ 31 \<Longrightarrow> \<not> bit (of_nat n :: u32) 31"
  using bit_of_nat_iff [where ?'a = u32, of n 31] by (simp add: bit_iff_odd [of n])

lemma block_size_word:
  assumes "n < 2 ^ 31"
  shows "(of_nat n OR 0x80000000) AND (0x7FFFFFFF :: u32) = of_nat n"
    and "(of_nat n OR 0x80000000) AND (0x80000000 :: u32) \<noteq> 0"
    and "of_nat n AND (0x80000000 :: u32) = 0"
    and "of_nat n AND (0x7FFFFFFF :: u32) = of_nat n"
proof -
  have top: "(0x80000000 :: u32) = push_bit 31 1" and low: "(0x7FFFFFFF :: u32) = mask 31"
    by (simp_all add: mask_eq_exp_minus_1)
  have k: "k < 31" if "bit (of_nat n :: u32) k" for k
    using that small_not_bit31 [OF assms] bit_imp_le_length [OF that]
    by (cases "k = 31") auto
  show "(of_nat n OR 0x80000000) AND (0x7FFFFFFF :: u32) = of_nat n"
    unfolding top low
    by (rule bit_word_eqI) (auto simp only: bit_and_iff bit_or_iff bit_push_bit_iff bit_mask_iff bit_1_iff possible_bit_word dest: k)
  show "of_nat n AND (0x7FFFFFFF :: u32) = of_nat n"
    unfolding low
    by (rule bit_word_eqI) (auto simp only: bit_and_iff bit_mask_iff possible_bit_word dest: k)
  show "of_nat n AND (0x80000000 :: u32) = 0"
    unfolding top by (rule bit_word_eqI) (auto simp only: bit_and_iff bit_push_bit_iff bit_1_iff bit_0_eq dest: k)
  have "bit ((of_nat n OR 0x80000000) AND (0x80000000 :: u32)) 31"
    unfolding top by (simp only: bit_and_iff bit_or_iff bit_push_bit_iff bit_1_iff) simp
  then show "(of_nat n OR 0x80000000) AND (0x80000000 :: u32) \<noteq> 0"
    by (metis bit_0_eq bot_apply bot_bool_def)
qed

lemma unat_small_u32: "n < 2 ^ 31 \<Longrightarrow> unat (of_nat n :: u32) = n"
  by (simp add: unsigned_of_nat take_bit_nat_eq_self)

text \<open>Reading back one encoded block: the loop continues with the block appended.\<close>

lemma read_blocks_compress_block:
  assumes "lz4_ok x" and "b \<noteq> []" and "length b \<le> 65536" and "length acc + length b \<le> n"
  shows "read_blocks x False (65536) n acc (compress_block x b @ rest) =
         read_blocks x False (65536) n (acc @ b) rest"
proof -
  let ?c = "x_lz4_compress x b"
  have cap: "length b \<le> n - length acc" using assms(4) by linarith
  have c: "?c \<noteq> []" "x_lz4_decompress x ?c (n - length acc) = Ok b"
    using assms(1,2) cap by (auto simp: lz4_ok_def)
  have nz: "(of_nat k :: u32) \<noteq> 0" if "0 < k" "k < 2 ^ 31" for k
    using unat_small_u32 [OF that(2)] that(1) by (metis unsigned_0 less_numeral_extra(3))
  have or_nz: "(of_nat k OR 0x80000000 :: u32) \<noteq> 0" if "k < 2 ^ 31" for k
    using block_size_word(2) [OF that] by (metis and.commute and_zero_eq)
  show ?thesis
  proof (cases "length b \<le> length ?c")
    case True
    have len: "length b < 2 ^ 31" using assms(3) by simp
    show ?thesis
      using True assms(3,4) or_nz [OF len]
      by (simp add: compress_block_def Let_def read_blocks.simps [of x False _ n acc]
          block_size_word [OF len] unat_small_u32 [OF len] check_block_def)
  next
    case False
    then have len: "length ?c < 2 ^ 31" "length ?c \<le> 65536" using assms(3) by simp_all
    show ?thesis
      using False c nz [OF _ len(1)] len(2)
      by (simp add: compress_block_def Let_def read_blocks.simps [of x False _ n acc]
          block_size_word [OF len(1)] unat_small_u32 [OF len(1)] check_block_def)
  qed
qed

lemma read_blocks_frame:
  assumes "lz4_ok x" and "\<forall>b \<in> set bs. b \<noteq> [] \<and> length b \<le> 65536"
    and "length acc + length (concat bs) \<le> n"
  shows "read_blocks x False (65536) n acc (concat (map (compress_block x) bs) @ le32 0 @ rest) =
         Ok (acc @ concat bs, rest)"
  using assms(2,3)
proof (induction bs arbitrary: acc)
  case Nil
  then show ?case by (simp add: read_blocks.simps [of x False])
next
  case (Cons b bs)
  have "read_blocks x False 65536 n acc
          (compress_block x b @ concat (map (compress_block x) bs) @ le32 0 @ rest) =
        read_blocks x False 65536 n (acc @ b) (concat (map (compress_block x) bs) @ le32 0 @ rest)"
    using Cons.prems assms(1) by (intro read_blocks_compress_block) auto
  also have "\<dots> = Ok ((acc @ b) @ concat bs, rest)"
    using Cons.prems by (intro Cons.IH) auto
  finally show ?case by simp
qed

lemma decompress_compress_frame:
  assumes "lz4_ok x" and "length data = n"
  shows "decompress_frame x (compress_frame x data @ rest) n = Ok (data, rest)"
proof -
  let ?bs = "chunks (65536) data"
  let ?body = "concat (map (compress_block x) ?bs) @ le32 0 @ le32 (x_xxh32 x data) @ rest"
  have data: "concat ?bs = data" by (simp add: concat_chunks)
  have blocks: "read_blocks x False (65536) n [] ?body = Ok (data, le32 (x_xxh32 x data) @ rest)"
    using read_blocks_frame [OF assms(1), of ?bs "[]" n "le32 (x_xxh32 x data) @ rest"]
      assms(2) chunks_bounds [of _ 65536 data] by (simp add: data)
  have flg: "drop_bit 6 FLG = 1" "FLG AND 0x10 = 0" "FLG AND 0x08 = 0" "FLG AND 0x04 \<noteq> 0" "FLG AND 0x01 = 0"
    and bd: "max_block_size_of BD = Ok (65536)"
    by (simp_all add: FLG_def BD_def max_block_size_of_def Let_def)
  have desc: "read_exact_into 2 (FLG # BD # header_checksum x [FLG, BD] # ?body) =
      Ok ([FLG, BD], header_checksum x [FLG, BD] # ?body)"
    using read_exact_into_append [of "[FLG, BD]" 2] by simp
  have hc: "read_exact_into 1 (header_checksum x [FLG, BD] # ?body) = Ok ([header_checksum x [FLG, BD]], ?body)"
    using read_exact_into_append [of "[header_checksum x [FLG, BD]]" 1] by simp
  show ?thesis
    unfolding decompress_frame_def compress_frame_def
    using blocks desc hc assms(2) by (simp add: Let_def flg bd)
qed

lemma decompress_frame_length: "decompress_frame x r n = Ok (d, r') \<Longrightarrow> length d = n"
  by (auto simp: decompress_frame_def and_then_eq_Ok Let_def split: prod.splits if_splits)

lemma read_blocks_suffix: "read_blocks x c m n acc r = Ok (d, r') \<Longrightarrow> suffix r' r"
proof (induction x c m n acc r arbitrary: d r' rule: read_blocks.induct)
  case (1 x c m n acc r)
  from "1.prems" obtain raw r1 where r1: "read_u32_le r = Ok (raw, r1)"
    by (subst (asm) read_blocks.simps) (auto simp: and_then_eq_Ok)
  note len1 = read_u32_le_suffix [OF r1]
  show ?case
  proof (cases "raw = 0")
    case True
    with "1.prems" r1 len1 show ?thesis by (subst (asm) read_blocks.simps) auto
  next
    case False
    let ?u = "raw AND 0x80000000 \<noteq> 0" and ?s = "unat (raw AND 0x7FFFFFFF)"
    note eq = "1.prems" [unfolded read_blocks.simps [of x c m n acc r] r1 and_then.simps prod.case Let_def]
    from eq False obtain buf r2 r3 where m: "\<not> m < ?s"
      and r2: "read_exact_into ?s r1 = Ok (buf, r2)" and r3: "check_block x c buf r2 = Ok r3"
      by (auto simp: and_then_eq_Ok split: if_splits)
    have "suffix r' r3"
    proof (cases ?u)
      case True
      with eq False m r2 r3 have "read_blocks x c m n (acc @ buf) r3 = Ok (d, r')"
        and "\<not> n < length acc + ?s" by (auto split: if_splits)
      then show ?thesis using "1.IH"(1) [OF r1 refl False refl refl m r2 refl r3 True] by simp
    next
      case nu: False
      with eq False m r2 r3 obtain out where "x_lz4_decompress x buf (n - length acc) = Ok out"
        and "read_blocks x c m n (acc @ out) r3 = Ok (d, r')"
        by (auto simp: and_then_eq_Ok map_err_eq_Ok)
      then show ?thesis using "1.IH"(2) [OF r1 refl False refl refl m r2 refl r3 nu] by simp
    qed
    with len1 read_exact_into_suffix [OF r2] check_block_suffix [OF r3] show ?thesis by (metis suffix_order.trans)
  qed
qed

lemma decompress_frame_suffix:
  assumes "decompress_frame x r n = Ok (d, r')"
  shows "suffix r' r"
  using assms
  by (auto simp: decompress_frame_def and_then_eq_Ok Let_def split: prod.splits if_splits
      dest!: read_u32_le_suffix read_exact_into_suffix read_blocks_suffix
      intro: suffix_order.trans)

lemma decompress_frame_consumes:
  "decompress_frame x r n = Ok (d, r') \<Longrightarrow> length r' \<le> length r"
  by (rule suffix_length_le [OF decompress_frame_suffix])

end
