(* ===== verification/PageIndex.thy ===== *)
theory PageIndex
  imports Lz4Frame
begin

text \<open>
  Model of \<open>crates/ltx/src/page_index.rs\<close>: unsigned varints and the page index (page number to
  byte span), written after the page block.  A \<open>BTreeMap\<close> is the list of its entries in key order.
\<close>

section \<open>Varints\<close>

function append_uvarint :: "u64 \<Rightarrow> byte list" where
  "append_uvarint v =
     (if 0x80 \<le> v then (ucast v OR 0x80) # append_uvarint (drop_bit 7 v) else [ucast v])"
  by pat_completeness auto

lemma unat_drop_bit_7: "unat (drop_bit 7 (v :: u64)) = unat v div 128"
  by (simp add: drop_bit_eq_div unat_div)

termination append_uvarint
proof (relation "measure unat")
  fix v :: u64
  assume "0x80 \<le> v"
  then have "128 \<le> unat v" by (simp add: word_le_unat)
  then show "(drop_bit 7 v, v) \<in> measure unat"
    by (simp add: unat_drop_bit_7)
qed simp

declare append_uvarint.simps [simp del]

fun read_uvarint_loop :: "u64 \<Rightarrow> nat \<Rightarrow> reader \<Rightarrow> (u64 \<times> reader) ltx_result" where
  "read_uvarint_loop result shift [] =
     Err (LtxIo (IoError UnexpectedEof ''failed to fill whole buffer''))"
| "read_uvarint_loop result shift (byte # r) =
     (if shift = 63 \<and> 1 < byte then Err (Invalid ''uvarint overflows 64 bits'')
      else let result = result OR push_bit shift (ucast (byte AND 0x7F))
           in if byte AND 0x80 = 0 then Ok (result, r)
              else if 64 \<le> shift + 7 then Err (Invalid ''uvarint overflows 64 bits'')
              else read_uvarint_loop result (shift + 7) r)"

definition read_uvarint :: "reader \<Rightarrow> (u64 \<times> reader) ltx_result" where
  "read_uvarint r = read_uvarint_loop 0 0 r"

section \<open>The index\<close>

record page_index_elem =
  pi_level :: u8
  pi_min_txid :: txid
  pi_max_txid :: txid
  pi_offset :: u64
  pi_size :: u64

type_synonym span_index = "(u32 \<times> u64 \<times> u64) list"

fun encode_index_entry :: "u32 \<times> u64 \<times> u64 \<Rightarrow> byte list" where
  "encode_index_entry (pgno, offset, sz) =
     append_uvarint (ucast pgno) @ append_uvarint offset @ append_uvarint sz"

definition encode_page_index :: "span_index \<Rightarrow> byte list" where
  "encode_page_index index =
     (let body = concat (map encode_index_entry index) @ append_uvarint 0
      in body @ be64 (of_nat (length body)))"

lemma read_uvarint_loop_consumes:
  "read_uvarint_loop result shift r = Ok (v, r') \<Longrightarrow> length r' < length r"
  by (induction result shift r rule: read_uvarint_loop.induct)
     (auto simp: Let_def less_Suc_eq split: if_splits)

lemma read_uvarint_consumes: "read_uvarint r = Ok (v, r') \<Longrightarrow> length r' < length r"
  by (simp add: read_uvarint_def read_uvarint_loop_consumes)

function decode_index_loop ::
  "u8 \<Rightarrow> txid \<Rightarrow> txid \<Rightarrow> (u32 \<times> page_index_elem) list \<Rightarrow> reader \<Rightarrow>
   ((u32 \<times> page_index_elem) list \<times> reader) ltx_result" where
  "decode_index_loop level min_txid max_txid index r =
     and_then (read_uvarint r) (\<lambda>(pgno, r).
       if pgno = 0 then Ok (index, r)
       else and_then (read_uvarint r) (\<lambda>(offset, r).
         and_then (read_uvarint r) (\<lambda>(sz, r).
           decode_index_loop level min_txid max_txid
             (btree_insert (ucast pgno)
                \<lparr>pi_level = level, pi_min_txid = min_txid, pi_max_txid = max_txid,
                 pi_offset = offset, pi_size = sz\<rparr> index) r)))"
  by pat_completeness auto
termination
  by (relation "measure (\<lambda>(l, a, b, i, r). length r)") (auto dest!: read_uvarint_consumes)

declare decode_index_loop.simps [simp del]

definition decode_page_index ::
  "reader \<Rightarrow> u8 \<Rightarrow> txid \<Rightarrow> txid \<Rightarrow> ((u32 \<times> page_index_elem) list \<times> reader) ltx_result" where
  "decode_page_index r level min_txid max_txid =
     and_then (decode_index_loop level min_txid max_txid [] r) (\<lambda>(index, r).
       and_then (read_exact_into 8 r) (\<lambda>(b, r). Ok (index, r)))"

lemma read_uvarint_suffix: "read_uvarint r = Ok (v, r') \<Longrightarrow> suffix r' r"
proof -
  have "read_uvarint_loop result shift r = Ok (v, r') \<Longrightarrow> suffix r' r" for result shift
    by (induction result shift r rule: read_uvarint_loop.induct)
       (auto simp: Let_def intro: suffix_ConsI split: if_splits)
  then show "read_uvarint r = Ok (v, r') \<Longrightarrow> suffix r' r" by (simp add: read_uvarint_def)
qed

lemma decode_index_loop_suffix:
  "decode_index_loop l a b index r = Ok (idx, r') \<Longrightarrow> suffix r' r"
proof (induction l a b index r rule: decode_index_loop.induct)
  case (1 l a b index r)
  note eq = "1.prems" [unfolded decode_index_loop.simps [of l a b index r]]
  then obtain pgno r1 where r1: "read_uvarint r = Ok (pgno, r1)" by (auto simp: and_then_eq_Ok)
  show ?case
  proof (cases "pgno = 0")
    case True
    with eq r1 show ?thesis by (auto dest: read_uvarint_suffix)
  next
    case False
    with eq r1 obtain off r2 sz r3 where r2: "read_uvarint r1 = Ok (off, r2)"
      and r3: "read_uvarint r2 = Ok (sz, r3)" by (auto simp: and_then_eq_Ok)
    have "suffix r' r3"
      by (rule "1.IH" [OF r1 refl False r2 refl r3 refl]) (use eq r1 r2 r3 False in auto)
    with r1 r2 r3 show ?thesis by (meson read_uvarint_suffix suffix_order.trans)
  qed
qed

lemma decode_page_index_suffix:
  "decode_page_index r l a b = Ok (idx, r') \<Longrightarrow> suffix r' r"
  by (auto simp: decode_page_index_def and_then_eq_Ok
      dest!: decode_index_loop_suffix read_exact_into_suffix intro: suffix_order.trans)

section \<open>Varint round trip\<close>

lemma low7: "ucast ((ucast v OR 0x80) AND (0x7F :: byte)) = (take_bit 7 v :: u64)"
proof (rule bit_word_eqI)
  have m: "(0x7F :: byte) = mask 7" and p: "(0x80 :: byte) = push_bit 7 1"
    by (simp_all add: mask_eq_exp_minus_1)
  fix k assume "k < LENGTH(64)"
  show "bit (ucast ((ucast v OR 0x80) AND (0x7F :: byte)) :: u64) k \<longleftrightarrow> bit (take_bit 7 v) k"
    unfolding m p
    using \<open>k < LENGTH(64)\<close>
    by (auto simp only: bit_unsigned_iff bit_and_iff bit_or_iff bit_mask_iff bit_push_bit_iff bit_1_iff
        bit_take_bit_iff possible_bit_word) auto
qed

lemma small_byte:
  assumes "(v :: u64) < 0x80"
  shows "ucast ((ucast v :: byte) AND 0x7F) = v" and "(ucast v :: byte) AND 0x80 = 0"
proof -
  have v: "take_bit 7 v = v"
  proof -
    have "unat v < 2 ^ 7" using assms by (simp add: word_less_unat)
    then have "unat (take_bit 7 v) = unat v"
      by (simp only: unsigned_take_bit_eq take_bit_nat_eq_self)
    then show ?thesis by (rule word_unat_eq_iff [THEN iffD2])
  qed
  have b: "k < 7" if "bit v k" for k
    using that v by (metis bit_take_bit_iff)
  have m: "(0x7F :: byte) = mask 7" and p: "(0x80 :: byte) = push_bit 7 1"
    by (simp_all add: mask_eq_exp_minus_1)
  show "ucast ((ucast v :: byte) AND 0x7F) = v"
    unfolding m by (rule bit_word_eqI)
      (auto simp only: bit_unsigned_iff bit_and_iff bit_mask_iff possible_bit_word, auto dest!: b)
  show "(ucast v :: byte) AND 0x80 = 0"
    unfolding p by (rule bit_word_eqI)
      (auto simp only: bit_unsigned_iff bit_and_iff bit_push_bit_iff bit_1_iff bit_0_eq possible_bit_word dest: b)
qed

lemma high_bit_set: "(b OR 0x80) AND (0x80 :: byte) \<noteq> 0"
proof -
  have p: "(0x80 :: byte) = push_bit 7 1" by simp
  have "bit ((b OR 0x80) AND (0x80 :: byte)) 7"
    unfolding p by (simp only: bit_and_iff bit_or_iff bit_push_bit_iff bit_1_iff) simp
  then show ?thesis by (metis bit_0_eq bot_apply bot_bool_def)
qed

lemma push_bit_split7:
  "push_bit s (take_bit 7 v) OR push_bit (s + 7) (drop_bit 7 v) = push_bit s (v :: u64)"
proof (rule bit_word_eqI)
  fix k
  consider "k < s" | j where "k = s + j" "j < 7" | j where "k = s + 7 + j"
    by (metis add.assoc le_add_diff_inverse not_less)
  then show "bit (push_bit s (take_bit 7 v) OR push_bit (s + 7) (drop_bit 7 v)) k \<longleftrightarrow> bit (push_bit s v) k"
    by cases (auto simp: bit_simps ac_simps)
qed

lemma read_append_uvarint_loop:
  "unat v * 2 ^ shift < 2 ^ 64 \<Longrightarrow>
   read_uvarint_loop result shift (append_uvarint v @ rest) = Ok (result OR push_bit shift v, rest)"
proof (induction v arbitrary: result shift rule: append_uvarint.induct)
  case (1 v)
  show ?case
  proof (cases "0x80 \<le> v")
    case True
    then have v: "128 \<le> unat v" by (simp add: word_le_unat)
    have "(2 :: nat) ^ (7 + shift) \<le> unat v * 2 ^ shift"
      using v by (simp add: power_add)
    then have "(2 :: nat) ^ (7 + shift) < 2 ^ 64" using "1.prems" by (rule le_less_trans)
    then have shift: "shift + 7 < 64" by (metis add.commute nat_power_less_imp_less zero_less_numeral)
    have "unat (drop_bit 7 v) * 2 ^ (shift + 7) \<le> unat v * 2 ^ shift"
      by (simp add: unat_drop_bit_7 power_add)
    then have "unat (drop_bit 7 v) * 2 ^ (shift + 7) < 2 ^ 64" using "1.prems" by linarith
    from "1.IH" [OF True this] show ?thesis
      using True shift high_bit_set [of "ucast v"]
      by (simp add: append_uvarint.simps [of v] low7 Let_def or.assoc push_bit_split7)
  next
    case False
    then have small: "v < 0x80" by simp
    have "\<not> (shift = 63 \<and> (1 :: byte) < ucast v)"
    proof
      assume *: "shift = 63 \<and> (1 :: byte) < ucast v"
      with "1.prems" have "unat v < 2" by simp
      moreover have "1 < unat (ucast v :: byte)" using * by (simp add: word_less_unat)
      moreover have "unat (ucast v :: byte) \<le> unat v"
        by (simp add: unsigned_ucast_eq take_bit_nat_less_eq_self)
      ultimately show False by linarith
    qed
    then show ?thesis using False small_byte [OF small]
      by (simp add: append_uvarint.simps [of v] Let_def)
  qed
qed

lemma read_append_uvarint [simp]: "read_uvarint (append_uvarint v @ rest) = Ok (v, rest)"
  using read_append_uvarint_loop [of v 0 0 rest] unsigned_less [of v]
  by (simp add: read_uvarint_def)

lemma append_uvarint_length: "length (append_uvarint v) \<le> 10"
proof -
  have "unat v < 2 ^ (7 * k) \<Longrightarrow> 0 < k \<Longrightarrow> length (append_uvarint v) \<le> k" for k
  proof (induction v arbitrary: k rule: append_uvarint.induct)
    case (1 v)
    show ?case
    proof (cases "0x80 \<le> v")
      case True
      then have "128 \<le> unat v" by (simp add: word_le_unat)
      with "1.prems" have "k \<noteq> 1" by auto
      with "1.prems" obtain j where k: "k = Suc j" "0 < j" by (cases k) auto
      have "unat v < 2 ^ (7 * j) * 128" using "1.prems"(1) k by (simp add: power_add)
      then have "unat (drop_bit 7 v) < 2 ^ (7 * j)"
        by (simp add: unat_drop_bit_7 less_mult_imp_div_less)
      from "1.IH" [OF True this \<open>0 < j\<close>] show ?thesis
        using True k by (simp add: append_uvarint.simps [of v])
    next
      case False
      with "1.prems" show ?thesis by (simp add: append_uvarint.simps [of v])
    qed
  qed
  moreover have "unat v < 2 ^ LENGTH(64)" by (rule unsigned_less)
  ultimately show ?thesis by simp
qed

lemma encode_page_index_length: "length (encode_page_index idx) \<le> 30 * length idx + 18"
proof -
  have entry: "length (encode_index_entry e) \<le> 30" for e
    using append_uvarint_length [of "ucast (fst e)"] append_uvarint_length [of "fst (snd e)"]
      append_uvarint_length [of "snd (snd e)"]
    by (cases e) auto
  have "length (concat (map encode_index_entry idx)) \<le> 30 * length idx"
  proof (induction idx)
    case (Cons e idx)
    then show ?case using entry [of e] by simp
  qed simp
  then show ?thesis using append_uvarint_length [of 0]
    by (simp add: encode_page_index_def Let_def)
qed

interpretation uvarint: wire_codec append_uvarint read_uvarint "\<lambda>_. True"
  by unfold_locales simp

section \<open>Index round trip\<close>

fun tag_span :: "u8 \<Rightarrow> txid \<Rightarrow> txid \<Rightarrow> u32 \<times> u64 \<times> u64 \<Rightarrow> u32 \<times> page_index_elem" where
  "tag_span level min_txid max_txid (pgno, offset, sz) =
     (pgno, \<lparr>pi_level = level, pi_min_txid = min_txid, pi_max_txid = max_txid,
             pi_offset = offset, pi_size = sz\<rparr>)"

lemma fst_tag_span [simp]: "fst (tag_span l a b e) = fst e"
  by (cases e) simp

lemma decode_index_loop_encode:
  assumes "sorted_wrt (<) (map fst (done @ idx))" and "\<forall>e \<in> set idx. fst e \<noteq> 0"
  shows "decode_index_loop l a b (map (tag_span l a b) done)
           (concat (map encode_index_entry idx) @ append_uvarint 0 @ rest) =
         Ok (map (tag_span l a b) (done @ idx), rest)"
  using assms
proof (induction idx arbitrary: "done")
  case Nil
  then show ?case by (subst decode_index_loop.simps) simp
next
  case (Cons e idx)
  obtain p off sz where e: "e = (p, off, sz)" by (cases e)
  have up: "ucast (ucast p :: u64) = p" by (rule bit_word_eqI) (auto simp: bit_simps)
  moreover have "ucast p \<noteq> (0 :: u64)"
  proof
    assume "ucast p = (0 :: u64)"
    with up have "p = 0" by simp
    with Cons.prems(2) e show False by simp
  qed
  moreover have "btree_insert p (snd (tag_span l a b e)) (map (tag_span l a b) done) =
      map (tag_span l a b) (done @ [e])"
    using Cons.prems(1) e
    by (subst btree_insert_last) (auto simp: sorted_wrt_append)
  ultimately show ?case
    using Cons.IH [of "done @ [e]"] Cons.prems e
    by (subst decode_index_loop.simps) simp
qed

lemma decode_encode_page_index:
  assumes "sorted_wrt (<) (map fst idx)" and "\<forall>e \<in> set idx. fst e \<noteq> 0"
  shows "decode_page_index (encode_page_index idx @ rest) l a b = Ok (map (tag_span l a b) idx, rest)"
  using decode_index_loop_encode [of "[]" idx l a b] assms
  by (simp add: decode_page_index_def encode_page_index_def Let_def)

end
