(* ===== verification/Encoder.thy ===== *)
theory Encoder
  imports PageIndex
begin

text \<open>
  Model of \<open>crates/ltx/src/encoder.rs\<close>: the streaming LTX encoder as a state machine over a
  record.  The sink \<open>w\<close> is the list of bytes written so far (an in-memory writer: writes do not
  fail), the running hash is the list of bytes hashed so far.
\<close>

section \<open>State\<close>

datatype encoder_state = EncHeader | EncPage | EncClosed

record encoder =
  e_w :: "byte list"
  e_state :: encoder_state
  e_header :: header
  e_trailer :: trailer
  e_hash :: "byte list"
  e_index :: span_index
  e_n :: u64
  e_prev_pgno :: u32
  e_pages_written :: u32

definition encoder_new :: encoder where
  "encoder_new = \<lparr>e_w = [], e_state = EncHeader, e_header = header_default,
     e_trailer = trailer_default, e_hash = [], e_index = [], e_n = 0, e_prev_pgno = 0,
     e_pages_written = 0\<rparr>"

section \<open>Operations\<close>

definition encoder_write :: "encoder \<Rightarrow> byte list \<Rightarrow> encoder" where
  "encoder_write e b =
     e\<lparr>e_w := e_w e @ b, e_hash := e_hash e @ b, e_n := e_n e + of_nat (length b)\<rparr>"

definition set_post_apply_checksum :: "encoder \<Rightarrow> checksum \<Rightarrow> encoder" where
  "set_post_apply_checksum e c = e\<lparr>e_trailer := (e_trailer e)\<lparr>t_post_apply_checksum := c\<rparr>\<rparr>"

definition encoder_post_apply_pos :: "encoder \<Rightarrow> pos" where
  "encoder_post_apply_pos e =
     \<lparr>p_txid = h_max_txid (e_header e), p_post_apply_checksum = t_post_apply_checksum (e_trailer e)\<rparr>"

definition encode_header :: "encoder \<Rightarrow> header \<Rightarrow> encoder ltx_result" where
  "encode_header e hdr =
     (case e_state e of
        EncClosed \<Rightarrow> Err (Invalid ''ltx encoder closed'')
      | EncPage \<Rightarrow> Err (Invalid ''cannot encode header frame, expected page'')
      | EncHeader \<Rightarrow>
          and_then (header_validate hdr) (\<lambda>_.
            let e = encoder_write (e\<lparr>e_header := hdr\<rparr>) (header_encode hdr)
            in Ok (e\<lparr>e_state := EncPage\<rparr>)))"

text \<open>The order rules for page numbers: snapshots are sequential and skip the lock page only.\<close>

definition check_page_order :: "header \<Rightarrow> u32 \<Rightarrow> u32 \<Rightarrow> u32 \<Rightarrow> unit ltx_result" where
  "check_page_order hdr prev_pgno pgno lock =
     (if is_snapshot hdr then
        (if prev_pgno = 0 \<and> pgno \<noteq> 1
         then Err (Invalid ''snapshot transaction file must start with page number 1'')
         else if prev_pgno = lock - 1 then
           (if pgno \<noteq> prev_pgno + 2
            then Err (Invalid (''nonsequential page numbers in snapshot transaction (skip lock page): '' @
                   fmt_dec (unat prev_pgno) @ '','' @ fmt_dec (unat pgno)))
            else Ok ())
         else if prev_pgno \<noteq> 0 \<and> pgno \<noteq> prev_pgno + 1
           then Err (Invalid (''nonsequential page numbers in snapshot transaction: '' @
                  fmt_dec (unat prev_pgno) @ '','' @ fmt_dec (unat pgno)))
         else Ok ())
      else if pgno \<le> prev_pgno
        then Err (Invalid (''out-of-order page numbers: '' @ fmt_dec (unat prev_pgno) @ '','' @
               fmt_dec (unat pgno)))
      else Ok ())"

definition encode_page :: "externs \<Rightarrow> encoder \<Rightarrow> u32 \<Rightarrow> byte list \<Rightarrow> encoder ltx_result" where
  "encode_page x e pgno data =
     (case e_state e of
        EncClosed \<Rightarrow> Err (Invalid ''ltx encoder closed'')
      | EncHeader \<Rightarrow> Err (Invalid ''cannot encode page header, expected header'')
      | EncPage \<Rightarrow>
          if h_commit (e_header e) < pgno
          then Err (Invalid (''page number '' @ fmt_dec (unat pgno) @ '' out-of-bounds for commit size '' @
                 fmt_dec (unat (h_commit (e_header e)))))
          else let hdr = \<lparr>ph_pgno = pgno, ph_flags = 0\<rparr> in
          and_then (page_header_validate hdr) (\<lambda>_.
            if length data \<noteq> unat (h_page_size (e_header e))
            then Err (Invalid (''invalid page buffer size: '' @ fmt_dec (length data) @ '', expecting '' @
                   fmt_dec (unat (h_page_size (e_header e)))))
            else let lock = lock_pgno (h_page_size (e_header e)) in
            if pgno = lock then Err (Invalid (''cannot encode lock page: pgno='' @ fmt_dec (unat pgno)))
            else and_then (check_page_order (e_header e) (e_prev_pgno e) pgno lock) (\<lambda>_.
              let offset = e_n e;
                  e1 = encoder_write e (page_header_encode hdr);
                  frame = compress_frame x data;
                  e2 = e1\<lparr>e_w := e_w e1 @ frame, e_hash := e_hash e1 @ data,
                          e_n := e_n e1 + of_nat (length frame)\<rparr>
              in Ok (e2\<lparr>e_pages_written := e_pages_written e2 + 1, e_prev_pgno := pgno,
                        e_index := btree_insert pgno (offset, e_n e2 - offset) (e_index e2)\<rparr>))))"

definition encoder_finish :: "externs \<Rightarrow> encoder \<Rightarrow> (byte list \<times> header \<times> trailer) ltx_result" where
  "encoder_finish x e =
     (case e_state e of
        EncClosed \<Rightarrow> Err (Invalid ''ltx encoder closed'')
      | EncHeader \<Rightarrow> Err (Invalid ''cannot close, expected header'')
      | EncPage \<Rightarrow>
          let e1 = encoder_write e (page_header_encode page_header_default);
              e2 = encoder_write e1 (encode_page_index (e_index e1));
              trailer_prefix = be64 (t_post_apply_checksum (e_trailer e2));
              hash = e_hash e2 @ trailer_prefix;
              trl = (e_trailer e2)\<lparr>t_file_checksum := CHECKSUM_FLAG OR x_crc64 x hash\<rparr>
          in and_then (trailer_validate trl (e_header e2)) (\<lambda>_.
            if h_commit (e_header e2) = 0 \<and> t_post_apply_checksum trl \<noteq> checksum_EMPTY
            then Err (Invalid ''post-apply checksum must be empty for zero-length database'')
            else Ok (e_w e2 @ trailer_encode trl, e_header e2, trl)))"

text \<open>The callers' page loop, and a whole file: header, pages, post-apply checksum, finish.\<close>

fun encode_pages :: "externs \<Rightarrow> encoder \<Rightarrow> (u32 \<times> byte list) list \<Rightarrow> encoder ltx_result" where
  "encode_pages x e [] = Ok e"
| "encode_pages x e ((pgno, data) # ps) = and_then (encode_page x e pgno data) (\<lambda>e. encode_pages x e ps)"

definition encode_file ::
  "externs \<Rightarrow> header \<Rightarrow> (u32 \<times> byte list) list \<Rightarrow> checksum \<Rightarrow> (byte list \<times> header \<times> trailer) ltx_result" where
  "encode_file x hdr pages post =
     and_then (encode_header encoder_new hdr) (\<lambda>e.
     and_then (encode_pages x e pages) (\<lambda>e.
     encoder_finish x (set_post_apply_checksum e post)))"

section \<open>What the encoder writes and hashes\<close>

definition page_frame :: "externs \<Rightarrow> u32 \<times> byte list \<Rightarrow> byte list" where
  "page_frame x p = page_header_encode \<lparr>ph_pgno = fst p, ph_flags = 0\<rparr> @ compress_frame x (snd p)"

definition page_hash_input :: "u32 \<times> byte list \<Rightarrow> byte list" where
  "page_hash_input p = page_header_encode \<lparr>ph_pgno = fst p, ph_flags = 0\<rparr> @ snd p"

text \<open>
  Invariant of an encoder in its page state: the index holds the page numbers written, in order,
  none of them zero, the last one remembered in \<open>prev_pgno\<close>.
\<close>

definition encoder_inv :: "encoder \<Rightarrow> bool" where
  "encoder_inv e \<longleftrightarrow>
     e_state e = EncPage \<and> header_validate (e_header e) = Ok () \<and>
     sorted_wrt (<) (map fst (e_index e)) \<and>
     (\<forall>k \<in> set (map fst (e_index e)). k \<noteq> 0 \<and> k \<le> e_prev_pgno e)"

lemma check_page_order_ascending:
  assumes "check_page_order hdr prev pgno (lock_pgno (h_page_size hdr)) = Ok ()"
    and "is_valid_page_size (h_page_size hdr)" and "pgno \<noteq> 0"
  shows "prev < pgno"
proof (cases "is_snapshot hdr")
  case False
  with assms(1) show ?thesis by (auto simp: check_page_order_def split: if_splits)
next
  case True
  let ?lock = "lock_pgno (h_page_size hdr)"
  have lock: "unat ?lock = 2 ^ 30 div unat (h_page_size hdr) + 1"
    by (rule lock_pgno_unat [OF assms(2)])
  have "unat ?lock \<le> 2 ^ 30 + 1" by (simp add: lock div_le_dividend)
  from True assms(1) consider "prev = ?lock - 1" "pgno = prev + 2" | "prev = 0" "pgno = 1" | "pgno = prev + 1"
    by (auto simp: check_page_order_def split: if_splits)
  then show ?thesis
  proof cases
    case 1
    have "unat prev = unat ?lock - 1"
      using lock 1(1) by (simp add: unat_sub word_le_unat)
    then have "unat prev \<le> 2 ^ 30" using \<open>unat ?lock \<le> 2 ^ 30 + 1\<close> by simp
    then have "unat pgno = unat prev + 2" using 1(2) by (simp add: unat_word_ariths)
    then show ?thesis by (simp add: word_less_unat)
  next
    case 2
    then show ?thesis by simp
  next
    case 3
    with assms(3) show ?thesis by (simp add: word_less_plus_one)
  qed
qed

lemma encode_page_OkD:
  assumes "encode_page x e pgno data = Ok e'"
  shows "e_state e = EncPage" and "e_state e' = EncPage" and "e_header e' = e_header e"
    and "e_trailer e' = e_trailer e"
    and "e_w e' = e_w e @ page_frame x (pgno, data)"
    and "e_hash e' = e_hash e @ page_hash_input (pgno, data)"
    and "e_index e' = btree_insert pgno (e_n e, e_n e' - e_n e) (e_index e)"
    and "e_n e' = e_n e + of_nat (length (page_frame x (pgno, data)))"
    and "e_prev_pgno e' = pgno"
    and "pgno \<noteq> 0" and "pgno \<le> h_commit (e_header e)" and "pgno \<noteq> lock_pgno (h_page_size (e_header e))"
    and "length data = unat (h_page_size (e_header e))"
    and "check_page_order (e_header e) (e_prev_pgno e) pgno (lock_pgno (h_page_size (e_header e))) = Ok ()"
  using assms
  by (auto simp: encode_page_def and_then_eq_Ok Let_def page_header_validate_def encoder_write_def
      page_frame_def page_hash_input_def not_less split: encoder_state.splits if_splits)

lemma encode_page_inv:
  assumes "encoder_inv e" and "encode_page x e pgno data = Ok e'"
  shows "encoder_inv e'" and "e_prev_pgno e < pgno"
proof -
  note ok = encode_page_OkD [OF assms(2)]
  have "is_valid_page_size (h_page_size (e_header e))"
    using assms(1) by (auto simp: encoder_inv_def dest: header_validate_OkD)
  with ok show less: "e_prev_pgno e < pgno" by (auto intro: check_page_order_ascending)
  note idx = ok(7)
  show "encoder_inv e'"
    unfolding encoder_inv_def
  proof (intro conjI)
    show "sorted_wrt (<) (map fst (e_index e'))"
      using assms(1) by (simp add: idx encoder_inv_def sorted_btree_insert)
    show "\<forall>k \<in> set (map fst (e_index e')). k \<noteq> 0 \<and> k \<le> e_prev_pgno e'"
      using assms(1) ok less by (auto simp: idx set_btree_insert encoder_inv_def simp del: set_map)
  qed (use assms(1) ok in \<open>auto simp: encoder_inv_def\<close>)
qed

lemma encode_header_OkD:
  assumes "encode_header encoder_new hdr = Ok e"
  shows "encoder_inv e" and "e_header e = hdr" and "e_w e = header_encode hdr"
    and "e_hash e = header_encode hdr" and "e_index e = []" and "e_prev_pgno e = 0"
    and "e_trailer e = trailer_default"
  using assms
  by (auto simp: encode_header_def encoder_new_def and_then_eq_Ok Let_def encoder_write_def encoder_inv_def)

text \<open>
  After a run of pages: what was written and hashed, the order of the pages, and their shape.
\<close>

lemma encode_pages_OkD:
  assumes "encoder_inv e" and "encode_pages x e pages = Ok e'"
  shows "encoder_inv e'" and "e_header e' = e_header e" and "e_trailer e' = e_trailer e"
    and "e_w e' = e_w e @ concat (map (page_frame x) pages)"
    and "e_hash e' = e_hash e @ concat (map page_hash_input pages)"
    and "sorted_wrt (<) (e_prev_pgno e # map fst pages)"
    and "\<forall>p \<in> set pages. fst p \<noteq> 0 \<and> length (snd p) = unat (h_page_size (e_header e)) \<and>
           fst p \<le> h_commit (e_header e) \<and> fst p \<noteq> lock_pgno (h_page_size (e_header e))"
proof -
  have "encoder_inv e' \<and> e_header e' = e_header e \<and> e_trailer e' = e_trailer e \<and>
     e_w e' = e_w e @ concat (map (page_frame x) pages) \<and>
     e_hash e' = e_hash e @ concat (map page_hash_input pages) \<and>
     sorted_wrt (<) (e_prev_pgno e # map fst pages) \<and>
     (\<forall>p \<in> set pages. fst p \<noteq> 0 \<and> length (snd p) = unat (h_page_size (e_header e)) \<and>
        fst p \<le> h_commit (e_header e) \<and> fst p \<noteq> lock_pgno (h_page_size (e_header e)))"
    using assms
  proof (induction pages arbitrary: e)
    case Nil
    then show ?case by simp
  next
    case (Cons p pages)
    obtain pgno data where p: "p = (pgno, data)" by (cases p)
    from Cons.prems p obtain e1 where e1: "encode_page x e pgno data = Ok e1"
      and rest: "encode_pages x e1 pages = Ok e'" by (auto simp: and_then_eq_Ok)
    note ok = encode_page_OkD [OF e1]
    note inv = encode_page_inv [OF Cons.prems(1) e1]
    from Cons.IH [OF inv(1) rest] ok inv(2) show ?case
      by (auto simp: p dest: less_trans)
  qed
  then show "encoder_inv e'" "e_header e' = e_header e" "e_trailer e' = e_trailer e"
    "e_w e' = e_w e @ concat (map (page_frame x) pages)"
    "e_hash e' = e_hash e @ concat (map page_hash_input pages)"
    "sorted_wrt (<) (e_prev_pgno e # map fst pages)"
    "\<forall>p \<in> set pages. fst p \<noteq> 0 \<and> length (snd p) = unat (h_page_size (e_header e)) \<and>
       fst p \<le> h_commit (e_header e) \<and> fst p \<noteq> lock_pgno (h_page_size (e_header e))"
    by blast+
qed

end
