(* ===== verification/Decoder.thy ===== *)
theory Decoder
  imports Encoder
begin

text \<open>
  Model of \<open>crates/ltx/src/decoder.rs\<close>: the streaming decoder as a state machine over a record.
  The reader is the list of bytes not read yet, the running hash the list of bytes hashed so far.
  The page buffer of \<open>decode_page\<close> is its length on the way in and its content on the way out.
  After an error the source drops the decoder at every call site, so \<open>Err\<close> carries no state.
\<close>

section \<open>State\<close>

datatype decoder_state = DecHeader | DecPage | DecClose | DecClosed

type_synonym page_index = "(u32 \<times> page_index_elem) list"

record decoder =
  d_r :: reader
  d_state :: decoder_state
  d_header :: header
  d_trailer :: trailer
  d_page_index :: page_index
  d_chksum :: checksum
  d_hash :: "byte list"
  d_page_n :: nat
  d_n :: u64

definition decoder_new :: "reader \<Rightarrow> decoder" where
  "decoder_new r = \<lparr>d_r = r, d_state = DecHeader, d_header = header_default, d_trailer = trailer_default,
     d_page_index = [], d_chksum = 0, d_hash = [], d_page_n = 0, d_n = 0\<rparr>"

definition decoder_post_apply_pos :: "decoder \<Rightarrow> pos" where
  "decoder_post_apply_pos d =
     \<lparr>p_txid = h_max_txid (d_header d), p_post_apply_checksum = t_post_apply_checksum (d_trailer d)\<rparr>"

section \<open>Operations\<close>

definition write_to_hash :: "decoder \<Rightarrow> byte list \<Rightarrow> decoder" where
  "write_to_hash d b = d\<lparr>d_hash := d_hash d @ b, d_n := d_n d + of_nat (length b)\<rparr>"

definition decode_header :: "decoder \<Rightarrow> decoder ltx_result" where
  "decode_header d =
     and_then (read_exact_into HEADER_SIZE (d_r d)) (\<lambda>(b, r).
     and_then (header_decode b) (\<lambda>header.
     let d1 = (write_to_hash (d\<lparr>d_r := r\<rparr>) b)\<lparr>d_state := DecPage\<rparr> in
     and_then (header_validate header) (\<lambda>_.
     let d2 = d1\<lparr>d_header := header\<rparr> in
     Ok (if \<not> no_checksum (d_header d2) then d2\<lparr>d_chksum := CHECKSUM_FLAG\<rparr> else d2))))"

definition decode_page ::
  "externs \<Rightarrow> decoder \<Rightarrow> nat \<Rightarrow> ((page_header \<times> byte list) option \<times> decoder) ltx_result" where
  "decode_page x d data_len =
     (case d_state d of
        DecClosed \<Rightarrow> Err (Invalid ''ltx decoder closed'')
      | DecClose \<Rightarrow> Ok (None, d)
      | DecHeader \<Rightarrow> Err (Invalid ''cannot read page header, expected header'')
      | DecPage \<Rightarrow>
          if data_len \<noteq> unat (h_page_size (d_header d))
          then Err (Invalid (''invalid page buffer size: '' @ fmt_dec data_len @ '', expecting '' @
                 fmt_dec (unat (h_page_size (d_header d)))))
          else and_then (read_exact_into PAGE_HEADER_SIZE (d_r d)) (\<lambda>(b, r).
            and_then (page_header_decode b) (\<lambda>hdr.
            let d1 = write_to_hash (d\<lparr>d_r := r\<rparr>) b in
            if page_header_is_zero hdr then Ok (None, d1\<lparr>d_state := DecClose\<rparr>)
            else and_then (page_header_validate hdr) (\<lambda>_.
              and_then (decompress_frame x (d_r d1) data_len) (\<lambda>(data, r).
              let d2 = d1\<lparr>d_r := r, d_hash := d_hash d1 @ data, d_n := d_n d1 + of_nat (length data),
                          d_page_n := d_page_n d1 + 1\<rparr>;
                  d3 = (if is_snapshot (d_header d2) \<and> \<not> no_checksum (d_header d2) \<and>
                           ph_pgno hdr \<noteq> header_lock_pgno (d_header d2)
                        then d2\<lparr>d_chksum := xor_page_checksum (d_chksum d2)
                               (checksum_page (x_crc64 x) (ph_pgno hdr) data)\<rparr>
                        else d2)
              in Ok (Some (hdr, data), d3))))))"

definition decoder_finish ::
  "externs \<Rightarrow> decoder \<Rightarrow> (reader \<times> header \<times> trailer \<times> page_index) ltx_result" where
  "decoder_finish x d =
     (case d_state d of
        DecClosed \<Rightarrow> Err (Invalid ''ltx decoder closed'')
      | DecHeader \<Rightarrow> Err (Invalid ''cannot close, expected end of page block'')
      | DecPage \<Rightarrow> Err (Invalid ''cannot close, expected end of page block'')
      | DecClose \<Rightarrow>
          let remaining = d_r d in
          if length remaining < TRAILER_SIZE
          then Err (LtxIo (IoError UnexpectedEof ''short read: missing trailer''))
          else let d1 = write_to_hash d (take (length remaining - CHECKSUM_SIZE) remaining) in
          and_then (decode_page_index remaining 0 (h_min_txid (d_header d1)) (h_max_txid (d_header d1)))
            (\<lambda>(index, rest).
          if length rest \<noteq> TRAILER_SIZE
          then Err (Invalid (''unexpected '' @ fmt_dec (length rest) @ '' trailing bytes after page index''))
          else and_then (trailer_decode rest) (\<lambda>trl.
          if CHECKSUM_FLAG OR x_crc64 x (d_hash d1) \<noteq> t_file_checksum trl then Err ChecksumMismatch
          else if is_snapshot (d_header d1) \<and> \<not> no_checksum (d_header d1) \<and>
                  t_post_apply_checksum trl \<noteq> d_chksum d1
          then Err (PostApplyChecksumMismatch (t_post_apply_checksum trl) (d_chksum d1))
          else Ok ([], d_header d1, trl, index))))"

text \<open>Every successful page read consumes at least a page header.\<close>

lemma decode_page_consumes:
  "decode_page x d n = Ok (Some p, d') \<Longrightarrow> length (d_r d') < length (d_r d)"
  by (auto simp: decode_page_def and_then_eq_Ok Let_def write_to_hash_def PAGE_HEADER_SIZE_def
      dest!: read_exact_into_consumes decompress_frame_consumes
      split: decoder_state.splits if_splits)

text \<open>
  The page loop \<open>while decode_page(..)?.is_some()\<close> that \<open>verify\<close> and the other readers of whole
  files run; the pages it reads are returned, the callers that discard them ignore the list.
\<close>

function decode_pages ::
  "externs \<Rightarrow> decoder \<Rightarrow> nat \<Rightarrow> ((u32 \<times> byte list) list \<times> decoder) ltx_result" where
  "decode_pages x d n =
     and_then (decode_page x d n) (\<lambda>(p, d').
       case p of
         None \<Rightarrow> Ok ([], d')
       | Some (hdr, data) \<Rightarrow>
           and_then (decode_pages x d' n) (\<lambda>(ps, d''). Ok ((ph_pgno hdr, data) # ps, d'')))"
  by pat_completeness auto
termination
  by (relation "measure (\<lambda>(x, d, n). length (d_r d))") (auto dest: decode_page_consumes)

declare decode_pages.simps [simp del]

definition decoder_verify :: "externs \<Rightarrow> reader \<Rightarrow> (header \<times> trailer \<times> page_index) ltx_result" where
  "decoder_verify x r =
     and_then (decode_header (decoder_new r)) (\<lambda>d.
     and_then (decode_pages x d (unat (h_page_size (d_header d)))) (\<lambda>(pages, d).
     and_then (decoder_finish x d) (\<lambda>(r, header, trailer, index). Ok (header, trailer, index))))"

fun decode_database_pages ::
  "externs \<Rightarrow> u32 \<Rightarrow> nat \<Rightarrow> u32 list \<Rightarrow> decoder \<Rightarrow> byte list \<Rightarrow> (decoder \<times> byte list) ltx_result" where
  "decode_database_pages x lock n [] d w = Ok (d, w)"
| "decode_database_pages x lock n (pgno # pgnos) d w =
     (if pgno = lock then decode_database_pages x lock n pgnos d (w @ replicate n 0)
      else and_then (decode_page x d n) (\<lambda>(p, d).
        case p of
          None \<Rightarrow> Err (Invalid (''unexpected end of page block at page '' @ fmt_dec (unat pgno)))
        | Some (hdr, data) \<Rightarrow>
            if ph_pgno hdr \<noteq> pgno
            then Err (Invalid (''unexpected pgno while decoding page: read '' @
                   fmt_dec (unat (ph_pgno hdr)) @ '', expected '' @ fmt_dec (unat pgno)))
            else decode_database_pages x lock n pgnos d (w @ data)))"

definition page_numbers :: "u32 \<Rightarrow> u32 list" where
  "page_numbers commit = map of_nat [1..<Suc (unat commit)]"

definition decode_database_to :: "externs \<Rightarrow> reader \<Rightarrow> byte list ltx_result" where
  "decode_database_to x r =
     and_then (decode_header (decoder_new r)) (\<lambda>d.
     let hdr = d_header d; lock = header_lock_pgno hdr; n = unat (h_page_size hdr) in
     if \<not> is_snapshot hdr
     then Err (Invalid ''cannot decode non-snapshot LTX file to SQLite database'')
     else and_then (decode_database_pages x lock n (page_numbers (h_commit hdr)) d []) (\<lambda>(d, w).
       and_then (decode_page x d n) (\<lambda>(p, d).
         case p of
           Some (ph, data) \<Rightarrow> Err (Invalid (''unexpected page '' @ fmt_dec (unat (ph_pgno ph)) @
               '' after commit '' @ fmt_dec (unat (h_commit hdr))))
         | None \<Rightarrow> and_then (decoder_finish x d) (\<lambda>_. Ok w))))"

definition decode_page_data :: "externs \<Rightarrow> byte list \<Rightarrow> u32 \<Rightarrow> (page_header \<times> byte list) ltx_result" where
  "decode_page_data x frame page_size =
     and_then (page_header_decode frame) (\<lambda>hdr.
       if page_header_is_zero hdr then Ok (hdr, [])
       else and_then (decompress_frame x (drop PAGE_HEADER_SIZE frame) (unat page_size)) (\<lambda>(data, r).
         Ok (hdr, data)))"

section \<open>Reading what the encoder wrote\<close>

text \<open>The rolling checksum the decoder keeps while reading pages.\<close>

definition fold_chksum :: "externs \<Rightarrow> header \<Rightarrow> checksum \<Rightarrow> u32 \<times> byte list \<Rightarrow> checksum" where
  "fold_chksum x h c p =
     (if is_snapshot h \<and> \<not> no_checksum h \<and> fst p \<noteq> header_lock_pgno h
      then xor_page_checksum c (checksum_page (x_crc64 x) (fst p) (snd p)) else c)"

lemma decode_header_encode:
  assumes "header_validate h = Ok ()"
  shows "decode_header (decoder_new (header_encode h @ rest)) =
    Ok (decoder_new rest\<lparr>d_state := DecPage, d_header := h, d_hash := header_encode h,
          d_chksum := (if no_checksum h then 0 else CHECKSUM_FLAG), d_n := 100\<rparr>)"
  using assms by (simp add: decode_header_def decoder_new_def write_to_hash_def Let_def HEADER_SIZE_def)

lemma decode_page_frame:
  assumes "lz4_ok x" and "d_state d = DecPage" and "fst p \<noteq> 0"
    and "length (snd p) = unat (h_page_size (d_header d))" and "d_r d = page_frame x p @ rest"
    and "n = unat (h_page_size (d_header d))"
  shows "decode_page x d n =
    Ok (Some (\<lparr>ph_pgno = fst p, ph_flags = 0\<rparr>, snd p),
        d\<lparr>d_r := rest, d_hash := d_hash d @ page_hash_input p,
          d_n := d_n d + 6 + of_nat (length (snd p)), d_page_n := d_page_n d + 1,
          d_chksum := fold_chksum x (d_header d) (d_chksum d) p\<rparr>)"
  using assms decompress_compress_frame [OF assms(1), of "snd p" n rest]
  by (simp add: decode_page_def page_frame_def page_hash_input_def write_to_hash_def Let_def
      page_header_is_zero_def page_header_default_def page_header_validate_def fold_chksum_def
      PAGE_HEADER_SIZE_def)

lemma decode_page_end:
  assumes "d_state d = DecPage" and "d_r d = page_header_encode page_header_default @ rest"
    and "n = unat (h_page_size (d_header d))"
  shows "decode_page x d n =
    Ok (None, d\<lparr>d_r := rest, d_hash := d_hash d @ page_header_encode page_header_default,
                d_n := d_n d + 6, d_state := DecClose\<rparr>)"
  using assms by (simp add: decode_page_def write_to_hash_def page_header_is_zero_def Let_def PAGE_HEADER_SIZE_def)

lemma decode_pages_frames:
  assumes "lz4_ok x" and "d_state d = DecPage"
    and "\<forall>p \<in> set pages. fst p \<noteq> 0 \<and> length (snd p) = unat (h_page_size (d_header d))"
    and "d_r d = concat (map (page_frame x) pages) @ page_header_encode page_header_default @ rest"
    and "n = unat (h_page_size (d_header d))"
  shows "\<exists>d'. decode_pages x d n = Ok (pages, d') \<and> d_r d' = rest \<and> d_state d' = DecClose \<and>
    d_header d' = d_header d \<and> d_page_n d' = d_page_n d + length pages \<and>
    d_hash d' = d_hash d @ concat (map page_hash_input pages) @ page_header_encode page_header_default \<and>
    d_chksum d' = foldl (fold_chksum x (d_header d)) (d_chksum d) pages"
  using assms
proof (induction pages arbitrary: d)
  case Nil
  then show ?case by (subst decode_pages.simps) (simp add: decode_page_end)
next
  case (Cons p pages)
  let ?rest = "concat (map (page_frame x) pages) @ page_header_encode page_header_default @ rest"
  let ?d = "d\<lparr>d_r := ?rest, d_hash := d_hash d @ page_hash_input p,
          d_n := d_n d + 6 + of_nat (length (snd p)), d_page_n := d_page_n d + 1,
          d_chksum := fold_chksum x (d_header d) (d_chksum d) p\<rparr>"
  have "decode_page x d n = Ok (Some (\<lparr>ph_pgno = fst p, ph_flags = 0\<rparr>, snd p), ?d)"
    using Cons.prems by (intro decode_page_frame) auto
  then have step: "decode_pages x d n = and_then (decode_pages x ?d n) (\<lambda>(ps, d''). Ok (p # ps, d''))"
    by (subst decode_pages.simps) simp
  have "\<exists>d'. decode_pages x ?d n = Ok (pages, d') \<and> d_r d' = rest \<and> d_state d' = DecClose \<and>
    d_header d' = d_header ?d \<and> d_page_n d' = d_page_n ?d + length pages \<and>
    d_hash d' = d_hash ?d @ concat (map page_hash_input pages) @ page_header_encode page_header_default \<and>
    d_chksum d' = foldl (fold_chksum x (d_header ?d)) (d_chksum ?d) pages"
    using Cons.prems by (intro Cons.IH) auto
  with step show ?case by auto
qed

text \<open>The decoder's rolling checksum over a snapshot's pages is the database checksum.\<close>

lemma foldl_fold_chksum:
  assumes "is_snapshot h" and "\<not> no_checksum h" and "\<forall>p \<in> set pages. fst p \<noteq> header_lock_pgno h"
  shows "foldl (fold_chksum x h) CHECKSUM_FLAG pages = db_checksum (x_crc64 x) pages"
  unfolding db_checksum_def
  by (rule foldl_cong) (use assms in \<open>auto simp: fold_chksum_def\<close>)

section \<open>Rejection\<close>

text \<open>What a successful \<open>verify\<close> means for the bytes of the file.\<close>

lemma decoder_finish_OkD:
  assumes "decoder_finish x d = Ok (r, h, t, idx)"
  shows "d_state d = DecClose" and "h = d_header d"
    and "t_file_checksum t =
      CHECKSUM_FLAG OR x_crc64 x (d_hash d @ take (length (d_r d) - CHECKSUM_SIZE) (d_r d))"
    and "is_snapshot h \<Longrightarrow> \<not> no_checksum h \<Longrightarrow> t_post_apply_checksum t = d_chksum d"
    and "TRAILER_SIZE \<le> length (d_r d)"
    and "trailer_decode (drop (length (d_r d) - TRAILER_SIZE) (d_r d)) = Ok t"
proof -
  from assms show "d_state d = DecClose" "h = d_header d" "TRAILER_SIZE \<le> length (d_r d)"
    "t_file_checksum t =
      CHECKSUM_FLAG OR x_crc64 x (d_hash d @ take (length (d_r d) - CHECKSUM_SIZE) (d_r d))"
    "is_snapshot h \<Longrightarrow> \<not> no_checksum h \<Longrightarrow> t_post_apply_checksum t = d_chksum d"
    by (auto simp: decoder_finish_def and_then_eq_Ok Let_def write_to_hash_def
        split: decoder_state.splits if_splits)
  from assms obtain rest a b where idx: "decode_page_index (d_r d) 0 a b = Ok (idx, rest)"
    and len: "length rest = TRAILER_SIZE" and t: "trailer_decode rest = Ok t"
    by (auto simp: decoder_finish_def and_then_eq_Ok Let_def write_to_hash_def
        split: decoder_state.splits if_splits)
  obtain pre where "d_r d = pre @ rest" using decode_page_index_suffix [OF idx] by (auto simp: suffix_def)
  then show "trailer_decode (drop (length (d_r d) - TRAILER_SIZE) (d_r d)) = Ok t" using len t by simp
qed

end
