(* ===== verification/LtxFile.thy ===== *)
theory LtxFile
  imports Decoder
begin

text \<open>
  Whole LTX files: what \<open>Encoder\<close> and \<open>Decoder\<close> promise each other.  The bytes of a file are laid
  out as header, page frames, end marker, page index and trailer; decoding them gives the same
  header, pages, trailer and index back, the index locates every page's frame, and a snapshot
  materialises as the database image.
\<close>

section \<open>The layout of an encoded file\<close>

fun page_spans :: "externs \<Rightarrow> u64 \<Rightarrow> (u32 \<times> byte list) list \<Rightarrow> span_index" where
  "page_spans x off [] = []"
| "page_spans x off (p # ps) =
     (fst p, off, of_nat (length (page_frame x p))) #
     page_spans x (off + of_nat (length (page_frame x p))) ps"

lemma map_fst_page_spans [simp]: "map fst (page_spans x off ps) = map fst ps"
  by (induction ps arbitrary: off) auto

lemma encode_pages_index:
  assumes "encoder_inv e" and "encode_pages x e pages = Ok e'"
  shows "e_index e' = e_index e @ page_spans x (e_n e) pages"
    and "e_n e' = e_n e + of_nat (length (concat (map (page_frame x) pages)))"
proof -
  have "e_index e' = e_index e @ page_spans x (e_n e) pages \<and>
        e_n e' = e_n e + of_nat (length (concat (map (page_frame x) pages)))"
    using assms
  proof (induction pages arbitrary: e)
    case (Cons p pages)
    obtain pgno data where p: "p = (pgno, data)" by (cases p)
    from Cons.prems p obtain e1 where e1: "encode_page x e pgno data = Ok e1"
      and rest: "encode_pages x e1 pages = Ok e'" by (auto simp: and_then_eq_Ok)
    note ok = encode_page_OkD [OF e1]
    note inv = encode_page_inv [OF Cons.prems(1) e1]
    have "\<forall>k \<in> set (map fst (e_index e)). k < pgno"
      using Cons.prems(1) inv(2) by (auto simp: encoder_inv_def)
    then have "e_index e1 = e_index e @ [(pgno, e_n e, of_nat (length (page_frame x (pgno, data))))]"
      using ok(7,8) by (simp add: btree_insert_last)
    with Cons.IH [OF inv(1) rest] ok(8) show ?case by (simp add: p)
  qed simp
  then show "e_index e' = e_index e @ page_spans x (e_n e) pages"
    "e_n e' = e_n e + of_nat (length (concat (map (page_frame x) pages)))" by auto
qed

definition file_index :: "externs \<Rightarrow> (u32 \<times> byte list) list \<Rightarrow> span_index" where
  "file_index x pages = page_spans x (of_nat HEADER_SIZE) pages"

text \<open>The bytes the file checksum covers: page contents uncompressed, everything but the checksum.\<close>

definition file_hash_input :: "externs \<Rightarrow> header \<Rightarrow> (u32 \<times> byte list) list \<Rightarrow> checksum \<Rightarrow> byte list" where
  "file_hash_input x h pages post =
     header_encode h @ concat (map page_hash_input pages) @ page_header_encode page_header_default @
     encode_page_index (file_index x pages) @ be64 post"

definition file_trailer :: "externs \<Rightarrow> header \<Rightarrow> (u32 \<times> byte list) list \<Rightarrow> checksum \<Rightarrow> trailer" where
  "file_trailer x h pages post =
     \<lparr>t_post_apply_checksum = post,
      t_file_checksum = CHECKSUM_FLAG OR x_crc64 x (file_hash_input x h pages post)\<rparr>"

definition file_bytes :: "externs \<Rightarrow> header \<Rightarrow> (u32 \<times> byte list) list \<Rightarrow> checksum \<Rightarrow> byte list" where
  "file_bytes x h pages post =
     header_encode h @ concat (map (page_frame x) pages) @ page_header_encode page_header_default @
     encode_page_index (file_index x pages) @ trailer_encode (file_trailer x h pages post)"

lemma encode_file_OkD:
  assumes "encode_file x h pages post = Ok (w, h', t)"
  shows "w = file_bytes x h pages post" and "h' = h" and "t = file_trailer x h pages post"
    and "header_validate h = Ok ()" and "trailer_validate t h = Ok ()"
    and "sorted_wrt (<) (0 # map fst pages)"
    and "\<forall>p \<in> set pages. fst p \<noteq> 0 \<and> length (snd p) = unat (h_page_size h) \<and>
           fst p \<le> h_commit h \<and> fst p \<noteq> header_lock_pgno h"
    and "h_commit h = 0 \<Longrightarrow> post = checksum_EMPTY"
proof -
  from assms obtain e e' where e: "encode_header encoder_new h = Ok e"
    and e': "encode_pages x e pages = Ok e'"
    and fin: "encoder_finish x (set_post_apply_checksum e' post) = Ok (w, h', t)"
    by (auto simp: encode_file_def and_then_eq_Ok)
  note eh = encode_header_OkD [OF e]
  note ep = encode_pages_OkD [OF eh(1) e']
  note ei = encode_pages_index [OF eh(1) e']
  have n: "e_n e = of_nat HEADER_SIZE"
    using e by (auto simp: encode_header_def encoder_new_def and_then_eq_Ok Let_def encoder_write_def)
  have st: "e_state e' = EncPage" using ep(1) by (simp add: encoder_inv_def)
  have tr: "e_trailer e' = trailer_default" using ep(3) eh(7) by simp
  have "w = file_bytes x h pages post \<and> h' = h \<and> t = file_trailer x h pages post \<and>
    trailer_validate t h = Ok () \<and> (h_commit h = 0 \<longrightarrow> post = checksum_EMPTY)"
    using fin st tr ep ei eh n
    by (auto simp: encoder_finish_def set_post_apply_checksum_def encoder_write_def Let_def
        and_then_eq_Ok file_bytes_def file_trailer_def file_hash_input_def file_index_def
        trailer_default_def split: if_splits)
  then show "w = file_bytes x h pages post" "h' = h" "t = file_trailer x h pages post"
    "trailer_validate t h = Ok ()" "h_commit h = 0 \<Longrightarrow> post = checksum_EMPTY" by auto
  show "header_validate h = Ok ()" using ep(1) eh by (auto simp: encoder_inv_def)
  show "sorted_wrt (<) (0 # map fst pages)" using ep(6) eh(6) by simp
  show "\<forall>p \<in> set pages. fst p \<noteq> 0 \<and> length (snd p) = unat (h_page_size h) \<and>
           fst p \<le> h_commit h \<and> fst p \<noteq> header_lock_pgno h"
    using ep(7) eh(2) by (simp add: header_lock_pgno_def)
qed

section \<open>A concrete file\<close>

text \<open>Stored blocks for compression and constant hashes: an instance of the third-party laws.\<close>

definition demo_externs :: externs where
  "demo_externs = \<lparr>x_crc64 = (\<lambda>b. of_nat (length b)), x_xxh32 = (\<lambda>b. of_nat (length b)),
     x_lz4_compress = (\<lambda>b. b), x_lz4_decompress = (\<lambda>b cap. if length b \<le> cap then Ok b else Err ''too small'')\<rparr>"

definition demo_header :: header where
  "demo_header = header_default\<lparr>h_flags := 2, h_page_size := 512, h_commit := 2, h_min_txid := 1, h_max_txid := 1\<rparr>"

definition demo_pages :: "(u32 \<times> byte list) list" where
  "demo_pages = [(1, replicate 512 7), (2, replicate 512 9)]"

lemma demo_lz4_ok: "lz4_ok demo_externs"
  by (simp add: lz4_ok_def demo_externs_def)

lemma demo_page_size_valid: "is_valid_page_size 512"
proof -
  have "filter (bit (512 :: u32)) [0..<LENGTH(32)] = [9]" by code_simp
  then show ?thesis
    by (simp add: is_valid_page_size_def MAX_PAGE_SIZE_def is_power_of_two_def count_ones_def)
qed

lemma demo_header_valid: "header_validate demo_header = Ok ()"
  using demo_page_size_valid
  by (simp add: demo_header_def header_default_def header_validate_def is_valid_header_flags_def
      HEADER_FLAG_MASK_def HEADER_FLAG_NO_CHECKSUM_def txid_is_zero_def is_snapshot_def
      no_checksum_def checksum_is_zero_def)

lemma demo_header_fields:
  "h_page_size demo_header = 512" "h_commit demo_header = 2" "h_min_txid demo_header = 1"
  by (simp_all add: demo_header_def)

lemma demo_header_no_checksum: "no_checksum demo_header" "is_snapshot demo_header"
  by (simp_all add: demo_header_def no_checksum_def is_snapshot_def HEADER_FLAG_NO_CHECKSUM_def)

lemma demo_lock: "lock_pgno 512 = 2097153"
  by (simp add: lock_pgno_def PENDING_BYTE_def)

lemma demo_encode_file:
  "encode_file demo_externs demo_header demo_pages 0 =
   Ok (file_bytes demo_externs demo_header demo_pages 0, demo_header, file_trailer demo_externs demo_header demo_pages 0)"
proof -
  have "is_ok (encode_file demo_externs demo_header demo_pages 0)"
    using demo_header_valid demo_header_no_checksum demo_lock
    by (simp add: encode_file_def encode_header_def encoder_new_def demo_pages_def encode_page_def
      encoder_write_def Let_def check_page_order_def page_header_validate_def encoder_finish_def
      set_post_apply_checksum_def trailer_validate_def checksum_is_zero_def demo_header_fields trailer_default_def)
  then show ?thesis by (auto simp: is_ok_iff dest: encode_file_OkD)
qed

section \<open>Decoding an encoded file\<close>

lemma decoder_finish_file:
  assumes "d_state d = DecClose" and "d_header d = h"
    and "d_r d = encode_page_index (file_index x pages) @ trailer_encode t"
    and "sorted_wrt (<) (map fst pages)" and "\<forall>p \<in> set pages. fst p \<noteq> 0"
    and "t_file_checksum t = CHECKSUM_FLAG OR x_crc64 x
           (d_hash d @ encode_page_index (file_index x pages) @ be64 (t_post_apply_checksum t))"
    and "is_snapshot h \<and> \<not> no_checksum h \<longrightarrow> t_post_apply_checksum t = d_chksum d"
  shows "decoder_finish x d = Ok ([], h, t, map (tag_span 0 (h_min_txid h) (h_max_txid h)) (file_index x pages))"
proof -
  let ?i = "encode_page_index (file_index x pages)"
  have idx: "decode_page_index (?i @ trailer_encode t) 0 (h_min_txid h) (h_max_txid h) =
      Ok (map (tag_span 0 (h_min_txid h) (h_max_txid h)) (file_index x pages), trailer_encode t)"
  proof (rule decode_encode_page_index)
    show "sorted_wrt (<) (map fst (file_index x pages))" using assms(4) by (simp add: file_index_def)
    have "map fst (file_index x pages) = map fst pages" by (simp add: file_index_def)
    then have "fst ` set (file_index x pages) = fst ` set pages" by (metis set_map)
    then show "\<forall>e \<in> set (file_index x pages). fst e \<noteq> 0" using assms(5) by (force simp: set_eq_iff image_iff)
  qed
  have "take (length (d_r d) - CHECKSUM_SIZE) (d_r d) = ?i @ be64 (t_post_apply_checksum t)"
    by (simp add: assms(3) trailer_encode_def CHECKSUM_SIZE_def)
  then show ?thesis
    using assms idx by (auto simp: decoder_finish_def write_to_hash_def Let_def)
qed

lemma decode_file_bytes:
  assumes "lz4_ok x" and "header_validate h = Ok ()"
    and "sorted_wrt (<) (0 # map fst pages)"
    and "\<forall>p \<in> set pages. fst p \<noteq> 0 \<and> length (snd p) = unat (h_page_size h) \<and>
           fst p \<le> h_commit h \<and> fst p \<noteq> header_lock_pgno h"
    and "is_snapshot h \<and> \<not> no_checksum h \<longrightarrow> post = db_checksum (x_crc64 x) pages"
  shows "\<exists>d d'. decode_header (decoder_new (file_bytes x h pages post)) = Ok d \<and> d_header d = h \<and>
     d_state d = DecPage \<and>
     decode_pages x d (unat (h_page_size h)) = Ok (pages, d') \<and>
     decoder_finish x d' = Ok ([], h, file_trailer x h pages post,
       map (tag_span 0 (h_min_txid h) (h_max_txid h)) (file_index x pages))"
proof -
  let ?t = "file_trailer x h pages post"
  let ?tail = "encode_page_index (file_index x pages) @ trailer_encode ?t"
  let ?rest = "concat (map (page_frame x) pages) @ page_header_encode page_header_default @ ?tail"
  let ?c = "if no_checksum h then 0 else CHECKSUM_FLAG"
  let ?d = "decoder_new ?rest\<lparr>d_state := DecPage, d_header := h, d_hash := header_encode h,
          d_chksum := ?c, d_n := 100\<rparr>"
  have hdr: "decode_header (decoder_new (file_bytes x h pages post)) = Ok ?d"
    unfolding file_bytes_def using assms(2) by (rule decode_header_encode)
  have "\<exists>d'. decode_pages x ?d (unat (h_page_size h)) = Ok (pages, d') \<and> d_r d' = ?tail \<and>
      d_state d' = DecClose \<and> d_header d' = d_header ?d \<and> d_page_n d' = d_page_n ?d + length pages \<and>
      d_hash d' = d_hash ?d @ concat (map page_hash_input pages) @ page_header_encode page_header_default \<and>
      d_chksum d' = foldl (fold_chksum x (d_header ?d)) (d_chksum ?d) pages"
    by (rule decode_pages_frames) (use assms in \<open>auto simp: decoder_new_def\<close>)
  then obtain d' where d': "decode_pages x ?d (unat (h_page_size h)) = Ok (pages, d')" "d_r d' = ?tail"
      "d_state d' = DecClose" "d_header d' = h"
      "d_hash d' = header_encode h @ concat (map page_hash_input pages) @ page_header_encode page_header_default"
      "d_chksum d' = foldl (fold_chksum x h) ?c pages"
    by auto
  have "decoder_finish x d' = Ok ([], h, ?t, map (tag_span 0 (h_min_txid h) (h_max_txid h)) (file_index x pages))"
  proof (rule decoder_finish_file)
    show "is_snapshot h \<and> \<not> no_checksum h \<longrightarrow> t_post_apply_checksum ?t = d_chksum d'"
      using assms(4,5) d'(6) by (auto simp: foldl_fold_chksum file_trailer_def)
    show "t_file_checksum ?t = CHECKSUM_FLAG OR x_crc64 x
           (d_hash d' @ encode_page_index (file_index x pages) @ be64 (t_post_apply_checksum ?t))"
      by (simp add: d'(5) file_trailer_def file_hash_input_def)
  qed (use assms d' in auto)
  with hdr d'(1) show ?thesis by (intro exI [of _ ?d] exI [of _ d']) (simp add: decoder_new_def)
qed

lemma verify_file_bytes:
  assumes "lz4_ok x" and "encode_file x h pages post = Ok (w, h', t)"
    and "is_snapshot h \<and> \<not> no_checksum h \<longrightarrow> post = db_checksum (x_crc64 x) pages"
  shows "decoder_verify x w =
    Ok (h, t, map (tag_span 0 (h_min_txid h) (h_max_txid h)) (file_index x pages))"
proof -
  note ok = encode_file_OkD [OF assms(2)]
  show ?thesis
    using decode_file_bytes [OF assms(1) ok(4) ok(6) ok(7) assms(3)] ok(1,3)
    by (auto simp: decoder_verify_def)
qed

lemma demo_verify:
  "\<exists>idx. decoder_verify demo_externs (file_bytes demo_externs demo_header demo_pages 0) =
      Ok (demo_header, file_trailer demo_externs demo_header demo_pages 0, idx)"
  using verify_file_bytes [OF demo_lz4_ok demo_encode_file] demo_header_no_checksum by blast

text \<open>C1: an encoded file decodes to what was encoded.  For every file the encoder accepts (for a
  snapshot with checksum tracking: whose post-apply checksum is the checksum of its pages), reading
  the bytes back gives the same header, the same pages in the same order and the same trailer, and
  \<open>verify\<close> accepts the file with an index that holds exactly the file's pages.\<close>

theorem ltx_file_roundtrip:
  assumes "lz4_ok x" and "encode_file x h pages post = Ok (w, h', t)"
    and "is_snapshot h \<and> \<not> no_checksum h \<longrightarrow> post = db_checksum (x_crc64 x) pages"
  shows "\<exists>d d' idx. decode_header (decoder_new w) = Ok d \<and> d_header d = h \<and>
     decode_pages x d (unat (h_page_size h)) = Ok (pages, d') \<and>
     decoder_verify x w = Ok (h, t, idx) \<and> t_post_apply_checksum t = post \<and>
     map fst idx = map fst pages"
proof -
  note ok = encode_file_OkD [OF assms(2)]
  obtain d d' where "decode_header (decoder_new w) = Ok d" "d_header d = h"
     "decode_pages x d (unat (h_page_size h)) = Ok (pages, d')"
     "decoder_finish x d' = Ok ([], h, t, map (tag_span 0 (h_min_txid h) (h_max_txid h)) (file_index x pages))"
    using decode_file_bytes [OF assms(1) ok(4) ok(6) ok(7) assms(3)] ok(1,3) by auto
  moreover have "map fst (map (tag_span 0 a b) (file_index x pages)) = map fst pages" for a b
    by (simp add: file_index_def comp_def)
  ultimately show ?thesis
    by (simp add: decoder_verify_def ok(3) file_trailer_def)
qed

theorem ltx_file_roundtrip_witness:
  "\<exists>d d' idx. decode_header (decoder_new (file_bytes demo_externs demo_header demo_pages 0)) = Ok d \<and>
     d_header d = demo_header \<and>
     decode_pages demo_externs d (unat (h_page_size demo_header)) = Ok (demo_pages, d') \<and>
     decoder_verify demo_externs (file_bytes demo_externs demo_header demo_pages 0) =
       Ok (demo_header, file_trailer demo_externs demo_header demo_pages 0, idx) \<and>
     t_post_apply_checksum (file_trailer demo_externs demo_header demo_pages 0) = 0 \<and>
     map fst idx = map fst demo_pages"
  by (rule ltx_file_roundtrip [OF demo_lz4_ok demo_encode_file]) (simp add: demo_header_no_checksum)

section \<open>The page index locates the page frames\<close>

lemma page_spans_locate:
  assumes "p \<in> set pages" and "distinct (map fst pages)"
    and "unat off + length (concat (map (page_frame x) pages)) < 2 ^ 64"
  shows "\<exists>o' n. map_of (page_spans x off pages) (fst p) = Some (o', n) \<and> off \<le> o' \<and>
    take (unat n) (drop (unat o' - unat off) (concat (map (page_frame x) pages) @ rest)) = page_frame x p"
  using assms
proof (induction pages arbitrary: off)
  case (Cons q pages)
  let ?n = "length (page_frame x q)"
  have n: "unat (of_nat ?n :: u64) = ?n" using Cons.prems(3)
    by (simp add: unsigned_of_nat take_bit_nat_eq_self)
  have add: "unat (off + of_nat ?n) = unat off + ?n"
    using Cons.prems(3) n by (subst unat_add_no_wrap) simp_all
  show ?case
  proof (cases "fst p = fst q")
    case True
    have "p = q" using True Cons.prems(1,2) by (auto simp: image_iff dest: bspec)
    then show ?thesis by (simp add: n)
  next
    case False
    then have p: "p \<in> set pages" using Cons.prems(1) by auto
    obtain o' m where om: "map_of (page_spans x (off + of_nat ?n) pages) (fst p) = Some (o', m)"
      "off + of_nat ?n \<le> o'"
      "take (unat m) (drop (unat o' - unat (off + of_nat ?n)) (concat (map (page_frame x) pages) @ rest)) =
       page_frame x p"
      using Cons.IH [OF p, of "off + of_nat ?n"] Cons.prems add by auto
    then have "unat off + ?n \<le> unat o'" by (simp add: word_le_unat add)
    then have "unat o' - unat off = ?n + (unat o' - unat (off + of_nat ?n))" and "off \<le> o'"
      by (simp_all add: add word_le_unat)
    with om(1,3) False show ?thesis by (auto simp: add)
  qed
qed simp

lemma decode_page_data_frame:
  assumes "lz4_ok x" and "fst p \<noteq> 0" and "length (snd p) = unat page_size"
  shows "decode_page_data x (page_frame x p) page_size = Ok (\<lparr>ph_pgno = fst p, ph_flags = 0\<rparr>, snd p)"
  using assms decompress_compress_frame [OF assms(1,3), of "[]"]
    length_page_header_encode [of "\<lparr>ph_pgno = fst p, ph_flags = 0\<rparr>"]
  by (simp add: decode_page_data_def page_frame_def page_header_decode_encode_append
      page_header_is_zero_def page_header_default_def)

lemma map_of_tag_span:
  "map_of (map (tag_span l a b) idx) k = map_option (\<lambda>s. snd (tag_span l a b (k, s))) (map_of idx k)"
  by (induction idx) (auto split: prod.splits)

text \<open>C2: random access.  In a file shorter than \<open>2^64\<close> bytes the index that \<open>verify\<close> returns
  locates every page: fetching the bytes of its span and decoding them with \<open>decode_page_data\<close>
  gives that page's number and content.\<close>

theorem page_index_locates_pages:
  assumes "lz4_ok x" and "encode_file x h pages post = Ok (w, h', t)"
    and "is_snapshot h \<and> \<not> no_checksum h \<longrightarrow> post = db_checksum (x_crc64 x) pages"
    and "length w < 2 ^ 64" and "(pgno, data) \<in> set pages"
  shows "\<exists>idx e. decoder_verify x w = Ok (h, t, idx) \<and> map_of idx pgno = Some e \<and>
    decode_page_data x (subslice (unat (pi_offset e)) (unat (pi_offset e) + unat (pi_size e)) w) (h_page_size h) =
      Ok (\<lparr>ph_pgno = pgno, ph_flags = 0\<rparr>, data)"
proof -
  note ok = encode_file_OkD [OF assms(2)]
  let ?idx = "map (tag_span 0 (h_min_txid h) (h_max_txid h)) (file_index x pages)"
  have verify: "decoder_verify x w = Ok (h, t, ?idx)"
    by (rule verify_file_bytes [OF assms(1-3)])
  let ?frames = "concat (map (page_frame x) pages)"
  obtain rest where w: "w = header_encode h @ ?frames @ rest" using ok(1) by (auto simp: file_bytes_def)
  have hdr: "unat (of_nat HEADER_SIZE :: u64) = HEADER_SIZE" by (simp add: HEADER_SIZE_def)
  have "distinct (map fst pages)" using ok(6) by (auto simp: strict_sorted_iff)
  moreover have "unat (of_nat HEADER_SIZE :: u64) + length ?frames < 2 ^ 64"
    using assms(4) unfolding hdr w by simp
  ultimately obtain o' n where loc: "map_of (file_index x pages) pgno = Some (o', n)"
      "of_nat HEADER_SIZE \<le> o'"
      "take (unat n) (drop (unat o' - HEADER_SIZE) (?frames @ rest)) = page_frame x (pgno, data)"
    using page_spans_locate [of "(pgno, data)" pages "of_nat HEADER_SIZE" x rest] assms(5)
    unfolding file_index_def hdr by auto
  have "HEADER_SIZE \<le> unat o'" using loc(2) hdr by (simp only: word_le_unat)
  then have "subslice (unat o') (unat o' + unat n) w = page_frame x (pgno, data)"
    using loc(3) by (simp add: subslice_def w)
  moreover have "decode_page_data x (page_frame x (pgno, data)) (h_page_size h) =
      Ok (\<lparr>ph_pgno = pgno, ph_flags = 0\<rparr>, data)"
    using decode_page_data_frame [OF assms(1), of "(pgno, data)"] ok(7) assms(5) by force
  ultimately show ?thesis using verify loc(1) by (auto simp: map_of_tag_span)
qed

lemma length_demo_frame: "length (page_frame demo_externs (k, replicate 512 v)) = 537"
  by (simp add: page_frame_def compress_frame_def compress_block_def demo_externs_def PAGE_HEADER_SIZE_def
      chunks.simps [of "65536" "replicate 512 v"] chunks.simps [of "65536" "[]"])

lemma length_demo_file: "length (file_bytes demo_externs demo_header demo_pages 0) < 2 ^ 64"
proof -
  have "length (encode_page_index (file_index demo_externs demo_pages)) \<le> 78"
    using encode_page_index_length [of "file_index demo_externs demo_pages"]
    by (simp add: file_index_def demo_pages_def)
  then show ?thesis
    by (simp add: file_bytes_def demo_pages_def length_demo_frame ltx_size_defs)
qed

theorem page_index_locates_pages_witness:
  "\<exists>idx e. decoder_verify demo_externs (file_bytes demo_externs demo_header demo_pages 0) =
       Ok (demo_header, file_trailer demo_externs demo_header demo_pages 0, idx) \<and> map_of idx 2 = Some e \<and>
    decode_page_data demo_externs (subslice (unat (pi_offset e)) (unat (pi_offset e) + unat (pi_size e))
       (file_bytes demo_externs demo_header demo_pages 0)) (h_page_size demo_header) =
      Ok (\<lparr>ph_pgno = 2, ph_flags = 0\<rparr>, replicate 512 9)"
  by (rule page_index_locates_pages [OF demo_lz4_ok demo_encode_file _ length_demo_file])
     (simp_all add: demo_header_no_checksum demo_pages_def)

section \<open>Snapshots as database images\<close>

text \<open>The image of a snapshot: its pages by number, the lock page as zeros.\<close>

definition database_image :: "u32 \<Rightarrow> nat \<Rightarrow> (u32 \<times> byte list) list \<Rightarrow> u32 list \<Rightarrow> byte list" where
  "database_image lock n pages pgnos =
     concat (map (\<lambda>k. if k = lock then replicate n 0 else the (map_of pages k)) pgnos)"

lemma decode_database_pages_frames:
  assumes "lz4_ok x" and "d_state d = DecPage" and "distinct (map fst pages)"
    and "\<forall>p \<in> set pages. fst p \<noteq> 0 \<and> length (snd p) = n"
    and "n = unat (h_page_size (d_header d))"
    and "d_r d = concat (map (page_frame x) pages) @ rest"
    and "map fst pages = filter (\<lambda>k. k \<noteq> lock) pgnos"
  shows "\<exists>d'. decode_database_pages x lock n pgnos d w =
      Ok (d', w @ database_image lock n pages pgnos) \<and> d_state d' = DecPage \<and>
      d_header d' = d_header d \<and> d_r d' = rest \<and>
      d_hash d' = d_hash d @ concat (map page_hash_input pages) \<and>
      d_chksum d' = foldl (fold_chksum x (d_header d)) (d_chksum d) pages"
  using assms
proof (induction pgnos arbitrary: pages d w)
  case Nil
  then show ?case by (simp add: database_image_def)
next
  case (Cons k pgnos)
  show ?case
  proof (cases "k = lock")
    case True
    have "\<exists>d'. decode_database_pages x lock n pgnos d (w @ replicate n 0) =
      Ok (d', (w @ replicate n 0) @ database_image lock n pages pgnos) \<and> d_state d' = DecPage \<and>
      d_header d' = d_header d \<and> d_r d' = rest \<and>
      d_hash d' = d_hash d @ concat (map page_hash_input pages) \<and>
      d_chksum d' = foldl (fold_chksum x (d_header d)) (d_chksum d) pages"
      using Cons.prems True by (intro Cons.IH) auto
    then show ?thesis using True by (simp add: database_image_def)
  next
    case False
    with Cons.prems(7) obtain p ps where pages: "pages = p # ps" and p: "fst p = k"
      and ps: "map fst ps = filter (\<lambda>k. k \<noteq> lock) pgnos" by (cases pages) auto
    let ?d = "d\<lparr>d_r := concat (map (page_frame x) ps) @ rest, d_hash := d_hash d @ page_hash_input p,
          d_n := d_n d + 6 + of_nat (length (snd p)), d_page_n := d_page_n d + 1,
          d_chksum := fold_chksum x (d_header d) (d_chksum d) p\<rparr>"
    have step: "decode_page x d n = Ok (Some (\<lparr>ph_pgno = fst p, ph_flags = 0\<rparr>, snd p), ?d)"
      using Cons.prems pages by (intro decode_page_frame) auto
    have "\<exists>d'. decode_database_pages x lock n pgnos ?d (w @ snd p) =
      Ok (d', (w @ snd p) @ database_image lock n ps pgnos) \<and> d_state d' = DecPage \<and>
      d_header d' = d_header ?d \<and> d_r d' = rest \<and>
      d_hash d' = d_hash ?d @ concat (map page_hash_input ps) \<and>
      d_chksum d' = foldl (fold_chksum x (d_header ?d)) (d_chksum ?d) ps"
      using Cons.prems pages ps by (intro Cons.IH) auto
    moreover have "database_image lock n pages (k # pgnos) = snd p @ database_image lock n ps pgnos"
    proof -
      have "k \<notin> set pgnos"
        using Cons.prems(3) False p ps unfolding pages by (auto simp flip: set_map)
      then have "database_image lock n pages pgnos = database_image lock n ps pgnos"
        using p unfolding database_image_def pages by (intro arg_cong [where f = concat] map_cong) auto
      moreover have "database_image lock n pages (k # pgnos) = snd p @ database_image lock n pages pgnos"
        using p False by (simp add: database_image_def pages)
      ultimately show ?thesis by simp
    qed
    ultimately show ?thesis using step False p pages by auto
  qed
qed

lemma decode_database_complete:
  assumes "lz4_ok x" and "encode_file x h pages post = Ok (w, h', t)" and "is_snapshot h"
    and "\<not> no_checksum h \<longrightarrow> post = db_checksum (x_crc64 x) pages"
    and "map fst pages = filter (\<lambda>k. k \<noteq> header_lock_pgno h) (page_numbers (h_commit h))"
  shows "decode_database_to x w =
    Ok (database_image (header_lock_pgno h) (unat (h_page_size h)) pages (page_numbers (h_commit h)))"
proof -
  note ok = encode_file_OkD [OF assms(2)]
  let ?n = "unat (h_page_size h)" and ?lock = "header_lock_pgno h"
  let ?tail = "encode_page_index (file_index x pages) @ trailer_encode t"
  let ?rest = "page_header_encode page_header_default @ ?tail"
  let ?c = "if no_checksum h then 0 else CHECKSUM_FLAG"
  let ?d = "decoder_new (concat (map (page_frame x) pages) @ ?rest)\<lparr>d_state := DecPage, d_header := h,
          d_hash := header_encode h, d_chksum := ?c, d_n := 100\<rparr>"
  have hdr: "decode_header (decoder_new w) = Ok ?d"
    unfolding ok(1) file_bytes_def using decode_header_encode [OF ok(4)] ok(3) by simp
  have dist: "distinct (map fst pages)" using ok(6) by (auto simp: strict_sorted_iff)
  have "\<exists>d'. decode_database_pages x ?lock ?n (page_numbers (h_commit h)) ?d [] =
      Ok (d', [] @ database_image ?lock ?n pages (page_numbers (h_commit h))) \<and> d_state d' = DecPage \<and>
      d_header d' = d_header ?d \<and> d_r d' = ?rest \<and>
      d_hash d' = d_hash ?d @ concat (map page_hash_input pages) \<and>
      d_chksum d' = foldl (fold_chksum x (d_header ?d)) (d_chksum ?d) pages"
    by (rule decode_database_pages_frames) (use assms ok dist in \<open>auto simp: decoder_new_def\<close>)
  then obtain d' where d': "decode_database_pages x ?lock ?n (page_numbers (h_commit h)) ?d [] =
      Ok (d', database_image ?lock ?n pages (page_numbers (h_commit h)))" "d_state d' = DecPage"
      "d_header d' = h" "d_r d' = ?rest" "d_hash d' = header_encode h @ concat (map page_hash_input pages)"
      "d_chksum d' = foldl (fold_chksum x h) ?c pages" by auto
  let ?e = "d'\<lparr>d_r := ?tail, d_hash := d_hash d' @ page_header_encode page_header_default,
                d_n := d_n d' + 6, d_state := DecClose\<rparr>"
  have last: "decode_page x d' ?n = Ok (None, ?e)" using d' by (intro decode_page_end) auto
  have "decoder_finish x ?e = Ok ([], h, t, map (tag_span 0 (h_min_txid h) (h_max_txid h)) (file_index x pages))"
  proof (rule decoder_finish_file)
    show "is_snapshot h \<and> \<not> no_checksum h \<longrightarrow> t_post_apply_checksum t = d_chksum ?e"
      using assms(4) ok(3,7) d'(6) by (auto simp: foldl_fold_chksum file_trailer_def)
    show "t_file_checksum t = CHECKSUM_FLAG OR x_crc64 x
           (d_hash ?e @ encode_page_index (file_index x pages) @ be64 (t_post_apply_checksum t))"
      by (simp add: d'(5) ok(3) file_trailer_def file_hash_input_def)
  qed (use ok d' in auto)
  then show ?thesis using hdr d'(1) last assms(3)
    by (simp add: decode_database_to_def decoder_new_def Let_def)
qed

text \<open>C3: materialising a snapshot.  When an encoded snapshot holds every page \<open>1..commit\<close> except
  the lock page, \<open>decode_database_to\<close> accepts the file and writes exactly the database image: page
  after page in order, the lock page as zeros.\<close>

theorem snapshot_materialises:
  assumes "lz4_ok x" and "encode_file x h pages post = Ok (w, h', t)" and "is_snapshot h"
    and "\<not> no_checksum h \<longrightarrow> post = db_checksum (x_crc64 x) pages"
    and "map fst pages = filter (\<lambda>k. k \<noteq> header_lock_pgno h) (page_numbers (h_commit h))"
  shows "decode_database_to x w =
    Ok (database_image (header_lock_pgno h) (unat (h_page_size h)) pages (page_numbers (h_commit h)))"
  by (rule decode_database_complete [OF assms])

theorem snapshot_materialises_witness:
  "decode_database_to demo_externs (file_bytes demo_externs demo_header demo_pages 0) =
    Ok (database_image (header_lock_pgno demo_header) (unat (h_page_size demo_header)) demo_pages
         (page_numbers (h_commit demo_header)))"
proof (rule snapshot_materialises [OF demo_lz4_ok demo_encode_file])
  have "page_numbers 2 = [1, 2]" by (simp add: page_numbers_def upt_rec)
  then show "map fst demo_pages =
      filter (\<lambda>k. k \<noteq> header_lock_pgno demo_header) (page_numbers (h_commit demo_header))"
    by (simp add: demo_header_fields header_lock_pgno_def demo_lock demo_pages_def)
qed (simp_all add: demo_header_no_checksum)

section \<open>What the encoder and the decoder reject\<close>

text \<open>A file that deletes the database (commit 0) without checksum tracking cannot be written:
  the trailer check demands a zero post-apply checksum and the deletion check the empty one, so
  the encoder refuses every such file whatever its pages and checksum.\<close>

theorem untracked_deletion_rejected:
  assumes "no_checksum h" and "h_commit h = 0"
  shows "\<not> is_ok (encode_file x h pages post)"
proof
  assume "is_ok (encode_file x h pages post)"
  then obtain w h' t where "encode_file x h pages post = Ok (w, h', t)" by (auto simp: is_ok_iff)
  note ok = encode_file_OkD [OF this]
  have "post = 0"
    using ok(3,5) assms(1) by (auto simp: trailer_validate_def file_trailer_def checksum_is_zero_def split: if_splits)
  with ok(8) assms(2) show False by (simp add: checksum_EMPTY_def CHECKSUM_FLAG_def)
qed

theorem untracked_deletion_rejected_witness:
  "\<not> is_ok (encode_file demo_externs (demo_header\<lparr>h_commit := 0\<rparr>) [] 0)"
  by (rule untracked_deletion_rejected) (simp_all add: demo_header_def no_checksum_def HEADER_FLAG_NO_CHECKSUM_def)

lemma page_header_encode_decode:
  assumes "page_header_decode b = Ok h" and "length b = PAGE_HEADER_SIZE"
  shows "page_header_encode h = b"
proof -
  have "to_be 4 (from_be (subslice 0 4 b) :: u32) = subslice 0 4 b"
    and "to_be 2 (from_be (subslice 4 6 b) :: u16) = subslice 4 6 b"
    using to_be_from_be [where ?'a = 32, of "subslice 0 4 b"] to_be_from_be [where ?'a = 16, of "subslice 4 6 b"]
      assms(2) by (simp_all add: length_subslice PAGE_HEADER_SIZE_def)
  moreover have "subslice 0 4 b @ subslice 4 6 b = b"
    using slice_split [of 0 4 6 b] assms(2) by (simp add: slice_full PAGE_HEADER_SIZE_def)
  ultimately show ?thesis
    using assms by (auto simp: page_header_decode_def page_header_encode_def split: if_splits)
qed

lemma read_exact_into_OkD: "read_exact_into n r = Ok (b, r') \<Longrightarrow> r = b @ r' \<and> length b = n"
  by (auto simp: read_exact_into_def map_err_eq_Ok read_exact_eq_Ok)

lemma decode_page_NoneD:
  assumes "decode_page x d n = Ok (None, d')" and "d_state d = DecPage"
  shows "d_header d' = d_header d" and "d_state d' = DecClose" and "d_chksum d' = d_chksum d"
    and "d_hash d' = d_hash d @ page_header_encode page_header_default" and "suffix (d_r d') (d_r d)"
proof -
  from assms obtain b r hdr where b: "read_exact_into PAGE_HEADER_SIZE (d_r d) = Ok (b, r)"
    and hdr: "page_header_decode b = Ok hdr" and zero: "page_header_is_zero hdr"
    and d': "d' = (write_to_hash (d\<lparr>d_r := r\<rparr>) b)\<lparr>d_state := DecClose\<rparr>"
    by (auto simp: decode_page_def and_then_eq_Ok Let_def split: if_splits)
  have "b = page_header_encode page_header_default"
    using page_header_encode_decode [OF hdr] read_exact_into_OkD [OF b] zero
    by (simp add: page_header_is_zero_def)
  with d' read_exact_into_suffix [OF b]
  show "d_header d' = d_header d" "d_state d' = DecClose" "d_chksum d' = d_chksum d"
    "d_hash d' = d_hash d @ page_header_encode page_header_default" "suffix (d_r d') (d_r d)"
    by (simp_all add: write_to_hash_def)
qed

lemma fold_chksum_if:
  "(if is_snapshot h \<and> \<not> no_checksum h \<and> k \<noteq> header_lock_pgno h
    then d\<lparr>d_chksum := xor_page_checksum (d_chksum d) (checksum_page (x_crc64 x) k data)\<rparr> else d) =
   d\<lparr>d_chksum := fold_chksum x h (d_chksum d) (k, data)\<rparr>"
  by (simp add: fold_chksum_def)

text \<open>A page read takes a page header and one frame from the reader and hashes the page.\<close>

lemma decode_page_SomeD:
  assumes "decode_page x d n = Ok (Some (hdr, data), d')" and "d_state d = DecPage"
  shows "d_header d' = d_header d" and "d_state d' = DecPage"
    and "d_chksum d' = fold_chksum x (d_header d) (d_chksum d) (ph_pgno hdr, data)"
    and "d_hash d' = d_hash d @ page_hash_input (ph_pgno hdr, data)"
    and "ph_pgno hdr \<noteq> 0" and "length data = n" and "suffix (d_r d') (d_r d)"
proof -
  note eq = assms(1) [unfolded decode_page_def Let_def fold_chksum_if]
  from eq assms(2) obtain b r r' where b: "read_exact_into PAGE_HEADER_SIZE (d_r d) = Ok (b, r)"
    and hdr: "page_header_decode b = Ok hdr" and val: "page_header_validate hdr = Ok ()"
    and fr: "decompress_frame x r n = Ok (data, r')" and r': "d_r d' = r'"
    and d': "d_header d' = d_header d" "d_state d' = DecPage"
      "d_chksum d' = fold_chksum x (d_header d) (d_chksum d) (ph_pgno hdr, data)"
      "d_hash d' = d_hash d @ b @ data"
    by (auto simp: and_then_eq_Ok write_to_hash_def split: if_splits)
  have fl: "ph_flags hdr = 0" and ne: "ph_pgno hdr \<noteq> 0"
    using val by (auto simp: page_header_validate_def split: if_splits)
  have "hdr = \<lparr>ph_pgno = ph_pgno hdr, ph_flags = 0\<rparr>" using fl by simp
  then have "b = page_header_encode \<lparr>ph_pgno = ph_pgno hdr, ph_flags = 0\<rparr>"
    using page_header_encode_decode [OF hdr] read_exact_into_OkD [OF b] by simp
  with d' ne decompress_frame_length [OF fr]
  show "d_header d' = d_header d" "d_state d' = DecPage"
    "d_chksum d' = fold_chksum x (d_header d) (d_chksum d) (ph_pgno hdr, data)"
    "d_hash d' = d_hash d @ page_hash_input (ph_pgno hdr, data)"
    "ph_pgno hdr \<noteq> 0" "length data = n"
    by (simp_all add: page_hash_input_def)
  show "suffix (d_r d') (d_r d)"
    using decompress_frame_suffix [OF fr] read_exact_into_suffix [OF b] r' by (metis suffix_order.trans)
qed

text \<open>
  The bytes of a page block and what it holds: for every page its header and a frame that decompresses to
  the page, one behind the other, then the end marker.
\<close>

fun page_block :: "externs \<Rightarrow> nat \<Rightarrow> byte list \<Rightarrow> (u32 \<times> byte list) list \<Rightarrow> byte list \<Rightarrow> bool" where
  "page_block x n bs [] rest \<longleftrightarrow> bs = page_header_encode page_header_default @ rest"
| "page_block x n bs (p # ps) rest \<longleftrightarrow>
     (\<exists>fr after. bs = page_header_encode \<lparr>ph_pgno = fst p, ph_flags = 0\<rparr> @ fr \<and>
        decompress_frame x fr n = Ok (snd p, after) \<and> page_block x n after ps rest)"

lemma decode_page_frameD:
  assumes "decode_page x d n = Ok (Some (hdr, data), d')" and "d_state d = DecPage"
  shows "\<exists>fr. d_r d = page_header_encode \<lparr>ph_pgno = ph_pgno hdr, ph_flags = 0\<rparr> @ fr \<and>
    decompress_frame x fr n = Ok (data, d_r d')"
proof -
  note eq = assms(1) [unfolded decode_page_def Let_def]
  from eq assms(2) obtain b r where b: "read_exact_into PAGE_HEADER_SIZE (d_r d) = Ok (b, r)"
    and hdr: "page_header_decode b = Ok hdr" and val: "page_header_validate hdr = Ok ()"
    and fr: "decompress_frame x r n = Ok (data, d_r d')"
    by (auto simp: and_then_eq_Ok write_to_hash_def split: if_splits)
  have "hdr = \<lparr>ph_pgno = ph_pgno hdr, ph_flags = 0\<rparr>" using val by (auto simp: page_header_validate_def split: if_splits)
  then have "b = page_header_encode \<lparr>ph_pgno = ph_pgno hdr, ph_flags = 0\<rparr>"
    using page_header_encode_decode [OF hdr] read_exact_into_OkD [OF b] by simp
  then show ?thesis using fr read_exact_into_OkD [OF b] by auto
qed

lemma decode_page_end_marker:
  assumes "decode_page x d n = Ok (None, d')" and "d_state d = DecPage"
  shows "d_r d = page_header_encode page_header_default @ d_r d'"
proof -
  note eq = assms(1) [unfolded decode_page_def Let_def]
  from eq assms(2) obtain b r hdr where b: "read_exact_into PAGE_HEADER_SIZE (d_r d) = Ok (b, r)"
    and hdr: "page_header_decode b = Ok hdr" "page_header_is_zero hdr" and r: "d_r d' = r"
    by (auto simp: and_then_eq_Ok write_to_hash_def split: if_splits)
  have "hdr = page_header_default" using hdr(2) by (simp add: page_header_is_zero_def)
  then have "b = page_header_encode page_header_default"
    using page_header_encode_decode [OF hdr(1)] read_exact_into_OkD [OF b] by simp
  then show ?thesis using r read_exact_into_OkD [OF b] by simp
qed

lemma decode_pages_block:
  assumes "decode_pages x d n = Ok (pages, d')" and "d_state d = DecPage"
  shows "page_block x n (d_r d) pages (d_r d')"
  using assms
proof (induction x d n arbitrary: pages rule: decode_pages.induct)
  case (1 x d n)
  from "1.prems"(1) obtain p d1 where step: "decode_page x d n = Ok (p, d1)"
    by (subst (asm) decode_pages.simps) (auto simp: and_then_eq_Ok)
  show ?case
  proof (cases p)
    case None
    with step "1.prems"(1) have "pages = []" "d' = d1" by (auto simp: decode_pages.simps [of x d])
    with decode_page_end_marker [OF step [unfolded None] "1.prems"(2)] show ?thesis by simp
  next
    case (Some q)
    obtain hdr data where q: "q = (hdr, data)" by (cases q)
    have d1: "decode_page x d n = Ok (Some (hdr, data), d1)" using step Some q by simp
    from "1.prems"(1) d1 obtain ps where ps: "decode_pages x d1 n = Ok (ps, d')"
      "pages = (ph_pgno hdr, data) # ps"
      by (subst (asm) decode_pages.simps) (auto simp: and_then_eq_Ok)
    from "1.IH" [OF d1 refl refl refl ps(1) decode_page_SomeD(2) [OF d1 "1.prems"(2)]]
      decode_page_frameD [OF d1 "1.prems"(2)]
    show ?thesis unfolding ps(2) by auto
  qed
qed

lemma decode_pages_OkD:
  assumes "decode_pages x d n = Ok (pages, d')" and "d_state d = DecPage"
  shows "d_header d' = d_header d \<and> d_state d' = DecClose \<and> suffix (d_r d') (d_r d) \<and>
    d_hash d' = d_hash d @ concat (map page_hash_input pages) @ page_header_encode page_header_default \<and>
    d_chksum d' = foldl (fold_chksum x (d_header d)) (d_chksum d) pages \<and>
    (\<forall>p \<in> set pages. fst p \<noteq> 0 \<and> length (snd p) = n)"
  using assms
proof (induction x d n arbitrary: pages rule: decode_pages.induct)
  case (1 x d n)
  from "1.prems"(1) obtain p d1 where step: "decode_page x d n = Ok (p, d1)"
    by (subst (asm) decode_pages.simps) (auto simp: and_then_eq_Ok)
  show ?case
  proof (cases p)
    case None
    with "1.prems"(1) step have pages: "pages = []" "d' = d1"
      by (auto simp: decode_pages.simps [of x d n])
    have d1: "decode_page x d n = Ok (None, d1)" using step None by simp
    from decode_page_NoneD [OF d1 "1.prems"(2)] show ?thesis unfolding pages by simp
  next
    case (Some q)
    obtain hdr data where q: "q = (hdr, data)" by (cases q)
    have d1: "decode_page x d n = Ok (Some (hdr, data), d1)" using step Some q by simp
    from "1.prems"(1) step Some q obtain ps where ps: "decode_pages x d1 n = Ok (ps, d')"
      "pages = (ph_pgno hdr, data) # ps"
      by (subst (asm) decode_pages.simps) (auto simp: and_then_eq_Ok)
    note s = decode_page_SomeD [OF d1 "1.prems"(2)]
    from "1.IH" [OF d1 refl refl refl ps(1) s(2)] show ?thesis
      using s unfolding ps(2) by (auto intro: suffix_order.trans)
  qed
qed

text \<open>C4: \<open>verify\<close> accepts a file only if its content matches its checksums.  The bytes split into
  the header, a page block and a tail of page index and trailer.  The pages are what the frames of that block
  decompress to, one by one and in order, up to the end marker.  The file checksum of the returned trailer is the
  flagged CRC-64 of the header, these pages with their page headers, the end marker and the tail without the
  checksum itself, the returned index is the one the tail holds, and for a snapshot with checksum tracking
  the post-apply checksum is the rolling checksum of these pages.\<close>

theorem verify_checks_content:
  assumes "decoder_verify x r = Ok (h, t, idx)"
  shows "\<exists>block pages tail trl. r = take HEADER_SIZE r @ block \<and> page_block x (unat (h_page_size h)) block pages tail \<and>
    header_decode (take HEADER_SIZE r) = Ok h \<and> header_validate h = Ok () \<and>
    decode_page_index tail 0 (h_min_txid h) (h_max_txid h) = Ok (idx, trl) \<and> length trl = TRAILER_SIZE \<and>
    TRAILER_SIZE \<le> length tail \<and> trailer_decode (drop (length tail - TRAILER_SIZE) tail) = Ok t \<and>
    (\<forall>p \<in> set pages. fst p \<noteq> 0 \<and> length (snd p) = unat (h_page_size h)) \<and>
    t_file_checksum t = CHECKSUM_FLAG OR x_crc64 x
      (take HEADER_SIZE r @ concat (map page_hash_input pages) @ page_header_encode page_header_default @
       take (length tail - CHECKSUM_SIZE) tail) \<and>
    (is_snapshot h \<and> \<not> no_checksum h \<longrightarrow>
       t_post_apply_checksum t = foldl (fold_chksum x h) CHECKSUM_FLAG pages)"
proof -
  from assms obtain d pages d' r' where d: "decode_header (decoder_new r) = Ok d"
    and pages: "decode_pages x d (unat (h_page_size (d_header d))) = Ok (pages, d')"
    and fin: "decoder_finish x d' = Ok (r', h, t, idx)"
    by (auto simp: decoder_verify_def and_then_eq_Ok)
  from d obtain b r1 where b: "read_exact_into HEADER_SIZE r = Ok (b, r1)"
    and hdr: "header_decode b = Ok (d_header d)" "header_validate (d_header d) = Ok ()"
    and d1: "d_r d = r1" "d_state d = DecPage" "d_hash d = b"
      "d_chksum d = (if no_checksum (d_header d) then 0 else CHECKSUM_FLAG)"
    by (auto simp: decode_header_def decoder_new_def and_then_eq_Ok Let_def write_to_hash_def split: if_splits)
  have r: "r = b @ r1" "take HEADER_SIZE r = b" using read_exact_into_OkD [OF b] by auto
  note p = decode_pages_OkD [OF pages d1(2)] and block = decode_pages_block [OF pages d1(2), unfolded d1(1)]
  note f = decoder_finish_OkD [OF fin]
  have h: "h = d_header d" using p f by simp
  obtain trl where "decode_page_index (d_r d') 0 (h_min_txid h) (h_max_txid h) = Ok (idx, trl)" "length trl = TRAILER_SIZE"
    using fin f(1,2) by (auto simp: decoder_finish_def write_to_hash_def Let_def and_then_eq_Ok split: if_splits)
  with block p f d1 hdr h r show ?thesis
    by (intro exI [of _ r1] exI [of _ pages] exI [of _ "d_r d'"] exI [of _ trl] conjI) auto
qed

theorem verify_checks_content_witness:
  "\<exists>block pages tail.
    let r = file_bytes demo_externs demo_header demo_pages 0; h = demo_header;
        t = file_trailer demo_externs demo_header demo_pages 0 in
    r = take HEADER_SIZE r @ block \<and> page_block demo_externs 512 block pages tail \<and>
    trailer_decode (drop (length tail - TRAILER_SIZE) tail) = Ok t \<and>
    t_file_checksum t = CHECKSUM_FLAG OR x_crc64 demo_externs
      (take HEADER_SIZE r @ concat (map page_hash_input pages) @ page_header_encode page_header_default @
       take (length tail - CHECKSUM_SIZE) tail)"
proof -
  obtain idx where "decoder_verify demo_externs (file_bytes demo_externs demo_header demo_pages 0) =
      Ok (demo_header, file_trailer demo_externs demo_header demo_pages 0, idx)"
    using demo_verify by blast
  moreover have "unat (h_page_size demo_header) = 512" by (simp add: demo_header_def)
  ultimately show ?thesis using verify_checks_content unfolding Let_def by metis
qed

end
