(* ===== verification/MetaDir.thy ===== *)
theory MetaDir
  imports LitersError DirClient LtxFile
begin

text \<open>
  Model of \<open>crates/liters/src/meta.rs\<close>: the writer's local meta directory next to the database.  Its
  state is what is on disk under the root: the entries of the L0 directory (\<open>None\<close> when the directory
  does not exist) and the three small text files.  Every file is written to a temporary name, synced
  and renamed, so after a call a file holds its old or its new content; failures of the operating
  system other than a missing file are not modelled.
\<close>

section \<open>Paths and text\<close>

definition META_DIR_SUFFIX :: string where "META_DIR_SUFFIX = ''-litestream''"

text \<open>\<open>MetaDir::for_db\<close>: the directory \<open>.NAME-litestream\<close> beside the database.\<close>

definition meta_root :: "path \<Rightarrow> path" where
  "meta_root db_path =
     (let dir = (if db_path = [] then [''.''] else butlast db_path);
          name = (if db_path = [] then [] else last db_path)
      in dir @ [''.'' @ name @ META_DIR_SUFFIX])"

definition l0_dir :: "path \<Rightarrow> path" where
  "l0_dir root = root @ [''ltx'', ''0'']"

definition l0_name :: "txid \<Rightarrow> string" where
  "l0_name t = format_filename t t"

definition l0_path :: "path \<Rightarrow> txid \<Rightarrow> path" where
  "l0_path root t = l0_dir root @ [l0_name t]"

text \<open>\<open>Path::extension\<close>: what follows the last dot, unless that dot starts the name.\<close>

definition path_extension :: "string \<Rightarrow> string option" where
  "path_extension name =
     (let ext = rev (takeWhile (\<lambda>c. c \<noteq> CHR ''.'') (rev name))
      in if length name \<le> Suc (length ext) then None else Some ext)"

text \<open>\<open>{:?}\<close> of a path whose characters need no escape, and the error of opening a missing file.\<close>

definition path_debug :: "path \<Rightarrow> string" where
  "path_debug p = ''\"'' @ concat (map (\<lambda>c. ''/'' @ c) p) @ ''\"''"

definition no_such_file :: io_error where
  "no_such_file = IoError NotFoundKind ''No such file or directory (os error 2)''"

definition is_space :: "char \<Rightarrow> bool" where
  "is_space c \<longleftrightarrow> (let n = of_char c :: nat in 9 \<le> n \<and> n \<le> 13 \<or> n = 32)"

definition str_trim :: "string \<Rightarrow> string" where
  "str_trim s = rev (dropWhile is_space (rev (dropWhile is_space s)))"

definition first_word :: "string \<Rightarrow> string option" where
  "first_word s = (let t = takeWhile (\<lambda>c. \<not> is_space c) (dropWhile is_space s) in if t = [] then None else Some t)"

section \<open>State and operations\<close>

record meta_dir =
  md_root :: path
  md_l0 :: "(string \<times> byte list) list option"
  md_sync_state :: "string option"
  md_verified_pos :: "string option"
  md_writer_id :: "string option"

definition meta_for_db :: "path \<Rightarrow> meta_dir" where
  "meta_for_db db_path =
     \<lparr>md_root = meta_root db_path, md_l0 = None, md_sync_state = None, md_verified_pos = None, md_writer_id = None\<rparr>"

definition l0_entries :: "meta_dir \<Rightarrow> (string \<times> byte list) list" where
  "l0_entries m = (case md_l0 m of None \<Rightarrow> [] | Some es \<Rightarrow> es)"

definition l0_open :: "meta_dir \<Rightarrow> txid \<Rightarrow> byte list option" where
  "l0_open m t = map_of (l0_entries m) (l0_name t)"

definition create_dirs :: "meta_dir \<Rightarrow> meta_dir" where
  "create_dirs m = m\<lparr>md_l0 := Some (l0_entries m)\<rparr>"

definition remove_tmp_files :: "meta_dir \<Rightarrow> meta_dir" where
  "remove_tmp_files m =
     (case md_l0 m of None \<Rightarrow> m
      | Some es \<Rightarrow> m\<lparr>md_l0 := Some (filter (\<lambda>(name, _). path_extension name \<noteq> Some ''tmp'') es)\<rparr>)"

definition max_txid_step :: "txid option \<Rightarrow> string \<times> byte list \<Rightarrow> txid option" where
  "max_txid_step m e =
     (case parse_filename (fst e) of
        None \<Rightarrow> m
      | Some (_, max_txid) \<Rightarrow>
          (case m of None \<Rightarrow> Some max_txid | Some t \<Rightarrow> if t < max_txid then Some max_txid else m))"

definition max_l0_txid :: "meta_dir \<Rightarrow> txid option" where
  "max_l0_txid m = foldl max_txid_step None (l0_entries m)"

definition meta_pos :: "externs \<Rightarrow> meta_dir \<Rightarrow> pos res" where
  "meta_pos x m =
     (case max_l0_txid m of
        None \<Rightarrow> Ok pos_default
      | Some t \<Rightarrow>
          let path = l0_path (md_root m) t in
          (case l0_open m t of
             None \<Rightarrow> Err (LocalLtx t (''open '' @ path_debug path @ '': '' @ message no_such_file))
           | Some d \<Rightarrow>
               and_then (map_err (\<lambda>e. LocalLtx t (''verify '' @ path_debug path @ '': '' @ ltx_error_display e))
                          (decoder_verify x d)) (\<lambda>(hdr, trl, _).
               Ok \<lparr>p_txid = h_max_txid hdr, p_post_apply_checksum = t_post_apply_checksum trl\<rparr>)))"

definition prunable :: "txid \<Rightarrow> txid \<Rightarrow> string \<Rightarrow> bool" where
  "prunable before newest name =
     (case parse_filename name of None \<Rightarrow> False | Some (_, t) \<Rightarrow> t < before \<and> t \<noteq> newest)"

definition prune_l0 :: "meta_dir \<Rightarrow> txid \<Rightarrow> meta_dir" where
  "prune_l0 m before =
     (case max_l0_txid m of None \<Rightarrow> m
      | Some newest \<Rightarrow>
          (case md_l0 m of None \<Rightarrow> m
           | Some es \<Rightarrow> m\<lparr>md_l0 := Some (filter (\<lambda>(name, _). \<not> prunable before newest name) es)\<rparr>))"

definition write_sync_state :: "u64 \<Rightarrow> meta_dir \<Rightarrow> meta_dir" where
  "write_sync_state off m = m\<lparr>md_sync_state := Some (fmt_dec (unat off) @ [CHR 0x0A])\<rparr>"

definition read_sync_state :: "meta_dir \<Rightarrow> u64" where
  "read_sync_state m =
     (case Option.bind (Option.bind (md_sync_state m) first_word) (parse_dec 64) of
        None \<Rightarrow> 0 | Some n \<Rightarrow> of_nat n)"

definition write_verified_pos :: "txid \<Rightarrow> meta_dir \<Rightarrow> meta_dir" where
  "write_verified_pos t m = m\<lparr>md_verified_pos := Some (txid_display t @ [CHR 0x0A])\<rparr>"

definition read_verified_pos :: "meta_dir \<Rightarrow> txid option" where
  "read_verified_pos m = Option.bind (md_verified_pos m) (\<lambda>s. txid_parse (str_trim s))"

definition visible_ascii :: "char \<Rightarrow> bool" where
  "visible_ascii c \<longleftrightarrow> (let n = of_char c :: nat in 0x21 \<le> n \<and> n \<le> 0x7e)"

definition good_writer_id :: "string \<Rightarrow> bool" where
  "good_writer_id s \<longleftrightarrow> s \<noteq> [] \<and> length s \<le> 128 \<and> list_all visible_ascii s"

text \<open>\<open>writer_id\<close>; \<open>rnd\<close> is what the random number generator fills into the 16-byte buffer.\<close>

definition writer_id :: "byte list \<Rightarrow> meta_dir \<Rightarrow> string \<times> meta_dir" where
  "writer_id rnd m =
     (case md_writer_id m of
        Some s \<Rightarrow>
          if good_writer_id (str_trim s) then (str_trim s, m)
          else let id = concat (map (\<lambda>b. fmt_hex0 2 (unat b)) rnd) in (id, m\<lparr>md_writer_id := Some (id @ [CHR 0x0A])\<rparr>)
      | None \<Rightarrow>
          let id = concat (map (\<lambda>b. fmt_hex0 2 (unat b)) rnd) in (id, m\<lparr>md_writer_id := Some (id @ [CHR 0x0A])\<rparr>))"

definition clear_l0 :: "meta_dir \<Rightarrow> meta_dir" where
  "clear_l0 m = m\<lparr>md_l0 := Some []\<rparr>"

text \<open>Putting a file into the L0 directory: write to a temporary name, sync, rename.\<close>

definition l0_put :: "txid \<Rightarrow> byte list \<Rightarrow> meta_dir \<Rightarrow> meta_dir" where
  "l0_put t d m = m\<lparr>md_l0 := Some ((l0_name t, d) # filter (\<lambda>(name, _). name \<noteq> l0_name t) (l0_entries m))\<rparr>"

section \<open>Laws of the text files\<close>

text \<open>
  The interface the writer relies on for its two counters: what was written is read back, and the
  write touches nothing else of the directory.
\<close>

locale meta_cell =
  fixes put :: "'v \<Rightarrow> meta_dir \<Rightarrow> meta_dir" and get :: "meta_dir \<Rightarrow> 'w" and stored :: "'v \<Rightarrow> 'w"
  assumes get_put: "get (put v m) = stored v"
    and put_l0: "md_l0 (put v m) = md_l0 m"
    and put_root: "md_root (put v m) = md_root m"
begin

lemma get_last_put: "get (put v (put v' m)) = stored v"
  by (rule get_put)

lemma put_l0_open: "l0_open (put v m) t = l0_open m t"
  by (simp add: l0_open_def l0_entries_def put_l0)

lemma put_max_l0_txid: "max_l0_txid (put v m) = max_l0_txid m"
  by (simp add: max_l0_txid_def l0_entries_def put_l0)

lemma put_meta_pos: "meta_pos x (put v m) = meta_pos x m"
  by (simp add: meta_pos_def put_l0_open put_max_l0_txid put_root split: option.splits)

end

lemma lower_hex_not_space: "is_lower_hex c \<Longrightarrow> \<not> is_space c"
  by (auto simp: is_lower_hex_def is_space_def Let_def is_ascii_digit_def digit_val_def)

lemma str_trim_line: "s \<noteq> [] \<Longrightarrow> \<forall>c \<in> set s. \<not> is_space c \<Longrightarrow> str_trim (s @ [CHR 0x0A]) = s"
proof -
  assume s: "s \<noteq> []" "\<forall>c \<in> set s. \<not> is_space c"
  have "dropWhile is_space (s @ [CHR 0x0A]) = s @ [CHR 0x0A]" using s by (cases s) auto
  moreover have "dropWhile is_space (rev s) = rev s" using s by (cases "rev s") (auto simp: rev_eq_Cons_iff)
  moreover have "is_space (CHR 0x0A)" by (simp add: is_space_def)
  ultimately show ?thesis by (simp add: str_trim_def)
qed

lemma first_word_line: "s \<noteq> [] \<Longrightarrow> \<forall>c \<in> set s. \<not> is_space c \<Longrightarrow> first_word (s @ [CHR 0x0A]) = Some s"
proof -
  assume s: "s \<noteq> []" "\<forall>c \<in> set s. \<not> is_space c"
  have "dropWhile is_space (s @ [CHR 0x0A]) = s @ [CHR 0x0A]" using s by (cases s) auto
  moreover have "takeWhile (\<lambda>c. \<not> is_space c) (s @ [CHR 0x0A]) = s"
    using s(2) by (auto simp: takeWhile_append2 is_space_def)
  ultimately show ?thesis using s(1) by (simp add: first_word_def)
qed

lemma digit_char_not_space: "d < 16 \<Longrightarrow> \<not> is_space (digit_char d)"
  by (auto simp: is_space_def of_char_digit_char Let_def)

lemma fmt_dec_not_space: "\<forall>c \<in> set (fmt_dec n). \<not> is_space c"
  using digits_of_bound [of 10 n] by (auto simp: fmt_dec_def intro!: digit_char_not_space)

lemma fmt_dec_not_Nil: "fmt_dec n \<noteq> []"
  by (simp add: fmt_dec_def)

lemma txid_display_not_space: "\<forall>c \<in> set (txid_display t). \<not> is_space c" "txid_display t \<noteq> []"
  using txid_display_lower [of t] length_txid_display [of t]
  by (auto simp: list_all_iff lower_hex_not_space simp del: length_txid_display)

interpretation sync_cell: meta_cell write_sync_state read_sync_state id
proof
  fix v :: u64 and m
  have "parse_dec 64 (fmt_dec (unat v)) = Some (unat v)"
    using unsigned_less [of v] by (intro parse_fmt_dec) simp
  then show "read_sync_state (write_sync_state v m) = id v"
    by (simp add: read_sync_state_def write_sync_state_def first_word_line fmt_dec_not_space fmt_dec_not_Nil)
qed (simp_all add: write_sync_state_def)

interpretation pos_cell: meta_cell write_verified_pos read_verified_pos Some
  by unfold_locales
     (simp_all add: read_verified_pos_def write_verified_pos_def str_trim_line txid_display_not_space)

section \<open>The newest local file\<close>

definition l0_txids :: "meta_dir \<Rightarrow> txid set" where
  "l0_txids m = {t. \<exists>e \<in> set (l0_entries m). \<exists>a. parse_filename (fst e) = Some (a, t)}"

lemma max_l0_txid_spec:
  "(max_l0_txid m = None \<longleftrightarrow> l0_txids m = {}) \<and>
   (\<forall>t. max_l0_txid m = Some t \<longrightarrow> t \<in> l0_txids m \<and> (\<forall>t' \<in> l0_txids m. t' \<le> t))"
proof -
  let ?T = "\<lambda>es. {t. \<exists>e \<in> set es. \<exists>a. parse_filename (fst e) = Some (a, t)}"
  have "(foldl max_txid_step None es = None \<longleftrightarrow> ?T es = {}) \<and>
    (\<forall>t. foldl max_txid_step None es = Some t \<longrightarrow> t \<in> ?T es \<and> (\<forall>t' \<in> ?T es. t' \<le> t))" for es
  proof (induction es rule: rev_induct)
    case (snoc e es)
    show ?case
    proof (cases "parse_filename (fst e)")
      case None
      then have "?T (es @ [e]) = ?T es" by auto
      with snoc None show ?thesis by (simp add: max_txid_step_def)
    next
      case (Some q)
      obtain a b where q: "q = (a, b)" by (cases q)
      then have T: "?T (es @ [e]) = insert b (?T es)" using Some by auto
      define r where "r = foldl max_txid_step None es"
      have step: "foldl max_txid_step None (es @ [e]) =
          (case r of None \<Rightarrow> Some b | Some t \<Rightarrow> if t < b then Some b else r)"
        by (simp add: r_def max_txid_step_def [of _ e] Some q split: option.split)
      define S where "S = ?T es"
      have "(r = None \<longleftrightarrow> S = {}) \<and> (\<forall>t. r = Some t \<longrightarrow> t \<in> S \<and> (\<forall>t' \<in> S. t' \<le> t))"
        unfolding r_def S_def by (rule snoc)
      then show ?thesis unfolding T step S_def [symmetric] by (cases r) auto
    qed
  qed simp
  from this [of "l0_entries m"] show ?thesis unfolding max_l0_txid_def l0_txids_def .
qed

lemma max_l0_txid_eqI:
  assumes "t \<in> l0_txids m" and "\<And>t'. t' \<in> l0_txids m \<Longrightarrow> t' \<le> t"
  shows "max_l0_txid m = Some t"
proof (cases "max_l0_txid m")
  case None
  with assms(1) show ?thesis using max_l0_txid_spec [of m] by auto
next
  case (Some t')
  then have "t' \<in> l0_txids m" "t \<le> t'" using assms(1) max_l0_txid_spec [of m] by blast+
  with assms(2) Some show ?thesis by (metis antisym)
qed

lemma l0_open_txid: "l0_open m t = Some d \<Longrightarrow> t \<in> l0_txids m"
  by (force simp: l0_open_def l0_txids_def l0_name_def parse_format_filename dest: map_of_SomeD)

lemma l0_txids_put: "l0_txids (l0_put t d m) = insert t (l0_txids m)"
proof -
  have "parse_filename name = Some (a, t') \<Longrightarrow> name = l0_name t \<Longrightarrow> t' = t" for name a t'
    by (auto simp: l0_name_def parse_format_filename)
  then show ?thesis
    by (force simp: l0_txids_def l0_put_def l0_entries_def l0_name_def parse_format_filename)
qed

lemma l0_open_put: "l0_open (l0_put t d m) t' = (if t' = t then Some d else l0_open m t')"
proof -
  have "l0_name t' = l0_name t \<longleftrightarrow> t' = t" by (auto simp: l0_name_def format_filename_inj)
  then show ?thesis by (auto simp: l0_open_def l0_put_def l0_entries_def map_of_filter_neq)
qed

lemma max_l0_txid_put:
  assumes "\<And>t'. t' \<in> l0_txids m \<Longrightarrow> t' \<le> t"
  shows "max_l0_txid (l0_put t d m) = Some t"
  using assms by (intro max_l0_txid_eqI) (auto simp: l0_txids_put)

lemma clear_l0_empty [simp]: "l0_txids (clear_l0 m) = {}" "max_l0_txid (clear_l0 m) = None" "l0_open (clear_l0 m) t = None"
  by (simp_all add: clear_l0_def l0_txids_def max_l0_txid_def l0_open_def l0_entries_def)

text \<open>A position other than zero is read from a file that exists and verifies.\<close>

lemma meta_pos_OkD:
  assumes "meta_pos x m = Ok p"
  shows "(l0_txids m = {} \<and> p = pos_default) \<or>
    (\<exists>t d hdr trl idx. max_l0_txid m = Some t \<and> l0_open m t = Some d \<and>
       decoder_verify x d = Ok (hdr, trl, idx) \<and> p_txid p = h_max_txid hdr \<and>
       p_post_apply_checksum p = t_post_apply_checksum trl)"
  using assms max_l0_txid_spec [of m]
  by (auto simp: meta_pos_def Let_def and_then_eq_Ok map_err_eq_Ok split: option.splits)

section \<open>Pruning\<close>

lemma prune_keeps:
  "max_l0_txid (prune_l0 m before) = max_l0_txid m \<and>
   l0_open (prune_l0 m before) |` {t. max_l0_txid m = Some t \<or> before \<le> t} =
     l0_open m |` {t. max_l0_txid m = Some t \<or> before \<le> t} \<and>
   l0_txids (prune_l0 m before) = {t \<in> l0_txids m. before \<le> t \<or> max_l0_txid m = Some t}"
proof (cases "max_l0_txid m")
  case None
  then have "l0_txids m = {}" using max_l0_txid_spec [of m] by blast
  with None show ?thesis by (auto simp: prune_l0_def)
next
  case (Some newest)
  note spec = max_l0_txid_spec [of m]
  from Some obtain es where es: "md_l0 m = Some es" by (auto simp: max_l0_txid_def l0_entries_def split: option.splits)
  let ?es = "filter (\<lambda>(name, _). \<not> prunable before newest name) es"
  have ent: "l0_entries m = es" "l0_entries (prune_l0 m before) = ?es"
    by (simp_all add: l0_entries_def prune_l0_def Some es)
  have ids: "l0_txids (prune_l0 m before) = {t \<in> l0_txids m. before \<le> t \<or> t = newest}"
    unfolding l0_txids_def ent by (force simp: prunable_def not_less image_iff split: option.splits)
  have mx: "max_l0_txid (prune_l0 m before) = Some newest"
    using spec Some by (intro max_l0_txid_eqI) (auto simp: ids)
  have opn: "l0_open (prune_l0 m before) t = l0_open m t" if "t = newest \<or> before \<le> t" for t
  proof -
    have "\<not> prunable before newest (l0_name t)"
      using that by (auto simp: prunable_def l0_name_def parse_format_filename)
    then show ?thesis unfolding l0_open_def ent by (simp add: map_of_filter_fst restrict_map_def)
  qed
  from ids mx opn Some show ?thesis by (auto simp: fun_eq_iff restrict_map_def)
qed

text \<open>C40: pruning the local L0 directory never loses the resume point.  The newest file survives with
  its content, so does every file at or above the bound, and only complete files below the bound
  are removed.\<close>

theorem prune_keeps_newest:
  "max_l0_txid (prune_l0 m before) = max_l0_txid m \<and>
   l0_open (prune_l0 m before) |` {t. max_l0_txid m = Some t \<or> before \<le> t} =
     l0_open m |` {t. max_l0_txid m = Some t \<or> before \<le> t} \<and>
   l0_txids (prune_l0 m before) = {t \<in> l0_txids m. before \<le> t \<or> max_l0_txid m = Some t}"
  by (rule prune_keeps)

section \<open>The small files\<close>

text \<open>The writer's counters survive a restart.  A verified position and a sync offset that were
  written are read back exactly, each independently of the other, and neither write moves the
  replication position.\<close>

theorem meta_counters_roundtrip:
  "read_verified_pos (write_verified_pos t m) = Some t \<and> read_sync_state (write_sync_state off m) = off \<and>
   read_verified_pos (write_sync_state off m) = read_verified_pos m \<and>
   read_sync_state (write_verified_pos t m) = read_sync_state m \<and>
   meta_pos x (write_sync_state off (write_verified_pos t m)) = meta_pos x m"
proof -
  have "read_verified_pos (write_sync_state off m) = read_verified_pos m"
    "read_sync_state (write_verified_pos t m) = read_sync_state m"
    by (simp_all add: read_verified_pos_def write_sync_state_def read_sync_state_def write_verified_pos_def)
  then show ?thesis
    by (simp add: pos_cell.get_put sync_cell.get_put pos_cell.put_meta_pos sync_cell.put_meta_pos)
qed

lemma fmt_hex0_visible: "list_all visible_ascii (fmt_hex0 w n)"
proof -
  have "visible_ascii (digit_char d)" if "d < 16" for d
    using that by (auto simp: visible_ascii_def of_char_digit_char Let_def)
  then have "\<forall>c \<in> set (fmt_hex n). visible_ascii c"
    using digits_of_bound [of 16 n] by (auto simp: fmt_hex_def)
  moreover have "visible_ascii (CHR ''0'')" by (simp add: visible_ascii_def)
  ultimately show ?thesis by (auto simp: fmt_hex0_def Let_def list_all_iff)
qed

lemma visible_not_space: "visible_ascii c \<Longrightarrow> \<not> is_space c"
  by (auto simp: visible_ascii_def is_space_def Let_def)

lemma length_concat_hex: "length (concat (map (\<lambda>b :: byte. fmt_hex0 2 (unat b)) bs)) = 2 * length bs"
proof (induction bs)
  case (Cons b bs)
  have "unat b < 16 ^ 2" using unsigned_less [of b] by simp
  then have "length (fmt_hex0 2 (unat b)) = 2" by (intro length_fmt_hex0) simp_all
  with Cons show ?case by simp
qed simp

text \<open>The writer id is generated once and then stable.  The first call returns an id that passes
  the header guard of the HTTP client and stores it, and every later call returns the same id without
  changing the directory, whatever the random source says.\<close>

theorem writer_id_stable:
  assumes "writer_id rnd m = (wid, m')" and "length rnd = 16"
  shows "good_writer_id wid \<and> writer_id rnd' m' = (wid, m')"
proof (cases "md_writer_id m \<noteq> None \<and> good_writer_id (str_trim (the (md_writer_id m)))")
  case True
  with assms show ?thesis by (auto simp: writer_id_def)
next
  case False
  define fresh where "fresh = concat (map (\<lambda>b :: byte. fmt_hex0 2 (unat b)) rnd)"
  have wid: "wid = fresh" "md_writer_id m' = Some (fresh @ [CHR 0x0A])"
    using assms(1) False by (auto simp: writer_id_def fresh_def Let_def split: option.splits if_splits)
  have vis: "list_all visible_ascii fresh"
    using fmt_hex0_visible by (auto simp: fresh_def list_all_iff)
  have len: "length fresh = 32" using length_concat_hex [of rnd] assms(2) by (simp add: fresh_def)
  have "str_trim (fresh @ [CHR 0x0A]) = fresh"
    using len vis by (intro str_trim_line) (auto simp: list_all_iff visible_not_space)
  moreover have "good_writer_id fresh" using len vis by (auto simp: good_writer_id_def)
  ultimately show ?thesis using wid by (simp add: writer_id_def)
qed

theorem writer_id_stable_witness:
  "\<exists>wid m'. writer_id (replicate 16 7) (meta_for_db [''app.db'']) = (wid, m') \<and> good_writer_id wid \<and>
     writer_id (replicate 16 9) m' = (wid, m')"
proof -
  obtain wid m' where eq: "writer_id (replicate 16 7) (meta_for_db [''app.db'']) = (wid, m')" by fastforce
  from writer_id_stable [OF this, of "replicate 16 9"] eq show ?thesis by auto
qed

end
