(* ===== verification/VerifyWal.thy ===== *)
theory VerifyWal
  imports MetaDir
begin

text \<open>
  Model of \<open>crates/liters/src/verify.rs\<close>: the decision, before every WAL-to-L0 conversion, where in
  the WAL to resume or that a full snapshot is needed.  The WAL file is its bytes, \<open>None\<close> when it does
  not exist.  Offsets are the 64-bit words of the code; the difference that the code computes as
  \<open>i64\<close> is a word read by \<open>sint\<close>.
\<close>

section \<open>Data\<close>

record sync_info =
  si_offset :: u64
  si_salt1 :: u32
  si_salt2 :: u32
  si_snapshotting :: bool
  si_reason :: "string option"
  si_clear_synced_to_wal_end :: bool

record sync_state =
  ss_last_synced_wal_offset :: u64
  ss_synced_to_wal_end :: bool
  ss_synced_since_checkpoint :: bool

definition REASON_FIRST :: string where "REASON_FIRST = ''first sync, no local position''"
definition REASON_TRUNCATED :: string where "REASON_TRUNCATED = ''wal truncated by another process''"
definition REASON_SALT :: string where "REASON_SALT = ''wal header salt reset, snapshotting''"
definition REASON_OVERWRITTEN :: string where
  "REASON_OVERWRITTEN = ''last page does not exist in last ltx file, wal overwritten by another process''"
definition REASON_CHECKPOINT :: string where
  "REASON_CHECKPOINT = ''full or restart checkpoint detected, snapshotting''"

definition snapshot_reasons :: "string list" where
  "snapshot_reasons = [REASON_TRUNCATED, REASON_OVERWRITTEN, REASON_CHECKPOINT, REASON_SALT, REASON_FIRST]"

section \<open>Reading the WAL file\<close>

definition read_wal_header :: "byte list option \<Rightarrow> byte list res" where
  "read_wal_header wal =
     (case wal of
        None \<Rightarrow> Err (EIo no_such_file)
      | Some w \<Rightarrow>
          let hdr = read_at w 32 0 in
          if length hdr < 32 then Err (EIo (IoError UnexpectedEof ''short wal header'')) else Ok hdr)"

definition wal_file_size :: "byte list option \<Rightarrow> u64" where
  "wal_file_size wal = (case wal of None \<Rightarrow> 0 | Some w \<Rightarrow> of_nat (length w))"

definition header_salts :: "byte list \<Rightarrow> u32 \<times> u32" where
  "header_salts hdr = (from_be (subslice 16 20 hdr), from_be (subslice 20 24 hdr))"

text \<open>The page loop of \<open>last_page_match\<close>.\<close>

function find_page :: "externs \<Rightarrow> decoder \<Rightarrow> nat \<Rightarrow> u32 \<Rightarrow> byte list \<Rightarrow> bool res" where
  "find_page x dec n pgno data =
     and_then (ltx_q (decode_page x dec n)) (\<lambda>(p, dec').
       case p of
         None \<Rightarrow> Ok False
       | Some (hdr, buf) \<Rightarrow>
           if ph_pgno hdr \<noteq> pgno then find_page x dec' n pgno data
           else if buf \<noteq> data then find_page x dec' n pgno data
           else Ok True)"
  by pat_completeness auto
termination
  by (relation "measure (\<lambda>(x, d, n, p, b). length (d_r d))") (auto simp: map_err_eq_Ok dest: decode_page_consumes)

declare find_page.simps [simp del]

definition last_page_match :: "externs \<Rightarrow> decoder \<Rightarrow> header \<Rightarrow> byte list option \<Rightarrow> u64 \<Rightarrow> u64 \<Rightarrow> bool res" where
  "last_page_match x dec ltx_hdr wal prev_wal_offset frame_sz =
     (if prev_wal_offset \<le> of_nat WAL_HEADER_SIZE then Ok False
      else case wal of
        None \<Rightarrow> Err (EIo no_such_file)
      | Some w \<Rightarrow>
          let frame = read_at w (unat frame_sz) (unat prev_wal_offset) in
          if length frame < unat frame_sz
          then Err (EIo (IoError UnexpectedEof ''cannot read last synced wal page''))
          else let pgno = from_be (subslice 0 4 frame);
                   fsalt1 = from_be (subslice 8 12 frame);
                   fsalt2 = from_be (subslice 12 16 frame);
                   data = drop WAL_FRAME_HEADER_SIZE frame in
          if fsalt1 \<noteq> h_wal_salt1 ltx_hdr \<or> fsalt2 \<noteq> h_wal_salt2 ltx_hdr then Ok False
          else find_page x dec (unat (h_page_size ltx_hdr)) pgno data)"

definition detect_full_checkpoint :: "byte list option \<Rightarrow> (u32 \<times> u32) list \<Rightarrow> bool res" where
  "detect_full_checkpoint wal known_salts =
     (case wal of
        None \<Rightarrow> Err (EIo no_such_file)
      | Some w \<Rightarrow>
          let last_known = (if known_salts = [] then (0, 0) else last known_salts) in
          and_then (wal_q (wal_reader_new w)) (\<lambda>rd.
            Ok (filter (\<lambda>s. s \<notin> set known_salts) (frame_salts_until rd last_known) \<noteq> [])))"

section \<open>The decision\<close>

text \<open>The part of \<open>verify\<close> that runs once the live WAL header was read.\<close>

definition verify_live ::
  "externs \<Rightarrow> decoder \<Rightarrow> byte list option \<Rightarrow> u64 \<Rightarrow> sync_info \<Rightarrow> byte list \<Rightarrow> sync_info res" where
  "verify_live x dec wal frame_sz info hdr0 =
     (let ltx_hdr = d_header dec;
          (salt1, salt2) = header_salts hdr0;
          salt_match = (salt1 = h_wal_salt1 ltx_hdr \<and> salt2 = h_wal_salt2 ltx_hdr);
          salt_result = (if salt_match then Ok (info\<lparr>si_snapshotting := False\<rparr>)
                         else Ok (info\<lparr>si_reason := Some REASON_SALT\<rparr>));
          prev_wal_offset = si_offset info - frame_sz in
      if si_offset info = of_nat WAL_HEADER_SIZE then salt_result
      else if sint prev_wal_offset = int WAL_HEADER_SIZE then salt_result
      else if sint prev_wal_offset < int WAL_HEADER_SIZE
      then Err (Other (''prev WAL offset is less than the header size: '' @ fmt_i64 prev_wal_offset))
      else and_then (last_page_match x dec ltx_hdr wal prev_wal_offset frame_sz) (\<lambda>matches.
        if \<not> matches then Ok (info\<lparr>si_reason := Some REASON_OVERWRITTEN\<rparr>)
        else if \<not> salt_match then
          and_then (detect_full_checkpoint wal [(salt1, salt2), (h_wal_salt1 ltx_hdr, h_wal_salt2 ltx_hdr)]) (\<lambda>full.
            let info = info\<lparr>si_offset := of_nat WAL_HEADER_SIZE, si_salt1 := salt1, si_salt2 := salt2\<rparr> in
            Ok (if full then info\<lparr>si_reason := Some REASON_CHECKPOINT\<rparr> else info\<lparr>si_snapshotting := False\<rparr>))
        else Ok (info\<lparr>si_snapshotting := False\<rparr>)))"

definition verify ::
  "externs \<Rightarrow> meta_dir \<Rightarrow> byte list option \<Rightarrow> u32 \<Rightarrow> txid \<Rightarrow> sync_state \<Rightarrow> sync_info res" where
  "verify x meta wal page_size pos_txid state =
     (let frame_sz = of_nat WAL_FRAME_HEADER_SIZE + ucast page_size;
          info = \<lparr>si_offset = 0, si_salt1 = 0, si_salt2 = 0, si_snapshotting = True, si_reason = None,
                  si_clear_synced_to_wal_end = False\<rparr>;
          ltx_path = path_debug (l0_path (md_root meta) pos_txid) in
      if txid_is_zero pos_txid
      then Ok (info\<lparr>si_offset := of_nat WAL_HEADER_SIZE, si_reason := Some REASON_FIRST\<rparr>)
      else and_then (ok_or (l0_open meta pos_txid)
                       (LocalLtx pos_txid (''open '' @ ltx_path @ '': '' @ message no_such_file))) (\<lambda>ltx_file.
        and_then (map_err (\<lambda>e. LocalLtx pos_txid (''decode '' @ ltx_path @ '': '' @ ltx_error_display e))
                    (decode_header (decoder_new ltx_file))) (\<lambda>dec.
        let ltx_hdr = d_header dec;
            info = info\<lparr>si_offset := h_wal_offset ltx_hdr + h_wal_size ltx_hdr,
                        si_salt1 := h_wal_salt1 ltx_hdr, si_salt2 := h_wal_salt2 ltx_hdr\<rparr> in
        if wal_file_size wal < si_offset info then
          (if ss_synced_to_wal_end state then
             and_then (read_wal_header wal) (\<lambda>hdr.
               Ok (info\<lparr>si_offset := of_nat WAL_HEADER_SIZE, si_salt1 := fst (header_salts hdr),
                        si_salt2 := snd (header_salts hdr), si_snapshotting := False, si_reason := None,
                        si_clear_synced_to_wal_end := True\<rparr>))
           else Ok (info\<lparr>si_reason := Some REASON_TRUNCATED\<rparr>))
        else and_then (read_wal_header wal) (\<lambda>hdr0. verify_live x dec wal frame_sz info hdr0))))"

section \<open>Every snapshot has a reason\<close>

lemma verify_live_reason:
  assumes "verify_live x dec wal fs info hdr0 = Ok info'"
    and "si_reason info = None" and "si_snapshotting info" and "\<not> si_clear_synced_to_wal_end info"
  shows "case si_reason info' of None \<Rightarrow> \<not> si_snapshotting info'
         | Some r \<Rightarrow> si_snapshotting info' \<and> r \<in> set snapshot_reasons"
    and "\<not> si_clear_synced_to_wal_end info'"
  using assms
  by (auto simp: verify_live_def Let_def and_then_eq_Ok snapshot_reasons_def split: if_splits prod.splits)

text \<open>\<open>verify\<close> asks for a full snapshot exactly when it gives a reason, the reason is one of the five
  documented ones, and the flag that clears \<open>synced_to_wal_end\<close> is only set together with an
  incremental restart from the top of the WAL.\<close>

theorem verify_reasons:
  assumes "verify x meta wal page_size t state = Ok info"
  shows "(case si_reason info of None \<Rightarrow> \<not> si_snapshotting info
          | Some r \<Rightarrow> si_snapshotting info \<and> r \<in> set snapshot_reasons) \<and>
    (si_clear_synced_to_wal_end info \<longrightarrow>
       ss_synced_to_wal_end state \<and> \<not> si_snapshotting info \<and> si_offset info = of_nat WAL_HEADER_SIZE)"
proof (cases "txid_is_zero t")
  case True
  with assms show ?thesis by (auto simp: verify_def Let_def snapshot_reasons_def)
next
  case False
  with assms obtain d dec where d: "l0_open meta t = Some d" "decode_header (decoder_new d) = Ok dec"
    by (auto simp: verify_def Let_def and_then_eq_Ok ok_or_eq_Ok map_err_eq_Ok)
  let ?resume = "h_wal_offset (d_header dec) + h_wal_size (d_header dec)"
  show ?thesis
  proof (cases "wal_file_size wal < ?resume")
    case True
    with assms False d show ?thesis
      by (auto simp: verify_def Let_def and_then_eq_Ok snapshot_reasons_def split: if_splits)
  next
    case nt: False
    with assms False d obtain hdr0 info0 where live: "verify_live x dec wal
        (of_nat WAL_FRAME_HEADER_SIZE + ucast page_size) info0 hdr0 = Ok info"
      and i0: "si_reason info0 = None" "si_snapshotting info0" "\<not> si_clear_synced_to_wal_end info0"
      by (fastforce simp: verify_def Let_def and_then_eq_Ok)
    from verify_live_reason [OF live i0] show ?thesis by simp
  qed
qed

section \<open>Incremental resumption is justified\<close>

text \<open>The pages a decoder still reads, up to the end of the page block or the first error.\<close>

function pages_read :: "externs \<Rightarrow> decoder \<Rightarrow> nat \<Rightarrow> (u32 \<times> byte list) list" where
  "pages_read x dec n =
     (case decode_page x dec n of
        Ok (Some (hdr, data), dec') \<Rightarrow> (ph_pgno hdr, data) # pages_read x dec' n
      | _ \<Rightarrow> [])"
  by pat_completeness auto
termination
  by (relation "measure (\<lambda>(x, d, n). length (d_r d))") (auto dest: decode_page_consumes)

declare pages_read.simps [simp del]

lemma find_page_True:
  "find_page x dec n pgno data = Ok True \<Longrightarrow> (pgno, data) \<in> set (pages_read x dec n)"
proof (induction x dec n pgno data rule: find_page.induct)
  case (1 x dec n pgno data)
  from "1.prems" obtain hdr buf dec' where step: "decode_page x dec n = Ok (Some (hdr, buf), dec')"
    by (subst (asm) find_page.simps) (auto simp: and_then_eq_Ok map_err_eq_Ok split: option.splits)
  have pr: "pages_read x dec n = (ph_pgno hdr, buf) # pages_read x dec' n"
    by (subst pages_read.simps) (simp add: step)
  show ?case
  proof (cases "ph_pgno hdr = pgno \<and> buf = data")
    case False
    then have rest: "find_page x dec' n pgno data = Ok True"
      using "1.prems" by (subst (asm) find_page.simps) (auto simp: step split: if_splits)
    have "(pgno, data) \<in> set (pages_read x dec' n)"
      using False "1.IH" [of "(Some (hdr, buf), dec')" "Some (hdr, buf)" dec' "(hdr, buf)" hdr buf] rest
      by (auto simp: step)
    then show ?thesis by (simp add: pr)
  qed (simp add: pr)
qed

lemma find_page_found:
  "(pgno, data) \<in> set (pages_read x dec n) \<Longrightarrow> find_page x dec n pgno data = Ok True"
proof (induction x dec n pgno data rule: find_page.induct)
  case (1 x dec n pgno data)
  from "1.prems" obtain hdr buf dec' where step: "decode_page x dec n = Ok (Some (hdr, buf), dec')"
    by (subst (asm) pages_read.simps) (auto split: result.splits option.splits dest: sym)
  have pr: "pages_read x dec n = (ph_pgno hdr, buf) # pages_read x dec' n"
    by (subst pages_read.simps) (simp add: step)
  show ?case
  proof (cases "ph_pgno hdr = pgno \<and> buf = data")
    case True
    then show ?thesis by (subst find_page.simps) (simp add: step)
  next
    case False
    then have "(pgno, data) \<in> set (pages_read x dec' n)" using "1.prems" by (auto simp: pr)
    then have "find_page x dec' n pgno data = Ok True"
      using False "1.IH" [of "(Some (hdr, buf), dec')" "Some (hdr, buf)" dec' "(hdr, buf)" hdr buf] by (auto simp: step)
    with False show ?thesis by (subst find_page.simps) (auto simp: step)
  qed
qed

lemma decode_pages_pages_read: "decode_pages x dec n = Ok (ps, dec') \<Longrightarrow> pages_read x dec n = ps"
proof (induction x dec n arbitrary: ps rule: decode_pages.induct)
  case (1 x dec n)
  from "1.prems" obtain p d where step: "decode_page x dec n = Ok (p, d)"
    by (subst (asm) decode_pages.simps) (auto simp: and_then_eq_Ok)
  show ?case
  proof (cases p)
    case None
    then show ?thesis using "1.prems" step by (subst pages_read.simps) (auto simp: decode_pages.simps [of x dec n])
  next
    case (Some q)
    obtain hdr data where q: "q = (hdr, data)" by (cases q)
    from "1.prems" step Some q obtain ps' where ps': "decode_pages x d n = Ok (ps', dec')"
      "ps = (ph_pgno hdr, data) # ps'" by (subst (asm) decode_pages.simps) (auto simp: and_then_eq_Ok)
    have "decode_page x dec n = Ok (Some (hdr, data), d)" using step Some q by simp
    from "1.IH" [OF this refl refl refl ps'(1)] this show ?thesis
      by (subst pages_read.simps) (simp add: ps'(2))
  qed
qed

text \<open>
  The frame before \<open>resume\<close> is in the WAL, carries the salts of the L0 file's header, and its page is
  one of the pages of that L0 file.
\<close>

definition last_frame_in_l0 :: "externs \<Rightarrow> decoder \<Rightarrow> byte list \<Rightarrow> u64 \<Rightarrow> u64 \<Rightarrow> bool" where
  "last_frame_in_l0 x dec w resume frame_sz =
     (let frame = read_at w (unat frame_sz) (unat (resume - frame_sz)); h = d_header dec in
      length frame = unat frame_sz \<and>
      from_be (subslice 8 12 frame) = h_wal_salt1 h \<and> from_be (subslice 12 16 frame) = h_wal_salt2 h \<and>
      (from_be (subslice 0 4 frame), drop WAL_FRAME_HEADER_SIZE frame) \<in> set (pages_read x dec (unat (h_page_size h))))"

lemma last_page_match_True:
  assumes "of_nat WAL_HEADER_SIZE < resume - frame_sz"
  shows "last_page_match x dec (d_header dec) (Some w) (resume - frame_sz) frame_sz = Ok True \<longleftrightarrow>
    last_frame_in_l0 x dec w resume frame_sz"
  using assms
  by (auto simp: last_page_match_def last_frame_in_l0_def Let_def read_at_def find_page_found
      split: if_splits dest: find_page_True)

lemma detect_full_checkpoint_False:
  "detect_full_checkpoint (Some w) [live, old] = Ok False \<longleftrightarrow>
    (\<exists>rd. wal_reader_new w = Ok rd \<and> set (frame_salts_until rd old) \<subseteq> {live, old})"
  by (cases "wal_reader_new w") (auto simp: detect_full_checkpoint_def Let_def filter_empty_conv)

text \<open>
  Where \<open>verify\<close> resumes without a snapshot: \<open>offset\<close> in the WAL \<open>w\<close>, with the request \<open>clear\<close> to
  reset \<open>synced_to_wal_end\<close>.  \<open>resume\<close> is the end of what the newest L0 file took from the WAL.
  \<^enum> The WAL is shorter than that and the last sync had recorded that it reached the end of the WAL: it
    is read from its top.  Nothing of the L0 file is compared.
  \<^enum> The salts of the WAL are those of the L0 file, and the file had taken nothing or one frame of it.
    Only the salts are compared.
  \<^enum> The salts are those of the L0 file, and the last frame it took is still in the WAL, with these salts
    and with a page that the L0 file holds.
  \<^enum> The WAL has other salts, the last frame the L0 file took is still there as before, and every frame
    header up to it carries the old or the new salts: the new generation is read from the top.
\<close>

definition resume_point ::
  "externs \<Rightarrow> decoder \<Rightarrow> byte list \<Rightarrow> u64 \<Rightarrow> sync_state \<Rightarrow> u64 \<Rightarrow> bool \<Rightarrow> bool" where
  "resume_point x dec w frame_sz state offset clear \<longleftrightarrow>
     (let h = d_header dec; resume = h_wal_offset h + h_wal_size h; top = of_nat WAL_HEADER_SIZE;
          live = header_salts (read_at w 32 0); old = (h_wal_salt1 h, h_wal_salt2 h);
          consumed = (resume \<noteq> top \<and> int WAL_HEADER_SIZE < sint (resume - frame_sz) \<and>
                      last_frame_in_l0 x dec w resume frame_sz) in
      if of_nat (length w) < resume then clear \<and> ss_synced_to_wal_end state \<and> offset = top
      else \<not> clear \<and>
        (live = old \<and> offset = resume \<and> (resume = top \<or> resume = top + frame_sz \<or> consumed) \<or>
         live \<noteq> old \<and> offset = top \<and> consumed \<and>
           (\<exists>rd. wal_reader_new w = Ok rd \<and> set (frame_salts_until rd old) \<subseteq> {live, old})))"

definition resume_info :: "byte list \<Rightarrow> u64 \<Rightarrow> bool \<Rightarrow> sync_info" where
  "resume_info w offset clear =
     \<lparr>si_offset = offset, si_salt1 = fst (header_salts (read_at w 32 0)), si_salt2 = snd (header_salts (read_at w 32 0)),
      si_snapshotting = False, si_reason = None, si_clear_synced_to_wal_end = clear\<rparr>"

lemma resume_info_simps [simp]:
  "\<not> si_snapshotting (resume_info w offset clear)" "si_offset (resume_info w offset clear) = offset"
  by (simp_all add: resume_info_def)

lemma read_wal_header_Ok:
  "read_wal_header wal = Ok hdr \<longleftrightarrow> (\<exists>w. wal = Some w \<and> 32 \<le> length w \<and> hdr = read_at w 32 0)"
  by (auto simp: read_wal_header_def Let_def read_at_def split: if_splits option.splits)

lemma sint_eq_header: "sint (a :: u64) = int WAL_HEADER_SIZE \<longleftrightarrow> a = of_nat WAL_HEADER_SIZE"
proof -
  have "sint (of_nat WAL_HEADER_SIZE :: u64) = int WAL_HEADER_SIZE" by (simp add: WAL_HEADER_SIZE_def)
  then show ?thesis by (metis signed_word_eqI)
qed

lemma sint_above_header:
  assumes "int WAL_HEADER_SIZE < sint (a :: u64)" shows "of_nat WAL_HEADER_SIZE < a"
proof -
  have "take_bit 64 (uint a) = uint a" using take_bit_length_eq [of a] by (simp add: unsigned_take_bit_eq [symmetric])
  then have "sint a \<le> uint a" by (simp add: sint_uint signed_take_bit_eq_take_bit_minus)
  with assms show ?thesis by (simp add: word_less_def WAL_HEADER_SIZE_def)
qed

lemma verify_live_resumes:
  fixes dec :: decoder and w :: "byte list"
  defines "h \<equiv> d_header dec"
  defines "info \<equiv> \<lparr>si_offset = h_wal_offset h + h_wal_size h, si_salt1 = h_wal_salt1 h, si_salt2 = h_wal_salt2 h,
     si_snapshotting = True, si_reason = None, si_clear_synced_to_wal_end = False\<rparr>"
  assumes "\<not> of_nat (length w) < h_wal_offset h + h_wal_size h"
  shows "verify_live x dec (Some w) frame_sz info (read_at w 32 0) = Ok info' \<and> \<not> si_snapshotting info' \<longleftrightarrow>
    (\<exists>offset clear. info' = resume_info w offset clear \<and> resume_point x dec w frame_sz state offset clear)"
proof -
  define resume where "resume = h_wal_offset h + h_wal_size h"
  let ?top = "of_nat WAL_HEADER_SIZE :: u64"
  obtain s1 s2 where live: "header_salts (read_at w 32 0) = (s1, s2)" by (cases "header_salts (read_at w 32 0)")
  note fold = live Let_def h_def [symmetric] resume_def [symmetric]
  have long: "\<not> of_nat (length w) < resume" using assms(3) by (simp add: resume_def)
  have one: "resume - frame_sz = ?top \<longleftrightarrow> resume = ?top + frame_sz" by (auto simp: algebra_simps)
  consider (edge) "resume = ?top \<or> resume - frame_sz = ?top"
    | (low) "resume \<noteq> ?top" "resume - frame_sz \<noteq> ?top" "sint (resume - frame_sz) < int WAL_HEADER_SIZE"
    | (deep) "resume \<noteq> ?top" "resume - frame_sz \<noteq> ?top" "int WAL_HEADER_SIZE < sint (resume - frame_sz)"
    using sint_eq_header [of "resume - frame_sz"] by linarith
  then show ?thesis
  proof cases
    case edge
    then have a: "verify_live x dec (Some w) frame_sz info (read_at w 32 0) =
      Ok (if s1 = h_wal_salt1 h \<and> s2 = h_wal_salt2 h then info\<lparr>si_snapshotting := False\<rparr>
          else info\<lparr>si_reason := Some REASON_SALT\<rparr>)"
      by (auto simp: verify_live_def info_def sint_eq_header fold)
    have b: "resume_point x dec w frame_sz state offset clear \<longleftrightarrow>
        \<not> clear \<and> (s1, s2) = (h_wal_salt1 h, h_wal_salt2 h) \<and> offset = resume" for offset clear
      using edge one sint_eq_header [of "resume - frame_sz"] long by (auto simp: resume_point_def fold)
    show ?thesis unfolding a b by (cases "(s1, s2) = (h_wal_salt1 h, h_wal_salt2 h)") (auto simp: resume_info_def info_def live resume_def)
  next
    case low
    then have "\<not> resume_point x dec w frame_sz state offset clear" for offset clear
      using one long by (auto simp: resume_point_def fold)
    moreover have "verify_live x dec (Some w) frame_sz info (read_at w 32 0) \<noteq> Ok info'"
      using low by (simp add: verify_live_def info_def sint_eq_header fold)
    ultimately show ?thesis by blast
  next
    case deep
    note last = last_page_match_True [OF sint_above_header [OF deep(3)], of x dec w, folded h_def]
    have a: "resume_point x dec w frame_sz state offset clear \<longleftrightarrow> \<not> clear \<and> last_frame_in_l0 x dec w resume frame_sz \<and>
        ((s1, s2) = (h_wal_salt1 h, h_wal_salt2 h) \<and> offset = resume \<or>
         (s1, s2) \<noteq> (h_wal_salt1 h, h_wal_salt2 h) \<and> offset = ?top \<and>
           detect_full_checkpoint (Some w) [(s1, s2), (h_wal_salt1 h, h_wal_salt2 h)] = Ok False)" for offset clear
      using deep one long by (auto simp: resume_point_def fold detect_full_checkpoint_False)
    have b: "verify_live x dec (Some w) frame_sz info (read_at w 32 0) =
      and_then (last_page_match x dec h (Some w) (resume - frame_sz) frame_sz) (\<lambda>matches.
        if \<not> matches then Ok (info\<lparr>si_reason := Some REASON_OVERWRITTEN\<rparr>)
        else if (s1, s2) = (h_wal_salt1 h, h_wal_salt2 h) then Ok (info\<lparr>si_snapshotting := False\<rparr>)
        else and_then (detect_full_checkpoint (Some w) [(s1, s2), (h_wal_salt1 h, h_wal_salt2 h)]) (\<lambda>full.
          Ok (if full then info\<lparr>si_offset := ?top, si_salt1 := s1, si_salt2 := s2, si_reason := Some REASON_CHECKPOINT\<rparr>
              else info\<lparr>si_offset := ?top, si_salt1 := s1, si_salt2 := s2, si_snapshotting := False\<rparr>)))"
      using deep by (cases "(s1, s2) = (h_wal_salt1 h, h_wal_salt2 h)")
        (auto simp: verify_live_def info_def sint_eq_header fold intro!: arg_cong2 [where f = and_then] ext)
    show ?thesis unfolding a b last [symmetric]
      by (cases "last_page_match x dec h (Some w) (resume - frame_sz) frame_sz";
          cases "detect_full_checkpoint (Some w) [(s1, s2), (h_wal_salt1 h, h_wal_salt2 h)]")
         (auto simp: resume_info_def info_def live resume_def)
  qed
qed

text \<open>C39: Exactly when \<open>verify\<close> resumes incrementally, and from where.  It answers without a snapshot if and
  only if the local position is not zero, its L0 file exists and its header decodes, the WAL has a whole header,
  and the offset it gives is one of the four resume points: the top of a WAL that is shorter than what was
  consumed, when the state flag says that the last sync had reached its end; the recorded offset, when the salts
  agree and at most one frame had been consumed; the recorded offset, when the salts agree and the last
  consumed frame is still in the WAL with a page the L0 file holds; the top of a restarted WAL whose last
  consumed frame is still there likewise and that shows no third generation of salts.  In the first case nothing
  of the L0 file is compared and in the second only its salts; the salts answered are always those of the
  WAL's header.\<close>

theorem verify_resume_sound:
  "verify x meta wal page_size t state = Ok info \<and> \<not> si_snapshotting info \<longleftrightarrow>
    (\<exists>d dec w offset clear. t \<noteq> 0 \<and> l0_open meta t = Some d \<and> decode_header (decoder_new d) = Ok dec \<and>
       wal = Some w \<and> 32 \<le> length w \<and> info = resume_info w offset clear \<and>
       resume_point x dec w (of_nat WAL_FRAME_HEADER_SIZE + ucast page_size) state offset clear)"
proof (cases "\<exists>d dec. t \<noteq> 0 \<and> l0_open meta t = Some d \<and> decode_header (decoder_new d) = Ok dec")
  case False
  then show ?thesis
    by (auto simp: verify_def Let_def txid_is_zero_def and_then_eq_Ok ok_or_eq_Ok map_err_eq_Ok split: if_splits)
next
  case True
  then obtain d dec where d: "t \<noteq> 0" "l0_open meta t = Some d" "decode_header (decoder_new d) = Ok dec" by blast
  let ?h = "d_header dec"
  let ?resume = "h_wal_offset ?h + h_wal_size ?h"
  have "verify x meta wal page_size t state = Ok info \<and> \<not> si_snapshotting info \<longleftrightarrow>
    (\<exists>w offset clear. wal = Some w \<and> 32 \<le> length w \<and> info = resume_info w offset clear \<and>
       resume_point x dec w (of_nat WAL_FRAME_HEADER_SIZE + ucast page_size) state offset clear)"
  proof (cases "wal_file_size wal < ?resume")
    case True
    then show ?thesis
      by (auto simp: verify_def Let_def d txid_is_zero_def and_then_eq_Ok read_wal_header_Ok resume_info_def
          resume_point_def wal_file_size_def split: if_splits)
  next
    case False
    have "verify x meta wal page_size t state = Ok info \<longleftrightarrow> (\<exists>w. wal = Some w \<and> 32 \<le> length w \<and>
      verify_live x dec (Some w) (of_nat WAL_FRAME_HEADER_SIZE + ucast page_size)
        \<lparr>si_offset = ?resume, si_salt1 = h_wal_salt1 ?h, si_salt2 = h_wal_salt2 ?h, si_snapshotting = True,
         si_reason = None, si_clear_synced_to_wal_end = False\<rparr> (read_at w 32 0) = Ok info)"
      using False by (auto simp: verify_def Let_def d txid_is_zero_def and_then_eq_Ok read_wal_header_Ok)
    then show ?thesis
      using False verify_live_resumes [where state = state, of _ dec x _ info] by (auto simp: wal_file_size_def)
  qed
  then show ?thesis by (simp add: d)
qed

section \<open>A concrete resumption\<close>

text \<open>A local L0 file at transaction 3 that consumed nothing of the WAL beyond its header.\<close>

definition demo_l0_header :: header where
  "demo_l0_header = demo_header\<lparr>h_min_txid := 3, h_max_txid := 3, h_wal_offset := 32, h_wal_size := 0,
     h_wal_salt1 := 1, h_wal_salt2 := 2\<rparr>"

definition demo_meta :: meta_dir where
  "demo_meta = l0_put 3 (header_encode demo_l0_header) (meta_for_db [''app.db''])"

definition demo_sync_info :: sync_info where
  "demo_sync_info = \<lparr>si_offset = 32, si_salt1 = 1, si_salt2 = 2, si_snapshotting = False, si_reason = None,
     si_clear_synced_to_wal_end = False\<rparr>"

lemma demo_l0_header_valid: "header_validate demo_l0_header = Ok ()"
  by code_simp

lemma demo_l0_decode: "\<exists>dec. decode_header (decoder_new (header_encode demo_l0_header)) = Ok dec \<and> d_header dec = demo_l0_header"
  using decode_header_encode [OF demo_l0_header_valid, of "[]"] by simp

lemma demo_wal_salts: "read_wal_header (Some demo_wal) = Ok (take 32 demo_wal)" "header_salts (take 32 demo_wal) = (1, 2)"
  "wal_file_size (Some demo_wal) = 128"
  by code_simp+

lemma demo_verify_wal:
  "verify demo_externs demo_meta (Some demo_wal) 512 3 \<lparr>ss_last_synced_wal_offset = 0, ss_synced_to_wal_end = False,
     ss_synced_since_checkpoint = False\<rparr> = Ok demo_sync_info"
proof -
  have "l0_open demo_meta 3 = Some (header_encode demo_l0_header)" by (simp add: demo_meta_def l0_open_put)
  moreover obtain dec where "decode_header (decoder_new (header_encode demo_l0_header)) = Ok dec"
    "d_header dec = demo_l0_header" using demo_l0_decode by blast
  moreover have "h_wal_offset demo_l0_header = 32" "h_wal_size demo_l0_header = 0"
    "h_wal_salt1 demo_l0_header = 1" "h_wal_salt2 demo_l0_header = 2" by (simp_all add: demo_l0_header_def)
  ultimately show ?thesis
    by (simp add: verify_def verify_live_def demo_wal_salts demo_sync_info_def txid_is_zero_def WAL_HEADER_SIZE_def)
qed

theorem verify_reasons_witness:
  "(case si_reason demo_sync_info of None \<Rightarrow> \<not> si_snapshotting demo_sync_info
    | Some r \<Rightarrow> si_snapshotting demo_sync_info \<and> r \<in> set snapshot_reasons)"
  using verify_reasons [OF demo_verify_wal] by blast

end
