(* ===== verification/ResultState.thy ===== *)
theory ResultState
  imports Prelude
begin

text \<open>
  Operations of a Rust object that may fail: a operation takes the object's state and returns its result
  together with the state it leaves behind, on the error path too (\<open>&mut self\<close> operations that return
  \<open>Result\<close>).  \<open>m_bind\<close> is the sequencing of statements with \<open>?\<close>.  The triple \<open>keeps\<close> states that a
  operation keeps a property of the state whatever it returns; its rules are collected in \<open>keeps_rules\<close>,
  so that the invariants of the components are proved by following the structure of the code.
\<close>

type_synonym ('s, 'e, 'a) action = "'s \<Rightarrow> ('e, 'a) result \<times> 's"

section \<open>Statements\<close>

definition m_ok :: "'a \<Rightarrow> ('s, 'e, 'a) action" where
  "m_ok x s = (Ok x, s)"

definition m_err :: "'e \<Rightarrow> ('s, 'e, 'a) action" where
  "m_err e s = (Err e, s)"

definition m_lift :: "('e, 'a) result \<Rightarrow> ('s, 'e, 'a) action" where
  "m_lift r s = (r, s)"

definition m_get :: "('s, 'e, 's) action" where
  "m_get s = (Ok s, s)"

definition m_mod :: "('s \<Rightarrow> 's) \<Rightarrow> ('s, 'e, unit) action" where
  "m_mod f s = (Ok (), f s)"

definition m_bind :: "('s, 'e, 'a) action \<Rightarrow> ('a \<Rightarrow> ('s, 'e, 'b) action) \<Rightarrow> ('s, 'e, 'b) action" where
  "m_bind m f s = (case m s of (Err e, s') \<Rightarrow> (Err e, s') | (Ok x, s') \<Rightarrow> f x s')"

abbreviation m_then :: "('s, 'e, 'a) action \<Rightarrow> ('s, 'e, 'b) action \<Rightarrow> ('s, 'e, 'b) action" where
  "m_then m n \<equiv> m_bind m (\<lambda>_. n)"

text \<open>A statement whose result is inspected instead of propagated (\<open>match\<close>, \<open>let r = ...;\<close>).\<close>

definition m_try :: "('s, 'e, 'a) action \<Rightarrow> (('e, 'a) result \<Rightarrow> ('s, 'e, 'b) action) \<Rightarrow> ('s, 'e, 'b) action" where
  "m_try m f s = (case m s of (r, s') \<Rightarrow> f r s')"

lemma m_run [simp]:
  "m_ok x s = (Ok x, s)" "m_err e s = (Err e, s)" "m_lift r s = (r, s)" "m_get s = (Ok s, s)" "m_mod h s = (Ok (), h s)"
  by (simp_all add: m_ok_def m_err_def m_lift_def m_get_def m_mod_def)

lemma m_bind_run:
  "m s = (Ok x, s') \<Longrightarrow> m_bind m f s = f x s'" "m s = (Err e, s') \<Longrightarrow> m_bind m f s = (Err e, s')"
  by (simp_all add: m_bind_def)

lemma m_bind_simps [simp]:
  "m_bind (m_ok x) f = f x" "m_bind (m_err e) f = m_err e"
  "m_bind m_get g s = g s s" "m_bind (m_mod h) k s = k () (h s)"
  "m_bind (m_lift (Ok x)) f = f x" "m_bind (m_lift (Err e)) f = m_err e"
  by (simp_all add: m_bind_def fun_eq_iff)

lemma m_bind_eq_Ok:
  "m_bind m f s = (Ok y, s'') \<longleftrightarrow> (\<exists>x s'. m s = (Ok x, s') \<and> f x s' = (Ok y, s''))"
  by (cases "m s"; cases "fst (m s)") (auto simp: m_bind_def)

lemma m_lift_eq_Ok: "m_lift r s = (Ok x, s') \<longleftrightarrow> r = Ok x \<and> s' = s"
  by auto

lemma m_bind_assoc: "m_bind (m_bind m f) g = m_bind m (\<lambda>x. m_bind (f x) g)"
  by (auto simp: m_bind_def fun_eq_iff split: prod.splits result.splits)

section \<open>Properties every operation keeps\<close>

definition keeps :: "('s \<Rightarrow> bool) \<Rightarrow> ('s, 'e, 'a) action \<Rightarrow> bool" where
  "keeps I m \<longleftrightarrow> (\<forall>s. I s \<longrightarrow> I (snd (m s)))"

named_theorems keeps_rules

lemma keepsD: "keeps I m \<Longrightarrow> I s \<Longrightarrow> m s = (r, s') \<Longrightarrow> I s'"
  by (force simp: keeps_def)

lemma keepsI: "(\<And>s r s'. I s \<Longrightarrow> m s = (r, s') \<Longrightarrow> I s') \<Longrightarrow> keeps I m"
  by (metis keeps_def prod.collapse)

lemma keeps_basic [keeps_rules]:
  "keeps I (m_ok x)" "keeps I (m_err e)" "keeps I (m_lift r)" "keeps I m_get"
  by (simp_all add: keeps_def)

lemma keeps_mod: "(\<And>s. I s \<Longrightarrow> I (f s)) \<Longrightarrow> keeps I (m_mod f)"
  by (simp add: keeps_def)

lemma keeps_bind [keeps_rules]: "keeps I m \<Longrightarrow> (\<And>x. keeps I (f x)) \<Longrightarrow> keeps I (m_bind m f)"
  by (rule keepsI) (auto simp: m_bind_def split: prod.splits result.splits dest: keepsD)

lemma keeps_try [keeps_rules]: "keeps I m \<Longrightarrow> (\<And>r. keeps I (f r)) \<Longrightarrow> keeps I (m_try m f)"
  by (rule keepsI) (auto simp: m_try_def split: prod.splits dest: keepsD)

lemma keeps_if [keeps_rules]: "(b \<Longrightarrow> keeps I m) \<Longrightarrow> (\<not> b \<Longrightarrow> keeps I n) \<Longrightarrow> keeps I (if b then m else n)"
  by simp

lemma keeps_let [keeps_rules]: "(\<And>x. keeps I (f x)) \<Longrightarrow> keeps I (let x = a in f x)"
  by (simp add: Let_def)

lemma keeps_option [keeps_rules]:
  "keeps I m \<Longrightarrow> (\<And>x. keeps I (f x)) \<Longrightarrow> keeps I (case v of None \<Rightarrow> m | Some x \<Rightarrow> f x)"
  by (cases v) auto

lemma keeps_result [keeps_rules]:
  "(\<And>e. keeps I (g e)) \<Longrightarrow> (\<And>x. keeps I (f x)) \<Longrightarrow> keeps I (case v of Err e \<Rightarrow> g e | Ok x \<Rightarrow> f x)"
  by (cases v) auto

lemma keeps_prod [keeps_rules]: "(\<And>a b. keeps I (f a b)) \<Longrightarrow> keeps I (case p of (a, b) \<Rightarrow> f a b)"
  by (cases p) auto

text \<open>A operation may rely on what holds when it reads the state.\<close>

lemma keeps_get_bind: "(\<And>s. I s \<Longrightarrow> I (snd (f s s))) \<Longrightarrow> keeps I (m_bind m_get f)"
  by (simp add: keeps_def)

text \<open>Operations that never touch a part of the state.\<close>

definition leaves :: "('s \<Rightarrow> 'v) \<Rightarrow> ('s, 'e, 'a) action \<Rightarrow> bool" where
  "leaves f m \<longleftrightarrow> (\<forall>s. f (snd (m s)) = f s)"

lemma leavesD: "leaves f m \<Longrightarrow> m s = (r, s') \<Longrightarrow> f s' = f s"
  by (metis leaves_def snd_conv)

lemma leaves_keeps: "leaves f m \<longleftrightarrow> (\<forall>v. keeps (\<lambda>s. f s = v) m)"
  by (auto simp: leaves_def keeps_def)

lemma leavesI: "(\<And>v. keeps (\<lambda>s. f s = v) m) \<Longrightarrow> leaves f m"
  by (simp add: leaves_keeps)

lemma leaves_imp_keeps: "leaves f m \<Longrightarrow> keeps (\<lambda>s. f s = v) m"
  by (simp add: leaves_keeps)

section \<open>Triples\<close>

text \<open>From \<open>P\<close>, a successful run ends in \<open>Q\<close> of its result, a failing one in \<open>E\<close>.\<close>

definition triple :: "('s \<Rightarrow> bool) \<Rightarrow> ('s, 'e, 'a) action \<Rightarrow> ('a \<Rightarrow> 's \<Rightarrow> bool) \<Rightarrow> ('s \<Rightarrow> bool) \<Rightarrow> bool" where
  "triple P m Q E \<longleftrightarrow> (\<forall>s. P s \<longrightarrow> (case m s of (Ok x, s') \<Rightarrow> Q x s' | (Err e, s') \<Rightarrow> E s'))"

lemma tripleI:
  assumes "\<And>s x s'. P s \<Longrightarrow> m s = (Ok x, s') \<Longrightarrow> Q x s'" and "\<And>s e s'. P s \<Longrightarrow> m s = (Err e, s') \<Longrightarrow> E s'"
  shows "triple P m Q E"
  using assms unfolding triple_def by (auto split: prod.splits result.splits)

lemma tripleD:
  assumes "triple P m Q E" and "P s"
  shows "m s = (Ok x, s') \<Longrightarrow> Q x s'" and "m s = (Err e, s') \<Longrightarrow> E s'"
  using assms unfolding triple_def by (metis (no_types, lifting) case_prod_conv result.case)+

lemma triple_bind:
  assumes "triple P m R E" and "\<And>x. triple (R x) (f x) Q E"
  shows "triple P (m_bind m f) Q E"
proof (rule tripleI)
  fix s x s' assume P: "P s" and run: "m_bind m f s = (Ok x, s')"
  then obtain y s1 where y: "m s = (Ok y, s1)" "f y s1 = (Ok x, s')" by (auto simp: m_bind_eq_Ok)
  from tripleD(1) [OF assms(1) P y(1)] tripleD(1) [OF assms(2) _ y(2)] show "Q x s'" by blast
next
  fix s e s' assume P: "P s" and run: "m_bind m f s = (Err e, s')"
  obtain r s1 where r: "m s = (r, s1)" by fastforce
  show "E s'"
  proof (cases r)
    case (Err e1)
    then show ?thesis using tripleD(2) [OF assms(1) P, of e1 s1] r run by (auto simp: m_bind_def)
  next
    case (Ok y)
    then have "R y s1" "f y s1 = (Err e, s')" using tripleD(1) [OF assms(1) P, of y s1] r run by (auto simp: m_bind_def)
    then show ?thesis using tripleD(2) [OF assms(2)] by blast
  qed
qed

lemma triple_try:
  assumes "triple P m R F" and "\<And>x. triple (R x) (f (Ok x)) Q E" and "\<And>e. triple F (f (Err e)) Q E"
  shows "triple P (m_try m f) Q E"
  unfolding triple_def
proof (intro allI impI)
  fix s assume P: "P s"
  obtain r s1 where r: "m s = (r, s1)" by fastforce
  then have run: "m_try m f s = f r s1" by (simp add: m_try_def)
  show "case m_try m f s of (Ok x, s') \<Rightarrow> Q x s' | (Err e, s') \<Rightarrow> E s'"
  proof (cases r)
    case (Ok x)
    with tripleD(1) [OF assms(1) P] r assms(2) [of x] run show ?thesis by (auto simp: triple_def)
  next
    case (Err e)
    with tripleD(2) [OF assms(1) P] r assms(3) [of e] run show ?thesis by (auto simp: triple_def)
  qed
qed

lemma triple_lift: "(\<And>s x. P s \<Longrightarrow> v = Ok x \<Longrightarrow> Q x s) \<Longrightarrow> (\<And>s. P s \<Longrightarrow> E s) \<Longrightarrow> triple P (m_lift v) Q E"
  by (rule tripleI) auto

lemma triple_err: "(\<And>s. P s \<Longrightarrow> E s) \<Longrightarrow> triple P (m_err e) Q E"
  by (rule tripleI) auto

lemma triple_pre: "(\<And>s. P s \<Longrightarrow> b) \<Longrightarrow> (b \<Longrightarrow> triple P m Q E) \<Longrightarrow> triple P m Q E"
  by (auto simp: triple_def)

lemma triple_get:
  "(\<And>s. P s \<Longrightarrow> triple (\<lambda>s'. P s' \<and> s' = s) (f s) Q E) \<Longrightarrow> triple P (m_bind m_get f) Q E"
  by (auto simp: triple_def)

lemma triple_keeps: "keeps I m \<Longrightarrow> (\<And>s. I s \<Longrightarrow> E s) \<Longrightarrow> triple I m (\<lambda>_. I) E"
  by (rule tripleI) (auto dest: keepsD)

lemma keeps_triple: "triple I m (\<lambda>_. I) I \<Longrightarrow> keeps I m"
proof (rule keepsI)
  fix s r s' assume "triple I m (\<lambda>_. I) I" "I s" "m s = (r, s')"
  then show "I s'" by (cases r) (auto dest: tripleD)
qed

lemma triple_weaken:
  "triple P m Q E \<Longrightarrow> (\<And>s. P' s \<Longrightarrow> P s) \<Longrightarrow> (\<And>x s. Q x s \<Longrightarrow> Q' x s) \<Longrightarrow> (\<And>s. E s \<Longrightarrow> E' s) \<Longrightarrow> triple P' m Q' E'"
  by (rule tripleI) (blast dest: tripleD)+

lemma triple_ok: "(\<And>s. P s \<Longrightarrow> Q x s) \<Longrightarrow> triple P (m_ok x) Q E"
  by (rule tripleI) auto

lemma triple_let: "(\<And>x. triple P (f x) Q E) \<Longrightarrow> triple P (let x = a in f x) Q E"
  by (simp add: Let_def)

lemma triple_prod: "(\<And>a b. triple P (f a b) Q E) \<Longrightarrow> triple P (case p of (a, b) \<Rightarrow> f a b) Q E"
  by (cases p) auto

lemma triple_if: "triple P m Q E \<Longrightarrow> triple P n Q E \<Longrightarrow> triple P (if b then m else n) Q E"
  by simp

text \<open>A statement that keeps \<open>I\<close> in front of the rest.\<close>

lemma triple_keeps_bind:
  "keeps I m \<Longrightarrow> (\<And>s. I s \<Longrightarrow> E s) \<Longrightarrow> (\<And>x. triple I (f x) Q E) \<Longrightarrow> triple I (m_bind m f) Q E"
  by (rule triple_bind [OF triple_keeps])

end
