(* ===== verification/Writer.thy ===== *)
theory Writer
  imports VerifyWal ResultState
begin

text \<open>
  Model of \<open>crates/liters/src/writer.rs\<close>, \<open>checkpoint.rs\<close> and the lock discipline of \<open>sqlite.rs\<close>: the
  conversion of committed WAL content into L0 files, their upload, the lineage check, checkpoints and
  the push that runs them.  A operation takes the writer's state and returns its result with the state
  it leaves, on errors too.

  SQLite itself is a parameter: the record \<open>sqlite\<close> holds what its statements do to the database and
  WAL files.  Between the statements of one operation the two files change only through these
  statements; between operations they may change arbitrarily.  The clock is the sequence of its
  readings, the cancellation token is part of the state, and the backend is a \<open>client\<close>.
\<close>

section \<open>Data\<close>

datatype checkpoint_mode = Passive | Truncate

fun as_sql :: "checkpoint_mode \<Rightarrow> string" where
  "as_sql Passive = ''PASSIVE''"
| "as_sql Truncate = ''TRUNCATE''"

record writer_options =
  wo_busy_timeout :: nat
  wo_min_checkpoint_page_n :: u32
  wo_truncate_page_n :: u32
  wo_auto_checkpoint :: bool

definition writer_options_default :: writer_options where
  "writer_options_default = \<lparr>wo_busy_timeout = 1, wo_min_checkpoint_page_n = 1000, wo_truncate_page_n = 121359,
     wo_auto_checkpoint = True\<rparr>"

record push_result =
  pr_txid :: txid
  pr_synced :: bool
  pr_uploaded :: nat
  pr_remote_txid :: txid
  pr_checkpointed :: bool
  pr_snapshotted :: bool
  pr_snapshot_reason :: "string option"
  pr_bytes_uploaded :: nat

record sync_outcome =
  so_synced :: bool
  so_pos :: "pos option"
  so_new_wal_size :: u64
  so_synced_to_wal_end :: bool
  so_snapshotted :: bool
  so_snapshot_reason :: "string option"

text \<open>The database file and the WAL file.\<close>

type_synonym db_files = "byte list \<times> byte list option"

datatype sql_cmd =
    SqlEnableWal | SqlCreateMetaTables | SqlWriteSeq | SqlCheckpoint string
  | SqlBegin | SqlInsertLock | SqlRollback | SqlReadBegin | SqlReadSelect | SqlReadRollback

record sqlite =
  sql_exec :: "sql_cmd \<Rightarrow> db_files \<Rightarrow> unit res \<times> db_files"
  sql_journal_mode :: "db_files \<Rightarrow> string res"
  sql_page_size :: "db_files \<Rightarrow> u32 res"
  sql_busy :: "string \<Rightarrow> bool"

record 's env =
  ev_x :: externs
  ev_client :: "'s client"
  ev_sql :: sqlite

record 's writer =
  w_db :: "byte list"
  w_wal :: "byte list option"
  w_meta :: meta_dir
  w_page_size :: u32
  w_client :: 's
  w_opts :: writer_options
  w_state :: sync_state
  w_cached_pos :: "pos option"
  w_remote_txid :: "txid option"
  w_verified_pos :: txid
  w_verified_pos_provisional :: bool
  w_lineage_checked :: bool
  w_read_lock :: bool
  w_cancel :: cancel_token
  w_clock :: "nat \<Rightarrow> i64"

type_synonym ('s, 'a) wm = "('s writer, error, 'a) action"

section \<open>Environment of the operations\<close>

definition set_cancel :: "cancel_token \<Rightarrow> ('s, unit) wm" where
  "set_cancel t = m_mod (\<lambda>w. w\<lparr>w_cancel := t\<rparr>)"

definition cancel_check :: "('s, unit) wm" where
  "cancel_check w =
     (case token_check (w_cancel w) of
        Err e \<Rightarrow> (Err (from_storage e), w)
      | Ok t \<Rightarrow> (Ok (), w\<lparr>w_cancel := t\<rparr>))"

definition now_unix_millis :: "('s, i64) wm" where
  "now_unix_millis w = (Ok (w_clock w 0), w\<lparr>w_clock := (\<lambda>n. w_clock w (Suc n))\<rparr>)"

definition exec_sql :: "'s env \<Rightarrow> sql_cmd \<Rightarrow> ('s, unit) wm" where
  "exec_sql ev cmd w =
     (case sql_exec (ev_sql ev) cmd (w_db w, w_wal w) of
        (r, db, wal) \<Rightarrow> (r, w\<lparr>w_db := db, w_wal := wal\<rparr>))"

definition write_seq :: "'s env \<Rightarrow> ('s, unit) wm" where
  "write_seq ev = exec_sql ev SqlWriteSeq"

definition is_busy_error :: "'s env \<Rightarrow> error \<Rightarrow> bool" where
  "is_busy_error ev e = (case e of Sqlite msg \<Rightarrow> sql_busy (ev_sql ev) msg | _ \<Rightarrow> False)"

text \<open>The long-running read transaction.\<close>

definition lock_acquire :: "'s env \<Rightarrow> ('s, unit) wm" where
  "lock_acquire ev =
     m_bind m_get (\<lambda>w.
       if w_read_lock w then m_ok ()
       else m_then (exec_sql ev SqlReadBegin)
         (m_try (exec_sql ev SqlReadSelect) (\<lambda>r.
            case r of
              Ok _ \<Rightarrow> m_mod (\<lambda>w. w\<lparr>w_read_lock := True\<rparr>)
            | Err e \<Rightarrow> m_try (exec_sql ev SqlReadRollback) (\<lambda>_. m_err e))))"

definition lock_release :: "'s env \<Rightarrow> ('s, unit) wm" where
  "lock_release ev =
     m_bind m_get (\<lambda>w.
       if \<not> w_read_lock w then m_ok ()
       else m_then (m_mod (\<lambda>w. w\<lparr>w_read_lock := False\<rparr>)) (exec_sql ev SqlReadRollback))"

text \<open>A storage call that only reads the bucket.\<close>

definition client_max :: "'s env \<Rightarrow> u8 \<Rightarrow> ('s, file_info option) wm" where
  "client_max ev level = m_bind m_get (\<lambda>w. m_lift (st_q (max_ltx_file_info (ev_client ev) (w_client w) level)))"

definition client_write :: "'s env \<Rightarrow> u8 \<Rightarrow> txid \<Rightarrow> txid \<Rightarrow> byte list \<Rightarrow> ('s, unit) wm" where
  "client_write ev level a b d w =
     (case write_ltx_file (ev_client ev) (w_client w) level a b d of
        Err e \<Rightarrow> (Err (from_storage e), w)
      | Ok (info, s) \<Rightarrow> (Ok (), w\<lparr>w_client := s\<rparr>))"

section \<open>Positions\<close>

definition writer_pos :: "'s env \<Rightarrow> ('s, pos) wm" where
  "writer_pos ev =
     m_bind m_get (\<lambda>w.
       case w_cached_pos w of
         Some p \<Rightarrow> m_ok p
       | None \<Rightarrow>
           m_bind (m_lift (meta_pos (ev_x ev) (w_meta w))) (\<lambda>p.
           m_then (m_mod (\<lambda>w. w\<lparr>w_cached_pos := Some p\<rparr>)) (m_ok p)))"

definition invalidate_pos :: "('s, unit) wm" where
  "invalidate_pos = m_mod (\<lambda>w. w\<lparr>w_cached_pos := None\<rparr>)"

definition mod_meta :: "(meta_dir \<Rightarrow> meta_dir) \<Rightarrow> ('s, unit) wm" where
  "mod_meta f = m_mod (\<lambda>w. w\<lparr>w_meta := f (w_meta w)\<rparr>)"

section \<open>Conversion of the WAL into an L0 file\<close>

definition read_full_at :: "byte list \<Rightarrow> nat \<Rightarrow> nat \<Rightarrow> byte list res" where
  "read_full_at f n offset =
     (let b = read_at f n offset in
      if length b < n then Err (EIo (IoError UnexpectedEof (''short read at offset '' @ fmt_dec offset))) else Ok b)"

fun from_db_loop ::
  "'s env \<Rightarrow> byte list \<Rightarrow> (u32 \<times> nat) list \<Rightarrow> u32 list \<Rightarrow> encoder \<Rightarrow> ('s, encoder) wm" where
  "from_db_loop ev wal pages [] enc = m_ok enc"
| "from_db_loop ev wal pages (pgno # pgnos) enc =
     m_then (if pgno mod 256 = 0 then cancel_check else m_ok ())
     (m_bind m_get (\<lambda>w.
       let n = unat (w_page_size w) in
       if pgno = lock_pgno (w_page_size w) then from_db_loop ev wal pages pgnos enc
       else m_bind (m_lift
              (case map_of pages pgno of
                 Some offset \<Rightarrow> read_full_at wal n (offset + WAL_FRAME_HEADER_SIZE)
               | None \<Rightarrow> read_full_at (w_db w) n ((unat pgno - 1) * n))) (\<lambda>data.
            m_bind (m_lift (ltx_q (encode_page (ev_x ev) enc pgno data))) (\<lambda>enc.
            from_db_loop ev wal pages pgnos enc))))"

definition write_ltx_from_db ::
  "'s env \<Rightarrow> byte list \<Rightarrow> u32 \<Rightarrow> (u32 \<times> nat) list \<Rightarrow> encoder \<Rightarrow> ('s, encoder) wm" where
  "write_ltx_from_db ev wal commit pages enc = from_db_loop ev wal pages (page_numbers commit) enc"

text \<open>The page map is kept in page order, so its keys are sorted already.\<close>

fun from_wal_loop ::
  "'s env \<Rightarrow> byte list \<Rightarrow> nat \<Rightarrow> (u32 \<times> nat) list \<Rightarrow> encoder \<Rightarrow> ('s, encoder) wm" where
  "from_wal_loop ev wal i [] enc = m_ok enc"
| "from_wal_loop ev wal i ((pgno, offset) # pages) enc =
     m_then (if i mod 256 = 0 then cancel_check else m_ok ())
     (m_bind m_get (\<lambda>w.
       m_bind (m_lift (read_full_at wal (unat (w_page_size w)) (offset + WAL_FRAME_HEADER_SIZE))) (\<lambda>data.
       m_bind (m_lift (ltx_q (encode_page (ev_x ev) enc pgno data))) (\<lambda>enc.
       from_wal_loop ev wal (Suc i) pages enc))))"

definition write_ltx_from_wal :: "'s env \<Rightarrow> byte list \<Rightarrow> (u32 \<times> nat) list \<Rightarrow> encoder \<Rightarrow> ('s, encoder) wm" where
  "write_ltx_from_wal ev wal pages enc = from_wal_loop ev wal 0 pages enc"

text \<open>The reader for the resume point; the whole WAL when the resume frame is gone.\<close>

definition open_reader :: "byte list \<Rightarrow> sync_info \<Rightarrow> (sync_info \<times> wal_reader) res" where
  "open_reader wal info =
     (if si_offset info = of_nat WAL_HEADER_SIZE
      then and_then (wal_q (wal_reader_new wal)) (\<lambda>rd. Ok (info, rd))
      else case wal_with_offset wal (unat (si_offset info)) (si_salt1 info) (si_salt2 info) of
             Ok rd \<Rightarrow> Ok (info, rd)
           | Err PrevFrameMismatch \<Rightarrow>
               and_then (wal_q (wal_reader_new wal)) (\<lambda>rd. Ok (info\<lparr>si_offset := of_nat WAL_HEADER_SIZE\<rparr>, rd))
           | Err e \<Rightarrow> Err (EWal e))"

definition consumed_size :: "page_map \<Rightarrow> sync_info \<Rightarrow> u64 res" where
  "consumed_size pm info =
     (if 0 < pm_max_offset pm then
        (if pm_max_offset pm < unat (si_offset info)
         then Err (Other (''wal size must be positive: maxOffset='' @ fmt_dec (pm_max_offset pm) @ '', offset='' @
                fmt_dec (unat (si_offset info))))
         else Ok (of_nat (pm_max_offset pm - unat (si_offset info))))
      else Ok 0)"

definition l0_header :: "u32 \<Rightarrow> u32 \<Rightarrow> txid \<Rightarrow> i64 \<Rightarrow> sync_info \<Rightarrow> u64 \<Rightarrow> wal_reader \<Rightarrow> header" where
  "l0_header page_size commit txid timestamp info sz rd =
     \<lparr>h_flags = HEADER_FLAG_NO_CHECKSUM, h_page_size = page_size, h_commit = commit, h_min_txid = txid,
      h_max_txid = txid, h_timestamp = timestamp, h_pre_apply_checksum = 0, h_wal_offset = si_offset info,
      h_wal_size = sz, h_wal_salt1 = wr_salt1 rd, h_wal_salt2 = wr_salt2 rd, h_node_id = 0\<rparr>"

definition db_commit :: "byte list \<Rightarrow> u32 \<Rightarrow> u32" where
  "db_commit db page_size = of_nat (length db div unat page_size)"

text \<open>Encoding the L0 file and renaming it into place; the temporary file is gone on every path.\<close>

definition write_l0 ::
  "'s env \<Rightarrow> txid \<Rightarrow> sync_info \<Rightarrow> byte list \<Rightarrow> wal_reader \<Rightarrow> page_map \<Rightarrow> u32 \<Rightarrow> u64 \<Rightarrow> ('s, unit) wm" where
  "write_l0 ev txid info wal rd pm commit sz =
     m_then (mod_meta create_dirs)
     (m_bind now_unix_millis (\<lambda>timestamp.
      m_bind m_get (\<lambda>w.
      m_bind (m_lift (ltx_q (encode_header encoder_new
                (l0_header (w_page_size w) commit txid timestamp info sz rd)))) (\<lambda>enc.
      m_bind (if si_snapshotting info then write_ltx_from_db ev wal commit (pm_pages pm) enc
              else write_ltx_from_wal ev wal (pm_pages pm) enc) (\<lambda>enc.
      m_bind (m_lift (ltx_q (encoder_finish (ev_x ev) enc))) (\<lambda>(bytes, _, _).
      mod_meta (l0_put txid bytes)))))))"

definition sync :: "'s env \<Rightarrow> pos \<Rightarrow> sync_info \<Rightarrow> ('s, sync_outcome) wm" where
  "sync ev pos info =
     m_bind m_get (\<lambda>w.
     let result = \<lparr>so_synced = False, so_pos = None, so_new_wal_size = ss_last_synced_wal_offset (w_state w),
                   so_synced_to_wal_end = (ss_synced_to_wal_end (w_state w) \<and> \<not> si_clear_synced_to_wal_end info),
                   so_snapshotted = si_snapshotting info, so_snapshot_reason = si_reason info\<rparr>;
         txid = p_txid pos + 1 in
     m_bind (m_lift (ok_or (w_wal w) (EIo no_such_file))) (\<lambda>wal.
     m_bind (m_lift (open_reader wal info)) (\<lambda>(info, rd).
     let (pm, rd) = wal_page_map rd;
         commit = (if 0 < pm_commit pm then pm_commit pm else db_commit (w_db w) (w_page_size w)) in
     m_bind (m_lift (consumed_size pm info)) (\<lambda>sz.
     if \<not> si_snapshotting info \<and> sz = 0 then m_ok (result\<lparr>so_new_wal_size := si_offset info\<rparr>)
     else m_then (write_l0 ev txid info wal rd pm commit sz)
       (m_bind m_get (\<lambda>w.
        let final_offset = si_offset info + sz in
        m_ok (result\<lparr>so_synced := True, so_pos := Some \<lparr>p_txid = txid, p_post_apply_checksum = 0\<rparr>,
                     so_new_wal_size := final_offset,
                     so_synced_to_wal_end := (final_offset = wal_file_size (w_wal w))\<rparr>)))))))"

definition verify_and_sync :: "'s env \<Rightarrow> ('s, sync_outcome) wm" where
  "verify_and_sync ev =
     m_bind (writer_pos ev) (\<lambda>pos.
     m_bind m_get (\<lambda>w.
     m_bind (m_lift (verify (ev_x ev) (w_meta w) (w_wal w) (w_page_size w) (p_txid pos) (w_state w))) (\<lambda>info.
     sync ev pos info)))"

definition apply_sync_outcome :: "sync_outcome \<Rightarrow> ('s, unit) wm" where
  "apply_sync_outcome out =
     m_mod (\<lambda>w. w\<lparr>w_state := (w_state w)\<lparr>ss_last_synced_wal_offset := so_new_wal_size out,
                                       ss_synced_to_wal_end := so_synced_to_wal_end out\<rparr>,
                  w_cached_pos := (case so_pos out of Some p \<Rightarrow> Some p | None \<Rightarrow> w_cached_pos w),
                  w_meta := write_sync_state (so_new_wal_size out) (w_meta w)\<rparr>)"

section \<open>The lineage check\<close>

definition rebaseline_from_remote :: "'s env \<Rightarrow> file_info \<Rightarrow> ('s, unit) wm" where
  "rebaseline_from_remote ev remote =
     m_then cancel_check
     (m_then (mod_meta clear_l0)
     (m_then invalidate_pos
     (m_bind m_get (\<lambda>w.
      m_bind (m_lift (st_q (open_ltx_file (ev_client ev) (w_client w) 0 (fi_min_txid remote) (fi_max_txid remote) 0 0))) (\<lambda>d.
      m_then (mod_meta (l0_put (fi_max_txid remote) d))
      (m_then invalidate_pos
       (m_mod (\<lambda>w. w\<lparr>w_state := (w_state w)\<lparr>ss_synced_to_wal_end := False\<rparr>\<rparr>))))))))"

definition opt_max_txid :: "file_info option \<Rightarrow> txid" where
  "opt_max_txid f = (case f of None \<Rightarrow> 0 | Some f \<Rightarrow> fi_max_txid f)"

definition ensure_lineage_checked :: "'s env \<Rightarrow> ('s, unit) wm" where
  "ensure_lineage_checked ev =
     m_bind m_get (\<lambda>w.
     if w_lineage_checked w then m_ok ()
     else m_then cancel_check
     (m_bind (client_max ev 0) (\<lambda>remote.
      let remote_max = opt_max_txid remote;
          foreign = (if w_verified_pos_provisional w then w_verified_pos w < remote_max
                     else remote_max \<noteq> w_verified_pos w) in
      m_then
        (if foreign then
           m_then (case remote of
                     Some r \<Rightarrow> rebaseline_from_remote ev r
                   | None \<Rightarrow>
                       m_then (mod_meta clear_l0)
                       (m_then invalidate_pos
                        (m_mod (\<lambda>w. w\<lparr>w_state := (w_state w)\<lparr>ss_synced_to_wal_end := False\<rparr>\<rparr>))))
             (m_mod (\<lambda>w. w\<lparr>w_verified_pos := remote_max, w_meta := write_verified_pos remote_max (w_meta w)\<rparr>))
         else
           m_mod (\<lambda>w. w\<lparr>w_verified_pos := remote_max,
                        w_meta := (if read_verified_pos (w_meta w) \<noteq> Some remote_max
                                   then write_verified_pos remote_max (w_meta w) else w_meta w)\<rparr>))
        (m_mod (\<lambda>w. w\<lparr>w_verified_pos_provisional := False, w_remote_txid := Some remote_max,
                     w_lineage_checked := True\<rparr>)))))"

section \<open>Upload\<close>

definition foreign_writer_msg :: "txid \<Rightarrow> txid \<Rightarrow> string" where
  "foreign_writer_msg t v =
     ''bucket moved outside this session's verified position (bucket at '' @ txid_display t @
     '', session verified '' @ txid_display v @
     ''): foreign writer suspected; the next push re-runs the lineage check''"

text \<open>The bucket position: the session's cursor, or a fresh listing that must equal what was verified.\<close>

definition remote_cursor :: "'s env \<Rightarrow> ('s, txid) wm" where
  "remote_cursor ev =
     m_bind m_get (\<lambda>w.
     case w_remote_txid w of
       Some t \<Rightarrow> m_ok t
     | None \<Rightarrow>
         m_bind (client_max ev 0) (\<lambda>f.
         let t = opt_max_txid f in
         if t \<noteq> w_verified_pos w
         then m_then (m_mod (\<lambda>w. w\<lparr>w_lineage_checked := False\<rparr>))
                (m_err (Other (foreign_writer_msg t (w_verified_pos w))))
         else m_then (m_mod (\<lambda>w. w\<lparr>w_remote_txid := Some t\<rparr>)) (m_ok t)))"

text \<open>One file: \<open>cursor + 1\<close> goes to the bucket, and the verified position advances with it.\<close>

definition upload_one :: "'s env \<Rightarrow> txid \<Rightarrow> ('s, nat) wm" where
  "upload_one ev nxt =
     m_try cancel_check (\<lambda>r.
     case r of
       Err e \<Rightarrow> m_then (m_mod (\<lambda>w. w\<lparr>w_remote_txid := None\<rparr>)) (m_err e)
     | Ok _ \<Rightarrow>
         m_bind m_get (\<lambda>w.
         case l0_open (w_meta w) nxt of
           None \<Rightarrow>
             m_then (m_mod (\<lambda>w. w\<lparr>w_remote_txid := None\<rparr>))
               (m_err (LocalLtx nxt (''open '' @ path_debug (l0_path (md_root (w_meta w)) nxt) @ '': '' @
                  message no_such_file)))
         | Some d \<Rightarrow>
             m_try (client_write ev 0 nxt nxt d) (\<lambda>r.
             case r of
               Err e \<Rightarrow> m_then (m_mod (\<lambda>w. w\<lparr>w_remote_txid := None\<rparr>)) (m_err e)
             | Ok _ \<Rightarrow>
                 m_then (m_mod (\<lambda>w. w\<lparr>w_remote_txid := Some nxt\<rparr>))
                 (m_then (m_mod (\<lambda>w. if w_verified_pos w < nxt
                                    then w\<lparr>w_verified_pos := nxt, w_meta := write_verified_pos nxt (w_meta w)\<rparr> else w))
                  (m_ok (length d))))))"

function upload_loop :: "'s env \<Rightarrow> txid \<Rightarrow> txid \<Rightarrow> nat \<Rightarrow> nat \<Rightarrow> ('s, nat \<times> nat \<times> txid) wm" where
  "upload_loop ev local cursor uploaded bytes =
     (if cursor < local then
        m_bind (upload_one ev (cursor + 1)) (\<lambda>sz. upload_loop ev local (cursor + 1) (uploaded + 1) (bytes + sz))
      else m_ok (uploaded, bytes, cursor))"
  by pat_completeness auto
termination
  by (relation "measure (\<lambda>(ev, local, cursor, n, b). unat local - unat cursor)")
     (auto simp: unat_Suc_no_wrap word_less_unat)

declare upload_loop.simps [simp del]

definition upload :: "'s env \<Rightarrow> ('s, nat \<times> nat \<times> txid) wm" where
  "upload ev =
     m_bind (remote_cursor ev) (\<lambda>remote.
     m_bind (writer_pos ev) (\<lambda>p.
     upload_loop ev (p_txid p) remote 0 0))"

section \<open>Checkpoints\<close>

definition exec_checkpoint :: "'s env \<Rightarrow> checkpoint_mode \<Rightarrow> ('s, unit) wm" where
  "exec_checkpoint ev mode =
     m_then (lock_release ev)
     (m_try (exec_sql ev (SqlCheckpoint (as_sql mode))) (\<lambda>checkpoint_result.
      m_try (lock_acquire ev) (\<lambda>reacquire.
      m_then (m_lift checkpoint_result) (m_lift reacquire))))"

text \<open>A call with a token of its own that never cancels.\<close>

definition uncancelled :: "('s, 'a) wm \<Rightarrow> ('s, 'a) wm" where
  "uncancelled m w = (case m (w\<lparr>w_cancel := token_new\<rparr>) of (r, w') \<Rightarrow> (r, w'\<lparr>w_cancel := w_cancel w\<rparr>))"

definition sync_and_apply :: "'s env \<Rightarrow> ('s, unit) wm" where
  "sync_and_apply ev = m_bind (verify_and_sync ev) apply_sync_outcome"

definition checkpoint_done :: "('s, unit) wm" where
  "checkpoint_done = m_mod (\<lambda>w. w\<lparr>w_state := (w_state w)\<lparr>ss_synced_since_checkpoint := False\<rparr>\<rparr>)"

definition checkpoint :: "'s env \<Rightarrow> checkpoint_mode \<Rightarrow> ('s, unit) wm" where
  "checkpoint ev mode =
     m_bind m_get (\<lambda>w.
     m_bind (m_lift (read_wal_header (w_wal w))) (\<lambda>hdr_before.
     m_then (uncancelled (sync_and_apply ev))
     (m_then (exec_checkpoint ev mode)
     (m_then (write_seq ev)
     (m_bind m_get (\<lambda>w.
      m_bind (m_lift (read_wal_header (w_wal w))) (\<lambda>hdr_after.
      if hdr_before = hdr_after then checkpoint_done
      else m_then (exec_sql ev SqlBegin)
        (m_try (m_then (exec_sql ev SqlInsertLock) (uncancelled (sync_and_apply ev))) (\<lambda>result.
         m_try (exec_sql ev SqlRollback) (\<lambda>rollback.
         m_then (m_lift result)
         (m_then (m_lift rollback) checkpoint_done)))))))))))"

definition checkpoint_if_needed :: "'s env \<Rightarrow> u64 \<Rightarrow> u64 \<Rightarrow> ('s, bool) wm" where
  "checkpoint_if_needed ev orig_wal_size new_wal_size =
     m_bind m_get (\<lambda>w.
     if w_page_size w = 0 then m_ok False
     else if 0 < wo_truncate_page_n (w_opts w) \<and>
             calc_wal_size (w_page_size w) (unat (wo_truncate_page_n (w_opts w))) \<le> unat orig_wal_size
     then m_then (checkpoint ev Truncate) (m_ok True)
     else if calc_wal_size (w_page_size w) (unat (wo_min_checkpoint_page_n (w_opts w))) \<le> unat new_wal_size
     then m_try (checkpoint ev Passive) (\<lambda>r.
            case r of
              Ok _ \<Rightarrow> m_ok True
            | Err e \<Rightarrow> if is_busy_error ev e then m_ok False else m_err e)
     else m_ok False)"

section \<open>Push, reset, open\<close>

definition ensure_wal_exists :: "'s env \<Rightarrow> ('s, unit) wm" where
  "ensure_wal_exists ev =
     m_bind m_get (\<lambda>w.
     case w_wal w of
       Some wal \<Rightarrow> if WAL_HEADER_SIZE \<le> length wal then m_ok () else write_seq ev
     | None \<Rightarrow> write_seq ev)"

definition push_with :: "'s env \<Rightarrow> cancel_token \<Rightarrow> ('s, push_result) wm" where
  "push_with ev cancel =
     m_then (set_cancel cancel)
     (m_then cancel_check
     (m_then (ensure_wal_exists ev)
     (m_bind m_get (\<lambda>w.
      let orig_wal_size = (if 0 < ss_last_synced_wal_offset (w_state w) then ss_last_synced_wal_offset (w_state w)
                           else wal_file_size (w_wal w)) in
      m_bind (verify_and_sync ev) (\<lambda>out.
      m_then (apply_sync_outcome out)
      (m_then (if so_synced out
               then m_mod (\<lambda>w. w\<lparr>w_state := (w_state w)\<lparr>ss_synced_since_checkpoint := True\<rparr>\<rparr>) else m_ok ())
      (m_then cancel_check
      (m_bind (if wo_auto_checkpoint (w_opts w) then checkpoint_if_needed ev orig_wal_size (so_new_wal_size out)
               else m_ok False) (\<lambda>checkpointed.
      m_then (ensure_lineage_checked ev)
      (m_bind (upload ev) (\<lambda>(uploaded, bytes_uploaded, remote_txid).
      m_then (mod_meta (\<lambda>m. prune_l0 m remote_txid))
      (m_bind (writer_pos ev) (\<lambda>p.
      m_ok \<lparr>pr_txid = p_txid p, pr_synced = so_synced out, pr_uploaded = uploaded, pr_remote_txid = remote_txid,
            pr_checkpointed = checkpointed, pr_snapshotted = so_snapshotted out,
            pr_snapshot_reason = so_snapshot_reason out, pr_bytes_uploaded = bytes_uploaded\<rparr>)))))))))))))"

definition push :: "'s env \<Rightarrow> ('s, push_result) wm" where
  "push ev = push_with ev token_new"

definition reset_local :: "('s, unit) wm" where
  "reset_local =
     m_mod (\<lambda>w. w\<lparr>w_verified_pos := 0, w_meta := clear_l0 (write_verified_pos 0 (w_meta w)),
                  w_verified_pos_provisional := False, w_lineage_checked := False, w_cached_pos := None,
                  w_remote_txid := None, w_state := (w_state w)\<lparr>ss_synced_to_wal_end := False\<rparr>\<rparr>)"

text \<open>The lineage baseline \<open>open\<close> starts from.\<close>

definition lineage_baseline :: "meta_dir \<Rightarrow> txid \<times> bool \<times> meta_dir" where
  "lineage_baseline m =
     (case read_verified_pos m of
        Some t \<Rightarrow> (t, False, m)
      | None \<Rightarrow>
          (case max_l0_txid m of
             Some t \<Rightarrow> (t, True, m)
           | None \<Rightarrow> (0, False, write_verified_pos 0 m)))"

definition enable_wal :: "'s env \<Rightarrow> ('s, unit) wm" where
  "enable_wal ev =
     m_then (exec_sql ev SqlEnableWal)
     (m_bind m_get (\<lambda>w.
      m_bind (m_lift (sql_journal_mode (ev_sql ev) (w_db w, w_wal w))) (\<lambda>mode.
      if mode \<noteq> ''wal'' then m_err (EnableWalFailed mode) else m_ok ())))"

text \<open>
  \<open>Writer::open\<close> on the files \<open>db\<close> (\<open>None\<close> when the database does not exist) and \<open>wal\<close>, the meta
  directory found on disk and the backend's state.  The fields that \<open>open\<close> computes last are filled
  with their defaults while the connections are set up.
\<close>

definition writer_init ::
  "byte list \<Rightarrow> byte list option \<Rightarrow> meta_dir \<Rightarrow> 's \<Rightarrow> writer_options \<Rightarrow> (nat \<Rightarrow> i64) \<Rightarrow> 's writer" where
  "writer_init db wal meta s opts clock =
     \<lparr>w_db = db, w_wal = wal, w_meta = remove_tmp_files (create_dirs meta), w_page_size = 0, w_client = s,
      w_opts = opts,
      w_state = \<lparr>ss_last_synced_wal_offset = 0, ss_synced_to_wal_end = False, ss_synced_since_checkpoint = False\<rparr>,
      w_cached_pos = None, w_remote_txid = None, w_verified_pos = 0, w_verified_pos_provisional = False,
      w_lineage_checked = False, w_read_lock = False, w_cancel = token_new, w_clock = clock\<rparr>"

definition open_steps :: "'s env \<Rightarrow> ('s, unit) wm" where
  "open_steps ev =
     m_then (enable_wal ev)
     (m_then (exec_sql ev SqlCreateMetaTables)
     (m_then (lock_acquire ev)
     (m_bind m_get (\<lambda>w.
      m_bind (m_lift (sql_page_size (ev_sql ev) (w_db w, w_wal w))) (\<lambda>page_size.
      if page_size = 0 then m_err (Other ''invalid db page size'')
      else m_then (m_mod (\<lambda>w.
          case lineage_baseline (w_meta w) of
            (t, provisional, meta) \<Rightarrow>
              w\<lparr>w_page_size := page_size,
                w_state := (w_state w)\<lparr>ss_last_synced_wal_offset := read_sync_state (w_meta w)\<rparr>,
                w_verified_pos := t, w_verified_pos_provisional := provisional, w_meta := meta\<rparr>))
        (ensure_wal_exists ev))))))"

definition writer_open ::
  "'s env \<Rightarrow> path \<Rightarrow> byte list option \<Rightarrow> byte list option \<Rightarrow> meta_dir \<Rightarrow> 's \<Rightarrow> writer_options \<Rightarrow> (nat \<Rightarrow> i64) \<Rightarrow>
   's writer res" where
  "writer_open ev db_path db wal meta s opts clock =
     (case db of
        None \<Rightarrow> Err (Other (''database file does not exist: '' @ path_debug db_path))
      | Some db \<Rightarrow>
          (case open_steps ev (writer_init db wal meta s opts clock) of
             (Err e, _) \<Rightarrow> Err e
           | (Ok _, w) \<Rightarrow> Ok w))"

end
