(* ===== verification/Compactor.thy ===== *)
theory Compactor
  imports LtxFile
begin

text \<open>
  Model of \<open>crates/ltx/src/compactor.rs\<close>: the k-way merge of LTX files, oldest input first.  The
  second half relates the buffered merge over decoders to a merge of page lists and shows what the
  merged file holds: per page the newest input's copy, nothing beyond the final commit size.
\<close>

section \<open>Inputs\<close>

record cinput =
  ci_dec :: decoder
  ci_hdr :: "page_header option"
  ci_data :: "byte list"
  ci_done :: bool

definition cinput_new :: "reader \<Rightarrow> cinput" where
  "cinput_new r = \<lparr>ci_dec = decoder_new r, ci_hdr = None, ci_data = [], ci_done = False\<rparr>"

section \<open>Operations\<close>

text \<open>One input's share of \<open>fill_page_buffers\<close>: read a page when the buffer is empty.\<close>

definition fill_input :: "externs \<Rightarrow> nat \<Rightarrow> cinput \<Rightarrow> cinput ltx_result" where
  "fill_input x i inp =
     (if ci_hdr inp = None \<and> \<not> ci_done inp then
        (case decode_page x (ci_dec inp) (length (ci_data inp)) of
           Ok (Some (hdr, data), dec) \<Rightarrow> Ok (inp\<lparr>ci_hdr := Some hdr, ci_data := data, ci_dec := dec\<rparr>)
         | Ok (None, dec) \<Rightarrow> Ok (inp\<lparr>ci_done := True, ci_dec := dec\<rparr>)
         | Err e \<Rightarrow> Err (Invalid (''read page header '' @ fmt_dec i @ '': '' @ ltx_error_display e)))
      else Ok inp)"

definition lower_pgno :: "cinput \<Rightarrow> u32 \<Rightarrow> u32" where
  "lower_pgno inp pgno =
     (case ci_hdr inp of
        None \<Rightarrow> pgno
      | Some hdr \<Rightarrow> if pgno = 0 \<or> ph_pgno hdr < pgno then ph_pgno hdr else pgno)"

fun fill_page_buffers :: "externs \<Rightarrow> nat \<Rightarrow> u32 \<Rightarrow> cinput list \<Rightarrow> (u32 \<times> cinput list) ltx_result" where
  "fill_page_buffers x i pgno [] = Ok (pgno, [])"
| "fill_page_buffers x i pgno (inp # inps) =
     and_then (fill_input x i inp) (\<lambda>inp.
     and_then (fill_page_buffers x (i + 1) (lower_pgno inp pgno) inps) (\<lambda>(pgno, inps).
       Ok (pgno, inp # inps)))"

text \<open>\<open>write_page_buffer\<close> on the inputs newest first.\<close>

fun write_page_inputs ::
  "externs \<Rightarrow> u32 \<Rightarrow> u32 \<Rightarrow> bool \<Rightarrow> encoder \<Rightarrow> cinput list \<Rightarrow> (encoder \<times> cinput list) ltx_result" where
  "write_page_inputs x pgno commit page_written enc [] = Ok (enc, [])"
| "write_page_inputs x pgno commit page_written enc (inp # inps) =
     (case ci_hdr inp of
        Some hdr \<Rightarrow>
          if ph_pgno hdr \<noteq> pgno then
            and_then (write_page_inputs x pgno commit page_written enc inps) (\<lambda>(enc, inps). Ok (enc, inp # inps))
          else let inp = inp\<lparr>ci_hdr := None\<rparr> in
            if page_written \<or> commit < pgno then
              and_then (write_page_inputs x pgno commit page_written enc inps) (\<lambda>(enc, inps). Ok (enc, inp # inps))
            else
              and_then (map_err (\<lambda>e. Invalid (''copy page '' @ fmt_dec (unat pgno) @ '' header: '' @ ltx_error_display e))
                         (encode_page x enc (ph_pgno hdr) (ci_data inp))) (\<lambda>enc.
              and_then (write_page_inputs x pgno commit True enc inps) (\<lambda>(enc, inps). Ok (enc, inp # inps)))
      | None \<Rightarrow>
          and_then (write_page_inputs x pgno commit page_written enc inps) (\<lambda>(enc, inps). Ok (enc, inp # inps)))"

definition write_page_buffer ::
  "externs \<Rightarrow> encoder \<Rightarrow> u32 \<Rightarrow> cinput list \<Rightarrow> (encoder \<times> cinput list) ltx_result" where
  "write_page_buffer x enc pgno inps =
     and_then (write_page_inputs x pgno (h_commit (e_header enc)) False enc (rev inps)) (\<lambda>(enc, inps).
       Ok (enc, rev inps))"

subsection \<open>Termination of the merge loop\<close>

definition input_size :: "cinput \<Rightarrow> nat" where
  "input_size inp = 2 * length (d_r (ci_dec inp)) + (if ci_hdr inp = None then 0 else 1)"

definition inputs_size :: "cinput list \<Rightarrow> nat" where
  "inputs_size inps = sum_list (map input_size inps)"

lemma decode_page_None_consumes: "decode_page x d n = Ok (None, d') \<Longrightarrow> length (d_r d') \<le> length (d_r d)"
  by (auto simp: decode_page_def and_then_eq_Ok Let_def write_to_hash_def
      dest!: read_exact_into_consumes split: decoder_state.splits if_splits)

lemma fill_input_size: "fill_input x i inp = Ok inp' \<Longrightarrow> input_size inp' \<le> input_size inp"
  by (auto simp: fill_input_def input_size_def
      dest!: decode_page_consumes decode_page_None_consumes split: if_splits result.splits option.splits)

lemma fill_page_buffers_size:
  "fill_page_buffers x i pgno inps = Ok (pgno', inps') \<Longrightarrow> inputs_size inps' \<le> inputs_size inps"
proof (induction inps arbitrary: i pgno inps')
  case (Cons inp inps)
  then obtain inp1 inps1 where "fill_input x i inp = Ok inp1" "inps' = inp1 # inps1"
    "fill_page_buffers x (i + 1) (lower_pgno inp1 pgno) inps = Ok (pgno', inps1)"
    by (auto simp: and_then_eq_Ok)
  with Cons.IH show ?case by (fastforce simp: inputs_size_def dest: fill_input_size)
qed (simp add: inputs_size_def)

definition buffered :: "cinput \<Rightarrow> u32 option" where
  "buffered inp = map_option ph_pgno (ci_hdr inp)"

lemma fill_page_buffers_lowest:
  assumes "fill_page_buffers x i pgno inps = Ok (pgno', inps')"
  shows "pgno' = pgno \<or> (\<exists>inp \<in> set inps'. buffered inp = Some pgno')"
  using assms
proof (induction inps arbitrary: i pgno inps')
  case (Cons inp inps)
  then obtain inp1 inps1 where inp1: "fill_input x i inp = Ok inp1" "inps' = inp1 # inps1"
    and rest: "fill_page_buffers x (i + 1) (lower_pgno inp1 pgno) inps = Ok (pgno', inps1)"
    by (auto simp: and_then_eq_Ok)
  have "lower_pgno inp1 pgno = pgno \<or> buffered inp1 = Some (lower_pgno inp1 pgno)"
    by (auto simp: lower_pgno_def buffered_def split: option.splits)
  with Cons.IH [OF rest] inp1(2) show ?case by auto
qed simp

text \<open>Writing a page empties every buffer that holds it and leaves the others alone.\<close>

definition take_page :: "u32 \<Rightarrow> cinput \<Rightarrow> cinput" where
  "take_page pgno inp = (if buffered inp = Some pgno then inp\<lparr>ci_hdr := None\<rparr> else inp)"

lemma write_page_inputs_take:
  "write_page_inputs x pgno commit pw enc inps = Ok (enc', inps') \<Longrightarrow> inps' = map (take_page pgno) inps"
proof (induction inps arbitrary: pw enc inps')
  case (Cons inp inps)
  show ?case
  proof (cases "ci_hdr inp")
    case None
    with Cons show ?thesis by (auto simp: and_then_eq_Ok take_page_def buffered_def)
  next
    case (Some hdr)
    with Cons show ?thesis
      by (cases "ph_pgno hdr = pgno"; cases "pw \<or> commit < pgno")
         (auto simp: and_then_eq_Ok map_err_eq_Ok take_page_def buffered_def Let_def)
  qed
qed simp

lemma write_page_buffer_take:
  "write_page_buffer x enc pgno inps = Ok (enc', inps') \<Longrightarrow> inps' = map (take_page pgno) inps"
  by (auto simp: write_page_buffer_def and_then_eq_Ok rev_map dest!: write_page_inputs_take)

lemma input_size_take_le: "input_size (take_page pgno inp) \<le> input_size inp"
  by (simp add: take_page_def input_size_def)

lemma inputs_size_take:
  assumes "inp \<in> set inps" and "buffered inp = Some pgno"
  shows "inputs_size (map (take_page pgno) inps) < inputs_size inps"
  using assms
proof (induction inps)
  case (Cons i inps)
  have le: "inputs_size (map (take_page pgno) inps) \<le> inputs_size inps"
    unfolding inputs_size_def map_map comp_def by (rule sum_list_mono) (rule input_size_take_le)
  show ?case
  proof (cases "i = inp")
    case True
    then have "input_size (take_page pgno i) < input_size i"
      using Cons.prems by (auto simp: take_page_def input_size_def buffered_def)
    with le show ?thesis by (simp add: inputs_size_def)
  next
    case False
    with Cons input_size_take_le [of pgno i] show ?thesis by (auto simp: inputs_size_def intro: add_le_less_mono)
  qed
qed simp

function compact_loop :: "externs \<Rightarrow> cinput list \<Rightarrow> encoder \<Rightarrow> (cinput list \<times> encoder) ltx_result" where
  "compact_loop x inps enc =
     and_then (fill_page_buffers x 0 0 inps) (\<lambda>(pgno, inps).
       if pgno = 0 then Ok (inps, enc)
       else and_then (write_page_buffer x enc pgno inps) (\<lambda>(enc, inps). compact_loop x inps enc))"
  by pat_completeness auto
termination
proof (relation "measure (\<lambda>(x, inps, enc). inputs_size inps)", simp, clarsimp)
  fix x and inps :: "cinput list" and enc pgno inps1 enc1 inps2
  assume fill: "fill_page_buffers x 0 0 inps = Ok (pgno, inps1)" and "pgno \<noteq> 0"
    and "write_page_buffer x enc pgno inps1 = Ok (enc1, inps2)"
  then have "inps2 = map (take_page pgno) inps1" by (simp add: write_page_buffer_take)
  moreover obtain inp where "inp \<in> set inps1" "buffered inp = Some pgno"
    using fill_page_buffers_lowest [OF fill] \<open>pgno \<noteq> 0\<close> by auto
  ultimately have "inputs_size inps2 < inputs_size inps1" by (simp add: inputs_size_take)
  with fill_page_buffers_size [OF fill] show "inputs_size inps2 < inputs_size inps" by linarith
qed

declare compact_loop.simps [simp del]

text \<open>The checks between consecutive inputs, the output header and the whole merge.\<close>

fun check_inputs :: "bool \<Rightarrow> header list \<Rightarrow> unit ltx_result" where
  "check_inputs allow (prev # cur # hs) =
     (if h_page_size prev \<noteq> h_page_size cur
      then Err (Invalid (''input files have mismatched page sizes: '' @ fmt_dec (unat (h_page_size prev)) @
             '' != '' @ fmt_dec (unat (h_page_size cur))))
      else if \<not> allow \<and> \<not> is_contiguous (h_max_txid prev) (h_min_txid cur) (h_max_txid cur)
      then Err (Invalid (''non-contiguous transaction ids in input files: ('' @ txid_display (h_min_txid prev) @
             '','' @ txid_display (h_max_txid prev) @ '') -> ('' @ txid_display (h_min_txid cur) @ '','' @
             txid_display (h_max_txid cur) @ '')''))
      else check_inputs allow (cur # hs))"
| "check_inputs allow hs = Ok ()"

definition compact_header :: "u32 \<Rightarrow> header \<Rightarrow> header \<Rightarrow> header" where
  "compact_header flags min_hdr max_hdr =
     \<lparr>h_flags = flags, h_page_size = h_page_size min_hdr, h_commit = h_commit max_hdr,
      h_min_txid = h_min_txid min_hdr, h_max_txid = h_max_txid max_hdr,
      h_timestamp = h_timestamp max_hdr, h_pre_apply_checksum = h_pre_apply_checksum min_hdr,
      h_wal_offset = 0, h_wal_size = 0, h_wal_salt1 = 0, h_wal_salt2 = 0, h_node_id = 0\<rparr>"

fun decode_headers :: "cinput list \<Rightarrow> cinput list ltx_result" where
  "decode_headers [] = Ok []"
| "decode_headers (inp # inps) =
     and_then (decode_header (ci_dec inp)) (\<lambda>dec.
     and_then (decode_headers inps) (\<lambda>inps. Ok (inp\<lparr>ci_dec := dec\<rparr> # inps)))"

fun finish_inputs :: "externs \<Rightarrow> nat \<Rightarrow> cinput list \<Rightarrow> trailer list ltx_result" where
  "finish_inputs x i [] = Ok []"
| "finish_inputs x i (inp # inps) =
     and_then (map_err (\<lambda>e. Invalid (''close reader '' @ fmt_dec i @ '': '' @ ltx_error_display e))
                (decoder_finish x (ci_dec inp))) (\<lambda>(r, h, trl, idx).
     and_then (finish_inputs x (i + 1) inps) (\<lambda>ts. Ok (trl # ts)))"

definition compact ::
  "externs \<Rightarrow> u32 \<Rightarrow> bool \<Rightarrow> reader list \<Rightarrow> (byte list \<times> header \<times> trailer) ltx_result" where
  "compact x header_flags allow_non_contiguous rdrs =
     (if rdrs = [] then Err (Invalid ''at least one input reader required'')
      else and_then (decode_headers (map cinput_new rdrs)) (\<lambda>inps.
        let hs = map (d_header \<circ> ci_dec) inps in
        and_then (check_inputs allow_non_contiguous hs) (\<lambda>_.
        let out_hdr = compact_header header_flags (hd hs) (last hs) in
        and_then (encode_header encoder_new out_hdr) (\<lambda>enc.
        let inps = map (ci_data_update (\<lambda>_. replicate (unat (h_page_size out_hdr)) 0)) inps in
        and_then (compact_loop x inps enc) (\<lambda>(inps, enc).
        and_then (finish_inputs x 0 inps) (\<lambda>ts.
        encoder_finish x (set_post_apply_checksum enc (t_post_apply_checksum (last ts)))))))))"

section \<open>Merging page lists\<close>

text \<open>
  The merge over lists of pages: the lowest first page number is emitted from the newest list that
  starts with it and dropped from every list that starts with it.
\<close>

type_synonym pages = "(u32 \<times> byte list) list"

definition head_pgno :: "pages \<Rightarrow> u32 option" where
  "head_pgno ps = (case ps of [] \<Rightarrow> None | p # _ \<Rightarrow> Some (fst p))"

fun lowest_pgno :: "u32 \<Rightarrow> pages list \<Rightarrow> u32" where
  "lowest_pgno pgno [] = pgno"
| "lowest_pgno pgno (ps # pss) =
     lowest_pgno (case head_pgno ps of None \<Rightarrow> pgno | Some k \<Rightarrow> if pgno = 0 \<or> k < pgno then k else pgno) pss"

definition drop_page :: "u32 \<Rightarrow> pages \<Rightarrow> pages" where
  "drop_page k ps = (if head_pgno ps = Some k then tl ps else ps)"

fun newest_page :: "u32 \<Rightarrow> pages list \<Rightarrow> byte list option" where
  "newest_page k [] = None"
| "newest_page k (ps # pss) =
     (case newest_page k pss of
        Some d \<Rightarrow> Some d
      | None \<Rightarrow> (if head_pgno ps = Some k then Some (snd (hd ps)) else None))"

lemma lowest_pgno_cases:
  "lowest_pgno k pss = k \<or> (\<exists>ps \<in> set pss. head_pgno ps = Some (lowest_pgno k pss))"
proof (induction pss arbitrary: k)
  case (Cons ps pss)
  let ?k = "case head_pgno ps of None \<Rightarrow> k | Some j \<Rightarrow> if k = 0 \<or> j < k then j else k"
  have "?k = k \<or> head_pgno ps = Some ?k" by (auto split: option.splits)
  with Cons.IH [of ?k] show ?case by auto
qed simp

lemma drop_page_length: "length (drop_page k ps) \<le> length ps"
  by (simp add: drop_page_def)

lemma drop_page_shrinks:
  assumes "ps \<in> set pss" and "head_pgno ps = Some k"
  shows "sum_list (map length (map (drop_page k) pss)) < sum_list (map length pss)"
  using assms
proof (induction pss)
  case (Cons qs pss)
  have le: "sum_list (map length (map (drop_page k) pss)) \<le> sum_list (map length pss)"
    unfolding map_map comp_def by (rule sum_list_mono) (rule drop_page_length)
  show ?case
  proof (cases "qs = ps")
    case True
    then have "length (drop_page k qs) < length qs"
      using Cons.prems by (cases qs) (auto simp: drop_page_def head_pgno_def)
    with le show ?thesis by simp
  next
    case False
    with Cons drop_page_length [of k qs] show ?thesis by (auto intro: add_le_less_mono)
  qed
qed simp

function merge_pages :: "u32 \<Rightarrow> pages list \<Rightarrow> pages" where
  "merge_pages commit pss =
     (let k = lowest_pgno 0 pss
      in if k = 0 then []
         else (if k \<le> commit then [(k, the (newest_page k pss))] else []) @
              merge_pages commit (map (drop_page k) pss))"
  by pat_completeness auto
termination
proof (relation "measure (\<lambda>(commit, pss). sum_list (map length pss))")
  fix commit :: u32 and pss :: "pages list" and k :: u32
  assume k: "k = lowest_pgno 0 pss" and "k \<noteq> 0"
  with lowest_pgno_cases [of 0 pss] obtain ps where "ps \<in> set pss" "head_pgno ps = Some k"
    by auto
  then show "((commit, map (drop_page k) pss), (commit, pss)) \<in> measure (\<lambda>(commit, pss). sum_list (map length pss))"
    using drop_page_shrinks by simp
qed simp

declare merge_pages.simps [simp del]

lemma merge_pages_nil: "lowest_pgno 0 pss = 0 \<Longrightarrow> merge_pages commit pss = []"
  by (simp add: merge_pages.simps [of commit pss])

lemma newest_page_lowest:
  assumes "lowest_pgno 0 pss \<noteq> 0"
  shows "newest_page (lowest_pgno 0 pss) pss \<noteq> None"
proof -
  define k where "k = lowest_pgno 0 pss"
  obtain ps where "ps \<in> set pss" "head_pgno ps = Some k"
    using lowest_pgno_cases [of 0 pss] assms by (auto simp: k_def)
  then have "newest_page k pss \<noteq> None" by (induction pss) (auto split: option.splits)
  then show ?thesis by (simp add: k_def)
qed

subsection \<open>What the merge holds\<close>

definition ascending :: "pages \<Rightarrow> bool" where
  "ascending ps \<longleftrightarrow> sorted_wrt (<) (0 # map fst ps)"

text \<open>The newest version of every page over a sequence of files, oldest first.\<close>

fun overlay :: "pages list \<Rightarrow> u32 \<Rightarrow> byte list option" where
  "overlay [] = Map.empty"
| "overlay (ps # pss) = map_of ps ++ overlay pss"

lemma overlay_append: "overlay (pss @ qss) = overlay pss ++ overlay qss"
  by (induction pss) simp_all

lemma lowest_pgno_le:
  assumes "\<forall>ps \<in> set pss. head_pgno ps \<noteq> Some 0"
  shows "(k \<noteq> 0 \<longrightarrow> lowest_pgno k pss \<noteq> 0 \<and> lowest_pgno k pss \<le> k) \<and>
    (\<forall>ps \<in> set pss. \<forall>j. head_pgno ps = Some j \<longrightarrow> lowest_pgno k pss \<noteq> 0 \<and> lowest_pgno k pss \<le> j)"
  using assms
proof (induction pss arbitrary: k)
  case (Cons ps pss)
  define k' where "k' = (case head_pgno ps of None \<Rightarrow> k | Some j \<Rightarrow> if k = 0 \<or> j < k then j else k)"
  have k: "k \<noteq> 0 \<longrightarrow> k' \<noteq> 0 \<and> k' \<le> k" and j: "\<forall>j. head_pgno ps = Some j \<longrightarrow> k' \<noteq> 0 \<and> k' \<le> j"
    using Cons.prems by (auto simp: k'_def split: option.splits)
  have low: "lowest_pgno k (ps # pss) = lowest_pgno k' pss" by (simp add: k'_def)
  have ih: "(k' \<noteq> 0 \<longrightarrow> lowest_pgno k' pss \<noteq> 0 \<and> lowest_pgno k' pss \<le> k') \<and>
    (\<forall>ps \<in> set pss. \<forall>j. head_pgno ps = Some j \<longrightarrow> lowest_pgno k' pss \<noteq> 0 \<and> lowest_pgno k' pss \<le> j)"
    using Cons.prems by (intro Cons.IH) auto
  show ?case unfolding low
  proof (intro conjI ballI allI impI)
    assume "k \<noteq> 0"
    with k ih show "lowest_pgno k' pss \<noteq> 0" "lowest_pgno k' pss \<le> k" by (auto intro: order_trans)
  next
    fix qs i assume "qs \<in> set (ps # pss)" and i: "head_pgno qs = Some i"
    then consider "qs = ps" | "qs \<in> set pss" by auto
    then have "lowest_pgno k' pss \<noteq> 0 \<and> lowest_pgno k' pss \<le> i"
    proof cases
      case 1
      with i j have "k' \<noteq> 0" "k' \<le> i" by auto
      with ih show ?thesis by (auto intro: order_trans)
    next
      case 2
      with i ih show ?thesis by blast
    qed
    then show "lowest_pgno k' pss \<noteq> 0" "lowest_pgno k' pss \<le> i" by auto
  qed
qed simp

lemma ascending_head: "ascending ps \<Longrightarrow> head_pgno ps \<noteq> Some 0"
  by (cases ps) (auto simp: ascending_def head_pgno_def)

lemma ascending_drop: "ascending ps \<Longrightarrow> ascending (drop_page k ps)"
  by (cases ps) (auto simp: ascending_def drop_page_def)

text \<open>With \<open>k\<close> below every first page, page \<open>k\<close> is found at the head or not at all.\<close>

lemma map_of_lowest:
  assumes "ascending ps" and "\<forall>j. head_pgno ps = Some j \<longrightarrow> k \<le> j"
  shows "map_of ps k = (if head_pgno ps = Some k then Some (snd (hd ps)) else None)"
proof (cases ps)
  case (Cons p qs)
  have "k \<notin> fst ` set qs" using assms Cons by (auto simp: ascending_def head_pgno_def)
  then have "map_of qs k = None" by (simp add: map_of_eq_None_iff)
  with Cons show ?thesis by (auto simp: head_pgno_def)
qed (simp add: head_pgno_def)

lemma map_of_drop_page: "j \<noteq> k \<Longrightarrow> map_of (drop_page k ps) j = map_of ps j"
  by (cases ps) (auto simp: drop_page_def head_pgno_def)

lemma newest_page_overlay:
  assumes "\<forall>ps \<in> set pss. ascending ps \<and> (\<forall>j. head_pgno ps = Some j \<longrightarrow> k \<le> j)"
  shows "newest_page k pss = overlay pss k"
  using assms by (induction pss) (auto simp: map_of_lowest map_add_def split: option.splits)

lemma overlay_drop_page: "j \<noteq> k \<Longrightarrow> overlay (map (drop_page k) pss) j = overlay pss j"
  by (induction pss) (auto simp: map_add_def map_of_drop_page split: option.splits)

lemma lowest_after_drop:
  assumes "\<forall>ps \<in> set pss. ascending ps \<and> (\<forall>j. head_pgno ps = Some j \<longrightarrow> k \<le> j)"
    and "lowest_pgno 0 (map (drop_page k) pss) \<noteq> 0"
  shows "k < lowest_pgno 0 (map (drop_page k) pss)"
proof -
  let ?l = "lowest_pgno 0 (map (drop_page k) pss)"
  from lowest_pgno_cases [of 0 "map (drop_page k) pss"] assms(2)
  obtain ps where ps: "ps \<in> set pss" "head_pgno (drop_page k ps) = Some ?l" by auto
  with assms(1) have asc: "ascending ps" "\<forall>j. head_pgno ps = Some j \<longrightarrow> k \<le> j" by auto
  show ?thesis
  proof (cases "head_pgno ps = Some k")
    case True
    with asc ps(2) show ?thesis
      by (cases ps; cases "tl ps") (auto simp: drop_page_def head_pgno_def ascending_def)
  next
    case False
    with asc ps(2) show ?thesis by (auto simp: drop_page_def less_le)
  qed
qed

lemma merge_pages_spec:
  assumes "\<forall>ps \<in> set pss. ascending ps"
  shows "map_of (merge_pages commit pss) = overlay pss |` {..commit} \<and> ascending (merge_pages commit pss) \<and>
    (\<forall>p \<in> set (merge_pages commit pss). lowest_pgno 0 pss \<noteq> 0 \<and> lowest_pgno 0 pss \<le> fst p)"
  using assms
proof (induction commit pss rule: merge_pages.induct)
  case (1 commit pss)
  define k where "k = lowest_pgno 0 pss"
  have heads: "\<forall>ps \<in> set pss. head_pgno ps \<noteq> Some 0" using "1.prems" ascending_head by blast
  show ?case
  proof (cases "k = 0")
    case True
    have "ps = []" if "ps \<in> set pss" for ps
      using lowest_pgno_le [OF heads, of 0] that True by (cases ps) (auto simp: k_def head_pgno_def)
    then have "overlay pss = Map.empty" by (induction pss) auto
    moreover have "merge_pages commit pss = []" using True by (simp add: merge_pages_nil k_def)
    ultimately show ?thesis by (simp add: ascending_def)
  next
    case False
    let ?pss = "map (drop_page k) pss" and ?here = "if k \<le> commit then [(k, the (newest_page k pss))] else []"
    have low: "\<forall>ps \<in> set pss. ascending ps \<and> (\<forall>j. head_pgno ps = Some j \<longrightarrow> k \<le> j)"
      using lowest_pgno_le [OF heads, of 0] "1.prems" by (auto simp: k_def)
    have merge: "merge_pages commit pss = ?here @ merge_pages commit ?pss"
      using False by (simp add: merge_pages.simps [of commit pss] k_def Let_def)
    have ih: "map_of (merge_pages commit ?pss) = overlay ?pss |` {..commit}" "ascending (merge_pages commit ?pss)"
      "\<forall>p \<in> set (merge_pages commit ?pss). k < fst p"
      using "1.IH" [OF k_def False] "1.prems" lowest_after_drop [OF low]
      by (auto simp: ascending_drop dest: less_le_trans)
    have newest: "newest_page k pss = overlay pss k" using newest_page_overlay [OF low] .
    have some: "\<exists>d. newest_page k pss = Some d" using newest_page_lowest [of pss] False by (auto simp: k_def)
    have "map_of (merge_pages commit pss) j = (overlay pss |` {..commit}) j" for j
    proof (cases "j = k")
      case True
      have "map_of (merge_pages commit ?pss) k = None"
        using ih(3) by (auto simp: map_of_eq_None_iff)
      with True some newest show ?thesis unfolding merge by (auto simp: restrict_map_def)
    next
      case False
      then show ?thesis unfolding merge by (auto simp: ih(1) overlay_drop_page restrict_map_def)
    qed
    moreover have "ascending (merge_pages commit pss)"
      using ih(2,3) False unfolding merge by (auto simp: ascending_def word_gt_0)
    moreover have "\<forall>p \<in> set (merge_pages commit pss). k \<le> fst p"
      using ih(3) unfolding merge by (auto simp: less_imp_le)
    ultimately show ?thesis using False by (auto simp: k_def)
  qed
qed

section \<open>The buffered merge is the merge of page lists\<close>

text \<open>The pages an input still has to give: its buffered page and what its decoder will read.\<close>

definition yields :: "externs \<Rightarrow> cinput \<Rightarrow> pages \<times> decoder \<Rightarrow> bool" where
  "yields x inp y \<longleftrightarrow>
     (\<exists>qs. decode_pages x (ci_dec inp) (length (ci_data inp)) = Ok (qs, snd y) \<and>
        fst y = (case ci_hdr inp of None \<Rightarrow> qs | Some h \<Rightarrow> (ph_pgno h, ci_data inp) # qs))"

definition input_ok :: "cinput \<Rightarrow> bool" where
  "input_ok inp \<longleftrightarrow> (ci_done inp \<longrightarrow> d_state (ci_dec inp) = DecClose) \<and>
     d_state (ci_dec inp) \<in> {DecPage, DecClose} \<and> buffered inp \<noteq> Some 0"

text \<open>After a fill an empty buffer means that the input is exhausted.\<close>

definition filled :: "cinput \<Rightarrow> bool" where
  "filled inp \<longleftrightarrow> input_ok inp \<and> (ci_hdr inp = None \<longrightarrow> d_state (ci_dec inp) = DecClose)"

lemma decode_page_close: "d_state d = DecClose \<Longrightarrow> decode_page x d n = Ok (None, d)"
  by (simp add: decode_page_def)

lemma decode_pages_close: "d_state d = DecClose \<Longrightarrow> decode_pages x d n = Ok ([], d)"
  by (subst decode_pages.simps) (simp add: decode_page_close)

lemma filled_head:
  assumes "filled inp" and "yields x inp y"
  shows "head_pgno (fst y) = buffered inp"
    and "buffered inp = Some k \<Longrightarrow> snd (hd (fst y)) = ci_data inp"
    and "ci_hdr inp = None \<Longrightarrow> fst y = [] \<and> snd y = ci_dec inp"
  using assms
  by (auto simp: filled_def yields_def buffered_def head_pgno_def decode_pages_close split: option.splits)

lemma fill_input_yields:
  assumes "fill_input x i inp = Ok inp'" and "input_ok inp"
  shows "filled inp'" and "yields x inp' y \<Longrightarrow> yields x inp y"
proof -
  have "filled inp' \<and> (yields x inp' y \<longrightarrow> yields x inp y)"
  proof (cases "ci_hdr inp = None \<and> \<not> ci_done inp")
    case False
    with assms show ?thesis by (auto simp: fill_input_def filled_def input_ok_def)
  next
    case True
    let ?n = "length (ci_data inp)"
    from True assms(1) obtain p dec where step: "decode_page x (ci_dec inp) ?n = Ok (p, dec)"
      by (auto simp: fill_input_def split: result.splits)
    have st: "d_state (ci_dec inp) = DecPage \<or> d_state (ci_dec inp) = DecClose"
      using assms(2) by (auto simp: input_ok_def)
    show ?thesis
    proof (cases p)
      case None
      with step st have "d_state dec = DecClose"
        by (auto dest: decode_page_NoneD(2) simp: decode_page_close)
      moreover have "decode_pages x (ci_dec inp) ?n = Ok ([], dec)"
        using step None by (subst decode_pages.simps) simp
      ultimately show ?thesis using True assms(1) step None
        by (auto simp: fill_input_def filled_def input_ok_def yields_def decode_pages_close buffered_def)
    next
      case (Some q)
      obtain hdr data where q: "q = (hdr, data)" by (cases q)
      with step Some st have page: "d_state (ci_dec inp) = DecPage" by (auto simp: decode_page_close)
      note s = decode_page_SomeD [OF step [unfolded Some q] page]
      have "decode_pages x dec ?n = Ok (qs, d) \<Longrightarrow>
          decode_pages x (ci_dec inp) ?n = Ok ((ph_pgno hdr, data) # qs, d)" for qs d
        using step Some q by (subst decode_pages.simps) simp
      then show ?thesis using True assms(1) step Some q s
        by (cases y) (auto simp: fill_input_def filled_def input_ok_def yields_def buffered_def)
    qed
  qed
  then show "filled inp'" "yields x inp' y \<Longrightarrow> yields x inp y" by auto
qed

lemma fill_page_buffers_yields:
  assumes "fill_page_buffers x i pgno inps = Ok (pgno', inps')" and "\<forall>inp \<in> set inps. input_ok inp"
  shows "\<forall>inp \<in> set inps'. filled inp"
    and "list_all2 (yields x) inps' ys \<Longrightarrow>
      list_all2 (yields x) inps ys \<and> pgno' = lowest_pgno pgno (map fst ys)"
proof -
  have "(\<forall>inp \<in> set inps'. filled inp) \<and> (list_all2 (yields x) inps' ys \<longrightarrow>
      list_all2 (yields x) inps ys \<and> pgno' = lowest_pgno pgno (map fst ys))"
    using assms
  proof (induction inps arbitrary: i pgno inps' ys)
    case (Cons inp inps)
    from Cons.prems(1) obtain inp1 inps1 where inp1: "fill_input x i inp = Ok inp1" "inps' = inp1 # inps1"
      and rest: "fill_page_buffers x (i + 1) (lower_pgno inp1 pgno) inps = Ok (pgno', inps1)"
      by (auto simp: and_then_eq_Ok)
    note f = fill_input_yields [OF inp1(1)]
    have ok: "input_ok inp" "\<forall>i \<in> set inps. input_ok i" using Cons.prems(2) by auto
    have low: "yields x inp1 y \<Longrightarrow> lower_pgno inp1 pgno =
        (case head_pgno (fst y) of None \<Rightarrow> pgno | Some k \<Rightarrow> if pgno = 0 \<or> k < pgno then k else pgno)" for y
      using filled_head(1) [OF f(1) [OF ok(1)]] by (auto simp: lower_pgno_def buffered_def split: option.splits)
    show ?case
    proof (intro conjI impI)
      show "\<forall>inp \<in> set inps'. filled inp" using Cons.IH [OF rest ok(2)] f(1) [OF ok(1)] inp1(2) by auto
      assume "list_all2 (yields x) inps' ys"
      then obtain y ys1 where ys: "ys = y # ys1" "yields x inp1 y" "list_all2 (yields x) inps1 ys1"
        unfolding inp1(2) by (auto simp: list_all2_Cons1)
      then show "list_all2 (yields x) (inp # inps) ys" "pgno' = lowest_pgno pgno (map fst ys)"
        using Cons.IH [OF rest ok(2)] f(2) [OF ok(1) ys(2)] by (simp_all add: low [OF ys(2)])
    qed
  qed simp
  then show "\<forall>inp \<in> set inps'. filled inp"
    "list_all2 (yields x) inps' ys \<Longrightarrow> list_all2 (yields x) inps ys \<and> pgno' = lowest_pgno pgno (map fst ys)"
    by auto
qed

text \<open>The page that \<open>write_page_buffer\<close> encodes is the newest input's.\<close>

lemma write_page_inputs_encode:
  assumes "write_page_inputs x k commit pw enc inps = Ok (enc', inps')"
  shows "if pw \<or> commit < k then enc' = enc
    else case List.find (\<lambda>inp. buffered inp = Some k) inps of
           None \<Rightarrow> enc' = enc | Some inp \<Rightarrow> encode_page x enc k (ci_data inp) = Ok enc'"
  using assms
proof (induction inps arbitrary: pw enc inps')
  case (Cons inp inps)
  show ?case
  proof (cases "ci_hdr inp")
    case None
    with Cons.prems obtain inps1 where "write_page_inputs x k commit pw enc inps = Ok (enc', inps1)"
      by (auto simp: and_then_eq_Ok)
    from Cons.IH [OF this] None show ?thesis by (simp add: buffered_def [of inp])
  next
    case (Some hdr)
    show ?thesis
    proof (cases "ph_pgno hdr = k \<and> \<not> (pw \<or> commit < k)")
      case True
      with Cons.prems Some obtain enc1 inps1 where "encode_page x enc k (ci_data inp) = Ok enc1"
        "write_page_inputs x k commit True enc1 inps = Ok (enc', inps1)"
        by (auto simp: and_then_eq_Ok map_err_eq_Ok Let_def)
      with Cons.IH [OF this(2)] True Some show ?thesis by (simp add: buffered_def [of inp])
    next
      case False
      with Cons.prems Some obtain inps1 where "write_page_inputs x k commit pw enc inps = Ok (enc', inps1)"
        by (auto simp: and_then_eq_Ok Let_def split: if_splits)
      from Cons.IH [OF this] Some False show ?thesis
        by (cases "pw \<or> commit < k") (auto simp: buffered_def [of inp])
    qed
  qed
qed simp

lemma newest_page_snoc:
  "newest_page k (pss @ [ps]) = (if head_pgno ps = Some k then Some (snd (hd ps)) else newest_page k pss)"
  by (induction pss) (auto split: option.splits)

lemma newest_page_find:
  assumes "list_all2 (yields x) inps ys" and "\<forall>inp \<in> set inps. filled inp"
  shows "newest_page k (map fst ys) =
    map_option ci_data (List.find (\<lambda>inp. buffered inp = Some k) (rev inps))"
  using assms
proof (induction inps arbitrary: ys rule: rev_induct)
  case (snoc inp inps)
  then obtain ys1 y where ys: "ys = ys1 @ [y]" "list_all2 (yields x) inps ys1" "yields x inp y"
    by (auto simp: list_all2_append1 list_all2_Cons1)
  have "filled inp" using snoc.prems(2) by simp
  note h = filled_head [OF this ys(3)]
  show ?case using snoc.IH [OF ys(2)] snoc.prems(2) h(1,2)
    by (simp add: ys(1) newest_page_snoc)
qed simp

lemma take_page_yields:
  assumes "filled inp" and "yields x (take_page k inp) y"
  shows "\<exists>z. yields x inp z \<and> drop_page k (fst z) = fst y \<and> snd z = snd y"
proof (cases "buffered inp = Some k")
  case True
  with assms(2) have "yields x inp ((k, ci_data inp) # fst y, snd y)"
    by (auto simp: take_page_def buffered_def yields_def)
  moreover have "drop_page k ((k, ci_data inp) # fst y) = fst y"
    by (simp add: drop_page_def head_pgno_def)
  ultimately show ?thesis by force
next
  case False
  then have y: "yields x inp y" using assms(2) by (simp add: take_page_def)
  then have "drop_page k (fst y) = fst y"
    using False filled_head(1) [OF assms(1)] by (simp add: drop_page_def)
  with y show ?thesis by blast
qed

lemma fill_page_buffers_zero:
  assumes "fill_page_buffers x i pgno inps = Ok (0, inps')" and "\<forall>inp \<in> set inps. input_ok inp"
  shows "pgno = 0 \<and> (\<forall>inp \<in> set inps'. ci_hdr inp = None)"
  using assms
proof (induction inps arbitrary: i pgno inps')
  case (Cons inp inps)
  then obtain inp1 inps1 where inp1: "fill_input x i inp = Ok inp1" "inps' = inp1 # inps1"
    and rest: "fill_page_buffers x (i + 1) (lower_pgno inp1 pgno) inps = Ok (0, inps1)"
    by (auto simp: and_then_eq_Ok)
  have "buffered inp1 \<noteq> Some 0" using fill_input_yields(1) [OF inp1(1)] Cons.prems(2)
    by (auto simp: filled_def input_ok_def)
  moreover have "lower_pgno inp1 pgno = 0" and "\<forall>inp \<in> set inps1. ci_hdr inp = None"
    using Cons.IH [OF rest] Cons.prems(2) by auto
  ultimately show ?case unfolding inp1(2) by (auto simp: lower_pgno_def buffered_def split: option.splits if_splits)
qed simp

lemma take_pages_yields:
  assumes "\<forall>inp \<in> set inps. filled inp" and "list_all2 (yields x) (map (take_page k) inps) ys"
  shows "\<exists>zs. list_all2 (yields x) inps zs \<and> map fst ys = map (drop_page k) (map fst zs) \<and> map snd zs = map snd ys"
  using assms
proof (induction inps arbitrary: ys)
  case (Cons inp inps)
  then obtain y ys1 where ys: "ys = y # ys1" "yields x (take_page k inp) y"
    "list_all2 (yields x) (map (take_page k) inps) ys1" by (auto simp: list_all2_Cons1)
  obtain z where "yields x inp z" "drop_page k (fst z) = fst y" "snd z = snd y"
    using take_page_yields [OF _ ys(2)] Cons.prems(1) by auto
  moreover obtain zs where "list_all2 (yields x) inps zs" "map fst ys1 = map (drop_page k) (map fst zs)"
    "map snd zs = map snd ys1" using Cons.IH [OF _ ys(3)] Cons.prems(1) by auto
  ultimately show ?case by (intro exI [of _ "z # zs"]) (simp add: ys(1))
qed simp

lemma encode_pages_append:
  "encode_pages x e (ps @ qs) = and_then (encode_pages x e ps) (\<lambda>e. encode_pages x e qs)"
  by (induction ps arbitrary: e) (auto simp: and_then_assoc)

text \<open>One round of the loop encodes the first page of the merge.\<close>

lemma write_page_buffer_merge:
  assumes "write_page_buffer x enc k inps = Ok (enc', inps')"
    and "list_all2 (yields x) inps ys" and "\<forall>inp \<in> set inps. filled inp"
  shows "encode_pages x enc (if k \<le> h_commit (e_header enc) \<and> newest_page k (map fst ys) \<noteq> None
           then [(k, the (newest_page k (map fst ys)))] else []) = Ok enc'"
    and "h_commit (e_header enc') = h_commit (e_header enc)"
proof -
  let ?c = "h_commit (e_header enc)" and ?f = "List.find (\<lambda>inp. buffered inp = Some k) (rev inps)"
  from assms(1) obtain inps1 where w: "write_page_inputs x k ?c False enc (rev inps) = Ok (enc', inps1)"
    by (auto simp: write_page_buffer_def and_then_eq_Ok)
  have res: "if ?c < k then enc' = enc else case ?f of None \<Rightarrow> enc' = enc
      | Some inp \<Rightarrow> encode_page x enc k (ci_data inp) = Ok enc'"
    using write_page_inputs_encode [OF w] by simp
  have newest: "newest_page k (map fst ys) = map_option ci_data ?f" by (rule newest_page_find [OF assms(2,3)])
  show "encode_pages x enc (if k \<le> ?c \<and> newest_page k (map fst ys) \<noteq> None
           then [(k, the (newest_page k (map fst ys)))] else []) = Ok enc'"
    using res unfolding newest by (cases ?f) (auto simp: not_less split: if_splits)
  show "h_commit (e_header enc') = ?c"
    using res by (cases ?f) (auto dest: encode_page_OkD(3) split: if_splits)
qed

lemma compact_loop_merge:
  assumes "compact_loop x inps enc = Ok (inps', enc')" and "\<forall>inp \<in> set inps. input_ok inp"
  shows "\<exists>ys. list_all2 (yields x) inps ys \<and> map ci_dec inps' = map snd ys \<and>
    encode_pages x enc (merge_pages (h_commit (e_header enc)) (map fst ys)) = Ok enc'"
  using assms
proof (induction x inps enc rule: compact_loop.induct)
  case (1 x inps enc)
  note eq = "1.prems"(1) [unfolded compact_loop.simps [of x inps enc]]
  from eq obtain k inps1 where fill: "fill_page_buffers x 0 0 inps = Ok (k, inps1)"
    by (auto simp: and_then_eq_Ok)
  note f = fill_page_buffers_yields [OF fill "1.prems"(2)]
  show ?case
  proof (cases "k = 0")
    case True
    let ?ys = "map (\<lambda>inp. ([], ci_dec inp)) inps1"
    have "list_all2 (yields x) inps1 ?ys"
      using fill_page_buffers_zero [OF fill [unfolded True] "1.prems"(2)] f(1)
      by (auto simp: list_all2_conv_all_nth yields_def filled_def decode_pages_close)
    with f(2) [of ?ys] have "list_all2 (yields x) inps ?ys" "lowest_pgno 0 (map fst ?ys) = 0" using True by auto
    moreover have "inps' = inps1" "enc' = enc" using eq fill True by auto
    ultimately show ?thesis
      by (intro exI [of _ ?ys]) (simp add: merge_pages_nil comp_def)
  next
    case False
    with eq fill obtain enc1 inps2 where wr: "write_page_buffer x enc k inps1 = Ok (enc1, inps2)"
      and rest: "compact_loop x inps2 enc1 = Ok (inps', enc')" by (auto simp: and_then_eq_Ok)
    have inps2: "inps2 = map (take_page k) inps1" by (rule write_page_buffer_take [OF wr])
    have "\<forall>inp \<in> set inps2. input_ok inp"
      using f(1) unfolding inps2 by (auto simp: take_page_def filled_def input_ok_def buffered_def)
    from "1.IH" [OF fill refl False wr refl rest this] obtain ys where
      ys: "list_all2 (yields x) inps2 ys" "map ci_dec inps' = map snd ys"
        "encode_pages x enc1 (merge_pages (h_commit (e_header enc1)) (map fst ys)) = Ok enc'" by blast
    from take_pages_yields [OF f(1) ys(1) [unfolded inps2]] obtain zs where
      zs: "list_all2 (yields x) inps1 zs" "map fst ys = map (drop_page k) (map fst zs)" "map snd zs = map snd ys"
      by blast
    have low: "list_all2 (yields x) inps zs" "k = lowest_pgno 0 (map fst zs)" using f(2) [OF zs(1)] by auto
    note w = write_page_buffer_merge [OF wr zs(1) f(1)]
    have some: "newest_page k (map fst zs) \<noteq> None"
      using newest_page_lowest low(2) False by blast
    have "merge_pages (h_commit (e_header enc)) (map fst zs) =
      (if k \<le> h_commit (e_header enc) then [(k, the (newest_page k (map fst zs)))] else []) @
      merge_pages (h_commit (e_header enc)) (map fst ys)"
      using False low(2) zs(2) by (simp add: merge_pages.simps [of _ "map fst zs"] Let_def)
    then have "encode_pages x enc (merge_pages (h_commit (e_header enc)) (map fst zs)) = Ok enc'"
      using w ys(3) some by (simp add: encode_pages_append)
    with low(1) ys(2) zs(3) show ?thesis by (intro exI [of _ zs]) simp
  qed
qed

subsection \<open>The loop succeeds when its inputs can be read and its output encoded\<close>

lemma fill_input_complete:
  assumes "yields x inp y" and "input_ok inp"
  shows "\<exists>inp'. fill_input x i inp = Ok inp' \<and> yields x inp' y"
proof (cases "ci_hdr inp = None \<and> \<not> ci_done inp")
  case False
  with assms show ?thesis by (auto simp: fill_input_def)
next
  case True
  let ?n = "length (ci_data inp)"
  from assms(1) True have pages: "decode_pages x (ci_dec inp) ?n = Ok (fst y, snd y)" by (auto simp: yields_def)
  then obtain p dec where step: "decode_page x (ci_dec inp) ?n = Ok (p, dec)"
    by (subst (asm) decode_pages.simps) (auto simp: and_then_eq_Ok)
  show ?thesis
  proof (cases p)
    case None
    with pages step have y: "fst y = []" "snd y = dec" by (auto simp: decode_pages.simps [of x "ci_dec inp"])
    have "d_state dec = DecClose"
      using step None assms(2) by (auto simp: input_ok_def decode_page_close dest: decode_page_NoneD(2))
    with True step None y show ?thesis by (auto simp: fill_input_def yields_def decode_pages_close)
  next
    case (Some q)
    obtain hdr data where q: "q = (hdr, data)" by (cases q)
    have "d_state (ci_dec inp) = DecPage"
      using step Some assms(2) by (auto simp: input_ok_def decode_page_close)
    note s = decode_page_SomeD [OF step [unfolded Some q] this]
    from pages step Some q obtain qs where "decode_pages x dec ?n = Ok (qs, snd y)" "fst y = (ph_pgno hdr, data) # qs"
      by (subst (asm) decode_pages.simps) (auto simp: and_then_eq_Ok)
    with True step Some q s(6) show ?thesis by (simp add: fill_input_def yields_def)
  qed
qed

lemma fill_page_buffers_complete:
  assumes "list_all2 (yields x) inps ys" and "\<forall>inp \<in> set inps. input_ok inp"
  shows "\<exists>k inps'. fill_page_buffers x i pgno inps = Ok (k, inps') \<and> list_all2 (yields x) inps' ys"
  using assms
proof (induction arbitrary: i pgno rule: list_all2_induct)
  case (Cons inp inps y ys)
  obtain inp' where inp': "fill_input x i inp = Ok inp'" "yields x inp' y"
    using fill_input_complete [OF Cons.hyps(1)] Cons.prems by auto
  obtain k inps' where "fill_page_buffers x (i + 1) (lower_pgno inp' pgno) inps = Ok (k, inps')"
    "list_all2 (yields x) inps' ys"
    using Cons.IH [of "i + 1" "lower_pgno inp' pgno"] Cons.prems by auto
  with inp' show ?case by auto
qed simp

lemma write_page_inputs_complete:
  assumes "pw \<or> commit < k \<or> (\<forall>inp \<in> set inps. buffered inp \<noteq> Some k) \<or>
    (\<exists>inp enc1. List.find (\<lambda>inp. buffered inp = Some k) inps = Some inp \<and> encode_page x enc k (ci_data inp) = Ok enc1)"
  shows "\<exists>r. write_page_inputs x k commit pw enc inps = Ok r"
  using assms
proof (induction inps arbitrary: pw enc)
  case (Cons inp inps)
  show ?case
  proof (cases "buffered inp = Some k \<and> \<not> (pw \<or> commit < k)")
    case True
    with Cons.prems obtain enc1 where "encode_page x enc k (ci_data inp) = Ok enc1" by auto
    moreover obtain r where "write_page_inputs x k commit True enc1 inps = Ok r" using Cons.IH by blast
    ultimately show ?thesis using True by (cases r) (auto simp: buffered_def [of inp] Let_def)
  next
    case False
    then have "\<exists>r. write_page_inputs x k commit pw enc inps = Ok r"
      using Cons.prems by (intro Cons.IH) (auto split: if_splits)
    then show ?thesis using False by (auto simp: buffered_def [of inp] Let_def split: option.splits)
  qed
qed simp

lemma yields_take_page:
  assumes "filled inp" and "yields x inp y"
  shows "yields x (take_page k inp) (drop_page k (fst y), snd y)"
  using assms filled_head(1) [OF assms]
  by (auto simp: take_page_def drop_page_def yields_def buffered_def)

lemma yields_functional: "yields x inp y \<Longrightarrow> yields x inp z \<Longrightarrow> y = z"
  by (cases y; cases z) (auto simp: yields_def)

lemma compact_loop_returns:
  assumes "list_all2 (yields x) inps ys" and "\<forall>inp \<in> set inps. input_ok inp"
    and "encode_pages x enc (merge_pages (h_commit (e_header enc)) (map fst ys)) = Ok enc'"
  shows "\<exists>inps'. compact_loop x inps enc = Ok (inps', enc')"
  using assms
proof (induction x inps enc arbitrary: ys rule: compact_loop.induct)
  case (1 x inps enc)
  obtain k inps1 where fill: "fill_page_buffers x 0 0 inps = Ok (k, inps1)" "list_all2 (yields x) inps1 ys"
    using fill_page_buffers_complete [OF "1.prems"(1,2)] by blast
  note f = fill_page_buffers_yields [OF fill(1) "1.prems"(2)]
  have k: "k = lowest_pgno 0 (map fst ys)" using f(2) [OF fill(2)] by simp
  show ?case
  proof (cases "k = 0")
    case True
    with "1.prems"(3) k have "enc' = enc" by (simp add: merge_pages_nil)
    with True fill(1) show ?thesis by (subst compact_loop.simps) simp
  next
    case False
    let ?c = "h_commit (e_header enc)" and ?find = "List.find (\<lambda>inp. buffered inp = Some k) (rev inps1)"
    have find: "newest_page k (map fst ys) = map_option ci_data ?find" by (rule newest_page_find [OF fill(2) f(1)])
    obtain inp where inp: "?find = Some inp" using newest_page_lowest [of "map fst ys"] False k find by auto
    have merge: "merge_pages ?c (map fst ys) = (if k \<le> ?c then [(k, ci_data inp)] else []) @
        merge_pages ?c (map (drop_page k) (map fst ys))"
      using False find inp by (simp add: merge_pages.simps [of _ "map fst ys"] Let_def k)
    have "?c < k \<or> (\<exists>enc1. encode_page x enc k (ci_data inp) = Ok enc1)"
      using "1.prems"(3) unfolding merge by (auto simp: and_then_eq_Ok split: if_splits)
    then obtain enc1 inps2 where w: "write_page_buffer x enc k inps1 = Ok (enc1, inps2)"
      using write_page_inputs_complete [of False ?c k "rev inps1" x enc] inp
      by (auto simp: write_page_buffer_def)
    note wm = write_page_buffer_merge [OF w fill(2) f(1)]
    have inps2: "inps2 = map (take_page k) inps1" by (rule write_page_buffer_take [OF w])
    let ?ys = "map (\<lambda>y. (drop_page k (fst y), snd y)) ys"
    have "list_all2 (yields x) inps2 ?ys" unfolding inps2
      using fill(2) f(1) by (auto simp: list_all2_conv_all_nth yields_take_page)
    moreover have "\<forall>inp \<in> set inps2. input_ok inp"
      using f(1) unfolding inps2 by (auto simp: take_page_def filled_def input_ok_def buffered_def)
    moreover have "encode_pages x enc1 (merge_pages (h_commit (e_header enc1)) (map fst ?ys)) = Ok enc'"
      using "1.prems"(3) wm find inp unfolding merge
      by (auto simp: encode_pages_append comp_def split: if_splits)
    ultimately have "\<exists>inps'. compact_loop x inps2 enc1 = Ok (inps', enc')"
      by (rule "1.IH" [OF fill(1) refl False w refl])
    then show ?thesis using fill(1) False w by (subst compact_loop.simps) auto
  qed
qed

lemma compact_loop_complete:
  assumes "list_all2 (yields x) inps ys" and "\<forall>inp \<in> set inps. input_ok inp"
    and "encode_pages x enc (merge_pages (h_commit (e_header enc)) (map fst ys)) = Ok enc'"
  shows "\<exists>inps'. compact_loop x inps enc = Ok (inps', enc') \<and> map ci_dec inps' = map snd ys"
proof -
  obtain inps' where loop: "compact_loop x inps enc = Ok (inps', enc')" using compact_loop_returns [OF assms] by blast
  from compact_loop_merge [OF loop assms(2)] obtain zs where
    zs: "list_all2 (yields x) inps zs" "map ci_dec inps' = map snd zs" by blast
  have "ys = zs"
  proof (rule nth_equalityI)
    show "length ys = length zs" using assms(1) zs(1) by (simp add: list_all2_conv_all_nth)
    show "ys ! i = zs ! i" if "i < length ys" for i
      using assms(1) zs(1) that by (intro yields_functional [of x "inps ! i"]) (auto simp: list_all2_conv_all_nth)
  qed
  with loop zs(2) show ?thesis by blast
qed

section \<open>The compacted file\<close>

type_synonym ltx_file = "header \<times> pages \<times> trailer"

text \<open>Reading a whole file: header, pages, trailer, with every check of the decoder.\<close>

definition decode_file :: "externs \<Rightarrow> reader \<Rightarrow> ltx_file ltx_result" where
  "decode_file x r =
     and_then (decode_header (decoder_new r)) (\<lambda>d.
     and_then (decode_pages x d (unat (h_page_size (d_header d)))) (\<lambda>(pages, d).
     and_then (decoder_finish x d) (\<lambda>(r, h, t, idx). Ok (h, pages, t))))"

definition f_header :: "ltx_file \<Rightarrow> header" where "f_header f = fst f"
definition f_pages :: "ltx_file \<Rightarrow> pages" where "f_pages f = fst (snd f)"
definition f_trailer :: "ltx_file \<Rightarrow> trailer" where "f_trailer f = snd (snd f)"

lemma f_simps [simp]: "f_header (h, p, t) = h" "f_pages (h, p, t) = p" "f_trailer (h, p, t) = t"
  by (simp_all add: f_header_def f_pages_def f_trailer_def)

lemma decode_headers_OkD:
  "decode_headers inps = Ok inps' \<Longrightarrow>
   list_all2 (\<lambda>inp inp'. \<exists>d. decode_header (ci_dec inp) = Ok d \<and> inp' = inp\<lparr>ci_dec := d\<rparr>) inps inps'"
  by (induction inps arbitrary: inps') (auto simp: and_then_eq_Ok)

lemma finish_inputs_OkD:
  "finish_inputs x i inps = Ok ts \<Longrightarrow>
   list_all2 (\<lambda>inp t. \<exists>r h idx. decoder_finish x (ci_dec inp) = Ok (r, h, t, idx)) inps ts"
  by (induction inps arbitrary: i ts) (auto simp: and_then_eq_Ok map_err_eq_Ok)

lemma decode_header_state: "decode_header d = Ok d' \<Longrightarrow> d_state d' = DecPage"
  by (auto simp: decode_header_def and_then_eq_Ok Let_def write_to_hash_def)

lemma decode_pages_page_size:
  assumes "decode_pages x d n = Ok (ps, d')" and "d_state d = DecPage"
  shows "n = unat (h_page_size (d_header d))"
proof -
  from assms(1) obtain p d1 where "decode_page x d n = Ok (p, d1)"
    by (subst (asm) decode_pages.simps) (auto simp: and_then_eq_Ok)
  with assms(2) show ?thesis by (auto simp: decode_page_def and_then_eq_Ok split: if_splits)
qed

text \<open>The inputs of a successful compaction are intact files, and the output is their merge.\<close>

lemma compact_OkD:
  assumes "compact x flags allow rdrs = Ok (w, h, t)"
  shows "\<exists>files. list_all2 (\<lambda>r f. decode_file x r = Ok f) rdrs files \<and> files \<noteq> [] \<and>
    check_inputs allow (map f_header files) = Ok () \<and>
    h = compact_header flags (f_header (hd files)) (f_header (last files)) \<and>
    encode_file x h (merge_pages (h_commit h) (map f_pages files))
      (t_post_apply_checksum (f_trailer (last files))) = Ok (w, h, t)"
proof -
  define hs where "hs inps = map (d_header \<circ> ci_dec) inps" for inps :: "cinput list"
  from assms obtain inps enc inps' enc' ts where rdrs: "rdrs \<noteq> []"
    and dh: "decode_headers (map cinput_new rdrs) = Ok inps"
    and chk: "check_inputs allow (hs inps) = Ok ()"
    and enc: "encode_header encoder_new (compact_header flags (hd (hs inps)) (last (hs inps))) = Ok enc"
    and loop: "compact_loop x (map (ci_data_update (\<lambda>_. replicate (unat (h_page_size
        (compact_header flags (hd (hs inps)) (last (hs inps))))) 0)) inps) enc = Ok (inps', enc')"
    and ts: "finish_inputs x 0 inps' = Ok ts"
    and fin: "encoder_finish x (set_post_apply_checksum enc' (t_post_apply_checksum (last ts))) = Ok (w, h, t)"
    unfolding compact_def Let_def hs_def [symmetric]
    by (auto simp: and_then_eq_Ok split: if_splits)
  let ?hdr = "compact_header flags (hd (hs inps)) (last (hs inps))"
  let ?n = "unat (h_page_size ?hdr)"
  let ?inps = "map (ci_data_update (\<lambda>_. replicate ?n 0)) inps"
  have d: "list_all2 (\<lambda>r inp. \<exists>d. decode_header (decoder_new r) = Ok d \<and> inp = cinput_new r\<lparr>ci_dec := d\<rparr>) rdrs inps"
    using decode_headers_OkD [OF dh] by (simp add: list_all2_map1 cinput_new_def)
  have "\<exists>dec. d_state dec = DecPage \<and> inp = \<lparr>ci_dec = dec, ci_hdr = None, ci_data = [], ci_done = False\<rparr>"
    if "inp \<in> set inps" for inp
    using d that
    by (induction rule: list_all2_induct) (auto simp: cinput_new_def dest: decode_header_state)
  then have ok: "\<forall>inp \<in> set ?inps. input_ok inp"
    by (fastforce simp: input_ok_def buffered_def)
  from compact_loop_merge [OF loop ok] obtain ys where ys: "list_all2 (yields x) ?inps ys"
      "map ci_dec inps' = map snd ys"
      "encode_pages x enc (merge_pages (h_commit (e_header enc)) (map fst ys)) = Ok enc'" by blast
  have ts': "list_all2 (\<lambda>d t. \<exists>r h idx. decoder_finish x d = Ok (r, h, t, idx)) (map snd ys) ts"
    using finish_inputs_OkD [OF ts] unfolding ys(2) [symmetric] by (simp add: list_all2_map1)
  define files where "files = map (\<lambda>(inp, y, t). (d_header (ci_dec inp), fst y, t)) (zip inps (zip ys ts))"
  have len: "length inps = length rdrs" "length ys = length rdrs" "length ts = length rdrs"
    using d ys(1) ts' by (auto dest!: list_all2_lengthD)
  have proj: "map f_header files = hs inps" "map f_pages files = map fst ys" "map f_trailer files = ts"
    using len by (auto simp: files_def hs_def list_eq_iff_nth_eq)
  have "list_all2 (\<lambda>r f. decode_file x r = Ok f) rdrs files"
  proof (rule list_all2_all_nthI)
    show "length rdrs = length files" by (simp add: files_def len)
    fix i assume i: "i < length rdrs"
    from d i obtain dec where dec: "decode_header (decoder_new (rdrs ! i)) = Ok dec"
      "inps ! i = cinput_new (rdrs ! i)\<lparr>ci_dec := dec\<rparr>" by (auto simp: list_all2_conv_all_nth)
    from ys(1) i len have "yields x (?inps ! i) (ys ! i)" by (simp add: list_all2_conv_all_nth)
    then have pg: "decode_pages x dec ?n = Ok (fst (ys ! i), snd (ys ! i))"
      using i len by (simp add: yields_def dec(2) cinput_new_def)
    note size = decode_pages_page_size [OF pg decode_header_state [OF dec(1)]]
    from ts' i len obtain r h' idx where f: "decoder_finish x (snd (ys ! i)) = Ok (r, h', ts ! i, idx)"
      by (auto simp: list_all2_conv_all_nth)
    have "h' = d_header dec"
      using decoder_finish_OkD(2) [OF f] decode_pages_OkD [OF pg decode_header_state [OF dec(1)]] by simp
    then have "decode_file x (rdrs ! i) = Ok (d_header dec, fst (ys ! i), ts ! i)"
      using dec(1) pg f size by (cases "ys ! i") (simp add: decode_file_def)
    then show "decode_file x (rdrs ! i) = Ok (files ! i)"
      using i len by (simp add: files_def dec(2))
  qed
  moreover have ne: "files \<noteq> []" "ts \<noteq> []" "inps \<noteq> []" using rdrs len by (auto simp: files_def)
  moreover have "hd (hs inps) = f_header (hd files)" "last (hs inps) = f_header (last files)"
    "last ts = f_trailer (last files)"
    using ne by (simp_all add: proj [symmetric] hd_map last_map)
  moreover have ef: "encode_file x ?hdr (merge_pages (h_commit ?hdr) (map f_pages files))
      (t_post_apply_checksum (last ts)) = Ok (w, h, t)"
    using enc ys(3) fin encode_header_OkD(2) [OF enc] by (simp add: encode_file_def proj)
  moreover have "h = ?hdr" using encode_file_OkD(2) [OF ef] .
  ultimately show ?thesis using chk proj(1) by (intro exI [of _ files]) simp
qed

lemma check_inputs_page_size:
  "check_inputs allow hs = Ok u \<Longrightarrow> h \<in> set hs \<Longrightarrow> h_page_size h = h_page_size (hd hs)"
  by (induction allow hs rule: check_inputs.induct) (auto split: if_splits)

lemma finish_inputs_complete:
  "list_all2 (\<lambda>inp t. \<exists>r h idx. decoder_finish x (ci_dec inp) = Ok (r, h, t, idx)) inps ts \<Longrightarrow>
   finish_inputs x i inps = Ok ts"
  by (induction arbitrary: i rule: list_all2_induct) auto

lemma decode_headers_complete:
  "list_all2 (\<lambda>r d. decode_header (decoder_new r) = Ok d) rdrs ds \<Longrightarrow>
   decode_headers (map cinput_new rdrs) =
     Ok (map (\<lambda>d. \<lparr>ci_dec = d, ci_hdr = None, ci_data = [], ci_done = False\<rparr>) ds)"
  by (induction rule: list_all2_induct) (auto simp: cinput_new_def)

lemma decode_file_OkD:
  assumes "decode_file x r = Ok f"
  shows "\<exists>d d' r' idx. decode_header (decoder_new r) = Ok d \<and> d_header d = f_header f \<and> d_state d = DecPage \<and>
    decode_pages x d (unat (h_page_size (f_header f))) = Ok (f_pages f, d') \<and>
    decoder_finish x d' = Ok (r', f_header f, f_trailer f, idx)"
proof -
  from assms obtain d pages d' r' h t idx where d: "decode_header (decoder_new r) = Ok d"
    "decode_pages x d (unat (h_page_size (d_header d))) = Ok (pages, d')"
    "decoder_finish x d' = Ok (r', h, t, idx)" "f = (h, pages, t)"
    by (auto simp: decode_file_def and_then_eq_Ok)
  have "h = d_header d"
    using decoder_finish_OkD(2) [OF d(3)] decode_pages_OkD [OF d(2) decode_header_state [OF d(1)]] by simp
  with d decode_header_state [OF d(1)] show ?thesis by auto
qed

text \<open>The decoders of readable files, after their header and after their last page.\<close>

definition decoders_of :: "externs \<Rightarrow> reader \<Rightarrow> ltx_file \<Rightarrow> decoder \<times> decoder \<Rightarrow> bool" where
  "decoders_of x r f dd \<longleftrightarrow>
     decode_header (decoder_new r) = Ok (fst dd) \<and> d_header (fst dd) = f_header f \<and> d_state (fst dd) = DecPage \<and>
     decode_pages x (fst dd) (unat (h_page_size (f_header f))) = Ok (f_pages f, snd dd) \<and>
     (\<exists>r' idx. decoder_finish x (snd dd) = Ok (r', f_header f, f_trailer f, idx))"

lemma decoders_of_files:
  "list_all2 (\<lambda>r f. decode_file x r = Ok f) rdrs files \<Longrightarrow>
   \<exists>dds. length dds = length files \<and> (\<forall>i < length files. decoders_of x (rdrs ! i) (files ! i) (dds ! i))"
proof (induction rule: list_all2_induct)
  case (Cons r rs f fs)
  obtain d d' r' idx where "decode_header (decoder_new r) = Ok d" "d_header d = f_header f" "d_state d = DecPage"
    "decode_pages x d (unat (h_page_size (f_header f))) = Ok (f_pages f, d')"
    "decoder_finish x d' = Ok (r', f_header f, f_trailer f, idx)"
    using decode_file_OkD [OF Cons.hyps(1)] by blast
  then have "decoders_of x r f (d, d')" by (simp add: decoders_of_def)
  moreover obtain dds where "length dds = length fs" "\<forall>i < length fs. decoders_of x (rs ! i) (fs ! i) (dds ! i)"
    using Cons.IH by blast
  ultimately show ?case by (intro exI [of _ "(d, d') # dds"]) (auto simp: nth_Cons split: nat.split)
qed simp

text \<open>Conversely, files that can be read, fit together and whose merge can be encoded are compacted.\<close>

lemma compact_complete:
  assumes "list_all2 (\<lambda>r f. decode_file x r = Ok f) rdrs files" and "files \<noteq> []"
    and "check_inputs allow (map f_header files) = Ok ()"
    and "h = compact_header flags (f_header (hd files)) (f_header (last files))"
    and "encode_file x h (merge_pages (h_commit h) (map f_pages files))
      (t_post_apply_checksum (f_trailer (last files))) = Ok (w, h, t)"
  shows "compact x flags allow rdrs = Ok (w, h, t)"
proof -
  obtain dds where dds: "length dds = length files"
    "\<forall>i < length files. decoders_of x (rdrs ! i) (files ! i) (dds ! i)" using decoders_of_files [OF assms(1)] by blast
  have len: "length rdrs = length files" using assms(1) by (rule list_all2_lengthD)
  let ?n = "unat (h_page_size h)"
  let ?mk = "\<lambda>data d. \<lparr>ci_dec = d, ci_hdr = None, ci_data = data, ci_done = False\<rparr> :: cinput"
  let ?inps = "map (?mk [] \<circ> fst) dds" and ?inps1 = "map (?mk (replicate ?n 0) \<circ> fst) dds"
  let ?ys = "map (\<lambda>(f, dd). (f_pages f, snd dd)) (zip files dds)"
  have hs: "map (\<lambda>dd. d_header (fst dd)) dds = map f_header files"
    using dds by (auto simp: list_eq_iff_nth_eq decoders_of_def)
  have hh: "compact_header flags (hd (map f_header files)) (f_header (last files)) = h"
    using assms(2,4) by (simp add: hd_map)
  have heads: "decode_headers (map cinput_new rdrs) = Ok ?inps"
    using decode_headers_complete [of rdrs "map fst dds"] dds len
    by (simp add: list_all2_conv_all_nth comp_def decoders_of_def)
  have size: "h_page_size (f_header (files ! i)) = h_page_size h" if "i < length files" for i
    using check_inputs_page_size [OF assms(3), of "f_header (files ! i)"] that assms(2)
    by (simp add: assms(4) compact_header_def hd_map)
  from assms(5) obtain enc enc' where enc: "encode_header encoder_new h = Ok enc"
    "encode_pages x enc (merge_pages (h_commit h) (map f_pages files)) = Ok enc'"
    "encoder_finish x (set_post_apply_checksum enc' (t_post_apply_checksum (f_trailer (last files)))) = Ok (w, h, t)"
    by (auto simp: encode_file_def and_then_eq_Ok)
  have ys: "list_all2 (yields x) ?inps1 ?ys"
    using dds size by (auto simp: list_all2_conv_all_nth yields_def decoders_of_def)
  have "d_state (fst dd) = DecPage" if "dd \<in> set dds" for dd
  proof -
    from that obtain i where "i < length files" "dd = dds ! i" using dds(1) by (auto simp: in_set_conv_nth)
    with dds(2) show ?thesis by (simp add: decoders_of_def)
  qed
  then have ok: "\<forall>inp \<in> set ?inps1. input_ok inp"
    by (auto simp: input_ok_def buffered_def)
  have proj: "map fst ?ys = map f_pages files" "map snd ?ys = map snd dds"
    using dds(1) by (auto simp: list_eq_iff_nth_eq)
  obtain inps' where loop: "compact_loop x ?inps1 enc = Ok (inps', enc')" "map ci_dec inps' = map snd dds"
    using compact_loop_complete [OF ys ok, of enc enc'] enc(2) encode_header_OkD(2) [OF enc(1)]
    unfolding proj by auto
  have "list_all2 (\<lambda>d t. \<exists>r h idx. decoder_finish x d = Ok (r, h, t, idx)) (map ci_dec inps') (map f_trailer files)"
    using dds unfolding loop(2) by (auto simp: list_all2_conv_all_nth decoders_of_def)
  then have fin: "finish_inputs x 0 inps' = Ok (map f_trailer files)"
    by (intro finish_inputs_complete) (simp add: list_all2_map1)
  have "rdrs \<noteq> []" using len assms(2) by auto
  then show ?thesis
    using heads assms(2,3) enc(1,3) loop(1) fin
    by (simp add: compact_def hs hh last_map comp_def)
qed

lemma decode_file_encode:
  assumes "lz4_ok x" and "encode_file x h pages post = Ok (w, h', t)"
    and "is_snapshot h \<and> \<not> no_checksum h \<longrightarrow> post = db_checksum (x_crc64 x) pages"
  shows "decode_file x w = Ok (h, pages, t)"
proof -
  note ok = encode_file_OkD [OF assms(2)]
  show ?thesis
    using decode_file_bytes [OF assms(1) ok(4) ok(6) ok(7) assms(3)] ok(1,3)
    by (auto simp: decode_file_def)
qed

lemma list_all2_functional:
  "list_all2 (\<lambda>r f. g r = Ok f) rs fs \<Longrightarrow> list_all2 (\<lambda>r f. g r = Ok f) rs fs' \<Longrightarrow> fs = fs'"
  by (induction rs arbitrary: fs fs') (auto simp: list_all2_Cons1)

lemma no_checksum_compact_header: "no_checksum (compact_header HEADER_FLAG_NO_CHECKSUM a b)"
  by (simp add: no_checksum_def compact_header_def HEADER_FLAG_NO_CHECKSUM_def)

lemma compact_decode:
  assumes "lz4_ok x" and "compact x HEADER_FLAG_NO_CHECKSUM allow rdrs = Ok (w, h, t)"
    and "list_all2 (\<lambda>r f. decode_file x r = Ok f) rdrs files"
  shows "decode_file x w = Ok (h, merge_pages (h_commit h) (map f_pages files), t)"
    and "files \<noteq> []" and "check_inputs allow (map f_header files) = Ok ()"
    and "h = compact_header HEADER_FLAG_NO_CHECKSUM (f_header (hd files)) (f_header (last files))"
proof -
  from compact_OkD [OF assms(2)] obtain fs where
    fs: "list_all2 (\<lambda>r f. decode_file x r = Ok f) rdrs fs" "fs \<noteq> []" "check_inputs allow (map f_header fs) = Ok ()"
    "h = compact_header HEADER_FLAG_NO_CHECKSUM (f_header (hd fs)) (f_header (last fs))"
    "encode_file x h (merge_pages (h_commit h) (map f_pages fs))
      (t_post_apply_checksum (f_trailer (last fs))) = Ok (w, h, t)" by blast
  have "fs = files" using list_all2_functional [OF fs(1) assms(3)] .
  moreover have "no_checksum h" unfolding fs(4) by (rule no_checksum_compact_header)
  ultimately show "decode_file x w = Ok (h, merge_pages (h_commit h) (map f_pages files), t)"
    "files \<noteq> []" "check_inputs allow (map f_header files) = Ok ()"
    "h = compact_header HEADER_FLAG_NO_CHECKSUM (f_header (hd files)) (f_header (last files))"
    using fs decode_file_encode [OF assms(1) fs(5)] by auto
qed

subsection \<open>A concrete chain\<close>

text \<open>A snapshot of two pages and a second file that rewrites page 2.\<close>

definition demo_header2 :: header where
  "demo_header2 = header_default\<lparr>h_flags := 2, h_page_size := 512, h_commit := 2, h_min_txid := 2, h_max_txid := 2\<rparr>"

definition demo_pages2 :: pages where "demo_pages2 = [(2, replicate 512 5)]"

definition demo_files :: "ltx_file list" where
  "demo_files = [(demo_header, demo_pages, file_trailer demo_externs demo_header demo_pages 0),
                 (demo_header2, demo_pages2, file_trailer demo_externs demo_header2 demo_pages2 0)]"

definition demo_readers :: "reader list" where
  "demo_readers = [file_bytes demo_externs demo_header demo_pages 0, file_bytes demo_externs demo_header2 demo_pages2 0]"

definition demo_out_header :: header where
  "demo_out_header = compact_header HEADER_FLAG_NO_CHECKSUM demo_header demo_header2"

definition demo_out_pages :: pages where
  "demo_out_pages = [(1, replicate 512 7), (2, replicate 512 5)]"

lemma demo_header2_valid: "header_validate demo_header2 = Ok ()"
  using demo_page_size_valid
  by (simp add: demo_header2_def header_default_def header_validate_def is_valid_header_flags_def
      HEADER_FLAG_MASK_def HEADER_FLAG_NO_CHECKSUM_def txid_is_zero_def is_snapshot_def
      no_checksum_def checksum_is_zero_def)

lemma demo_out_header_eq: "demo_out_header = demo_header\<lparr>h_max_txid := 2\<rparr>"
  by (simp add: demo_out_header_def compact_header_def demo_header_def demo_header2_def header_default_def
      HEADER_FLAG_NO_CHECKSUM_def)

lemma demo_out_header_valid: "header_validate demo_out_header = Ok ()"
  unfolding demo_out_header_eq using demo_page_size_valid
  by (simp add: demo_header_def header_default_def header_validate_def is_valid_header_flags_def
      HEADER_FLAG_MASK_def HEADER_FLAG_NO_CHECKSUM_def txid_is_zero_def is_snapshot_def
      no_checksum_def checksum_is_zero_def)

lemmas demo_encode_simps = encode_file_def encode_header_def encoder_new_def encode_page_def
  encoder_write_def Let_def check_page_order_def page_header_validate_def encoder_finish_def
  set_post_apply_checksum_def trailer_validate_def checksum_is_zero_def trailer_default_def demo_lock

lemma demo_encode_file2:
  "encode_file demo_externs demo_header2 demo_pages2 0 =
   Ok (file_bytes demo_externs demo_header2 demo_pages2 0, demo_header2, file_trailer demo_externs demo_header2 demo_pages2 0)"
proof -
  have "no_checksum demo_header2" "\<not> is_snapshot demo_header2" "h_page_size demo_header2 = 512" "h_commit demo_header2 = 2"
    by (simp_all add: demo_header2_def no_checksum_def is_snapshot_def HEADER_FLAG_NO_CHECKSUM_def)
  then have "is_ok (encode_file demo_externs demo_header2 demo_pages2 0)"
    using demo_header2_valid by (simp add: demo_encode_simps demo_pages2_def)
  then show ?thesis by (auto simp: is_ok_iff dest: encode_file_OkD)
qed

lemma demo_encode_out:
  "encode_file demo_externs demo_out_header demo_out_pages 0 =
   Ok (file_bytes demo_externs demo_out_header demo_out_pages 0, demo_out_header,
       file_trailer demo_externs demo_out_header demo_out_pages 0)"
proof -
  have "no_checksum demo_out_header" "is_snapshot demo_out_header" "h_page_size demo_out_header = 512"
    "h_commit demo_out_header = 2"
    by (simp_all add: demo_out_header_eq demo_header_def no_checksum_def is_snapshot_def HEADER_FLAG_NO_CHECKSUM_def)
  then have "is_ok (encode_file demo_externs demo_out_header demo_out_pages 0)"
    using demo_out_header_valid by (simp add: demo_encode_simps demo_out_pages_def)
  then show ?thesis by (auto simp: is_ok_iff dest: encode_file_OkD)
qed

lemma demo_decode_files: "list_all2 (\<lambda>r f. decode_file demo_externs r = Ok f) demo_readers demo_files"
  using decode_file_encode [OF demo_lz4_ok demo_encode_file] decode_file_encode [OF demo_lz4_ok demo_encode_file2]
  by (simp add: demo_readers_def demo_files_def demo_header_no_checksum demo_header2_def is_snapshot_def)

lemma demo_merge: "merge_pages 2 (map f_pages demo_files) = demo_out_pages"
  by (simp add: demo_files_def demo_pages_def demo_pages2_def demo_out_pages_def Let_def head_pgno_def drop_page_def
      merge_pages.simps [of 2 "[[(1, a), (2, b)], [(2, c)]]" for a b c]
      merge_pages.simps [of 2 "[[(2, b)], [(2, c)]]" for b c] merge_pages_nil)

lemma demo_compact:
  "compact demo_externs HEADER_FLAG_NO_CHECKSUM False demo_readers =
   Ok (file_bytes demo_externs demo_out_header demo_out_pages 0, demo_out_header,
       file_trailer demo_externs demo_out_header demo_out_pages 0)"
proof (rule compact_complete [OF demo_decode_files])
  show "check_inputs False (map f_header demo_files) = Ok ()"
    by (simp add: demo_files_def demo_header_def demo_header2_def is_contiguous_def)
  show "demo_out_header = compact_header HEADER_FLAG_NO_CHECKSUM (f_header (hd demo_files)) (f_header (last demo_files))"
    by (simp add: demo_files_def demo_out_header_def)
  have "h_commit demo_out_header = 2" by (simp add: demo_out_header_eq demo_header_def)
  moreover have "t_post_apply_checksum (f_trailer (last demo_files)) = 0"
    by (simp add: demo_files_def file_trailer_def)
  ultimately show "encode_file demo_externs demo_out_header
      (merge_pages (h_commit demo_out_header) (map f_pages demo_files))
      (t_post_apply_checksum (f_trailer (last demo_files))) =
    Ok (file_bytes demo_externs demo_out_header demo_out_pages 0, demo_out_header,
        file_trailer demo_externs demo_out_header demo_out_pages 0)"
    using demo_encode_out by (simp add: demo_merge)
qed (simp add: demo_files_def)

lemma demo_ascending: "\<forall>f \<in> set demo_files. ascending (f_pages f)"
  by (simp add: demo_files_def demo_pages_def demo_pages2_def ascending_def)

text \<open>C5: what a compacted file holds.  Compacting (with the flag every caller passes) files whose
  pages ascend gives a readable file that spans the first input's minimum to the last input's
  maximum transaction id, has the last input's commit size, and holds for every page up to that
  size the copy of the newest input that has the page, and no other page.\<close>

theorem compaction_newest_wins:
  assumes "lz4_ok x" and "compact x HEADER_FLAG_NO_CHECKSUM allow rdrs = Ok (w, h, t)"
    and "list_all2 (\<lambda>r f. decode_file x r = Ok f) rdrs files"
    and "\<forall>f \<in> set files. ascending (f_pages f)"
  shows "\<exists>pages. decode_file x w = Ok (h, pages, t) \<and> ascending pages \<and>
    map_of pages = overlay (map f_pages files) |` {..h_commit (f_header (last files))} \<and>
    h_min_txid h = h_min_txid (f_header (hd files)) \<and> h_max_txid h = h_max_txid (f_header (last files)) \<and>
    h_commit h = h_commit (f_header (last files)) \<and> h_page_size h = h_page_size (f_header (hd files))"
proof -
  note d = compact_decode [OF assms(1-3)]
  have "\<forall>ps \<in> set (map f_pages files). ascending ps" using assms(4) by simp
  from merge_pages_spec [OF this, of "h_commit h"] d(1) show ?thesis
    by (intro exI [of _ "merge_pages (h_commit h) (map f_pages files)"]) (simp add: d(4) compact_header_def)
qed

theorem compaction_newest_wins_witness:
  "\<exists>pages. decode_file demo_externs (file_bytes demo_externs demo_out_header demo_out_pages 0) =
      Ok (demo_out_header, pages, file_trailer demo_externs demo_out_header demo_out_pages 0) \<and> ascending pages \<and>
    map_of pages = overlay (map f_pages demo_files) |` {..h_commit (f_header (last demo_files))} \<and>
    h_min_txid demo_out_header = h_min_txid (f_header (hd demo_files)) \<and>
    h_max_txid demo_out_header = h_max_txid (f_header (last demo_files)) \<and>
    h_commit demo_out_header = h_commit (f_header (last demo_files)) \<and>
    h_page_size demo_out_header = h_page_size (f_header (hd demo_files))"
  by (rule compaction_newest_wins [OF demo_lz4_ok demo_compact demo_decode_files demo_ascending])

section \<open>Compaction and application\<close>

text \<open>
  A database as a map from page numbers to pages; applying a file overlays its pages and truncates
  to its commit size (as \<open>replica.rs\<close> applies files).
\<close>

type_synonym database = "u32 \<Rightarrow> byte list option"

definition apply_file :: "database \<Rightarrow> ltx_file \<Rightarrow> database" where
  "apply_file db f = (db ++ map_of (f_pages f)) |` {..h_commit (f_header f)}"

text \<open>
  Page \<open>k\<close> is settled in a sequence of files when every file that truncates below \<open>k\<close> is followed
  by one that writes \<open>k\<close> again.
\<close>

fun settled :: "u32 \<Rightarrow> ltx_file list \<Rightarrow> bool" where
  "settled k [] = True"
| "settled k (f # fs) =
     ((k \<le> h_commit (f_header f) \<or> overlay (map f_pages fs) k \<noteq> None) \<and> settled k fs)"

lemma foldl_apply_settled:
  "settled k fs \<Longrightarrow> foldl apply_file db fs k = (db ++ overlay (map f_pages fs)) k"
proof (induction fs arbitrary: db)
  case (Cons f fs)
  then show ?case
    by (cases "overlay (map f_pages fs) k") (auto simp: apply_file_def map_add_def restrict_map_def split: option.splits)
qed simp

lemma foldl_apply_truncates:
  "fs \<noteq> [] \<Longrightarrow> \<not> k \<le> h_commit (f_header (last fs)) \<Longrightarrow> foldl apply_file db fs k = None"
  by (induction fs rule: rev_induct) (auto simp: apply_file_def)

lemma compact_applies:
  assumes "lz4_ok x" and "compact x HEADER_FLAG_NO_CHECKSUM allow rdrs = Ok (w, h, t)"
    and "list_all2 (\<lambda>r f. decode_file x r = Ok f) rdrs files"
    and "\<forall>f \<in> set files. ascending (f_pages f)"
    and "\<forall>k \<le> h_commit (f_header (last files)). settled k files"
  shows "\<exists>f. decode_file x w = Ok f \<and> apply_file db f = foldl apply_file db files"
proof -
  note d = compact_decode [OF assms(1-3)]
  let ?ps = "merge_pages (h_commit h) (map f_pages files)" and ?c = "h_commit (f_header (last files))"
  have c: "h_commit h = ?c" by (simp add: d(4) compact_header_def)
  have "\<forall>ps \<in> set (map f_pages files). ascending ps" using assms(4) by simp
  from merge_pages_spec [OF this, of "h_commit h"] have
    pages: "map_of ?ps = overlay (map f_pages files) |` {..?c}" by (simp add: c)
  have "apply_file db (h, ?ps, t) k = foldl apply_file db files k" for k
  proof (cases "k \<le> ?c")
    case True
    with assms(5) have "foldl apply_file db files k = (db ++ overlay (map f_pages files)) k"
      by (simp add: foldl_apply_settled)
    with True show ?thesis by (simp add: apply_file_def pages [unfolded c] c map_add_def)
  next
    case False
    then show ?thesis using foldl_apply_truncates [OF d(2)] by (simp add: apply_file_def c)
  qed
  with d(1) show ?thesis by blast
qed

text \<open>C6: compaction does not change the database.  When every page of the final size that some
  input truncated away was written again later, applying the compacted file to any database gives
  the same database as applying the inputs one after the other.\<close>

theorem compaction_preserves_application:
  assumes "lz4_ok x" and "compact x HEADER_FLAG_NO_CHECKSUM allow rdrs = Ok (w, h, t)"
    and "list_all2 (\<lambda>r f. decode_file x r = Ok f) rdrs files"
    and "\<forall>f \<in> set files. ascending (f_pages f)"
    and "\<forall>k \<le> h_commit (f_header (last files)). settled k files"
  shows "\<exists>f. decode_file x w = Ok f \<and> apply_file db f = foldl apply_file db files"
  by (rule compact_applies [OF assms])

theorem compaction_preserves_application_witness:
  "\<exists>f. decode_file demo_externs (file_bytes demo_externs demo_out_header demo_out_pages 0) = Ok f \<and>
     apply_file Map.empty f = foldl apply_file Map.empty demo_files"
proof (rule compaction_preserves_application [OF demo_lz4_ok demo_compact demo_decode_files demo_ascending])
  show "\<forall>k \<le> h_commit (f_header (last demo_files)). settled k demo_files"
    by (simp add: demo_files_def demo_header_def demo_header2_def)
qed

end
