(* ===== verification/WriterProps.thy ===== *)
theory WriterProps
  imports Writer Compactor
begin

text \<open>
  What the writer promises: the conversion, checkpoints and the lineage check never touch the bucket,
  an upload extends the bucket by a contiguous run of the local files and nothing else, a bucket that
  this lineage did not write is left alone, and the replication position always names the newest,
  valid local file.
\<close>

section \<open>Methods that leave the bucket and the session alone\<close>

text \<open>
  The interface of a view of the writer that does not look at the local state: the meta directory,
  the sync state, the cached position, the token and the clock.  The conversion of the WAL and the
  reads of the bucket keep every property of such a view.
\<close>

locale writer_view =
  fixes view :: "'s writer \<Rightarrow> 'v"
  assumes view_meta: "view (w\<lparr>w_meta := m\<rparr>) = view w"
    and view_state: "view (w\<lparr>w_state := st\<rparr>) = view w"
    and view_cached_pos: "view (w\<lparr>w_cached_pos := p\<rparr>) = view w"
    and view_cancel: "view (w\<lparr>w_cancel := t\<rparr>) = view w"
    and view_clock: "view (w\<lparr>w_clock := cl\<rparr>) = view w"
begin

lemmas view_simps = view_meta view_state view_cached_pos view_cancel view_clock

lemma keep_mod: "(\<And>w. view (f w) = view w) \<Longrightarrow> keeps (\<lambda>w. P (view w)) (m_mod f)"
  by (simp add: keeps_def)

lemma keep_base:
  "keeps (\<lambda>w. P (view w)) cancel_check" "keeps (\<lambda>w. P (view w)) now_unix_millis"
  "keeps (\<lambda>w. P (view w)) (set_cancel t)" "keeps (\<lambda>w. P (view w)) invalidate_pos"
  "keeps (\<lambda>w. P (view w)) (mod_meta g)" "keeps (\<lambda>w. P (view w)) (apply_sync_outcome out)"
  "keeps (\<lambda>w. P (view w)) checkpoint_done"
  by (auto simp: keeps_def cancel_check_def now_unix_millis_def set_cancel_def view_simps
      invalidate_pos_def mod_meta_def apply_sync_outcome_def checkpoint_done_def split: result.splits prod.splits)

lemmas keep_rules = keeps_rules keep_base keep_mod

lemma keep_from_db: "keeps (\<lambda>w. P (view w)) (from_db_loop ev wal pages pgnos enc)"
proof (induction pgnos arbitrary: enc)
  case (Cons k pgnos)
  show ?case unfolding from_db_loop.simps by (intro keep_rules Cons.IH)+
qed (simp add: keeps_rules)

lemma keep_from_wal: "keeps (\<lambda>w. P (view w)) (from_wal_loop ev wal i pages enc)"
proof (induction pages arbitrary: i enc)
  case (Cons p pages)
  obtain k off where p: "p = (k, off)" by (cases p)
  show ?case unfolding p from_wal_loop.simps by (intro keep_rules Cons.IH)+
qed (simp add: keeps_rules)

lemma keep_write_l0: "keeps (\<lambda>w. P (view w)) (write_l0 ev txid info wal rd pm commit sz)"
  unfolding write_l0_def write_ltx_from_db_def write_ltx_from_wal_def
  by (intro keep_rules keep_from_db keep_from_wal)+

lemma keep_sync: "keeps (\<lambda>w. P (view w)) (sync ev pos info)"
  unfolding sync_def by (intro keep_rules keep_write_l0)+

lemma keep_writer_pos: "keeps (\<lambda>w. P (view w)) (writer_pos ev)"
  unfolding writer_pos_def by (intro keep_rules | simp add: view_simps)+

lemma keep_verify_and_sync: "keeps (\<lambda>w. P (view w)) (verify_and_sync ev)"
  unfolding verify_and_sync_def by (intro keep_rules keep_writer_pos keep_sync)+

lemma keep_uncancelled: "keeps (\<lambda>w. P (view w)) m \<Longrightarrow> keeps (\<lambda>w. P (view w)) (uncancelled m)"
proof (rule keepsI)
  fix w r w' assume m: "keeps (\<lambda>w. P (view w)) m" and P: "P (view w)" and run: "uncancelled m w = (r, w')"
  obtain r1 w1 where w1: "m (w\<lparr>w_cancel := token_new\<rparr>) = (r1, w1)" by fastforce
  have "P (view w1)" by (rule keepsD [OF m _ w1]) (simp add: P view_simps)
  with run w1 show "P (view w')" by (auto simp: uncancelled_def view_simps)
qed

lemma keep_client_max: "keeps (\<lambda>w. P (view w)) (client_max ev level)"
  unfolding client_max_def by (intro keep_rules)+

lemma keep_rebaseline: "keeps (\<lambda>w. P (view w)) (rebaseline_from_remote ev f)"
  unfolding rebaseline_from_remote_def by (intro keep_rules | simp add: view_simps)+

end

text \<open>
  A view that does not look at the database and WAL files and the read lock either: the checkpoints
  keep it too.
\<close>

locale writer_frame = writer_view view for view :: "'s writer \<Rightarrow> 'v" +
  assumes view_db: "view (w\<lparr>w_db := db\<rparr>) = view w"
    and view_wal: "view (w\<lparr>w_wal := wal\<rparr>) = view w"
    and view_read_lock: "view (w\<lparr>w_read_lock := l\<rparr>) = view w"
begin

lemmas frame_simps = view_simps view_db view_wal view_read_lock

lemma keep_sql: "keeps (\<lambda>w. P (view w)) (exec_sql ev cmd)" "keeps (\<lambda>w. P (view w)) (write_seq ev)"
  by (auto simp: keeps_def exec_sql_def write_seq_def frame_simps split: prod.splits)

lemmas frame_rules = keep_rules keep_sql

lemma keep_locks: "keeps (\<lambda>w. P (view w)) (lock_acquire ev)" "keeps (\<lambda>w. P (view w)) (lock_release ev)"
  unfolding lock_acquire_def lock_release_def by (intro frame_rules | simp add: frame_simps)+

lemma keep_exec_checkpoint: "keeps (\<lambda>w. P (view w)) (exec_checkpoint ev mode)"
  unfolding exec_checkpoint_def by (intro frame_rules keep_locks)+

lemma keep_checkpoint: "keeps (\<lambda>w. P (view w)) (checkpoint ev mode)"
  unfolding checkpoint_def sync_and_apply_def
  by (intro frame_rules keep_exec_checkpoint keep_uncancelled keep_verify_and_sync)+

lemma keep_checkpoint_if_needed: "keeps (\<lambda>w. P (view w)) (checkpoint_if_needed ev a b)"
  unfolding checkpoint_if_needed_def by (intro frame_rules keep_checkpoint)+

lemma keep_ensure_wal_exists: "keeps (\<lambda>w. P (view w)) (ensure_wal_exists ev)"
  unfolding ensure_wal_exists_def by (intro frame_rules)+

lemmas keep_local = keep_ensure_wal_exists keep_verify_and_sync keep_checkpoint_if_needed keep_writer_pos

end

text \<open>The bucket, and the bucket with the lineage fields of the session, are such views.\<close>

definition session :: "'s writer \<Rightarrow> 's \<times> bool \<times> txid \<times> bool \<times> txid option" where
  "session w = (w_client w, w_lineage_checked w, w_verified_pos w, w_verified_pos_provisional w, w_remote_txid w)"

interpretation bucket: writer_frame w_client
  by unfold_locales simp_all

interpretation sess: writer_frame session
  by unfold_locales (simp_all add: session_def)

lemma bucket_lineage: "keeps (\<lambda>w. P (w_client w)) (ensure_lineage_checked ev)"
  unfolding ensure_lineage_checked_def
  by (intro bucket.keep_rules bucket.keep_client_max bucket.keep_rebaseline | simp)+

lemma bucket_remote_cursor: "keeps (\<lambda>w. P (w_client w)) (remote_cursor ev)"
  unfolding remote_cursor_def by (intro bucket.keep_rules bucket.keep_client_max | simp)+

section \<open>Uploads\<close>

text \<open>
  \<open>C'\<close> is \<open>C\<close> with the local L0 files of the transactions after \<open>a\<close> up to \<open>b\<close> added, and nothing else
  changed.
\<close>

definition extended_by :: "contents \<Rightarrow> meta_dir \<Rightarrow> txid \<Rightarrow> txid \<Rightarrow> contents \<Rightarrow> bool" where
  "extended_by C m a b C' \<longleftrightarrow>
     (\<forall>t. a < t \<and> t \<le> b \<longrightarrow> (\<exists>d time. l0_open m t = Some d \<and> C' (0, t, t) = Some (d, time))) \<and>
     (\<forall>key. (\<nexists>t. a < t \<and> t \<le> b \<and> key = (0, t, t)) \<longrightarrow> C' key = C key)"

lemma extended_by_refl: "extended_by C m a a C"
  by (auto simp: extended_by_def)

lemma extended_by_same: "extended_by C m a a C' \<Longrightarrow> C' = C"
proof (rule ext)
  fix key :: file_key assume "extended_by C m a a C'"
  moreover have "\<nexists>t. a < t \<and> t \<le> a \<and> key = (0, t, t)" by (meson leD)
  ultimately show "C' key = C key" unfolding extended_by_def by blast
qed

lemma extended_by_trans:
  assumes "extended_by C m a b C'" and "extended_by C' m b c C''" and "a \<le> b" and "b \<le> c"
  shows "extended_by C m a c C''"
  unfolding extended_by_def
proof (intro conjI allI impI)
  fix t assume t: "a < t \<and> t \<le> c"
  show "\<exists>d time. l0_open m t = Some d \<and> C'' (0, t, t) = Some (d, time)"
  proof (cases "b < t")
    case True
    with t assms(2) show ?thesis by (auto simp: extended_by_def)
  next
    case False
    then have "C'' (0, t, t) = C' (0, t, t)" using assms(2) by (auto simp: extended_by_def)
    with False t assms(1) show ?thesis by (auto simp: extended_by_def)
  qed
next
  fix key :: file_key assume out: "\<nexists>t. a < t \<and> t \<le> c \<and> key = (0, t, t)"
  then have "\<nexists>t. b < t \<and> t \<le> c \<and> key = (0, t, t)" "\<nexists>t. a < t \<and> t \<le> b \<and> key = (0, t, t)"
    using assms(3,4) by (metis order.strict_trans1, metis order.trans)
  then show "C'' key = C key" using assms(1,2) unfolding extended_by_def by metis
qed

lemma extended_by_single:
  assumes "a < a + 1" and "l0_open m (a + 1) = Some d"
  shows "extended_by C m a (a + 1) (C((0, a + 1, a + 1) \<mapsto> (d, time)))"
proof -
  have "a < t \<and> t \<le> a + 1 \<longleftrightarrow> t = a + 1" for t :: txid
    using assms(1) unat_Suc_no_wrap [OF assms(1)] by (auto simp: word_less_unat word_le_unat word_unat_eq_iff)
  then show ?thesis using assms(2) by (auto simp: extended_by_def)
qed

lemma cancel_check_state: "cancel_check w = (r, w') \<Longrightarrow> \<exists>t. w' = w\<lparr>w_cancel := t\<rparr>"
  by (auto simp: cancel_check_def split: result.splits intro: exI [of _ "w_cancel w"])

text \<open>Where an upload starts: the session's cursor, or the verified position the listing must equal.\<close>

definition upload_start :: "'s writer \<Rightarrow> txid" where
  "upload_start w = (case w_remote_txid w of Some t \<Rightarrow> t | None \<Rightarrow> w_verified_pos w)"

lemma remote_cursor_cases:
  assumes "remote_cursor ev w = (r, w')"
  shows "w_client w' = w_client w" and "w_meta w' = w_meta w" and "w_cached_pos w' = w_cached_pos w"
    and "w_verified_pos w' = w_verified_pos w" and "r = Ok t \<Longrightarrow> t = upload_start w"
    and "r = Ok t \<Longrightarrow> w_lineage_checked w' = w_lineage_checked w"
  using assms
  by (auto simp: remote_cursor_def client_max_def upload_start_def m_bind_def Let_def
      split: option.splits result.splits prod.splits if_splits)

lemma writer_pos_cases:
  assumes "writer_pos ev w = (r, w')"
  shows "\<exists>p. w' = w\<lparr>w_cached_pos := p\<rparr>"
    and "r = Ok p \<Longrightarrow> w_cached_pos w' = Some p \<and> (w_cached_pos w = Some p \<or> w_cached_pos w = None \<and> meta_pos (ev_x ev) (w_meta w) = Ok p)"
  using assms
  by (auto simp: writer_pos_def m_bind_def split: option.splits result.splits prod.splits intro: exI [of _ "w_cached_pos w"])

context bucket_client
begin

lemma client_write_cases:
  assumes "ev_client ev = c" and "inv (w_client w)" and "client_write ev level a b d w = (r, w')"
  shows "(\<exists>e. r = Err e \<and> w' = w) \<or>
    (r = Ok () \<and> (\<exists>s. w' = w\<lparr>w_client := s\<rparr> \<and> inv s \<and>
       (\<exists>time. contents s = (contents (w_client w))((level, a, b) \<mapsto> (d, time)))))"
proof (cases "write_ltx_file c (w_client w) level a b d")
  case (Err e)
  with assms show ?thesis by (auto simp: client_write_def)
next
  case (Ok q)
  obtain info s where q: "q = (info, s)" by (cases q)
  from write_ltx_file_Ok [OF assms(2) Ok [unfolded q]] assms Ok q show ?thesis by (auto simp: client_write_def)
qed

lemma upload_one_cases:
  assumes "ev_client ev = c" and "inv (w_client w)" and "upload_one ev nxt w = (r, w')"
  shows "(\<exists>e. r = Err e \<and> w_client w' = w_client w \<and> w_meta w' = w_meta w \<and> w_remote_txid w' = None \<and>
       w_verified_pos w' = w_verified_pos w) \<or>
    (\<exists>d time. r = Ok (length d) \<and> l0_open (w_meta w) nxt = Some d \<and> inv (w_client w') \<and>
       contents (w_client w') = (contents (w_client w))((0, nxt, nxt) \<mapsto> (d, time)) \<and>
       l0_open (w_meta w') = l0_open (w_meta w) \<and> w_remote_txid w' = Some nxt \<and>
       w_verified_pos w' = max (w_verified_pos w) nxt)"
proof -
  obtain rc w1 where w1: "cancel_check w = (rc, w1)" by fastforce
  from cancel_check_state [OF this] obtain t where t: "w1 = w\<lparr>w_cancel := t\<rparr>" by blast
  note run = assms(3) [unfolded upload_one_def m_try_def w1 prod.case]
  show ?thesis
  proof (cases rc)
    case (Err e)
    with run t show ?thesis by auto
  next
    case (Ok u)
    show ?thesis
    proof (cases "l0_open (w_meta w) nxt")
      case None
      with run Ok t show ?thesis by auto
    next
      case (Some d)
      obtain rw w2 where w2: "client_write ev 0 nxt nxt d w1 = (rw, w2)" by fastforce
      have inv1: "inv (w_client w1)" using assms(2) t by simp
      have run2: "(case rw of Err e \<Rightarrow> m_then (m_mod (\<lambda>w. w\<lparr>w_remote_txid := None\<rparr>)) (m_err e)
         | Ok _ \<Rightarrow> m_then (m_mod (\<lambda>w. w\<lparr>w_remote_txid := Some nxt\<rparr>))
             (m_then (m_mod (\<lambda>w. if w_verified_pos w < nxt
                then w\<lparr>w_verified_pos := nxt, w_meta := write_verified_pos nxt (w_meta w)\<rparr> else w)) (m_ok (length d)))) w2 = (r, w')"
        using run Ok Some t w2 by (simp add: m_try_def)
      from client_write_cases [OF assms(1) inv1 w2] show ?thesis
      proof
        assume "\<exists>e. rw = Err e \<and> w2 = w1"
        with run2 t show ?thesis by auto
      next
        assume "rw = Ok () \<and> (\<exists>s. w2 = w1\<lparr>w_client := s\<rparr> \<and> inv s \<and>
          (\<exists>time. contents s = (contents (w_client w1))((0, nxt, nxt) \<mapsto> (d, time))))"
        then obtain s time where s: "rw = Ok ()" "w2 = w1\<lparr>w_client := s\<rparr>" "inv s"
          "contents s = (contents (w_client w))((0, nxt, nxt) \<mapsto> (d, time))" using t by auto
        have "l0_open (write_verified_pos nxt m) = l0_open m" for m
          by (rule ext) (rule pos_cell.put_l0_open)
        with run2 s t Some show ?thesis by (auto simp: max_def not_less split: if_splits)
      qed
    qed
  qed
qed

lemma upload_loop_extends:
  assumes "ev_client ev = c" and "inv (w_client w)" and "upload_loop ev local cursor n b w = (r, w')"
  shows "\<exists>k. cursor \<le> k \<and> inv (w_client w') \<and>
    extended_by (contents (w_client w)) (w_meta w) cursor k (contents (w_client w')) \<and>
    l0_open (w_meta w') = l0_open (w_meta w) \<and>
    w_verified_pos w' = (if k = cursor then w_verified_pos w else max (w_verified_pos w) k) \<and>
    (case r of Err e \<Rightarrow> w_remote_txid w' = None
     | Ok (n', b', cur) \<Rightarrow> cur = k \<and> local \<le> k \<and> n' = n + (unat k - unat cursor) \<and>
         w_remote_txid w' = (if k = cursor then w_remote_txid w else Some k) \<and> (k = cursor \<or> k = local))"
  using assms
proof (induction ev local cursor n b arbitrary: w rule: upload_loop.induct)
  case (1 ev local cursor n b)
  show ?case
  proof (cases "cursor < local")
    case False
    with "1.prems" show ?thesis
      by (intro exI [of _ cursor]) (auto simp: upload_loop.simps [of ev local cursor] extended_by_refl not_less)
  next
    case True
    have lt: "cursor < cursor + 1" and Suc: "unat (cursor + 1) = unat cursor + 1"
      using unat_Suc_no_wrap [OF True] by (simp_all add: word_less_unat)
    have le: "cursor + 1 \<le> local" by (rule word_less_Suc_le [OF True])
    obtain r1 w1 where w1: "upload_one ev (cursor + 1) w = (r1, w1)" by fastforce
    have run: "(case (r1, w1) of (Err e, w2) \<Rightarrow> (Err e, w2)
        | (Ok sz, w2) \<Rightarrow> upload_loop ev local (cursor + 1) (n + 1) (b + sz) w2) = (r, w')"
      using "1.prems"(3) True w1 by (simp add: upload_loop.simps [of ev local cursor] m_bind_def cong: result.case_cong)
    from upload_one_cases [OF "1.prems"(1,2) w1] show ?thesis
    proof (elim disjE exE conjE)
      fix e assume "r1 = Err e" "w_client w1 = w_client w" "w_meta w1 = w_meta w" "w_remote_txid w1 = None"
        "w_verified_pos w1 = w_verified_pos w"
      with run True "1.prems"(2) show ?thesis
        by (intro exI [of _ cursor]) (auto simp: extended_by_refl)
    next
      fix d time assume one: "r1 = Ok (length d)" "l0_open (w_meta w) (cursor + 1) = Some d" "inv (w_client w1)"
        "contents (w_client w1) = (contents (w_client w))((0, cursor + 1, cursor + 1) \<mapsto> (d, time))"
        "l0_open (w_meta w1) = l0_open (w_meta w)" "w_remote_txid w1 = Some (cursor + 1)"
        "w_verified_pos w1 = max (w_verified_pos w) (cursor + 1)"
      have rest: "upload_loop ev local (cursor + 1) (n + 1) (b + length d) w1 = (r, w')"
        using run True one(1) by simp
      from "1.IH" [OF True "1.prems"(1) one(3) rest] obtain k where k: "cursor + 1 \<le> k" "inv (w_client w')"
        "extended_by (contents (w_client w1)) (w_meta w1) (cursor + 1) k (contents (w_client w'))"
        "l0_open (w_meta w') = l0_open (w_meta w1)"
        "w_verified_pos w' = (if k = cursor + 1 then w_verified_pos w1 else max (w_verified_pos w1) k)"
        "case r of Err e \<Rightarrow> w_remote_txid w' = None
         | Ok (n', b', cur) \<Rightarrow> cur = k \<and> local \<le> k \<and> n' = n + 1 + (unat k - unat (cursor + 1)) \<and>
             w_remote_txid w' = (if k = cursor + 1 then w_remote_txid w1 else Some k) \<and> (k = cursor + 1 \<or> k = local)" by blast
      have first: "extended_by (contents (w_client w)) (w_meta w) cursor (cursor + 1) (contents (w_client w1))"
        unfolding one(4) by (rule extended_by_single [OF lt one(2)])
      have second: "extended_by (contents (w_client w1)) (w_meta w) (cursor + 1) k (contents (w_client w'))"
        using k(3) one(5) by (simp add: extended_by_def)
      have ext: "extended_by (contents (w_client w)) (w_meta w) cursor k (contents (w_client w'))"
        by (rule extended_by_trans [OF first second]) (use lt k(1) in auto)
      have "cursor < k" using lt k(1) by (rule less_le_trans)
      then have ck: "cursor \<le> k" "k \<noteq> cursor" "unat cursor + 1 \<le> unat k" by (auto simp: word_less_unat word_le_unat)
      have vp: "w_verified_pos w' = max (w_verified_pos w) k"
        using k(1,5) one(7) by (auto simp: max_def split: if_splits)
      have res: "case r of Err e \<Rightarrow> w_remote_txid w' = None
         | Ok (n', b', cur) \<Rightarrow> cur = k \<and> local \<le> k \<and> n' = n + (unat k - unat cursor) \<and>
             w_remote_txid w' = (if k = cursor then w_remote_txid w else Some k) \<and> (k = cursor \<or> k = local)"
        using k(6) ck Suc le one(6) by (auto split: result.splits)
      show ?thesis using ck ext vp res k(2,4) one(5) by (intro exI [of _ k]) simp
    qed
  qed
qed

lemma upload_extends:
  assumes "ev_client ev = c" and "inv (w_client w)" and "upload ev w = (r, w')"
  shows "\<exists>k. upload_start w \<le> k \<and> inv (w_client w') \<and>
    extended_by (contents (w_client w)) (w_meta w) (upload_start w) k (contents (w_client w')) \<and>
    (case r of Err e \<Rightarrow> True | Ok (n, b, cur) \<Rightarrow> cur = k \<and> n = unat k - unat (upload_start w))"
proof -
  obtain r1 w1 where w1: "remote_cursor ev w = (r1, w1)" by fastforce
  note rc = remote_cursor_cases [OF w1]
  show ?thesis
  proof (cases r1)
    case (Err e)
    then have "r = Err e" "w' = w1" using assms(3) w1 by (auto simp: upload_def m_bind_def)
    with rc(1) assms(2) show ?thesis by (intro exI [of _ "upload_start w"]) (simp add: extended_by_refl)
  next
    case (Ok t)
    obtain r2 w2 where w2: "writer_pos ev w1 = (r2, w2)" by fastforce
    from writer_pos_cases(1) [OF w2] obtain p where p: "w2 = w1\<lparr>w_cached_pos := p\<rparr>" by blast
    show ?thesis
    proof (cases r2)
      case (Err e)
      then have "r = Err e" "w' = w2" using assms(3) w1 w2 Ok by (auto simp: upload_def m_bind_def)
      with rc(1) p assms(2) show ?thesis by (intro exI [of _ "upload_start w"]) (simp add: extended_by_refl)
    next
      case ok2: (Ok q)
      have loop: "upload_loop ev (p_txid q) t 0 0 w2 = (r, w')"
        using assms(3) w1 w2 Ok ok2 by (simp add: upload_def m_bind_def)
      have inv2: "inv (w_client w2)" using assms(2) p rc(1) by simp
      have t: "t = upload_start w" using rc(5) [OF Ok] .
      from upload_loop_extends [OF assms(1) inv2 loop] show ?thesis
        using p rc(1,2) t by (auto split: result.splits)
    qed
  qed
qed

text \<open>A bucket whose listing does not equal the verified position stops the upload.\<close>

lemma upload_moved_bucket:
  assumes "ev_client ev = c" and "w_remote_txid w = None" and "max_ltx_file_info c (w_client w) 0 = Ok f"
    and "opt_max_txid f \<noteq> w_verified_pos w"
  shows "upload ev w = (Err (Other (foreign_writer_msg (opt_max_txid f) (w_verified_pos w))), w\<lparr>w_lineage_checked := False\<rparr>)"
  using assms by (simp add: upload_def remote_cursor_def client_max_def m_bind_def Let_def)

end

section \<open>The lineage check\<close>

definition is_foreign :: "'s writer \<Rightarrow> txid \<Rightarrow> bool" where
  "is_foreign w remote_max \<longleftrightarrow>
     (if w_verified_pos_provisional w then w_verified_pos w < remote_max else remote_max \<noteq> w_verified_pos w)"

lemma l0_txids_write_pos [simp]: "l0_txids (write_verified_pos t m) = l0_txids m"
  by (simp add: l0_txids_def l0_entries_def write_verified_pos_def)

lemma l0_open_write_pos [simp]: "l0_open (write_verified_pos t m) = l0_open m"
  by (rule ext) (rule pos_cell.put_l0_open)

lemma l0_open_create_dirs [simp]: "l0_open (create_dirs m) = l0_open m"
  by (simp add: l0_open_def create_dirs_def l0_entries_def fun_eq_iff split: option.splits)

context bucket_client
begin

lemma rebaseline_OkD:
  assumes "ev_client ev = c" and "inv (w_client w)" and "rebaseline_from_remote ev f w = (Ok u, w')"
  shows "\<exists>d time. contents (w_client w) (0, fi_min_txid f, fi_max_txid f) = Some (d, time) \<and>
    w_meta w' = l0_put (fi_max_txid f) d (clear_l0 (w_meta w)) \<and> w_cached_pos w' = None \<and>
    \<not> ss_synced_to_wal_end (w_state w') \<and> session w' = session w"
proof -
  obtain r1 w1 where w1: "cancel_check w = (r1, w1)" by fastforce
  from cancel_check_state [OF this] obtain t where t: "w1 = w\<lparr>w_cancel := t\<rparr>" by blast
  from assms(3) obtain d where d: "r1 = Ok ()" "open_ltx_file c (w_client w) 0 (fi_min_txid f) (fi_max_txid f) 0 0 = Ok d"
    and w': "w_meta w' = l0_put (fi_max_txid f) d (clear_l0 (w_meta w))" "w_cached_pos w' = None"
      "\<not> ss_synced_to_wal_end (w_state w')" "session w' = session w"
    unfolding rebaseline_from_remote_def invalidate_pos_def mod_meta_def
    using w1 t assms(1) by (auto simp: m_bind_eq_Ok map_err_eq_Ok session_def)
  from open_ltx_file_Ok [OF assms(2) d(2)] w' show ?thesis by blast
qed

lemma lineage_spec:
  assumes "ev_client ev = c" and "inv (w_client w)" and "\<not> w_lineage_checked w"
    and "ensure_lineage_checked ev w = (Ok u, w')"
  shows "\<exists>f. max_ltx_file_info c (w_client w) 0 = Ok f \<and> w_client w' = w_client w \<and> w_lineage_checked w' \<and>
    w_verified_pos w' = opt_max_txid f \<and> w_remote_txid w' = Some (opt_max_txid f) \<and>
    \<not> w_verified_pos_provisional w' \<and> read_verified_pos (w_meta w') = Some (opt_max_txid f) \<and>
    (if is_foreign w (opt_max_txid f)
     then w_cached_pos w' = None \<and> \<not> ss_synced_to_wal_end (w_state w') \<and>
       (case f of None \<Rightarrow> l0_txids (w_meta w') = {}
        | Some g \<Rightarrow> l0_txids (w_meta w') = {fi_max_txid g} \<and>
            (\<exists>d time. contents (w_client w) (0, fi_min_txid g, fi_max_txid g) = Some (d, time) \<and>
               l0_open (w_meta w') (fi_max_txid g) = Some d))
     else l0_txids (w_meta w') = l0_txids (w_meta w) \<and> l0_open (w_meta w') = l0_open (w_meta w) \<and>
       w_cached_pos w' = w_cached_pos w)"
proof -
  obtain r1 w1 where w1: "cancel_check w = (r1, w1)" by fastforce
  from cancel_check_state [OF this] obtain t where t: "w1 = w\<lparr>w_cancel := t\<rparr>" by blast
  from assms(3,4) w1 t assms(1) obtain f where r1: "r1 = Ok ()" and f: "max_ltx_file_info c (w_client w) 0 = Ok f"
    by (auto simp: ensure_lineage_checked_def client_max_def m_bind_eq_Ok map_err_eq_Ok m_bind_assoc)
  let ?rm = "opt_max_txid f"
  let ?fin = "\<lambda>w. w\<lparr>w_verified_pos_provisional := False, w_remote_txid := Some ?rm, w_lineage_checked := True\<rparr>"
  show ?thesis
  proof (cases "is_foreign w ?rm")
    case False
    then have w': "w' = ?fin (w1\<lparr>w_verified_pos := ?rm,
        w_meta := (if read_verified_pos (w_meta w) \<noteq> Some ?rm then write_verified_pos ?rm (w_meta w) else w_meta w)\<rparr>)"
      using assms(1,3,4) w1 t r1 f
      by (auto simp: ensure_lineage_checked_def client_max_def m_bind_eq_Ok is_foreign_def Let_def split: if_splits)
    with False f t show ?thesis by (auto simp: pos_cell.get_put)
  next
    case True
    show ?thesis
    proof (cases f)
      case None
      then have w': "w' = ?fin (w1\<lparr>w_meta := write_verified_pos ?rm (clear_l0 (w_meta w)), w_cached_pos := None,
          w_state := (w_state w)\<lparr>ss_synced_to_wal_end := False\<rparr>, w_verified_pos := ?rm\<rparr>)"
        using assms(1,3,4) w1 t r1 f True
        by (auto simp: ensure_lineage_checked_def client_max_def m_bind_eq_Ok is_foreign_def Let_def
            mod_meta_def invalidate_pos_def split: if_splits)
      with None True f t show ?thesis by (auto simp: pos_cell.get_put)
    next
      case (Some g)
      then obtain w2 where w2: "rebaseline_from_remote ev g w1 = (Ok (), w2)"
        and w': "w' = ?fin (w2\<lparr>w_verified_pos := ?rm, w_meta := write_verified_pos ?rm (w_meta w2)\<rparr>)"
        using assms(1,3,4) w1 t r1 f True
        by (auto simp: ensure_lineage_checked_def client_max_def m_bind_eq_Ok is_foreign_def Let_def
            split: if_splits)
      have inv1: "inv (w_client w1)" using assms(2) t by simp
      from rebaseline_OkD [OF assms(1) inv1 w2] show ?thesis
        using w' Some True f t
        by (auto simp: pos_cell.get_put l0_txids_put l0_open_put session_def opt_max_txid_def)
    qed
  qed
qed

text \<open>No local file beyond the start: an upload changes nothing.\<close>

lemma upload_nothing:
  assumes "ev_client ev = c" and "inv (w_client w)" and "upload ev w = (r, w')"
    and "\<And>t. upload_start w < t \<Longrightarrow> l0_open (w_meta w) t = None"
  shows "contents (w_client w') = contents (w_client w)"
proof -
  from upload_extends [OF assms(1-3)] obtain k where k: "upload_start w \<le> k"
    "extended_by (contents (w_client w)) (w_meta w) (upload_start w) k (contents (w_client w'))" by blast
  have "\<not> upload_start w < k" using k(2) assms(4) [of k] by (auto simp: extended_by_def)
  then have "k = upload_start w" using k(1) by simp
  with k(2) show ?thesis by (auto dest: extended_by_same)
qed

lemma push_foreign:
  assumes "ev_client ev = c" and "inv (w_client w)" and "\<not> w_lineage_checked w"
    and "max_ltx_file_info c (w_client w) 0 = Ok f" and "is_foreign w (opt_max_txid f)"
    and "push_with ev tok w = (r, w')"
  shows "contents (w_client w') = contents (w_client w)"
proof -
  let ?I = "\<lambda>v. session v = session w" and ?E = "\<lambda>v. contents (w_client v) = contents (w_client w)"
  let ?L = "\<lambda>v. w_client v = w_client w \<and> w_remote_txid v = Some (opt_max_txid f) \<and>
    (\<forall>t. opt_max_txid f < t \<longrightarrow> l0_open (w_meta v) t = None)"
  have IE: "?I v \<Longrightarrow> ?E v" for v by (simp add: session_def)
  have lin: "triple ?I (ensure_lineage_checked ev) (\<lambda>_. ?L) ?E"
  proof (rule tripleI)
    fix v u v' assume I: "?I v" and run: "ensure_lineage_checked ev v = (Ok u, v')"
    have v: "inv (w_client v)" "\<not> w_lineage_checked v" "w_client v = w_client w"
      "is_foreign v (opt_max_txid f)" using I assms(2,3,5) by (auto simp: session_def is_foreign_def)
    from lineage_spec [OF assms(1) v(1,2) run] assms(4) v(3,4)
    have L: "w_client v' = w_client w" "w_remote_txid v' = Some (opt_max_txid f)"
      "case f of None \<Rightarrow> l0_txids (w_meta v') = {} | Some g \<Rightarrow> l0_txids (w_meta v') = {fi_max_txid g}"
      by (auto split: option.splits)
    then have "l0_txids (w_meta v') \<subseteq> {opt_max_txid f}" by (cases f) (auto simp: opt_max_txid_def)
    then have "l0_open (w_meta v') t = None" if "opt_max_txid f < t" for t
      using that l0_open_txid [of "w_meta v'" t] by (cases "l0_open (w_meta v') t") auto
    with L show "?L v'" by blast
  next
    fix v e v' assume "?I v" and run: "ensure_lineage_checked ev v = (Err e, v')"
    then have "w_client v = w_client w" by (simp add: session_def)
    from keepsD [OF bucket_lineage [of "\<lambda>s. s = w_client w"] this run] show "?E v'" by simp
  qed
  have up: "triple ?L (upload ev) (\<lambda>_. ?E) ?E"
  proof (rule tripleI)
    fix v x v' assume L: "?L v" and run: "upload ev v = (Ok x, v')"
    show "?E v'" using upload_nothing [OF assms(1) _ run] L assms(2) by (simp add: upload_start_def)
  next
    fix v e v' assume L: "?L v" and run: "upload ev v = (Err e, v')"
    show "?E v'" using upload_nothing [OF assms(1) _ run] L assms(2) by (simp add: upload_start_def)
  qed
  have flag: "keeps ?I (if b then m_mod (\<lambda>w. w\<lparr>w_state := (w_state w)\<lparr>ss_synced_since_checkpoint := True\<rparr>\<rparr>) else m_ok ())" for b
    by (simp add: keeps_def session_def)
  have cp: "keeps ?I (if b then checkpoint_if_needed ev m n else m_ok False)" for b m n
    by (intro sess.keep_rules sess.keep_checkpoint_if_needed)
  have "triple ?I (push_with ev tok) (\<lambda>_. ?E) ?E"
    unfolding push_with_def
    by (rule triple_keeps_bind [OF sess.keep_base(3) IE], assumption,
        rule triple_keeps_bind [OF sess.keep_base(1) IE], assumption,
        rule triple_keeps_bind [OF sess.keep_ensure_wal_exists IE], assumption,
        rule triple_keeps_bind [OF keeps_basic(4) IE], assumption, rule triple_let,
        rule triple_keeps_bind [OF sess.keep_verify_and_sync IE], assumption,
        rule triple_keeps_bind [OF sess.keep_base(6) IE], assumption,
        rule triple_keeps_bind [OF flag IE], assumption,
        rule triple_keeps_bind [OF sess.keep_base(1) IE], assumption,
        rule triple_keeps_bind [OF cp IE], assumption,
        rule triple_bind [OF lin], rule triple_bind [OF up], (rule triple_prod)+,
        rule triple_keeps_bind [OF bucket.keep_base(5)], assumption,
        rule triple_keeps_bind [OF bucket.keep_writer_pos], assumption, rule triple_ok, assumption)
  from tripleD [OF this refl, of _ w'] assms(6) show ?thesis by (cases r) auto
qed

end

section \<open>What a conversion writes\<close>

text \<open>The page a snapshot holds: the WAL's committed version, else the database file's.\<close>

definition source_page :: "byte list \<Rightarrow> byte list \<Rightarrow> nat \<Rightarrow> (u32 \<times> nat) list \<Rightarrow> u32 \<Rightarrow> byte list" where
  "source_page db wal n pages k =
     (case map_of pages k of
        Some offset \<Rightarrow> read_at wal n (offset + WAL_FRAME_HEADER_SIZE)
      | None \<Rightarrow> read_at db n ((unat k - 1) * n))"

lemma read_full_at_OkD: "read_full_at f n off = Ok d \<Longrightarrow> d = read_at f n off"
  by (auto simp: read_full_at_def Let_def split: if_splits)

lemma check_or_ok_state:
  "(if b then cancel_check else m_ok ()) w = (Ok u, w') \<Longrightarrow> \<exists>t. w' = w\<lparr>w_cancel := t\<rparr>"
  by (auto split: if_splits dest: cancel_check_state intro: exI [of _ "w_cancel w"])

lemma from_db_loop_OkD:
  assumes "from_db_loop ev wal pages pgnos enc w = (Ok enc', w')"
  shows "\<exists>t. w' = w\<lparr>w_cancel := t\<rparr> \<and>
    encode_pages (ev_x ev) enc (map (\<lambda>k. (k, source_page (w_db w) wal (unat (w_page_size w)) pages k))
      (filter (\<lambda>k. k \<noteq> lock_pgno (w_page_size w)) pgnos)) = Ok enc'"
  using assms
proof (induction pgnos arbitrary: enc w)
  case Nil
  then show ?case by (auto intro: exI [of _ "w_cancel w"])
next
  case (Cons k pgnos)
  from Cons.prems obtain u w1 where w1: "(if k mod 256 = 0 then cancel_check else m_ok ()) w = (Ok u, w1)"
    and rest: "m_bind m_get (\<lambda>w. let n = unat (w_page_size w) in
       if k = lock_pgno (w_page_size w) then from_db_loop ev wal pages pgnos enc
       else m_bind (m_lift (case map_of pages k of
                 Some offset \<Rightarrow> read_full_at wal n (offset + WAL_FRAME_HEADER_SIZE)
               | None \<Rightarrow> read_full_at (w_db w) n ((unat k - 1) * n))) (\<lambda>data.
            m_bind (m_lift (ltx_q (encode_page (ev_x ev) enc k data))) (\<lambda>enc.
            from_db_loop ev wal pages pgnos enc))) w1 = (Ok enc', w')"
    unfolding from_db_loop.simps by (auto simp only: m_bind_eq_Ok)
  from check_or_ok_state [OF w1] obtain t where t: "w1 = w\<lparr>w_cancel := t\<rparr>" by blast
  show ?case
  proof (cases "k = lock_pgno (w_page_size w)")
    case True
    then have "from_db_loop ev wal pages pgnos enc w1 = (Ok enc', w')" using rest t by (simp add: Let_def)
    from Cons.IH [OF this] True t show ?thesis by auto
  next
    case False
    let ?d = "source_page (w_db w) wal (unat (w_page_size w)) pages k"
    from rest False t obtain enc1 where enc1: "encode_page (ev_x ev) enc k ?d = Ok enc1"
      and run: "from_db_loop ev wal pages pgnos enc1 w1 = (Ok enc', w')"
      by (auto simp: Let_def m_bind_eq_Ok map_err_eq_Ok source_page_def split: option.splits dest!: read_full_at_OkD)
    from Cons.IH [OF run] False t enc1 show ?thesis by auto
  qed
qed

lemma from_wal_loop_OkD:
  assumes "from_wal_loop ev wal i pages enc w = (Ok enc', w')"
  shows "\<exists>t. w' = w\<lparr>w_cancel := t\<rparr> \<and>
    encode_pages (ev_x ev) enc
      (map (\<lambda>(k, offset). (k, read_at wal (unat (w_page_size w)) (offset + WAL_FRAME_HEADER_SIZE))) pages) = Ok enc'"
  using assms
proof (induction pages arbitrary: i enc w)
  case Nil
  then show ?case by (auto intro: exI [of _ "w_cancel w"])
next
  case (Cons p pages)
  obtain k offset where p: "p = (k, offset)" by (cases p)
  let ?d = "\<lambda>w. read_at wal (unat (w_page_size w)) (offset + WAL_FRAME_HEADER_SIZE)"
  from Cons.prems obtain u w1 enc1 where w1: "(if i mod 256 = 0 then cancel_check else m_ok ()) w = (Ok u, w1)"
    and enc1: "encode_page (ev_x ev) enc k (?d w1) = Ok enc1"
    and run: "from_wal_loop ev wal (Suc i) pages enc1 w1 = (Ok enc', w')"
    unfolding p from_wal_loop.simps
    by (auto simp: m_bind_eq_Ok map_err_eq_Ok simp del: m_bind_simps(1) split del: if_split dest!: read_full_at_OkD)
  from check_or_ok_state [OF w1] obtain t where t: "w1 = w\<lparr>w_cancel := t\<rparr>" by blast
  from Cons.IH [OF run] t enc1 show ?case by (auto simp: p)
qed

definition l0_pages :: "sync_info \<Rightarrow> byte list \<Rightarrow> byte list \<Rightarrow> u32 \<Rightarrow> u32 \<Rightarrow> page_map \<Rightarrow> (u32 \<times> byte list) list" where
  "l0_pages info db wal page_size commit pm =
     (if si_snapshotting info
      then map (\<lambda>k. (k, source_page db wal (unat page_size) (pm_pages pm) k))
             (filter (\<lambda>k. k \<noteq> lock_pgno page_size) (page_numbers commit))
      else map (\<lambda>(k, offset). (k, read_at wal (unat page_size) (offset + WAL_FRAME_HEADER_SIZE))) (pm_pages pm))"

lemma encode_file_no_post:
  assumes "encode_header encoder_new h = Ok e" and "encode_pages x e pages = Ok e'" and "encoder_finish x e' = Ok r"
  shows "encode_file x h pages 0 = Ok r"
proof -
  note eh = encode_header_OkD [OF assms(1)]
  have "e_trailer e' = trailer_default" using encode_pages_OkD(3) [OF eh(1) assms(2)] eh(7) by simp
  then have "set_post_apply_checksum e' 0 = e'" by (simp add: set_post_apply_checksum_def trailer_default_def)
  with assms show ?thesis by (simp add: encode_file_def)
qed

lemma write_l0_OkD:
  assumes "write_l0 ev txid info wal rd pm commit sz w = (Ok u, w')"
  shows "\<exists>ts bytes trl t cl. encode_file (ev_x ev) (l0_header (w_page_size w) commit txid ts info sz rd)
      (l0_pages info (w_db w) wal (w_page_size w) commit pm) 0 =
      Ok (bytes, l0_header (w_page_size w) commit txid ts info sz rd, trl) \<and>
    w' = w\<lparr>w_meta := l0_put txid bytes (create_dirs (w_meta w)), w_cancel := t, w_clock := cl\<rparr>"
proof -
  let ?ts = "w_clock w 0"
  let ?h = "l0_header (w_page_size w) commit txid ?ts info sz rd"
  let ?w1 = "w\<lparr>w_meta := create_dirs (w_meta w), w_clock := (\<lambda>n. w_clock w (Suc n))\<rparr>"
  from assms obtain enc enc' w2 bytes h' trl where enc: "encode_header encoder_new ?h = Ok enc"
    and pages: "(if si_snapshotting info then write_ltx_from_db ev wal commit (pm_pages pm) enc
              else write_ltx_from_wal ev wal (pm_pages pm) enc) ?w1 = (Ok enc', w2)"
    and fin: "encoder_finish (ev_x ev) enc' = Ok (bytes, h', trl)"
    and w': "w' = w2\<lparr>w_meta := l0_put txid bytes (w_meta w2)\<rparr>"
    unfolding write_l0_def mod_meta_def now_unix_millis_def
    by (auto simp: m_bind_eq_Ok map_err_eq_Ok split del: if_split)
  obtain t where t: "w2 = ?w1\<lparr>w_cancel := t\<rparr>"
    and ep: "encode_pages (ev_x ev) enc (l0_pages info (w_db w) wal (w_page_size w) commit pm) = Ok enc'"
  proof (cases "si_snapshotting info")
    case True
    with pages have "from_db_loop ev wal (pm_pages pm) (page_numbers commit) enc ?w1 = (Ok enc', w2)"
      by (simp add: write_ltx_from_db_def)
    from from_db_loop_OkD [OF this] that True show ?thesis by (auto simp: l0_pages_def)
  next
    case False
    with pages have "from_wal_loop ev wal 0 (pm_pages pm) enc ?w1 = (Ok enc', w2)"
      by (simp add: write_ltx_from_wal_def)
    from from_wal_loop_OkD [OF this] that False show ?thesis by (auto simp: l0_pages_def)
  qed
  have ef: "encode_file (ev_x ev) ?h (l0_pages info (w_db w) wal (w_page_size w) commit pm) 0 = Ok (bytes, h', trl)"
    by (rule encode_file_no_post [OF enc ep fin])
  have "h' = ?h" by (rule encode_file_OkD(2) [OF ef])
  with ef w' t show ?thesis by (intro exI [of _ ?ts] exI [of _ bytes] exI [of _ trl]
      exI [of _ t] exI [of _ "\<lambda>n. w_clock w (Suc n)"]) simp
qed

text \<open>A conversion that succeeds: nothing new, or one L0 file for the next transaction.\<close>

lemma sync_OkD:
  assumes "sync ev pos info w = (Ok out, w')"
  shows "(\<not> so_synced out \<and> so_pos out = None \<and> \<not> si_snapshotting info \<and> w' = w) \<or>
    (\<exists>wal info' rd0 pm rd sz commit ts bytes trl t cl.
       w_wal w = Some wal \<and> open_reader wal info = Ok (info', rd0) \<and> wal_page_map rd0 = (pm, rd) \<and>
       consumed_size pm info' = Ok sz \<and>
       commit = (if 0 < pm_commit pm then pm_commit pm else db_commit (w_db w) (w_page_size w)) \<and>
       encode_file (ev_x ev) (l0_header (w_page_size w) commit (p_txid pos + 1) ts info' sz rd)
         (l0_pages info' (w_db w) wal (w_page_size w) commit pm) 0 =
         Ok (bytes, l0_header (w_page_size w) commit (p_txid pos + 1) ts info' sz rd, trl) \<and>
       w' = w\<lparr>w_meta := l0_put (p_txid pos + 1) bytes (create_dirs (w_meta w)), w_cancel := t, w_clock := cl\<rparr> \<and>
       so_synced out \<and> so_pos out = Some \<lparr>p_txid = p_txid pos + 1, p_post_apply_checksum = 0\<rparr> \<and>
       so_new_wal_size out = si_offset info' + sz \<and>
       so_synced_to_wal_end out = (si_offset info' + sz = wal_file_size (w_wal w)))"
proof -
  from assms obtain wal info' rd0 where wal: "w_wal w = Some wal" "open_reader wal info = Ok (info', rd0)"
    by (auto simp: sync_def Let_def m_bind_eq_Ok ok_or_eq_Ok)
  obtain pm rd where pm: "wal_page_map rd0 = (pm, rd)" by (cases "wal_page_map rd0")
  have snap: "si_snapshotting info' = si_snapshotting info"
    using wal(2) by (auto simp: open_reader_def and_then_eq_Ok split: if_splits result.splits wal_error.splits)
  from assms wal pm obtain sz where sz: "consumed_size pm info' = Ok sz"
    by (auto simp: sync_def Let_def m_bind_eq_Ok)
  let ?commit = "if 0 < pm_commit pm then pm_commit pm else db_commit (w_db w) (w_page_size w)"
  show ?thesis
  proof (cases "\<not> si_snapshotting info' \<and> sz = 0")
    case True
    with assms wal pm sz snap have "\<not> so_synced out" "so_pos out = None" "w' = w" "\<not> si_snapshotting info"
      by (auto simp: sync_def Let_def)
    then show ?thesis by blast
  next
    case False
    then obtain u w1 where w1: "write_l0 ev (p_txid pos + 1) info' wal rd pm ?commit sz w = (Ok u, w1)"
      and w': "w' = w1" "so_synced out" "so_pos out = Some \<lparr>p_txid = p_txid pos + 1, p_post_apply_checksum = 0\<rparr>"
        "so_new_wal_size out = si_offset info' + sz"
        "so_synced_to_wal_end out = (si_offset info' + sz = wal_file_size (w_wal w1))"
      using assms wal pm sz by (auto simp: sync_def Let_def m_bind_eq_Ok split del: if_split)
    from write_l0_OkD [OF w1] obtain ts bytes trl t cl where
      f: "encode_file (ev_x ev) (l0_header (w_page_size w) ?commit (p_txid pos + 1) ts info' sz rd)
         (l0_pages info' (w_db w) wal (w_page_size w) ?commit pm) 0 =
         Ok (bytes, l0_header (w_page_size w) ?commit (p_txid pos + 1) ts info' sz rd, trl)"
      "w1 = w\<lparr>w_meta := l0_put (p_txid pos + 1) bytes (create_dirs (w_meta w)), w_cancel := t, w_clock := cl\<rparr>" by blast
    have "so_synced_to_wal_end out = (si_offset info' + sz = wal_file_size (w_wal w))" using w'(5) f(2) by simp
    with w' f wal pm sz show ?thesis by blast
  qed
qed

section \<open>The position invariant\<close>

text \<open>
  Every local L0 file holds a single transaction, named after it, and verifies; so does every L0 file
  of the bucket; and a cached position is the position the newest local file gives.
\<close>

definition verifies_at :: "externs \<Rightarrow> byte list \<Rightarrow> txid \<Rightarrow> bool" where
  "verifies_at x d t \<longleftrightarrow> (\<exists>h trl idx. decoder_verify x d = Ok (h, trl, idx) \<and> h_max_txid h = t)"

definition l0_ok :: "externs \<Rightarrow> meta_dir \<Rightarrow> bool" where
  "l0_ok x m \<longleftrightarrow>
     (\<forall>e \<in> set (l0_entries m). \<forall>a b. parse_filename (fst e) = Some (a, b) \<longrightarrow> a = b) \<and>
     (\<forall>t d. l0_open m t = Some d \<longrightarrow> verifies_at x d t)"

definition bucket_ok :: "externs \<Rightarrow> contents \<Rightarrow> bool" where
  "bucket_ok x C \<longleftrightarrow> (\<forall>a b d time. C (0, a, b) = Some (d, time) \<longrightarrow> verifies_at x d b)"

definition pos_ok :: "externs \<Rightarrow> 's writer \<Rightarrow> bool" where
  "pos_ok x w \<longleftrightarrow>
     l0_ok x (w_meta w) \<and>
     (case w_cached_pos w of None \<Rightarrow> True | Some p \<Rightarrow> meta_pos x (w_meta w) = Ok p)"

lemma l0_txids_open:
  assumes "l0_ok x m" and "t \<in> l0_txids m"
  shows "\<exists>d. l0_open m t = Some d"
proof -
  from assms(2) obtain e a where e: "e \<in> set (l0_entries m)" "parse_filename (fst e) = Some (a, t)"
    by (auto simp: l0_txids_def)
  with assms(1) have "a = t" by (auto simp: l0_ok_def)
  with e(2) have "fst e = l0_name t" using format_parse_filename [of "fst e" a t] by (simp add: l0_name_def)
  with e(1) show ?thesis unfolding l0_open_def by (metis map_of_eq_None_iff not_None_eq image_eqI)
qed

lemma meta_pos_ok:
  assumes "l0_ok x m" and "meta_pos x m = Ok p"
  shows "max_l0_txid m = (if p_txid p = 0 \<and> l0_txids m = {} then None else Some (p_txid p))"
    and "t \<in> l0_txids m \<Longrightarrow> t \<le> p_txid p"
proof -
  note spec = max_l0_txid_spec [of m]
  from meta_pos_OkD [OF assms(2)] have
    "max_l0_txid m = (if p_txid p = 0 \<and> l0_txids m = {} then None else Some (p_txid p)) \<and>
     (t \<in> l0_txids m \<longrightarrow> t \<le> p_txid p)"
  proof (elim disjE exE conjE)
    assume "l0_txids m = {}" "p = pos_default"
    then show ?thesis using spec by (simp add: pos_default_def pos_new_def)
  next
    fix t' d hdr trl idx
    assume mx: "max_l0_txid m = Some t'" "l0_open m t' = Some d" "decoder_verify x d = Ok (hdr, trl, idx)"
      "p_txid p = h_max_txid hdr"
    from assms(1) mx(2) have "verifies_at x d t'" by (auto simp: l0_ok_def)
    with mx(3,4) have "p_txid p = t'" by (auto simp: verifies_at_def)
    with mx(1) spec show ?thesis by auto
  qed
  then show "max_l0_txid m = (if p_txid p = 0 \<and> l0_txids m = {} then None else Some (p_txid p))"
    "t \<in> l0_txids m \<Longrightarrow> t \<le> p_txid p" by auto
qed

lemma l0_ok_put:
  assumes "l0_ok x m" and "verifies_at x d t"
  shows "l0_ok x (l0_put t d m)"
proof -
  have "a = b" if "e \<in> set (l0_entries (l0_put t d m))" "parse_filename (fst e) = Some (a, b)" for e a b
  proof (cases "fst e = l0_name t")
    case True
    with that(2) show ?thesis by (auto simp: l0_name_def parse_format_filename)
  next
    case False
    with that(1) have "e \<in> set (l0_entries m)" by (auto simp: l0_put_def l0_entries_def)
    with that(2) assms(1) show ?thesis by (auto simp: l0_ok_def)
  qed
  with assms show ?thesis by (auto simp: l0_ok_def l0_open_put split: if_splits)
qed

lemma l0_ok_clear [simp]: "l0_ok x (clear_l0 m)"
  by (simp add: l0_ok_def l0_open_def l0_entries_def clear_l0_def)

lemma l0_ok_same: "l0_entries m' = l0_entries m \<Longrightarrow> l0_ok x m' = l0_ok x m"
  by (simp add: l0_ok_def l0_open_def)

lemma l0_entries_same [simp]:
  "l0_entries (create_dirs m) = l0_entries m" "l0_entries (write_verified_pos t m) = l0_entries m"
  "l0_entries (write_sync_state off m) = l0_entries m"
  by (simp_all add: l0_entries_def create_dirs_def write_verified_pos_def write_sync_state_def split: option.splits)

lemma l0_ok_simps [simp]:
  "l0_ok x (create_dirs m) = l0_ok x m" "l0_ok x (write_verified_pos t m) = l0_ok x m"
  "l0_ok x (write_sync_state off m) = l0_ok x m"
  by (rule l0_ok_same, simp)+

lemma meta_pos_simps [simp]:
  "meta_pos x (write_verified_pos t m) = meta_pos x m" "meta_pos x (write_sync_state off m) = meta_pos x m"
  "meta_pos x (create_dirs m) = meta_pos x m"
  by (rule pos_cell.put_meta_pos, rule sync_cell.put_meta_pos,
      simp add: meta_pos_def max_l0_txid_def l0_open_def create_dirs_def [of m] l0_entries_def split: option.splits)

lemma l0_ok_prune: "l0_ok x m \<Longrightarrow> l0_ok x (prune_l0 m before)"
proof -
  assume ok: "l0_ok x m"
  have sub: "set (l0_entries (prune_l0 m before)) \<subseteq> set (l0_entries m)"
    by (auto simp: prune_l0_def l0_entries_def split: option.splits)
  have "l0_open (prune_l0 m before) t = Some d \<Longrightarrow> l0_open m t = Some d" for t d
  proof -
    assume o: "l0_open (prune_l0 m before) t = Some d"
    obtain P where "l0_entries (prune_l0 m before) = filter (\<lambda>(name, _). P name) (l0_entries m)"
    proof (cases "max_l0_txid m")
      case None
      show ?thesis by (rule that [of "\<lambda>_. True"]) (simp add: prune_l0_def None)
    next
      case (Some newest)
      show ?thesis by (rule that [of "\<lambda>n. \<not> prunable before newest n"])
          (simp add: prune_l0_def Some l0_entries_def split: option.splits)
    qed
    with o show "l0_open m t = Some d"
      by (auto simp: l0_open_def map_of_filter_fst restrict_map_def split: if_splits)
  qed
  with ok sub show ?thesis unfolding l0_ok_def by blast
qed

lemma pos_ok_simps [simp]:
  "pos_ok x (w\<lparr>w_cancel := t\<rparr>) = pos_ok x w" "pos_ok x (w\<lparr>w_clock := cl\<rparr>) = pos_ok x w"
  "pos_ok x (w\<lparr>w_db := db\<rparr>) = pos_ok x w" "pos_ok x (w\<lparr>w_wal := wal\<rparr>) = pos_ok x w"
  "pos_ok x (w\<lparr>w_state := st\<rparr>) = pos_ok x w" "pos_ok x (w\<lparr>w_read_lock := l\<rparr>) = pos_ok x w"
  "pos_ok x (w\<lparr>w_client := s\<rparr>) = pos_ok x w" "pos_ok x (w\<lparr>w_remote_txid := r\<rparr>) = pos_ok x w"
  "pos_ok x (w\<lparr>w_verified_pos := v\<rparr>) = pos_ok x w" "pos_ok x (w\<lparr>w_lineage_checked := b\<rparr>) = pos_ok x w"
  "pos_ok x (w\<lparr>w_verified_pos_provisional := b\<rparr>) = pos_ok x w"
  by (simp_all add: pos_ok_def split: option.splits)

text \<open>A conversion followed by the application of its outcome moves position and file together.\<close>

lemma l0_header_no_checksum: "no_checksum (l0_header ps commit t ts info sz rd)"
  by (simp add: no_checksum_def l0_header_def HEADER_FLAG_NO_CHECKSUM_def)

lemma encoded_l0_verifies:
  assumes "lz4_ok x" and "encode_file x (l0_header ps commit t ts info sz rd) pages 0 = Ok (bytes, h, trl)"
  shows "\<exists>idx. decoder_verify x bytes = Ok (l0_header ps commit t ts info sz rd, trl, idx)"
    and "t_post_apply_checksum trl = 0" and "verifies_at x bytes t" and "t \<noteq> 0"
proof -
  note ok = encode_file_OkD [OF assms(2)]
  show v: "\<exists>idx. decoder_verify x bytes = Ok (l0_header ps commit t ts info sz rd, trl, idx)"
    using verify_file_bytes [OF assms] l0_header_no_checksum by blast
  show "t_post_apply_checksum trl = 0" by (simp add: ok(3) file_trailer_def)
  from v show "verifies_at x bytes t" by (auto simp: verifies_at_def l0_header_def)
  show "t \<noteq> 0" using ok(4) by (auto simp: header_validate_def l0_header_def txid_is_zero_def split: if_splits)
qed

lemma put_next_pos:
  assumes "l0_ok x m" and "meta_pos x m = Ok p" and "t = p_txid p + 1" and "t \<noteq> 0"
    and "decoder_verify x d = Ok (h, trl, idx)" and "h_max_txid h = t"
  shows "meta_pos x (l0_put t d m) = Ok \<lparr>p_txid = t, p_post_apply_checksum = t_post_apply_checksum trl\<rparr>"
proof -
  have lt: "p_txid p < t" unfolding assms(3) by (rule word_less_plus_one) (use assms(3,4) in simp)
  have "max_l0_txid (l0_put t d m) = Some t"
    by (rule max_l0_txid_put) (use meta_pos_ok(2) [OF assms(1,2)] lt in fastforce)
  moreover have "l0_open (l0_put t d m) t = Some d" by (simp add: l0_open_put)
  ultimately show ?thesis by (simp add: meta_pos_def assms(5,6))
qed

lemma sync_pos_ok:
  assumes "lz4_ok (ev_x ev)" and "pos_ok (ev_x ev) w" and "w_cached_pos w = Some p"
    and "sync ev p info w = (Ok out, w')"
  shows "pos_ok (ev_x ev) (snd (apply_sync_outcome out w'))"
proof -
  let ?x = "ev_x ev"
  have ok: "l0_ok ?x (w_meta w)" "meta_pos ?x (w_meta w) = Ok p" using assms(2,3) by (auto simp: pos_ok_def)
  from sync_OkD [OF assms(4)] show ?thesis
  proof (elim disjE exE conjE)
    assume "so_pos out = None" "w' = w"
    with ok assms(3) show ?thesis by (simp add: apply_sync_outcome_def pos_ok_def)
  next
    fix wal info' rd0 pm rd sz commit ts bytes trl t cl
    let ?h = "l0_header (w_page_size w) commit (p_txid p + 1) ts info' sz rd"
    assume enc: "encode_file ?x ?h (l0_pages info' (w_db w) wal (w_page_size w) commit pm) 0 = Ok (bytes, ?h, trl)"
      and w': "w' = w\<lparr>w_meta := l0_put (p_txid p + 1) bytes (create_dirs (w_meta w)), w_cancel := t, w_clock := cl\<rparr>"
      and out: "so_pos out = Some \<lparr>p_txid = p_txid p + 1, p_post_apply_checksum = 0\<rparr>"
    note v = encoded_l0_verifies [OF assms(1) enc]
    obtain idx where idx: "decoder_verify ?x bytes = Ok (?h, trl, idx)" using v(1) by blast
    have cd: "l0_ok ?x (create_dirs (w_meta w))" "meta_pos ?x (create_dirs (w_meta w)) = Ok p"
      using ok by simp_all
    have "meta_pos ?x (l0_put (p_txid p + 1) bytes (create_dirs (w_meta w))) =
        Ok \<lparr>p_txid = p_txid p + 1, p_post_apply_checksum = t_post_apply_checksum trl\<rparr>"
      by (rule put_next_pos [OF cd refl v(4) idx]) (simp add: l0_header_def)
    with v(2,3) ok w' out show ?thesis
      by (simp add: apply_sync_outcome_def pos_ok_def l0_ok_put)
  qed
qed

named_theorems pos_rules

lemma pos_mod [pos_rules]: "(\<And>w. pos_ok x (f w) = pos_ok x w) \<Longrightarrow> keeps (pos_ok x) (m_mod f)"
  by (simp add: keeps_def)

lemma pos_base [pos_rules]:
  "keeps (pos_ok x) cancel_check" "keeps (pos_ok x) now_unix_millis" "keeps (pos_ok x) (exec_sql ev cmd)"
  "keeps (pos_ok x) (write_seq ev)" "keeps (pos_ok x) (set_cancel t)" "keeps (pos_ok x) checkpoint_done"
  "keeps (pos_ok x) invalidate_pos" "keeps (pos_ok x) (mod_meta create_dirs)" "keeps (pos_ok x) (mod_meta (write_verified_pos v))"
  by (auto simp: keeps_def cancel_check_def now_unix_millis_def exec_sql_def write_seq_def set_cancel_def
      invalidate_pos_def mod_meta_def checkpoint_done_def pos_ok_def split: result.splits prod.splits option.splits)

lemma pos_prune [pos_rules]: "keeps (pos_ok x) (mod_meta (\<lambda>m. prune_l0 m before))"
proof -
  have "meta_pos x (prune_l0 m before) = Ok p" if "l0_ok x m" "meta_pos x m = Ok p" for m p
  proof -
    have root: "md_root (prune_l0 m before) = md_root m" by (simp add: prune_l0_def split: option.splits)
    have mx: "max_l0_txid (prune_l0 m before) = max_l0_txid m"
      and opn: "max_l0_txid m = Some t \<Longrightarrow> l0_open (prune_l0 m before) t = l0_open m t" for t
      using prune_keeps [of m before] by (auto simp: fun_eq_iff restrict_map_def split: if_splits)
    from that(2) show ?thesis unfolding meta_pos_def mx root by (auto simp: opn split: option.splits)
  qed
  then show ?thesis by (auto simp: keeps_def mod_meta_def pos_ok_def l0_ok_prune split: option.splits)
qed

lemma pos_writer_pos [pos_rules]: "keeps (pos_ok (ev_x ev)) (writer_pos ev)"
proof (rule keepsI)
  fix w r w' assume "pos_ok (ev_x ev) w" "writer_pos ev w = (r, w')"
  then show "pos_ok (ev_x ev) w'"
    by (auto simp: writer_pos_def pos_ok_def m_bind_def split: option.splits result.splits prod.splits)
qed

lemma pos_from_db [pos_rules]: "keeps (pos_ok x) (from_db_loop ev wal pages pgnos enc)"
proof (induction pgnos arbitrary: enc)
  case (Cons k pgnos)
  show ?case unfolding from_db_loop.simps by (intro keeps_rules pos_rules Cons.IH)+
qed (simp add: keeps_rules)

lemma pos_from_wal [pos_rules]: "keeps (pos_ok x) (from_wal_loop ev wal i pages enc)"
proof (induction pages arbitrary: i enc)
  case (Cons p pages)
  obtain k off where p: "p = (k, off)" by (cases p)
  show ?case unfolding p from_wal_loop.simps by (intro keeps_rules pos_rules Cons.IH)+
qed (simp add: keeps_rules)

lemma pos_locks [pos_rules]: "keeps (pos_ok x) (lock_acquire ev)" "keeps (pos_ok x) (lock_release ev)"
  unfolding lock_acquire_def lock_release_def by (intro keeps_rules pos_rules | simp)+

lemma pos_exec_checkpoint [pos_rules]: "keeps (pos_ok x) (exec_checkpoint ev mode)"
  unfolding exec_checkpoint_def by (intro keeps_rules pos_rules)+

lemma pos_ensure_wal_exists [pos_rules]: "keeps (pos_ok x) (ensure_wal_exists ev)"
  unfolding ensure_wal_exists_def by (intro keeps_rules pos_rules)+

lemma pos_client_max [pos_rules]: "keeps (pos_ok x) (client_max ev level)"
  unfolding client_max_def by (intro keeps_rules)+

lemma pos_remote_cursor [pos_rules]: "keeps (pos_ok x) (remote_cursor ev)"
  unfolding remote_cursor_def by (intro keeps_rules pos_rules | simp)+

lemma pos_uncancelled [pos_rules]: "keeps (pos_ok x) m \<Longrightarrow> keeps (pos_ok x) (uncancelled m)"
proof (rule keepsI)
  fix w r w' assume m: "keeps (pos_ok x) m" and P: "pos_ok x w" and run: "uncancelled m w = (r, w')"
  obtain r1 w1 where w1: "m (w\<lparr>w_cancel := token_new\<rparr>) = (r1, w1)" by fastforce
  have "pos_ok x w1" by (rule keepsD [OF m _ w1]) (simp add: P)
  with run w1 show "pos_ok x w'" by (auto simp: uncancelled_def)
qed

text \<open>A failed conversion leaves the position alone: the file is renamed in its last step.\<close>

lemma write_l0_fails: "triple (pos_ok x) (write_l0 ev t info wal rd pm commit sz) (\<lambda>_ _. True) (pos_ok x)"
  unfolding write_l0_def write_ltx_from_db_def write_ltx_from_wal_def
  by (rule triple_keeps_bind, (intro pos_rules)[1], assumption)+
     (rule triple_keeps_bind, (intro keeps_rules pos_rules)[1], assumption,
      rule triple_keeps_bind, (intro keeps_rules)[1], assumption,
      rule triple_keeps_bind, (intro keeps_rules pos_rules)[1], assumption,
      rule triple_keeps_bind, (intro keeps_rules)[1], assumption,
      (rule triple_prod)+, simp add: triple_def mod_meta_def)

lemma sync_fails: "triple (pos_ok x) (sync ev p info) (\<lambda>_ _. True) (pos_ok x)"
  unfolding sync_def
  by (rule triple_keeps_bind, (intro keeps_rules)[1], assumption, (rule triple_let)+,
      rule triple_keeps_bind, (intro keeps_rules)[1], assumption,
      rule triple_keeps_bind, (intro keeps_rules)[1], assumption, rule triple_prod, rule triple_let, rule triple_prod,
      rule triple_let, rule triple_keeps_bind, (intro keeps_rules)[1], assumption, rule triple_if, rule triple_ok, rule TrueI,
      rule triple_bind [OF write_l0_fails], simp add: triple_def Let_def)

lemma verify_and_sync_pos:
  assumes "lz4_ok (ev_x ev)"
  shows "triple (pos_ok (ev_x ev)) (verify_and_sync ev)
    (\<lambda>out w. pos_ok (ev_x ev) (snd (apply_sync_outcome out w))) (pos_ok (ev_x ev))"
proof (rule tripleI)
  fix w out w' assume ok: "pos_ok (ev_x ev) w" and run: "verify_and_sync ev w = (Ok out, w')"
  then obtain p w1 info where p: "writer_pos ev w = (Ok p, w1)" and s: "sync ev p info w1 = (Ok out, w')"
    by (auto simp: verify_and_sync_def m_bind_eq_Ok)
  have "pos_ok (ev_x ev) w1" by (rule keepsD [OF pos_writer_pos ok p])
  from sync_pos_ok [OF assms this _ s] writer_pos_cases(2) [OF p] show "pos_ok (ev_x ev) (snd (apply_sync_outcome out w'))"
    by simp
next
  fix w e w' assume ok: "pos_ok (ev_x ev) w" and run: "verify_and_sync ev w = (Err e, w')"
  have "triple (pos_ok (ev_x ev)) (verify_and_sync ev) (\<lambda>_ _. True) (pos_ok (ev_x ev))"
    unfolding verify_and_sync_def
    by (rule triple_keeps_bind, rule pos_writer_pos, assumption,
        rule triple_keeps_bind, (intro keeps_rules)[1], assumption,
        rule triple_keeps_bind, (intro keeps_rules)[1], assumption, rule sync_fails)
  from tripleD(2) [OF this ok run] show "pos_ok (ev_x ev) w'" .
qed

lemma apply_pos: "triple (\<lambda>w. pos_ok x (snd (apply_sync_outcome out w))) (apply_sync_outcome out) (\<lambda>_. pos_ok x) E"
  by (rule tripleI) (auto simp: apply_sync_outcome_def)

lemma pos_sync_and_apply [pos_rules]:
  "lz4_ok (ev_x ev) \<Longrightarrow> keeps (pos_ok (ev_x ev)) (sync_and_apply ev)"
  unfolding sync_and_apply_def
  by (rule keeps_triple, rule triple_bind [OF verify_and_sync_pos apply_pos], assumption)

lemma pos_checkpoint [pos_rules]: "lz4_ok (ev_x ev) \<Longrightarrow> keeps (pos_ok (ev_x ev)) (checkpoint ev mode)"
  unfolding checkpoint_def by (intro keeps_rules pos_rules | assumption)+

lemma pos_checkpoint_if_needed [pos_rules]:
  "lz4_ok (ev_x ev) \<Longrightarrow> keeps (pos_ok (ev_x ev)) (checkpoint_if_needed ev a b)"
  unfolding checkpoint_if_needed_def by (intro keeps_rules pos_rules | assumption)+

lemma pos_reset_local: "pos_ok x (snd (reset_local w))"
  by (simp add: reset_local_def pos_ok_def)

definition writer_ok :: "externs \<Rightarrow> ('s \<Rightarrow> bool) \<Rightarrow> ('s \<Rightarrow> contents) \<Rightarrow> 's writer \<Rightarrow> bool" where
  "writer_ok x backend_ok files w \<longleftrightarrow> backend_ok (w_client w) \<and> bucket_ok x (files (w_client w)) \<and> pos_ok x w"

lemma ok_frame:
  assumes "keeps (pos_ok x) m" and "\<And>P. keeps (\<lambda>w. P (w_client w)) m"
  shows "keeps (writer_ok x backend_ok files) m"
proof (rule keepsI)
  fix w r w' assume ok: "writer_ok x backend_ok files w" and run: "m w = (r, w')"
  have "w_client w' = w_client w" using keepsD [OF assms(2) [of "\<lambda>s. s = w_client w"] refl run] .
  moreover have "pos_ok x w'" using keepsD [OF assms(1) _ run] ok by (simp add: writer_ok_def)
  ultimately show "writer_ok x backend_ok files w'" using ok by (simp add: writer_ok_def)
qed

context bucket_client
begin

lemma pos_rebaseline:
  assumes "ev_client ev = c"
  shows "keeps (writer_ok x inv contents) (rebaseline_from_remote ev f)"
proof (rule keepsI)
  fix w r w' assume "writer_ok x inv contents w"
    and run: "rebaseline_from_remote ev f w = (r, w')"
  then have I: "inv (w_client w)" "bucket_ok x (contents (w_client w))" "pos_ok x w" by (auto simp: writer_ok_def)
  obtain r1 w1 where w1: "cancel_check w = (r1, w1)" by fastforce
  from cancel_check_state [OF this] obtain t where t: "w1 = w\<lparr>w_cancel := t\<rparr>" by blast
  have cl: "w_client w' = w_client w"
    using keepsD [OF bucket.keep_rebaseline [of "\<lambda>s. s = w_client w"] refl run] .
  have "pos_ok x w'"
  proof (cases r)
    case (Ok u)
    from rebaseline_OkD [OF assms _ run [unfolded Ok]] I obtain d time where
      d: "contents (w_client w) (0, fi_min_txid f, fi_max_txid f) = Some (d, time)"
        "w_meta w' = l0_put (fi_max_txid f) d (clear_l0 (w_meta w))" "w_cached_pos w' = None" by blast
    have "verifies_at x d (fi_max_txid f)" using I d(1) by (auto simp: bucket_ok_def)
    with d(2,3) show ?thesis by (simp add: pos_ok_def l0_ok_put)
  next
    case (Err e)
    with run w1 t I show ?thesis
      by (cases r1) (auto simp: rebaseline_from_remote_def m_bind_def mod_meta_def invalidate_pos_def pos_ok_def
          split: result.splits prod.splits option.splits)
  qed
  with I cl show "writer_ok x inv contents w'" by (simp add: writer_ok_def)
qed

lemma pos_lineage:
  assumes "ev_client ev = c"
  shows "keeps (writer_ok x inv contents) (ensure_lineage_checked ev)"
proof -
  have base: "keeps (writer_ok x inv contents) cancel_check" "keeps (writer_ok x inv contents) (client_max ev 0)"
    by (rule ok_frame [OF pos_base(1) bucket.keep_base(1)], rule ok_frame [OF pos_client_max bucket.keep_client_max])
  have clear: "keeps (writer_ok x inv contents) (m_then (mod_meta clear_l0) (m_then invalidate_pos
      (m_mod (\<lambda>w. w\<lparr>w_state := (w_state w)\<lparr>ss_synced_to_wal_end := False\<rparr>\<rparr>))))"
    by (simp add: keeps_def mod_meta_def invalidate_pos_def pos_ok_def writer_ok_def)
  show ?thesis
    unfolding ensure_lineage_checked_def
    by (intro keeps_rules base clear pos_rebaseline [OF assms])
       (auto simp: keeps_def pos_ok_def writer_ok_def split: option.splits)
qed

end

lemma pos_client_write [pos_rules]: "keeps (pos_ok x) (client_write ev level a b d)"
  by (auto simp: keeps_def client_write_def split: result.splits prod.splits)

lemma pos_upload_one [pos_rules]: "keeps (pos_ok x) (upload_one ev t)"
  unfolding upload_one_def
  by (intro keeps_rules pos_rules) (auto simp: pos_ok_def split: option.splits)

lemma pos_upload_loop [pos_rules]: "keeps (pos_ok x) (upload_loop ev local cursor n b)"
proof (induction ev local cursor n b rule: upload_loop.induct)
  case (1 ev local cursor n b)
  then show ?case by (subst upload_loop.simps) (intro keeps_rules pos_rules)
qed

lemma pos_upload [pos_rules]: "keeps (pos_ok (ev_x ev)) (upload ev)"
  unfolding upload_def by (intro keeps_rules pos_rules)+

context bucket_client
begin

lemma ok_upload:
  assumes "ev_client ev = c" and "ev_x ev = x"
  shows "keeps (writer_ok x inv contents) (upload ev)"
proof (rule keepsI)
  fix w r w' assume ok: "writer_ok x inv contents w" and run: "upload ev w = (r, w')"
  have pos: "pos_ok x w'" using keepsD [OF pos_upload _ run] ok assms(2) by (simp add: writer_ok_def)
  from upload_extends [OF assms(1) _ run] ok obtain k where inv: "inv (w_client w')"
    and ext: "extended_by (contents (w_client w)) (w_meta w) (upload_start w) k (contents (w_client w'))"
    by (auto simp: writer_ok_def)
  have "verifies_at x d b" if "contents (w_client w') (0, a, b) = Some (d, time)" for a b d time
  proof (cases "\<exists>t. upload_start w < t \<and> t \<le> k \<and> (0 :: u8, a, b) = (0, t, t)")
    case True
    then have "upload_start w < b" "b \<le> k" "a = b" by auto
    moreover from this obtain d' time' where "l0_open (w_meta w) b = Some d'"
      "contents (w_client w') (0, b, b) = Some (d', time')" using ext unfolding extended_by_def by blast
    ultimately have "l0_open (w_meta w) b = Some d" using that by simp
    then show ?thesis using ok by (auto simp: writer_ok_def pos_ok_def l0_ok_def)
  next
    case False
    then have "contents (w_client w') (0, a, b) = contents (w_client w) (0, a, b)"
      using ext unfolding extended_by_def by blast
    with that show ?thesis using ok by (auto simp: writer_ok_def bucket_ok_def)
  qed
  with pos inv show "writer_ok x inv contents w'" by (auto simp: writer_ok_def bucket_ok_def)
qed

lemma ok_push:
  assumes "ev_client ev = c" and "ev_x ev = x" and "lz4_ok x"
  shows "keeps (writer_ok x inv contents) (push_with ev tok)"
proof -
  let ?A = "\<lambda>out w. writer_ok x inv contents (snd (apply_sync_outcome out w))"
  have conv: "triple (writer_ok x inv contents) (verify_and_sync ev) ?A (writer_ok x inv contents)"
  proof (rule tripleI)
    fix w out w' assume ok: "writer_ok x inv contents w" and run: "verify_and_sync ev w = (Ok out, w')"
    have "w_client w' = w_client w"
      using keepsD [OF bucket.keep_verify_and_sync [of "\<lambda>s. s = w_client w"] refl run] .
    with tripleD(1) [OF verify_and_sync_pos, of ev w out w'] assms ok run show "?A out w'"
      by (simp add: writer_ok_def apply_sync_outcome_def)
  next
    fix w e w' assume ok: "writer_ok x inv contents w" and run: "verify_and_sync ev w = (Err e, w')"
    have "w_client w' = w_client w"
      using keepsD [OF bucket.keep_verify_and_sync [of "\<lambda>s. s = w_client w"] refl run] .
    with tripleD(2) [OF verify_and_sync_pos, of ev w e w'] assms ok run show "writer_ok x inv contents w'"
      by (simp add: writer_ok_def)
  qed
  have ap: "triple (?A out) (apply_sync_outcome out) (\<lambda>_. writer_ok x inv contents) (writer_ok x inv contents)" for out
    by (rule tripleI) (auto simp: apply_sync_outcome_def)
  have lin: "keeps (writer_ok x inv contents) (ensure_lineage_checked ev)"
    by (rule pos_lineage [OF assms(1)])
  have flag: "keeps (writer_ok x inv contents) (if b then m_mod (\<lambda>w. w\<lparr>w_state := (w_state w)\<lparr>ss_synced_since_checkpoint := True\<rparr>\<rparr>) else m_ok ())" for b
    by (simp add: keeps_def writer_ok_def)
  have cp: "keeps (writer_ok x inv contents) (if b then checkpoint_if_needed ev m n else m_ok False)" for b m n
    using pos_checkpoint_if_needed [of ev m n] assms bucket.keep_checkpoint_if_needed
    by (intro keeps_rules ok_frame) auto
  note fr = ok_frame [OF pos_base(5) bucket.keep_base(3)] ok_frame [OF pos_base(1) bucket.keep_base(1)]
    ok_frame [OF pos_ensure_wal_exists bucket.keep_ensure_wal_exists]
    ok_frame [OF pos_prune bucket.keep_base(5)]
  have wp: "keeps (writer_ok x inv contents) (writer_pos ev)"
    using ok_frame [OF pos_writer_pos [of ev] bucket.keep_writer_pos] assms(2) by simp
  have "triple (writer_ok x inv contents) (push_with ev tok) (\<lambda>_. writer_ok x inv contents) (writer_ok x inv contents)"
    unfolding push_with_def
    by (rule triple_keeps_bind [OF fr(1)], assumption, rule triple_keeps_bind [OF fr(2)], assumption,
        rule triple_keeps_bind [OF fr(3)], assumption, rule triple_keeps_bind [OF keeps_basic(4)], assumption,
        rule triple_let, rule triple_bind [OF conv], rule triple_bind [OF ap],
        rule triple_keeps_bind [OF flag], assumption, rule triple_keeps_bind [OF fr(2)], assumption,
        rule triple_keeps_bind [OF cp], assumption, rule triple_keeps_bind [OF lin], assumption,
        rule triple_keeps_bind [OF ok_upload [OF assms(1,2)]], assumption, (rule triple_prod)+,
        rule triple_keeps_bind [OF fr(4)], assumption, rule triple_keeps_bind [OF wp], assumption,
        rule triple_ok, assumption)
  then show ?thesis by (rule keeps_triple)
qed

end

section \<open>Uploads complete\<close>

lemma verifies_header:
  assumes "verifies_at x d t"
  shows "HEADER_SIZE \<le> length d \<and> (\<exists>h. header_decode (take HEADER_SIZE d) = Ok h)"
  using assms
  by (auto simp: verifies_at_def decoder_verify_def decode_header_def decoder_new_def and_then_eq_Ok
      dest!: read_exact_into_OkD)

context replica_client
begin

lemma upload_one_completes:
  assumes "ev_client ev = c" and "inv (w_client w)" and "w_cancel w = Never"
    and "l0_open (w_meta w) t = Some d" and "HEADER_SIZE \<le> length d" and "header_decode (take HEADER_SIZE d) = Ok h"
  shows "\<exists>w'. upload_one ev t w = (Ok (length d), w') \<and> inv (w_client w') \<and> w_cancel w' = Never \<and>
    l0_open (w_meta w') = l0_open (w_meta w)"
proof -
  obtain s info where s: "write_ltx_file c (w_client w) 0 t t d = Ok (info, s)" "inv s"
    using write_ltx_file_contents [OF assms(2,5,6), of 0 t t] by blast
  have "cancel_check w = (Ok (), w)" by (simp add: cancel_check_def assms(3) split: result.splits)
  moreover have "client_write ev 0 t t d w = (Ok (), w\<lparr>w_client := s\<rparr>)"
    by (simp add: client_write_def assms(1) s(1))
  ultimately show ?thesis using assms(3,4) s(2) by (simp add: upload_one_def m_try_def)
qed

lemma upload_loop_completes:
  assumes "ev_client ev = c" and "inv (w_client w)" and "w_cancel w = Never" and "cursor \<le> local"
    and "\<And>t. cursor < t \<Longrightarrow> t \<le> local \<Longrightarrow> \<exists>d h. l0_open (w_meta w) t = Some d \<and> HEADER_SIZE \<le> length d \<and>
           header_decode (take HEADER_SIZE d) = Ok h"
  shows "\<exists>b' w'. upload_loop ev local cursor n b w = (Ok (n + (unat local - unat cursor), b', local), w')"
  using assms
proof (induction ev local cursor n b arbitrary: w rule: upload_loop.induct)
  case (1 ev local cursor n b)
  show ?case
  proof (cases "cursor < local")
    case False
    with "1.prems"(4) show ?thesis by (subst upload_loop.simps) simp
  next
    case True
    have Suc: "unat (cursor + 1) = unat cursor + 1" by (rule unat_Suc_no_wrap [OF True])
    have lt: "cursor < cursor + 1" and le: "cursor + 1 \<le> local" using Suc word_less_Suc_le [OF True] by (simp_all add: word_less_unat)
    from "1.prems"(5) [OF lt le] obtain d h where d: "l0_open (w_meta w) (cursor + 1) = Some d"
      "HEADER_SIZE \<le> length d" "header_decode (take HEADER_SIZE d) = Ok h" by blast
    from upload_one_completes [OF "1.prems"(1-3) d] obtain w1 where w1: "upload_one ev (cursor + 1) w = (Ok (length d), w1)"
      "inv (w_client w1)" "w_cancel w1 = Never" "l0_open (w_meta w1) = l0_open (w_meta w)" by blast
    have files: "\<exists>d h. l0_open (w_meta w1) t = Some d \<and> HEADER_SIZE \<le> length d \<and> header_decode (take HEADER_SIZE d) = Ok h"
      if "cursor + 1 < t" "t \<le> local" for t
      using "1.prems"(5) [of t] that lt w1(4) by fastforce
    from "1.IH" [OF True "1.prems"(1) w1(2,3) le files, of "length d"] obtain b' w' where
      "upload_loop ev local (cursor + 1) (n + 1) (b + length d) w1 =
         (Ok (n + 1 + (unat local - unat (cursor + 1)), b', local), w')" by blast
    moreover have "n + 1 + (unat local - unat (cursor + 1)) = n + (unat local - unat cursor)"
      using True Suc by (simp add: word_less_unat)
    ultimately show ?thesis using True w1(1)
      by (subst upload_loop.simps) (simp add: m_bind_def)
  qed
qed

end

section \<open>Properties over the directory backend\<close>

definition dir_env :: "externs \<Rightarrow> sqlite \<Rightarrow> path \<Rightarrow> file_system env" where
  "dir_env x sql root = \<lparr>ev_x = x, ev_client = dir_client root, ev_sql = sql\<rparr>"

lemma dir_env_sel [simp]: "ev_x (dir_env x sql root) = x" "ev_client (dir_env x sql root) = dir_client root"
  by (simp_all add: dir_env_def)

text \<open>C33: a push keeps position and files consistent.  Whatever a push returns, success, any error or
  cancellation at any point, afterwards every local L0 file and every L0 file of the bucket still
  verifies under the transaction its name gives, and a cached position is exactly the position the
  newest local file gives.\<close>

theorem push_keeps_position:
  assumes "lz4_ok x" and "writer_ok x dir_inv (dir_contents root) w"
    and "push_with (dir_env x sql root) tok w = (r, w')"
  shows "writer_ok x dir_inv (dir_contents root) w'"
  using keepsD [OF dir.ok_push [of "dir_env x sql root" root x tok] assms(2,3)] assms(1) by simp

text \<open>C34: a bucket written by someone else is not touched.  When the session has not yet checked the
  lineage and the bucket's newest L0 transaction is not the one this lineage verified (for a
  provisional baseline: lies beyond it), a push changes no file of the bucket, whatever it returns.\<close>

theorem push_foreign_untouched:
  assumes "dir_inv (w_client w)" and "\<not> w_lineage_checked w"
    and "max_ltx_file_info (dir_client root) (w_client w) 0 = Ok f" and "is_foreign w (opt_max_txid f)"
    and "push_with (dir_env x sql root) tok w = (r, w')"
  shows "dir_contents root (w_client w') = dir_contents root (w_client w)"
  using dir.push_foreign [OF _ assms] by simp

text \<open>C35: an upload extends the bucket without a hole.  There is a transaction \<open>k\<close> at or after the
  start position such that the bucket afterwards holds, for every transaction after the start up to
  \<open>k\<close>, exactly the local L0 file, and is otherwise unchanged; a successful upload reports \<open>k\<close> and the
  number of files.\<close>

theorem upload_contiguous:
  assumes "dir_inv (w_client w)" and "upload (dir_env x sql root) w = (r, w')"
  shows "\<exists>k. upload_start w \<le> k \<and>
    extended_by (dir_contents root (w_client w)) (w_meta w) (upload_start w) k (dir_contents root (w_client w')) \<and>
    (case r of Err e \<Rightarrow> True | Ok (n, b, cur) \<Rightarrow> cur = k \<and> n = unat k - unat (upload_start w))"
  using dir.upload_extends [OF _ assms] by auto

text \<open>C36: uploads complete.  On an available backend and without cancellation, an upload that starts at
  the session's cursor and finds every local file up to its position returns success, reports that
  position and has uploaded one file per missing transaction.\<close>

theorem upload_completes:
  assumes "writer_ok x dir_inv (dir_contents root) w" and "w_cancel w = Never"
    and "w_remote_txid w = Some r" and "w_cached_pos w = Some p" and "r \<le> p_txid p"
    and "\<forall>t. r < t \<and> t \<le> p_txid p \<longrightarrow> t \<in> l0_txids (w_meta w)"
  shows "\<exists>b w'. upload (dir_env x sql root) w = (Ok (unat (p_txid p) - unat r, b, p_txid p), w')"
proof -
  have ok: "l0_ok x (w_meta w)" "dir_inv (w_client w)" using assms(1) by (auto simp: writer_ok_def pos_ok_def)
  have files: "\<exists>d h. l0_open (w_meta w) t = Some d \<and> HEADER_SIZE \<le> length d \<and> header_decode (take HEADER_SIZE d) = Ok h"
    if t: "r < t" "t \<le> p_txid p" for t
  proof -
    from assms(6) t l0_txids_open [OF ok(1)] obtain d where d: "l0_open (w_meta w) t = Some d" by blast
    with ok(1) have "verifies_at x d t" by (auto simp: l0_ok_def)
    from d verifies_header [OF this] show ?thesis by blast
  qed
  have "\<exists>b' w'. upload_loop (dir_env x sql root) (p_txid p) r 0 0 w =
      (Ok (0 + (unat (p_txid p) - unat r), b', p_txid p), w')"
    by (rule dir.upload_loop_completes [OF _ ok(2) assms(2,5) files]) simp_all
  then show ?thesis using assms(3,4) by (simp add: upload_def remote_cursor_def writer_pos_def m_bind_def)
qed

text \<open>C37: the lineage check decides what the local history continues.  After a check that succeeds, the
  session is checked, its verified position, its cursor and the stored \<open>verified-pos\<close> all equal the
  bucket's newest L0 transaction, and the bucket is unchanged.  If the bucket was foreign, the local
  L0 files are gone and replaced by the bucket's newest file (none for an empty bucket), the cached
  position is dropped and the expected-truncation shortcut is disabled; otherwise the local files and
  the position are untouched.\<close>

theorem lineage_check_adopts:
  assumes "dir_inv (w_client w)" and "\<not> w_lineage_checked w"
    and "ensure_lineage_checked (dir_env x sql root) w = (Ok u, w')"
  shows "\<exists>f. max_ltx_file_info (dir_client root) (w_client w) 0 = Ok f \<and> w_client w' = w_client w \<and> w_lineage_checked w' \<and>
    w_verified_pos w' = opt_max_txid f \<and> w_remote_txid w' = Some (opt_max_txid f) \<and>
    \<not> w_verified_pos_provisional w' \<and> read_verified_pos (w_meta w') = Some (opt_max_txid f) \<and>
    (if is_foreign w (opt_max_txid f)
     then w_cached_pos w' = None \<and> \<not> ss_synced_to_wal_end (w_state w') \<and>
       (case f of None \<Rightarrow> l0_txids (w_meta w') = {}
        | Some g \<Rightarrow> l0_txids (w_meta w') = {fi_max_txid g} \<and>
            (\<exists>d time. dir_contents root (w_client w) (0, fi_min_txid g, fi_max_txid g) = Some (d, time) \<and>
               l0_open (w_meta w') (fi_max_txid g) = Some d))
     else l0_txids (w_meta w') = l0_txids (w_meta w) \<and> l0_open (w_meta w') = l0_open (w_meta w) \<and>
       w_cached_pos w' = w_cached_pos w)"
  by (rule dir.lineage_spec [OF _ assms]) simp

lemma encoded_decode_file:
  assumes "lz4_ok x" and "encode_file x h pages 0 = Ok (bytes, h', trl)" and "no_checksum h"
  shows "decode_file x bytes = Ok (h, pages, trl)"
proof -
  note ok = encode_file_OkD [OF assms(2)]
  from decode_file_bytes [OF assms(1) ok(4) ok(6) ok(7), of 0] assms(3) show ?thesis
    by (auto simp: decode_file_def ok(1,3))
qed

text \<open>C38: a conversion writes exactly one L0 file, for the next transaction, and it holds what SQLite
  committed.  The file decodes; its header names the next transaction and the page size; when the
  conversion snapshots, its pages are all pages of the database but the lock page, each taken from the
  last committed WAL frame or else from the database file; otherwise its pages are the committed pages
  of the WAL from the resume point on.\<close>

theorem conversion_content:
  assumes "lz4_ok (ev_x ev)" and "verify_and_sync ev w = (Ok out, w')" and "so_synced out"
  shows "\<exists>p w1 info0 info wal rd0 rd pm d h trl. writer_pos ev w = (Ok p, w1) \<and>
    verify (ev_x ev) (w_meta w) (w_wal w) (w_page_size w) (p_txid p) (w_state w) = Ok info0 \<and>
    w_wal w = Some wal \<and> open_reader wal info0 = Ok (info, rd0) \<and> wal_page_map rd0 = (pm, rd) \<and>
    so_pos out = Some \<lparr>p_txid = p_txid p + 1, p_post_apply_checksum = 0\<rparr> \<and>
    l0_open (w_meta w') (p_txid p + 1) = Some d \<and>
    (\<forall>t. t \<noteq> p_txid p + 1 \<longrightarrow> l0_open (w_meta w') t = l0_open (w_meta w) t) \<and>
    decode_file (ev_x ev) d = Ok (h, l0_pages info (w_db w) wal (w_page_size w) (h_commit h) pm, trl) \<and>
    h_min_txid h = p_txid p + 1 \<and> h_max_txid h = p_txid p + 1 \<and> h_page_size h = w_page_size w \<and>
    h_commit h = (if 0 < pm_commit pm then pm_commit pm else db_commit (w_db w) (w_page_size w))"
proof -
  from assms(2) obtain p w1 info0 where p: "writer_pos ev w = (Ok p, w1)"
    and v: "verify (ev_x ev) (w_meta w1) (w_wal w1) (w_page_size w1) (p_txid p) (w_state w1) = Ok info0"
    and s: "sync ev p info0 w1 = (Ok out, w')"
    by (auto simp: verify_and_sync_def m_bind_eq_Ok)
  from writer_pos_cases(1) [OF p] obtain q where w1: "w1 = w\<lparr>w_cached_pos := q\<rparr>" by blast
  have same: "w_wal w1 = w_wal w" "w_db w1 = w_db w" "w_page_size w1 = w_page_size w" "w_meta w1 = w_meta w"
    by (simp_all add: w1)
  from sync_OkD [OF s, unfolded same] assms(3) obtain wal info rd0 pm rd sz commit ts bytes trl t cl where
    r: "w_wal w = Some wal" "open_reader wal info0 = Ok (info, rd0)" "wal_page_map rd0 = (pm, rd)"
      "commit = (if 0 < pm_commit pm then pm_commit pm else db_commit (w_db w) (w_page_size w))"
    and enc: "encode_file (ev_x ev) (l0_header (w_page_size w) commit (p_txid p + 1) ts info sz rd)
         (l0_pages info (w_db w) wal (w_page_size w) commit pm) 0 =
         Ok (bytes, l0_header (w_page_size w) commit (p_txid p + 1) ts info sz rd, trl)"
    and w1': "w' = w1\<lparr>w_meta := l0_put (p_txid p + 1) bytes (create_dirs (w_meta w)), w_cancel := t, w_clock := cl\<rparr>"
    and out: "so_pos out = Some \<lparr>p_txid = p_txid p + 1, p_post_apply_checksum = 0\<rparr>"
    by (elim disjE exE conjE) (blast, rule that, assumption+)
  have w': "w_meta w' = l0_put (p_txid p + 1) bytes (create_dirs (w_meta w))" by (simp add: w1')
  let ?h = "l0_header (w_page_size w) commit (p_txid p + 1) ts info sz rd"
  have h: "h_commit ?h = commit" "h_min_txid ?h = p_txid p + 1" "h_max_txid ?h = p_txid p + 1" "h_page_size ?h = w_page_size w"
    by (simp_all add: l0_header_def)
  have dec: "decode_file (ev_x ev) bytes = Ok (?h, l0_pages info (w_db w) wal (w_page_size w) (h_commit ?h) pm, trl)"
    using encoded_decode_file [OF assms(1) enc l0_header_no_checksum] h(1) by simp
  have files: "l0_open (w_meta w') (p_txid p + 1) = Some bytes"
    "\<forall>t. t \<noteq> p_txid p + 1 \<longrightarrow> l0_open (w_meta w') t = l0_open (w_meta w) t"
    by (simp_all add: w' l0_open_put)
  show ?thesis
    by (intro exI conjI) (use p v w1 r out files dec h in \<open>simp_all\<close>)
qed

section \<open>A concrete writer\<close>

text \<open>One local file at transaction 1, a bucket in an empty directory, SQLite statements without effect.\<close>

definition demo_sqlite :: sqlite where
  "demo_sqlite = \<lparr>sql_exec = (\<lambda>cmd f. (Ok (), f)), sql_journal_mode = (\<lambda>f. Ok ''wal''), sql_page_size = (\<lambda>f. Ok 512),
     sql_busy = (\<lambda>msg. False)\<rparr>"

definition demo_l0_meta :: meta_dir where
  "demo_l0_meta = l0_put 1 (file_bytes demo_externs demo_header demo_pages 0) (meta_for_db [''app.db''])"

definition demo_writer :: "file_system writer" where
  "demo_writer =
     \<lparr>w_db = concat (map snd demo_pages), w_wal = Some demo_wal, w_meta = demo_l0_meta, w_page_size = 512, w_client = [],
      w_opts = writer_options_default,
      w_state = \<lparr>ss_last_synced_wal_offset = 0, ss_synced_to_wal_end = False, ss_synced_since_checkpoint = False\<rparr>,
      w_cached_pos = Some \<lparr>p_txid = 1, p_post_apply_checksum = 0\<rparr>, w_remote_txid = Some 0, w_verified_pos = 5,
      w_verified_pos_provisional = False, w_lineage_checked = False, w_read_lock = True, w_cancel = Never,
      w_clock = (\<lambda>n. 0)\<rparr>"

lemma demo_file_verifies: "verifies_at demo_externs (file_bytes demo_externs demo_header demo_pages 0) 1"
  using demo_verify by (auto simp: verifies_at_def demo_header_def)

lemma demo_l0_ok: "l0_ok demo_externs demo_l0_meta"
  unfolding demo_l0_meta_def
  by (rule l0_ok_put [OF _ demo_file_verifies]) (simp add: l0_ok_def l0_open_def l0_entries_def meta_for_db_def)

lemma demo_l0_txids: "l0_txids demo_l0_meta = {1}"
  by (simp add: demo_l0_meta_def l0_txids_put) (simp add: l0_txids_def l0_entries_def meta_for_db_def)

lemma demo_writer_ok: "writer_ok demo_externs dir_inv (dir_contents []) demo_writer"
proof -
  have mx: "max_l0_txid demo_l0_meta = Some 1" by (rule max_l0_txid_eqI) (simp_all add: demo_l0_txids)
  have opn: "l0_open demo_l0_meta 1 = Some (file_bytes demo_externs demo_header demo_pages 0)"
    by (simp add: demo_l0_meta_def l0_open_put)
  obtain idx where "decoder_verify demo_externs (file_bytes demo_externs demo_header demo_pages 0) =
      Ok (demo_header, file_trailer demo_externs demo_header demo_pages 0, idx)" using demo_verify by blast
  then have "meta_pos demo_externs demo_l0_meta = Ok \<lparr>p_txid = 1, p_post_apply_checksum = 0\<rparr>"
    using mx opn by (simp add: meta_pos_def demo_header_def file_trailer_def)
  then show ?thesis using demo_l0_ok by (simp add: writer_ok_def pos_ok_def demo_writer_def dir_inv_def bucket_ok_def)
qed

lemma demo_dir_max: "max_ltx_file_info (dir_client []) [] 0 = Ok None"
  by (simp add: max_ltx_file_info_def dir_client_def dir_ltx_files_def read_dir_def List.map_filter_def)

theorem push_keeps_position_witness:
  "writer_ok demo_externs dir_inv (dir_contents []) (snd (push_with (dir_env demo_externs demo_sqlite []) Never demo_writer))"
  by (rule push_keeps_position [OF demo_lz4_ok demo_writer_ok prod.collapse [symmetric]])

theorem push_foreign_untouched_witness:
  "dir_contents [] (w_client (snd (push_with (dir_env demo_externs demo_sqlite []) Never demo_writer))) =
   dir_contents [] (w_client demo_writer)"
  by (rule push_foreign_untouched [OF _ _ _ _ prod.collapse [symmetric], where f = None])
     (simp_all add: demo_writer_def dir_inv_def demo_dir_max is_foreign_def opt_max_txid_def)

theorem upload_contiguous_witness:
  "\<exists>k. upload_start demo_writer \<le> k \<and>
    extended_by (dir_contents [] []) demo_l0_meta 0 k
      (dir_contents [] (w_client (snd (upload (dir_env demo_externs demo_sqlite []) demo_writer))))"
proof -
  have "dir_inv (w_client demo_writer)" "upload_start demo_writer = 0" "w_client demo_writer = []" "w_meta demo_writer = demo_l0_meta"
    by (simp_all add: demo_writer_def dir_inv_def upload_start_def)
  with upload_contiguous [OF this(1) prod.collapse [symmetric], where x = demo_externs and sql = demo_sqlite and root = "[]"]
  show ?thesis by auto
qed

theorem upload_completes_witness:
  "\<exists>b w'. upload (dir_env demo_externs demo_sqlite []) demo_writer = (Ok (1, b, 1), w')"
proof -
  have "\<exists>b w'. upload (dir_env demo_externs demo_sqlite []) demo_writer =
      (Ok (unat (p_txid \<lparr>p_txid = 1, p_post_apply_checksum = 0\<rparr>) - unat (0 :: txid), b, p_txid \<lparr>p_txid = 1, p_post_apply_checksum = 0\<rparr>), w')"
  proof (rule upload_completes [OF demo_writer_ok])
    show "\<forall>t. 0 < t \<and> t \<le> p_txid \<lparr>p_txid = 1, p_post_apply_checksum = 0\<rparr> \<longrightarrow> t \<in> l0_txids (w_meta demo_writer)"
    proof (intro allI impI)
      fix t :: txid assume "0 < t \<and> t \<le> p_txid \<lparr>p_txid = 1, p_post_apply_checksum = 0\<rparr>"
      then have "unat t = 1" by (simp add: word_less_unat word_le_unat)
      then have "t = 1" by (simp add: word_unat_eq_iff)
      then show "t \<in> l0_txids (w_meta demo_writer)" by (simp add: demo_writer_def demo_l0_txids)
    qed
  qed (simp_all add: demo_writer_def)
  then show ?thesis by simp
qed

text \<open>A fresh writer: no local file yet, a two-page database and a WAL with a header only.\<close>

definition demo_wal_header :: "byte list" where "demo_wal_header = take 32 demo_wal"

definition fresh_writer :: "file_system writer" where
  "fresh_writer = demo_writer\<lparr>w_wal := Some demo_wal_header, w_meta := meta_for_db [''app.db''], w_cached_pos := None,
     w_verified_pos := 0, w_remote_txid := None\<rparr>"

definition demo_empty_reader :: wal_reader where
  "demo_empty_reader = demo_wal_reader\<lparr>wr_r := demo_wal_header\<rparr>"

lemma demo_wal_header_reader: "wal_reader_new demo_wal_header = Ok demo_empty_reader"
  by code_simp

lemma demo_wal_header_frame: "read_frame demo_empty_reader = (None, demo_empty_reader)"
  by code_simp

lemma demo_wal_header_map: "wal_page_map demo_empty_reader = (page_map_default, demo_empty_reader)"
proof -
  have "next_frame_start demo_empty_reader = 32"
    by (simp add: next_frame_start_def WAL_HEADER_SIZE_def demo_empty_reader_def demo_wal_reader_def)
  then show ?thesis unfolding wal_page_map_def page_map_until_def
    by (subst page_map_loop.simps) (simp add: demo_wal_header_frame)
qed

lemma fresh_position: "writer_pos ev fresh_writer = (Ok pos_default, fresh_writer\<lparr>w_cached_pos := Some pos_default\<rparr>)"
  by (simp add: writer_pos_def fresh_writer_def meta_pos_def max_l0_txid_def l0_entries_def meta_for_db_def m_bind_def)

definition demo_first_info :: sync_info where
  "demo_first_info = \<lparr>si_offset = 32, si_salt1 = 0, si_salt2 = 0, si_snapshotting = True, si_reason = Some REASON_FIRST,
     si_clear_synced_to_wal_end = False\<rparr>"

lemma demo_first_snapshots: "si_snapshotting demo_first_info"
  by (simp add: demo_first_info_def)

lemma fresh_verify:
  "verify x (meta_for_db [''app.db'']) wal 512 0 st = Ok demo_first_info"
  by (simp add: verify_def demo_first_info_def txid_is_zero_def WAL_HEADER_SIZE_def)

lemma fresh_open: "open_reader demo_wal_header demo_first_info = Ok (demo_first_info, demo_empty_reader)"
  by (simp add: open_reader_def demo_first_info_def WAL_HEADER_SIZE_def demo_wal_header_reader)

lemma demo_page_map: "pm_commit page_map_default = 0" "pm_max_offset page_map_default = 0"
  by (simp_all add: page_map_default_def)

lemma demo_page_numbers: "page_numbers 2 = [1, 2]"
  by (simp add: page_numbers_def upt_rec)

definition demo_first_header :: header where
  "demo_first_header = l0_header 512 2 1 0 demo_first_info 0 demo_empty_reader"

lemma demo_first_header_valid: "header_validate demo_first_header = Ok ()"
  using demo_page_size_valid
  by (simp add: demo_first_header_def l0_header_def header_validate_def is_valid_header_flags_def demo_first_info_def
      HEADER_FLAG_MASK_def HEADER_FLAG_NO_CHECKSUM_def txid_is_zero_def is_snapshot_def demo_empty_reader_def demo_wal_reader_def
      no_checksum_def checksum_is_zero_def)

lemma demo_first_header_fields:
  "h_page_size demo_first_header = 512" "h_commit demo_first_header = 2" "is_snapshot demo_first_header" "no_checksum demo_first_header"
  by (simp_all add: demo_first_header_def l0_header_def is_snapshot_def no_checksum_def HEADER_FLAG_NO_CHECKSUM_def)

lemma demo_db_pages:
  "read_full_at (concat (map snd demo_pages)) 512 0 = Ok (replicate 512 7)"
  "read_full_at (concat (map snd demo_pages)) 512 512 = Ok (replicate 512 9)"
  by (simp_all add: demo_pages_def read_full_at_def read_at_def)

lemma fresh_converts:
  "\<exists>out w'. verify_and_sync (dir_env demo_externs demo_sqlite []) fresh_writer = (Ok out, w') \<and> so_synced out"
proof -
  let ?w = "fresh_writer\<lparr>w_cached_pos := Some pos_default\<rparr>" and ?ev = "dir_env demo_externs demo_sqlite []"
  have fields: "w_meta ?w = meta_for_db [''app.db'']" "w_page_size ?w = 512" "w_db ?w = concat (map snd demo_pages)"
    "w_wal ?w = Some demo_wal_header" "w_clock ?w 0 = 0" by (simp_all add: fresh_writer_def demo_writer_def)
  have c: "db_commit (concat (map snd demo_pages)) 512 = 2" by (simp add: db_commit_def demo_pages_def)
  have "\<exists>w'. write_l0 ?ev 1 demo_first_info demo_wal_header demo_empty_reader page_map_default 2 0 ?w = (Ok (), w')"
    using demo_first_header_valid demo_first_header_fields demo_lock fields
    by (simp add: write_l0_def mod_meta_def now_unix_millis_def m_bind_def encode_header_def encoder_new_def 
      demo_first_header_def [symmetric] write_ltx_from_db_def demo_first_snapshots
      demo_page_numbers page_map_default_def demo_db_pages encode_page_def
      encoder_write_def Let_def check_page_order_def page_header_validate_def encoder_finish_def
      trailer_validate_def checksum_is_zero_def trailer_default_def)
  then show ?thesis
    using fields c
    by (auto simp: verify_and_sync_def fresh_position sync_def Let_def fresh_verify fresh_open demo_wal_header_map
        consumed_size_def demo_page_map pos_default_def pos_new_def
        demo_first_snapshots m_bind_def)
qed

theorem conversion_content_witness:
  "\<exists>d h trl. l0_open (w_meta (snd (verify_and_sync (dir_env demo_externs demo_sqlite []) fresh_writer))) 1 = Some d \<and>
    decode_file demo_externs d = Ok (h, demo_pages, trl) \<and> h_max_txid h = 1"
proof -
  let ?ev = "dir_env demo_externs demo_sqlite []"
  obtain out w' where run: "verify_and_sync ?ev fresh_writer = (Ok out, w')" "so_synced out" using fresh_converts by blast
  have lz: "lz4_ok (ev_x ?ev)" using demo_lz4_ok by simp
  have pages: "l0_pages demo_first_info (concat (map snd demo_pages)) wal 512 2 page_map_default = demo_pages" for wal
    using demo_lock by (simp add: l0_pages_def demo_first_info_def demo_page_numbers source_page_def page_map_default_def
        demo_pages_def read_at_def)
  have fields: "w_meta fresh_writer = meta_for_db [''app.db'']" "w_page_size fresh_writer = 512"
    "w_db fresh_writer = concat (map snd demo_pages)" "w_wal fresh_writer = Some demo_wal_header"
    by (simp_all add: fresh_writer_def demo_writer_def)
  have c: "db_commit (concat (map snd demo_pages)) 512 = 2" by (simp add: db_commit_def demo_pages_def)
  from conversion_content [OF lz run] show ?thesis
    unfolding fields fresh_position run(1)
    by (auto simp: pos_default_def pos_new_def fresh_verify fresh_open demo_wal_header_map pages c demo_page_map)
qed

lemma demo_lineage_runs: "fst (ensure_lineage_checked (dir_env demo_externs demo_sqlite []) demo_writer) = Ok ()"
  by (simp add: ensure_lineage_checked_def demo_writer_def client_max_def demo_dir_max cancel_check_def opt_max_txid_def
      mod_meta_def invalidate_pos_def m_bind_def)

theorem lineage_check_adopts_witness:
  "let w' = snd (ensure_lineage_checked (dir_env demo_externs demo_sqlite []) demo_writer) in
   w_lineage_checked w' \<and> w_verified_pos w' = 0 \<and> l0_txids (w_meta w') = {} \<and> w_cached_pos w' = None"
proof -
  obtain w' where run: "ensure_lineage_checked (dir_env demo_externs demo_sqlite []) demo_writer = (Ok (), w')"
    using demo_lineage_runs by (metis prod.collapse)
  have "dir_inv (w_client demo_writer)" "\<not> w_lineage_checked demo_writer" "w_client demo_writer = []"
    "is_foreign demo_writer 0" by (simp_all add: demo_writer_def dir_inv_def is_foreign_def)
  with lineage_check_adopts [OF this(1,2) run] run demo_dir_max show ?thesis by (auto simp: opt_max_txid_def)
qed

end
