(* ===== verification/Maintain.thy ===== *)
theory Maintain
  imports WriterProps
begin

text \<open>
  Model of \<open>crates/liters/src/compaction.rs\<close>: level compaction, snapshots and retention as
  operations of the writer on its bucket, and the invariants the module documents for readers: the
  newest snapshot is never deleted, every level keeps a file, and an L0 file is deleted only once
  L1 covers it, oldest first.

  Durations and points in time are nanoseconds.  \<open>SystemTime::now()\<close> of one \<open>maintain\<close> call is its
  argument \<open>now\<close>.  The unlinked spool file of a compaction and the temporary file of a snapshot are
  the byte lists the encoder returns; neither outlives its operation.
\<close>

section \<open>Options, reports and time\<close>

record maintenance_options =
  mo_level_intervals :: "nat list"
  mo_snapshot_interval :: nat
  mo_snapshot_retention :: nat
  mo_l0_retention :: nat
  mo_retention_enabled :: bool

definition from_secs :: "nat \<Rightarrow> nat" where "from_secs s = s * 1000000000"

definition maintenance_options_default :: maintenance_options where
  "maintenance_options_default =
     \<lparr>mo_level_intervals = [from_secs 30, from_secs (5 * 60), from_secs (60 * 60)],
      mo_snapshot_interval = from_secs (24 * 60 * 60), mo_snapshot_retention = from_secs (24 * 60 * 60),
      mo_l0_retention = from_secs (5 * 60), mo_retention_enabled = True\<rparr>"

record maintenance_report =
  mr_compacted_levels :: "u8 list"
  mr_snapshot :: "txid option"
  mr_deleted :: nat

definition maintenance_report_default :: maintenance_report where
  "maintenance_report_default = \<lparr>mr_compacted_levels = [], mr_snapshot = None, mr_deleted = 0\<rparr>"

text \<open>\<open>now.duration_since(at).unwrap_or_default()\<close>, and \<open>checked_sub\<close> on a clock of 64-bit seconds.\<close>

definition duration_since :: "sys_time \<Rightarrow> sys_time \<Rightarrow> nat" where
  "duration_since now at = nat (now - at)"

definition cutoff_time :: "sys_time \<Rightarrow> nat \<Rightarrow> sys_time" where
  "cutoff_time now d = (let t = now - int d in if t < - (2 ^ 63) * 1000000000 then 0 else t)"

section \<open>Calls on the bucket\<close>

definition client_list :: "'s env \<Rightarrow> u8 \<Rightarrow> txid \<Rightarrow> ('s, file_info list) wm" where
  "client_list ev level seek =
     m_bind m_get (\<lambda>w. m_lift (st_q (ltx_files (ev_client ev) (w_client w) level seek False)))"

definition client_open :: "'s env \<Rightarrow> u8 \<Rightarrow> txid \<Rightarrow> txid \<Rightarrow> ('s, byte list) wm" where
  "client_open ev level a b =
     m_bind m_get (\<lambda>w. m_lift (st_q (open_ltx_file (ev_client ev) (w_client w) level a b 0 0)))"

definition client_delete :: "'s env \<Rightarrow> file_info list \<Rightarrow> ('s, unit) wm" where
  "client_delete ev infos w =
     (case delete_ltx_files (ev_client ev) (w_client w) infos of
        Err e \<Rightarrow> (Err (from_storage e), w)
      | Ok s \<Rightarrow> (Ok (), w\<lparr>w_client := s\<rparr>))"

section \<open>Compaction of a level\<close>

definition is_due :: "nat \<Rightarrow> sys_time \<Rightarrow> file_info option \<Rightarrow> bool" where
  "is_due interval now f =
     (case f of
        None \<Rightarrow> True
      | Some newest \<Rightarrow> (case fi_created_at newest of Some at \<Rightarrow> interval \<le> duration_since now at | None \<Rightarrow> True))"

definition level_due :: "'s env \<Rightarrow> u8 \<Rightarrow> nat \<Rightarrow> sys_time \<Rightarrow> ('s, bool) wm" where
  "level_due ev level interval now = m_bind (client_max ev level) (\<lambda>f. m_ok (is_due interval now f))"

definition snapshot_due :: "'s env \<Rightarrow> nat \<Rightarrow> sys_time \<Rightarrow> ('s, bool) wm" where
  "snapshot_due ev interval now = m_bind (client_max ev SNAPSHOT_LEVEL) (\<lambda>f. m_ok (is_due interval now f))"

fun open_sources :: "'s env \<Rightarrow> u8 \<Rightarrow> file_info list \<Rightarrow> ('s, byte list list) wm" where
  "open_sources ev level [] = m_ok []"
| "open_sources ev level (info # infos) =
     m_then cancel_check
     (m_bind (client_open ev level (fi_min_txid info) (fi_max_txid info)) (\<lambda>d.
      m_bind (open_sources ev level infos) (\<lambda>ds. m_ok (d # ds))))"

definition compact_level_with :: "'s env \<Rightarrow> cancel_token \<Rightarrow> u8 \<Rightarrow> ('s, bool) wm" where
  "compact_level_with ev cancel dst_level =
     m_then (set_cancel cancel)
     (m_then (ensure_lineage_checked ev)
     (let src_level = dst_level - 1 in
      m_bind (client_max ev dst_level) (\<lambda>f.
      let seek = (case f of Some f \<Rightarrow> fi_max_txid f + 1 | None \<Rightarrow> 0) in
      m_bind (client_list ev src_level seek) (\<lambda>srcs.
      if srcs = [] then m_ok False
      else let min_txid = Min (set (map fi_min_txid srcs)); max_txid = Max (set (map fi_max_txid srcs)) in
      m_bind (open_sources ev src_level srcs) (\<lambda>rdrs.
      m_bind (m_lift (ltx_q (compact (ev_x ev) HEADER_FLAG_NO_CHECKSUM False rdrs))) (\<lambda>(bytes, _, _).
      m_then cancel_check
      (m_then (client_write ev dst_level min_txid max_txid bytes)
      (m_ok True))))))))"

definition compact_level :: "'s env \<Rightarrow> u8 \<Rightarrow> ('s, bool) wm" where
  "compact_level ev dst_level = compact_level_with ev token_new dst_level"

section \<open>Snapshots\<close>

definition read_page_at :: "string \<Rightarrow> byte list \<Rightarrow> nat \<Rightarrow> nat \<Rightarrow> u32 \<Rightarrow> byte list res" where
  "read_page_at what f n offset pgno =
     (let b = read_at f n offset in
      if length b < n then Err (Other (''short '' @ what @ '' read for page '' @ fmt_dec (unat pgno))) else Ok b)"

fun snapshot_pages_loop ::
  "'s env \<Rightarrow> byte list \<Rightarrow> (u32 \<times> nat) list \<Rightarrow> u32 list \<Rightarrow> encoder \<Rightarrow> ('s, encoder) wm" where
  "snapshot_pages_loop ev wal pages [] enc = m_ok enc"
| "snapshot_pages_loop ev wal pages (pgno # pgnos) enc =
     m_then (if pgno mod 256 = 0 then cancel_check else m_ok ())
     (m_bind m_get (\<lambda>w.
       let n = unat (w_page_size w) in
       if pgno = lock_pgno (w_page_size w) then snapshot_pages_loop ev wal pages pgnos enc
       else m_bind (m_lift
              (case map_of pages pgno of
                 Some offset \<Rightarrow> read_page_at ''wal'' wal n (offset + WAL_FRAME_HEADER_SIZE) pgno
               | None \<Rightarrow> read_page_at ''db'' (w_db w) n ((unat pgno - 1) * n) pgno)) (\<lambda>data.
            m_bind (m_lift (ltx_q (encode_page (ev_x ev) enc pgno data))) (\<lambda>enc.
            snapshot_pages_loop ev wal pages pgnos enc))))"

definition write_snapshot_pages ::
  "'s env \<Rightarrow> byte list \<Rightarrow> u32 \<Rightarrow> (u32 \<times> nat) list \<Rightarrow> encoder \<Rightarrow> ('s, encoder) wm" where
  "write_snapshot_pages ev wal commit pages enc = snapshot_pages_loop ev wal pages (page_numbers commit) enc"

definition snapshot_header :: "u32 \<Rightarrow> u32 \<Rightarrow> txid \<Rightarrow> i64 \<Rightarrow> page_map \<Rightarrow> wal_reader \<Rightarrow> header" where
  "snapshot_header page_size commit txid timestamp pm rd =
     (let offset = wal_offset rd in
      \<lparr>h_flags = HEADER_FLAG_NO_CHECKSUM, h_page_size = page_size, h_commit = commit, h_min_txid = 1,
       h_max_txid = txid, h_timestamp = timestamp, h_pre_apply_checksum = 0, h_wal_offset = of_nat offset,
       h_wal_size = of_nat (pm_max_offset pm - offset),
       h_wal_salt1 = (if offset = 0 then 0 else wr_salt1 rd),
       h_wal_salt2 = (if offset = 0 then 0 else wr_salt2 rd), h_node_id = 0\<rparr>)"

definition encode_snapshot :: "'s env \<Rightarrow> byte list \<Rightarrow> txid \<Rightarrow> u64 \<Rightarrow> ('s, byte list) wm" where
  "encode_snapshot ev wal txid synced_end =
     m_bind m_get (\<lambda>w.
     m_bind (m_lift (wal_q (wal_reader_new wal))) (\<lambda>rd.
     let (pm, rd) = page_map_until (unat synced_end) rd;
         commit = (if 0 < pm_commit pm then pm_commit pm else db_commit (w_db w) (w_page_size w)) in
     m_then cancel_check
     (m_bind now_unix_millis (\<lambda>timestamp.
      m_bind (m_lift (ltx_q (encode_header encoder_new
                (snapshot_header (w_page_size w) commit txid timestamp pm rd)))) (\<lambda>enc.
      m_bind (write_snapshot_pages ev wal commit (pm_pages pm) enc) (\<lambda>enc.
      m_bind (m_lift (ltx_q (encoder_finish (ev_x ev) enc))) (\<lambda>(bytes, _, _). m_ok bytes)))))))"

definition snapshot_with :: "'s env \<Rightarrow> cancel_token \<Rightarrow> ('s, txid option) wm" where
  "snapshot_with ev cancel =
     m_then (set_cancel cancel)
     (m_then (ensure_lineage_checked ev)
     (m_bind (verify_and_sync ev) (\<lambda>outcome.
      m_then (apply_sync_outcome outcome)
      (m_then (upload ev)
      (m_bind (writer_pos ev) (\<lambda>pos.
       if txid_is_zero (p_txid pos) then m_ok None
       else m_bind m_get (\<lambda>w.
       m_bind (m_lift (ok_or (w_wal w) (EIo no_such_file))) (\<lambda>wal.
       m_bind (encode_snapshot ev wal (p_txid pos) (so_new_wal_size outcome)) (\<lambda>bytes.
       m_then cancel_check
       (m_then (client_write ev SNAPSHOT_LEVEL 1 (p_txid pos) bytes)
       (m_ok (Some (p_txid pos)))))))))))))"

definition snapshot :: "'s env \<Rightarrow> ('s, txid option) wm" where
  "snapshot ev = snapshot_with ev token_new"

section \<open>Retention\<close>

text \<open>The L0 files to delete: a prefix of the listing.\<close>

fun l0_deletable :: "txid \<Rightarrow> txid \<Rightarrow> sys_time \<Rightarrow> file_info list \<Rightarrow> file_info list" where
  "l0_deletable max_l1 newest cutoff [] = []"
| "l0_deletable max_l1 newest cutoff (info # infos) =
     (if max_l1 < fi_max_txid info then []
      else if fi_max_txid info = newest then []
      else case fi_created_at info of
        Some at \<Rightarrow> if at \<le> cutoff then info # l0_deletable max_l1 newest cutoff infos else []
      | None \<Rightarrow> [])"

definition enforce_l0_retention :: "'s env \<Rightarrow> nat \<Rightarrow> sys_time \<Rightarrow> ('s, nat) wm" where
  "enforce_l0_retention ev grace now =
     m_bind (client_max ev 1) (\<lambda>f.
     let max_l1 = opt_max_txid f in
     if txid_is_zero max_l1 then m_ok 0
     else let cutoff = cutoff_time now grace in
       m_bind (client_list ev 0 0) (\<lambda>files.
       case max_by_key fi_max_txid files of
         None \<Rightarrow> m_ok 0
       | Some newest \<Rightarrow>
           let deletable = l0_deletable max_l1 (fi_max_txid newest) cutoff files in
           m_then cancel_check
           (m_then (client_delete ev deletable)
           (m_ok (length deletable)))))"

text \<open>The expired snapshots at the head of the listing, and the floor of the cascade.\<close>

fun expired_snapshots :: "sys_time \<Rightarrow> txid \<Rightarrow> txid \<Rightarrow> file_info list \<Rightarrow> file_info list \<times> txid" where
  "expired_snapshots cutoff newest prev_max [] = ([], 0)"
| "expired_snapshots cutoff newest prev_max (info # infos) =
     (if (case fi_created_at info of Some at \<Rightarrow> at < cutoff | None \<Rightarrow> False) \<and> fi_max_txid info \<noteq> newest
      then let (expired, floor) = expired_snapshots cutoff newest (fi_max_txid info) infos in (info # expired, floor)
      else ([], prev_max))"

fun cascade :: "'s env \<Rightarrow> txid \<Rightarrow> u8 list \<Rightarrow> ('s, nat) wm" where
  "cascade ev floor [] = m_ok 0"
| "cascade ev floor (level # levels) =
     m_then cancel_check
     (m_bind (client_list ev level 0) (\<lambda>files.
      if length files \<le> 1 then cascade ev floor levels
      else let deletable = filter (\<lambda>f. fi_max_txid f < floor) (butlast files) in
        m_then (client_delete ev deletable)
        (m_bind (cascade ev floor levels) (\<lambda>n. m_ok (length deletable + n)))))"

definition enforce_retention :: "'s env \<Rightarrow> maintenance_options \<Rightarrow> sys_time \<Rightarrow> ('s, nat) wm" where
  "enforce_retention ev opts now =
     (let cutoff = cutoff_time now (mo_snapshot_retention opts) in
      m_bind (client_list ev SNAPSHOT_LEVEL 0) (\<lambda>snapshots.
      case max_by_key fi_max_txid snapshots of
        None \<Rightarrow> m_ok 0
      | Some newest \<Rightarrow>
          let (expired, floor) = expired_snapshots cutoff (fi_max_txid newest) 0 snapshots in
          m_then cancel_check
          (m_then (client_delete ev expired)
          (m_bind (if txid_is_zero floor then m_ok 0 else cascade ev floor [1, 2, 3, 4, 5, 6, 7, 8]) (\<lambda>n.
           m_bind (enforce_l0_retention ev (mo_l0_retention opts) now) (\<lambda>k.
           m_ok (length expired + n + k)))))))"

section \<open>A maintenance run\<close>

fun maintain_levels ::
  "'s env \<Rightarrow> maintenance_options \<Rightarrow> sys_time \<Rightarrow> nat \<Rightarrow> nat list \<Rightarrow> maintenance_report \<Rightarrow> ('s, maintenance_report) wm" where
  "maintain_levels ev opts now i [] report = m_ok report"
| "maintain_levels ev opts now i (interval # intervals) report =
     m_then cancel_check
     (let level = of_nat (i + 1) in
      m_bind (level_due ev level interval now) (\<lambda>due.
      m_bind (if due then m_bind m_get (\<lambda>w. compact_level_with ev (w_cancel w) level) else m_ok False) (\<lambda>compacted.
      if \<not> compacted then maintain_levels ev opts now (Suc i) intervals report
      else let report = report\<lparr>mr_compacted_levels := mr_compacted_levels report @ [level]\<rparr> in
        if level = 1 \<and> mo_retention_enabled opts
        then m_bind (enforce_l0_retention ev (mo_l0_retention opts) now) (\<lambda>n.
               maintain_levels ev opts now (Suc i) intervals (report\<lparr>mr_deleted := mr_deleted report + n\<rparr>))
        else maintain_levels ev opts now (Suc i) intervals report)))"

text \<open>The nested operations install the token the run holds already.\<close>

definition maintain_with :: "'s env \<Rightarrow> cancel_token \<Rightarrow> maintenance_options \<Rightarrow> sys_time \<Rightarrow> ('s, maintenance_report) wm" where
  "maintain_with ev cancel opts now =
     m_then (set_cancel cancel)
     (m_then (ensure_lineage_checked ev)
     (m_bind (maintain_levels ev opts now 0 (mo_level_intervals opts) maintenance_report_default) (\<lambda>report.
      m_then cancel_check
      (m_bind (snapshot_due ev (mo_snapshot_interval opts) now) (\<lambda>due.
       m_bind (if due then m_bind m_get (\<lambda>w. snapshot_with ev (w_cancel w)) else m_ok None) (\<lambda>txid.
       let report = (case txid of Some t \<Rightarrow> report\<lparr>mr_snapshot := Some t\<rparr> | None \<Rightarrow> report) in
       if mo_retention_enabled opts
       then m_bind (enforce_retention ev opts now) (\<lambda>n. m_ok (report\<lparr>mr_deleted := mr_deleted report + n\<rparr>))
       else m_ok report))))))"

definition maintain :: "'s env \<Rightarrow> maintenance_options \<Rightarrow> sys_time \<Rightarrow> ('s, maintenance_report) wm" where
  "maintain ev opts now = maintain_with ev token_new opts now"

end
