(* ===== verification/RestorePlan.thy ===== *)
theory RestorePlan
  imports LitersError DirClient
begin

text \<open>
  Model of \<open>crates/liters/src/plan.rs\<close>: the choice of the chain of LTX files that reconstructs the
  database, and what makes a plan correct: its files exist, the chain is contiguous, it reaches the
  target, and a plan for the latest state leaves no file of any level behind.
\<close>

section \<open>Candidates\<close>

definition candidate_better :: "file_info \<Rightarrow> file_info \<Rightarrow> bool" where
  "candidate_better cur nxt =
     (if fi_max_txid nxt \<noteq> fi_max_txid cur then fi_max_txid cur < fi_max_txid nxt
      else if fi_min_txid nxt \<noteq> fi_min_txid cur then fi_min_txid nxt < fi_min_txid cur
      else if fi_level nxt \<noteq> fi_level cur then fi_level cur < fi_level nxt
      else case (fi_created_at nxt, fi_created_at cur) of
             (Some n, Some c) \<Rightarrow> n < c
           | _ \<Rightarrow> False)"

record level_cursor =
  lc_files :: "file_info list"
  lc_current :: "file_info option"
  lc_candidate :: "file_info option"
  lc_done :: bool

definition cursor_new :: "file_info list \<Rightarrow> level_cursor" where
  "cursor_new files = \<lparr>lc_files = files, lc_current = None, lc_candidate = None, lc_done = False\<rparr>"

section \<open>Advancing a cursor\<close>

text \<open>The body of the loop after a file was taken: skip it or make it the candidate.\<close>

definition offer :: "txid \<Rightarrow> txid \<Rightarrow> file_info \<Rightarrow> level_cursor \<Rightarrow> level_cursor" where
  "offer current_max txid info cur =
     (if fi_max_txid info \<le> current_max then cur
      else if \<not> txid_is_zero txid \<and> txid < fi_max_txid info then cur
      else if lc_candidate cur = None \<or> candidate_better (the (lc_candidate cur)) info
      then cur\<lparr>lc_candidate := Some info\<rparr> else cur)"

lemma offer_sel [simp]:
  "lc_files (offer m t i cur) = lc_files cur" "lc_current (offer m t i cur) = lc_current cur"
  by (simp_all add: offer_def)

function refresh_loop :: "txid \<Rightarrow> txid \<Rightarrow> level_cursor \<Rightarrow> level_cursor" where
  "refresh_loop current_max txid cur =
     (case lc_current cur of
        None \<Rightarrow>
          (case lc_files cur of
             [] \<Rightarrow> cur\<lparr>lc_done := True\<rparr>
           | info # files \<Rightarrow> refresh_loop current_max txid (cur\<lparr>lc_current := Some info, lc_files := files\<rparr>))
      | Some info \<Rightarrow>
          if current_max + 1 < fi_min_txid info then cur
          else refresh_loop current_max txid (offer current_max txid info (cur\<lparr>lc_current := None\<rparr>)))"
  by pat_completeness auto
termination
  by (relation "measure (\<lambda>(m, t, cur). 2 * length (lc_files cur) + (if lc_current cur = None then 0 else 1))")
     auto

declare refresh_loop.simps [simp del]

definition refresh :: "txid \<Rightarrow> txid \<Rightarrow> level_cursor \<Rightarrow> level_cursor" where
  "refresh current_max txid cur =
     refresh_loop current_max txid
       (if (case lc_candidate cur of None \<Rightarrow> False | Some c \<Rightarrow> fi_max_txid c \<le> current_max)
        then cur\<lparr>lc_candidate := None\<rparr> else cur)"

section \<open>The plan\<close>

text \<open>The best candidate over the cursors, as an index.\<close>

definition pick_step :: "level_cursor list \<Rightarrow> nat option \<Rightarrow> nat \<Rightarrow> nat option" where
  "pick_step cursors nxt i =
     (case lc_candidate (cursors ! i) of
        None \<Rightarrow> nxt
      | Some candidate \<Rightarrow>
          (case nxt of
             None \<Rightarrow> Some i
           | Some j \<Rightarrow> if candidate_better (the (lc_candidate (cursors ! j))) candidate then Some i else nxt))"

definition pick_next :: "level_cursor list \<Rightarrow> nat option" where
  "pick_next cursors = foldl (pick_step cursors) None [0..<length cursors]"

definition cursor_size :: "level_cursor \<Rightarrow> nat" where
  "cursor_size cur = length (lc_files cur) + (if lc_current cur = None then 0 else 1) +
     (if lc_candidate cur = None then 0 else 1)"

lemma offer_size: "lc_current cur = None \<Longrightarrow> cursor_size (offer m t i cur) \<le> cursor_size cur + 1"
  by (auto simp: offer_def cursor_size_def)

lemma refresh_loop_size: "cursor_size (refresh_loop m t cur) \<le> cursor_size cur"
proof (induction m t cur rule: refresh_loop.induct)
  case (1 m t cur)
  show ?case
  proof (cases "lc_current cur")
    case None
    show ?thesis
    proof (cases "lc_files cur")
      case Nil
      then show ?thesis using None by (subst refresh_loop.simps) (simp add: cursor_size_def)
    next
      case (Cons info files)
      then show ?thesis using "1.IH"(1) [OF None Cons] None
        by (subst refresh_loop.simps) (simp add: cursor_size_def)
    qed
  next
    case (Some info)
    show ?thesis
    proof (cases "m + 1 < fi_min_txid info")
      case True
      then show ?thesis using Some by (subst refresh_loop.simps) simp
    next
      case False
      have "cursor_size (cur\<lparr>lc_current := None\<rparr>) + 1 = cursor_size cur" using Some by (simp add: cursor_size_def)
      then have "cursor_size (offer m t info (cur\<lparr>lc_current := None\<rparr>)) \<le> cursor_size cur"
        using offer_size [of "cur\<lparr>lc_current := None\<rparr>" m t info] by simp
      with "1.IH"(2) [OF Some False] False Some show ?thesis
        by (subst refresh_loop.simps) simp
    qed
  qed
qed

lemma refresh_size: "cursor_size (refresh m t cur) \<le> cursor_size cur"
proof -
  have "cursor_size (cur\<lparr>lc_candidate := None\<rparr>) \<le> cursor_size cur" by (simp add: cursor_size_def)
  then show ?thesis unfolding refresh_def by (auto intro: refresh_loop_size le_trans)
qed

text \<open>The index picked has a candidate, and no other candidate covers more.\<close>

lemma candidate_better_max:
  "candidate_better a b \<Longrightarrow> fi_max_txid a \<le> fi_max_txid b"
  "\<not> candidate_better a b \<Longrightarrow> fi_max_txid b \<le> fi_max_txid a"
  by (auto simp: candidate_better_def split: if_splits)

definition picks :: "level_cursor list \<Rightarrow> nat \<Rightarrow> nat option \<Rightarrow> bool" where
  "picks cursors n nxt \<longleftrightarrow>
     (case nxt of
        None \<Rightarrow> \<forall>i < n. lc_candidate (cursors ! i) = None
      | Some j \<Rightarrow> j < n \<and> (\<exists>c. lc_candidate (cursors ! j) = Some c \<and>
          (\<forall>i < n. \<forall>d. lc_candidate (cursors ! i) = Some d \<longrightarrow> fi_max_txid d \<le> fi_max_txid c)))"

lemma picks_step:
  assumes "picks cursors n p"
  shows "picks cursors (Suc n) (pick_step cursors p n)"
proof (cases "lc_candidate (cursors ! n)")
  case None
  with assms show ?thesis by (auto simp: picks_def pick_step_def less_Suc_eq split: option.splits)
next
  case d: (Some d)
  show ?thesis
  proof (cases p)
    case None
    with assms d show ?thesis by (auto simp: picks_def pick_step_def less_Suc_eq)
  next
    case (Some j)
    with assms obtain c where c: "j < n" "lc_candidate (cursors ! j) = Some c"
      "\<forall>i < n. \<forall>d. lc_candidate (cursors ! i) = Some d \<longrightarrow> fi_max_txid d \<le> fi_max_txid c"
      by (auto simp: picks_def)
    show ?thesis
    proof (cases "candidate_better c d")
      case True
      then have "fi_max_txid c \<le> fi_max_txid d" by (rule candidate_better_max)
      with True Some c d show ?thesis by (auto simp: picks_def pick_step_def less_Suc_eq intro: order_trans)
    next
      case False
      then have "fi_max_txid d \<le> fi_max_txid c" by (rule candidate_better_max)
      with False Some c d show ?thesis by (auto simp: picks_def pick_step_def less_Suc_eq)
    qed
  qed
qed

lemma pick_next_picks: "picks cursors (length cursors) (pick_next cursors)"
proof -
  have "picks cursors n (foldl (pick_step cursors) None [0..<n])" for n
    by (induction n) (simp add: picks_def, simp add: picks_step)
  then show ?thesis by (simp add: pick_next_def)
qed

definition cursors_size :: "level_cursor list \<Rightarrow> nat" where
  "cursors_size cursors = sum_list (map cursor_size cursors)"

lemma cursors_size_refresh: "cursors_size (map (refresh m t) cursors) \<le> cursors_size cursors"
  unfolding cursors_size_def map_map comp_def by (rule sum_list_mono) (rule refresh_size)

lemma cursors_size_take:
  assumes "i < length cursors" and "lc_candidate (cursors ! i) \<noteq> None"
  shows "cursors_size (cursors[i := (cursors ! i)\<lparr>lc_candidate := None\<rparr>]) < cursors_size cursors"
proof -
  have "cursor_size ((cursors ! i)\<lparr>lc_candidate := None\<rparr>) < cursor_size (cursors ! i)"
    using assms(2) by (auto simp: cursor_size_def)
  moreover have "cursor_size (cursors ! i) \<le> sum_list (map cursor_size cursors)"
    using assms(1) by (simp add: member_le_sum_list)
  ultimately show ?thesis using assms(1)
    by (simp add: cursors_size_def map_update sum_list_update)
qed

text \<open>The greedy extension of the chain.\<close>

function extend_chain ::
  "txid \<Rightarrow> txid \<Rightarrow> file_info list \<Rightarrow> level_cursor list \<Rightarrow> file_info list \<times> txid \<times> level_cursor list" where
  "extend_chain txid current_max infos cursors =
     (let cursors = map (refresh current_max txid) cursors in
      case pick_next cursors of
        None \<Rightarrow> (infos, current_max, cursors)
      | Some i \<Rightarrow>
          let candidate = the (lc_candidate (cursors ! i));
              cursors = cursors[i := (cursors ! i)\<lparr>lc_candidate := None\<rparr>] in
          if fi_max_txid candidate \<le> current_max then extend_chain txid current_max infos cursors
          else if \<not> txid_is_zero txid \<and> txid \<le> fi_max_txid candidate
          then (infos @ [candidate], fi_max_txid candidate, cursors)
          else extend_chain txid (fi_max_txid candidate) (infos @ [candidate]) cursors)"
  by pat_completeness auto
termination
proof (relation "measure (\<lambda>(t, m, infos, cursors). cursors_size cursors)")
  have take: "cursors_size (cs[i := (cs ! i)\<lparr>lc_candidate := None\<rparr>]) < cursors_size cursors"
    if "cs = map (refresh m t) cursors" "pick_next cs = Some i" for cs cursors m t i
  proof -
    have "i < length cs" "lc_candidate (cs ! i) \<noteq> None"
      using pick_next_picks [of cs] that(2) by (auto simp: picks_def)
    from cursors_size_take [OF this] cursors_size_refresh [of m t cursors] that(1) show ?thesis by simp
  qed
  fix txid current_max and infos :: "file_info list" and cursors :: "level_cursor list" and cs i c cs'
  assume "cs = map (refresh current_max txid) cursors" "pick_next cs = Some i"
    and cs': "cs' = cs[i := (cs ! i)\<lparr>lc_candidate := None\<rparr>]"
  note less = take [OF this(1,2)]
  show "((txid, current_max, infos, cs'), txid, current_max, infos, cursors) \<in> measure (\<lambda>(t, m, infos, cursors). cursors_size cursors)"
    using less cs' by simp
  show "((txid, fi_max_txid c, infos @ [c], cs'), txid, current_max, infos, cursors) \<in> measure (\<lambda>(t, m, infos, cursors). cursors_size cursors)"
    using less cs' by simp
qed simp

declare extend_chain.simps [simp del]

text \<open>The newest snapshot at or before the target: the last one of the listing that qualifies.\<close>

definition choose_snapshot :: "txid \<Rightarrow> file_info list \<Rightarrow> file_info option" where
  "choose_snapshot txid snapshots =
     foldl (\<lambda>snapshot info. if \<not> txid_is_zero txid \<and> txid < fi_max_txid info then snapshot else Some info)
       None snapshots"

fun list_levels :: "'s client \<Rightarrow> 's \<Rightarrow> u8 list \<Rightarrow> file_info list list res" where
  "list_levels c s [] = Ok []"
| "list_levels c s (level # levels) =
     and_then (st_q (ltx_files c s level 0 False)) (\<lambda>files.
     and_then (list_levels c s levels) (\<lambda>rest. Ok (files # rest)))"

definition plan_levels :: "u8 list" where
  "plan_levels = [8, 7, 6, 5, 4, 3, 2, 1, 0]"

text \<open>The gap check of a restore to the latest state: the first cursor that waits behind a hole.\<close>

definition behind_hole :: "txid \<Rightarrow> level_cursor \<Rightarrow> bool" where
  "behind_hole current_max cursor =
     (case lc_current cursor of None \<Rightarrow> False | Some cur \<Rightarrow> current_max + 1 < fi_min_txid cur)"

definition gap_check :: "txid \<Rightarrow> level_cursor list \<Rightarrow> unit res" where
  "gap_check current_max cursors =
     (case List.find (behind_hole current_max) cursors of
        None \<Rightarrow> Ok ()
      | Some cursor \<Rightarrow> Err (Other (''non-contiguous ltx files: have up to '' @ txid_display current_max @
          '' but next file starts at '' @ txid_display (fi_min_txid (the (lc_current cursor))))))"

definition calc_restore_plan :: "'s client \<Rightarrow> 's \<Rightarrow> txid \<Rightarrow> file_info list res" where
  "calc_restore_plan c s txid =
     and_then (st_q (ltx_files c s SNAPSHOT_LEVEL 0 False)) (\<lambda>snapshots.
     let infos = (case choose_snapshot txid snapshots of None \<Rightarrow> [] | Some f \<Rightarrow> [f]);
         current_max = (if infos = [] then 0 else fi_max_txid (last infos)) in
     if \<not> txid_is_zero txid \<and> txid \<le> current_max then Ok infos
     else and_then (list_levels c s plan_levels) (\<lambda>lists.
       let (infos, current_max, cursors) = extend_chain txid current_max infos (map cursor_new lists) in
       and_then (if infos \<noteq> [] \<and> txid_is_zero txid then gap_check current_max cursors else Ok ()) (\<lambda>_.
       if infos = [] then Err TxNotAvailable
       else if \<not> txid_is_zero txid \<and> fi_max_txid (last infos) < txid then Err TxNotAvailable
       else Ok infos)))"

section \<open>Invariant of the cursors\<close>

definition pending :: "level_cursor \<Rightarrow> file_info list" where
  "pending cur = (case lc_current cur of None \<Rightarrow> lc_files cur | Some f \<Rightarrow> f # lc_files cur)"

text \<open>
  For a level with listing \<open>L\<close>: candidates extend the chain and respect the target; every file of
  the level is still pending, already covered by the chain, beyond the target, or covered by the
  level's candidate.
\<close>

definition cursor_inv :: "file_info list \<Rightarrow> txid \<Rightarrow> txid \<Rightarrow> level_cursor \<Rightarrow> bool" where
  "cursor_inv L m t cur \<longleftrightarrow>
     (\<forall>c. lc_candidate cur = Some c \<longrightarrow>
        c \<in> set L \<and> unat (fi_min_txid c) \<le> unat m + 1 \<and> (t = 0 \<or> fi_max_txid c \<le> t)) \<and>
     set (pending cur) \<subseteq> set L \<and> sorted_wrt (\<lambda>f g. fi_min_txid f \<le> fi_min_txid g) (pending cur) \<and>
     (\<forall>f \<in> set L. f \<in> set (pending cur) \<or> fi_max_txid f \<le> m \<or> (t \<noteq> 0 \<and> t < fi_max_txid f) \<or>
        (\<exists>c. lc_candidate cur = Some c \<and> fi_max_txid f \<le> fi_max_txid c))"

text \<open>After a refresh nothing pending could extend the chain.\<close>

definition drained :: "txid \<Rightarrow> level_cursor \<Rightarrow> bool" where
  "drained m cur \<longleftrightarrow> (\<forall>f \<in> set (pending cur). m + 1 < fi_min_txid f) \<and>
     (lc_current cur = None \<longrightarrow> lc_files cur = [])"

lemma cursor_inv_mono:
  assumes "cursor_inv L m t cur" and "m \<le> m'"
  shows "cursor_inv L m' t cur"
proof -
  have u: "unat m \<le> unat m'" using assms(2) by (simp add: word_le_unat)
  show ?thesis unfolding cursor_inv_def
  proof (intro conjI allI impI ballI)
    fix c assume "lc_candidate cur = Some c"
    with assms(1) u show "c \<in> set L" "unat (fi_min_txid c) \<le> unat m' + 1" "t = 0 \<or> fi_max_txid c \<le> t"
      by (auto simp: cursor_inv_def)
  next
    fix f assume "f \<in> set L"
    with assms(1) have "f \<in> set (pending cur) \<or> fi_max_txid f \<le> m \<or> (t \<noteq> 0 \<and> t < fi_max_txid f) \<or>
        (\<exists>c. lc_candidate cur = Some c \<and> fi_max_txid f \<le> fi_max_txid c)" by (simp add: cursor_inv_def)
    with assms(2) show "f \<in> set (pending cur) \<or> fi_max_txid f \<le> m' \<or> (t \<noteq> 0 \<and> t < fi_max_txid f) \<or>
        (\<exists>c. lc_candidate cur = Some c \<and> fi_max_txid f \<le> fi_max_txid c)" by (auto intro: order_trans)
  qed (use assms(1) in \<open>auto simp: cursor_inv_def\<close>)
qed

lemma cursor_inv_take:
  assumes "cursor_inv L m t cur" and "lc_candidate cur = Some c" and "m \<le> n" and "fi_max_txid c \<le> n"
  shows "cursor_inv L n t (cur\<lparr>lc_candidate := None\<rparr>)"
proof -
  have "f \<in> set (pending cur) \<or> fi_max_txid f \<le> n \<or> (t \<noteq> 0 \<and> t < fi_max_txid f)" if "f \<in> set L" for f
    using assms that by (auto simp: cursor_inv_def intro: order_trans)
  moreover have "pending (cur\<lparr>lc_candidate := None\<rparr>) = pending cur" by (simp add: pending_def cong: option.case_cong)
  ultimately show ?thesis using assms(1) by (simp add: cursor_inv_def)
qed

lemma offer_cases:
  obtains (skip) "offer m t info cur = cur" "fi_max_txid info \<le> m \<or> (t \<noteq> 0 \<and> t < fi_max_txid info)"
  | (adopt) "offer m t info cur = cur\<lparr>lc_candidate := Some info\<rparr>" "t = 0 \<or> fi_max_txid info \<le> t"
      "\<forall>c. lc_candidate cur = Some c \<longrightarrow> fi_max_txid c \<le> fi_max_txid info"
  | (keep) c where "offer m t info cur = cur" "lc_candidate cur = Some c" "fi_max_txid info \<le> fi_max_txid c"
proof (cases "fi_max_txid info \<le> m \<or> (t \<noteq> 0 \<and> t < fi_max_txid info)")
  case True
  then show ?thesis using that(1) by (auto simp: offer_def txid_is_zero_def)
next
  case False
  show ?thesis
  proof (cases "lc_candidate cur = None \<or> candidate_better (the (lc_candidate cur)) info")
    case True
    then have "\<forall>c. lc_candidate cur = Some c \<longrightarrow> fi_max_txid c \<le> fi_max_txid info"
      by (auto dest: candidate_better_max)
    moreover have "offer m t info cur = cur\<lparr>lc_candidate := Some info\<rparr>"
      using True False by (auto simp: offer_def txid_is_zero_def)
    moreover have "t = 0 \<or> fi_max_txid info \<le> t" using False by (auto simp: not_less)
    ultimately show ?thesis using that(2) by blast
  next
    case worse: False
    then obtain c where c: "lc_candidate cur = Some c" "\<not> candidate_better c info" by auto
    then have "fi_max_txid info \<le> fi_max_txid c" by (simp add: candidate_better_max)
    with c worse False show ?thesis using that(3) by (auto simp: offer_def txid_is_zero_def)
  qed
qed

lemma offer_inv:
  assumes "cursor_inv L m t cur" and "lc_current cur = Some info" and "\<not> m + 1 < fi_min_txid info"
  shows "cursor_inv L m t (offer m t info (cur\<lparr>lc_current := None\<rparr>))"
proof -
  let ?cur = "offer m t info (cur\<lparr>lc_current := None\<rparr>)"
  have pend: "pending cur = info # lc_files cur" "pending ?cur = lc_files cur"
    using assms(2) by (simp_all add: pending_def)
  have info: "info \<in> set L" using assms(1) pend by (simp add: cursor_inv_def)
  have "unat (m + 1) \<le> unat m + 1" by (simp add: unat_word_ariths)
  then have min: "unat (fi_min_txid info) \<le> unat m + 1"
    using assms(3) by (simp add: word_less_unat)
  have inv: "\<forall>f \<in> set L. f \<in> set (lc_files cur) \<or> f = info \<or> fi_max_txid f \<le> m \<or> (t \<noteq> 0 \<and> t < fi_max_txid f) \<or>
        (\<exists>c. lc_candidate cur = Some c \<and> fi_max_txid f \<le> fi_max_txid c)"
    and old: "set (lc_files cur) \<subseteq> set L" "sorted_wrt (\<lambda>f g. fi_min_txid f \<le> fi_min_txid g) (lc_files cur)"
      "\<forall>c. lc_candidate cur = Some c \<longrightarrow>
        c \<in> set L \<and> unat (fi_min_txid c) \<le> unat m + 1 \<and> (t = 0 \<or> fi_max_txid c \<le> t)"
    using assms(1) pend(1) by (auto simp: cursor_inv_def)
  show ?thesis
  proof (cases rule: offer_cases [of m t info "cur\<lparr>lc_current := None\<rparr>"])
    case skip
    have "\<forall>f \<in> set L. f \<in> set (lc_files cur) \<or> fi_max_txid f \<le> m \<or> (t \<noteq> 0 \<and> t < fi_max_txid f) \<or>
        (\<exists>c. lc_candidate cur = Some c \<and> fi_max_txid f \<le> fi_max_txid c)" using inv skip(2) by blast
    then show ?thesis using old unfolding cursor_inv_def pend(2) by (simp add: skip(1))
  next
    case adopt
    have "\<forall>f \<in> set L. f \<in> set (lc_files cur) \<or> fi_max_txid f \<le> m \<or> (t \<noteq> 0 \<and> t < fi_max_txid f) \<or>
        fi_max_txid f \<le> fi_max_txid info" using inv adopt(3) by (auto intro: order_trans)
    then show ?thesis using old info min adopt(2) unfolding cursor_inv_def pend(2) by (simp add: adopt(1))
  next
    case (keep c)
    have "\<forall>f \<in> set L. f \<in> set (lc_files cur) \<or> fi_max_txid f \<le> m \<or> (t \<noteq> 0 \<and> t < fi_max_txid f) \<or>
        (\<exists>c. lc_candidate cur = Some c \<and> fi_max_txid f \<le> fi_max_txid c)" using inv keep(2,3) by auto
    then show ?thesis using old unfolding cursor_inv_def pend(2) by (simp add: keep(1))
  qed
qed

lemma refresh_loop_inv:
  "cursor_inv L m t cur \<Longrightarrow> cursor_inv L m t (refresh_loop m t cur) \<and> drained m (refresh_loop m t cur)"
proof (induction m t cur rule: refresh_loop.induct)
  case (1 m t cur)
  show ?case
  proof (cases "lc_current cur")
    case None
    show ?thesis
    proof (cases "lc_files cur")
      case Nil
      then show ?thesis using None "1.prems"
        by (subst (1 2) refresh_loop.simps) (simp add: cursor_inv_def drained_def pending_def)
    next
      case (Cons info files)
      have "cursor_inv L m t (cur\<lparr>lc_current := Some info, lc_files := files\<rparr>)"
        using "1.prems" None Cons by (simp add: cursor_inv_def pending_def)
      from "1.IH"(1) [OF None Cons this] None Cons show ?thesis
        by (subst (1 2) refresh_loop.simps) simp
    qed
  next
    case (Some info)
    show ?thesis
    proof (cases "m + 1 < fi_min_txid info")
      case True
      have "drained m cur"
        using "1.prems" Some True by (auto simp: drained_def cursor_inv_def pending_def intro: less_le_trans)
      with True Some "1.prems" show ?thesis by (subst (1 2) refresh_loop.simps) simp
    next
      case False
      from "1.IH"(2) [OF Some False offer_inv [OF "1.prems" Some False]] False Some show ?thesis
        by (subst (1 2) refresh_loop.simps) simp
    qed
  qed
qed

lemma refresh_inv:
  assumes "cursor_inv L m t cur"
  shows "cursor_inv L m t (refresh m t cur) \<and> drained m (refresh m t cur)"
proof -
  have "cursor_inv L m t (if (case lc_candidate cur of None \<Rightarrow> False | Some c \<Rightarrow> fi_max_txid c \<le> m)
        then cur\<lparr>lc_candidate := None\<rparr> else cur)"
    using assms by (auto simp: cursor_inv_def pending_def split: option.splits intro: order_trans)
  then show ?thesis unfolding refresh_def by (rule refresh_loop_inv)
qed

lemma cursor_new_inv:
  assumes "sorted_wrt (\<lambda>f g. fi_min_txid f \<le> fi_min_txid g) L"
  shows "cursor_inv L m t (cursor_new L)"
  using assms by (simp add: cursor_inv_def cursor_new_def pending_def)

section \<open>Invariant of the chain\<close>

fun chain :: "txid \<Rightarrow> file_info list \<Rightarrow> bool" where
  "chain m [] = True"
| "chain m (f # fs) = (is_contiguous m (fi_min_txid f) (fi_max_txid f) \<and> chain (fi_max_txid f) fs)"

definition chain_end :: "txid \<Rightarrow> file_info list \<Rightarrow> txid" where
  "chain_end m fs = (if fs = [] then m else fi_max_txid (last fs))"

lemma chain_append: "chain m (fs @ gs) \<longleftrightarrow> chain m fs \<and> chain (chain_end m fs) gs"
  by (induction fs arbitrary: m) (auto simp: chain_end_def)

text \<open>
  What a run of the extension loop produces: new files appended to the plan that continue its
  chain, and cursors whose invariant holds for the new end of the chain.
\<close>

lemma extend_chain_spec:
  assumes "extend_chain t m infos cursors = (infos', m', cursors')"
    and "list_all2 (\<lambda>L cur. cursor_inv L m t cur) Ls cursors"
  shows "\<exists>new. infos' = infos @ new \<and> chain m new \<and> m' = chain_end m new \<and>
    (\<forall>f \<in> set new. (\<exists>L \<in> set Ls. f \<in> set L) \<and> (t = 0 \<or> fi_max_txid f \<le> t)) \<and>
    list_all2 (\<lambda>L cur. cursor_inv L m' t cur) Ls cursors' \<and>
    ((t \<noteq> 0 \<and> t \<le> m') \<or> (\<forall>cur \<in> set cursors'. lc_candidate cur = None \<and> drained m' cur))"
  using assms
proof (induction t m infos cursors arbitrary: infos' m' cursors' rule: extend_chain.induct)
  case (1 t m infos cursors)
  let ?cs = "map (refresh m t) cursors"
  note eq = "1.prems"(1) [unfolded extend_chain.simps [of t m infos cursors] Let_def]
  have inv: "list_all2 (\<lambda>L cur. cursor_inv L m t cur \<and> drained m cur) Ls ?cs"
    using "1.prems"(2) refresh_inv by (auto simp: list_all2_conv_all_nth)
  show ?case
  proof (cases "pick_next ?cs")
    case None
    then have "\<forall>cur \<in> set ?cs. lc_candidate cur = None"
      using pick_next_picks [of ?cs] by (auto simp: picks_def in_set_conv_nth)
    moreover have "infos' = infos" "m' = m" "cursors' = ?cs" using eq None by auto
    moreover have "\<forall>cur \<in> set ?cs. drained m cur"
      using inv by (auto simp: list_all2_conv_all_nth in_set_conv_nth)
    ultimately show ?thesis using inv
      by (intro exI [of _ "[]"]) (auto simp: chain_end_def elim!: list_all2_mono)
  next
    case (Some i)
    let ?c = "the (lc_candidate (?cs ! i))" and ?cs' = "?cs[i := (?cs ! i)\<lparr>lc_candidate := None\<rparr>]"
    have i: "i < length ?cs" "lc_candidate (?cs ! i) = Some ?c"
      "\<forall>j < length ?cs. \<forall>d. lc_candidate (?cs ! j) = Some d \<longrightarrow> fi_max_txid d \<le> fi_max_txid ?c"
      using pick_next_picks [of ?cs] Some by (auto simp: picks_def)
    have len: "length Ls = length ?cs" using inv by (rule list_all2_lengthD)
    have ci: "?c \<in> set (Ls ! i)" "unat (fi_min_txid ?c) \<le> unat m + 1" "t = 0 \<or> fi_max_txid ?c \<le> t"
      using inv i by (auto simp: list_all2_conv_all_nth cursor_inv_def)
    have inv': "list_all2 (\<lambda>L cur. cursor_inv L n t cur) Ls ?cs'" if n: "m \<le> n" "fi_max_txid ?c \<le> n" for n
      using inv i n len
      by (auto simp: list_all2_conv_all_nth nth_list_update intro: cursor_inv_take cursor_inv_mono)
    show ?thesis
    proof (cases "fi_max_txid ?c \<le> m")
      case True
      have "extend_chain t m infos ?cs' = (infos', m', cursors')" using eq Some True by simp
      from "1.IH"(1) [OF refl Some refl refl True this inv' [OF order_refl True]] show ?thesis .
    next
      case False
      then have less: "m < fi_max_txid ?c" by simp
      have contig: "is_contiguous m (fi_min_txid ?c) (fi_max_txid ?c)"
        using ci(2) less by (simp add: is_contiguous_unat word_less_unat)
      note inv'' = inv' [of "fi_max_txid ?c", OF less_imp_le [OF less] order_refl]
      have in_Ls: "\<exists>L \<in> set Ls. ?c \<in> set L" using ci(1) i(1) len by (metis nth_mem)
      show ?thesis
      proof (cases "\<not> txid_is_zero t \<and> t \<le> fi_max_txid ?c")
        case True
        then have "infos' = infos @ [?c]" "m' = fi_max_txid ?c" "cursors' = ?cs'" using eq Some False by auto
        with True contig ci(3) in_Ls inv'' show ?thesis
          by (intro exI [of _ "[?c]"]) (simp add: chain_end_def txid_is_zero_def)
      next
        case go: False
        have "extend_chain t (fi_max_txid ?c) (infos @ [?c]) ?cs' = (infos', m', cursors')"
          using eq Some False go by auto
        from "1.IH"(2) [OF refl Some refl refl False go this inv''] obtain new where
          new: "infos' = (infos @ [?c]) @ new" "chain (fi_max_txid ?c) new" "m' = chain_end (fi_max_txid ?c) new"
            "\<forall>f \<in> set new. (\<exists>L \<in> set Ls. f \<in> set L) \<and> (t = 0 \<or> fi_max_txid f \<le> t)"
            "list_all2 (\<lambda>L cur. cursor_inv L m' t cur) Ls cursors'"
            "(t \<noteq> 0 \<and> t \<le> m') \<or> (\<forall>cur \<in> set cursors'. lc_candidate cur = None \<and> drained m' cur)" by blast
        have "m' = chain_end m (?c # new)" using new(3) by (simp add: chain_end_def)
        with new contig ci(3) in_Ls show ?thesis by (intro exI [of _ "?c # new"]) auto
      qed
    qed
  qed
qed

section \<open>Properties of plans\<close>

lemma choose_snapshot_Some:
  assumes "choose_snapshot t snaps = Some f"
  shows "f \<in> set snaps" and "t = 0 \<or> fi_max_txid f \<le> t"
proof -
  have "choose_snapshot t snaps = Some f \<longrightarrow> f \<in> set snaps \<and> (t = 0 \<or> fi_max_txid f \<le> t)"
    by (induction snaps rule: rev_induct) (auto simp: choose_snapshot_def txid_is_zero_def not_less)
  with assms show "f \<in> set snaps" "t = 0 \<or> fi_max_txid f \<le> t" by auto
qed

lemma choose_snapshot_latest: "snaps \<noteq> [] \<Longrightarrow> choose_snapshot 0 snaps = Some (last snaps)"
  by (induction snaps rule: rev_induct) (auto simp: choose_snapshot_def txid_is_zero_def)

lemma chain_end_mono: "chain m fs \<Longrightarrow> m \<le> chain_end m fs"
proof (induction fs arbitrary: m)
  case (Cons f fs)
  then have "m < fi_max_txid f" "fi_max_txid f \<le> chain_end (fi_max_txid f) fs" by (auto simp: is_contiguous_def)
  then show ?case by (auto simp: chain_end_def)
qed (simp add: chain_end_def)

lemma list_levels_OkD:
  "list_levels c s levels = Ok Ls \<Longrightarrow> list_all2 (\<lambda>level L. ltx_files c s level 0 False = Ok L) levels Ls"
  by (induction levels arbitrary: Ls) (auto simp: and_then_eq_Ok map_err_eq_Ok)

text \<open>The plan once the listings are known.\<close>

definition plan_start :: "txid \<Rightarrow> file_info list \<Rightarrow> file_info list" where
  "plan_start t snaps = (case choose_snapshot t snaps of None \<Rightarrow> [] | Some f \<Rightarrow> [f])"

lemma calc_restore_plan_OkD:
  assumes "calc_restore_plan c s t = Ok plan"
    and "\<And>level L. ltx_files c s level 0 False = Ok L \<Longrightarrow> sorted_wrt (\<lambda>f g. fi_min_txid f \<le> fi_min_txid g) L"
  shows "\<exists>snaps new. ltx_files c s SNAPSHOT_LEVEL 0 False = Ok snaps \<and> plan = plan_start t snaps @ new \<and>
    plan \<noteq> [] \<and> chain (chain_end 0 (plan_start t snaps)) new \<and>
    (\<forall>f \<in> set new. (\<exists>level \<in> set plan_levels. \<exists>L. ltx_files c s level 0 False = Ok L \<and> f \<in> set L) \<and>
       (t = 0 \<or> fi_max_txid f \<le> t)) \<and>
    (t \<noteq> 0 \<longrightarrow> t \<le> fi_max_txid (last plan)) \<and>
    (t = 0 \<longrightarrow> (\<forall>level \<in> set plan_levels. \<exists>L. ltx_files c s level 0 False = Ok L \<and>
       (\<forall>f \<in> set L. fi_max_txid f \<le> fi_max_txid (last plan))))"
proof -
  from assms(1) obtain snaps where snaps: "ltx_files c s SNAPSHOT_LEVEL 0 False = Ok snaps"
    by (auto simp: calc_restore_plan_def and_then_eq_Ok map_err_eq_Ok)
  let ?start = "plan_start t snaps"
  let ?m = "chain_end 0 ?start"
  note eq = assms(1) [unfolded calc_restore_plan_def snaps map_err.simps and_then.simps Let_def
      plan_start_def [symmetric] chain_end_def [symmetric] txid_is_zero_def]
  show ?thesis
  proof (cases "t \<noteq> 0 \<and> t \<le> ?m")
    case True
    then have plan: "plan = ?start" using eq by (simp add: chain_end_def)
    moreover have "plan \<noteq> []" using True by (auto simp: plan chain_end_def)
    ultimately show ?thesis using True snaps
      by (intro exI [of _ snaps] exI [of _ "[]"]) (auto simp: chain_end_def)
  next
    case False
    with eq obtain Ls where Ls: "list_levels c s plan_levels = Ok Ls" by (auto simp: and_then_eq_Ok)
    obtain infos m cs where ext: "extend_chain t ?m ?start (map cursor_new Ls) = (infos, m, cs)"
      by (cases "extend_chain t ?m ?start (map cursor_new Ls)")
    from eq False Ls ext have gap: "infos \<noteq> [] \<and> t = 0 \<longrightarrow> gap_check m cs = Ok ()"
      and plan: "plan = infos" "infos \<noteq> []" "\<not> (t \<noteq> 0 \<and> fi_max_txid (last infos) < t)"
      by (auto simp: and_then_eq_Ok split: if_splits)
    note L = list_levels_OkD [OF Ls]
    have from_Ls: "\<exists>level \<in> set plan_levels. ltx_files c s level 0 False = Ok L" if "L \<in> set Ls" for L
    proof -
      from that obtain i where "i < length Ls" "L = Ls ! i" by (auto simp: in_set_conv_nth)
      with L have "plan_levels ! i \<in> set plan_levels" "ltx_files c s (plan_levels ! i) 0 False = Ok L"
        by (auto simp: list_all2_conv_all_nth)
      then show ?thesis by blast
    qed
    then have "\<forall>L \<in> set Ls. sorted_wrt (\<lambda>f g. fi_min_txid f \<le> fi_min_txid g) L" using assms(2) by blast
    then have "list_all2 (\<lambda>L cur. cursor_inv L ?m t cur) Ls (map cursor_new Ls)"
      by (auto simp: list_all2_conv_all_nth intro: cursor_new_inv)
    from extend_chain_spec [OF ext this] obtain new where
      new: "infos = ?start @ new" "chain ?m new" "m = chain_end ?m new"
        "\<forall>f \<in> set new. (\<exists>L \<in> set Ls. f \<in> set L) \<and> (t = 0 \<or> fi_max_txid f \<le> t)"
        "list_all2 (\<lambda>L cur. cursor_inv L m t cur) Ls cs"
        "(t \<noteq> 0 \<and> t \<le> m) \<or> (\<forall>cur \<in> set cs. lc_candidate cur = None \<and> drained m cur)" by blast
    have m: "m = fi_max_txid (last plan)" using new(1,3) plan by (auto simp: chain_end_def)
    have all: "\<exists>L. ltx_files c s level 0 False = Ok L \<and> (\<forall>f \<in> set L. fi_max_txid f \<le> fi_max_txid (last plan))"
      if "t = 0" "level \<in> set plan_levels" for level
    proof -
      from that(2) L obtain i where i: "i < length Ls" "ltx_files c s level 0 False = Ok (Ls ! i)"
        by (auto simp: list_all2_conv_all_nth in_set_conv_nth)
      have cur: "cursor_inv (Ls ! i) m t (cs ! i)" "cs ! i \<in> set cs"
        using new(5) i(1) by (auto simp: list_all2_conv_all_nth)
      then have dr: "lc_candidate (cs ! i) = None" "drained m (cs ! i)" using new(6) that(1) by auto
      have "List.find (behind_hole m) cs = None"
        using gap plan(2) that(1) by (auto simp: gap_check_def split: option.splits)
      then have "\<not> behind_hole m (cs ! i)" using cur(2) by (auto simp: find_None_iff)
      with dr(2) have "pending (cs ! i) = []"
        by (auto simp: behind_hole_def drained_def pending_def split: option.splits)
      with cur(1) dr(1) that(1) i(2) m show ?thesis by (auto simp: cursor_inv_def)
    qed
    have from_new: "\<forall>f \<in> set new. (\<exists>level \<in> set plan_levels. \<exists>L. ltx_files c s level 0 False = Ok L \<and> f \<in> set L) \<and>
       (t = 0 \<or> fi_max_txid f \<le> t)" using new(4) from_Ls by blast
    have target: "t \<noteq> 0 \<longrightarrow> t \<le> fi_max_txid (last plan)" using plan(1,3) by (auto simp: not_less)
    show ?thesis
      by (rule exI [of _ snaps], rule exI [of _ new], intro conjI)
        (use snaps new(1,2) plan(1,2) from_new target all in simp_all)
  qed
qed

lemma level_in_plan: "level < SNAPSHOT_LEVEL \<Longrightarrow> level \<in> set plan_levels"
proof -
  assume "level < SNAPSHOT_LEVEL"
  then have "unat level < 9" by (simp add: SNAPSHOT_LEVEL_def word_less_nat_alt)
  then have "unat level \<in> {0, 1, 2, 3, 4, 5, 6, 7, 8}" by auto
  then have "(of_nat (unat level) :: u8) \<in> {0, 1, 2, 3, 4, 5, 6, 7, 8}" by (elim insertE) simp_all
  then show ?thesis by (auto simp: plan_levels_def)
qed

text \<open>The properties of plans over any backend that meets the contract.\<close>

context replica_client
begin

lemma listing_sorted:
  assumes "inv s" and "ltx_files c s level 0 False = Ok L"
  shows "sorted_wrt (\<lambda>f g. fi_min_txid f \<le> fi_min_txid g) L"
    and "f \<in> set L \<Longrightarrow> contents s (info_key f) \<noteq> None \<and> fi_level f = level"
    and "contents s (level, a, b) \<noteq> None \<Longrightarrow> \<exists>f \<in> set L. info_key f = (level, a, b)"
proof -
  have L: "is_listing (contents s) level 0 L"
    using ltx_files_listing [OF assms(1), of level 0 False] assms(2) by auto
  then have "sorted_wrt range_less L" by (simp add: is_listing_def)
  then show "sorted_wrt (\<lambda>f g. fi_min_txid f \<le> fi_min_txid g) L"
    by (rule sorted_wrt_mono_rel [rotated]) (auto simp: range_less_def)
  show "f \<in> set L \<Longrightarrow> contents s (info_key f) \<noteq> None \<and> fi_level f = level"
    using L by (auto simp: is_listing_def)
  show "contents s (level, a, b) \<noteq> None \<Longrightarrow> \<exists>f \<in> set L. info_key f = (level, a, b)"
  proof -
    assume "contents s (level, a, b) \<noteq> None"
    then obtain d t where "contents s (level, a, b) = Some (d, t)" by auto
    then have "mk_info level a b (of_nat (length d)) (Some t) \<in> set L" using L by (auto simp: is_listing_def)
    then show ?thesis by force
  qed
qed

lemma restore_plan_spec:
  assumes "inv s" and "calc_restore_plan c s t = Ok plan"
  shows "plan \<noteq> []" and "\<forall>f \<in> set plan. contents s (info_key f) \<noteq> None"
    and "chain 0 plan \<or> (fi_level (hd plan) = SNAPSHOT_LEVEL \<and> chain (fi_max_txid (hd plan)) (tl plan))"
    and "t \<noteq> 0 \<Longrightarrow> fi_max_txid (last plan) = t"
    and "t = 0 \<Longrightarrow> level < SNAPSHOT_LEVEL \<Longrightarrow> contents s (level, a, b) \<noteq> None \<Longrightarrow> b \<le> fi_max_txid (last plan)"
    and "t = 0 \<Longrightarrow> contents s (SNAPSHOT_LEVEL, a, b) \<noteq> None \<Longrightarrow>
      (\<forall>a' b'. contents s (SNAPSHOT_LEVEL, a', b') \<noteq> None \<longrightarrow> a' \<le> a) \<Longrightarrow> b \<le> fi_max_txid (last plan)"
proof -
  have srt: "ltx_files c s level 0 False = Ok L \<Longrightarrow> sorted_wrt (\<lambda>f g. fi_min_txid f \<le> fi_min_txid g) L" for level L
    by (rule listing_sorted(1) [OF assms(1)])
  obtain snaps new where
    snaps: "ltx_files c s SNAPSHOT_LEVEL 0 False = Ok snaps" and plan: "plan = plan_start t snaps @ new" "plan \<noteq> []"
    and ch: "chain (chain_end 0 (plan_start t snaps)) new"
    and new: "\<forall>f \<in> set new. (\<exists>level \<in> set plan_levels. \<exists>L. ltx_files c s level 0 False = Ok L \<and> f \<in> set L) \<and>
       (t = 0 \<or> fi_max_txid f \<le> t)"
    and target: "t \<noteq> 0 \<longrightarrow> t \<le> fi_max_txid (last plan)"
    and all: "t = 0 \<longrightarrow> (\<forall>level \<in> set plan_levels. \<exists>L. ltx_files c s level 0 False = Ok L \<and>
       (\<forall>f \<in> set L. fi_max_txid f \<le> fi_max_txid (last plan)))" using calc_restore_plan_OkD [OF assms(2)] srt by blast
  have start: "\<forall>f \<in> set (plan_start t snaps). f \<in> set snaps \<and> (t = 0 \<or> fi_max_txid f \<le> t)"
    using choose_snapshot_Some [of t snaps] by (auto simp: plan_start_def split: option.splits)
  show "plan \<noteq> []" by (rule plan(2))
  show "\<forall>f \<in> set plan. contents s (info_key f) \<noteq> None"
    using plan(1) start new listing_sorted(2) [OF assms(1)] snaps by fastforce
  show "chain 0 plan \<or> (fi_level (hd plan) = SNAPSHOT_LEVEL \<and> chain (fi_max_txid (hd plan)) (tl plan))"
  proof (cases "choose_snapshot t snaps")
    case None
    then show ?thesis using plan(1) ch by (simp add: plan_start_def chain_end_def)
  next
    case (Some f)
    then have "fi_level f = SNAPSHOT_LEVEL"
      using choose_snapshot_Some(1) [OF Some] listing_sorted(2) [OF assms(1) snaps] by blast
    with Some show ?thesis using plan(1) ch by (simp add: plan_start_def chain_end_def)
  qed
  show "fi_max_txid (last plan) = t" if "t \<noteq> 0"
    using target that start new plan last_in_set [of plan] by (fastforce intro: antisym)
  show "b \<le> fi_max_txid (last plan)" if "t = 0" "level < SNAPSHOT_LEVEL" "contents s (level, a, b) \<noteq> None"
  proof -
    have "level \<in> set plan_levels" using that(2) by (rule level_in_plan)
    with all that(1) obtain L where L: "ltx_files c s level 0 False = Ok L"
      "\<forall>f \<in> set L. fi_max_txid f \<le> fi_max_txid (last plan)" by blast
    from listing_sorted(3) [OF assms(1) L(1) that(3)] L(2) show ?thesis by (auto simp: info_key_def)
  qed
  show "b \<le> fi_max_txid (last plan)" if "t = 0" "contents s (SNAPSHOT_LEVEL, a, b) \<noteq> None"
    "\<forall>a' b'. contents s (SNAPSHOT_LEVEL, a', b') \<noteq> None \<longrightarrow> a' \<le> a"
  proof -
    from listing_sorted(3) [OF assms(1) snaps that(2)] obtain f where f: "f \<in> set snaps" "info_key f = (SNAPSHOT_LEVEL, a, b)" by blast
    then have ne: "snaps \<noteq> []" by auto
    have "is_listing (contents s) SNAPSHOT_LEVEL 0 snaps" using ltx_files_Ok [OF assms(1) snaps] .
    then have "sorted_wrt range_less (butlast snaps @ [last snaps])" using ne by (simp add: is_listing_def)
    then have "f = last snaps \<or> range_less f (last snaps)" using f(1) ne by (subst (asm) sorted_wrt_append) (metis Un_iff append_butlast_last_id empty_iff empty_set list.set_intros(1) set_ConsD set_append)
    moreover have "fi_min_txid (last snaps) \<le> a"
      using listing_sorted(2) [OF assms(1) snaps last_in_set [OF ne]] that(3) by (metis info_key_def)
    ultimately have "b \<le> fi_max_txid (last snaps)" using f(2) by (auto simp: range_less_def info_key_def)
    moreover have st: "plan_start t snaps = [last snaps]" using choose_snapshot_latest [OF ne] that(1) by (simp add: plan_start_def)
    moreover have "fi_max_txid (last snaps) \<le> fi_max_txid (last plan)"
      using chain_end_mono [OF ch] plan(1) unfolding st by (auto simp: chain_end_def)
    ultimately show ?thesis by simp
  qed
qed

end

text \<open>C9: a restore plan is a readable, contiguous chain to the target.  Over the directory backend,
  every plan is non-empty, names only files that exist, starts with a snapshot-level file or with a
  file that continues transaction 0, each later file continues the one before it without a hole and
  extends it, and a plan for transaction \<open>t\<close> ends exactly at \<open>t\<close>.\<close>

theorem restore_plan_sound:
  assumes "dir_inv fs" and "calc_restore_plan (dir_client root) fs t = Ok plan"
  shows "plan \<noteq> [] \<and> (\<forall>f \<in> set plan. \<exists>d. dir_open_ltx_file root fs (fi_level f) (fi_min_txid f) (fi_max_txid f) 0 0 = Ok d) \<and>
    (chain 0 plan \<or> (fi_level (hd plan) = SNAPSHOT_LEVEL \<and> chain (fi_max_txid (hd plan)) (tl plan))) \<and>
    (t \<noteq> 0 \<longrightarrow> fi_max_txid (last plan) = t)"
proof -
  have "\<exists>d. dir_open_ltx_file root fs (fi_level f) (fi_min_txid f) (fi_max_txid f) 0 0 = Ok d"
    if "f \<in> set plan" for f
  proof -
    have "dir_contents root fs (info_key f) \<noteq> None" using dir.restore_plan_spec(2) [OF assms] that by blast
    then show ?thesis by (auto simp: info_key_def dir_open_ltx_file_def)
  qed
  with dir.restore_plan_spec [OF assms] show ?thesis by blast
qed

text \<open>C10: a restore to the latest state never serves a stale head.  When a plan for the latest state
  is returned, no file of the compaction levels 0 to 8 reaches beyond the plan's last transaction, and no snapshot of
  level 9 does, as long as no other snapshot starts at a later transaction (all that the writer makes start at 1).\<close>

theorem restore_plan_latest:
  assumes "dir_inv fs" and "calc_restore_plan (dir_client root) fs 0 = Ok plan"
    and "level \<le> SNAPSHOT_LEVEL" and "dir_open_ltx_file root fs level a b 0 0 = Ok d"
    and "level = SNAPSHOT_LEVEL \<longrightarrow> (\<forall>a' b' d'. dir_open_ltx_file root fs SNAPSHOT_LEVEL a' b' 0 0 = Ok d' \<longrightarrow> a' \<le> a)"
  shows "b \<le> fi_max_txid (last plan)"
proof -
  have stored: "dir_contents root fs (level, a, b) \<noteq> None"
    using assms(4) by (auto simp: dir_open_ltx_file_def split: option.splits)
  show ?thesis
  proof (cases "level = SNAPSHOT_LEVEL")
    case True
    have "a' \<le> a" if "dir_contents root fs (SNAPSHOT_LEVEL, a', b') \<noteq> None" for a' b'
    proof -
      from that obtain d' where "dir_open_ltx_file root fs SNAPSHOT_LEVEL a' b' 0 0 = Ok d'" by (auto simp: dir_open_ltx_file_def)
      with assms(5) True show ?thesis by blast
    qed
    then show ?thesis using dir.restore_plan_spec(6) [OF assms(1,2) refl] stored True by blast
  next
    case False
    then have "level < SNAPSHOT_LEVEL" using assms(3) by simp
    with dir.restore_plan_spec(5) [OF assms(1,2) refl this] stored show ?thesis by blast
  qed
qed

text \<open>A replica with a snapshot of transaction 1, a compacted file 2-3 and the fresh files 3 and 4.\<close>

definition demo_fs :: file_system where
  "demo_fs =
     [([''ltx'', ''9'', format_filename 1 1], [0], 0), ([''ltx'', ''0'', format_filename 3 3], [0], 1),
      ([''ltx'', ''1'', format_filename 2 3], [0], 2), ([''ltx'', ''0'', format_filename 4 4], [0], 3)]"

definition demo_plan :: "file_info list" where
  "demo_plan = [mk_info 9 1 1 1 (Some 0), mk_info 1 2 3 1 (Some 2), mk_info 0 4 4 1 (Some 3)]"

lemma demo_fs_inv: "dir_inv demo_fs" by (simp add: dir_inv_def demo_fs_def format_filename_inj)

lemma demo_listing:
  "ltx_files (dir_client []) demo_fs 9 0 False = Ok [mk_info 9 1 1 1 (Some 0)]"
  "ltx_files (dir_client []) demo_fs 8 0 False = Ok []" "ltx_files (dir_client []) demo_fs 7 0 False = Ok []"
  "ltx_files (dir_client []) demo_fs 6 0 False = Ok []" "ltx_files (dir_client []) demo_fs 5 0 False = Ok []"
  "ltx_files (dir_client []) demo_fs 4 0 False = Ok []" "ltx_files (dir_client []) demo_fs 3 0 False = Ok []"
  "ltx_files (dir_client []) demo_fs 2 0 False = Ok []"
  "ltx_files (dir_client []) demo_fs 1 0 False = Ok [mk_info 1 2 3 1 (Some 2)]"
  "ltx_files (dir_client []) demo_fs 0 0 False = Ok [mk_info 0 3 3 1 (Some 1), mk_info 0 4 4 1 (Some 3)]"
  by (simp_all add: demo_fs_def dir_eval)

lemma demo_calc_restore_plan: "calc_restore_plan (dir_client []) demo_fs 0 = Ok demo_plan"
  unfolding calc_restore_plan_def SNAPSHOT_LEVEL_def demo_listing choose_snapshot_def
  by (simp add: plan_levels_def demo_listing txid_is_zero_def) code_simp

theorem restore_plan_sound_witness:
  "(\<exists>d. dir_open_ltx_file [] demo_fs 1 2 3 0 0 = Ok d) \<and> chain 1 (tl demo_plan)"
proof -
  note sound = restore_plan_sound [OF demo_fs_inv demo_calc_restore_plan]
  have "mk_info 1 2 3 1 (Some 2) \<in> set demo_plan" by (simp add: demo_plan_def)
  with sound have "\<exists>d. dir_open_ltx_file [] demo_fs 1 2 3 0 0 = Ok d" by fastforce
  moreover have "\<not> chain 0 demo_plan \<or> chain 1 (tl demo_plan)" by (simp add: demo_plan_def)
  moreover have "fi_max_txid (hd demo_plan) = 1" by (simp add: demo_plan_def)
  ultimately show ?thesis using sound by metis
qed

theorem restore_plan_latest_witness: "(3 :: txid) \<le> fi_max_txid (last demo_plan) \<and> (1 :: txid) \<le> fi_max_txid (last demo_plan)"
proof
  note eval = demo_fs_def dir_open_ltx_file_def ltx_path_def dir_eval format_filename_inj
  show "(3 :: txid) \<le> fi_max_txid (last demo_plan)"
  proof (rule restore_plan_latest [OF demo_fs_inv demo_calc_restore_plan])
    show "dir_open_ltx_file [] demo_fs 1 2 3 0 0 = Ok [0]" by (simp add: eval)
  qed (simp_all add: SNAPSHOT_LEVEL_def)
  show "(1 :: txid) \<le> fi_max_txid (last demo_plan)"
  proof (rule restore_plan_latest [OF demo_fs_inv demo_calc_restore_plan])
    show "dir_open_ltx_file [] demo_fs SNAPSHOT_LEVEL 1 1 0 0 = Ok [0]" by (simp add: eval SNAPSHOT_LEVEL_def)
    show "SNAPSHOT_LEVEL = SNAPSHOT_LEVEL \<longrightarrow> (\<forall>a' b' d'. dir_open_ltx_file [] demo_fs SNAPSHOT_LEVEL a' b' 0 0 = Ok d' \<longrightarrow> a' \<le> 1)"
      by (auto simp: eval SNAPSHOT_LEVEL_def split: if_splits)
  qed simp
qed

end
