(* ===== verification/MaintainProps.thy ===== *)
theory MaintainProps
  imports Maintain RestorePlan
begin

text \<open>
  What maintenance promises.  Retention is stated on the keys a bucket holds: \<open>safely_thinned\<close> is a
  transitive relation that every step of a maintenance run keeps, so it holds between the bucket
  before a run and the bucket after it, however the run ends.
\<close>

section \<open>Safely thinned buckets\<close>

text \<open>
  What readers of a bucket may rely on.  A file of L0 that is gone is behind L1 or the snapshots: a file of level 1 or 9 that is
  there ends at or after its last transaction.  A file of a higher level that is gone, a snapshot included, ends
  before a snapshot that is there.  No level becomes empty, the newest position of L0 and of the snapshots is kept, and every new
  snapshot starts at transaction 1, so that it holds everything up to its end.
\<close>

definition safely_thinned :: "file_key set \<Rightarrow> file_key set \<Rightarrow> bool" where
  "safely_thinned D D' \<longleftrightarrow>
     (\<forall>a b. (0, a, b) \<in> D - D' \<longrightarrow> (\<exists>l' a' b'. (l', a', b') \<in> D' \<and> l' \<in> {1, SNAPSHOT_LEVEL} \<and> b \<le> b')) \<and>
     (\<forall>l a b. (l, a, b) \<in> D - D' \<and> l \<noteq> 0 \<longrightarrow> (\<exists>a' b'. (SNAPSHOT_LEVEL, a', b') \<in> D' \<and> b < b')) \<and>
     (\<forall>l a b. (l, a, b) \<in> D \<longrightarrow> (\<exists>a' b'. (l, a', b') \<in> D')) \<and>
     (\<forall>l a b. (l, a, b) \<in> D \<and> (l = 0 \<or> l = SNAPSHOT_LEVEL) \<longrightarrow> (\<exists>a' b'. (l, a', b') \<in> D' \<and> b \<le> b')) \<and>
     (\<forall>a b. (SNAPSHOT_LEVEL, a, b) \<in> D' - D \<longrightarrow> a = 1)"

lemma safely_thinnedD:
  assumes "safely_thinned D D'"
  shows "(0, a, b) \<in> D \<Longrightarrow> (0, a, b) \<notin> D' \<Longrightarrow> \<exists>l' a' b'. (l', a', b') \<in> D' \<and> l' \<in> {1, SNAPSHOT_LEVEL} \<and> b \<le> b'"
    and "(l, a, b) \<in> D \<Longrightarrow> (l, a, b) \<notin> D' \<Longrightarrow> l \<noteq> 0 \<Longrightarrow> \<exists>a' b'. (SNAPSHOT_LEVEL, a', b') \<in> D' \<and> b < b'"
    and "(l, a, b) \<in> D \<Longrightarrow> \<exists>a' b'. (l, a', b') \<in> D'"
    and "(l, a, b) \<in> D \<Longrightarrow> l = 0 \<or> l = SNAPSHOT_LEVEL \<Longrightarrow> \<exists>a' b'. (l, a', b') \<in> D' \<and> b \<le> b'"
    and "(SNAPSHOT_LEVEL, a, b) \<in> D' \<Longrightarrow> (SNAPSHOT_LEVEL, a, b) \<notin> D \<Longrightarrow> a = 1"
  using assms unfolding safely_thinned_def by blast+

lemma safely_thinned_mono: "D \<subseteq> D' \<Longrightarrow> (\<And>a b. (SNAPSHOT_LEVEL, a, b) \<in> D' - D \<Longrightarrow> a = 1) \<Longrightarrow> safely_thinned D D'"
  unfolding safely_thinned_def by blast

lemma safely_thinned_trans:
  assumes "safely_thinned D D'" and "safely_thinned D' D''"
  shows "safely_thinned D D''"
  unfolding safely_thinned_def
proof (intro conjI allI impI)
  fix a b assume gone: "(0, a, b) \<in> D - D''"
  show "\<exists>l' a' b'. (l', a', b') \<in> D'' \<and> l' \<in> {1, SNAPSHOT_LEVEL} \<and> b \<le> b'"
  proof (cases "(0, a, b) \<in> D'")
    case True
    with safely_thinnedD(1) [OF assms(2)] gone show ?thesis by blast
  next
    case False
    with safely_thinnedD(1) [OF assms(1)] gone obtain l1 a1 b1 where
      c: "(l1, a1, b1) \<in> D'" "l1 \<in> {1, SNAPSHOT_LEVEL}" "b \<le> b1" by blast
    show ?thesis
    proof (cases "(l1, a1, b1) \<in> D''")
      case False
      moreover have "l1 \<noteq> 0" using c(2) by (auto simp: SNAPSHOT_LEVEL_def)
      ultimately obtain a2 b2 where "(SNAPSHOT_LEVEL, a2, b2) \<in> D''" "b1 < b2" using safely_thinnedD(2) [OF assms(2) c(1)] by blast
      moreover from this c(3) have "b \<le> b2" by simp
      ultimately show ?thesis by blast
    qed (use c in blast)
  qed
next
  fix l a b assume gone: "(l, a, b) \<in> D - D'' \<and> l \<noteq> 0"
  show "\<exists>a' b'. (SNAPSHOT_LEVEL, a', b') \<in> D'' \<and> b < b'"
  proof (cases "(l, a, b) \<in> D'")
    case True
    with safely_thinnedD(2) [OF assms(2)] gone show ?thesis by blast
  next
    case False
    with safely_thinnedD(2) [OF assms(1)] gone obtain a1 b1 where c: "(SNAPSHOT_LEVEL, a1, b1) \<in> D'" "b < b1" by blast
    from safely_thinnedD(4) [OF assms(2) c(1)] obtain a2 b2 where "(SNAPSHOT_LEVEL, a2, b2) \<in> D''" "b1 \<le> b2" by blast
    with c(2) show ?thesis by (meson less_le_trans)
  qed
next
  fix l a b assume "(l, a, b) \<in> D"
  then show "\<exists>a' b'. (l, a', b') \<in> D''" using safely_thinnedD(3) [OF assms(1)] safely_thinnedD(3) [OF assms(2)] by blast
next
  fix l a b assume "(l, a, b) \<in> D \<and> (l = 0 \<or> l = SNAPSHOT_LEVEL)"
  then obtain a1 b1 where c: "(l, a1, b1) \<in> D'" "b \<le> b1" "l = 0 \<or> l = SNAPSHOT_LEVEL"
    using safely_thinnedD(4) [OF assms(1)] by blast
  from safely_thinnedD(4) [OF assms(2) c(1,3)] c(2) show "\<exists>a' b'. (l, a', b') \<in> D'' \<and> b \<le> b'"
    by (blast intro: order.trans)
next
  fix a b assume "(SNAPSHOT_LEVEL, a, b) \<in> D'' - D"
  then show "a = 1" using safely_thinnedD(5) [OF assms(1)] safely_thinnedD(5) [OF assms(2)] by blast
qed

text \<open>Deleting files of one level, when a file of it stays that is the newest for L0 and the snapshots.\<close>

lemma safely_thinned_delete:
  assumes "\<And>key. key \<in> K \<Longrightarrow> fst key = l"
    and "(l, a0, b0) \<in> D" and "(l, a0, b0) \<notin> K"
    and "\<And>a b. l = 0 \<or> l = SNAPSHOT_LEVEL \<Longrightarrow> (l, a, b) \<in> D \<Longrightarrow> b \<le> b0"
    and "\<And>a b. (l, a, b) \<in> K \<Longrightarrow> (l, a, b) \<in> D \<Longrightarrow> l = 0 \<Longrightarrow>
      \<exists>l' a' b'. (l', a', b') \<in> D - K \<and> l' \<in> {1, SNAPSHOT_LEVEL} \<and> b \<le> b'"
    and "\<And>a b. (l, a, b) \<in> K \<Longrightarrow> (l, a, b) \<in> D \<Longrightarrow> l \<noteq> 0 \<Longrightarrow> \<exists>a' b'. (SNAPSHOT_LEVEL, a', b') \<in> D - K \<and> b < b'"
  shows "safely_thinned D (D - K)"
  unfolding safely_thinned_def
proof (intro conjI allI impI)
  fix a b assume "(0, a, b) \<in> D - (D - K)"
  then have "(0, a, b) \<in> K" "(0, a, b) \<in> D" "l = 0" using assms(1) [of "(0, a, b)"] by auto
  with assms(5) show "\<exists>l' a' b'. (l', a', b') \<in> D - K \<and> l' \<in> {1, SNAPSHOT_LEVEL} \<and> b \<le> b'" by blast
next
  fix l1 a b assume g: "(l1, a, b) \<in> D - (D - K) \<and> l1 \<noteq> 0"
  then have "(l1, a, b) \<in> K" "(l1, a, b) \<in> D" "l1 = l" "l1 \<noteq> 0" using assms(1) [of "(l1, a, b)"] by auto
  with assms(6) show "\<exists>a' b'. (SNAPSHOT_LEVEL, a', b') \<in> D - K \<and> b < b'" by blast
next
  fix l1 a b assume D: "(l1, a, b) \<in> D"
  show "\<exists>a' b'. (l1, a', b') \<in> D - K"
    using D assms(1) [of "(l1, a, b)"] assms(2,3) by (cases "l1 = l") auto
next
  fix l1 a b assume D: "(l1, a, b) \<in> D \<and> (l1 = 0 \<or> l1 = SNAPSHOT_LEVEL)"
  show "\<exists>a' b'. (l1, a', b') \<in> D - K \<and> b \<le> b'"
  proof (cases "l1 = l")
    case True
    with D assms(2-4) show ?thesis by blast
  next
    case False
    with D assms(1) [of "(l1, a, b)"] show ?thesis by auto
  qed
qed auto

section \<open>What retention deletes\<close>

lemma set_info_key: "is_listing C level 0 fs \<Longrightarrow> info_key ` set fs = {key \<in> dom C. fst key = level}"
  by (force simp: is_listing_def info_key_def mk_info_def image_iff)

lemma l0_deletable_prefix: "\<exists>rest. fs = l0_deletable m n cutoff fs @ rest"
  by (induction fs) (auto split: option.splits)

lemma l0_deletable_facts:
  "f \<in> set (l0_deletable m n cutoff fs) \<Longrightarrow>
   f \<in> set fs \<and> fi_max_txid f \<le> m \<and> fi_max_txid f \<noteq> n \<and> (\<exists>at. fi_created_at f = Some at \<and> at \<le> cutoff)"
  by (induction fs) (auto split: if_splits option.splits intro: sym)

lemma expired_facts:
  assumes "expired_snapshots cutoff newest prev fs = (es, fl)" and "prev \<le> newest"
    and "\<And>f. f \<in> set fs \<Longrightarrow> fi_max_txid f \<le> newest"
  shows "fl \<le> newest \<and> (\<forall>f \<in> set es. f \<in> set fs \<and> fi_max_txid f \<noteq> newest)"
  using assms
proof (induction fs arbitrary: prev es fl)
  case (Cons f fs)
  then show ?case by (auto simp: Let_def split: if_splits prod.splits) fastforce+
qed auto

lemma listing_keys_distinct: "is_listing C level seek fs \<Longrightarrow> distinct (map info_key fs)"
proof -
  assume l: "is_listing C level seek fs"
  then have "sorted_wrt range_less fs" by (simp add: is_listing_def)
  then have "sorted_wrt (\<lambda>f g. info_key f \<noteq> info_key g) fs"
    by (rule sorted_wrt_mono_rel [rotated]) (auto simp: range_less_def info_key_def)
  then show ?thesis by (induction fs) auto
qed

lemma in_dom_listing: "is_listing C level 0 fs \<Longrightarrow> f \<in> set fs \<Longrightarrow> info_key f \<in> dom C \<and> fi_level f = level"
  by (auto simp: is_listing_def)

lemma dom_listing: "is_listing C level 0 fs \<Longrightarrow> (level, a, b) \<in> dom C \<Longrightarrow> \<exists>f \<in> set fs. info_key f = (level, a, b)"
  by (force simp: is_listing_def)

text \<open>L0: the deleted files are covered by L1, and the newest stays.\<close>

lemma thin_l0:
  assumes l: "is_listing C 0 0 fs" and newest: "max_by_key fi_max_txid fs = Some g" and l1: "(1, a1, m) \<in> dom C"
  shows "safely_thinned (dom C) (dom C - info_key ` set (l0_deletable m (fi_max_txid g) cutoff fs))"
proof -
  let ?K = "info_key ` set (l0_deletable m (fi_max_txid g) cutoff fs)"
  have K: "\<exists>f \<in> set fs. key = info_key f \<and> fi_max_txid f \<le> m \<and> fi_max_txid f \<noteq> fi_max_txid g \<and> fst key = 0"
    if "key \<in> ?K" for key
    using that l0_deletable_facts in_dom_listing [OF l] by (fastforce simp: info_key_def)
  have g: "g \<in> set fs" and le: "f \<in> set fs \<Longrightarrow> fi_max_txid f \<le> fi_max_txid g" for f
    using max_by_key_Some [OF newest] by auto
  have gk: "info_key g = (0, fi_min_txid g, fi_max_txid g)" using in_dom_listing [OF l g] by (simp add: info_key_def)
  show ?thesis
  proof (rule safely_thinned_delete [of _ 0 "fi_min_txid g" "fi_max_txid g"])
    show "(0, fi_min_txid g, fi_max_txid g) \<in> dom C" using in_dom_listing [OF l g] gk by simp
    show "(0, fi_min_txid g, fi_max_txid g) \<notin> ?K" using K by (force simp: info_key_def)
    show "b \<le> fi_max_txid g" if "(0, a, b) \<in> dom C" for a b
      using dom_listing [OF l that] le by (auto simp: info_key_def)
    show "\<exists>l' a' b'. (l', a', b') \<in> dom C - ?K \<and> l' \<in> {1, SNAPSHOT_LEVEL} \<and> b \<le> b'" if "(0, a, b) \<in> ?K" for a b
    proof -
      from K [OF that] have "b \<le> m" by (auto simp: info_key_def)
      moreover have "(1, a1, m) \<notin> ?K" using K [of "(1, a1, m)"] by auto
      ultimately show ?thesis using l1 by (intro exI [of _ 1] exI [of _ a1] exI [of _ m]) simp
    qed
    show "fst key = 0" if "key \<in> ?K" for key using K [OF that] by blast
  qed simp
qed

text \<open>Snapshots: the newest stays and reaches further than every deleted one.\<close>

lemma thin_snapshots:
  assumes l: "is_listing C SNAPSHOT_LEVEL 0 fs" and newest: "max_by_key fi_max_txid fs = Some g"
    and es: "expired_snapshots cutoff (fi_max_txid g) 0 fs = (es, fl)"
  shows "safely_thinned (dom C) (dom C - info_key ` set es)"
    and "\<exists>a. (SNAPSHOT_LEVEL, a, fi_max_txid g) \<in> dom C - info_key ` set es" and "fl \<le> fi_max_txid g"
proof -
  have g: "g \<in> set fs" and le: "f \<in> set fs \<Longrightarrow> fi_max_txid f \<le> fi_max_txid g" for f
    using max_by_key_Some [OF newest] by auto
  note ef = expired_facts [OF es _ le]
  then show "fl \<le> fi_max_txid g" by simp
  have K: "\<exists>f \<in> set fs. key = info_key f \<and> fi_max_txid f < fi_max_txid g \<and> fst key = SNAPSHOT_LEVEL"
    if "key \<in> info_key ` set es" for key
  proof -
    from that obtain f where f: "f \<in> set es" "key = info_key f" by blast
    with ef have "f \<in> set fs" "fi_max_txid f \<noteq> fi_max_txid g" by auto
    with le [of f] in_dom_listing [OF l, of f] f(2) show ?thesis by (intro bexI [of _ f]) (auto simp: info_key_def)
  qed
  have gD: "(SNAPSHOT_LEVEL, fi_min_txid g, fi_max_txid g) \<in> dom C"
    using in_dom_listing [OF l g] by (auto simp: info_key_def)
  moreover have gK: "(SNAPSHOT_LEVEL, fi_min_txid g, fi_max_txid g) \<notin> info_key ` set es"
    using K by (force simp: info_key_def)
  ultimately show "\<exists>a. (SNAPSHOT_LEVEL, a, fi_max_txid g) \<in> dom C - info_key ` set es" by blast
  show "safely_thinned (dom C) (dom C - info_key ` set es)"
  proof (rule safely_thinned_delete [of _ SNAPSHOT_LEVEL, OF _ gD gK])
    show "b \<le> fi_max_txid g" if "(SNAPSHOT_LEVEL, a, b) \<in> dom C" for a b
      using dom_listing [OF l that] le by (auto simp: info_key_def)
    show "\<exists>a' b'. (SNAPSHOT_LEVEL, a', b') \<in> dom C - info_key ` set es \<and> b < b'"
      if "(SNAPSHOT_LEVEL, a, b) \<in> info_key ` set es" for a b
      using K [OF that] gD gK by (intro exI [of _ "fi_min_txid g"] exI [of _ "fi_max_txid g"]) (auto simp: info_key_def)
    show "fst key = SNAPSHOT_LEVEL" if "key \<in> info_key ` set es" for key using K [OF that] by blast
  qed (simp add: SNAPSHOT_LEVEL_def)
qed

text \<open>The cascade: the last file of the level stays, and a snapshot reaches further than every deleted one.\<close>

lemma thin_level:
  assumes l: "is_listing C level 0 fs" and lv: "level \<noteq> 0" "level < SNAPSHOT_LEVEL" and len: "1 < length fs"
    and snap: "(SNAPSHOT_LEVEL, a9, b9) \<in> dom C" "floor \<le> b9"
  shows "safely_thinned (dom C) (dom C - info_key ` set (filter (\<lambda>f. fi_max_txid f < floor) (butlast fs)))"
    and "(SNAPSHOT_LEVEL, a9, b9) \<in> dom C - info_key ` set (filter (\<lambda>f. fi_max_txid f < floor) (butlast fs))"
proof -
  let ?K = "info_key ` set (filter (\<lambda>f. fi_max_txid f < floor) (butlast fs))"
  have K: "\<exists>f \<in> set fs. key = info_key f \<and> fi_max_txid f < floor \<and> fst key = level" if "key \<in> ?K" for key
  proof -
    from that obtain f where f: "f \<in> set (butlast fs)" "fi_max_txid f < floor" "key = info_key f" by auto
    from in_set_butlastD [OF f(1)] in_dom_listing [OF l, of f] f show ?thesis by (intro bexI [of _ f]) (auto simp: info_key_def)
  qed
  have fs: "fs \<noteq> []" "fs = butlast fs @ [last fs]" using len by (cases fs rule: rev_cases; simp)+
  have lastD: "info_key (last fs) \<in> dom C" "fi_level (last fs) = level" using in_dom_listing [OF l] fs(1) by auto
  have "distinct (map info_key (butlast fs @ [last fs]))" using listing_keys_distinct [OF l] fs(2) by metis
  then have lastK: "info_key (last fs) \<notin> ?K" by auto
  show snapK: "(SNAPSHOT_LEVEL, a9, b9) \<in> dom C - ?K" using K [of "(SNAPSHOT_LEVEL, a9, b9)"] snap lv by auto
  show "safely_thinned (dom C) (dom C - ?K)"
  proof (rule safely_thinned_delete [of _ level "fi_min_txid (last fs)" "fi_max_txid (last fs)"])
    show "\<exists>a' b'. (SNAPSHOT_LEVEL, a', b') \<in> dom C - ?K \<and> b < b'" if "(level, a, b) \<in> ?K" for a b
      using K [OF that] snapK snap(2) by (intro exI [of _ a9] exI [of _ b9]) (auto simp: info_key_def)
  qed (use K lv lastD lastK in \<open>auto simp: info_key_def\<close>)
qed


section \<open>Every step keeps the bucket safely thinned\<close>

lemma keep_reads:
  "keeps I (client_list ev level seek)" "keeps I (client_open ev level a b)" "keeps I (client_max ev level)"
  "keeps I (level_due ev level interval now)" "keeps I (snapshot_due ev interval now)"
  unfolding client_list_def client_open_def client_max_def level_due_def snapshot_due_def
  by (intro keeps_rules)+

lemma keep_open_sources: "keeps (\<lambda>w. P (w_client w)) (open_sources ev level infos)"
proof (induction infos)
  case (Cons f infos)
  show ?case unfolding open_sources.simps by (intro bucket.frame_rules keep_reads Cons.IH)+
qed (simp only: open_sources.simps keeps_basic)

context writer_view
begin

lemma keep_snapshot_pages: "keeps (\<lambda>w. P (view w)) (snapshot_pages_loop ev wal pages pgnos enc)"
proof (induction pgnos arbitrary: enc)
  case (Cons k pgnos)
  show ?case unfolding snapshot_pages_loop.simps by (intro keep_rules Cons.IH)+
qed (simp add: keeps_rules)

lemma keep_encode_snapshot: "keeps (\<lambda>w. P (view w)) (encode_snapshot ev wal txid synced_end)"
  unfolding encode_snapshot_def write_snapshot_pages_def by (intro keep_rules keep_snapshot_pages)+

end

definition bucket_thins :: "('s \<Rightarrow> bool) \<Rightarrow> ('s \<Rightarrow> contents) \<Rightarrow> file_key set \<Rightarrow> 's \<Rightarrow> bool" where
  "bucket_thins I C D s \<longleftrightarrow> I s \<and> safely_thinned D (dom (C s))"

context bucket_client
begin

abbreviation thins :: "file_key set \<Rightarrow> 's \<Rightarrow> bool" where
  "thins \<equiv> bucket_thins inv contents"

lemmas thins_def = bucket_thins_def

lemma thins_step: "thins D s \<Longrightarrow> inv s' \<Longrightarrow> safely_thinned (dom (contents s)) (dom (contents s')) \<Longrightarrow> thins D s'"
  by (auto simp: thins_def intro: safely_thinned_trans)

lemma thins_write:
  assumes ev: "ev_client ev = c" and start: "level = SNAPSHOT_LEVEL \<longrightarrow> a = 1"
  shows "keeps (\<lambda>w. thins D (w_client w)) (client_write ev level a b d)"
proof (rule keepsI)
  fix w r w' assume t: "thins D (w_client w)" and run: "client_write ev level a b d w = (r, w')"
  from t have i: "inv (w_client w)" by (simp add: thins_def)
  from client_write_cases [OF ev i run] show "thins D (w_client w')"
    using t start by (elim disjE exE conjE) (simp, auto intro!: thins_step [OF t] safely_thinned_mono)
qed

lemma thins_upload: "ev_client ev = c \<Longrightarrow> keeps (\<lambda>w. thins D (w_client w)) (upload ev)"
proof (rule keepsI)
  fix w r w' assume ev: "ev_client ev = c" and t: "thins D (w_client w)" and run: "upload ev w = (r, w')"
  from t have i: "inv (w_client w)" by (simp add: thins_def)
  from upload_extends [OF ev i run] obtain k where k: "inv (w_client w')"
    "extended_by (contents (w_client w)) (w_meta w) (upload_start w) k (contents (w_client w'))" by blast
  have "dom (contents (w_client w)) \<subseteq> dom (contents (w_client w'))"
  proof
    fix key assume "key \<in> dom (contents (w_client w))"
    moreover have "contents (w_client w') key = contents (w_client w) key \<or> contents (w_client w') key \<noteq> None"
      using k(2) unfolding extended_by_def by (metis option.distinct(1))
    ultimately show "key \<in> dom (contents (w_client w'))" by auto
  qed
  moreover have "(SNAPSHOT_LEVEL, a, b) \<in> dom (contents (w_client w))" if "(SNAPSHOT_LEVEL, a, b) \<in> dom (contents (w_client w'))" for a b
    using k(2) that unfolding extended_by_def by (auto simp: SNAPSHOT_LEVEL_def)
  ultimately show "thins D (w_client w')" by (intro thins_step [OF t k(1)] safely_thinned_mono) blast+
qed

lemma thins_compact:
  assumes "ev_client ev = c" and "level \<noteq> SNAPSHOT_LEVEL"
  shows "keeps (\<lambda>w. thins D (w_client w)) (compact_level_with ev cancel level)"
  unfolding compact_level_with_def
  by (intro bucket.frame_rules keep_reads keep_open_sources bucket_lineage thins_write [OF assms(1)]) (simp add: assms(2))

lemma thins_snapshot:
  assumes "ev_client ev = c"
  shows "keeps (\<lambda>w. thins D (w_client w)) (snapshot_with ev cancel)"
  unfolding snapshot_with_def
  by (intro bucket.frame_rules keep_reads bucket.keep_local bucket.keep_encode_snapshot bucket_lineage thins_write [OF assms]
      thins_upload [OF assms]) simp

text \<open>Reading the bucket and then acting on what was read.\<close>

lemma list_then:
  assumes "ev_client ev = c" and "\<And>s. P s \<Longrightarrow> inv s" and "\<And>w. P (w_client w) \<Longrightarrow> E w"
    and "\<And>fs. triple (\<lambda>w. P (w_client w) \<and> is_listing (contents (w_client w)) level seek fs) (f fs) Q E"
  shows "triple (\<lambda>w. P (w_client w)) (m_bind (client_list ev level seek) f) Q E"
proof (rule triple_bind [OF _ assms(4)])
  show "triple (\<lambda>w. P (w_client w)) (client_list ev level seek)
      (\<lambda>fs w. P (w_client w) \<and> is_listing (contents (w_client w)) level seek fs) E"
    using assms(1-3) by (intro tripleI) (auto simp: client_list_def map_err_eq_Ok intro: ltx_files_Ok)
qed

lemma delete_then:
  assumes "ev_client ev = c" and "\<And>s. P s \<Longrightarrow> inv s" and "\<And>w. P (w_client w) \<Longrightarrow> E w"
    and "\<And>s s'. P s \<Longrightarrow> inv s' \<Longrightarrow> contents s' = contents s |` (- (info_key ` set infos)) \<Longrightarrow> R s'"
    and "triple (\<lambda>w. R (w_client w)) m Q E"
  shows "triple (\<lambda>w. P (w_client w)) (m_then (client_delete ev infos) m) Q E"
proof (rule triple_bind [OF _ assms(5)])
  show "triple (\<lambda>w. P (w_client w)) (client_delete ev infos) (\<lambda>_ w. R (w_client w)) E"
  proof (rule tripleI)
    fix w u w' assume P: "P (w_client w)" and run: "client_delete ev infos w = (Ok u, w')"
    with assms(1) obtain s where s: "delete_ltx_files c (w_client w) infos = Ok s" "w' = w\<lparr>w_client := s\<rparr>"
      by (auto simp: client_delete_def split: result.splits)
    with delete_ltx_files_Ok [OF _ s(1)] assms(2) [OF P] assms(4) [OF P] show "R (w_client w')" by auto
  next
    fix w e w' assume "P (w_client w)" "client_delete ev infos w = (Err e, w')"
    with assms(3) show "E w'" by (auto simp: client_delete_def split: result.splits)
  qed
qed

lemma check_then:
  assumes "\<And>w. P (w_client w) \<Longrightarrow> E w" and "triple (\<lambda>w. P (w_client w)) m Q E"
  shows "triple (\<lambda>w. P (w_client w)) (m_then cancel_check m) Q E"
  by (rule triple_keeps_bind [OF bucket.keep_base(1)]) (use assms in auto)


lemma max_then:
  assumes "ev_client ev = c" and "\<And>w. P (w_client w) \<Longrightarrow> E w"
    and "\<And>f. triple (\<lambda>w. P (w_client w) \<and> max_ltx_file_info c (w_client w) level = Ok f) (g f) Q E"
  shows "triple (\<lambda>w. P (w_client w)) (m_bind (client_max ev level) g) Q E"
proof (rule triple_bind [OF _ assms(3)])
  show "triple (\<lambda>w. P (w_client w)) (client_max ev level)
      (\<lambda>f w. P (w_client w) \<and> max_ltx_file_info c (w_client w) level = Ok f) E"
    using assms(1,2) by (intro tripleI) (auto simp: client_max_def map_err_eq_Ok)
qed

abbreviation kept :: "file_key set \<Rightarrow> 's writer \<Rightarrow> bool" where
  "kept D w \<equiv> thins D (w_client w)"

lemma thins_delete_then:
  assumes "ev_client ev = c" and "\<And>s. P s \<Longrightarrow> thins D s"
    and "\<And>s. P s \<Longrightarrow> safely_thinned (dom (contents s)) (dom (contents s) - info_key ` set infos) \<and>
      X (dom (contents s) - info_key ` set infos)"
    and "triple (\<lambda>w. kept D w \<and> X (dom (contents (w_client w)))) m Q (kept D)"
  shows "triple (\<lambda>w. P (w_client w)) (m_then (client_delete ev infos) m) Q (kept D)"
proof (rule delete_then [OF assms(1), where R = "\<lambda>s. thins D s \<and> X (dom (contents s))"])
  fix s s' assume P: "P s" and s': "inv s'" "contents s' = contents s |` (- (info_key ` set infos))"
  have "dom (contents s') = dom (contents s) - info_key ` set infos" by (auto simp: s'(2))
  with assms(3) [OF P] show "thins D s' \<and> X (dom (contents s'))"
    by (simp add: thins_step [OF assms(2) [OF P] s'(1)])
qed (use assms(2,4) in \<open>auto simp: thins_def\<close>)

lemma thins_l0_retention:
  assumes "ev_client ev = c"
  shows "keeps (kept D) (enforce_l0_retention ev grace now)"
  unfolding enforce_l0_retention_def Let_def
proof (rule keeps_triple, rule max_then [OF assms], assumption, goal_cases)
  case (1 f)
  show ?case
  proof (cases "txid_is_zero (opt_max_txid f)")
    case True
    show ?thesis unfolding if_P [OF True] by (rule triple_ok) simp
  next
    case False
    then obtain h where h: "f = Some h" by (cases f) (auto simp: opt_max_txid_def txid_is_zero_def)
    have l1: "\<exists>a. (1, a, fi_max_txid h) \<in> dom (contents s)" if "thins D s \<and> max_ltx_file_info c s 1 = Ok f" for s
    proof -
      from that have i: "inv s" "max_ltx_file_info c s 1 = Ok f" by (auto simp: thins_def)
      from max_ltx_file_info_Ok(2) [OF i h] show ?thesis by (intro exI [of _ "fi_min_txid h"]) (auto simp: info_key_def)
    qed
    have "triple (\<lambda>w. kept D w \<and> max_ltx_file_info c (w_client w) 1 = Ok f)
      (m_bind (client_list ev 0 0) (\<lambda>files. case max_by_key fi_max_txid files of None \<Rightarrow> m_ok 0
        | Some newest \<Rightarrow> m_then cancel_check
            (m_then (client_delete ev (l0_deletable (fi_max_txid h) (fi_max_txid newest) (cutoff_time now grace) files))
              (m_ok (length (l0_deletable (fi_max_txid h) (fi_max_txid newest) (cutoff_time now grace) files))))))
      (\<lambda>_. kept D) (kept D)"
    proof (rule list_then [OF assms, where P = "\<lambda>s. thins D s \<and> max_ltx_file_info c s 1 = Ok f"], goal_cases)
      case (3 fs)
      let ?P = "\<lambda>s. (thins D s \<and> max_ltx_file_info c s 1 = Ok f) \<and> is_listing (contents s) 0 0 fs"
      show ?case
      proof (cases "max_by_key fi_max_txid fs")
        case (Some g)
        have thin: "safely_thinned (dom (contents s))
            (dom (contents s) - info_key ` set (l0_deletable (fi_max_txid h) (fi_max_txid g) cutoff fs))" if "?P s" for s cutoff
          using that l1 thin_l0 [OF _ Some] by blast
        show ?thesis unfolding Some option.case
          by (rule check_then [where P = ?P], simp,
              rule thins_delete_then [OF assms, where P = ?P and X = "\<lambda>_. True"])
            (use thin in \<open>auto intro: triple_ok\<close>)
      qed (auto intro: triple_ok)
    qed (auto simp: thins_def)
    then show ?thesis unfolding if_not_P [OF False] by (simp only: h opt_max_txid_def option.case)
  qed
qed

text \<open>The cascade runs below a snapshot that it does not touch.\<close>

lemma thins_cascade:
  assumes "ev_client ev = c" and "\<forall>l \<in> set levels. l \<noteq> 0 \<and> l < SNAPSHOT_LEVEL"
  shows "triple (\<lambda>w. kept D w \<and> (\<exists>a b. (SNAPSHOT_LEVEL, a, b) \<in> dom (contents (w_client w)) \<and> floor \<le> b))
    (cascade ev floor levels) (\<lambda>_. kept D) (kept D)"
  using assms(2)
proof (induction levels)
  case Nil
  show ?case unfolding cascade.simps by (rule triple_ok) simp
next
  case (Cons level levels)
  let ?X = "\<lambda>K. \<exists>a b. (SNAPSHOT_LEVEL, a, b) \<in> K \<and> floor \<le> b"
  let ?P = "\<lambda>s. thins D s \<and> ?X (dom (contents s))"
  have IH: "triple (\<lambda>w. ?P (w_client w)) (cascade ev floor levels) (\<lambda>_. kept D) (kept D)"
    using Cons by simp
  show ?case unfolding cascade.simps Let_def
  proof (rule check_then [where P = ?P], simp, rule list_then [OF assms(1), where P = ?P], goal_cases)
    case (3 fs)
    let ?dels = "filter (\<lambda>f. fi_max_txid f < floor) (butlast fs)"
    show ?case
    proof (cases "length fs \<le> 1")
      case True
      show ?thesis unfolding if_P [OF True] by (rule triple_weaken [OF IH]) auto
    next
      case False
      have "safely_thinned (dom (contents s)) (dom (contents s) - info_key ` set ?dels) \<and>
          ?X (dom (contents s) - info_key ` set ?dels)" if ps: "?P s \<and> is_listing (contents s) level 0 fs" for s
      proof -
        from ps obtain a b where ab: "(SNAPSHOT_LEVEL, a, b) \<in> dom (contents s)" "floor \<le> b" by blast
        have "is_listing (contents s) level 0 fs" "level \<noteq> 0" "level < SNAPSHOT_LEVEL" "1 < length fs"
          using ps Cons.prems False by auto
        from thin_level [OF this ab] ab(2) show ?thesis by blast
      qed
      then show ?thesis unfolding if_not_P [OF False]
        by (intro thins_delete_then [OF assms(1), where P = "\<lambda>s. ?P s \<and> is_listing (contents s) level 0 fs" and X = ?X])
          (blast, blast, rule triple_bind [OF IH], rule triple_ok)
    qed
  qed (auto simp: thins_def)
qed

lemma thins_retention:
  assumes "ev_client ev = c"
  shows "keeps (kept D) (enforce_retention ev opts now)"
  unfolding enforce_retention_def Let_def
proof (rule keeps_triple, rule list_then [OF assms, where P = "thins D"], goal_cases)
  case (3 fs)
  show ?case
  proof (cases "max_by_key fi_max_txid fs")
    case None
    show ?thesis unfolding None option.case by (rule triple_ok) simp
  next
    case (Some g)
    let ?P = "\<lambda>s. thins D s \<and> is_listing (contents s) SNAPSHOT_LEVEL 0 fs"
    obtain es fl where es: "expired_snapshots (cutoff_time now (mo_snapshot_retention opts)) (fi_max_txid g) 0 fs = (es, fl)"
      by (cases "expired_snapshots (cutoff_time now (mo_snapshot_retention opts)) (fi_max_txid g) 0 fs")
    let ?X = "\<lambda>K. \<exists>a b. (SNAPSHOT_LEVEL, a, b) \<in> K \<and> fl \<le> b"
    have thin: "safely_thinned (dom (contents s)) (dom (contents s) - info_key ` set es) \<and>
        ?X (dom (contents s) - info_key ` set es)" if "?P s" for s
      using that thin_snapshots [OF _ Some es, of "contents s"] by blast
    have rest: "triple (\<lambda>w. kept D w \<and> ?X (dom (contents (w_client w))))
        (if txid_is_zero fl then m_ok 0 else cascade ev fl [1, 2, 3, 4, 5, 6, 7, 8]) (\<lambda>_. kept D) (kept D)"
      by (rule triple_if, rule triple_ok, simp, rule thins_cascade [OF assms]) (simp add: SNAPSHOT_LEVEL_def)
    have l0: "triple (kept D) (m_bind (enforce_l0_retention ev (mo_l0_retention opts) now) (\<lambda>k. m_ok (n + k))) (\<lambda>_. kept D) (kept D)" for n
      by (rule triple_keeps_bind [OF thins_l0_retention [OF assms]]) (auto intro: triple_ok)
    show ?thesis unfolding Some option.case es prod.case
      by (rule check_then [where P = ?P], simp, rule thins_delete_then [OF assms, where P = ?P and X = ?X])
        (simp, rule thin, simp, rule triple_bind [OF rest l0])
  qed
qed (auto simp: thins_def)

lemma thins_levels:
  assumes "ev_client ev = c" and "i + length intervals < 9"
  shows "keeps (kept D) (maintain_levels ev opts now i intervals report)"
  using assms(2)
proof (induction intervals arbitrary: i report)
  case (Cons interval intervals)
  have "(of_nat (i + 1) :: u8) \<noteq> SNAPSHOT_LEVEL"
  proof
    assume "(of_nat (i + 1) :: u8) = SNAPSHOT_LEVEL"
    then have "unat (of_nat (i + 1) :: u8) = 9" by (simp add: SNAPSHOT_LEVEL_def)
    moreover have "unat (of_nat (i + 1) :: u8) = i + 1" using Cons.prems by (simp add: unsigned_of_nat take_bit_nat_eq_self del: of_nat_add of_nat_Suc)
    ultimately show False using Cons.prems by simp
  qed
  note compacts = thins_compact [OF assms(1) this]
  show ?case unfolding maintain_levels.simps Let_def
    by (intro bucket.frame_rules keep_reads compacts thins_l0_retention assms Cons.IH) (use Cons.prems in simp_all)
qed (simp only: maintain_levels.simps keeps_basic)

lemma thins_maintain:
  assumes "ev_client ev = c" and "length (mo_level_intervals opts) < 9"
  shows "keeps (kept D) (maintain_with ev cancel opts now)"
  unfolding maintain_with_def
  by (intro bucket.frame_rules keep_reads bucket_lineage thins_levels thins_snapshot thins_retention assms) (simp add: assms(2))

text \<open>What L0 retention deletes, exactly.\<close>

lemma l0_retention_deletes:
  assumes ev: "ev_client ev = c" and i: "inv (w_client w)" and run: "enforce_l0_retention ev grace now w = (r, w')"
  shows "contents (w_client w') = contents (w_client w) \<or>
    (\<exists>h g fs. max_ltx_file_info c (w_client w) 1 = Ok (Some h) \<and> is_listing (contents (w_client w)) 0 0 fs \<and>
       max_by_key fi_max_txid fs = Some g \<and>
       contents (w_client w') = contents (w_client w) |`
         (- (info_key ` set (l0_deletable (fi_max_txid h) (fi_max_txid g) (cutoff_time now grace) fs))))"
proof -
  let ?P = "\<lambda>s. s = w_client w"
  let ?same = "\<lambda>w'. contents (w_client w') = contents (w_client w)"
  let ?Q = "\<lambda>w'. ?same w' \<or>
    (\<exists>h g fs. max_ltx_file_info c (w_client w) 1 = Ok (Some h) \<and> is_listing (contents (w_client w)) 0 0 fs \<and>
       max_by_key fi_max_txid fs = Some g \<and>
       contents (w_client w') = contents (w_client w) |`
         (- (info_key ` set (l0_deletable (fi_max_txid h) (fi_max_txid g) (cutoff_time now grace) fs))))"
  have "triple (\<lambda>w. ?P (w_client w)) (enforce_l0_retention ev grace now) (\<lambda>_. ?Q) ?Q"
    unfolding enforce_l0_retention_def Let_def
  proof (rule max_then [OF ev], goal_cases)
    case (2 f)
    show ?case
    proof (cases "txid_is_zero (opt_max_txid f)")
      case True
      show ?thesis unfolding if_P [OF True] by (rule triple_ok) simp
    next
      case False
      then obtain h where h: "f = Some h" by (cases f) (auto simp: opt_max_txid_def txid_is_zero_def)
      let ?P1 = "\<lambda>s. s = w_client w \<and> max_ltx_file_info c s 1 = Ok (Some h)"
      show ?thesis unfolding if_not_P [OF False] unfolding h opt_max_txid_def option.case
      proof (rule list_then [OF ev, where P = ?P1], goal_cases)
        case (3 fs)
        let ?P2 = "\<lambda>s. ?P1 s \<and> is_listing (contents s) 0 0 fs"
        show ?case
        proof (cases "max_by_key fi_max_txid fs")
          case None
          show ?thesis unfolding None option.case by (rule triple_ok) simp
        next
          case (Some g)
          show ?thesis unfolding Some option.case
            by (rule check_then [where P = ?P2], simp, rule delete_then [OF ev, where P = ?P2 and R = "\<lambda>s.
                 max_ltx_file_info c (w_client w) 1 = Ok (Some h) \<and> is_listing (contents (w_client w)) 0 0 fs \<and>
                 contents s = contents (w_client w) |`
                   (- (info_key ` set (l0_deletable (fi_max_txid h) (fi_max_txid g) (cutoff_time now grace) fs)))"])
              (use i Some in \<open>auto intro: triple_ok\<close>)
        qed
      qed (use i in auto)
    qed
  qed auto
  from tripleD [OF this refl, of _ w'] run show ?thesis by (cases r) auto
qed

section \<open>What a level compaction writes\<close>

lemma open_sources_OkD:
  assumes "ev_client ev = c" and "inv (w_client w)" and "open_sources ev level fs w = (Ok ds, w')"
  shows "w_client w' = w_client w \<and>
    list_all2 (\<lambda>f d. \<exists>t. contents (w_client w) (level, fi_min_txid f, fi_max_txid f) = Some (d, t)) fs ds"
  using assms(2,3)
proof (induction fs arbitrary: w ds)
  case (Cons f fs)
  from Cons.prems(2) obtain u w1 d ds' where w1: "cancel_check w = (Ok u, w1)"
    and d: "open_ltx_file c (w_client w1) level (fi_min_txid f) (fi_max_txid f) 0 0 = Ok d"
    and rest: "open_sources ev level fs w1 = (Ok ds', w')" and ds: "ds = d # ds'"
    using assms(1) by (auto simp: client_open_def m_bind_eq_Ok map_err_eq_Ok)
  from cancel_check_state [OF w1] have c1: "w_client w1 = w_client w" by auto
  from Cons.IH [OF _ rest] open_ltx_file_Ok [OF _ d] Cons.prems(1) c1 ds show ?case by auto
qed auto

lemma lineage_client: "ensure_lineage_checked ev w = (r, w') \<Longrightarrow> w_client w' = w_client w"
  using keepsD [OF bucket_lineage [of "\<lambda>s. s = w_client w"]] by metis

lemma compact_level_OkD:
  assumes ev: "ev_client ev = c" and i: "inv (w_client w)" and run: "compact_level_with ev cancel dst w = (Ok True, w')"
  shows "\<exists>f srcs rdrs bytes h t time. max_ltx_file_info c (w_client w) dst = Ok f \<and>
    ltx_files c (w_client w) (dst - 1) (case f of Some f \<Rightarrow> fi_max_txid f + 1 | None \<Rightarrow> 0) False = Ok srcs \<and> srcs \<noteq> [] \<and>
    list_all2 (\<lambda>f d. \<exists>t. contents (w_client w) (info_key f) = Some (d, t)) srcs rdrs \<and>
    compact (ev_x ev) HEADER_FLAG_NO_CHECKSUM False rdrs = Ok (bytes, h, t) \<and>
    contents (w_client w') = (contents (w_client w))
      ((dst, Min (fi_min_txid ` set srcs), Max (fi_max_txid ` set srcs)) \<mapsto> (bytes, time))"
proof -
  let ?s = "w_client w"
  from run obtain u w1 f fs where w1: "ensure_lineage_checked ev (w\<lparr>w_cancel := cancel\<rparr>) = (Ok u, w1)"
    and f: "max_ltx_file_info c (w_client w1) dst = Ok f"
    and fs: "ltx_files c (w_client w1) (dst - 1) (case f of Some f \<Rightarrow> fi_max_txid f + 1 | None \<Rightarrow> 0) False = Ok fs" "fs \<noteq> []"
    and rest: "m_bind (open_sources ev (dst - 1) fs) (\<lambda>rdrs.
      m_bind (m_lift (ltx_q (compact (ev_x ev) HEADER_FLAG_NO_CHECKSUM False rdrs))) (\<lambda>(bytes, _, _).
      m_then cancel_check
      (m_then (client_write ev dst (Min (set (map fi_min_txid fs))) (Max (set (map fi_max_txid fs))) bytes)
      (m_ok True)))) w1 = (Ok True, w')"
    unfolding compact_level_with_def set_cancel_def Let_def client_max_def client_list_def
    by (auto simp: m_bind_eq_Ok map_err_eq_Ok ev split: if_splits)
  have c1: "w_client w1 = ?s" using lineage_client [OF w1] by simp
  let ?seek = "case f of Some f \<Rightarrow> fi_max_txid f + 1 | None \<Rightarrow> 0"
  from rest obtain rdrs w2 bytes h t w3 w4 where w2: "open_sources ev (dst - 1) fs w1 = (Ok rdrs, w2)"
    and cmp: "compact (ev_x ev) HEADER_FLAG_NO_CHECKSUM False rdrs = Ok (bytes, h, t)"
    and w3: "cancel_check w2 = (Ok (), w3)"
    and w4: "client_write ev dst (Min (set (map fi_min_txid fs))) (Max (set (map fi_max_txid fs))) bytes w3 = (Ok (), w')"
    by (auto simp: m_bind_eq_Ok map_err_eq_Ok)
  have i1: "inv (w_client w1)" using i c1 by simp
  note os = open_sources_OkD [OF ev i1 w2]
  have c3: "w_client w3 = ?s" using cancel_check_state [OF w3] os c1 by auto
  have listing: "is_listing (contents ?s) (dst - 1) ?seek fs" using ltx_files_Ok [OF i1 fs(1)] c1 by simp
  have "fi_level g = dst - 1" if "g \<in> set fs" for g using listing that by (auto simp: is_listing_def)
  with os c1 have l2: "list_all2 (\<lambda>f d. \<exists>t. contents ?s (info_key f) = Some (d, t)) fs rdrs"
    by (auto simp: info_key_def list_all2_conv_all_nth)
  from client_write_cases [OF ev _ w4] i c3 obtain time where
    "contents (w_client w') = (contents ?s)((dst, Min (fi_min_txid ` set fs), Max (fi_max_txid ` set fs)) \<mapsto> (bytes, time))"
    by auto
  with f fs l2 cmp c1 show ?thesis by auto
qed

end

section \<open>What a snapshot holds\<close>

definition snapshot_pages :: "byte list \<Rightarrow> byte list \<Rightarrow> u32 \<Rightarrow> u32 \<Rightarrow> page_map \<Rightarrow> (u32 \<times> byte list) list" where
  "snapshot_pages db wal page_size commit pm =
     map (\<lambda>k. (k, source_page db wal (unat page_size) (pm_pages pm) k))
       (filter (\<lambda>k. k \<noteq> lock_pgno page_size) (page_numbers commit))"

lemma read_page_at_OkD: "read_page_at what f n off k = Ok d \<Longrightarrow> d = read_at f n off"
  by (auto simp: read_page_at_def Let_def split: if_splits)

lemma snapshot_pages_loop_OkD:
  assumes "snapshot_pages_loop ev wal pages pgnos enc w = (Ok enc', w')"
  shows "\<exists>t. w' = w\<lparr>w_cancel := t\<rparr> \<and>
    encode_pages (ev_x ev) enc (map (\<lambda>k. (k, source_page (w_db w) wal (unat (w_page_size w)) pages k))
      (filter (\<lambda>k. k \<noteq> lock_pgno (w_page_size w)) pgnos)) = Ok enc'"
  using assms
proof (induction pgnos arbitrary: enc w)
  case Nil
  then show ?case by (auto intro: exI [of _ "w_cancel w"])
next
  case (Cons k pgnos)
  from Cons.prems obtain u w1 where w1: "(if k mod 256 = 0 then cancel_check else m_ok ()) w = (Ok u, w1)"
    and rest: "m_bind m_get (\<lambda>w. let n = unat (w_page_size w) in
       if k = lock_pgno (w_page_size w) then snapshot_pages_loop ev wal pages pgnos enc
       else m_bind (m_lift (case map_of pages k of
                 Some offset \<Rightarrow> read_page_at ''wal'' wal n (offset + WAL_FRAME_HEADER_SIZE) k
               | None \<Rightarrow> read_page_at ''db'' (w_db w) n ((unat k - 1) * n) k)) (\<lambda>data.
            m_bind (m_lift (ltx_q (encode_page (ev_x ev) enc k data))) (\<lambda>enc.
            snapshot_pages_loop ev wal pages pgnos enc))) w1 = (Ok enc', w')"
    unfolding snapshot_pages_loop.simps by (auto simp only: m_bind_eq_Ok)
  from check_or_ok_state [OF w1] obtain t where t: "w1 = w\<lparr>w_cancel := t\<rparr>" by blast
  show ?case
  proof (cases "k = lock_pgno (w_page_size w)")
    case True
    then have "snapshot_pages_loop ev wal pages pgnos enc w1 = (Ok enc', w')" using rest t by (simp add: Let_def)
    from Cons.IH [OF this] True t show ?thesis by auto
  next
    case False
    let ?d = "source_page (w_db w) wal (unat (w_page_size w)) pages k"
    from rest False t obtain enc1 where enc1: "encode_page (ev_x ev) enc k ?d = Ok enc1"
      and run: "snapshot_pages_loop ev wal pages pgnos enc1 w1 = (Ok enc', w')"
      by (auto simp: Let_def m_bind_eq_Ok map_err_eq_Ok source_page_def split: option.splits dest!: read_page_at_OkD)
    from Cons.IH [OF run] False t enc1 show ?thesis by auto
  qed
qed

lemma encode_snapshot_OkD:
  assumes "encode_snapshot ev wal txid synced_end w = (Ok bytes, w')"
  shows "\<exists>rd0 pm rd commit ts trl. wal_reader_new wal = Ok rd0 \<and> page_map_until (unat synced_end) rd0 = (pm, rd) \<and>
    commit = (if 0 < pm_commit pm then pm_commit pm else db_commit (w_db w) (w_page_size w)) \<and>
    encode_file (ev_x ev) (snapshot_header (w_page_size w) commit txid ts pm rd)
      (snapshot_pages (w_db w) wal (w_page_size w) commit pm) 0 =
      Ok (bytes, snapshot_header (w_page_size w) commit txid ts pm rd, trl)"
proof -
  from assms obtain rd0 where rd0: "wal_reader_new wal = Ok rd0"
    by (auto simp: encode_snapshot_def m_bind_eq_Ok map_err_eq_Ok)
  obtain pm rd where pm: "page_map_until (unat synced_end) rd0 = (pm, rd)" by (cases "page_map_until (unat synced_end) rd0")
  let ?commit = "if 0 < pm_commit pm then pm_commit pm else db_commit (w_db w) (w_page_size w)"
  from assms rd0 pm obtain w1 ts enc enc' w2 h' trl where w1: "cancel_check w = (Ok (), w1)"
    and enc: "encode_header encoder_new (snapshot_header (w_page_size w) ?commit txid ts pm rd) = Ok enc"
    and pages: "snapshot_pages_loop ev wal (pm_pages pm) (page_numbers ?commit) enc
        (w1\<lparr>w_clock := (\<lambda>n. w_clock w1 (Suc n))\<rparr>) = (Ok enc', w2)"
    and fin: "encoder_finish (ev_x ev) enc' = Ok (bytes, h', trl)"
    unfolding encode_snapshot_def write_snapshot_pages_def now_unix_millis_def Let_def
    by (auto simp: m_bind_eq_Ok map_err_eq_Ok split del: if_split)
  from cancel_check_state [OF w1] obtain t where t: "w1 = w\<lparr>w_cancel := t\<rparr>" by blast
  let ?h = "snapshot_header (w_page_size w) ?commit txid ts pm rd"
  have ep: "encode_pages (ev_x ev) enc (snapshot_pages (w_db w) wal (w_page_size w) ?commit pm) = Ok enc'"
    using snapshot_pages_loop_OkD [OF pages] t by (auto simp: snapshot_pages_def)
  have ef: "encode_file (ev_x ev) ?h (snapshot_pages (w_db w) wal (w_page_size w) ?commit pm) 0 = Ok (bytes, h', trl)"
    by (rule encode_file_no_post [OF enc ep fin])
  have "h' = ?h" by (rule encode_file_OkD(2) [OF ef])
  with ef rd0 pm show ?thesis by blast
qed

text \<open>The conversion, the lineage check and an upload leave the files of the database alone.\<close>

definition db_view :: "'s writer \<Rightarrow> byte list \<times> byte list option \<times> u32" where
  "db_view w = (w_db w, w_wal w, w_page_size w)"

interpretation files: writer_view db_view
  by unfold_locales (simp_all add: db_view_def)

lemma files_lineage: "keeps (\<lambda>w. P (db_view w)) (ensure_lineage_checked ev)"
  unfolding ensure_lineage_checked_def
  by (intro files.keep_rules files.keep_client_max files.keep_rebaseline | simp add: db_view_def)+

lemma upload_one_pos: "keeps (\<lambda>w. w_cached_pos w = p \<and> db_view w = v) (upload_one ev nxt)"
  by (auto simp: keeps_def upload_one_def m_try_def cancel_check_def client_write_def db_view_def
      split: result.splits option.splits prod.splits)

lemma upload_loop_pos: "keeps (\<lambda>w. w_cached_pos w = p \<and> db_view w = v) (upload_loop ev local cursor n b)"
proof (induction ev local cursor n b rule: upload_loop.induct)
  case (1 ev local cursor n b)
  show ?case by (subst upload_loop.simps) (intro keeps_rules upload_one_pos "1.IH")
qed

context bucket_client
begin

lemma upload_reaches:
  assumes "ev_client ev = c" and "inv (w_client w)" and "upload ev w = (Ok (n, b, cur), w')"
  shows "inv (w_client w')" and "\<exists>p. w_cached_pos w' = Some p \<and> p_txid p \<le> cur" and "w_remote_txid w' = Some cur"
    and "db_view w' = db_view w"
proof -
  from assms(3) obtain t w1 p w2 where w1: "remote_cursor ev w = (Ok t, w1)" and w2: "writer_pos ev w1 = (Ok p, w2)"
    and loop: "upload_loop ev (p_txid p) t 0 0 w2 = (Ok (n, b, cur), w')"
    by (auto simp: upload_def m_bind_eq_Ok)
  have r1: "w_remote_txid w1 = Some t" "db_view w1 = db_view w"
    using w1 by (auto simp: remote_cursor_def client_max_def m_bind_eq_Ok Let_def db_view_def split: option.splits if_splits)
  from writer_pos_cases(1) [OF w2] writer_pos_cases(2) [OF w2] have p: "w_cached_pos w2 = Some p \<and> db_view w2 = db_view w"
    "w_remote_txid w2 = Some t" "w_client w2 = w_client w" using r1 remote_cursor_cases(1) [OF w1] by (auto simp: db_view_def)
  from upload_loop_extends [OF assms(1) _ loop] p assms(2) have
    u: "inv (w_client w')" "p_txid p \<le> cur" "w_remote_txid w' = Some cur" by auto
  from keepsD [OF upload_loop_pos p(1) loop] u show "inv (w_client w')" "\<exists>p. w_cached_pos w' = Some p \<and> p_txid p \<le> cur"
    "w_remote_txid w' = Some cur" "db_view w' = db_view w" by auto
qed

lemma snapshot_OkD:
  assumes ev: "ev_client ev = c" and i: "inv (w_client w)" and run: "snapshot_with ev cancel w = (Ok (Some t), w')"
  shows "\<exists>w1 out w2 wal rd0 pm rd commit ts trl bytes.
    ensure_lineage_checked ev (w\<lparr>w_cancel := cancel\<rparr>) = (Ok (), w1) \<and> verify_and_sync ev w1 = (Ok out, w2) \<and>
    w_wal w = Some wal \<and> wal_reader_new wal = Ok rd0 \<and> page_map_until (unat (so_new_wal_size out)) rd0 = (pm, rd) \<and>
    commit = (if 0 < pm_commit pm then pm_commit pm else db_commit (w_db w) (w_page_size w)) \<and>
    encode_file (ev_x ev) (snapshot_header (w_page_size w) commit t ts pm rd)
      (snapshot_pages (w_db w) wal (w_page_size w) commit pm) 0 =
      Ok (bytes, snapshot_header (w_page_size w) commit t ts pm rd, trl) \<and>
    (\<exists>time. contents (w_client w') (SNAPSHOT_LEVEL, 1, t) = Some (bytes, time)) \<and>
    (\<exists>w3 k s info. w3 = snd (apply_sync_outcome out w2) \<and> t \<le> k \<and>
       extended_by (contents (w_client w)) (w_meta w3) (upload_start w3) k (contents s) \<and>
       write_ltx_file c s SNAPSHOT_LEVEL 1 t bytes = Ok (info, w_client w'))"
proof -
  let ?w0 = "w\<lparr>w_cancel := cancel\<rparr>"
  from run obtain w1 out w2 up w4 p w5 wal bytes w6 w7 where
    w1: "ensure_lineage_checked ev ?w0 = (Ok (), w1)" and w2: "verify_and_sync ev w1 = (Ok out, w2)"
    and w4: "upload ev (snd (apply_sync_outcome out w2)) = (Ok up, w4)" and w5: "writer_pos ev w4 = (Ok p, w5)"
    and wal: "w_wal w5 = Some wal" and w6: "encode_snapshot ev wal (p_txid p) (so_new_wal_size out) w5 = (Ok bytes, w6)"
    and w7: "cancel_check w6 = (Ok (), w7)" and t: "t = p_txid p"
    and w8: "client_write ev SNAPSHOT_LEVEL 1 t bytes w7 = (Ok (), w')"
    unfolding snapshot_with_def set_cancel_def
    by (auto simp: m_bind_eq_Ok ok_or_eq_Ok split: if_splits)
  obtain n b cur where up: "up = (n, b, cur)" by (cases up)
  let ?w3 = "snd (apply_sync_outcome out w2)"
  obtain r3 w3 where w3: "apply_sync_outcome out w2 = (r3, w3)" by fastforce
  have "w_client w3 = w_client w2" "db_view w3 = db_view w2"
    using keepsD [OF bucket.keep_base(6) [of "\<lambda>s. s = w_client w2"] refl w3]
      keepsD [OF files.keep_base(6) [of "\<lambda>s. s = db_view w2"] refl w3] by auto
  moreover have "w_client w2 = w_client w1" "db_view w2 = db_view w1"
    using keepsD [OF bucket.keep_verify_and_sync [of "\<lambda>s. s = w_client w1"] refl w2]
      keepsD [OF files.keep_verify_and_sync [of "\<lambda>s. s = db_view w1"] refl w2] by auto
  moreover have "w_client w1 = w_client w" "db_view w1 = db_view w"
    using lineage_client [OF w1] keepsD [OF files_lineage [of "\<lambda>s. s = db_view ?w0"] refl w1] by (auto simp: db_view_def)
  ultimately have c3: "w_client ?w3 = w_client w" "db_view ?w3 = db_view w" using w3 by simp_all
  have i3: "inv (w_client ?w3)" using i c3 by simp
  note ur = upload_reaches [OF ev i3 w4 [unfolded up]]
  have 5: "w_client w5 = w_client w4" "db_view w5 = db_view w" "w_remote_txid w5 = Some cur" "p_txid p \<le> cur"
    using writer_pos_cases [OF w5] ur c3(2) by (auto simp: db_view_def)
  have 7: "w_client w7 = w_client w5" "w_remote_txid w7 = Some cur"
    using keepsD [OF sess.keep_encode_snapshot [of "\<lambda>s. s = session w5"] refl w6] cancel_check_state [OF w7] 5
    by (auto simp: session_def)
  have i7: "inv (w_client w7)" using ur(1) 5 7 by simp
  from client_write_cases [OF ev i7 w8] have 8: "\<exists>time. contents (w_client w') (SNAPSHOT_LEVEL, 1, t) = Some (bytes, time)"
    "w_remote_txid w' = w_remote_txid w7" by auto
  have same: "w_db w5 = w_db w" "w_wal w5 = w_wal w" "w_page_size w5 = w_page_size w" using 5(2) by (simp_all add: db_view_def)
  from upload_extends [OF ev i3 w4] have ext: "extended_by (contents (w_client w)) (w_meta ?w3) (upload_start ?w3) cur (contents (w_client w4))"
    by (auto simp: up c3(1))
  obtain info where put: "write_ltx_file c (w_client w4) SNAPSHOT_LEVEL 1 t bytes = Ok (info, w_client w')"
    using w8 5(1) 7(1) ev by (auto simp: client_write_def split: result.splits)
  have "t \<le> cur" "w_wal w = Some wal" using 5 t wal same by simp_all
  with encode_snapshot_OkD [OF w6, unfolded same, folded t] w1 w2 8(1) ext put show ?thesis by blast
qed

text \<open>A snapshot is written last: a call that does not report one has left the snapshots as they were.\<close>

lemma snapshot_unfinished:
  assumes ev: "ev_client ev = c" and i: "inv (w_client w)" and run: "snapshot_with ev cancel w = (r, w')" and r: "\<forall>t. r \<noteq> Ok (Some t)"
  shows "contents (w_client w') (SNAPSHOT_LEVEL, a, b) = contents (w_client w) (SNAPSHOT_LEVEL, a, b)"
proof -
  let ?P = "\<lambda>s. inv s \<and> (\<forall>a b. contents s (SNAPSHOT_LEVEL, a, b) = contents (w_client w) (SNAPSHOT_LEVEL, a, b))"
  let ?I = "\<lambda>w. ?P (w_client w)"
  have up: "keeps ?I (upload ev)"
  proof (rule keepsI)
    fix w1 r1 w2 assume I: "?I w1" and u: "upload ev w1 = (r1, w2)"
    from upload_extends [OF ev _ u] I obtain k where "inv (w_client w2)"
      "extended_by (contents (w_client w1)) (w_meta w1) (upload_start w1) k (contents (w_client w2))" by blast
    then show "?I w2" using I unfolding extended_by_def by (auto simp: SNAPSHOT_LEVEL_def)
  qed
  have put: "triple ?I (m_then (client_write ev SNAPSHOT_LEVEL 1 t d) (m_ok (Some t))) (\<lambda>v w. v = None \<longrightarrow> ?I w) ?I" for t d
    by (rule tripleI) (auto simp: m_bind_eq_Ok m_bind_def client_write_def split: result.splits prod.splits)
  have "triple ?I (snapshot_with ev cancel) (\<lambda>v w. v = None \<longrightarrow> ?I w) ?I"
    unfolding snapshot_with_def
    by (rule triple_keeps_bind triple_if triple_ok put up bucket.keep_base bucket_lineage [where P = ?P] bucket.keep_local keeps_basic
        bucket.keep_encode_snapshot | assumption | rule impI)+
  from tripleD [OF this, of w _ w'] i run r show ?thesis by (cases r) auto
qed

end

section \<open>Maintenance of a directory bucket\<close>

text \<open>C12: maintenance keeps the bucket usable for readers.  Whatever a maintenance run over the compaction levels returns,
  success, an error or a cancellation at any point: an L0 file that is gone ends at or before the end of a file of L1
  or of a snapshot that is there (the code compares last transactions), a file of another level that is gone, a
  snapshot included, ends before a snapshot that is there, no level that held a file is empty, the newest position of
  L0 and of the snapshots is still there, and every new snapshot starts at transaction 1.\<close>

theorem maintenance_thins_safely:
  assumes "dir_inv (w_client w)" and "maintain_with (dir_env x sql root) cancel opts now w = (r, w')"
    and "length (mo_level_intervals opts) < 9"
  shows "safely_thinned (dom (dir_contents root (w_client w))) (dom (dir_contents root (w_client w')))"
proof -
  let ?D = "dom (dir_contents root (w_client w))"
  have ev: "ev_client (dir_env x sql root) = dir_client root" by simp
  have "safely_thinned ?D ?D" by (rule safely_thinned_mono) blast+
  then have "bucket_thins dir_inv (dir_contents root) ?D (w_client w)" using assms(1) by (simp add: bucket_thins_def)
  from keepsD [OF dir.thins_maintain [OF ev assms(3)] this assms(2)] show ?thesis by (simp add: bucket_thins_def)
qed

theorem maintenance_thins_safely_witness:
  "safely_thinned (dom (dir_contents [] demo_fs)) (dom (dir_contents [] (w_client (snd
     (maintain_with (dir_env demo_externs demo_sqlite []) (CancelAfter 3) maintenance_options_default (10 ^ 18)
       (demo_writer\<lparr>w_client := demo_fs\<rparr>))))))"
proof -
  have "dir_inv (w_client (demo_writer\<lparr>w_client := demo_fs\<rparr>))" "length (mo_level_intervals maintenance_options_default) < 9"
    using demo_fs_inv by (simp_all add: maintenance_options_default_def)
  from maintenance_thins_safely [OF this(1) prod.collapse [symmetric] this(2)] show ?thesis by simp
qed

text \<open>C13: L0 retention deletes a prefix.  It deletes L0 files only; each of them ends at or before a file of
  L1 that stays and is older than the grace period; and every L0 file that stays comes after every
  deleted one in the order of listings, so no gap opens.\<close>

theorem l0_retention_prefix:
  assumes "dir_inv (w_client w)" and "enforce_l0_retention (dir_env x sql root) grace now w = (r, w')"
  shows "\<exists>K. dir_contents root (w_client w') = dir_contents root (w_client w) |` (- K) \<and>
    (\<forall>l a b. (l, a, b) \<in> K \<longrightarrow> l = 0 \<and>
       (\<exists>d t. dir_contents root (w_client w) (0, a, b) = Some (d, t) \<and> t \<le> cutoff_time now grace) \<and>
       (\<exists>a1 b1. b \<le> b1 \<and> dir_contents root (w_client w') (1, a1, b1) \<noteq> None) \<and>
       (\<forall>a2 b2. dir_contents root (w_client w') (0, a2, b2) \<noteq> None \<longrightarrow> a < a2 \<or> a = a2 \<and> b < b2))"
proof -
  let ?C = "dir_contents root (w_client w)" and ?C' = "dir_contents root (w_client w')"
  have ev: "ev_client (dir_env x sql root) = dir_client root" by simp
  from dir.l0_retention_deletes [OF ev assms] show ?thesis
  proof (elim disjE exE conjE)
    assume "?C' = ?C"
    then show ?thesis by (intro exI [of _ "{}"]) (simp add: restrict_map_def fun_eq_iff)
  next
    fix h g fs
    assume h: "max_ltx_file_info (dir_client root) (w_client w) 1 = Ok (Some h)" and l: "is_listing ?C 0 0 fs"
      and g: "max_by_key fi_max_txid fs = Some g"
      and C': "?C' = ?C |` (- (info_key ` set (l0_deletable (fi_max_txid h) (fi_max_txid g) (cutoff_time now grace) fs)))"
    let ?dels = "l0_deletable (fi_max_txid h) (fi_max_txid g) (cutoff_time now grace) fs"
    obtain rest where rest: "fs = ?dels @ rest" using l0_deletable_prefix by blast
    have sorted: "range_less f f'" if "f \<in> set ?dels" "f' \<in> set rest" for f f'
      using l rest that by (metis is_listing_def sorted_wrt_append)
    have l1: "?C (1, fi_min_txid h, fi_max_txid h) \<noteq> None"
      using dir.max_ltx_file_info_Ok(2) [OF assms(1) h refl] by (auto simp: info_key_def)
    have l1K: "(1, fi_min_txid h, fi_max_txid h) \<notin> info_key ` set ?dels"
      using in_dom_listing [OF l] l0_deletable_facts by (fastforce simp: info_key_def)
    have each: "l0 = 0 \<and> (\<exists>d t. ?C (0, a, b) = Some (d, t) \<and> t \<le> cutoff_time now grace) \<and>
        (\<exists>a1 b1. b \<le> b1 \<and> ?C' (1, a1, b1) \<noteq> None) \<and>
        (\<forall>a2 b2. ?C' (0, a2, b2) \<noteq> None \<longrightarrow> a < a2 \<or> a = a2 \<and> b < b2)" if "(l0, a, b) \<in> info_key ` set ?dels" for l0 a b
    proof -
      from that obtain f where f: "f \<in> set ?dels" "info_key f = (l0, a, b)" by force
      note ff = l0_deletable_facts [OF f(1)]
      with l obtain d t where fi: "f = mk_info 0 a b (of_nat (length d)) (Some t)" "?C (0, a, b) = Some (d, t)"
        using f(2) by (auto simp: is_listing_def)
      have "a < a2 \<or> a = a2 \<and> b < b2" if "?C' (0, a2, b2) \<noteq> None" for a2 b2
      proof -
        from that have k: "(0, a2, b2) \<notin> info_key ` set ?dels" "(0, a2, b2) \<in> dom ?C" by (auto simp: C' restrict_map_def split: if_splits)
        from dom_listing [OF l k(2)] rest k(1) obtain f' where "f' \<in> set rest" "info_key f' = (0, a2, b2)"
          by (metis Un_iff image_eqI set_append)
        with sorted [OF f(1)] fi(1) show ?thesis by (auto simp: range_less_def info_key_def)
      qed
      moreover have "b \<le> fi_max_txid h" "t \<le> cutoff_time now grace" "l0 = 0" using ff fi(1) f(2) by auto
      moreover have "?C' (1, fi_min_txid h, fi_max_txid h) \<noteq> None" using l1 l1K by (simp add: C' del: dir_contents.simps)
      ultimately show ?thesis using fi(2) by blast
    qed
    show ?thesis by (rule exI [of _ "info_key ` set ?dels"]) (use each C' in blast)
  qed
qed

lemma demo_l0_retention:
  "\<exists>w'. enforce_l0_retention (dir_env demo_externs demo_sqlite []) 0 5 (demo_writer\<lparr>w_client := demo_fs\<rparr>) = (Ok 1, w') \<and>
     dir_contents [] (w_client w') (0, 3, 3) = None"
proof -
  have m: "max_ltx_file_info (dir_client []) demo_fs 1 = Ok (Some (mk_info 1 2 3 1 (Some 2)))"
    by (simp add: max_ltx_file_info_def demo_listing)
  have cut: "cutoff_time 5 0 = 5" by (simp add: cutoff_time_def)
  obtain s where s: "delete_ltx_files (dir_client []) demo_fs [mk_info 0 3 3 1 (Some 1)] = Ok s"
    "dir_contents [] s = dir_contents [] demo_fs |` (- {(0, 3, 3)})"
    using dir.delete_ltx_files_contents [OF demo_fs_inv, where infos = "[mk_info 0 3 3 1 (Some 1)]"] by force
  have w: "w_cancel demo_writer = Never" by (simp add: demo_writer_def)
  show ?thesis
    by (simp add: enforce_l0_retention_def client_max_def client_list_def m demo_listing opt_max_txid_def txid_is_zero_def
        cut m_bind_def cancel_check_def w client_delete_def s del: dir_contents.simps)
qed

theorem l0_retention_prefix_witness:
  "\<exists>w' a b. enforce_l0_retention (dir_env demo_externs demo_sqlite []) 0 5 (demo_writer\<lparr>w_client := demo_fs\<rparr>) = (Ok 1, w') \<and>
     dir_contents [] (w_client w') (0, 3, 3) = None \<and> 3 \<le> b \<and> dir_contents [] (w_client w') (1, a, b) \<noteq> None"
proof -
  let ?w = "demo_writer\<lparr>w_client := demo_fs\<rparr>"
  have i: "dir_inv (w_client ?w)" using demo_fs_inv by simp
  obtain w' where run: "enforce_l0_retention (dir_env demo_externs demo_sqlite []) 0 5 ?w = (Ok 1, w')"
    and gone: "dir_contents [] (w_client w') (0, 3, 3) = None" using demo_l0_retention by blast
  have fs: "w_client ?w = demo_fs" by simp
  from l0_retention_prefix [OF i run, unfolded fs] obtain K where K: "dir_contents [] (w_client w') = dir_contents [] demo_fs |` (- K)"
    and each: "\<And>l a b. (l, a, b) \<in> K \<Longrightarrow> (\<exists>a1 b1. b \<le> b1 \<and> dir_contents [] (w_client w') (1, a1, b1) \<noteq> None)" by meson
  have "dir_contents [] demo_fs (0, 3, 3) \<noteq> None"
    by (simp add: demo_fs_def ltx_path_def level_dir_def fmt_dec_digits format_filename_inj)
  with gone K have "(0, 3, 3) \<in> K" by (auto simp: restrict_map_def split: if_splits simp del: dir_contents.simps)
  from each [OF this] run gone show ?thesis by blast
qed

text \<open>C14: compacting a level changes the bucket by one file that stands for its sources.  The sources are the
  files of the level below that start after the newest file of the level; the new file is named by
  their whole range, decodes, and applying it to any database equals applying the sources in order
  (for sources in page order in which every truncated page of the final size is written again).\<close>

theorem level_compaction_equivalent:
  assumes "lz4_ok x" and "dir_inv (w_client w)"
    and "compact_level_with (dir_env x sql root) cancel dst w = (Ok True, w')"
  shows "\<exists>newest srcs rdrs files bytes time f. max_ltx_file_info (dir_client root) (w_client w) dst = Ok newest \<and>
    ltx_files (dir_client root) (w_client w) (dst - 1) (case newest of Some g \<Rightarrow> fi_max_txid g + 1 | None \<Rightarrow> 0) False = Ok srcs \<and>
    srcs \<noteq> [] \<and>
    list_all2 (\<lambda>i d. \<exists>t. dir_contents root (w_client w) (info_key i) = Some (d, t)) srcs rdrs \<and>
    list_all2 (\<lambda>d g. decode_file x d = Ok g) rdrs files \<and>
    dir_contents root (w_client w') = (dir_contents root (w_client w))
      ((dst, Min (fi_min_txid ` set srcs), Max (fi_max_txid ` set srcs)) \<mapsto> (bytes, time)) \<and>
    decode_file x bytes = Ok f \<and>
    h_min_txid (f_header f) = h_min_txid (f_header (hd files)) \<and> h_max_txid (f_header f) = h_max_txid (f_header (last files)) \<and>
    ((\<forall>g \<in> set files. ascending (f_pages g)) \<and> (\<forall>k \<le> h_commit (f_header (last files)). settled k files) \<longrightarrow>
      (\<forall>db. apply_file db f = foldl apply_file db files))"
proof -
  have ev: "ev_client (dir_env x sql root) = dir_client root" by simp
  from dir.compact_level_OkD [OF ev assms(2,3)] obtain newest srcs rdrs bytes h t time where
    l: "max_ltx_file_info (dir_client root) (w_client w) dst = Ok newest"
    "ltx_files (dir_client root) (w_client w) (dst - 1) (case newest of Some g \<Rightarrow> fi_max_txid g + 1 | None \<Rightarrow> 0) False = Ok srcs" "srcs \<noteq> []"
    "list_all2 (\<lambda>i d. \<exists>t. dir_contents root (w_client w) (info_key i) = Some (d, t)) srcs rdrs"
    and cmp: "compact x HEADER_FLAG_NO_CHECKSUM False rdrs = Ok (bytes, h, t)"
    and C': "dir_contents root (w_client w') = (dir_contents root (w_client w))
      ((dst, Min (fi_min_txid ` set srcs), Max (fi_max_txid ` set srcs)) \<mapsto> (bytes, time))" by auto
  from compact_OkD [OF cmp] obtain files where files: "list_all2 (\<lambda>d g. decode_file x d = Ok g) rdrs files" by blast
  note d = compact_decode [OF assms(1) cmp files]
  have app: "apply_file db (h, merge_pages (h_commit h) (map f_pages files), t) = foldl apply_file db files"
    if "(\<forall>g \<in> set files. ascending (f_pages g)) \<and> (\<forall>k \<le> h_commit (f_header (last files)). settled k files)" for db
    using compact_applies [OF assms(1) cmp files, of db] that d(1) by auto
  show ?thesis
    by (intro exI conjI impI allI, rule l(1), rule l(2), rule l(3), rule l(4), rule files, rule C', rule d(1))
      (simp_all add: d(4) compact_header_def, use app in \<open>simp add: d(4) compact_header_def\<close>)
qed

definition demo_l0_fs :: file_system where
  "demo_l0_fs = [([''ltx'', ''0'', format_filename 1 1], demo_readers ! 0, 0),
     ([''ltx'', ''0'', format_filename 2 2], demo_readers ! 1, 0)]"

definition compacting_writer :: "file_system writer" where
  "compacting_writer = demo_writer\<lparr>w_client := demo_l0_fs, w_lineage_checked := True\<rparr>"

lemma demo_l0_fs_facts:
  "dir_inv demo_l0_fs" "max_ltx_file_info (dir_client []) demo_l0_fs 1 = Ok None"
  "ltx_files (dir_client []) demo_l0_fs 0 0 False =
     Ok [mk_info 0 1 1 (of_nat (length (demo_readers ! 0))) (Some 0), mk_info 0 2 2 (of_nat (length (demo_readers ! 1))) (Some 0)]"
  "open_ltx_file (dir_client []) demo_l0_fs 0 1 1 0 0 = Ok (demo_readers ! 0)"
  "open_ltx_file (dir_client []) demo_l0_fs 0 2 2 0 0 = Ok (demo_readers ! 1)"
  by (simp_all add: dir_inv_def demo_l0_fs_def format_filename_inj max_ltx_file_info_def dir_eval dir_open_ltx_file_def ltx_path_def)

lemma encoded_header: "encode_file x h pages 0 = Ok (bytes, h', t) \<Longrightarrow>
    HEADER_SIZE \<le> length bytes \<and> header_decode (take HEADER_SIZE bytes) = Ok h"
  using encode_file_OkD [of x h pages 0 bytes h' t] header_decode_encode_append [of h]
  by (auto simp: file_bytes_def)

lemma demo_compacts:
  "\<exists>w'. compact_level_with (dir_env demo_externs demo_sqlite []) Never 1 compacting_writer = (Ok True, w')"
proof -
  have rd: "demo_readers = [demo_readers ! 0, demo_readers ! 1]" by (simp add: demo_readers_def)
  let ?b = "file_bytes demo_externs demo_out_header demo_out_pages 0"
  have hd: "HEADER_SIZE \<le> length ?b" "header_decode (take HEADER_SIZE ?b) = Ok demo_out_header"
    using encoded_header demo_encode_out by blast+
  from dir.write_ltx_file_contents [OF demo_l0_fs_facts(1) hd, where level = 1 and a = 1 and b = 2] obtain s info where
    s: "write_ltx_file (dir_client []) demo_l0_fs 1 1 2 ?b = Ok (info, s)" by blast
  have w: "w_cancel compacting_writer = Never" "w_client compacting_writer = demo_l0_fs" "w_lineage_checked compacting_writer"
    by (simp_all add: compacting_writer_def demo_writer_def)
  have cmp: "compact demo_externs HEADER_FLAG_NO_CHECKSUM False [demo_readers ! 0, demo_readers ! 1] =
      Ok (?b, demo_out_header, file_trailer demo_externs demo_out_header demo_out_pages 0)"
    using demo_compact rd by simp
  show ?thesis
    using cmp by (simp add: compact_level_with_def set_cancel_def ensure_lineage_checked_def client_max_def client_list_def client_open_def
        m_bind_def demo_l0_fs_facts w cancel_check_def client_write_def s)
qed

theorem level_compaction_equivalent_witness:
  "\<exists>w' a b bytes time f.
     compact_level_with (dir_env demo_externs demo_sqlite []) Never 1 compacting_writer = (Ok True, w') \<and>
     dir_contents [] (w_client w') = (dir_contents [] demo_l0_fs)((1, a, b) \<mapsto> (bytes, time)) \<and>
     decode_file demo_externs bytes = Ok f \<and> apply_file Map.empty f = foldl apply_file Map.empty demo_files"
proof -
  have w: "w_client compacting_writer = demo_l0_fs" by (simp add: compacting_writer_def)
  have i: "dir_inv (w_client compacting_writer)" using w demo_l0_fs_facts(1) by simp
  obtain w' where run: "compact_level_with (dir_env demo_externs demo_sqlite []) Never 1 compacting_writer = (Ok True, w')"
    using demo_compacts by blast
  let ?srcs = "[mk_info 0 1 1 (of_nat (length (demo_readers ! 0))) (Some 0), mk_info 0 2 2 (of_nat (length (demo_readers ! 1))) (Some 0)]"
  have lvl: "(1 :: u8) - 1 = 0" by simp
  from level_compaction_equivalent [OF demo_lz4_ok i run, unfolded w demo_l0_fs_facts(2) lvl] obtain newest srcs rdrs files bytes time f where
    new: "Ok None = (Ok newest :: file_info option st_result)"
      "ltx_files (dir_client []) demo_l0_fs 0 (case newest of Some g \<Rightarrow> fi_max_txid g + 1 | None \<Rightarrow> 0) False = Ok srcs"
    and l0: "list_all2 (\<lambda>i d. \<exists>t. dir_contents [] demo_l0_fs (info_key i) = Some (d, t)) srcs rdrs"
      "list_all2 (\<lambda>d g. decode_file demo_externs d = Ok g) rdrs files"
    and f: "dir_contents [] (w_client w') = (dir_contents [] demo_l0_fs)
      ((1, Min (fi_min_txid ` set srcs), Max (fi_max_txid ` set srcs)) \<mapsto> (bytes, time))" "decode_file demo_externs bytes = Ok f"
    and app: "(\<forall>g \<in> set files. ascending (f_pages g)) \<and> (\<forall>k \<le> h_commit (f_header (last files)). settled k files) \<longrightarrow>
      (\<forall>db. apply_file db f = foldl apply_file db files)"
    by (elim exE conjE) (rule that, assumption+)
  have "srcs = ?srcs" using new demo_l0_fs_facts(3) by simp
  with l0 have l: "list_all2 (\<lambda>i d. \<exists>t. dir_contents [] demo_l0_fs (info_key i) = Some (d, t)) ?srcs rdrs"
    "list_all2 (\<lambda>d g. decode_file demo_externs d = Ok g) rdrs files" by simp_all
  have "rdrs = demo_readers" using l(1)
    by (auto simp: list_all2_Cons1 demo_l0_fs_def ltx_path_def level_dir_def fmt_dec_digits format_filename_inj demo_readers_def)
  with l(2) have files: "files = demo_files" using list_all2_functional demo_decode_files by blast
  have "\<forall>k \<le> h_commit (f_header (last demo_files)). settled k demo_files"
    by (simp add: demo_files_def demo_header_def demo_header2_def)
  with app files demo_ascending have "apply_file Map.empty f = foldl apply_file Map.empty demo_files" by blast
  with run f show ?thesis by blast
qed

text \<open>C15: a snapshot holds the whole database at the synced position, behind its L0 files.  When \<open>snapshot\<close> reports
  transaction \<open>t\<close>, the bucket holds a level 9 file from 1 to \<open>t\<close> that decodes to every page of the database but
  the lock page, each taken from the last frame committed within the synced part of the WAL or else
  from the database file.  That file was put last: the bucket it was put into already held the local L0 files of all
  transactions from the session's upload cursor up to \<open>t\<close> at least, with their bytes.  When \<open>snapshot\<close> reports no transaction or
  fails, the snapshots of the bucket are as they were.\<close>

theorem snapshot_complete:
  assumes "lz4_ok x" and "dir_inv (w_client w)" and "snapshot_with (dir_env x sql root) cancel w = (r, w')"
  shows "case r of
    Ok (Some t) \<Rightarrow> (\<exists>w1 out w2 w3 wal rd0 pm rd d h trl k s info.
      ensure_lineage_checked (dir_env x sql root) (w\<lparr>w_cancel := cancel\<rparr>) = (Ok (), w1) \<and>
      verify_and_sync (dir_env x sql root) w1 = (Ok out, w2) \<and> w3 = snd (apply_sync_outcome out w2) \<and>
      w_wal w = Some wal \<and> wal_reader_new wal = Ok rd0 \<and> page_map_until (unat (so_new_wal_size out)) rd0 = (pm, rd) \<and>
      decode_file x d = Ok (h, snapshot_pages (w_db w) wal (w_page_size w) (h_commit h) pm, trl) \<and>
      h_min_txid h = 1 \<and> h_max_txid h = t \<and> h_page_size h = w_page_size w \<and>
      h_commit h = (if 0 < pm_commit pm then pm_commit pm else db_commit (w_db w) (w_page_size w)) \<and>
      (\<exists>time. dir_contents root (w_client w') (SNAPSHOT_LEVEL, 1, t) = Some (d, time)) \<and>
      extended_by (dir_contents root (w_client w)) (w_meta w3) (upload_start w3) k (dir_contents root s) \<and> t \<le> k \<and>
      write_ltx_file (dir_client root) s SNAPSHOT_LEVEL 1 t d = Ok (info, w_client w'))
  | _ \<Rightarrow> (\<forall>a b. dir_contents root (w_client w') (SNAPSHOT_LEVEL, a, b) = dir_contents root (w_client w) (SNAPSHOT_LEVEL, a, b))"
proof (cases "\<exists>t. r = Ok (Some t)")
  case False
  with dir.snapshot_unfinished [OF _ assms(2,3)] show ?thesis by (auto simp del: dir_contents.simps split: result.splits option.splits)
next
  case True
  then obtain t where t: "r = Ok (Some t)" by blast
  have ev: "ev_client (dir_env x sql root) = dir_client root" by simp
  from dir.snapshot_OkD [OF ev assms(2) assms(3) [unfolded t]] obtain w1 out w2 wal rd0 pm rd commit ts trl bytes time k s info where
    r: "ensure_lineage_checked (dir_env x sql root) (w\<lparr>w_cancel := cancel\<rparr>) = (Ok (), w1)"
      "verify_and_sync (dir_env x sql root) w1 = (Ok out, w2)" "w_wal w = Some wal" "wal_reader_new wal = Ok rd0"
      "page_map_until (unat (so_new_wal_size out)) rd0 = (pm, rd)"
    and commit: "commit = (if 0 < pm_commit pm then pm_commit pm else db_commit (w_db w) (w_page_size w))"
    and enc: "encode_file x (snapshot_header (w_page_size w) commit t ts pm rd)
        (snapshot_pages (w_db w) wal (w_page_size w) commit pm) 0 =
        Ok (bytes, snapshot_header (w_page_size w) commit t ts pm rd, trl)"
    and fin: "dir_contents root (w_client w') (SNAPSHOT_LEVEL, 1, t) = Some (bytes, time)" "t \<le> k"
      "extended_by (dir_contents root (w_client w)) (w_meta (snd (apply_sync_outcome out w2)))
         (upload_start (snd (apply_sync_outcome out w2))) k (dir_contents root s)"
      "write_ltx_file (dir_client root) s SNAPSHOT_LEVEL 1 t bytes = Ok (info, w_client w')"
    by (elim exE conjE) (rule that, (assumption | simp)+)
  let ?h = "snapshot_header (w_page_size w) commit t ts pm rd"
  have h: "h_commit ?h = commit" "h_min_txid ?h = 1" "h_max_txid ?h = t" "h_page_size ?h = w_page_size w" "no_checksum ?h"
    by (simp_all add: snapshot_header_def Let_def no_checksum_def HEADER_FLAG_NO_CHECKSUM_def)
  have "decode_file x bytes = Ok (?h, snapshot_pages (w_db w) wal (w_page_size w) (h_commit ?h) pm, trl)"
    unfolding h(1) by (rule encoded_decode_file [OF assms(1) enc h(5)])
  then show ?thesis unfolding t result.case option.case using r fin h commit by blast
qed

definition snapshot_writer :: "file_system writer" where
  "snapshot_writer = demo_writer\<lparr>w_wal := Some demo_wal_header, w_meta := demo_meta, w_lineage_checked := True,
     w_cached_pos := Some \<lparr>p_txid = 3, p_post_apply_checksum = 0\<rparr>, w_remote_txid := Some 3\<rparr>"

lemma demo_snapshot_verify:
  "verify demo_externs demo_meta (Some demo_wal_header) 512 3 \<lparr>ss_last_synced_wal_offset = 0, ss_synced_to_wal_end = False,
     ss_synced_since_checkpoint = False\<rparr> = Ok demo_sync_info"
proof -
  have salts: "read_wal_header (Some demo_wal_header) = Ok (take 32 demo_wal)" "header_salts (take 32 demo_wal) = (1, 2)"
    "wal_file_size (Some demo_wal_header) = 32"
    by code_simp+
  have "l0_open demo_meta 3 = Some (header_encode demo_l0_header)" by (simp add: demo_meta_def l0_open_put)
  moreover obtain dec where "decode_header (decoder_new (header_encode demo_l0_header)) = Ok dec"
    "d_header dec = demo_l0_header" using demo_l0_decode by blast
  moreover have "h_wal_offset demo_l0_header = 32" "h_wal_size demo_l0_header = 0"
    "h_wal_salt1 demo_l0_header = 1" "h_wal_salt2 demo_l0_header = 2" by (simp_all add: demo_l0_header_def)
  ultimately show ?thesis
    by (simp add: verify_def verify_live_def salts demo_sync_info_def txid_is_zero_def WAL_HEADER_SIZE_def)
qed

lemma demo_snapshot_sync:
  "\<exists>out. verify_and_sync (dir_env demo_externs demo_sqlite []) snapshot_writer = (Ok out, snapshot_writer) \<and>
     so_new_wal_size out = 32 \<and> so_pos out = None \<and> \<not> so_synced out"
proof -
  have op: "open_reader demo_wal_header demo_sync_info = Ok (demo_sync_info, demo_empty_reader)"
    by (simp add: open_reader_def demo_sync_info_def WAL_HEADER_SIZE_def demo_wal_header_reader)
  have "si_offset demo_sync_info = 32" "\<not> si_snapshotting demo_sync_info" by (simp_all add: demo_sync_info_def)
  with op demo_snapshot_verify show ?thesis
    by (simp add: verify_and_sync_def writer_pos_def snapshot_writer_def demo_writer_def m_bind_def sync_def Let_def
        demo_wal_header_map consumed_size_def demo_page_map)
qed

lemma demo_snapshot_map: "page_map_until 32 demo_empty_reader = (page_map_default, demo_empty_reader)"
proof -
  have "next_frame_start demo_empty_reader = 32"
    by (simp add: next_frame_start_def WAL_HEADER_SIZE_def demo_empty_reader_def demo_wal_reader_def)
  then show ?thesis unfolding page_map_until_def by (subst page_map_loop.simps) simp
qed

definition demo_snapshot_header :: header where
  "demo_snapshot_header = snapshot_header 512 2 3 0 page_map_default demo_empty_reader"

lemma demo_snapshot_header_valid: "header_validate demo_snapshot_header = Ok ()"
  using demo_page_size_valid
  by (simp add: demo_snapshot_header_def snapshot_header_def header_validate_def is_valid_header_flags_def wal_offset_def
      HEADER_FLAG_MASK_def HEADER_FLAG_NO_CHECKSUM_def txid_is_zero_def is_snapshot_def demo_empty_reader_def demo_wal_reader_def
      no_checksum_def checksum_is_zero_def page_map_default_def)

lemma demo_snapshot_header_fields:
  "h_page_size demo_snapshot_header = 512" "h_commit demo_snapshot_header = 2" "is_snapshot demo_snapshot_header"
  "no_checksum demo_snapshot_header"
  by (simp_all add: demo_snapshot_header_def snapshot_header_def Let_def is_snapshot_def no_checksum_def HEADER_FLAG_NO_CHECKSUM_def)

lemma demo_encode_snapshot:
  assumes "w_page_size w = 512" and "w_db w = concat (map snd demo_pages)" and "w_clock w = (\<lambda>n. 0)" and "w_cancel w = Never"
  shows "\<exists>bytes w' h. encode_snapshot (dir_env demo_externs demo_sqlite []) demo_wal_header 3 32 w = (Ok bytes, w') \<and>
     w_client w' = w_client w \<and> w_cancel w' = Never \<and> HEADER_SIZE \<le> length bytes \<and> header_decode (take HEADER_SIZE bytes) = Ok h"
proof -
  let ?ev = "dir_env demo_externs demo_sqlite []"
  have c: "db_commit (concat (map snd demo_pages)) 512 = 2" by (simp add: db_commit_def demo_pages_def)
  have rd: "read_page_at what (concat (map snd demo_pages)) 512 0 k = Ok (replicate 512 7)"
    "read_page_at what (concat (map snd demo_pages)) 512 512 k = Ok (replicate 512 9)" for what k
    by (simp_all add: demo_pages_def read_page_at_def read_at_def)
  have pm: "pm_pages page_map_default = []" by (simp add: page_map_default_def)
  have "\<exists>bytes w'. encode_snapshot ?ev demo_wal_header 3 32 w = (Ok bytes, w') \<and> w_client w' = w_client w \<and> w_cancel w' = Never"
    using demo_snapshot_header_valid demo_snapshot_header_fields demo_lock assms
    by (simp add: encode_snapshot_def demo_wal_header_reader demo_snapshot_map c demo_page_map cancel_check_def now_unix_millis_def
      m_bind_def encode_header_def encoder_new_def demo_snapshot_header_def [symmetric] write_snapshot_pages_def
      demo_page_numbers pm rd encode_page_def encoder_write_def Let_def check_page_order_def
      page_header_validate_def encoder_finish_def trailer_validate_def checksum_is_zero_def trailer_default_def)
  then obtain bytes w' where run: "encode_snapshot ?ev demo_wal_header 3 32 w = (Ok bytes, w')" "w_client w' = w_client w" "w_cancel w' = Never"
    by blast
  from encode_snapshot_OkD [OF run(1)] encoded_header run show ?thesis by blast
qed

lemma demo_snapshot_runs:
  "\<exists>w'. snapshot_with (dir_env demo_externs demo_sqlite []) Never snapshot_writer = (Ok (Some 3), w')"
proof -
  let ?ev = "dir_env demo_externs demo_sqlite []" and ?w = snapshot_writer
  obtain out where out: "verify_and_sync ?ev ?w = (Ok out, ?w)" "so_new_wal_size out = 32" "so_pos out = None" "\<not> so_synced out"
    using demo_snapshot_sync by blast
  obtain w1 where w1: "apply_sync_outcome out ?w = (Ok (), w1)" by (simp add: apply_sync_outcome_def)
  have f: "w_page_size w1 = 512" "w_db w1 = concat (map snd demo_pages)" "w_clock w1 = (\<lambda>n. 0)" "w_cancel w1 = Never"
    "w_client w1 = []" "w_remote_txid w1 = Some 3" "w_cached_pos w1 = Some \<lparr>p_txid = 3, p_post_apply_checksum = 0\<rparr>"
    "w_wal w1 = Some demo_wal_header"
    using w1 out(3) by (auto simp: apply_sync_outcome_def snapshot_writer_def demo_writer_def)
  obtain bytes w5 h where enc: "encode_snapshot ?ev demo_wal_header 3 32 w1 = (Ok bytes, w5)" "w_client w5 = w_client w1" "w_cancel w5 = Never"
    "HEADER_SIZE \<le> length bytes" "header_decode (take HEADER_SIZE bytes) = Ok h" using demo_encode_snapshot f(1-4) by blast
  have "dir_inv []" by (simp add: dir_inv_def)
  from dir.write_ltx_file_contents [OF this enc(4,5), where level = SNAPSHOT_LEVEL and a = 1 and b = 3] obtain s info where
    s: "write_ltx_file (dir_client []) [] SNAPSHOT_LEVEL 1 3 bytes = Ok (info, s)" by blast
  have w0: "?w\<lparr>w_cancel := Never\<rparr> = ?w" "w_lineage_checked ?w" by (simp_all add: snapshot_writer_def demo_writer_def)
  have lin: "ensure_lineage_checked ?ev ?w = (Ok (), ?w)" using w0 by (simp add: ensure_lineage_checked_def)
  have up: "upload ?ev w1 = (Ok (0, 0, 3), w1)"
    by (simp add: upload_def remote_cursor_def writer_pos_def m_bind_def f upload_loop.simps)
  have pos: "writer_pos ?ev w1 = (Ok \<lparr>p_txid = 3, p_post_apply_checksum = 0\<rparr>, w1)" by (simp add: writer_pos_def f)
  show ?thesis
    by (simp add: snapshot_with_def set_cancel_def w0 m_bind_def lin out w1 up pos txid_is_zero_def f enc(1,2,3) cancel_check_def
        client_write_def s)
qed

theorem snapshot_complete_witness:
  "\<exists>w' wal pm d time h trl. snapshot_with (dir_env demo_externs demo_sqlite []) Never snapshot_writer = (Ok (Some 3), w') \<and>
     dir_contents [] (w_client w') (9, 1, 3) = Some (d, time) \<and>
     decode_file demo_externs d = Ok (h, snapshot_pages (w_db snapshot_writer) wal 512 (h_commit h) pm, trl)"
proof -
  obtain w' where run: "snapshot_with (dir_env demo_externs demo_sqlite []) Never snapshot_writer = (Ok (Some 3), w')"
    using demo_snapshot_runs by blast
  have i: "dir_inv (w_client snapshot_writer)" and p: "w_page_size snapshot_writer = 512"
    by (simp_all add: snapshot_writer_def demo_writer_def dir_inv_def)
  from snapshot_complete [OF demo_lz4_ok i run] run p show ?thesis
    unfolding SNAPSHOT_LEVEL_def result.case option.case p by blast
qed

end
