(* ===== verification/FileLock.thy ===== *)
theory FileLock
  imports LitersError
begin

text \<open>
  Model of \<open>FcntlLock\<close> in \<open>crates/liters/src/replica.rs\<close>: the SQLite-compatible exclusive lock on the
  replica file, taken with non-blocking requests on a poll schedule under one deadline.

  The operating system and the other processes are an environment: the answers to the coming lock
  requests, the monotonic clock and how late the process runs after each reading of it.  Time is in
  nanoseconds.  The lemmas show that an acquisition always returns, how many requests it makes at
  most, and that no range stays locked when it fails.
\<close>

section \<open>Ranges and the environment\<close>

record lock_range =
  lr_name :: string
  lr_start :: int
  lr_len :: int

definition SQLITE_PENDING_BYTE :: int where "SQLITE_PENDING_BYTE = 0x40000000"
definition SQLITE_SHARED_FIRST :: int where "SQLITE_SHARED_FIRST = SQLITE_PENDING_BYTE + 2"
definition SQLITE_SHARED_SIZE :: int where "SQLITE_SHARED_SIZE = 510"

definition PENDING_RANGE :: lock_range where
  "PENDING_RANGE = \<lparr>lr_name = ''PENDING'', lr_start = SQLITE_PENDING_BYTE, lr_len = 1\<rparr>"
definition SHARED_RANGE :: lock_range where
  "SHARED_RANGE = \<lparr>lr_name = ''SHARED'', lr_start = SQLITE_SHARED_FIRST, lr_len = SQLITE_SHARED_SIZE\<rparr>"

definition LOCK_POLL_MIN :: nat where "LOCK_POLL_MIN = 1000000"
definition LOCK_POLL_MAX :: nat where "LOCK_POLL_MAX = 20000000"
definition LOCK_TIMEOUT_MAX :: nat where "LOCK_TIMEOUT_MAX = 24 * 60 * 60 * 1000000000"

text \<open>The answer to a write-lock request: granted, \<open>EAGAIN\<close> or \<open>EACCES\<close>, or another error.\<close>

datatype lock_answer = Granted | Contended | LockFails io_error

record lock_env =
  le_fcntl :: "nat \<Rightarrow> lock_answer"
  le_pid :: "int option"
  le_now :: nat
  le_lag :: "nat \<Rightarrow> nat"
  le_held :: "lock_range list"

definition set_fcntl_lock :: "lock_range \<Rightarrow> lock_env \<Rightarrow> lock_answer \<times> lock_env" where
  "set_fcntl_lock r e =
     (let a = le_fcntl e 0; e = e\<lparr>le_fcntl := (\<lambda>i. le_fcntl e (Suc i))\<rparr> in
      (a, if a = Granted then e\<lparr>le_held := List.insert r (le_held e)\<rparr> else e))"

text \<open>Releasing never conflicts: \<open>drop\<close> unlocks the shared range, then the pending byte.\<close>

definition lock_drop :: "lock_env \<Rightarrow> lock_env" where
  "lock_drop e = e\<lparr>le_held := removeAll PENDING_RANGE (removeAll SHARED_RANGE (le_held e))\<rparr>"

definition instant_now :: "lock_env \<Rightarrow> nat \<times> lock_env" where
  "instant_now e =
     (let now = le_now e + le_lag e 0 in (now, e\<lparr>le_now := now, le_lag := (\<lambda>i. le_lag e (Suc i))\<rparr>))"

definition thread_sleep :: "nat \<Rightarrow> lock_env \<Rightarrow> lock_env" where
  "thread_sleep d e = e\<lparr>le_now := le_now e + d\<rparr>"

section \<open>Acquisition\<close>

text \<open>The delay after the \<open>k\<close>-th contended request: doubling from the floor up to the ceiling.\<close>

primrec lock_delay :: "nat \<Rightarrow> nat" where
  "lock_delay 0 = LOCK_POLL_MIN"
| "lock_delay (Suc k) = min (lock_delay k * 2) LOCK_POLL_MAX"

lemma lock_delay_bounds: "LOCK_POLL_MIN \<le> lock_delay k" "lock_delay k \<le> LOCK_POLL_MAX"
  by (induction k) (auto simp: LOCK_POLL_MIN_def LOCK_POLL_MAX_def)

text \<open>Every sleep brings the clock closer to the deadline.\<close>

lemma acquire_measure:
  assumes "set_fcntl_lock r e = (a, e1)" and "instant_now e1 = (now, e2)" and "now < deadline"
  shows "deadline - le_now (thread_sleep (min (lock_delay k) (deadline - now)) e2) < deadline - le_now e"
proof -
  have "le_now e1 = le_now e" using assms(1) by (auto simp: set_fcntl_lock_def Let_def split: if_splits)
  moreover have "le_now e2 = now" "le_now e1 \<le> now" using assms(2) by (auto simp: instant_now_def Let_def)
  moreover have "0 < lock_delay k" using lock_delay_bounds(1) [of k] by (simp add: LOCK_POLL_MIN_def)
  ultimately show ?thesis using assms(3) by (auto simp: thread_sleep_def)
qed

function acquire_loop ::
  "lock_range \<Rightarrow> nat \<Rightarrow> nat \<Rightarrow> nat \<Rightarrow> cancel_token \<Rightarrow> lock_env \<Rightarrow> unit res \<times> cancel_token \<times> lock_env" where
  "acquire_loop r began deadline k cancel e =
     (case set_fcntl_lock r e of
        (Granted, e) \<Rightarrow> (Ok (), cancel, e)
      | (LockFails io, e) \<Rightarrow> (Err (EIo io), cancel, e)
      | (Contended, e) \<Rightarrow>
          (case token_check cancel of
             Err er \<Rightarrow> (Err (from_storage er), cancel, e)
           | Ok cancel \<Rightarrow>
               let (now, e) = instant_now e; left = deadline - now in
               if left = 0
               then let (now, e) = instant_now e in
                 (Err (LockBusy (lr_name r) (int (now - began)) (le_pid e)), cancel, e)
               else acquire_loop r began deadline (Suc k) cancel (thread_sleep (min (lock_delay k) left) e)))"
  by pat_completeness auto
termination
  by (relation "measure (\<lambda>(r, began, deadline, k, cancel, e). deadline - le_now e)")
     (auto intro: acquire_measure [OF sym sym])

declare acquire_loop.simps [simp del]

definition acquire_write_lock ::
  "lock_range \<Rightarrow> nat \<Rightarrow> cancel_token \<Rightarrow> lock_env \<Rightarrow> unit res \<times> cancel_token \<times> lock_env" where
  "acquire_write_lock r deadline cancel e =
     (let (began, e) = instant_now e in acquire_loop r began deadline 0 cancel e)"

definition lock_exclusive :: "nat \<Rightarrow> cancel_token \<Rightarrow> lock_env \<Rightarrow> unit res \<times> cancel_token \<times> lock_env" where
  "lock_exclusive timeout cancel e =
     (let (now, e) = instant_now e; deadline = now + min timeout LOCK_TIMEOUT_MAX in
      case acquire_write_lock PENDING_RANGE deadline cancel e of
        (Err er, cancel, e) \<Rightarrow> (Err er, cancel, e)
      | (Ok _, cancel, e) \<Rightarrow>
          (case acquire_write_lock SHARED_RANGE deadline cancel e of
             (Err er, cancel, e) \<Rightarrow> (Err er, cancel, lock_drop e)
           | (Ok _, cancel, e) \<Rightarrow> (Ok (), cancel, e)))"

section \<open>Bounds\<close>

definition lock_polls :: "nat \<Rightarrow> nat" where
  "lock_polls d = (d + LOCK_POLL_MIN - 1) div LOCK_POLL_MIN + 1"

lemma lock_polls_0: "lock_polls 0 = 1"
  by (simp add: lock_polls_def LOCK_POLL_MIN_def)

lemma lock_polls_mono: "a \<le> b \<Longrightarrow> lock_polls a \<le> lock_polls b"
  unfolding lock_polls_def LOCK_POLL_MIN_def by (auto intro: div_le_mono)

lemma lock_polls_step:
  assumes "0 < left" and "left \<le> d" and "d' \<le> left - min (lock_delay k) left"
  shows "lock_polls d' + 1 \<le> lock_polls d"
proof (cases "lock_delay k < left")
  case True
  then have "d' + LOCK_POLL_MIN \<le> d" using assms lock_delay_bounds(1) [of k] by simp
  from lock_polls_mono [OF this] show ?thesis by (simp add: lock_polls_def LOCK_POLL_MIN_def)
next
  case False
  then have "d' = 0" "1 \<le> d" using assms by auto
  with lock_polls_mono [of 1 d] show ?thesis by (simp add: lock_polls_0 lock_polls_def LOCK_POLL_MIN_def)
qed

lemma set_fcntl_lock_facts:
  assumes "set_fcntl_lock r e = (a, e1)"
  shows "le_fcntl e1 = (\<lambda>i. le_fcntl e (i + 1))" "le_now e1 = le_now e"
    and "a = Granted \<Longrightarrow> set (le_held e1) = insert r (set (le_held e))" and "a \<noteq> Granted \<Longrightarrow> le_held e1 = le_held e"
  using assms by (auto simp: set_fcntl_lock_def Let_def split: if_splits)

lemma instant_now_facts:
  assumes "instant_now e = (now, e1)"
  shows "le_fcntl e1 = le_fcntl e" "le_held e1 = le_held e" "le_now e1 = now" "le_now e \<le> now"
  using assms by (auto simp: instant_now_def Let_def)

text \<open>How an acquisition of one range ends.\<close>

definition lock_outcome :: "lock_range \<Rightarrow> nat \<Rightarrow> lock_env \<Rightarrow> unit res \<Rightarrow> lock_env \<Rightarrow> bool" where
  "lock_outcome r deadline e res e' \<longleftrightarrow> le_now e \<le> le_now e' \<and>
     (case res of
        Ok _ \<Rightarrow> set (le_held e') = insert r (set (le_held e))
      | Err er \<Rightarrow> le_held e' = le_held e \<and> (\<forall>nm w p. er = LockBusy nm w p \<longrightarrow> deadline \<le> le_now e'))"

text \<open>At most \<open>m\<close> lock requests lie between two environments.\<close>

definition lock_requests :: "nat \<Rightarrow> lock_env \<Rightarrow> lock_env \<Rightarrow> bool" where
  "lock_requests m e e' \<longleftrightarrow> (\<exists>n \<le> m. le_fcntl e' = (\<lambda>i. le_fcntl e (i + n)))"

lemma lock_requests_trans: "lock_requests a e e1 \<Longrightarrow> lock_requests b e1 e2 \<Longrightarrow> lock_requests (a + b) e e2"
  unfolding lock_requests_def
proof (elim exE conjE)
  fix n m assume "n \<le> a" "le_fcntl e1 = (\<lambda>i. le_fcntl e (i + n))" "m \<le> b" "le_fcntl e2 = (\<lambda>i. le_fcntl e1 (i + m))"
  then show "\<exists>k \<le> a + b. le_fcntl e2 = (\<lambda>i. le_fcntl e (i + k))" by (intro exI [of _ "m + n"]) (simp add: ac_simps)
qed

lemma lock_requests_mono: "lock_requests a e e1 \<Longrightarrow> a \<le> b \<Longrightarrow> lock_requests b e e1"
  unfolding lock_requests_def by (meson order.trans)

lemma lock_requests_same: "le_fcntl e1 = le_fcntl e \<Longrightarrow> lock_requests m e e1"
  unfolding lock_requests_def by (intro exI [of _ 0]) simp

lemma lock_requests_one: "le_fcntl e1 = (\<lambda>i. le_fcntl e (i + 1)) \<Longrightarrow> 1 \<le> m \<Longrightarrow> lock_requests m e e1"
  unfolding lock_requests_def by (intro exI [of _ 1]) simp

lemma acquire_loop_spec:
  assumes "acquire_loop r began deadline k cancel e = (res, cancel', e')"
  shows "lock_requests (lock_polls (deadline - le_now e)) e e' \<and> lock_outcome r deadline e res e'"
  using assms
proof (induction r began deadline k cancel e arbitrary: res cancel' e' rule: acquire_loop.induct)
  case (1 r began deadline k cancel e)
  obtain a e1 where a: "set_fcntl_lock r e = (a, e1)" by fastforce
  note f = set_fcntl_lock_facts [OF a]
  have one: "lock_requests (lock_polls d) e e1" for d by (rule lock_requests_one [OF f(1)]) (simp add: lock_polls_def)
  note run = "1.prems" [unfolded acquire_loop.simps [of r began deadline k cancel e] a prod.case]
  show ?case
  proof (cases a)
    case Granted
    with run f one show ?thesis by (auto simp: lock_outcome_def)
  next
    case (LockFails io)
    with run f one show ?thesis by (auto simp: lock_outcome_def)
  next
    case Contended
    show ?thesis
    proof (cases "token_check cancel")
      case (Err er)
      then have "er = StCancelled" by (cases cancel rule: token_check.cases) auto
      with Err Contended run f one show ?thesis by (auto simp: lock_outcome_def from_storage_def)
    next
      case (Ok t)
      obtain now e2 where now: "instant_now e1 = (now, e2)" by fastforce
      note g = instant_now_facts [OF now]
      show ?thesis
      proof (cases "deadline - now = 0")
        case True
        obtain now2 e3 where now2: "instant_now e2 = (now2, e3)" by fastforce
        note h = instant_now_facts [OF now2]
        have res: "res = Err (LockBusy (lr_name r) (int (now2 - began)) (le_pid e3))" "e' = e3"
          using run Contended Ok now now2 True by auto
        have "lock_requests (lock_polls (deadline - le_now e)) e e3"
          using one g(1) h(1) by (simp add: lock_requests_def)
        with res f g h Contended True show ?thesis by (auto simp: lock_outcome_def)
      next
        case False
        let ?e = "thread_sleep (min (lock_delay k) (deadline - now)) e2"
        have rest: "acquire_loop r began deadline (Suc k) t ?e = (res, cancel', e')"
          using run Contended Ok now False by simp
        have e: "le_fcntl ?e = (\<lambda>i. le_fcntl e (i + 1))" "le_held ?e = le_held e" "le_now e \<le> le_now ?e"
          "le_now ?e = now + min (lock_delay k) (deadline - now)"
          using f g Contended by (auto simp: thread_sleep_def)
        have ih: "lock_requests (lock_polls (deadline - le_now ?e)) ?e e'" "lock_outcome r deadline ?e res e'"
          using "1.IH" [OF a [symmetric] Contended Ok now [symmetric] refl refl False rest] by auto
        have "lock_polls (deadline - le_now ?e) + 1 \<le> lock_polls (deadline - le_now e)"
          by (rule lock_polls_step [of "deadline - now" _ _ k]) (use False f g e(4) in auto)
        moreover have "lock_requests (1 + lock_polls (deadline - le_now ?e)) e e'"
          by (rule lock_requests_trans [OF lock_requests_one [OF e(1)] ih(1)]) simp
        ultimately have "lock_requests (lock_polls (deadline - le_now e)) e e'" by (auto elim: lock_requests_mono)
        moreover have "lock_outcome r deadline e res e'" using ih(2) e(2,3) by (auto simp: lock_outcome_def split: result.splits)
        ultimately show ?thesis ..
      qed
    qed
  qed
qed

lemma acquire_write_lock_spec:
  assumes "acquire_write_lock r deadline cancel e = (res, cancel', e')"
  shows "lock_requests (lock_polls (deadline - le_now e)) e e'" and "lock_outcome r deadline e res e'"
proof -
  obtain began e1 where b: "instant_now e = (began, e1)" by fastforce
  note f = instant_now_facts [OF b]
  have "acquire_loop r began deadline 0 cancel e1 = (res, cancel', e')"
    using assms b by (simp add: acquire_write_lock_def)
  from acquire_loop_spec [OF this] have
    r: "lock_requests (lock_polls (deadline - began)) e1 e'" and o: "lock_outcome r deadline e1 res e'" by (auto simp: f)
  have "lock_requests (0 + lock_polls (deadline - began)) e e'"
    by (rule lock_requests_trans [OF lock_requests_same r]) (rule f)
  then show "lock_requests (lock_polls (deadline - le_now e)) e e'"
    by (rule lock_requests_mono) (use f in \<open>auto intro: lock_polls_mono\<close>)
  show "lock_outcome r deadline e res e'" using o f by (auto simp: lock_outcome_def split: result.splits)
qed

lemma lock_exclusive_spec:
  assumes "lock_exclusive timeout cancel e = (res, cancel', e')"
    and "PENDING_RANGE \<notin> set (le_held e)" and "SHARED_RANGE \<notin> set (le_held e)"
  shows "lock_requests (2 * lock_polls (min timeout LOCK_TIMEOUT_MAX)) e e' \<and>
    (case res of
       Ok _ \<Rightarrow> set (le_held e') = set (le_held e) \<union> {PENDING_RANGE, SHARED_RANGE}
     | Err er \<Rightarrow> set (le_held e') = set (le_held e) \<and>
         (\<forall>nm w p. er = LockBusy nm w p \<longrightarrow> le_now e + min timeout LOCK_TIMEOUT_MAX \<le> le_now e'))"
proof -
  obtain now e1 where now: "instant_now e = (now, e1)" by fastforce
  note f = instant_now_facts [OF now]
  let ?t = "min timeout LOCK_TIMEOUT_MAX" and ?d = "now + min timeout LOCK_TIMEOUT_MAX"
  obtain r1 c1 e2 where p: "acquire_write_lock PENDING_RANGE ?d cancel e1 = (r1, c1, e2)" by (metis prod_cases3)
  note ps = acquire_write_lock_spec [OF p]
  have "lock_requests (0 + lock_polls ?t) e e2"
    using lock_requests_trans [OF lock_requests_same [OF f(1)] ps(1), of 0] f by simp
  then have r2: "lock_requests (lock_polls ?t) e e2" by simp
  show ?thesis
  proof (cases r1)
    case (Err er)
    then have "res = Err er" "e' = e2" using assms(1) now p by (auto simp: lock_exclusive_def)
    with Err ps(2) f r2 show ?thesis by (auto simp: lock_outcome_def elim: lock_requests_mono)
  next
    case (Ok u)
    obtain r2 c2 e3 where q: "acquire_write_lock SHARED_RANGE ?d c1 e2 = (r2, c2, e3)" by (metis prod_cases3)
    note qs = acquire_write_lock_spec [OF q]
    have "now \<le> le_now e2" using ps(2) f by (simp add: lock_outcome_def)
    then have "?d - le_now e2 \<le> ?t" by linarith
    then have "lock_requests (lock_polls ?t) e2 e3" using qs(1) by (blast intro: lock_requests_mono lock_polls_mono)
    with r2 have r3: "lock_requests (2 * lock_polls ?t) e e3" unfolding mult_2 by (rule lock_requests_trans)
    have "res = (case r2 of Ok _ \<Rightarrow> Ok () | Err er \<Rightarrow> Err er)" "e' = (case r2 of Ok _ \<Rightarrow> e3 | Err er \<Rightarrow> lock_drop e3)"
      using assms(1) now p Ok q by (auto simp: lock_exclusive_def split: result.splits)
    moreover have "lock_requests m e (lock_drop e3) = lock_requests m e e3" for m by (simp add: lock_requests_def lock_drop_def)
    ultimately show ?thesis using ps(2) qs(2) Ok assms(2,3) f r3
      by (cases r2) (auto simp: lock_drop_def lock_outcome_def)
  qed
qed

text \<open>C21: waiting for the replica lock is bounded.  An acquisition always returns; it makes at most one
  request per millisecond of the timeout and range plus one, whatever the other processes do; it
  reports \<open>LockBusy\<close> only once the deadline has passed; it holds both ranges when it succeeds and
  neither of them when it fails.\<close>

theorem lock_wait_bounded:
  assumes "lock_exclusive timeout cancel e = (res, cancel', e')"
    and "PENDING_RANGE \<notin> set (le_held e)" and "SHARED_RANGE \<notin> set (le_held e)"
  shows "lock_requests (2 * lock_polls (min timeout LOCK_TIMEOUT_MAX)) e e' \<and>
    (case res of
       Ok _ \<Rightarrow> set (le_held e') = set (le_held e) \<union> {PENDING_RANGE, SHARED_RANGE}
     | Err er \<Rightarrow> set (le_held e') = set (le_held e) \<and>
         (\<forall>nm w p. er = LockBusy nm w p \<longrightarrow> le_now e + min timeout LOCK_TIMEOUT_MAX \<le> le_now e'))"
  by (rule lock_exclusive_spec [OF assms])

text \<open>A reader holds the shared range until the third request for it.\<close>

definition demo_lock_env :: lock_env where
  "demo_lock_env = \<lparr>le_fcntl = (\<lambda>i. if i = 1 \<or> i = 2 then Contended else Granted), le_pid = Some 77, le_now = 5,
     le_lag = (\<lambda>i. 0), le_held = []\<rparr>"

theorem lock_wait_bounded_witness:
  "fst (lock_exclusive 5000000 Never demo_lock_env) = Ok () \<and>
   set (le_held (snd (snd (lock_exclusive 5000000 Never demo_lock_env)))) = {PENDING_RANGE, SHARED_RANGE}"
proof -
  have ok: "fst (lock_exclusive 5000000 Never demo_lock_env) = Ok ()"
    by (simp add: lock_exclusive_def acquire_write_lock_def demo_lock_env_def instant_now_def set_fcntl_lock_def thread_sleep_def
        acquire_loop.simps LOCK_TIMEOUT_MAX_def LOCK_POLL_MIN_def LOCK_POLL_MAX_def)
  obtain c e' where run: "lock_exclusive 5000000 Never demo_lock_env = (Ok (), c, e')"
    using ok by (metis prod.collapse)
  have "le_held demo_lock_env = []" by (simp add: demo_lock_env_def)
  with lock_wait_bounded [OF run] show ?thesis by (simp add: run)
qed

end
