(* ===== verification/Replica.thy ===== *)
theory Replica
  imports RestorePlan MetaDir Compactor ResultState FileLock
begin

text \<open>
  Model of \<open>crates/liters/src/replica.rs\<close>: a local read-only database kept current from a bucket by
  full restores and by applying LTX files in place, and the loop that follows a live stream.

  The state holds the local files of the replica: the database file, the \<open>-txid\<close> sidecar and which
  sibling files exist.  The file handle an operation opens is the database file itself, since only a
  full restore replaces it.  Spooled files are byte lists.  The integrity check of SQLite, the
  random change counters, the backoff schedule and the streams of the backend are parameters.
\<close>

section \<open>Options, results and state\<close>

datatype integrity_check = NoCheck | Quick | Full

record replica_options =
  ro_integrity_check :: integrity_check
  ro_use_file_locks :: bool
  ro_lock_timeout :: nat
  ro_auto_reset :: bool

definition replica_options_default :: replica_options where
  "replica_options_default =
     \<lparr>ro_integrity_check = Quick, ro_use_file_locks = True, ro_lock_timeout = 5 * 1000000000, ro_auto_reset = False\<rparr>"

text \<open>The retry schedule gives the delay for every count of consecutive failures.\<close>

record follow_options =
  fo_poll_interval :: nat
  fo_retry :: "(u32 \<Rightarrow> nat) option"

definition follow_options_default :: follow_options where
  "follow_options_default = \<lparr>fo_poll_interval = 1000000000, fo_retry = None\<rparr>"

record sync_result =
  sr_restored :: bool
  sr_from_txid :: txid
  sr_to_txid :: txid

text \<open>A stream session: the events it delivers, each with the bytes it spools, until it closes.\<close>

type_synonym stream = "(stream_event \<times> byte list) st_result list"

record 's replica_env =
  re_x :: externs
  re_client :: "'s client"
  re_integrity :: "string \<Rightarrow> byte list \<Rightarrow> string res"
  re_stream :: "'s \<Rightarrow> txid \<Rightarrow> stream option st_result"

record 's replica =
  rp_path :: string
  rp_db :: "byte list option"
  rp_txid :: "string option"
  rp_side :: "string list"
  rp_client :: 's
  rp_opts :: replica_options
  rp_cancel :: cancel_token
  rp_rand :: "nat \<Rightarrow> u32"
  rp_lock :: lock_env

type_synonym ('s, 'a) rm = "('s replica, error, 'a) action"

definition replica_open ::
  "string \<Rightarrow> byte list option \<Rightarrow> string option \<Rightarrow> string list \<Rightarrow> 's \<Rightarrow> replica_options \<Rightarrow> (nat \<Rightarrow> u32) \<Rightarrow> lock_env \<Rightarrow>
   's replica" where
  "replica_open path db txid side s opts rnd e =
     \<lparr>rp_path = path, rp_db = db, rp_txid = txid, rp_side = side, rp_client = s, rp_opts = opts,
      rp_cancel = token_new, rp_rand = rnd, rp_lock = e\<rparr>"

definition r_set_cancel :: "cancel_token \<Rightarrow> ('s, unit) rm" where
  "r_set_cancel t = m_mod (\<lambda>r. r\<lparr>rp_cancel := t\<rparr>)"

definition r_check :: "('s, unit) rm" where
  "r_check r =
     (case token_check (rp_cancel r) of
        Err e \<Rightarrow> (Err (from_storage e), r)
      | Ok t \<Rightarrow> (Ok (), r\<lparr>rp_cancel := t\<rparr>))"

definition r_list :: "'s replica_env \<Rightarrow> u8 \<Rightarrow> txid \<Rightarrow> ('s, file_info list) rm" where
  "r_list ev level seek = m_bind m_get (\<lambda>r. m_lift (st_q (ltx_files (re_client ev) (rp_client r) level seek False)))"

definition r_open_file :: "'s replica_env \<Rightarrow> file_info \<Rightarrow> ('s, byte list) rm" where
  "r_open_file ev info =
     m_bind m_get (\<lambda>r. m_lift (st_q (open_ltx_file (re_client ev) (rp_client r)
       (fi_level info) (fi_min_txid info) (fi_max_txid info) 0 0)))"

section \<open>The position sidecar\<close>

definition read_txid_file :: "('s, txid) rm" where
  "read_txid_file =
     m_bind m_get (\<lambda>r. m_lift
       (case rp_txid r of
          None \<Rightarrow> Ok 0
        | Some s \<Rightarrow> ok_or (txid_parse (str_trim s))
            (Other (''parse txid file '' @ rp_path r @ ''-txid: '' @ s))))"

definition write_txid_file :: "txid \<Rightarrow> ('s, unit) rm" where
  "write_txid_file t = m_mod (\<lambda>r. r\<lparr>rp_txid := Some (txid_display t @ [CHR 0x0A])\<rparr>)"

definition position :: "('s, txid) rm" where
  "position = read_txid_file"

definition reset :: "('s, unit) rm" where
  "reset = m_mod (\<lambda>r. r\<lparr>rp_db := None, rp_txid := None,
     rp_side := filter (\<lambda>s. s \<noteq> ''.tmp'' \<and> s \<noteq> ''.apply.tmp'') (rp_side r)\<rparr>)"

section \<open>Applying a file\<close>

text \<open>\<open>write_all_at\<close> and \<open>set_len\<close>: writing past the end leaves a hole of zeros.\<close>

definition write_all_at :: "byte list \<Rightarrow> byte list \<Rightarrow> nat \<Rightarrow> byte list" where
  "write_all_at f data off = take off f @ replicate (off - length f) 0 @ data @ drop (off + length data) f"

definition set_len :: "byte list \<Rightarrow> nat \<Rightarrow> byte list" where
  "set_len f n = take n f @ replicate (n - length f) 0"

text \<open>Page 1 is presented as a rollback-journal database with a fresh change counter.\<close>

definition present_page :: "u32 \<Rightarrow> byte list \<Rightarrow> byte list" where
  "present_page rnd data =
     (let data = (data[18 := 1])[19 := 1] in take 24 data @ to_be 4 rnd @ drop 28 data)"

definition read_page_size :: "byte list \<Rightarrow> u32 res" where
  "read_page_size f =
     (let b = read_at f 2 16 in
      if length b < 2 then Err (EIo (IoError UnexpectedEof ''failed to fill whole buffer''))
      else let ps = (ucast (from_be b :: u16) :: u32) in Ok (if ps = 1 then 65536 else ps))"

function apply_pages ::
  "externs \<Rightarrow> nat \<Rightarrow> decoder \<Rightarrow> byte list \<Rightarrow> (nat \<Rightarrow> u32) \<Rightarrow> decoder ltx_result \<times> byte list \<times> (nat \<Rightarrow> u32)" where
  "apply_pages x n dec f rnd =
     (case decode_page x dec n of
        Err e \<Rightarrow> (Err e, f, rnd)
      | Ok (None, dec') \<Rightarrow> (Ok dec', f, rnd)
      | Ok (Some (hdr, data), dec') \<Rightarrow>
          let fix = ph_pgno hdr = 1 \<and> 28 \<le> length data;
              data' = (if fix then present_page (rnd 0) data else data);
              rnd' = (if fix then (\<lambda>i. rnd (Suc i)) else rnd)
          in apply_pages x n dec' (write_all_at f data' ((unat (ph_pgno hdr) - 1) * n)) rnd')"
  by pat_completeness auto
termination
  by (relation "measure (\<lambda>(x, n, d, f, rnd). length (d_r d))") (auto dest: decode_page_consumes)

declare apply_pages.simps [simp del]

definition r_lock :: "('s, unit) rm" where
  "r_lock r =
     (if ro_use_file_locks (rp_opts r)
      then case lock_exclusive (ro_lock_timeout (rp_opts r)) (rp_cancel r) (rp_lock r) of
             (res, t, e) \<Rightarrow> (res, r\<lparr>rp_cancel := t, rp_lock := e\<rparr>)
      else (Ok (), r))"

definition r_unlock :: "('s, unit) rm" where
  "r_unlock = m_mod (\<lambda>r. if ro_use_file_locks (rp_opts r) then r\<lparr>rp_lock := lock_drop (rp_lock r)\<rparr> else r)"

text \<open>The locked part: the pages, the truncation to the commit size, the closing check.\<close>

definition write_pages :: "'s replica_env \<Rightarrow> decoder \<Rightarrow> u32 \<Rightarrow> ('s, unit) rm" where
  "write_pages ev dec page_size r =
     (case rp_db r of
        None \<Rightarrow> (Err (EIo no_such_file), r)
      | Some f \<Rightarrow>
          (case apply_pages (re_x ev) (unat page_size) dec f (rp_rand r) of
             (Err e, f, rnd) \<Rightarrow> (Err (ELtx e), r\<lparr>rp_db := Some f, rp_rand := rnd\<rparr>)
           | (Ok dec', f, rnd) \<Rightarrow>
               let hdr = d_header dec;
                   f = (if 0 < h_commit hdr then set_len f (unat (h_commit hdr) * unat page_size) else f) in
               (map_err ELtx (and_then (decoder_finish (re_x ev) dec') (\<lambda>_. Ok ())), r\<lparr>rp_db := Some f, rp_rand := rnd\<rparr>)))"

definition apply_spooled :: "'s replica_env \<Rightarrow> byte list \<Rightarrow> u32 \<Rightarrow> ('s, unit) rm" where
  "apply_spooled ev spool page_size =
     m_bind (m_lift (ltx_q (decoder_verify (re_x ev) spool))) (\<lambda>_.
     m_bind (m_lift (ltx_q (decode_header (decoder_new spool)))) (\<lambda>dec.
     let hdr = d_header dec in
     if h_page_size hdr \<noteq> page_size then m_err (Diverged (h_min_txid hdr) (h_max_txid hdr))
     else m_then r_lock
       (m_try (write_pages ev dec page_size) (\<lambda>res. m_then r_unlock (m_lift res)))))"

text \<open>The file is streamed into the spool; an error on the way counts as an error of opening it (\<open>client\<close>).\<close>

definition apply_ltx_file :: "'s replica_env \<Rightarrow> file_info \<Rightarrow> u32 \<Rightarrow> ('s, unit) rm" where
  "apply_ltx_file ev info page_size =
     m_bind (r_open_file ev info) (\<lambda>spool. apply_spooled ev spool page_size)"

section \<open>Full restore\<close>

definition present_as_rollback_journal :: "byte list \<Rightarrow> byte list" where
  "present_as_rollback_journal f = (if length f < 100 then f else write_all_at f [1, 1] 18)"

definition pragma_of :: "integrity_check \<Rightarrow> string option" where
  "pragma_of c = (case c of NoCheck \<Rightarrow> None | Quick \<Rightarrow> Some ''quick_check'' | Full \<Rightarrow> Some ''integrity_check'')"

definition check_integrity :: "'s replica_env \<Rightarrow> ('s, unit) rm" where
  "check_integrity ev =
     m_bind m_get (\<lambda>r.
     case pragma_of (ro_integrity_check (rp_opts r)) of
       None \<Rightarrow> m_ok ()
     | Some pragma \<Rightarrow>
         m_bind (m_lift (case rp_db r of None \<Rightarrow> Err (Sqlite ''unable to open database file'')
                         | Some db \<Rightarrow> re_integrity ev pragma db)) (\<lambda>result.
         if result \<noteq> ''ok''
         then m_then (m_mod (\<lambda>r. r\<lparr>rp_db := None\<rparr>)) (m_err (Other (''post-restore integrity check failed: '' @ result)))
         else m_ok ()))"

fun open_plan :: "'s replica_env \<Rightarrow> file_info list \<Rightarrow> ('s, byte list list) rm" where
  "open_plan ev [] = m_ok []"
| "open_plan ev (info # infos) =
     m_then r_check (m_bind (r_open_file ev info) (\<lambda>d. m_bind (open_plan ev infos) (\<lambda>ds. m_ok (d # ds))))"

definition size_error :: "file_info \<Rightarrow> error" where
  "size_error info = Other (''invalid ltx file: level='' @ fmt_dec (unat (fi_level info)) @ '' min='' @
     txid_display (fi_min_txid info) @ '' max='' @ txid_display (fi_max_txid info) @ '' has size '' @
     fmt_dec (unat (fi_size info)) @ '' bytes'')"

definition check_sizes :: "file_info list \<Rightarrow> unit res" where
  "check_sizes plan =
     (case List.find (\<lambda>info. unat (fi_size info) < HEADER_SIZE) plan of
        Some info \<Rightarrow> Err (size_error info) | None \<Rightarrow> Ok ())"

definition restore_image :: "'s replica_env \<Rightarrow> byte list list \<Rightarrow> byte list res" where
  "restore_image ev rdrs =
     and_then (ltx_q (compact (re_x ev) HEADER_FLAG_NO_CHECKSUM False rdrs)) (\<lambda>(compacted, _, _).
     and_then (ltx_q (decode_database_to (re_x ev) compacted)) (\<lambda>f.
     Ok (present_as_rollback_journal f)))"

definition full_restore :: "'s replica_env \<Rightarrow> ('s, txid) rm" where
  "full_restore ev =
     m_bind m_get (\<lambda>r.
     m_bind (m_lift (calc_restore_plan (re_client ev) (rp_client r) 0)) (\<lambda>plan.
     m_bind (m_lift (check_sizes plan)) (\<lambda>_.
     m_bind (open_plan ev plan) (\<lambda>rdrs.
     m_bind (m_lift (restore_image ev rdrs)) (\<lambda>image.
     let to_txid = fi_max_txid (last plan) in
     m_then r_check
     (m_then (m_mod (\<lambda>r. r\<lparr>rp_db := Some image, rp_side := filter (\<lambda>s. s \<noteq> ''-wal'' \<and> s \<noteq> ''-shm'') (rp_side r)\<rparr>))
     (m_then (check_integrity ev)
     (m_then (write_txid_file to_txid)
     (m_ok to_txid)))))))))"

section \<open>Incremental sync\<close>

definition is_not_found :: "error \<Rightarrow> bool" where
  "is_not_found e = (case e of EStorage (NotFound _ _ _) \<Rightarrow> True | _ \<Rightarrow> False)"

text \<open>
  Bridging a gap through one level: the files of the level in order.  The result says whether the
  caller returns at once (\<open>Some saw_404\<close>), and the new position.
\<close>

fun gap_level :: "'s replica_env \<Rightarrow> u32 \<Rightarrow> txid \<Rightarrow> txid \<Rightarrow> file_info list \<Rightarrow> ('s, bool option \<times> txid) rm" where
  "gap_level ev page_size gap_min current [] = m_ok (None, current)"
| "gap_level ev page_size gap_min current (info # infos) =
     (if current + 1 < fi_min_txid info then m_ok (None, current)
      else if fi_max_txid info \<le> current then gap_level ev page_size gap_min current infos
      else m_then r_check
        (m_try (apply_ltx_file ev info page_size) (\<lambda>res.
         case res of
           Ok _ \<Rightarrow>
             (let current = fi_max_txid info in
              if gap_min \<le> current + 1 then m_ok (Some False, current)
              else gap_level ev page_size gap_min current infos)
         | Err e \<Rightarrow> if is_not_found e then m_ok (Some True, current) else m_err e)))"

fun gap_levels :: "'s replica_env \<Rightarrow> u32 \<Rightarrow> txid \<Rightarrow> txid \<Rightarrow> bool \<Rightarrow> u8 list \<Rightarrow> ('s, bool \<times> txid) rm" where
  "gap_levels ev page_size gap_min after saw_404 [] = m_ok (saw_404, after)"
| "gap_levels ev page_size gap_min after saw_404 (level # levels) =
     m_bind (r_list ev level 0) (\<lambda>infos.
     m_bind (gap_level ev page_size gap_min after infos) (\<lambda>(ret, current).
     case ret of
       Some saw \<Rightarrow> m_ok (saw_404 \<or> saw, current)
     | None \<Rightarrow> if after < current then m_ok (saw_404, current)
               else gap_levels ev page_size gap_min after saw_404 levels))"

definition fill_follow_gap :: "'s replica_env \<Rightarrow> u32 \<Rightarrow> txid \<Rightarrow> txid \<Rightarrow> bool \<Rightarrow> ('s, bool \<times> txid) rm" where
  "fill_follow_gap ev page_size after gap_min saw_404 =
     gap_levels ev page_size gap_min after saw_404 [1, 2, 3, 4, 5, 6, 7, 8]"

text \<open>The bucket-wide scan: the greatest transaction and the newest snapshot, level 9 first.\<close>

definition scan_step :: "u8 \<Rightarrow> file_info \<Rightarrow> txid \<times> file_info option \<Rightarrow> txid \<times> file_info option" where
  "scan_step level info acc =
     (case acc of (bucket_max, newest) \<Rightarrow>
       (if bucket_max < fi_max_txid info then fi_max_txid info else bucket_max,
        if level = SNAPSHOT_LEVEL \<and> (case newest of None \<Rightarrow> True | Some s \<Rightarrow> fi_max_txid s < fi_max_txid info)
        then Some info else newest))"

fun scan_bucket :: "'s replica_env \<Rightarrow> u8 list \<Rightarrow> txid \<times> file_info option \<Rightarrow> ('s, txid \<times> file_info option) rm" where
  "scan_bucket ev [] acc = m_ok acc"
| "scan_bucket ev (level # levels) acc =
     m_bind (r_list ev level 0) (\<lambda>infos. scan_bucket ev levels (fold (scan_step level) infos acc))"

definition persist :: "txid \<Rightarrow> txid \<Rightarrow> ('s, txid) rm" where
  "persist from current = (if from < current then m_then (write_txid_file current) (m_ok current) else m_ok current)"

definition finish_incremental :: "'s replica_env \<Rightarrow> txid \<Rightarrow> txid \<Rightarrow> u32 \<Rightarrow> bool \<Rightarrow> ('s, txid) rm" where
  "finish_incremental ev from current page_size allow_snapshot_fallback =
     (if current = from \<and> allow_snapshot_fallback
      then m_bind (scan_bucket ev [9, 8, 7, 6, 5, 4, 3, 2, 1, 0] (0, None)) (\<lambda>(bucket_max, newest_snapshot).
        if txid_is_zero bucket_max then m_ok current
        else if bucket_max < current then m_err (Diverged current bucket_max)
        else case newest_snapshot of
          Some snap \<Rightarrow>
            if current < fi_max_txid snap
            then m_then r_check (m_then (apply_ltx_file ev snap page_size) (persist from (fi_max_txid snap)))
            else persist from current
        | None \<Rightarrow> persist from current)
      else persist from current)"

text \<open>The L0 files in order; \<open>None\<close> as result of the loop means that it ran to its end.\<close>

fun l0_loop ::
  "'s replica_env \<Rightarrow> u32 \<Rightarrow> bool \<Rightarrow> txid \<Rightarrow> file_info list \<Rightarrow> ('s, bool option \<times> bool \<times> txid) rm" where
  "l0_loop ev page_size saw_404 current [] = m_ok (None, saw_404, current)"
| "l0_loop ev page_size saw_404 current (info # infos) =
     m_then r_check
     (m_bind (if current + 1 < fi_min_txid info
              then fill_follow_gap ev page_size current (fi_min_txid info) saw_404
              else m_ok (saw_404, current)) (\<lambda>(saw_404, current').
      if current + 1 < fi_min_txid info \<and> fi_max_txid info \<le> current'
      then l0_loop ev page_size saw_404 current' infos
      else if current + 1 < fi_min_txid info \<and> current' + 1 < fi_min_txid info
      then m_ok (Some (\<not> saw_404), saw_404, current')
      else if fi_max_txid info \<le> current' then l0_loop ev page_size saw_404 current' infos
      else m_try (apply_ltx_file ev info page_size) (\<lambda>res.
        case res of
          Ok _ \<Rightarrow> l0_loop ev page_size saw_404 (fi_max_txid info) infos
        | Err e \<Rightarrow> if is_not_found e then m_ok (Some False, saw_404, current') else m_err e)))"

definition incremental_sync :: "'s replica_env \<Rightarrow> txid \<Rightarrow> ('s, txid) rm" where
  "incremental_sync ev from =
     m_bind m_get (\<lambda>r.
     m_bind (m_lift (ok_or (rp_db r) (EIo no_such_file))) (\<lambda>f.
     m_bind (m_lift (read_page_size f)) (\<lambda>page_size.
     m_bind (r_list ev 0 (from + 1)) (\<lambda>l0.
     m_bind (l0_loop ev page_size False from l0) (\<lambda>(ret, saw_404, current).
     case ret of
       Some allow \<Rightarrow> finish_incremental ev from current page_size allow
     | None \<Rightarrow>
         m_bind (if l0 = [] then fill_follow_gap ev page_size current (current + 1) saw_404
                 else m_ok (saw_404, current)) (\<lambda>(saw_404, current).
         finish_incremental ev from current page_size (\<not> saw_404)))))))"

definition sync_with :: "'s replica_env \<Rightarrow> cancel_token \<Rightarrow> ('s, sync_result) rm" where
  "sync_with ev cancel =
     m_then (r_set_cancel cancel)
     (m_bind m_get (\<lambda>r.
      if rp_db r = None
      then m_bind (full_restore ev) (\<lambda>to.
             m_ok \<lparr>sr_restored = True, sr_from_txid = 0, sr_to_txid = to\<rparr>)
      else m_bind read_txid_file (\<lambda>from.
        if txid_is_zero from
        then if ro_auto_reset (rp_opts r)
             then m_bind (full_restore ev) (\<lambda>to. m_ok \<lparr>sr_restored = True, sr_from_txid = 0, sr_to_txid = to\<rparr>)
             else m_err (Other (''replica exists but has no -txid sidecar; delete '' @ rp_path r @ '' to re-restore''))
        else m_try (incremental_sync ev from) (\<lambda>res.
          case res of
            Ok to \<Rightarrow> m_ok \<lparr>sr_restored = False, sr_from_txid = from, sr_to_txid = to\<rparr>
          | Err (Diverged a b) \<Rightarrow>
              if ro_auto_reset (rp_opts r)
              then m_bind (full_restore ev) (\<lambda>to. m_ok \<lparr>sr_restored = True, sr_from_txid = from, sr_to_txid = to\<rparr>)
              else m_err (Diverged a b)
          | Err e \<Rightarrow> m_err e))))"

definition replica_sync :: "'s replica_env \<Rightarrow> ('s, sync_result) rm" where
  "replica_sync ev = sync_with ev token_new"

section \<open>Following\<close>

definition r_poll :: "('s, bool) rm" where
  "r_poll r = (case token_poll (rp_cancel r) of (b, t) \<Rightarrow> (Ok b, r\<lparr>rp_cancel := t\<rparr>))"

definition SLEEP_SLICE :: nat where "SLEEP_SLICE = 100000000"

text \<open>Sleeping in slices; the clock advances with every slice.\<close>

function sleep_loop :: "nat \<Rightarrow> cancel_token \<Rightarrow> lock_env \<Rightarrow> bool \<times> cancel_token \<times> lock_env" where
  "sleep_loop deadline cancel e =
     (case token_poll cancel of
        (True, cancel) \<Rightarrow> (True, cancel, e)
      | (False, cancel) \<Rightarrow>
          let (now, e) = instant_now e; left = deadline - now in
          if left = 0 then (False, cancel, e)
          else sleep_loop deadline cancel (thread_sleep (min left SLEEP_SLICE) e))"
  by pat_completeness auto
termination
  by (relation "measure (\<lambda>(deadline, cancel, e). deadline - le_now e)")
     (auto simp: instant_now_def thread_sleep_def Let_def SLEEP_SLICE_def)

declare sleep_loop.simps [simp del]

definition sleep_checking :: "nat \<Rightarrow> ('s, bool) rm" where
  "sleep_checking d r =
     (let (now, e) = instant_now (rp_lock r) in
      case sleep_loop (now + d) (rp_cancel r) e of (b, t, e) \<Rightarrow> (Ok b, r\<lparr>rp_cancel := t, rp_lock := e\<rparr>))"

text \<open>How a round ends: \<open>follow\<close> returns, or goes round again with a count of failed attempts.\<close>

datatype round = Stop | Again u32

definition sat_inc :: "u32 \<Rightarrow> u32" where
  "sat_inc a = (if a = 0xFFFFFFFF then a else a + 1)"

definition pause :: "nat \<Rightarrow> u32 \<Rightarrow> ('s, round) rm" where
  "pause d attempt = m_bind (sleep_checking d) (\<lambda>b. m_ok (if b then Stop else Again attempt))"

text \<open>The classification of an error: back off when it is transient and retries are on, else fail.\<close>

definition retry_or_fail :: "follow_options \<Rightarrow> u32 \<Rightarrow> error \<Rightarrow> ('s, round) rm" where
  "retry_or_fail opts attempt e =
     (case fo_retry opts of
        Some delay \<Rightarrow> if is_transient e then pause (delay attempt) (sat_inc attempt) else m_err e
      | None \<Rightarrow> m_err e)"

definition open_db_for_apply :: "('s, u32) rm" where
  "open_db_for_apply =
     m_bind m_get (\<lambda>r. m_bind (m_lift (ok_or (rp_db r) (EIo no_such_file))) (\<lambda>f. m_lift (read_page_size f)))"

text \<open>How a stream session ends: on cancellation, or with the error of the session if there is one.\<close>

datatype session_end = Stopped | Broken "error option"

definition resync_error :: "error \<Rightarrow> bool" where
  "resync_error e = (case e of Diverged _ _ \<Rightarrow> True | ELtx _ \<Rightarrow> True | EStorage _ \<Rightarrow> True | _ \<Rightarrow> False)"

fun stream_loop :: "'s replica_env \<Rightarrow> u32 \<Rightarrow> txid \<Rightarrow> bool \<Rightarrow> stream \<Rightarrow> ('s, session_end \<times> bool) rm" where
  "stream_loop ev page_size pos progress [] =
     m_bind r_poll (\<lambda>b. m_ok (if b then Stopped else Broken None, progress))"
| "stream_loop ev page_size pos progress (nxt # rest) =
     m_bind r_poll (\<lambda>b.
     if b then m_ok (Stopped, progress)
     else case nxt of
       Err e \<Rightarrow> m_ok (Broken (Some (from_storage e)), progress)
     | Ok (EvLtx info, spool) \<Rightarrow>
         if fi_max_txid info \<le> pos then stream_loop ev page_size pos progress rest
         else if \<not> is_contiguous pos (fi_min_txid info) (fi_max_txid info) then m_ok (Broken None, progress)
         else m_try (apply_spooled ev spool page_size) (\<lambda>res.
           case res of
             Ok _ \<Rightarrow> m_then (write_txid_file (fi_max_txid info)) (stream_loop ev page_size (fi_max_txid info) True rest)
           | Err e \<Rightarrow> m_ok (Broken (if resync_error e then None else Some e), progress))
     | Ok (EvIdle bucket_max, _) \<Rightarrow>
         (case bucket_max of
            Some m \<Rightarrow> if \<not> txid_is_zero m \<and> m < pos then m_ok (Broken None, progress)
                      else stream_loop ev page_size pos progress rest
          | None \<Rightarrow> stream_loop ev page_size pos progress rest)
     | Ok (_, _) \<Rightarrow> m_ok (Broken None, progress))"

text \<open>What a round does once its stream is open, and after the stream has ended.\<close>

definition follow_stream :: "'s replica_env \<Rightarrow> follow_options \<Rightarrow> u32 \<Rightarrow> txid \<Rightarrow> bool \<Rightarrow> stream \<Rightarrow> ('s, round) rm" where
  "follow_stream ev opts attempt pos made evs =
     m_try open_db_for_apply (\<lambda>res.
     case res of
       Err e \<Rightarrow> retry_or_fail opts attempt e
     | Ok page_size \<Rightarrow>
         m_bind (stream_loop ev page_size pos made evs) (\<lambda>(fin, made).
         case fin of
           Stopped \<Rightarrow> m_ok Stop
         | Broken err \<Rightarrow>
             let attempt = (if made then 0 else attempt) in
             (case err of
                Some e \<Rightarrow> if e = Cancelled then m_ok Stop else retry_or_fail opts attempt e
              | None \<Rightarrow> if made then m_ok (Again attempt) else pause (fo_poll_interval opts) attempt)))"

definition follow_round :: "'s replica_env \<Rightarrow> follow_options \<Rightarrow> u32 \<Rightarrow> ('s, round) rm" where
  "follow_round ev opts attempt =
     m_bind position (\<lambda>before.
     m_bind m_get (\<lambda>r.
     m_try (sync_with ev (rp_cancel r)) (\<lambda>res.
     case res of
       Err e \<Rightarrow>
         if e = Cancelled then m_ok Stop
         else if e = TxNotAvailable then pause (fo_poll_interval opts) attempt
         else retry_or_fail opts attempt e
     | Ok _ \<Rightarrow>
         let attempt = 0 in
         m_bind position (\<lambda>pos.
         m_bind m_get (\<lambda>r.
         case re_stream ev (rp_client r) (pos + 1) of
           Err e \<Rightarrow> if e = StCancelled then m_ok Stop else retry_or_fail opts attempt (from_storage e)
         | Ok None \<Rightarrow> pause (fo_poll_interval opts) attempt
         | Ok (Some evs) \<Rightarrow> follow_stream ev opts attempt pos (before < pos) evs)))))"

text \<open>
  The loop.  The list gives the bucket as the writer and its maintenance have left it at each round;
  \<open>None\<close> means that the follower is still running after these rounds.
\<close>

fun follow_loop :: "'s replica_env \<Rightarrow> follow_options \<Rightarrow> u32 \<Rightarrow> 's list \<Rightarrow> ('s, unit option) rm" where
  "follow_loop ev opts attempt [] = m_ok None"
| "follow_loop ev opts attempt (bucket # buckets) =
     m_then (m_mod (\<lambda>r. r\<lparr>rp_client := bucket\<rparr>))
     (m_bind r_poll (\<lambda>b.
      if b then m_ok (Some ())
      else m_bind (follow_round ev opts attempt) (\<lambda>nxt.
        case nxt of Stop \<Rightarrow> m_ok (Some ()) | Again attempt \<Rightarrow> follow_loop ev opts attempt buckets)))"

definition follow :: "'s replica_env \<Rightarrow> cancel_token \<Rightarrow> follow_options \<Rightarrow> 's list \<Rightarrow> ('s, unit option) rm" where
  "follow ev cancel opts buckets = m_then (r_set_cancel cancel) (follow_loop ev opts 0 buckets)"

end
