(* ===== verification/ReplicaApply.thy ===== *)
theory ReplicaApply
  imports Replica DirClient
begin

text \<open>
  What applying one file does to the replica (\<open>apply_spooled\<close> in \<open>crates/liters/src/replica.rs\<close>): the
  database file seen as a map from page numbers to pages, the effect of a run of page writes and of
  the truncation on that map, and the proof that an application happens as a whole or not at all.
\<close>

section \<open>The database lx as pages\<close>

definition page_of :: "nat \<Rightarrow> byte list \<Rightarrow> u32 \<Rightarrow> byte list option" where
  "page_of n f k = (if k \<noteq> 0 \<and> unat k * n \<le> length f then Some (take n (drop ((unat k - 1) * n) f)) else None)"

lemma page_of_None: "page_of n f k = None \<longleftrightarrow> k = 0 \<or> length f < unat k * n"
  by (auto simp: page_of_def)

lemma page_range:
  assumes "k \<noteq> 0" shows "(unat k - 1) * n + n = unat k * n"
proof -
  from assms obtain j where "unat k = Suc j" by (cases "unat k") (auto simp: unat_eq_zero)
  then show ?thesis by simp
qed

lemma pages_apart:
  assumes "j \<noteq> k" and "j \<noteq> 0" and "k \<noteq> 0" and "i < (n :: nat)"
  shows "(unat j - 1) * n + i < (unat k - 1) * n \<or> (unat k - 1) * n + n \<le> (unat j - 1) * n + i"
proof -
  from assms(1) consider "unat j < unat k" | "unat k < unat j" by (meson linorder_neqE_nat word_unat_eq_iff)
  then show ?thesis
  proof cases
    case 1
    then have "unat j * n \<le> (unat k - 1) * n" by (intro mult_right_mono) auto
    with page_range [OF assms(2), of n] assms(4) show ?thesis by linarith
  next
    case 2
    then have "unat k * n \<le> (unat j - 1) * n" by (intro mult_right_mono) auto
    with page_range [OF assms(3), of n] show ?thesis by linarith
  qed
qed

lemma page_of_eqI:
  assumes "page_of n f k = Some p" and "unat k * n \<le> length g"
    and "\<And>i. i < n \<Longrightarrow> g ! ((unat k - 1) * n + i) = f ! ((unat k - 1) * n + i)"
  shows "page_of n g k = Some p"
proof -
  have k: "k \<noteq> 0" "unat k * n \<le> length f" and p: "p = take n (drop ((unat k - 1) * n) f)"
    using assms(1) by (auto simp: page_of_def split: if_splits)
  have "take n (drop ((unat k - 1) * n) g) = p"
    unfolding p by (rule nth_equalityI) (use k assms(2,3) page_range [OF k(1), of n] in auto)
  with k(1) assms(2) show ?thesis by (simp add: page_of_def)
qed

lemma write_all_at_length: "length (write_all_at f d off) = max (length f) (off + length d)"
  by (simp add: write_all_at_def)

lemma write_all_at_nth:
  assumes "i < max (length f) (off + length d)"
  shows "write_all_at f d off ! i =
    (if off \<le> i \<and> i < off + length d then d ! (i - off) else if i < length f then f ! i else 0)"
  using assms by (auto simp: write_all_at_def nth_append min_def)

lemma page_of_written:
  assumes "k \<noteq> 0" and "length d = n"
  shows "page_of n (write_all_at f d ((unat k - 1) * n)) k = Some d"
proof -
  have "take n (drop ((unat k - 1) * n) (write_all_at f d ((unat k - 1) * n))) = d"
    by (rule nth_equalityI) (simp_all add: write_all_at_length write_all_at_nth assms(2))
  moreover have "unat k * n \<le> length (write_all_at f d ((unat k - 1) * n))"
    using page_range [OF assms(1), of n] assms(2) by (simp add: write_all_at_length)
  ultimately show ?thesis using assms(1) by (simp add: page_of_def)
qed

lemma page_of_other:
  assumes "page_of n f j = Some p" and "j \<noteq> k" and "k \<noteq> 0" and "length d = n"
  shows "page_of n (write_all_at f d ((unat k - 1) * n)) j = Some p"
proof (rule page_of_eqI [OF assms(1)])
  have j: "j \<noteq> 0" "unat j * n \<le> length f" using assms(1) by (auto simp: page_of_def split: if_splits)
  then show "unat j * n \<le> length (write_all_at f d ((unat k - 1) * n))" by (simp add: write_all_at_length)
  fix i assume i: "i < n"
  then have "(unat j - 1) * n + i < length f" using page_range [OF j(1), of n] j(2) by linarith
  with pages_apart [OF assms(2) j(1) assms(3) i] assms(4)
  show "write_all_at f d ((unat k - 1) * n) ! ((unat j - 1) * n + i) = f ! ((unat j - 1) * n + i)"
    by (subst write_all_at_nth) auto
qed

lemma set_len_length [simp]: "length (set_len f m) = m"
  by (simp add: set_len_def)

lemma page_of_set_len:
  assumes "page_of n f j = Some p" and "unat j \<le> c"
  shows "page_of n (set_len f (c * n)) j = Some p"
proof (rule page_of_eqI [OF assms(1)])
  have j: "j \<noteq> 0" "unat j * n \<le> length f" using assms(1) by (auto simp: page_of_def split: if_splits)
  have c: "unat j * n \<le> c * n" using assms(2) by (intro mult_right_mono) auto
  then show "unat j * n \<le> length (set_len f (c * n))" by simp
  fix i assume "i < n"
  with page_range [OF j(1), of n] j(2) c have "(unat j - 1) * n + i < min (length f) (c * n)" by linarith
  then show "set_len f (c * n) ! ((unat j - 1) * n + i) = f ! ((unat j - 1) * n + i)" by (simp add: set_len_def nth_append)
qed

text \<open>Page 1 up to the bytes the replica rewrites: the journal mode and the change counter.\<close>

definition mask_page :: "u32 \<Rightarrow> byte list \<Rightarrow> byte list" where
  "mask_page k p = (if k = 1 \<and> 28 \<le> length p then present_page 0 p else p)"

definition masked :: "database \<Rightarrow> database" where
  "masked db k = map_option (mask_page k) (db k)"

lemma present_page_length: "28 \<le> length p \<Longrightarrow> length (present_page r p) = length p"
  by (simp add: present_page_def Let_def)

lemma present_page_nth:
  assumes "28 \<le> length p" and "i < length p"
  shows "present_page r p ! i =
    (if i = 18 \<or> i = 19 then 1 else if 24 \<le> i \<and> i < 28 then to_be 4 r ! (i - 24) else p ! i)"
  using assms by (auto simp: present_page_def Let_def nth_append nth_list_update)

lemma present_page_twice: "28 \<le> length p \<Longrightarrow> present_page r (present_page r' p) = present_page r p"
  by (rule nth_equalityI) (simp_all add: present_page_length present_page_nth)

lemma mask_presented: "28 \<le> length p \<Longrightarrow> mask_page 1 (present_page r p) = mask_page 1 p"
  by (simp add: mask_page_def present_page_length present_page_twice)

section \<open>Writing the pages of a lx\<close>

fun write_list :: "nat \<Rightarrow> (u32 \<times> byte list) list \<Rightarrow> byte list \<Rightarrow> (nat \<Rightarrow> u32) \<Rightarrow> byte list \<times> (nat \<Rightarrow> u32)" where
  "write_list n [] f rnd = (f, rnd)"
| "write_list n ((k, data) # ps) f rnd =
     (let fix = k = 1 \<and> 28 \<le> length data in
      write_list n ps (write_all_at f (if fix then present_page (rnd 0) data else data) ((unat k - 1) * n))
        (if fix then (\<lambda>i. rnd (Suc i)) else rnd))"

lemma apply_pages_write_list:
  assumes "decode_pages x d n = Ok (ps, d')"
  shows "apply_pages x n d f rnd = (case write_list n ps f rnd of (f', rnd') \<Rightarrow> (Ok d', f', rnd'))"
  using assms
proof (induction x d n arbitrary: ps f rnd rule: decode_pages.induct)
  case (1 x d n)
  from "1.prems" obtain p d1 where step: "decode_page x d n = Ok (p, d1)"
    by (subst (asm) decode_pages.simps) (auto simp: and_then_eq_Ok)
  show ?case
  proof (cases p)
    case None
    with step "1.prems" have "ps = []" "d' = d1" by (auto simp: decode_pages.simps [of x d])
    with step None show ?thesis by (subst apply_pages.simps) simp
  next
    case (Some hp)
    obtain hdr data where hp: "hp = (hdr, data)" by fastforce
    from step Some hp "1.prems" obtain qs where qs: "decode_pages x d1 n = Ok (qs, d')" "ps = (ph_pgno hdr, data) # qs"
      by (subst (asm) decode_pages.simps) (auto simp: and_then_eq_Ok)
    show ?thesis using "1.IH" [OF step refl Some hp [symmetric] qs(1)] step Some hp qs(2)
      by (subst apply_pages.simps) (simp add: Let_def)
  qed
qed

lemma write_list_keep:
  assumes "write_list n ps f rnd = (f', rnd')" and "\<forall>p \<in> set ps. fst p \<noteq> 0 \<and> length (snd p) = n"
    and "k \<notin> fst ` set ps" and "page_of n f k = Some p"
  shows "page_of n f' k = Some p"
  using assms
proof (induction ps arbitrary: f rnd)
  case (Cons q ps)
  obtain j d where q: "q = (j, d)" by fastforce
  let ?d = "if j = 1 \<and> 28 \<le> length d then present_page (rnd 0) d else d"
  from Cons.prems(1) obtain rnd1 where run: "write_list n ps (write_all_at f ?d ((unat j - 1) * n)) rnd1 = (f', rnd')"
    by (auto simp: q Let_def split: if_splits)
  have "length ?d = n" "j \<noteq> 0" "k \<noteq> j" using Cons.prems by (auto simp: q present_page_length)
  with Cons.prems show ?case by (intro Cons.IH [OF run] page_of_other) (auto simp: q)
qed simp

lemma write_list_shown:
  assumes "write_list n ps f rnd = (f', rnd')" and "\<forall>p \<in> set ps. fst p \<noteq> 0 \<and> length (snd p) = n"
    and "distinct (map fst ps)"
  shows "k \<in> fst ` set ps \<Longrightarrow> masked (page_of n f') k = masked (map_of ps) k"
    and "k \<notin> fst ` set ps \<Longrightarrow> page_of n f k = Some p \<Longrightarrow> page_of n f' k = Some p"
proof -
  show "k \<notin> fst ` set ps \<Longrightarrow> page_of n f k = Some p \<Longrightarrow> page_of n f' k = Some p" by (rule write_list_keep [OF assms(1,2)])
  show "masked (page_of n f') k = masked (map_of ps) k" if "k \<in> fst ` set ps"
    using assms that
  proof (induction ps arbitrary: f rnd)
    case (Cons q ps)
    obtain j d where q: "q = (j, d)" by fastforce
    let ?d = "if j = 1 \<and> 28 \<le> length d then present_page (rnd 0) d else d"
    from Cons.prems(1) obtain rnd1 where run: "write_list n ps (write_all_at f ?d ((unat j - 1) * n)) rnd1 = (f', rnd')"
      by (auto simp: q Let_def split: if_splits)
    show ?case
    proof (cases "k = j")
      case True
      have d: "length ?d = n" "j \<noteq> 0" using Cons.prems(2) by (auto simp: q present_page_length)
      have "page_of n f' k = Some ?d"
        unfolding True
        by (rule write_list_keep [OF run _ _ page_of_written [OF d(2,1)]]) (use Cons.prems q True in auto)
      then show ?thesis using True mask_presented [of d] by (auto simp: masked_def q)
    next
      case False
      with Cons.prems have "masked (page_of n f') k = masked (map_of ps) k" by (intro Cons.IH [OF run]) (auto simp: q)
      with False show ?thesis by (simp add: masked_def q)
    qed
  qed simp
qed

section \<open>All or nothing\<close>

text \<open>The part of the replica no application touches, and the ranges it may lock.\<close>

definition unlocked :: "'s replica \<Rightarrow> bool" where
  "unlocked r \<longleftrightarrow> PENDING_RANGE \<notin> set (le_held (rp_lock r)) \<and> SHARED_RANGE \<notin> set (le_held (rp_lock r))"

definition frame :: "'s replica \<Rightarrow> string \<times> string option \<times> string list \<times> 's \<times> replica_options" where
  "frame r = (rp_path r, rp_txid r, rp_side r, rp_client r, rp_opts r)"

lemma frame_simps [simp]:
  "frame (r\<lparr>rp_db := a\<rparr>) = frame r" "frame (r\<lparr>rp_cancel := b\<rparr>) = frame r"
  "frame (r\<lparr>rp_rand := c\<rparr>) = frame r" "frame (r\<lparr>rp_lock := d\<rparr>) = frame r"
  by (simp_all add: frame_def)

lemma r_lock_cases:
  assumes "r_lock r = (res, r1)"
  shows "frame r1 = frame r" "rp_db r1 = rp_db r" "rp_rand r1 = rp_rand r"
    and "unlocked r \<Longrightarrow> unlocked (snd (r_unlock r1))" and "unlocked r \<Longrightarrow> res = Err e \<Longrightarrow> unlocked r1"
proof -
  obtain v t e1 where l: "lock_exclusive (ro_lock_timeout (rp_opts r)) (rp_cancel r) (rp_lock r) = (v, t, e1)"
    by (metis prod_cases3)
  from assms show "frame r1 = frame r" "rp_db r1 = rp_db r" "rp_rand r1 = rp_rand r"
    by (auto simp: r_lock_def l split: if_splits)
  show "unlocked r \<Longrightarrow> unlocked (snd (r_unlock r1))"
    using assms by (auto simp: r_lock_def l r_unlock_def unlocked_def lock_drop_def split: if_splits)
  show "unlocked r1" if "unlocked r" "res = Err e"
  proof -
    have "v = Err e" "rp_lock r1 = e1" using assms that(2) by (auto simp: r_lock_def l split: if_splits)
    then show ?thesis using lock_exclusive_spec [OF l] that(1) by (auto simp: unlocked_def)
  qed
qed

lemma r_unlock_same [simp]:
  "fst (r_unlock r) = Ok ()" "frame (snd (r_unlock r)) = frame r" "rp_db (snd (r_unlock r)) = rp_db r"
  by (simp_all add: r_unlock_def)

lemma verify_decode_file:
  assumes "decoder_verify x b = Ok v"
  shows "\<exists>lx. decode_file x b = Ok lx"
  using assms by (auto simp: decoder_verify_def decode_file_def and_then_eq_Ok)

text \<open>The file after an application: the pages written, then the size set.\<close>

definition patched :: "ltx_file \<Rightarrow> byte list \<Rightarrow> (nat \<Rightarrow> u32) \<Rightarrow> byte list" where
  "patched lx f rnd =
     (let n = unat (h_page_size (f_header lx)); c = h_commit (f_header lx); f = fst (write_list n (f_pages lx) f rnd) in
      if 0 < c then set_len f (unat c * n) else f)"

lemma write_pages_run:
  assumes lf: "decode_file (re_x ev) spool = Ok lx" and dec: "decode_header (decoder_new spool) = Ok dec"
    and ps: "h_page_size (f_header lx) = page_size" and run: "write_pages ev dec page_size r = (res, r')"
  shows "rp_db r = None \<and> (\<exists>e. res = Err e) \<and> r' = r \<or>
    (\<exists>f rnd'. rp_db r = Some f \<and> res = Ok () \<and> r' = r\<lparr>rp_db := Some (patched lx f (rp_rand r)), rp_rand := rnd'\<rparr>)"
proof (cases "rp_db r")
  case None
  with run show ?thesis by (auto simp: write_pages_def)
next
  case (Some f)
  from decode_file_OkD [OF lf] dec obtain d' r1 idx where d: "d_header dec = f_header lx"
    "decode_pages (re_x ev) dec (unat page_size) = Ok (f_pages lx, d')"
    "decoder_finish (re_x ev) d' = Ok (r1, f_header lx, f_trailer lx, idx)" using ps by auto
  obtain f1 rnd1 where w: "write_list (unat page_size) (f_pages lx) f (rp_rand r) = (f1, rnd1)" by fastforce
  from run Some d apply_pages_write_list [OF d(2), of f "rp_rand r"] w ps show ?thesis
    by (auto simp: write_pages_def Let_def patched_def)
qed

text \<open>A run of \<open>apply_spooled\<close>: nothing has changed in the database file, or the whole file is applied.\<close>

lemma apply_spooled_run:
  assumes "apply_spooled ev spool page_size r = (res, r')"
  shows "frame r' = frame r" and "unlocked r \<Longrightarrow> unlocked r'"
    and "(\<exists>e. res = Err e) \<and> rp_db r' = rp_db r \<or>
      (\<exists>lx f rnd. res = Ok () \<and> decode_file (re_x ev) spool = Ok lx \<and> h_page_size (f_header lx) = page_size \<and>
         rp_db r = Some f \<and> rp_db r' = Some (patched lx f rnd))"
proof -
  have "frame r' = frame r \<and> (unlocked r \<longrightarrow> unlocked r') \<and> ((\<exists>e. res = Err e) \<and> rp_db r' = rp_db r \<or>
      (\<exists>lx f rnd. res = Ok () \<and> decode_file (re_x ev) spool = Ok lx \<and> h_page_size (f_header lx) = page_size \<and>
         rp_db r = Some f \<and> rp_db r' = Some (patched lx f rnd)))"
  proof (cases "decoder_verify (re_x ev) spool")
    case (Err e)
    with assms show ?thesis by (auto simp: apply_spooled_def)
  next
    case (Ok v)
    then obtain lx where lf: "decode_file (re_x ev) spool = Ok lx" using verify_decode_file by blast
    then obtain dec where dec: "decode_header (decoder_new spool) = Ok dec" "d_header dec = f_header lx"
      using decode_file_OkD by blast
    show ?thesis
    proof (cases "h_page_size (f_header lx) = page_size")
      case False
      with assms Ok dec show ?thesis by (auto simp: apply_spooled_def Let_def)
    next
      case True
      obtain lres r1 where l: "r_lock r = (lres, r1)" by fastforce
      note lc = r_lock_cases [OF l]
      obtain w r2 where w: "write_pages ev dec page_size r1 = (w, r2)" by fastforce
      have *: "apply_spooled ev spool page_size r = (case lres of Err e \<Rightarrow> (Err e, r1) | Ok _ \<Rightarrow> (w, snd (r_unlock r2)))"
        using Ok dec True l w
        by (auto simp: apply_spooled_def Let_def m_bind_def m_try_def r_unlock_def split: result.splits)
      have ul: "unlocked (snd (r_unlock (r1\<lparr>rp_db := a, rp_rand := b\<rparr>))) = unlocked (snd (r_unlock r1))" for a b
        by (simp add: r_unlock_def unlocked_def)
      show ?thesis
      proof (cases lres)
        case (Err e)
        with assms * lc show ?thesis by auto
      next
        case Ok: (Ok u)
        then have r': "res = w" "r' = snd (r_unlock r2)" using assms * by auto
        from write_pages_run [OF lf dec(1) True w] show ?thesis
          using lc lf True ul by (auto simp: r')
      qed
    qed
  qed
  then show "frame r' = frame r" and "unlocked r \<Longrightarrow> unlocked r'"
    and "(\<exists>e. res = Err e) \<and> rp_db r' = rp_db r \<or>
      (\<exists>lx f rnd. res = Ok () \<and> decode_file (re_x ev) spool = Ok lx \<and> h_page_size (f_header lx) = page_size \<and>
         rp_db r = Some f \<and> rp_db r' = Some (patched lx f rnd))" by auto
qed

text \<open>The pages of the patched file.\<close>

lemma patched_pages:
  assumes "decode_file x b = Ok lx" and "distinct (map fst (f_pages lx))" and "0 < h_commit (f_header lx)"
    and n: "n = unat (h_page_size (f_header lx))"
  shows "length (patched lx f rnd) = unat (h_commit (f_header lx)) * n"
    and "k \<le> h_commit (f_header lx) \<Longrightarrow> map_of (f_pages lx) k = Some p \<Longrightarrow>
      masked (page_of n (patched lx f rnd)) k = Some (mask_page k p)"
    and "k \<le> h_commit (f_header lx) \<Longrightarrow> map_of (f_pages lx) k = None \<Longrightarrow> page_of n f k = Some q \<Longrightarrow>
      page_of n (patched lx f rnd) k = Some q"
proof -
  obtain f1 rnd1 where w: "write_list n (f_pages lx) f rnd = (f1, rnd1)" by fastforce
  from decode_file_OkD [OF assms(1)] obtain d d' where "d_state d = DecPage" "decode_pages x d n = Ok (f_pages lx, d')"
    by (auto simp: n)
  then have pages: "\<forall>p \<in> set (f_pages lx). fst p \<noteq> 0 \<and> length (snd p) = n" using decode_pages_OkD by blast
  have eq: "patched lx f rnd = set_len f1 (unat (h_commit (f_header lx)) * n)"
    using w assms(3) by (simp add: patched_def n [symmetric])
  then show "length (patched lx f rnd) = unat (h_commit (f_header lx)) * n" by simp
  note ws = write_list_shown [OF w pages assms(2)]
  show "masked (page_of n (patched lx f rnd)) k = Some (mask_page k p)"
    if "k \<le> h_commit (f_header lx)" "map_of (f_pages lx) k = Some p"
  proof -
    have "k \<in> fst ` set (f_pages lx)" using map_of_SomeD [OF that(2)] by force
    note ws(1) [OF this]
    with that(2) obtain p' where "page_of n f1 k = Some p'" "mask_page k p' = mask_page k p"
      by (auto simp: masked_def)
    with page_of_set_len [OF this(1)] that(1) show ?thesis by (simp add: eq masked_def word_le_nat_alt)
  qed
  show "page_of n (patched lx f rnd) k = Some q"
    if "k \<le> h_commit (f_header lx)" "map_of (f_pages lx) k = None" "page_of n f k = Some q"
  proof -
    have "page_of n f1 k = Some q" by (rule ws(2)) (use that(2,3) in \<open>auto simp: map_of_eq_None_iff\<close>)
    with page_of_set_len that(1) show ?thesis by (simp add: eq word_le_nat_alt)
  qed
qed

text \<open>
  What the application of a file makes of the pages of a database: every page of the file replaces the old one, the
  last copy counts, and the pages behind the commit size are cut off unless the file commits to no size at all.  For files
  with every page once and a commit size this is \<open>apply_file\<close>.
\<close>

definition page_overlay :: "database \<Rightarrow> ltx_file \<Rightarrow> database" where
  "page_overlay db lx =
     (let m = db ++ map_of (rev (f_pages lx)) in
      if 0 < h_commit (f_header lx) then m |` {..h_commit (f_header lx)} else m)"

definition size_after :: "nat \<Rightarrow> nat \<Rightarrow> ltx_file \<Rightarrow> nat" where
  "size_after n len lx =
     (if 0 < h_commit (f_header lx) then unat (h_commit (f_header lx)) * n
      else foldl (\<lambda>m p. max m (unat (fst p) * n)) len (f_pages lx))"

lemma distinct_map_of_rev: "distinct (map fst ps) \<Longrightarrow> map_of (rev ps) = map_of ps"
  by (rule map_of_eqI) (auto simp: rev_map [symmetric] map_of_eq_Some_iff)

lemma page_overlay_apply_file:
  "distinct (map fst (f_pages lx)) \<Longrightarrow> 0 < h_commit (f_header lx) \<Longrightarrow> page_overlay db lx = apply_file db lx"
  by (simp add: page_overlay_def apply_file_def Let_def distinct_map_of_rev)

lemma write_list_last:
  assumes "write_list n ps f rnd = (f', rnd')" and "\<forall>p \<in> set ps. fst p \<noteq> 0 \<and> length (snd p) = n"
  shows "k \<in> fst ` set ps \<Longrightarrow> masked (page_of n f') k = masked (map_of (rev ps)) k"
    and "length f' = foldl (\<lambda>m p. max m (unat (fst p) * n)) (length f) ps"
proof -
  have "(k \<in> fst ` set ps \<longrightarrow> masked (page_of n f') k = masked (map_of (rev ps)) k) \<and>
      length f' = foldl (\<lambda>m p. max m (unat (fst p) * n)) (length f) ps"
    using assms
  proof (induction ps arbitrary: f rnd)
    case (Cons q ps)
    obtain j d where q: "q = (j, d)" by fastforce
    let ?d = "if j = 1 \<and> 28 \<le> length d then present_page (rnd 0) d else d"
    let ?f = "write_all_at f ?d ((unat j - 1) * n)"
    from Cons.prems(1) obtain rnd1 where run: "write_list n ps ?f rnd1 = (f', rnd')"
      by (auto simp: q Let_def split: if_splits)
    have d: "length ?d = n" "j \<noteq> 0" using Cons.prems(2) by (auto simp: q present_page_length)
    have ps: "\<forall>p \<in> set ps. fst p \<noteq> 0 \<and> length (snd p) = n" using Cons.prems(2) by simp
    have len: "length ?f = max (length f) (unat j * n)" using page_range [OF d(2), of n] d(1) by (simp add: write_all_at_length)
    have "masked (page_of n f') k = masked (map_of (rev (q # ps))) k" if k: "k \<in> fst ` set (q # ps)"
    proof (cases "k \<in> fst ` set ps")
      case True
      then have "map_of (rev ps) k \<noteq> None" by (simp add: map_of_eq_None_iff)
      with Cons.IH [OF run ps] True show ?thesis by (auto simp: masked_def map_add_def)
    next
      case False
      then have kj: "k = j" using k q by simp
      have "page_of n f' k = Some ?d"
        by (rule write_list_keep [OF run ps False]) (use page_of_written [OF d(2,1)] kj in simp)
      moreover have "map_of (rev ps) k = None" using False by (simp add: map_of_eq_None_iff)
      ultimately show ?thesis using kj mask_presented [of d] by (auto simp: masked_def q map_add_def)
    qed
    then show ?case using Cons.IH [OF run ps] len q by simp
  qed simp
  then show "k \<in> fst ` set ps \<Longrightarrow> masked (page_of n f') k = masked (map_of (rev ps)) k"
    and "length f' = foldl (\<lambda>m p. max m (unat (fst p) * n)) (length f) ps" by auto
qed

lemma patched_overlay:
  assumes "decode_file x b = Ok lx" and n: "n = unat (h_page_size (f_header lx))"
  shows "length (patched lx f rnd) = size_after n (length f) lx"
    and "masked (page_overlay (page_of n f) lx) \<subseteq>\<^sub>m masked (page_of n (patched lx f rnd))"
proof -
  let ?c = "h_commit (f_header lx)"
  obtain f1 rnd1 where w: "write_list n (f_pages lx) f rnd = (f1, rnd1)" by fastforce
  from decode_file_OkD [OF assms(1)] obtain d d' where "d_state d = DecPage" "decode_pages x d n = Ok (f_pages lx, d')"
    by (auto simp: n)
  then have pages: "\<forall>p \<in> set (f_pages lx). fst p \<noteq> 0 \<and> length (snd p) = n" using decode_pages_OkD by blast
  have eq: "patched lx f rnd = (if 0 < ?c then set_len f1 (unat ?c * n) else f1)"
    using w by (simp add: patched_def n [symmetric])
  note wl = write_list_last [OF w pages]
  show "length (patched lx f rnd) = size_after n (length f) lx" using wl(2) by (simp add: eq size_after_def)
  have shown: "\<exists>p'. page_of n f1 k = Some p' \<and> mask_page k p' = mask_page k p"
    if "(page_of n f ++ map_of (rev (f_pages lx))) k = Some p" for k p
  proof (cases "k \<in> fst ` set (f_pages lx)")
    case True
    then have "map_of (rev (f_pages lx)) k \<noteq> None" by (simp add: map_of_eq_None_iff)
    with that wl(1) [OF True] show ?thesis by (auto simp: masked_def map_add_def)
  next
    case False
    then have "map_of (rev (f_pages lx)) k = None" by (simp add: map_of_eq_None_iff)
    with that write_list_keep [OF w pages False] show ?thesis by (auto simp: map_add_def)
  qed
  show "masked (page_overlay (page_of n f) lx) \<subseteq>\<^sub>m masked (page_of n (patched lx f rnd))"
    unfolding map_le_def
  proof
    fix k assume "k \<in> dom (masked (page_overlay (page_of n f) lx))"
    then obtain p where p: "page_overlay (page_of n f) lx k = Some p" by (auto simp: masked_def)
    then obtain p' where p': "page_of n f1 k = Some p'" "mask_page k p' = mask_page k p"
      using shown [of k p] by (auto simp: page_overlay_def Let_def restrict_map_def split: if_splits)
    have "0 < ?c \<Longrightarrow> unat k \<le> unat ?c" using p by (auto simp: page_overlay_def Let_def restrict_map_def word_le_nat_alt split: if_splits)
    then have "page_of n (patched lx f rnd) k = Some p'" using p'(1) page_of_set_len by (simp add: eq)
    with p p'(2) show "masked (page_overlay (page_of n f) lx) k = masked (page_of n (patched lx f rnd)) k" by (simp add: masked_def)
  qed
qed

text \<open>C18: an application happens as a whole or not at all.  Whatever \<open>apply_spooled\<close> returns, the lock on
  the file is released and position, side files and bucket are as before.  When it fails (a corrupt
  file, another page size, a busy lock, a cancellation) the database file is as before.  When it
  succeeds the spooled file is intact, and the database file holds, up to the rewritten bytes of page 1, the old
  pages overlaid with the pages of the file, the last copy of a page winning.  It has the size the file commits
  to; a file that commits to no size cuts nothing off and can only make the database longer.  For a file with every page
  once and a commit size the result is the abstract application that compactions preserve.\<close>

theorem apply_all_or_nothing:
  assumes "apply_spooled ev spool page_size r = (res, r')" and "unlocked r"
  shows "unlocked r' \<and> frame r' = frame r \<and>
    (case res of
       Err e \<Rightarrow> rp_db r' = rp_db r
     | Ok _ \<Rightarrow> \<exists>lx f f'. decode_file (re_x ev) spool = Ok lx \<and> h_page_size (f_header lx) = page_size \<and>
         rp_db r = Some f \<and> rp_db r' = Some f' \<and>
         length f' = size_after (unat page_size) (length f) lx \<and>
         masked (page_overlay (page_of (unat page_size) f) lx) \<subseteq>\<^sub>m masked (page_of (unat page_size) f') \<and>
         (distinct (map fst (f_pages lx)) \<and> 0 < h_commit (f_header lx) \<longrightarrow>
            page_overlay (page_of (unat page_size) f) lx = apply_file (page_of (unat page_size) f) lx))"
proof -
  note run = apply_spooled_run [OF assms(1)]
  from run(3) show ?thesis
  proof (elim disjE exE conjE)
    fix e assume "res = Err e" "rp_db r' = rp_db r"
    with run(1,2) assms(2) show ?thesis by simp
  next
    fix lx f rnd
    assume ok: "res = Ok ()" and dec: "decode_file (re_x ev) spool = Ok lx" and ps: "h_page_size (f_header lx) = page_size"
      and db: "rp_db r = Some f" "rp_db r' = Some (patched lx f rnd)"
    note p = patched_overlay [OF dec refl, where f = f and rnd = rnd, unfolded ps]
    show ?thesis unfolding ok result.case
      using run(1,2) assms(2) dec ps db p page_overlay_apply_file [of lx] by blast
  qed
qed

text \<open>A replica at transaction 1 whose reader holds the file for a while, and the second file of the chain.\<close>

definition demo_page1 :: "byte list" where
  "demo_page1 = replicate 16 0 @ [2, 0] @ replicate 494 0"

definition demo_replica :: "'s \<Rightarrow> 's replica" where
  "demo_replica s = replica_open ''app.db'' (Some (demo_page1 @ replicate 512 6)) (Some (txid_display 1 @ [CHR 0x0A])) [] s
     replica_options_default (\<lambda>i. 9) demo_lock_env"

definition demo_replica_env :: "'s client \<Rightarrow> 's replica_env" where
  "demo_replica_env c = \<lparr>re_x = demo_externs, re_client = c, re_integrity = (\<lambda>pragma db. Ok ''ok''), re_stream = (\<lambda>s t. Ok None)\<rparr>"

lemma demo_replica_lock: "\<exists>r1. r_lock (demo_replica s) = (Ok (), r1) \<and> rp_db r1 = rp_db (demo_replica s)"
proof -
  have "fst (lock_exclusive 5000000000 Never demo_lock_env) = Ok ()"
    by (simp add: lock_exclusive_def acquire_write_lock_def demo_lock_env_def instant_now_def set_fcntl_lock_def thread_sleep_def
        acquire_loop.simps LOCK_TIMEOUT_MAX_def LOCK_POLL_MIN_def LOCK_POLL_MAX_def)
  then show ?thesis
    by (auto simp: r_lock_def demo_replica_def replica_open_def replica_options_default_def token_new_def split: prod.split)
qed

lemma apply_spooled_Ok:
  assumes "decode_file (re_x ev) spool = Ok lx" and "h_page_size (f_header lx) = page_size"
    and "r_lock r = (Ok (), r1)" and "rp_db r1 = Some f"
  shows "fst (apply_spooled ev spool page_size r) = Ok ()"
proof -
  from decode_file_OkD [OF assms(1)] obtain dec d' r' idx where d: "decode_header (decoder_new spool) = Ok dec" "d_header dec = f_header lx"
    "decode_pages (re_x ev) dec (unat page_size) = Ok (f_pages lx, d')"
    "decoder_finish (re_x ev) d' = Ok (r', f_header lx, f_trailer lx, idx)" using assms(2) by auto
  then have v: "decoder_verify (re_x ev) spool = Ok (f_header lx, f_trailer lx, idx)"
    using assms(2) by (simp add: decoder_verify_def)
  obtain w r2 where w: "write_pages ev dec page_size r1 = (w, r2)" by fastforce
  with write_pages_run [OF assms(1) d(1) assms(2) w] assms(4) have "w = Ok ()" by auto
  with v d assms(2,3) w show ?thesis by (simp add: apply_spooled_def Let_def m_bind_def m_try_def r_unlock_def)
qed

lemma demo_decode2: "decode_file demo_externs (demo_readers ! 1) = Ok (demo_files ! 1)"
  using demo_decode_files by (simp add: demo_readers_def demo_files_def)

theorem apply_all_or_nothing_witness:
  "\<exists>r' f'. apply_spooled (demo_replica_env (dir_client [])) (demo_readers ! 1) 512 (demo_replica []) = (Ok (), r') \<and> unlocked r' \<and>
     rp_db r' = Some f' \<and> length f' = 1024 \<and>
     masked (apply_file (page_of 512 (demo_page1 @ replicate 512 6)) (demo_files ! 1)) \<subseteq>\<^sub>m masked (page_of 512 f')"
proof -
  let ?ev = "demo_replica_env (dir_client [])" and ?r = "demo_replica ([] :: file_system)"
  have h: "h_page_size (f_header (demo_files ! 1)) = 512" "h_commit (f_header (demo_files ! 1)) = 2"
    "distinct (map fst (f_pages (demo_files ! 1)))"
    by (simp_all add: demo_files_def demo_header2_def demo_pages2_def)
  have dec: "decode_file (re_x ?ev) (demo_readers ! 1) = Ok (demo_files ! 1)" using demo_decode2 by (simp add: demo_replica_env_def)
  have db: "rp_db ?r = Some (demo_page1 @ replicate 512 6)" by (simp add: demo_replica_def replica_open_def)
  from demo_replica_lock [of "[] :: file_system"] obtain r1 where lk: "r_lock ?r = (Ok (), r1)" "rp_db r1 = rp_db ?r" by auto
  from apply_spooled_Ok [OF dec h(1) lk(1)] lk(2) db have "fst (apply_spooled ?ev (demo_readers ! 1) 512 ?r) = Ok ()" by simp
  then obtain r' where run: "apply_spooled ?ev (demo_readers ! 1) 512 ?r = (Ok (), r')" by (metis prod.collapse)
  have u: "unlocked ?r" by (simp add: unlocked_def demo_replica_def replica_open_def demo_lock_env_def)
  from apply_all_or_nothing [OF run u] dec db h obtain f' where "unlocked r'" "rp_db r' = Some f'" "length f' = 1024"
    "masked (apply_file (page_of 512 (demo_page1 @ replicate 512 6)) (demo_files ! 1)) \<subseteq>\<^sub>m masked (page_of 512 f')"
    by (auto simp: size_after_def)
  with run show ?thesis by blast
qed

end
