(* ===== verification/ReplicaProps.thy ===== *)
theory ReplicaProps
  imports ReplicaApply DirClient
begin

text \<open>
  The replica against the history of its database.  A history gives the pages of the database after
  every transaction; a file of the bucket is faithful to it when it holds every page that changed in
  its range.  The file of a replica that has been interrupted lies between two states of the history;
  syncing keeps it there, moves the lower bound to the recorded position and, once that reaches the
  upper bound, leaves exactly a state of the history.
\<close>

section \<open>Histories\<close>

type_synonym history = "txid \<Rightarrow> database"

text \<open>The pages that hold content: all but the lock page.\<close>

definition content_page :: "u32 \<Rightarrow> u32 \<Rightarrow> bool" where
  "content_page ps k \<longleftrightarrow> k \<noteq> 0 \<and> k \<noteq> lock_pgno ps"

definition is_history :: "u32 \<Rightarrow> history \<Rightarrow> bool" where
  "is_history ps H \<longleftrightarrow> is_valid_page_size ps \<and> (\<forall>k. H 0 k = None) \<and>
     (\<forall>s. s \<noteq> 0 \<longrightarrow> (\<exists>p. H s 1 = Some p \<and> length p = unat ps \<and> read_page_size p = Ok ps))"

definition faithful :: "u32 \<Rightarrow> history \<Rightarrow> txid \<Rightarrow> txid \<Rightarrow> ltx_file \<Rightarrow> bool" where
  "faithful ps H a b lx \<longleftrightarrow>
     h_page_size (f_header lx) = ps \<and> 0 < h_commit (f_header lx) \<and> ascending (f_pages lx) \<and>
     (\<forall>k. content_page ps k \<longrightarrow>
        (H b k \<noteq> None \<longleftrightarrow> k \<le> h_commit (f_header lx)) \<and>
        (k \<le> h_commit (f_header lx) \<longrightarrow>
          (case map_of (f_pages lx) k of
             Some p \<Rightarrow> H b k = Some p
           | None \<Rightarrow> \<forall>s. unat a \<le> unat s + 1 \<and> s \<le> b \<longrightarrow> H s k = H b k)))"

text \<open>
  A database file between the states \<open>t\<close> and \<open>m\<close>: its size is the size of one of these states, and
  every page is the page of one of them or is cut off in one of them.
\<close>

definition between :: "u32 \<Rightarrow> history \<Rightarrow> txid \<Rightarrow> txid \<Rightarrow> byte list \<Rightarrow> bool" where
  "between ps H t m f \<longleftrightarrow>
     (\<exists>s. t \<le> s \<and> s \<le> m \<and> (\<forall>k. content_page ps k \<longrightarrow> (page_of (unat ps) f k = None \<longleftrightarrow> H s k = None))) \<and>
     (\<forall>k. content_page ps k \<longrightarrow>
        (\<exists>s. t \<le> s \<and> s \<le> m \<and> (masked (page_of (unat ps) f) k = masked (H s) k \<or> H s k = None)))"

definition exactly :: "u32 \<Rightarrow> database \<Rightarrow> byte list \<Rightarrow> bool" where
  "exactly ps db f \<longleftrightarrow> (\<forall>k. content_page ps k \<longrightarrow> masked (page_of (unat ps) f) k = masked db k)"

lemma masked_None: "masked db k = None \<longleftrightarrow> db k = None"
  by (simp add: masked_def)

lemma between_exactly: "between ps H t t f \<longleftrightarrow> exactly ps (H t) f"
proof
  assume b: "between ps H t t f"
  have "masked (page_of (unat ps) f) k = masked (H t) k" if "content_page ps k" for k
  proof -
    from b that have "page_of (unat ps) f k = None \<longleftrightarrow> H t k = None"
      "masked (page_of (unat ps) f) k = masked (H t) k \<or> H t k = None"
      by (auto simp: between_def dest: order.antisym)
    then show ?thesis by (auto simp: masked_def)
  qed
  then show "exactly ps (H t) f" by (simp add: exactly_def)
next
  assume e: "exactly ps (H t) f"
  then have "content_page ps k \<Longrightarrow> page_of (unat ps) f k = None \<longleftrightarrow> H t k = None" for k
    unfolding exactly_def by (metis masked_None)
  with e show "between ps H t t f" unfolding between_def exactly_def by blast
qed

lemma between_weaken: "between ps H b m f \<Longrightarrow> a \<le> b \<Longrightarrow> m \<le> m' \<Longrightarrow> between ps H a m' f"
  unfolding between_def by (meson order.trans)

lemma between_le: "between ps H t m f \<Longrightarrow> t \<le> m"
  unfolding between_def by (meson order.trans)

lemma ascending_distinct: "ascending ps \<Longrightarrow> distinct (map fst ps)"
  unfolding ascending_def by (simp add: strict_sorted_iff)

lemma decode_header_valid: "decode_header d = Ok d' \<Longrightarrow> header_validate (d_header d') = Ok ()"
  by (auto simp: decode_header_def and_then_eq_Ok Let_def write_to_hash_def split: if_splits)

text \<open>Applying a faithful file that continues \<open>t\<close> moves the lower bound to the file's end.\<close>

lemma between_patched:
  assumes dec: "decode_file x b' = Ok lx" and fa: "faithful ps H a b lx" and c: "is_contiguous t a b"
    and f: "between ps H t m f"
  shows "between ps H b (max m b) (patched lx f rnd)"
proof -
  let ?n = "unat ps" and ?c = "h_commit (f_header lx)" and ?g = "patched lx f rnd"
  have d: "distinct (map fst (f_pages lx))" "0 < ?c" "?n = unat (h_page_size (f_header lx))"
    using fa by (auto simp: faithful_def ascending_distinct)
  note p = patched_pages [OF dec d]
  have n: "0 < ?n"
  proof -
    from decode_file_OkD [OF dec] obtain dd where "decode_header (decoder_new b') = Ok dd" "d_header dd = f_header lx" by auto
    then have "header_validate (f_header lx) = Ok ()" using decode_header_valid by metis
    then have "is_valid_page_size (h_page_size (f_header lx))" by (auto simp: header_validate_def split: if_splits)
    with d(3) valid_page_size_unat(1) show ?thesis by fastforce
  qed
  have sz: "page_of ?n ?g k = None \<longleftrightarrow> H b k = None" if "content_page ps k" for k
  proof -
    have "page_of ?n ?g k = None \<longleftrightarrow> unat ?c < unat k"
      using that n by (simp add: page_of_None p(1) content_page_def)
    moreover have "H b k = None \<longleftrightarrow> \<not> k \<le> ?c" using fa that unfolding faithful_def by blast
    ultimately show ?thesis by (simp add: word_le_nat_alt not_le)
  qed
  have pg: "\<exists>s. b \<le> s \<and> s \<le> max m b \<and> (masked (page_of ?n ?g) k = masked (H s) k \<or> H s k = None)"
    if k: "content_page ps k" for k
  proof (cases "k \<le> ?c")
    case False
    with fa k have "H b k = None" unfolding faithful_def by blast
    then show ?thesis by (intro exI [of _ b]) auto
  next
    case le: True
    with fa k have nb: "H b k \<noteq> None" unfolding faithful_def by blast
    show ?thesis
    proof (cases "map_of (f_pages lx) k")
      case (Some q)
      with fa k le have "H b k = Some q" unfolding faithful_def by fastforce
      with p(2) [OF le Some] show ?thesis by (intro exI [of _ b]) (simp add: masked_def)
    next
      case None
      from f k obtain s where s: "t \<le> s" "s \<le> m" "masked (page_of ?n f) k = masked (H s) k \<or> H s k = None"
        unfolding between_def by blast
      have kept: "masked (page_of ?n ?g) k = masked (H s) k" if "H s k \<noteq> None"
      proof -
        from s(3) have eq: "masked (page_of ?n f) k = masked (H s) k" using that by (elim disjE) simp_all
        with that obtain q where "page_of ?n f k = Some q" by (metis masked_None not_None_eq)
        with p(3) [OF le None this] eq show ?thesis by (simp add: masked_def)
      qed
      show ?thesis
      proof (cases "s \<le> b")
        case True
        have "unat a \<le> unat s + 1" using c s(1) by (simp add: is_contiguous_unat word_le_nat_alt)
        with fa k le None True have "H s k = H b k" unfolding faithful_def by fastforce
        with kept nb show ?thesis by (intro exI [of _ b]) (simp add: masked_def)
      next
        case False
        with s kept show ?thesis by (intro exI [of _ s]) auto
      qed
    qed
  qed
  show ?thesis unfolding between_def using sz pg by (intro conjI exI [of _ b]) auto
qed

text \<open>The page size is readable from every file between two states after the first.\<close>

lemma read_page_size_cong:
  assumes "take 18 f = take 18 g" shows "read_page_size f = read_page_size g"
proof -
  have "read_at f 2 16 = drop 16 (take 18 f)" for f by (simp add: read_at_def drop_take)
  with assms show ?thesis by (simp add: read_page_size_def)
qed

lemma take_mask_page: "take 18 (mask_page k p) = take 18 p"
  by (simp add: mask_page_def present_page_def Let_def)

lemma between_page_size:
  assumes "is_history ps H" and "between ps H t m f" and "t \<noteq> 0"
  shows "read_page_size f = Ok ps"
proof -
  have v: "is_valid_page_size ps" using assms(1) by (simp add: is_history_def)
  then have "content_page ps 1"
    using valid_page_size_cases [OF v] by (auto simp: content_page_def lock_pgno_def PENDING_BYTE_def)
  with assms(2) obtain s where s: "t \<le> s" "masked (page_of (unat ps) f) 1 = masked (H s) 1 \<or> H s 1 = None"
    unfolding between_def by blast
  have "s \<noteq> 0" using s(1) assms(3) by auto
  with assms(1) obtain p where p: "H s 1 = Some p" "read_page_size p = Ok ps" unfolding is_history_def by blast
  with s(2) obtain q where q: "page_of (unat ps) f 1 = Some q" "mask_page 1 q = mask_page 1 p" by (auto simp: masked_def)
  have "q = take (unat ps) f" using q(1) by (simp add: page_of_def split: if_splits)
  then have "take 18 f = take 18 q" using valid_page_size_unat(1) [OF v] by simp
  also have "take 18 q = take 18 p" using q(2) take_mask_page by metis
  finally show ?thesis using p(2) read_page_size_cong by metis
qed

section \<open>Incremental sync\<close>

text \<open>A bucket whose readable files are faithful, and whose snapshots start at the beginning.\<close>

definition faithful_bucket :: "externs \<Rightarrow> u32 \<Rightarrow> history \<Rightarrow> contents \<Rightarrow> bool" where
  "faithful_bucket x ps H C \<longleftrightarrow>
     (\<forall>l a b d tm lx. C (l, a, b) = Some (d, tm) \<and> decode_file x d = Ok lx \<longrightarrow>
        faithful ps H a b lx \<and> (l = SNAPSHOT_LEVEL \<longrightarrow> a \<le> 1))"

text \<open>The state of a run: the frame is fixed, the database file is at least at \<open>cur\<close>.\<close>

definition at_pos :: "u32 \<Rightarrow> history \<Rightarrow> txid \<Rightarrow> (string \<times> string option \<times> string list \<times> 's \<times> replica_options) \<Rightarrow>
    txid \<Rightarrow> 's replica \<Rightarrow> bool" where
  "at_pos ps H M fr cur r \<longleftrightarrow> frame r = fr \<and> (\<exists>f. rp_db r = Some f \<and> between ps H cur (max M cur) f)"

definition past :: "u32 \<Rightarrow> history \<Rightarrow> txid \<Rightarrow> (string \<times> string option \<times> string list \<times> 's \<times> replica_options) \<Rightarrow>
    txid \<Rightarrow> 's replica \<Rightarrow> bool" where
  "past ps H M fr from r \<longleftrightarrow> (\<exists>cur \<ge> from. at_pos ps H M fr cur r)"

lemma pastI: "at_pos ps H M fr cur r \<Longrightarrow> from \<le> cur \<Longrightarrow> past ps H M fr from r"
  by (auto simp: past_def)

lemma keeps_same_files:
  assumes "\<And>r. frame (snd (m r)) = frame r \<and> rp_db (snd (m r)) = rp_db r"
  shows "keeps (at_pos ps H M fr cur) m"
  using assms by (simp add: keeps_def at_pos_def)

lemma at_pos_check: "keeps (at_pos ps H M fr cur) r_check"
  by (rule keeps_same_files) (auto simp: r_check_def split: result.splits)

lemma at_pos_list: "keeps (at_pos ps H M fr cur) (r_list ev l s)"
  by (simp add: r_list_def keeps_def)

lemma apply_spooled_triple:
  assumes "\<And>lx. decode_file (re_x ev) spool = Ok lx \<Longrightarrow> faithful ps H a b lx" and "is_contiguous cur a b"
  shows "triple (at_pos ps H M fr cur) (apply_spooled ev spool ps) (\<lambda>_. at_pos ps H M fr b) (at_pos ps H M fr cur)"
proof (rule tripleI)
  fix r e r' assume P: "at_pos ps H M fr cur r" and run: "apply_spooled ev spool ps r = (Err e, r')"
  from apply_spooled_run(1,3) [OF run] P show "at_pos ps H M fr cur r'" by (auto simp: at_pos_def)
next
  fix r u r' assume P: "at_pos ps H M fr cur r" and run: "apply_spooled ev spool ps r = (Ok u, r')"
  from apply_spooled_run(3) [OF run] obtain lx f rnd where lx: "decode_file (re_x ev) spool = Ok lx"
    "rp_db r = Some f" "rp_db r' = Some (patched lx f rnd)" by auto
  from P lx(2) have "between ps H cur (max M cur) f" by (simp add: at_pos_def)
  from between_patched [OF lx(1) assms(1) [OF lx(1)] assms(2) this]
  have "between ps H b (max (max M cur) b) (patched lx f rnd)" .
  moreover have "max (max M cur) b = max M b" using assms(2) by (auto simp: is_contiguous_def max_def)
  ultimately show "at_pos ps H M fr b r'" using lx(3) apply_spooled_run(1) [OF run] P by (auto simp: at_pos_def)
qed

lemma sync_with_incremental:
  assumes "rp_db r \<noteq> None" and "fst (position r) = Ok from" and "from \<noteq> 0" and "\<not> ro_auto_reset (rp_opts r)"
  shows "sync_with ev cancel r =
    (case incremental_sync ev from (r\<lparr>rp_cancel := cancel\<rparr>) of
       (Ok to, r') \<Rightarrow> (Ok \<lparr>sr_restored = False, sr_from_txid = from, sr_to_txid = to\<rparr>, r')
     | (Err e, r') \<Rightarrow> (Err e, r'))"
proof -
  have "read_txid_file (r\<lparr>rp_cancel := cancel\<rparr>) = (Ok from, r\<lparr>rp_cancel := cancel\<rparr>)"
    using assms(2) by (cases "rp_txid r") (simp_all add: position_def read_txid_file_def)
  then show ?thesis using assms(1,3,4)
    by (auto simp: sync_with_def r_set_cancel_def m_bind_def [of read_txid_file] m_try_def txid_is_zero_def
        split: prod.split result.split error.split)
qed

text \<open>The frame once the position \<open>to\<close> is recorded.\<close>

definition recorded :: "txid \<Rightarrow> txid \<Rightarrow> (string \<times> string option \<times> string list \<times> 's \<times> replica_options) \<Rightarrow>
    (string \<times> string option \<times> string list \<times> 's \<times> replica_options)" where
  "recorded from to fr = (if from < to then case fr of (p, _, side, s, opts) \<Rightarrow> (p, Some (txid_display to @ [CHR 0x0A]), side, s, opts) else fr)"

context bucket_client
begin

text \<open>The frame of a replica of a faithful bucket.\<close>

definition serves :: "'s replica_env \<Rightarrow> u32 \<Rightarrow> history \<Rightarrow> (string \<times> string option \<times> string list \<times> 's \<times> replica_options) \<Rightarrow> bool" where
  "serves ev ps H fr \<longleftrightarrow> re_client ev = c \<and> (case fr of (_, _, _, s, _) \<Rightarrow> inv s \<and> faithful_bucket (re_x ev) ps H (contents s))"

lemma apply_ltx_file_triple:
  assumes "serves ev ps H fr"
    and "is_contiguous cur (fi_min_txid info) (fi_max_txid info) \<or> fi_level info = SNAPSHOT_LEVEL \<and> cur < fi_max_txid info"
  shows "triple (at_pos ps H M fr cur) (apply_ltx_file ev info ps) (\<lambda>_. at_pos ps H M fr (fi_max_txid info)) (at_pos ps H M fr cur)"
  unfolding apply_ltx_file_def
proof (rule triple_bind)
  let ?ok = "\<lambda>spool. \<forall>lx. decode_file (re_x ev) spool = Ok lx \<longrightarrow> faithful ps H (fi_min_txid info) (fi_max_txid info) lx \<and>
      is_contiguous cur (fi_min_txid info) (fi_max_txid info)"
  show "triple (at_pos ps H M fr cur) (r_open_file ev info) (\<lambda>spool r. at_pos ps H M fr cur r \<and> ?ok spool) (at_pos ps H M fr cur)"
  proof (rule tripleI)
    fix r d r' assume P: "at_pos ps H M fr cur r" and run: "r_open_file ev info r = (Ok d, r')"
    from assms(1) P have s: "re_client ev = c" "inv (rp_client r)" "faithful_bucket (re_x ev) ps H (contents (rp_client r))"
      by (auto simp: serves_def at_pos_def frame_def)
    from run s(1) have "open_ltx_file c (rp_client r) (fi_level info) (fi_min_txid info) (fi_max_txid info) 0 0 = Ok d" "r' = r"
      by (auto simp: r_open_file_def map_err_eq_Ok)
    with open_ltx_file_Ok [OF s(2) this(1)] s(3) have r': "r' = r"
      "decode_file (re_x ev) d = Ok lx \<Longrightarrow> faithful ps H (fi_min_txid info) (fi_max_txid info) lx \<and>
        (fi_level info = SNAPSHOT_LEVEL \<longrightarrow> fi_min_txid info \<le> 1)" for lx
      unfolding faithful_bucket_def by blast+
    have "fi_min_txid info \<le> 1 \<Longrightarrow> cur < fi_max_txid info \<Longrightarrow> is_contiguous cur (fi_min_txid info) (fi_max_txid info)"
      by (simp add: is_contiguous_unat word_le_nat_alt word_less_nat_alt)
    with r' assms(2) have "?ok d" by blast
    with P r'(1) show "at_pos ps H M fr cur r' \<and> ?ok d" by simp
  qed (auto simp: r_open_file_def)
  fix spool
  show "triple (\<lambda>r. at_pos ps H M fr cur r \<and> ?ok spool) (apply_spooled ev spool ps)
     (\<lambda>_. at_pos ps H M fr (fi_max_txid info)) (at_pos ps H M fr cur)"
  proof (cases "?ok spool")
    case ok: True
    show ?thesis
    proof (cases "\<exists>lx. decode_file (re_x ev) spool = Ok lx")
      case True
      with ok have cont: "is_contiguous cur (fi_min_txid info) (fi_max_txid info)" by blast
      have "faithful ps H (fi_min_txid info) (fi_max_txid info) lx" if "decode_file (re_x ev) spool = Ok lx" for lx
        using ok that by blast
      from apply_spooled_triple [OF this cont] show ?thesis by (rule triple_weaken) auto
    next
      case False
      show ?thesis
      proof (rule tripleI)
        fix r u r' assume "apply_spooled ev spool ps r = (Ok u, r')"
        with apply_spooled_run(3) [OF this] False show "at_pos ps H M fr (fi_max_txid info) r'" by auto
      next
        fix r e r' assume P: "at_pos ps H M fr cur r \<and> ?ok spool" and run: "apply_spooled ev spool ps r = (Err e, r')"
        from apply_spooled_run(1,3) [OF run] P show "at_pos ps H M fr cur r'" by (auto simp: at_pos_def)
      qed
    qed
  qed (auto simp: triple_def)
qed

text \<open>The shape of the loops below: each of them ends past the position it starts from.\<close>

lemma gap_level_triple:
  assumes "serves ev ps H fr" and "from \<le> cur"
  shows "triple (at_pos ps H M fr cur) (gap_level ev ps gap_min cur infos)
    (\<lambda>(ret, cur') r. cur \<le> cur' \<and> at_pos ps H M fr cur' r) (past ps H M fr from)"
  using assms(2)
proof (induction infos arbitrary: cur)
  case Nil
  show ?case by (simp only: gap_level.simps) (rule triple_ok, simp)
next
  case (Cons info infos)
  note E = pastI [OF _ Cons.prems]
  show ?case
  proof (cases "cur + 1 < fi_min_txid info \<or> fi_max_txid info \<le> cur")
    case True
    show ?thesis
    proof (cases "cur + 1 < fi_min_txid info")
      case True
      show ?thesis unfolding gap_level.simps if_P [OF True] by (rule triple_ok) simp
    next
      case False
      with True Cons.IH [OF Cons.prems] show ?thesis by simp
    qed
  next
    case False
    then have cont: "is_contiguous cur (fi_min_txid info) (fi_max_txid info)" by (auto simp: is_contiguous_def)
    then have lt: "cur < fi_max_txid info" by (simp add: is_contiguous_def)
    let ?b = "fi_max_txid info"
    have step: "triple (at_pos ps H M fr ?b)
        (let current = ?b in if gap_min \<le> current + 1 then m_ok (Some False, current) else gap_level ev ps gap_min current infos)
        (\<lambda>(ret, cur') r. cur \<le> cur' \<and> at_pos ps H M fr cur' r) (past ps H M fr from)"
      unfolding Let_def
    proof (rule triple_if)
      show "triple (at_pos ps H M fr ?b) (m_ok (Some False, ?b))
         (\<lambda>(ret, cur') r. cur \<le> cur' \<and> at_pos ps H M fr cur' r) (past ps H M fr from)"
        using lt by (intro triple_ok) simp
      have "from \<le> ?b" using lt Cons.prems by simp
      from Cons.IH [OF this] show "triple (at_pos ps H M fr ?b) (gap_level ev ps gap_min ?b infos)
         (\<lambda>(ret, cur') r. cur \<le> cur' \<and> at_pos ps H M fr cur' r) (past ps H M fr from)"
        by (rule triple_weaken) (use lt in auto)
    qed
    show ?thesis using False unfolding gap_level.simps de_Morgan_disj if_not_P [OF conjunct1] if_not_P [OF conjunct2]
      apply (simp only: if_False)
      apply (rule triple_keeps_bind [OF at_pos_check E], assumption)
      apply (rule triple_try [OF apply_ltx_file_triple [OF assms(1) disjI1 [OF cont]]])
       apply (simp only: result.case)
       apply (rule step)
      apply (simp only: result.case)
      apply (rule triple_if; rule triple_ok triple_err; simp add: E)
      done
  qed
qed

lemma gap_levels_triple:
  assumes "serves ev ps H fr" and "from \<le> cur"
  shows "triple (at_pos ps H M fr cur) (gap_levels ev ps gap_min cur saw levels)
    (\<lambda>(saw', cur') r. cur \<le> cur' \<and> at_pos ps H M fr cur' r) (past ps H M fr from)"
proof (induction levels)
  case Nil
  show ?case by (simp only: gap_levels.simps) (rule triple_ok, simp)
next
  case (Cons level levels)
  note E = pastI [OF _ assms(2)]
  let ?Q = "\<lambda>(saw', cur') r. cur \<le> cur' \<and> at_pos ps H M fr cur' r"
  have rest: "triple (\<lambda>r. cur \<le> cur' \<and> at_pos ps H M fr cur' r)
      (case ret of Some sw \<Rightarrow> m_ok (saw \<or> sw, cur') | None \<Rightarrow> if cur < cur' then m_ok (saw, cur') else gap_levels ev ps gap_min cur saw levels)
      ?Q (past ps H M fr from)" for ret cur'
  proof (cases "ret = None \<and> \<not> cur < cur'")
    case True
    have "triple (\<lambda>r. cur \<le> cur' \<and> at_pos ps H M fr cur' r) (gap_levels ev ps gap_min cur saw levels) ?Q (past ps H M fr from)"
      by (rule triple_weaken [OF Cons.IH]) (use True in auto)
    with True show ?thesis by simp
  next
    case False
    then have "(case ret of Some sw \<Rightarrow> m_ok (saw \<or> sw, cur') | None \<Rightarrow> if cur < cur' then m_ok (saw, cur') else gap_levels ev ps gap_min cur saw levels) =
        m_ok (saw \<or> ret = Some True, cur')"
      by (cases ret) auto
    then show ?thesis by (simp only:) (rule triple_ok, simp)
  qed
  show ?case unfolding gap_levels.simps
  proof (rule triple_keeps_bind [OF at_pos_list E])
    fix infos
    show "triple (at_pos ps H M fr cur) (m_bind (gap_level ev ps gap_min cur infos) (\<lambda>(ret, current).
        case ret of Some sw \<Rightarrow> m_ok (saw \<or> sw, current)
        | None \<Rightarrow> if cur < current then m_ok (saw, current) else gap_levels ev ps gap_min cur saw levels)) ?Q (past ps H M fr from)"
    proof (rule triple_bind [OF gap_level_triple [OF assms]])
      fix x :: "bool option \<times> txid"
      obtain ret cur' where "x = (ret, cur')" by fastforce
      with rest [of cur' ret] show "triple ((\<lambda>(ret, cur') r. cur \<le> cur' \<and> at_pos ps H M fr cur' r) x) ((\<lambda>(ret, current).
        case ret of Some sw \<Rightarrow> m_ok (saw \<or> sw, current)
        | None \<Rightarrow> if cur < current then m_ok (saw, current) else gap_levels ev ps gap_min cur saw levels) x) ?Q (past ps H M fr from)"
        by simp
    qed
  qed
qed

lemma fill_follow_gap_triple:
  assumes "serves ev ps H fr" and "from \<le> cur"
  shows "triple (at_pos ps H M fr cur) (fill_follow_gap ev ps cur gap_min saw)
    (\<lambda>(saw', cur') r. cur \<le> cur' \<and> at_pos ps H M fr cur' r) (past ps H M fr from)"
  unfolding fill_follow_gap_def by (rule gap_levels_triple [OF assms])

text \<open>One file of L0, when the gap before it has been filled up to \<open>cur'\<close>.\<close>

lemma l0_apply_triple:
  assumes "serves ev ps H fr" and "from \<le> cur'" and "is_contiguous cur' (fi_min_txid info) (fi_max_txid info)"
    and IH: "triple (at_pos ps H M fr (fi_max_txid info)) (l0_loop ev ps saw (fi_max_txid info) infos)
      (\<lambda>(ret, saw', c') r. fi_max_txid info \<le> c' \<and> at_pos ps H M fr c' r) (past ps H M fr from)"
  shows "triple (at_pos ps H M fr cur') (m_try (apply_ltx_file ev info ps) (\<lambda>res.
        case res of
          Ok _ \<Rightarrow> l0_loop ev ps saw (fi_max_txid info) infos
        | Err e \<Rightarrow> if is_not_found e then m_ok (Some False, saw, cur') else m_err e))
    (\<lambda>(ret, saw', c') r. cur' \<le> c' \<and> at_pos ps H M fr c' r) (past ps H M fr from)"
proof (rule triple_try [OF apply_ltx_file_triple [OF assms(1) disjI1 [OF assms(3)]]])
  fix u
  have "cur' < fi_max_txid info" using assms(3) by (simp add: is_contiguous_def)
  with IH show "triple (at_pos ps H M fr (fi_max_txid info)) (case Ok u of
          Ok _ \<Rightarrow> l0_loop ev ps saw (fi_max_txid info) infos
        | Err e \<Rightarrow> if is_not_found e then m_ok (Some False, saw, cur') else m_err e)
    (\<lambda>(ret, saw', c') r. cur' \<le> c' \<and> at_pos ps H M fr c' r) (past ps H M fr from)"
    unfolding result.case by (elim triple_weaken) auto
next
  fix e
  show "triple (at_pos ps H M fr cur') (case Err e of
          Ok _ \<Rightarrow> l0_loop ev ps saw (fi_max_txid info) infos
        | Err e \<Rightarrow> if is_not_found e then m_ok (Some False, saw, cur') else m_err e)
    (\<lambda>(ret, saw', c') r. cur' \<le> c' \<and> at_pos ps H M fr c' r) (past ps H M fr from)"
    unfolding result.case by (rule triple_if; rule triple_ok triple_err; simp add: pastI [OF _ assms(2)])
qed

lemma l0_loop_triple:
  assumes "serves ev ps H fr" and "from \<le> cur"
  shows "triple (at_pos ps H M fr cur) (l0_loop ev ps saw cur infos)
    (\<lambda>(ret, saw', cur') r. cur \<le> cur' \<and> at_pos ps H M fr cur' r) (past ps H M fr from)"
  using assms(2)
proof (induction infos arbitrary: cur saw)
  case Nil
  show ?case by (simp only: l0_loop.simps) (rule triple_ok, simp)
next
  case (Cons info infos)
  let ?Q = "\<lambda>(ret, saw', cur') r. cur \<le> cur' \<and> at_pos ps H M fr cur' r"
  let ?gap = "cur + 1 < fi_min_txid info"
  let ?rest = "\<lambda>saw cur'.
      if ?gap \<and> fi_max_txid info \<le> cur' then l0_loop ev ps saw cur' infos
      else if ?gap \<and> cur' + 1 < fi_min_txid info then m_ok (Some (\<not> saw), saw, cur')
      else if fi_max_txid info \<le> cur' then l0_loop ev ps saw cur' infos
      else m_try (apply_ltx_file ev info ps) (\<lambda>res.
        case res of
          Ok _ \<Rightarrow> l0_loop ev ps saw (fi_max_txid info) infos
        | Err e \<Rightarrow> if is_not_found e then m_ok (Some False, saw, cur') else m_err e)"
  have rest: "triple (at_pos ps H M fr cur') (?rest sw cur') ?Q (past ps H M fr from)"
    if le: "cur \<le> cur'" and gap: "\<not> ?gap \<Longrightarrow> cur' = cur" for sw cur'
  proof -
    have from': "from \<le> cur'" using le Cons.prems by simp
    have loop: "triple (at_pos ps H M fr cur') (l0_loop ev ps sw cur' infos) ?Q (past ps H M fr from)"
      using Cons.IH [OF from', of sw] by (rule triple_weaken) (use le in auto)
    consider "fi_max_txid info \<le> cur'" | "\<not> fi_max_txid info \<le> cur'" "?gap \<and> cur' + 1 < fi_min_txid info"
      | (app) "\<not> fi_max_txid info \<le> cur'" "\<not> (?gap \<and> cur' + 1 < fi_min_txid info)" by blast
    then show ?thesis
    proof cases
      case 1
      with loop le show ?thesis
        by (cases "?gap \<and> cur' + 1 < fi_min_txid info") simp_all
    next
      case 2
      then have "?rest sw cur' = m_ok (Some (\<not> sw), sw, cur')" by simp
      then show ?thesis using le by (simp only:) (rule triple_ok, simp)
    next
      case app
      have "is_contiguous cur' (fi_min_txid info) (fi_max_txid info)"
        using app gap by (auto simp: is_contiguous_def)
      moreover have "from \<le> fi_max_txid info" using app(1) from' by simp
      ultimately have "triple (at_pos ps H M fr cur') (m_try (apply_ltx_file ev info ps) (\<lambda>res.
          case res of
            Ok _ \<Rightarrow> l0_loop ev ps sw (fi_max_txid info) infos
          | Err e \<Rightarrow> if is_not_found e then m_ok (Some False, sw, cur') else m_err e))
        (\<lambda>(ret, saw', c') r. cur' \<le> c' \<and> at_pos ps H M fr c' r) (past ps H M fr from)"
        using l0_apply_triple [OF assms(1) from' _ Cons.IH] by blast
      then have "triple (at_pos ps H M fr cur') (m_try (apply_ltx_file ev info ps) (\<lambda>res.
          case res of
            Ok _ \<Rightarrow> l0_loop ev ps sw (fi_max_txid info) infos
          | Err e \<Rightarrow> if is_not_found e then m_ok (Some False, sw, cur') else m_err e)) ?Q (past ps H M fr from)"
        by (rule triple_weaken) (use le in auto)
      with app show ?thesis by auto
    qed
  qed
  show ?case unfolding l0_loop.simps
  proof (rule triple_keeps_bind [OF at_pos_check pastI [OF _ Cons.prems]])
    fix u
    show "triple (at_pos ps H M fr cur) (m_bind
       (if ?gap then fill_follow_gap ev ps cur (fi_min_txid info) saw else m_ok (saw, cur))
       (\<lambda>(saw, cur'). ?rest saw cur')) ?Q (past ps H M fr from)"
    proof (rule triple_bind)
      show "triple (at_pos ps H M fr cur) (if ?gap then fill_follow_gap ev ps cur (fi_min_txid info) saw else m_ok (saw, cur))
        (\<lambda>(sw, cur') r. (cur \<le> cur' \<and> (\<not> ?gap \<longrightarrow> cur' = cur)) \<and> at_pos ps H M fr cur' r) (past ps H M fr from)"
      proof (cases ?gap)
        case True
        then show ?thesis using triple_weaken [OF fill_follow_gap_triple [OF assms(1) Cons.prems]] by auto
      next
        case False
        show ?thesis unfolding if_not_P [OF False] by (rule triple_ok) simp
      qed
      fix x :: "bool \<times> txid"
      obtain sw cur' where x: "x = (sw, cur')" by fastforce
      show "triple ((\<lambda>(sw, cur') r. (cur \<le> cur' \<and> (\<not> ?gap \<longrightarrow> cur' = cur)) \<and> at_pos ps H M fr cur' r) x)
         ((\<lambda>(saw, cur'). ?rest saw cur') x) ?Q (past ps H M fr from)"
        unfolding x prod.case using rest [of cur' sw] by (auto simp: triple_def)
    qed
  qed
qed

lemma scan_bucket_triple:
  assumes "serves ev ps H fr" and "from \<le> cur" and "\<And>g. snd acc = Some g \<Longrightarrow> fi_level g = SNAPSHOT_LEVEL"
  shows "triple (at_pos ps H M fr cur) (scan_bucket ev levels acc)
    (\<lambda>res r. at_pos ps H M fr cur r \<and> (\<forall>g. snd res = Some g \<longrightarrow> fi_level g = SNAPSHOT_LEVEL)) (past ps H M fr from)"
  using assms(3)
proof (induction levels arbitrary: acc)
  case Nil
  then show ?case by (simp only: scan_bucket.simps) (rule triple_ok, simp)
next
  case (Cons level levels)
  have level: "triple (at_pos ps H M fr cur) (r_list ev level 0)
     (\<lambda>infos r. at_pos ps H M fr cur r \<and> (\<forall>f \<in> set infos. fi_level f = level)) (past ps H M fr from)"
  proof (rule tripleI)
    fix r infos r' assume P: "at_pos ps H M fr cur r" and run: "r_list ev level 0 r = (Ok infos, r')"
    from assms(1) P have s: "re_client ev = c" "inv (rp_client r)" by (auto simp: serves_def at_pos_def frame_def)
    from run s(1) have "ltx_files c (rp_client r) level 0 False = Ok infos" "r' = r" by (auto simp: r_list_def map_err_eq_Ok)
    with listed_iff(2) [OF s(2) this(1)] P show "at_pos ps H M fr cur r' \<and> (\<forall>f \<in> set infos. fi_level f = level)" by blast
  qed (use assms(2) in \<open>auto simp: r_list_def intro: pastI\<close>)
  have fold: "snd (fold (scan_step level) infos acc) = Some g \<Longrightarrow> fi_level g = SNAPSHOT_LEVEL"
    if "\<forall>f \<in> set infos. fi_level f = level" "\<And>g. snd acc = Some g \<Longrightarrow> fi_level g = SNAPSHOT_LEVEL" for infos acc g
    using that
  proof (induction infos arbitrary: acc)
    case (Cons f infos)
    have "snd (scan_step level f acc) = Some g \<Longrightarrow> fi_level g = SNAPSHOT_LEVEL" for g
      using Cons.prems(2,3) by (cases acc) (auto simp: scan_step_def split: if_splits)
    with Cons show ?case by simp
  qed simp
  show ?case unfolding scan_bucket.simps
  proof (rule triple_bind [OF level])
    fix infos
    show "triple (\<lambda>r. at_pos ps H M fr cur r \<and> (\<forall>f \<in> set infos. fi_level f = level))
      (scan_bucket ev levels (fold (scan_step level) infos acc))
      (\<lambda>res r. at_pos ps H M fr cur r \<and> (\<forall>g. snd res = Some g \<longrightarrow> fi_level g = SNAPSHOT_LEVEL)) (past ps H M fr from)"
    proof (cases "\<forall>f \<in> set infos. fi_level f = level")
      case True
      from Cons.IH [OF fold [OF True Cons.prems]] show ?thesis by (rule triple_weaken) auto
    qed (auto simp: triple_def)
  qed
qed

lemma persist_triple:
  assumes "from \<le> cur"
  shows "triple (at_pos ps H M fr cur) (persist from cur)
    (\<lambda>to r. from \<le> to \<and> at_pos ps H M (recorded from to fr) to r) (past ps H M fr from)"
  using assms
  by (intro tripleI) (auto simp: persist_def write_txid_file_def recorded_def at_pos_def frame_def split: if_splits)

lemma finish_incremental_triple:
  assumes "serves ev ps H fr" and "from \<le> cur"
  shows "triple (at_pos ps H M fr cur) (finish_incremental ev from cur ps allow)
    (\<lambda>to r. from \<le> to \<and> at_pos ps H M (recorded from to fr) to r) (past ps H M fr from)"
proof (cases "cur = from \<and> allow")
  case False
  show ?thesis unfolding finish_incremental_def if_not_P [OF False] by (rule persist_triple [OF assms(2)])
next
  case True
  let ?Q = "\<lambda>to r. from \<le> to \<and> at_pos ps H M (recorded from to fr) to r"
  note E = pastI [OF _ assms(2)]
  have rest: "triple (at_pos ps H M fr cur)
     (if txid_is_zero bucket_max then m_ok cur
      else if bucket_max < cur then m_err (Diverged cur bucket_max)
      else case newest_snapshot of
          Some snap \<Rightarrow>
            if cur < fi_max_txid snap
            then m_then r_check (m_then (apply_ltx_file ev snap ps) (persist from (fi_max_txid snap)))
            else persist from cur
        | None \<Rightarrow> persist from cur) ?Q (past ps H M fr from)"
    if snap: "\<And>g. newest_snapshot = Some g \<Longrightarrow> fi_level g = SNAPSHOT_LEVEL" for bucket_max newest_snapshot
  proof (intro triple_if triple_err E)
    show "triple (at_pos ps H M fr cur) (m_ok cur) ?Q (past ps H M fr from)"
      using True by (intro triple_ok) (simp add: recorded_def)
    show "triple (at_pos ps H M fr cur) (case newest_snapshot of
          Some snap \<Rightarrow>
            if cur < fi_max_txid snap
            then m_then r_check (m_then (apply_ltx_file ev snap ps) (persist from (fi_max_txid snap)))
            else persist from cur
        | None \<Rightarrow> persist from cur) ?Q (past ps H M fr from)"
    proof (cases "\<exists>g. newest_snapshot = Some g \<and> cur < fi_max_txid g")
      case False
      then have "(case newest_snapshot of
          Some snap \<Rightarrow>
            if cur < fi_max_txid snap
            then m_then r_check (m_then (apply_ltx_file ev snap ps) (persist from (fi_max_txid snap)))
            else persist from cur
        | None \<Rightarrow> persist from cur) = persist from cur" by (auto split: option.split)
      with persist_triple [OF assms(2)] show ?thesis by simp
    next
      case True
      then obtain g where g: "newest_snapshot = Some g" "cur < fi_max_txid g" by blast
      have "triple (at_pos ps H M fr cur) (apply_ltx_file ev g ps) (\<lambda>_. at_pos ps H M fr (fi_max_txid g)) (past ps H M fr from)"
        using apply_ltx_file_triple [OF assms(1), of cur g] snap [OF g(1)] g(2) by (intro triple_weaken [OF apply_ltx_file_triple [OF assms(1)]] E) auto
      moreover have "from \<le> fi_max_txid g" using assms(2) g(2) by simp
      ultimately have "triple (at_pos ps H M fr cur) (m_then (apply_ltx_file ev g ps) (persist from (fi_max_txid g))) ?Q (past ps H M fr from)"
        by (intro triple_bind [OF _ persist_triple])
      with g show ?thesis by (simp add: triple_keeps_bind [OF at_pos_check E])
    qed
  qed
  show ?thesis unfolding finish_incremental_def if_P [OF True]
  proof (rule triple_bind [OF scan_bucket_triple [OF assms]])
    fix x :: "txid \<times> file_info option"
    obtain bm snap where x: "x = (bm, snap)" by fastforce
    show "triple (\<lambda>r. at_pos ps H M fr cur r \<and> (\<forall>g. snd x = Some g \<longrightarrow> fi_level g = SNAPSHOT_LEVEL))
      ((\<lambda>(bucket_max, newest_snapshot).
        if txid_is_zero bucket_max then m_ok cur
        else if bucket_max < cur then m_err (Diverged cur bucket_max)
        else case newest_snapshot of
          Some snap \<Rightarrow>
            if cur < fi_max_txid snap
            then m_then r_check (m_then (apply_ltx_file ev snap ps) (persist from (fi_max_txid snap)))
            else persist from cur
        | None \<Rightarrow> persist from cur) x) ?Q (past ps H M fr from)"
      unfolding x prod.case by (rule triple_pre, erule conjunct2, rule triple_weaken, rule rest) auto
  qed simp
qed

lemma incremental_sync_triple:
  assumes "serves ev ps H fr" and "is_history ps H" and "from \<noteq> 0"
  shows "triple (at_pos ps H M fr from) (incremental_sync ev from)
    (\<lambda>to r. from \<le> to \<and> at_pos ps H M (recorded from to fr) to r) (past ps H M fr from)"
  unfolding incremental_sync_def
proof (rule triple_get)
  fix r assume P: "at_pos ps H M fr from r"
  let ?Q = "\<lambda>to r. from \<le> to \<and> at_pos ps H M (recorded from to fr) to r"
  from P obtain f where f: "rp_db r = Some f" "between ps H from (max M from) f" by (auto simp: at_pos_def)
  note ps = between_page_size [OF assms(2) f(2) assms(3)]
  note E = pastI [OF _ order.refl]
  have fin: "triple (\<lambda>r. from \<le> cur \<and> at_pos ps H M fr cur r) (finish_incremental ev from cur ps allow) ?Q (past ps H M fr from)" for cur allow
    by (rule triple_pre [of _ "from \<le> cur"], simp, rule triple_weaken [OF finish_incremental_triple [OF assms(1)]]) auto
  have last: "triple (\<lambda>r. from \<le> cur \<and> at_pos ps H M fr cur r)
     (m_bind (if fs = [] then fill_follow_gap ev ps cur (cur + 1) saw else m_ok (saw, cur)) (\<lambda>(saw, cur).
        finish_incremental ev from cur ps (\<not> saw))) ?Q (past ps H M fr from)" for fs :: "file_info list" and cur saw
  proof (rule triple_pre [of _ "from \<le> cur"], simp, rule triple_bind)
    assume le: "from \<le> cur"
    show "triple (\<lambda>r. from \<le> cur \<and> at_pos ps H M fr cur r) (if fs = [] then fill_follow_gap ev ps cur (cur + 1) saw else m_ok (saw, cur))
      (\<lambda>(saw, cur) r. from \<le> cur \<and> at_pos ps H M fr cur r) (past ps H M fr from)"
    proof (rule triple_if)
      show "triple (\<lambda>r. from \<le> cur \<and> at_pos ps H M fr cur r) (fill_follow_gap ev ps cur (cur + 1) saw)
        (\<lambda>(saw, cur) r. from \<le> cur \<and> at_pos ps H M fr cur r) (past ps H M fr from)"
        by (rule triple_weaken [OF fill_follow_gap_triple [OF assms(1) le]]) (use le in auto)
    qed (rule triple_ok, simp)
  qed (auto simp: fin split: prod.split)
  have "triple (at_pos ps H M fr from) (m_bind (r_list ev 0 (from + 1)) (\<lambda>l0.
      m_bind (l0_loop ev ps False from l0) (\<lambda>(ret, saw_404, current).
      case ret of
        Some allow \<Rightarrow> finish_incremental ev from current ps allow
      | None \<Rightarrow>
         m_bind (if l0 = [] then fill_follow_gap ev ps current (current + 1) saw_404
                 else m_ok (saw_404, current)) (\<lambda>(saw_404, current).
         finish_incremental ev from current ps (\<not> saw_404))))) ?Q (past ps H M fr from)"
    by (rule triple_keeps_bind [OF at_pos_list E], assumption, rule triple_bind [OF l0_loop_triple [OF assms(1) order.refl]])
       (auto simp: fin last [where fs = "[]", simplified] split: prod.split option.split)
  then show "triple (\<lambda>r'. at_pos ps H M fr from r' \<and> r' = r) (m_bind (m_lift (ok_or (rp_db r) (EIo no_such_file))) (\<lambda>f.
     m_bind (m_lift (read_page_size f)) (\<lambda>page_size.
     m_bind (r_list ev 0 (from + 1)) (\<lambda>l0.
     m_bind (l0_loop ev page_size False from l0) (\<lambda>(ret, saw_404, current).
     case ret of
       Some allow \<Rightarrow> finish_incremental ev from current page_size allow
     | None \<Rightarrow>
         m_bind (if l0 = [] then fill_follow_gap ev page_size current (current + 1) saw_404
                 else m_ok (saw_404, current)) (\<lambda>(saw_404, current).
         finish_incremental ev from current page_size (\<not> saw_404))))))) ?Q (past ps H M fr from)"
    unfolding f(1) ok_or_simps m_bind_simps ps by (rule triple_weaken) auto
qed

text \<open>A sync without \<open>auto_reset\<close> of a replica that exists.\<close>

lemma sync_with_triple:
  assumes "serves ev ps H fr" and "is_history ps H" and "from \<noteq> 0" and "\<not> ro_auto_reset (snd (snd (snd (snd fr))))"
  shows "triple (\<lambda>r. at_pos ps H M fr from r \<and> fst (position r) = Ok from) (sync_with ev cancel)
    (\<lambda>sr r. sr = \<lparr>sr_restored = False, sr_from_txid = from, sr_to_txid = sr_to_txid sr\<rparr> \<and> from \<le> sr_to_txid sr \<and>
       at_pos ps H M (recorded from (sr_to_txid sr) fr) (sr_to_txid sr) r) (past ps H M fr from)"
proof -
  have eq: "sync_with ev cancel r = (case incremental_sync ev from (r\<lparr>rp_cancel := cancel\<rparr>) of
       (Ok to, r') \<Rightarrow> (Ok \<lparr>sr_restored = False, sr_from_txid = from, sr_to_txid = to\<rparr>, r')
     | (Err e, r') \<Rightarrow> (Err e, r'))" if "at_pos ps H M fr from r \<and> fst (position r) = Ok from" for r
    by (rule sync_with_incremental) (use that assms(3,4) in \<open>auto simp: at_pos_def frame_def\<close>)
  show ?thesis
  proof (rule tripleI)
    fix r sr r' assume P: "at_pos ps H M fr from r \<and> fst (position r) = Ok from" and run: "sync_with ev cancel r = (Ok sr, r')"
    from eq [OF P] run obtain to where
      "incremental_sync ev from (r\<lparr>rp_cancel := cancel\<rparr>) = (Ok to, r')" "sr = \<lparr>sr_restored = False, sr_from_txid = from, sr_to_txid = to\<rparr>"
      by (auto split: result.splits prod.splits)
    with tripleD(1) [OF incremental_sync_triple [OF assms(1-3)], of M "r\<lparr>rp_cancel := cancel\<rparr>"] P
    show "sr = \<lparr>sr_restored = False, sr_from_txid = from, sr_to_txid = sr_to_txid sr\<rparr> \<and> from \<le> sr_to_txid sr \<and>
         at_pos ps H M (recorded from (sr_to_txid sr) fr) (sr_to_txid sr) r'" by (auto simp: at_pos_def)
  next
    fix r e r' assume P: "at_pos ps H M fr from r \<and> fst (position r) = Ok from" and run: "sync_with ev cancel r = (Err e, r')"
    from eq [OF P] run have "incremental_sync ev from (r\<lparr>rp_cancel := cancel\<rparr>) = (Err e, r')"
      by (auto split: result.splits prod.splits)
    with tripleD(2) [OF incremental_sync_triple [OF assms(1-3)], of M "r\<lparr>rp_cancel := cancel\<rparr>"] P
    show "past ps H M fr from r'" by (auto simp: at_pos_def)
  qed
qed

end

section \<open>A sync against the history\<close>

lemma position_frame: "frame r = frame r' \<Longrightarrow> fst (position r) = fst (position r')"
  by (cases "rp_txid r'") (auto simp: position_def read_txid_file_def frame_def)

text \<open>The sidecar holds the position last recorded.\<close>

lemma position_recorded:
  assumes "frame r' = recorded from to (frame r)" and "fst (position r) = Ok from" and "from \<le> to"
  shows "fst (position r') = Ok to"
proof (cases "from < to")
  case True
  then have "rp_txid r' = Some (txid_display to @ [CHR 0x0A])" using assms(1) by (simp add: recorded_def frame_def)
  then show ?thesis
    by (simp add: position_def read_txid_file_def str_trim_line [OF txid_display_not_space(2,1)])
next
  case False
  with assms have "frame r' = frame r" "to = from" by (auto simp: recorded_def)
  with position_frame [of r' r] assms(2) show ?thesis by simp
qed

context bucket_client
begin

lemma sync_with_run:
  assumes hist: "is_history ps H" and bucket: "inv (rp_client r)" "faithful_bucket (re_x ev) ps H (contents (rp_client r))" "re_client ev = c"
    and db: "rp_db r = Some f" "between ps H from m f" and pos: "fst (position r) = Ok from" "from \<noteq> 0"
    and reset: "\<not> ro_auto_reset (rp_opts r)" and run: "sync_with ev cancel r = (res, r')"
  shows "\<exists>f' M. rp_db r' = Some f' \<and> rp_client r' = rp_client r \<and> rp_opts r' = rp_opts r \<and> m \<le> M \<and>
    (case res of
       Ok sr \<Rightarrow> sr = \<lparr>sr_restored = False, sr_from_txid = from, sr_to_txid = sr_to_txid sr\<rparr> \<and> from \<le> sr_to_txid sr \<and>
         fst (position r') = Ok (sr_to_txid sr) \<and> M = max m (sr_to_txid sr) \<and> between ps H (sr_to_txid sr) M f'
     | Err e \<Rightarrow> fst (position r') = Ok from \<and> between ps H from M f')"
proof -
  let ?fr = "frame r"
  have serves: "serves ev ps H ?fr" using bucket by (simp add: serves_def frame_def)
  have "at_pos ps H m ?fr from r" using db between_le [OF db(2)] by (auto simp: at_pos_def max_def)
  with pos(1) have P: "at_pos ps H m ?fr from r \<and> fst (position r) = Ok from" by simp
  have "\<not> ro_auto_reset (snd (snd (snd (snd ?fr))))" using reset by (simp add: frame_def)
  note t = sync_with_triple [OF serves hist pos(2) this]
  show ?thesis
  proof (cases res)
    case (Ok sr)
    let ?to = "sr_to_txid sr"
    from tripleD(1) [OF t P] run Ok have sr: "sr = \<lparr>sr_restored = False, sr_from_txid = from, sr_to_txid = ?to\<rparr>" "from \<le> ?to"
      "at_pos ps H m (recorded from ?to ?fr) ?to r'" by auto
    from sr(3) obtain f' where f': "rp_db r' = Some f'" "between ps H ?to (max m ?to) f'" "frame r' = recorded from ?to ?fr"
      by (auto simp: at_pos_def)
    from f'(3) have "rp_client r' = rp_client r" "rp_opts r' = rp_opts r" by (auto simp: recorded_def frame_def split: if_splits)
    with sr f' position_recorded [OF f'(3) pos(1) sr(2)] Ok show ?thesis by auto
  next
    case (Err e)
    from tripleD(2) [OF t P] run Err have "past ps H m ?fr from r'" by blast
    then obtain cur f' where cur: "from \<le> cur" "frame r' = ?fr" "rp_db r' = Some f'"
      "between ps H cur (max m cur) f'" by (auto simp: past_def at_pos_def)
    from cur(2) have "rp_client r' = rp_client r" "rp_opts r' = rp_opts r" "fst (position r') = Ok from"
      using position_frame [of r' r] pos(1) by (auto simp: frame_def)
    with cur between_weaken [OF cur(4,1) order.refl] Err show ?thesis by (intro exI [of _ f'] exI [of _ "max m cur"]) simp
  qed
qed

end

text \<open>C16: with \<open>auto_reset\<close> off, which is the default, a sync follows the history of the database.  Over a bucket whose
  readable files are faithful to the history, a sync of a replica at position \<open>from\<close> whose file lies between the states
  \<open>from\<close> and \<open>m\<close> keeps it between two states.  When it succeeds, the recorded position is the one it reports, it has
  not gone back, the file lies between it and \<open>m\<close>, and if it has reached \<open>m\<close>, the newest state that had been applied
  before, the file is exactly that state.  When it fails at any point, the recorded position is unchanged and the file
  still lies past it, so the next sync repeats the files and loses nothing.  (With \<open>auto_reset\<close> a diverged replica is
  restored instead, with the outcomes of a full restore.)\<close>

theorem sync_follows_history:
  assumes "is_history ps H" and "dir_inv (rp_client r)"
    and "faithful_bucket (re_x ev) ps H (dir_contents root (rp_client r))" and "re_client ev = dir_client root"
    and "rp_db r = Some f" and "between ps H from m f" and "fst (position r) = Ok from" and "from \<noteq> 0"
    and "\<not> ro_auto_reset (rp_opts r)" and "sync_with ev cancel r = (res, r')"
  shows "\<exists>f'. rp_db r' = Some f' \<and>
    (case res of
       Ok sr \<Rightarrow> \<not> sr_restored sr \<and> sr_from_txid sr = from \<and> from \<le> sr_to_txid sr \<and>
         fst (position r') = Ok (sr_to_txid sr) \<and> between ps H (sr_to_txid sr) (max m (sr_to_txid sr)) f' \<and>
         (m \<le> sr_to_txid sr \<longrightarrow> exactly ps (H (sr_to_txid sr)) f')
     | Err e \<Rightarrow> fst (position r') = Ok from \<and> (\<exists>m'. m \<le> m' \<and> between ps H from m' f'))"
proof -
  from dir.sync_with_run [OF assms] obtain f' M where f': "rp_db r' = Some f'" "m \<le> M"
    "case res of
       Ok sr \<Rightarrow> sr = \<lparr>sr_restored = False, sr_from_txid = from, sr_to_txid = sr_to_txid sr\<rparr> \<and> from \<le> sr_to_txid sr \<and>
         fst (position r') = Ok (sr_to_txid sr) \<and> M = max m (sr_to_txid sr) \<and> between ps H (sr_to_txid sr) M f'
     | Err e \<Rightarrow> fst (position r') = Ok from \<and> between ps H from M f'" by blast
  show ?thesis
  proof (cases res)
    case (Ok sr)
    let ?to = "sr_to_txid sr"
    from f'(3) Ok have sr: "sr = \<lparr>sr_restored = False, sr_from_txid = from, sr_to_txid = ?to\<rparr>" "from \<le> ?to"
      "fst (position r') = Ok ?to" "between ps H ?to (max m ?to) f'" by auto
    moreover have "exactly ps (H ?to) f'" if "m \<le> ?to" using sr(4) that by (simp add: between_exactly max_absorb2)
    moreover have "\<not> sr_restored sr" "sr_from_txid sr = from" by (subst sr(1), simp)+
    ultimately show ?thesis using f'(1) Ok by auto
  next
    case (Err e)
    with f' show ?thesis by auto
  qed
qed

text \<open>The bucket of the witness: the second file of the chain; its history: page 2 changes in transaction 2.\<close>

definition demo_history :: history where
  "demo_history t = (if t = 0 then Map.empty else [1 \<mapsto> demo_page1, 2 \<mapsto> replicate 512 (if t = 1 then 6 else 5)])"

definition demo_l0_bucket :: file_system where
  "demo_l0_bucket = [([''ltx'', ''0'', format_filename 2 2], demo_readers ! 1, 0)]"

lemma demo_is_history: "is_history 512 demo_history"
proof -
  have "read_page_size demo_page1 = Ok 512"
    by (simp add: read_page_size_def read_at_def demo_page1_def from_be_def Let_def)
  then show ?thesis using demo_page_size_valid by (simp add: is_history_def demo_history_def demo_page1_def)
qed

lemma demo_faithful: "faithful 512 demo_history 2 2 (demo_files ! 1)"
proof -
  have le: "k \<le> 2 \<longleftrightarrow> k = 0 \<or> k = 1 \<or> k = 2" for k :: u32
    by (auto simp: word_le_nat_alt unat_arith_simps(3))
  have s: "s = 1 \<or> s = 2" if "2 \<le> unat s + 1" "s \<le> 2" for s :: txid
    using that by (auto simp: word_le_nat_alt word_unat_eq_iff)
  show ?thesis unfolding faithful_def demo_files_def
    by (auto simp: demo_header2_def demo_pages2_def ascending_def content_page_def le demo_history_def dest!: s)
qed

lemma demo_faithful_bucket: "faithful_bucket demo_externs 512 demo_history (dir_contents [] demo_l0_bucket)"
  unfolding faithful_bucket_def
proof (intro allI impI, elim conjE)
  fix l a b d tm lx assume d: "dir_contents [] demo_l0_bucket (l, a, b) = Some (d, tm)" "decode_file demo_externs d = Ok lx"
  from d(1) have "l = 0" "a = 2" "b = 2" "d = demo_readers ! 1"
    by (auto simp: demo_l0_bucket_def ltx_path_def level_dir_def format_filename_inj fmt_dec_digits unat_eq_zero split: if_splits
        dest!: fmt_dec_inj [of _ 0, simplified])
  with d(2) demo_decode2 demo_faithful show "faithful 512 demo_history a b lx \<and> (l = SNAPSHOT_LEVEL \<longrightarrow> a \<le> 1)"
    by (simp add: SNAPSHOT_LEVEL_def)
qed

lemma demo_position: "fst (position (demo_replica s)) = Ok 1"
  by (simp add: demo_replica_def replica_open_def position_def read_txid_file_def str_trim_line [OF txid_display_not_space(2,1)])

lemma demo_between: "between 512 demo_history 1 1 (demo_page1 @ replicate 512 6)"
proof -
  let ?f = "demo_page1 @ replicate 512 6"
  have "masked (page_of 512 ?f) k = masked (demo_history 1) k" if "content_page 512 k" for k
  proof -
    have "unat k \<noteq> 0" using that by (simp add: content_page_def unat_eq_zero)
    then consider "unat k = 1" | "unat k = 2" | "2 < unat k" by linarith
    then show ?thesis
    proof cases
      case 1
      then have "k = 1" by (simp add: word_unat_eq_iff)
      then show ?thesis by (simp add: masked_def page_of_def demo_history_def demo_page1_def)
    next
      case 2
      then have "k = 2" by (simp add: word_unat_eq_iff)
      then show ?thesis by (simp add: masked_def page_of_def demo_history_def demo_page1_def)
    next
      case 3
      then have "k \<noteq> 1" "k \<noteq> 2" "page_of 512 ?f k = None" by (auto simp: page_of_None demo_page1_def)
      then show ?thesis by (simp add: masked_def demo_history_def)
    qed
  qed
  then show ?thesis by (simp add: between_exactly exactly_def)
qed

theorem sync_follows_history_witness:
  "case sync_with (demo_replica_env (dir_client [])) (CancelAfter 7) (demo_replica demo_l0_bucket) of (res, r') \<Rightarrow>
     \<exists>f'. rp_db r' = Some f' \<and>
       (case res of
          Ok sr \<Rightarrow> fst (position r') = Ok (sr_to_txid sr) \<and> exactly 512 (demo_history (sr_to_txid sr)) f'
        | Err e \<Rightarrow> fst (position r') = Ok 1 \<and> (\<exists>m'. between 512 demo_history 1 m' f'))"
proof -
  let ?ev = "demo_replica_env (dir_client [])" and ?r = "demo_replica demo_l0_bucket"
  let ?f = "demo_page1 @ replicate 512 6"
  obtain res r' where run: "sync_with ?ev (CancelAfter 7) ?r = (res, r')" by fastforce
  have r: "rp_client ?r = demo_l0_bucket" "rp_db ?r = Some ?f" "\<not> ro_auto_reset (rp_opts ?r)"
    "re_x ?ev = demo_externs" "re_client ?ev = dir_client []"
    by (simp_all add: demo_replica_def replica_open_def replica_options_default_def demo_replica_env_def)
  have inv: "dir_inv (rp_client ?r)" "faithful_bucket (re_x ?ev) 512 demo_history (dir_contents [] (rp_client ?r))"
    unfolding r using demo_faithful_bucket by (simp_all add: dir_inv_def demo_l0_bucket_def)
  from sync_follows_history [OF demo_is_history inv r(5,2) demo_between demo_position _ r(3) run] show ?thesis
    unfolding run prod.case by (auto split: result.splits)
qed

end
