(* ===== verification/ReplicaFollow.thy ===== *)
theory ReplicaFollow
  imports ReplicaProps
begin

text \<open>
  The follow loop of \<open>crates/liters/src/replica.rs\<close>: it keeps the replica on the history of the
  database over any number of rounds, while the bucket changes between them and files arrive over
  live streams; it stops once its token is cancelled, and a cancellation is never an error.
\<close>

section \<open>Following the history\<close>

text \<open>A stream whose readable files are faithful.\<close>

definition faithful_stream :: "externs \<Rightarrow> u32 \<Rightarrow> history \<Rightarrow> stream \<Rightarrow> bool" where
  "faithful_stream x ps H evs \<longleftrightarrow>
     (\<forall>info spool lx. Ok (EvLtx info, spool) \<in> set evs \<and> decode_file x spool = Ok lx \<longrightarrow>
        faithful ps H (fi_min_txid info) (fi_max_txid info) lx)"

text \<open>A replica at position \<open>pos\<close>, not before \<open>t\<close>, whose bucket is one of \<open>S\<close>.\<close>

definition follower :: "u32 \<Rightarrow> history \<Rightarrow> 's set \<Rightarrow> txid \<Rightarrow> txid \<Rightarrow> 's replica \<Rightarrow> bool" where
  "follower ps H S t pos r \<longleftrightarrow>
     t \<le> pos \<and> pos \<noteq> 0 \<and> fst (position r) = Ok pos \<and> rp_client r \<in> S \<and> \<not> ro_auto_reset (rp_opts r) \<and>
     (\<exists>f m. rp_db r = Some f \<and> between ps H pos m f)"

definition following :: "u32 \<Rightarrow> history \<Rightarrow> 's set \<Rightarrow> txid \<Rightarrow> 's replica \<Rightarrow> bool" where
  "following ps H S t r \<longleftrightarrow> (\<exists>pos. follower ps H S t pos r)"

lemma follower_same:
  assumes "frame r' = frame r" and "rp_db r' = rp_db r"
  shows "follower ps H S t pos r' = follower ps H S t pos r"
proof -
  have "rp_client r' = rp_client r" "rp_opts r' = rp_opts r" using assms(1) by (auto simp: frame_def)
  with position_frame [OF assms(1)] assms(2) show ?thesis by (simp add: follower_def)
qed

text \<open>Polling and sleeping leave the files alone.\<close>

lemma poll_same: "frame (snd (r_poll r)) = frame r" "rp_db (snd (r_poll r)) = rp_db r"
  by (simp_all add: r_poll_def split: prod.split)

lemma sleep_same: "frame (snd (sleep_checking d r)) = frame r" "rp_db (snd (sleep_checking d r)) = rp_db r"
  by (simp_all add: sleep_checking_def Let_def split: prod.split)

lemma poll_Ok: "\<exists>b r1. r_poll r = (Ok b, r1)"
  by (cases "token_poll (rp_cancel r)") (simp add: r_poll_def)

lemma following_poll: "keeps (follower ps H S t pos) r_poll"
  by (rule keepsI) (metis follower_same poll_same snd_conv)

lemma following_sleep: "keeps (follower ps H S t pos) (sleep_checking d)"
  by (rule keepsI) (metis follower_same sleep_same snd_conv)

lemma following_pause: "keeps (follower ps H S t pos) (pause d a)"
  unfolding pause_def by (intro keeps_bind following_sleep keeps_basic)

lemma following_retry: "keeps (follower ps H S t pos) (retry_or_fail opts a e)"
  unfolding retry_or_fail_def by (intro keeps_option keeps_if following_pause keeps_basic)

text \<open>A file from the stream is applied and its end recorded.\<close>

lemma follower_apply:
  assumes f: "follower ps H S t pos r" and c: "is_contiguous pos a b"
    and fa: "\<And>lx. decode_file (re_x ev) spool = Ok lx \<Longrightarrow> faithful ps H a b lx"
    and run: "apply_spooled ev spool ps r = (res, r')"
  shows "case res of Ok _ \<Rightarrow> follower ps H S t b (snd (write_txid_file b r')) | Err e \<Rightarrow> follower ps H S t pos r'"
proof -
  note fr = apply_spooled_run(1) [OF run]
  from apply_spooled_run(3) [OF run] show ?thesis
  proof (elim disjE exE conjE)
    fix e assume "res = Err e" "rp_db r' = rp_db r"
    with follower_same [OF fr] f show ?thesis by simp
  next
    fix lx g rnd
    assume ok: "res = Ok ()" and lx: "decode_file (re_x ev) spool = Ok lx" "rp_db r = Some g" "rp_db r' = Some (patched lx g rnd)"
    from f lx(2) obtain m where m: "between ps H pos m g" by (auto simp: follower_def)
    note b = between_patched [OF lx(1) fa [OF lx(1)] c m, of rnd]
    have "pos < b" using c by (simp add: is_contiguous_def)
    then have "t \<le> b" "b \<noteq> 0" using f by (auto simp: follower_def)
    moreover have "fst (position (snd (write_txid_file b r'))) = Ok b"
      by (simp add: position_def read_txid_file_def write_txid_file_def str_trim_line [OF txid_display_not_space(2,1)])
    moreover have "rp_client r' = rp_client r" "rp_opts r' = rp_opts r" using fr by (auto simp: frame_def)
    ultimately show ?thesis using f b lx(3) ok by (auto simp: follower_def write_txid_file_def)
  qed
qed

lemma stream_loop_follows:
  assumes "faithful_stream (re_x ev) ps H evs" and "follower ps H S t pos r"
    and "stream_loop ev ps pos made evs r = (res, r')"
  shows "following ps H S t r'"
  using assms
proof (induction evs arbitrary: pos made r)
  case Nil
  then show ?case
    using keepsD [OF following_poll Nil.prems(2)]
    by (auto simp: m_bind_def following_def r_poll_def split: prod.splits result.splits)
next
  case (Cons nxt evs)
  obtain b r1 where p: "r_poll r = (Ok b, r1)" using poll_Ok by blast
  note f1 = keepsD [OF following_poll Cons.prems(2) p]
  then have done1: "following ps H S t r1" by (auto simp: following_def)
  have fs: "faithful_stream (re_x ev) ps H evs" using Cons.prems(1) unfolding faithful_stream_def by (meson list.set_intros(2))
  note IH = Cons.IH [OF fs]
  note run = Cons.prems(3) [unfolded stream_loop.simps m_bind_run(1) [where m = r_poll, OF p]]
  show ?case
  proof (cases "b \<or> (\<forall>info spool. nxt \<noteq> Ok (EvLtx info, spool))")
    case True
    with run IH [OF f1] done1 show ?thesis
      by (auto split: if_splits result.splits prod.splits stream_event.splits option.splits)
  next
    case False
    then obtain info spool where nxt: "nxt = Ok (EvLtx info, spool)" "\<not> b" by auto
    let ?b = "fi_max_txid info"
    consider "?b \<le> pos" | "\<not> ?b \<le> pos" "\<not> is_contiguous pos (fi_min_txid info) ?b"
      | (app) "\<not> ?b \<le> pos" "is_contiguous pos (fi_min_txid info) ?b" by blast
    then show ?thesis
    proof cases
      case app
      obtain v r2 where ap: "apply_spooled ev spool ps r1 = (v, r2)" by fastforce
      have "faithful ps H (fi_min_txid info) ?b lx" if "decode_file (re_x ev) spool = Ok lx" for lx
        using Cons.prems(1) that nxt(1) unfolding faithful_stream_def by (meson list.set_intros(1))
      note step = follower_apply [OF f1 app(2) this ap]
      show ?thesis
      proof (cases v)
        case (Ok u)
        then have "follower ps H S t ?b (snd (write_txid_file ?b r2))" using step by simp
        from IH [OF this] run nxt app ap Ok show ?thesis by (auto simp: m_try_def write_txid_file_def)
      next
        case (Err e)
        with run nxt app ap step show ?thesis by (auto simp: m_try_def following_def)
      qed
    qed (use run nxt IH [OF f1] done1 in auto)
  qed
qed

context bucket_client
begin

text \<open>The buckets and streams a follower meets are all faithful to one history.\<close>

definition feeds :: "'s replica_env \<Rightarrow> u32 \<Rightarrow> history \<Rightarrow> 's set \<Rightarrow> bool" where
  "feeds ev ps H S \<longleftrightarrow> is_history ps H \<and> re_client ev = c \<and>
     (\<forall>s \<in> S. inv s \<and> faithful_bucket (re_x ev) ps H (contents s) \<and>
        (\<forall>p evs. re_stream ev s p = Ok (Some evs) \<longrightarrow> faithful_stream (re_x ev) ps H evs))"

lemma follower_sync:
  assumes "feeds ev ps H S" and f: "follower ps H S t pos r" and run: "sync_with ev cancel r = (res, r')"
  shows "following ps H S t r'"
proof -
  from f obtain g m where g: "rp_db r = Some g" "between ps H pos m g" "fst (position r) = Ok pos" "pos \<noteq> 0"
    "\<not> ro_auto_reset (rp_opts r)" "t \<le> pos" "rp_client r \<in> S" by (auto simp: follower_def)
  have b: "is_history ps H" "inv (rp_client r)" "faithful_bucket (re_x ev) ps H (contents (rp_client r))" "re_client ev = c"
    using assms(1) g(7) by (auto simp: feeds_def)
  from sync_with_run [OF b g(1-5) run] obtain g' M where g': "rp_db r' = Some g'" "rp_client r' = rp_client r" "rp_opts r' = rp_opts r"
    "case res of
       Ok sr \<Rightarrow> sr = \<lparr>sr_restored = False, sr_from_txid = pos, sr_to_txid = sr_to_txid sr\<rparr> \<and> pos \<le> sr_to_txid sr \<and>
         fst (position r') = Ok (sr_to_txid sr) \<and> M = max m (sr_to_txid sr) \<and> between ps H (sr_to_txid sr) M g'
     | Err e \<Rightarrow> fst (position r') = Ok pos \<and> between ps H pos M g'" by blast
  show ?thesis
  proof (cases res)
    case (Ok sr)
    with g' g have "follower ps H S t (sr_to_txid sr) r'" by (auto simp: follower_def)
    then show ?thesis by (auto simp: following_def)
  next
    case (Err e)
    with g' g have "follower ps H S t pos r'" by (auto simp: follower_def)
    then show ?thesis by (auto simp: following_def)
  qed
qed

lemma follow_stream_follows:
  assumes "feeds ev ps H S" and "faithful_stream (re_x ev) ps H evs" and f: "follower ps H S t pos r"
    and run: "follow_stream ev opts a pos made evs r = (res, r')"
  shows "following ps H S t r'"
proof -
  from f obtain g m where g: "rp_db r = Some g" "between ps H pos m g" "pos \<noteq> 0" by (auto simp: follower_def)
  have "read_page_size g = Ok ps" using between_page_size [OF _ g(2,3)] assms(1) by (auto simp: feeds_def)
  then have db: "open_db_for_apply r = (Ok ps, r)" using g(1) by (simp add: open_db_for_apply_def)
  obtain v r1 where s: "stream_loop ev ps pos made evs r = (v, r1)" by fastforce
  from stream_loop_follows [OF assms(2) f s] obtain pos' where f1: "follower ps H S t pos' r1" by (auto simp: following_def)
  have k: "keeps (follower ps H S t pos') (case x of (fin, made) \<Rightarrow>
       case fin of
           Stopped \<Rightarrow> m_ok Stop
         | Broken err \<Rightarrow>
             let attempt = (if made then 0 else a) in
             (case err of
                Some e \<Rightarrow> if e = Cancelled then m_ok Stop else retry_or_fail opts attempt e
              | None \<Rightarrow> if made then m_ok (Again attempt) else pause (fo_poll_interval opts) attempt))" for x
    by (auto simp: Let_def keeps_basic following_retry following_pause split: prod.split session_end.split option.split)
  have "follower ps H S t pos' r'"
  proof (cases v)
    case (Err e)
    with run db s f1 show ?thesis by (auto simp: follow_stream_def m_try_def m_bind_def)
  next
    case (Ok x)
    with run db s keepsD [OF k [of x] f1] show ?thesis by (simp add: follow_stream_def m_try_def m_bind_def)
  qed
  then show ?thesis by (auto simp: following_def)
qed

lemma follow_round_follows:
  assumes "feeds ev ps H S" and f: "follower ps H S t pos r" and run: "follow_round ev opts a r = (res, r')"
  shows "following ps H S t r'"
proof -
  have before: "position r = (Ok pos, r)" using f by (simp add: follower_def position_def read_txid_file_def)
  obtain v r1 where s: "sync_with ev (rp_cancel r) r = (v, r1)" by fastforce
  from follower_sync [OF assms(1) f s] obtain pos1 where f1: "follower ps H S t pos1 r1" by (auto simp: following_def)
  have pos1: "position r1 = (Ok pos1, r1)" using f1 by (simp add: follower_def position_def read_txid_file_def)
  note run' = run [unfolded follow_round_def m_bind_run(1) [where m = position, OF before] m_bind_simps m_try_def s prod.case]
  show ?thesis
  proof (cases v)
    case (Err e)
    have "keeps (follower ps H S t pos1) (if e = Cancelled then m_ok Stop
         else if e = TxNotAvailable then pause (fo_poll_interval opts) a else retry_or_fail opts a e)"
      by (simp add: keeps_basic following_pause following_retry)
    from keepsD [OF this f1] run' Err show ?thesis by (auto simp: following_def)
  next
    case (Ok sr)
    note run2 = run' [unfolded Ok result.case Let_def m_bind_run(1) [where m = position, OF pos1] m_bind_simps]
    show ?thesis
    proof (cases "\<exists>evs. re_stream ev (rp_client r1) (pos1 + 1) = Ok (Some evs)")
      case True
      then obtain evs where evs: "re_stream ev (rp_client r1) (pos1 + 1) = Ok (Some evs)" by blast
      have "rp_client r1 \<in> S" using f1 by (simp add: follower_def)
      with evs assms(1) have fa: "faithful_stream (re_x ev) ps H evs" unfolding feeds_def by blast
      from run2 evs have "follow_stream ev opts 0 pos1 (pos < pos1) evs r1 = (res, r')" by simp
      from follow_stream_follows [OF assms(1) fa f1 this] show ?thesis .
    next
      case False
      then have "keeps (follower ps H S t pos1) (case re_stream ev (rp_client r1) (pos1 + 1) of
           Err e \<Rightarrow> if e = StCancelled then m_ok Stop else retry_or_fail opts 0 (from_storage e)
         | Ok None \<Rightarrow> pause (fo_poll_interval opts) 0
         | Ok (Some evs) \<Rightarrow> follow_stream ev opts 0 pos1 (pos < pos1) evs)"
        by (auto simp: keeps_basic following_pause following_retry split: result.split option.split)
      from keepsD [OF this f1] run2 show ?thesis by (auto simp: following_def)
    qed
  qed
qed

lemma follow_loop_follows:
  assumes "feeds ev ps H S" and "set buckets \<subseteq> S" and "following ps H S t r" and "follow_loop ev opts a buckets r = (res, r')"
  shows "following ps H S t r'"
  using assms(2-)
proof (induction buckets arbitrary: a r)
  case (Cons s buckets)
  let ?r = "r\<lparr>rp_client := s\<rparr>"
  from Cons.prems(1,2) obtain pos where "follower ps H S t pos ?r"
    by (auto simp: following_def follower_def position_def read_txid_file_def cong: option.case_cong)
  obtain b r1 where p: "r_poll ?r = (Ok b, r1)" using poll_Ok by blast
  note f1 = keepsD [OF following_poll \<open>follower ps H S t pos ?r\<close> p]
  show ?case
  proof (cases b)
    case True
    with Cons.prems(3) p f1 show ?thesis by (auto simp: m_bind_def following_def)
  next
    case False
    obtain v r2 where w: "follow_round ev opts a r1 = (v, r2)" by fastforce
    note f2 = follow_round_follows [OF assms(1) f1 w]
    show ?thesis
    proof (cases v)
      case (Err e)
      with Cons.prems(3) p False w f2 show ?thesis by (simp add: m_bind_def)
    next
      case (Ok nx)
      with Cons.prems(1,3) p False w f2 Cons.IH [OF _ f2] show ?thesis by (cases nx) (auto simp: m_bind_def)
    qed
  qed
qed simp

end

section \<open>What every operation of a replica keeps\<close>

text \<open>
  A property of the replica that survives a check of the token, an application and every change of
  the local files survives a sync and a whole round of following.
\<close>

locale replica_inv =
  fixes P :: "'s replica \<Rightarrow> bool"
  assumes check: "keeps P r_check" and apply_spooled: "keeps P (apply_spooled ev spool ps)"
    and poll: "keeps P r_poll" and sleep: "keeps P (sleep_checking d)"
    and files: "P r \<Longrightarrow> P (r\<lparr>rp_db := db\<rparr>)" "P r \<Longrightarrow> P (r\<lparr>rp_txid := tx\<rparr>)" "P r \<Longrightarrow> P (r\<lparr>rp_side := side\<rparr>)"
begin

lemma keep_read: "keeps P (r_list ev l s)" "keeps P (r_open_file ev info)" "keeps P read_txid_file" "keeps P position"
    "keeps P open_db_for_apply"
  unfolding r_list_def r_open_file_def read_txid_file_def position_def open_db_for_apply_def by (intro keeps_rules)+

lemma keep_write: "keeps P (write_txid_file t)" "keeps P (m_mod (\<lambda>r. r\<lparr>rp_db := None\<rparr>))"
    "keeps P (m_mod (\<lambda>r. r\<lparr>rp_db := Some img, rp_side := g (rp_side r)\<rparr>))"
  unfolding write_txid_file_def by (intro keeps_mod files, assumption)+

lemma keep_apply: "keeps P (apply_ltx_file ev info ps)"
  unfolding apply_ltx_file_def by (intro keeps_rules keep_read apply_spooled)

lemma keep_gap_level: "keeps P (gap_level ev ps gap_min cur infos)"
  by (induction infos arbitrary: cur) (auto intro!: keeps_rules keep_apply check simp: Let_def)

lemma keep_gap_levels: "keeps P (gap_levels ev ps gap_min cur saw levels)"
proof (induction levels)
  case Nil
  show ?case by (simp only: gap_levels.simps keeps_basic)
next
  case (Cons y ys)
  show ?case unfolding gap_levels.simps by (intro keeps_rules keep_read keep_gap_level Cons.IH)
qed

lemma keep_l0_loop: "keeps P (l0_loop ev ps saw cur infos)"
proof (induction infos arbitrary: saw cur)
  case Nil
  show ?case by (simp only: l0_loop.simps keeps_basic)
next
  case (Cons info infos)
  show ?case unfolding l0_loop.simps fill_follow_gap_def
    by (intro keeps_rules check keep_gap_levels keep_apply Cons.IH)
qed

lemma keep_scan: "keeps P (scan_bucket ev levels acc)"
proof (induction levels arbitrary: acc)
  case Nil
  show ?case by (simp only: scan_bucket.simps keeps_basic)
next
  case (Cons y ys)
  show ?case unfolding scan_bucket.simps by (intro keeps_rules keep_read Cons.IH)
qed

lemma keep_finish: "keeps P (finish_incremental ev from cur ps allow)"
  unfolding finish_incremental_def persist_def by (intro keeps_rules keep_scan check keep_apply keep_write)

lemma keep_incremental: "keeps P (incremental_sync ev from)"
  unfolding incremental_sync_def fill_follow_gap_def
  by (intro keeps_rules keep_read keep_l0_loop keep_finish keep_gap_levels)

lemma keep_open_plan: "keeps P (open_plan ev infos)"
proof (induction infos)
  case Nil
  show ?case by (simp only: open_plan.simps keeps_basic)
next
  case (Cons y ys)
  show ?case unfolding open_plan.simps by (intro keeps_rules check keep_read Cons.IH)
qed

lemma keep_full_restore: "keeps P (full_restore ev)"
  unfolding full_restore_def check_integrity_def
  by (intro keeps_rules keep_open_plan check keep_write)

lemma keep_sync:
  assumes "P (r\<lparr>rp_cancel := cancel\<rparr>)" and "sync_with ev cancel r = (res, r')"
  shows "P r'"
proof -
  let ?rest = "m_bind m_get (\<lambda>r.
      if rp_db r = None
      then m_bind (full_restore ev) (\<lambda>to. m_ok \<lparr>sr_restored = True, sr_from_txid = 0, sr_to_txid = to\<rparr>)
      else m_bind read_txid_file (\<lambda>from.
        if txid_is_zero from
        then if ro_auto_reset (rp_opts r)
             then m_bind (full_restore ev) (\<lambda>to. m_ok \<lparr>sr_restored = True, sr_from_txid = 0, sr_to_txid = to\<rparr>)
             else m_err (Other (''replica exists but has no -txid sidecar; delete '' @ rp_path r @ '' to re-restore''))
        else m_try (incremental_sync ev from) (\<lambda>res.
          case res of
            Ok to \<Rightarrow> m_ok \<lparr>sr_restored = False, sr_from_txid = from, sr_to_txid = to\<rparr>
          | Err (Diverged a b) \<Rightarrow>
              if ro_auto_reset (rp_opts r)
              then m_bind (full_restore ev) (\<lambda>to. m_ok \<lparr>sr_restored = True, sr_from_txid = from, sr_to_txid = to\<rparr>)
              else m_err (Diverged a b)
          | Err e \<Rightarrow> m_err e)))"
  have "keeps P ?rest"
    by (intro keeps_rules keep_full_restore keep_read keep_incremental)
       (auto simp: keeps_basic intro!: keeps_rules keep_full_restore split: error.split)
  moreover have "sync_with ev cancel r = ?rest (r\<lparr>rp_cancel := cancel\<rparr>)" by (simp add: sync_with_def r_set_cancel_def)
  ultimately show ?thesis using assms by (metis (no_types, lifting) keepsD)
qed

lemma keep_pause: "keeps P (pause d a)"
  unfolding pause_def by (intro keeps_rules sleep)

lemma keep_retry: "keeps P (retry_or_fail opts a e)"
  unfolding retry_or_fail_def by (intro keeps_rules keep_pause)

lemma keep_stream_loop: "keeps P (stream_loop ev ps pos made evs)"
proof (induction evs arbitrary: pos made)
  case Nil
  show ?case unfolding stream_loop.simps by (intro keeps_rules poll)
next
  case (Cons nxt evs)
  show ?case unfolding stream_loop.simps
    by (rule keeps_bind [OF poll], rule keeps_if)
       (auto intro!: keeps_rules Cons.IH apply_spooled keep_write split: result.split prod.split stream_event.split option.split)
qed

lemma keep_follow_stream: "keeps P (follow_stream ev opts a pos made evs)"
  unfolding follow_stream_def
  by (intro keeps_rules keep_read keep_retry keep_stream_loop)
     (auto simp: Let_def keeps_basic keep_retry keep_pause split: session_end.split option.split)

lemma keep_follow_round: "keeps P (follow_round ev opts a)"
proof -
  have sync: "keeps P (m_bind m_get (\<lambda>r. m_try (sync_with ev (rp_cancel r)) f))" if "\<And>x. keeps P (f x)"
    for f :: "sync_result res \<Rightarrow> ('s, round) rm"
  proof (rule keepsI)
    fix r res r' assume P: "P r" and run: "m_bind m_get (\<lambda>r. m_try (sync_with ev (rp_cancel r)) f) r = (res, r')"
    obtain v r1 where v: "sync_with ev (rp_cancel r) r = (v, r1)" by fastforce
    have "P (r\<lparr>rp_cancel := rp_cancel r\<rparr>)" using P by simp
    from keepsD [OF that keep_sync [OF this v]] run v show "P r'" by (simp add: m_try_def)
  qed
  show ?thesis unfolding follow_round_def
    by (intro keeps_bind [OF keep_read(4)] sync)
       (auto intro!: keeps_rules keep_read keep_retry keep_pause keep_follow_stream simp: Let_def split: result.split option.split)
qed

end

section \<open>Stopping\<close>

text \<open>A token that is cancelled within \<open>n\<close> further looks at it.\<close>

definition token_within :: "nat \<Rightarrow> cancel_token \<Rightarrow> bool" where
  "token_within n t \<longleftrightarrow> (\<exists>m \<le> n. t = CancelAfter m)"

lemma token_within_check: "token_within n t \<Longrightarrow> token_check t = Ok t' \<Longrightarrow> token_within (n - 1) t' \<and> 0 < n"
  by (cases t rule: token_check.cases) (auto simp: token_within_def)

lemma token_within_mono: "token_within n t \<Longrightarrow> n \<le> m \<Longrightarrow> token_within m t"
  by (auto simp: token_within_def)

lemma token_within_check': "token_within n t \<Longrightarrow> token_check t = Ok t' \<Longrightarrow> token_within n t'"
  using token_within_check token_within_mono by (meson diff_le_self)

lemma token_within_poll:
  assumes "token_within n t" and "token_poll t = (b, t')"
  shows "token_within n t'" and "\<not> b \<Longrightarrow> 0 < n \<and> token_within (n - 1) t'"
  using assms token_within_check [OF assms(1)] token_within_check' [OF assms(1)]
  by (auto simp: token_poll_def split: result.splits)

lemma acquire_loop_token:
  "token_within n t \<Longrightarrow> acquire_loop r began deadline k t e = (res, t', e') \<Longrightarrow> token_within n t'"
proof (induction r began deadline k t e arbitrary: res t' e' rule: acquire_loop.induct)
  case (1 r began deadline k t e)
  obtain a e1 where a: "set_fcntl_lock r e = (a, e1)" by fastforce
  note run = "1.prems"(2) [unfolded acquire_loop.simps [of r began deadline k t e] a prod.case]
  show ?case
  proof (cases "\<exists>t1. a = Contended \<and> token_check t = Ok t1")
    case False
    with run "1.prems"(1) show ?thesis by (auto split: lock_answer.splits result.splits)
  next
    case True
    then obtain t1 where t1: "a = Contended" "token_check t = Ok t1" by blast
    note w = token_within_check' [OF "1.prems"(1) t1(2)]
    obtain now e2 where now: "instant_now e1 = (now, e2)" by fastforce
    from run t1 now w show ?thesis
      using "1.IH" [OF a [symmetric] t1 now [symmetric] refl refl _ w]
      by (auto simp: Let_def split: if_splits prod.splits)
  qed
qed

lemma lock_exclusive_token:
  "token_within n t \<Longrightarrow> lock_exclusive d t e = (res, t', e') \<Longrightarrow> token_within n t'"
  by (auto simp: lock_exclusive_def acquire_write_lock_def Let_def split: prod.splits result.splits
      intro: acquire_loop_token)

lemma sleep_loop_token: "token_within n t \<Longrightarrow> sleep_loop d t e = (b, t', e') \<Longrightarrow> token_within n t'"
proof (induction d t e arbitrary: b t' e' rule: sleep_loop.induct)
  case (1 d t e)
  obtain b1 t1 where p: "token_poll t = (b1, t1)" by fastforce
  note w = token_within_poll(1) [OF "1.prems"(1) p]
  obtain now e1 where now: "instant_now e = (now, e1)" by fastforce
  show ?case
  proof (cases b1)
    case True
    with "1.prems"(2) p w show ?thesis by (simp add: sleep_loop.simps [of d t])
  next
    case False
    with "1.prems"(2) p w now show ?thesis
      using "1.IH" [OF p [symmetric] _ now [symmetric] refl refl _ w]
      by (auto simp: sleep_loop.simps [of d t] Let_def split: if_splits)
  qed
qed

lemma token_apply: "keeps (\<lambda>r. token_within n (rp_cancel r)) (apply_spooled ev spool ps)"
proof -
  have lock: "keeps (\<lambda>r. token_within n (rp_cancel r)) r_lock"
    by (rule keepsI) (auto simp: r_lock_def split: if_splits prod.splits dest: lock_exclusive_token)
  have "keeps (\<lambda>r. token_within n (rp_cancel r)) (write_pages ev dec ps)" for dec
    by (rule keepsI) (auto simp: write_pages_def Let_def split: option.splits prod.splits result.splits)
  moreover have "keeps (\<lambda>r. token_within n (rp_cancel r)) r_unlock" unfolding r_unlock_def by (rule keeps_mod) simp
  ultimately show ?thesis unfolding apply_spooled_def by (intro keeps_rules lock)
qed

interpretation token: replica_inv "\<lambda>r. token_within n (rp_cancel r)" for n
proof
  show "keeps (\<lambda>r. token_within n (rp_cancel r)) r_check"
    by (rule keepsI) (auto simp: r_check_def split: result.splits dest: token_within_check')
  show "keeps (\<lambda>r. token_within n (rp_cancel r)) r_poll"
    by (rule keepsI) (auto simp: r_poll_def split: prod.splits dest: token_within_poll)
  show "keeps (\<lambda>r. token_within n (rp_cancel r)) (sleep_checking d)" for d
    by (rule keepsI) (auto simp: sleep_checking_def Let_def split: prod.splits dest: sleep_loop_token)
qed (simp_all add: token_apply)

lemma sleep_loop_held: "le_held (snd (snd (sleep_loop d t e))) = le_held e"
proof (induction d t e rule: sleep_loop.induct)
  case (1 d t e)
  obtain b1 t1 where p: "token_poll t = (b1, t1)" by fastforce
  obtain now e1 where now: "instant_now e = (now, e1)" by fastforce
  note ih = "1.IH" [OF p [symmetric] _ now [symmetric] refl refl]
  show ?case
    by (subst sleep_loop.simps, cases b1)
       (use p now ih instant_now_facts(2) [OF now] in \<open>auto simp: Let_def thread_sleep_def\<close>)
qed

lemma sleep_checking_held: "le_held (rp_lock (snd (sleep_checking d r))) = le_held (rp_lock r)"
proof -
  obtain now e where now: "instant_now (rp_lock r) = (now, e)" by fastforce
  obtain b t e' where s: "sleep_loop (now + d) (rp_cancel r) e = (b, t, e')" by (metis prod_cases3)
  with sleep_loop_held [of "now + d" "rp_cancel r" e] now instant_now_facts(2) [OF now] show ?thesis by (simp add: sleep_checking_def)
qed

interpretation lock: replica_inv unlocked
proof
  show "keeps unlocked (apply_spooled ev spool ps)" for ev :: "'a replica_env" and spool ps
    by (rule keepsI) (rule apply_spooled_run(2))
  show "keeps unlocked r_check" by (rule keepsI) (auto simp: r_check_def unlocked_def split: result.splits)
  show "keeps unlocked r_poll" by (rule keepsI) (auto simp: r_poll_def unlocked_def split: prod.splits)
  show "keeps unlocked (sleep_checking d)" for d by (simp add: keeps_def unlocked_def sleep_checking_held)
qed (simp_all add: unlocked_def)

lemma follow_loop_stops:
  assumes "token_within n (rp_cancel r)" and "n < length buckets"
  shows "fst (follow_loop ev opts a buckets r) \<noteq> Ok None"
  using assms
proof (induction buckets arbitrary: n a r)
  case (Cons s buckets)
  obtain b t where p: "token_poll (rp_cancel r) = (b, t)" by fastforce
  let ?r = "r\<lparr>rp_client := s, rp_cancel := t\<rparr>"
  have poll: "r_poll (r\<lparr>rp_client := s\<rparr>) = (Ok b, ?r)" by (simp add: r_poll_def p)
  show ?case
  proof (cases b)
    case True
    with poll show ?thesis by (simp add: m_bind_def)
  next
    case False
    with token_within_poll(2) [OF Cons.prems(1) p] have n: "0 < n" "token_within (n - 1) (rp_cancel ?r)" by auto
    obtain v r2 where w: "follow_round ev opts a ?r = (v, r2)" by fastforce
    have "token_within (n - 1) (rp_cancel r2)" by (rule keepsD [OF token.keep_follow_round n(2) w])
    moreover have "n - 1 < length buckets" using Cons.prems(2) n(1) by simp
    ultimately have "fst (follow_loop ev opts a' buckets r2) \<noteq> Ok None" for a' by (rule Cons.IH)
    with False poll w show ?thesis by (auto simp: m_bind_def split: result.split round.split)
  qed
qed simp

lemma unlocked_client [simp]: "unlocked (r\<lparr>rp_client := s\<rparr>) = unlocked r"
  by (simp add: unlocked_def)

lemma follow_loop_unlocked:
  assumes "unlocked r" shows "unlocked (snd (follow_loop ev opts a buckets r))"
proof -
  have "keeps unlocked (follow_loop ev opts a buckets)"
  proof (induction buckets arbitrary: a)
    case Nil
    show ?case by (simp only: follow_loop.simps keeps_basic)
  next
    case (Cons s buckets)
    have "keeps unlocked (case nxt of Stop \<Rightarrow> m_ok (Some ()) | Again a \<Rightarrow> follow_loop ev opts a buckets)" for nxt
      using Cons.IH keeps_basic by (cases nxt) auto
    then show ?case unfolding follow_loop.simps
      by (intro keeps_rules keeps_mod lock.poll lock.keep_follow_round) simp_all
  qed
  with assms show ?thesis by (simp add: keeps_def)
qed

text \<open>Which errors an operation may raise.\<close>

definition raises :: "('e \<Rightarrow> bool) \<Rightarrow> ('s, 'e, 'a) action \<Rightarrow> bool" where
  "raises Q m \<longleftrightarrow> (\<forall>s e s'. m s = (Err e, s') \<longrightarrow> Q e)"

lemma raises_basic: "raises Q (m_ok x)" "raises Q m_get" "Q e \<Longrightarrow> raises Q (m_err e)" "raises Q (m_mod f)"
  by (simp_all add: raises_def)

lemma raises_bind: "raises Q m \<Longrightarrow> (\<And>x. raises Q (f x)) \<Longrightarrow> raises Q (m_bind m f)"
  by (auto simp: raises_def m_bind_def split: prod.splits result.splits)

lemma raises_try: "(\<And>e. raises Q (f (Err e))) \<Longrightarrow> (\<And>x. raises Q (f (Ok x))) \<Longrightarrow> raises Q (m_try m f)"
  by (auto simp: raises_def m_try_def split: prod.splits) (metis result.exhaust)

lemma raises_try_from: "raises R m \<Longrightarrow> (\<And>e. R e \<Longrightarrow> raises Q (f (Err e))) \<Longrightarrow> (\<And>x. raises Q (f (Ok x))) \<Longrightarrow> raises Q (m_try m f)"
  by (auto simp: raises_def m_try_def split: prod.splits) (metis result.exhaust)

lemma never_cancelled:
  "raises (\<lambda>e. e \<noteq> Cancelled) position" "raises (\<lambda>e. e \<noteq> Cancelled) open_db_for_apply"
  "raises (\<lambda>e. e \<noteq> Cancelled) r_poll" "raises (\<lambda>e. e \<noteq> Cancelled) (sleep_checking d)"
  by (auto simp: raises_def position_def read_txid_file_def open_db_for_apply_def read_page_size_def r_poll_def sleep_checking_def
      ok_or_def Let_def m_bind_def split: option.splits if_splits prod.splits)

lemma pause_never_cancelled: "raises (\<lambda>e. e \<noteq> Cancelled) (pause d a)"
  unfolding pause_def by (intro raises_bind raises_basic never_cancelled)

lemma retry_never_cancelled: "e \<noteq> Cancelled \<Longrightarrow> raises (\<lambda>e. e \<noteq> Cancelled) (retry_or_fail opts a e)"
  by (simp add: retry_or_fail_def raises_basic pause_never_cancelled split: option.split)

lemma stream_loop_never_cancelled: "raises (\<lambda>e. e \<noteq> Cancelled) (stream_loop ev ps pos made evs)"
proof (induction evs arbitrary: pos made)
  case Nil
  show ?case unfolding stream_loop.simps by (intro raises_bind raises_basic never_cancelled)
next
  case (Cons nxt evs)
  show ?case unfolding stream_loop.simps
    by (rule raises_bind [OF never_cancelled(3)])
       (auto simp: write_txid_file_def Cons.IH raises_basic intro!: raises_try raises_bind
         split: result.split prod.split stream_event.split option.split)
qed

lemma follow_stream_never_cancelled: "raises (\<lambda>e. e \<noteq> Cancelled) (follow_stream ev opts a pos made evs)"
  unfolding follow_stream_def
  by (rule raises_try_from [OF never_cancelled(2)])
     (auto simp: Let_def raises_basic retry_never_cancelled pause_never_cancelled
       intro!: raises_bind [OF stream_loop_never_cancelled] split: session_end.split option.split)

lemma follow_round_never_cancelled: "raises (\<lambda>e. e \<noteq> Cancelled) (follow_round ev opts a)"
proof -
  have "from_storage e \<noteq> Cancelled" if "e \<noteq> StCancelled" for e using that by (cases e) (simp_all add: from_storage_def)
  then have st: "raises (\<lambda>e. e \<noteq> Cancelled) (m_bind m_get (\<lambda>r.
         case re_stream ev (rp_client r) (pos + 1) of
           Err e \<Rightarrow> if e = StCancelled then m_ok Stop else retry_or_fail opts 0 (from_storage e)
         | Ok None \<Rightarrow> pause (fo_poll_interval opts) 0
         | Ok (Some evs) \<Rightarrow> follow_stream ev opts 0 pos (before < pos) evs))" for pos before
    by (intro raises_bind raises_basic)
       (auto simp: raises_basic retry_never_cancelled pause_never_cancelled follow_stream_never_cancelled split: result.split option.split)
  show ?thesis unfolding follow_round_def Let_def
    by (intro raises_bind [OF never_cancelled(1)] raises_bind [OF raises_basic(2)] raises_try)
       (auto simp: raises_basic pause_never_cancelled retry_never_cancelled intro!: raises_bind [OF never_cancelled(1)] st)
qed

lemma follow_loop_never_cancelled: "raises (\<lambda>e. e \<noteq> Cancelled) (follow_loop ev opts a buckets)"
proof (induction buckets arbitrary: a)
  case Nil
  show ?case unfolding follow_loop.simps by (rule raises_basic)
next
  case (Cons s buckets)
  show ?case unfolding follow_loop.simps
    by (intro raises_bind raises_basic never_cancelled)
       (auto intro!: raises_bind [OF follow_round_never_cancelled] simp: raises_basic Cons.IH split: round.split)
qed

text \<open>C20: following stops on cancellation, and cleanly.  A follower whose token is seen cancelled after \<open>n\<close>
  more looks returns within \<open>n + 1\<close> rounds, whatever the bucket, its streams and the readers of the
  file do; it returns without an error or with the error of a failed round, never with \<open>Cancelled\<close>,
  and leaves no lock on the file.\<close>

theorem follow_stops:
  assumes "n < length buckets" and "unlocked r"
  shows "\<exists>r'. unlocked r' \<and>
    (follow ev (CancelAfter n) opts buckets r = (Ok (Some ()), r') \<or>
     (\<exists>e. e \<noteq> Cancelled \<and> follow ev (CancelAfter n) opts buckets r = (Err e, r')))"
proof -
  let ?r = "r\<lparr>rp_cancel := CancelAfter n\<rparr>"
  have eq: "follow ev (CancelAfter n) opts buckets r = follow_loop ev opts 0 buckets ?r"
    by (simp add: follow_def r_set_cancel_def)
  obtain v r' where run: "follow_loop ev opts 0 buckets ?r = (v, r')" by fastforce
  have "token_within n (rp_cancel ?r)" by (simp add: token_within_def)
  from follow_loop_stops [OF this assms(1), of ev opts 0] run have v: "v \<noteq> Ok None" by simp
  have "unlocked ?r" using assms(2) by (simp add: unlocked_def)
  from follow_loop_unlocked [OF this, of ev opts 0 buckets] run have u: "unlocked r'" by simp
  show ?thesis
  proof (cases v)
    case (Err e)
    then have "e \<noteq> Cancelled" using follow_loop_never_cancelled [of ev opts 0 buckets] run by (auto simp: raises_def)
    with eq run Err u show ?thesis by auto
  next
    case (Ok x)
    with v eq run u show ?thesis by (cases x) auto
  qed
qed

theorem follow_stops_witness:
  "\<exists>r'. unlocked r' \<and>
    (follow (demo_replica_env (dir_client [])) (CancelAfter 2) follow_options_default
       [demo_l0_bucket, demo_l0_bucket, demo_l0_bucket] (demo_replica []) = (Ok (Some ()), r') \<or>
     (\<exists>e. e \<noteq> Cancelled \<and> follow (demo_replica_env (dir_client [])) (CancelAfter 2) follow_options_default
       [demo_l0_bucket, demo_l0_bucket, demo_l0_bucket] (demo_replica []) = (Err e, r')))"
  by (rule follow_stops) (simp_all add: unlocked_def demo_replica_def replica_open_def demo_lock_env_def)

text \<open>C19: with \<open>auto_reset\<close> off, which is the default, a follower stays on the history of the database.  While the
  bucket changes from round to round and files arrive over streams, all faithful to one history, and after any number
  of rounds, whether the follower still runs, was cancelled or failed: the recorded position has not gone back and the
  file lies between the state of that position and a later one.  (With \<open>auto_reset\<close> a replica ahead of its bucket is
  restored from it, and its position may go back.)\<close>

theorem follow_keeps_history:
  assumes "is_history ps H" and "re_client ev = dir_client root"
    and "\<forall>s \<in> set buckets. dir_inv s \<and> faithful_bucket (re_x ev) ps H (dir_contents root s) \<and>
      (\<forall>p evs. re_stream ev s p = Ok (Some evs) \<longrightarrow> faithful_stream (re_x ev) ps H evs)"
    and "rp_db r = Some f" and "between ps H from m f"
    and "fst (position r) = Ok from" and "from \<noteq> 0" and "\<not> ro_auto_reset (rp_opts r)"
    and "follow ev cancel opts buckets r = (res, r')"
  shows "\<exists>pos m' f'. fst (position r') = Ok pos \<and> from \<le> pos \<and> rp_db r' = Some f' \<and> between ps H pos m' f'"
proof -
  let ?S = "set buckets"
  have feeds: "dir.feeds root ev ps H ?S" using assms(1-3) by (simp add: dir.feeds_def)
  show ?thesis
  proof (cases buckets)
    case Nil
    with assms(9) have "r' = r\<lparr>rp_cancel := cancel\<rparr>" by (simp add: follow_def r_set_cancel_def)
    with assms(4-6) position_frame [of "r\<lparr>rp_cancel := cancel\<rparr>" r] show ?thesis by auto
  next
    case (Cons s ss)
    let ?r = "r\<lparr>rp_client := s, rp_cancel := cancel\<rparr>"
    have "fst (position ?r) = Ok from" using assms(6) by (cases "rp_txid r") (simp_all add: position_def read_txid_file_def)
    then have "following ps H ?S from ?r"
      using assms(4,5,7,8) Cons by (auto simp: following_def follower_def)
    moreover have "follow_loop ev opts 0 buckets ?r = (res, r')" using assms(9) Cons by (simp add: follow_def r_set_cancel_def)
    ultimately have "following ps H ?S from r'" using dir.follow_loop_follows [OF feeds order.refl] by blast
    then show ?thesis by (auto simp: following_def follower_def)
  qed
qed

text \<open>The second file of the chain arrives over a stream after the first round has applied it from the bucket.\<close>

definition demo_stream_env :: "file_system replica_env" where
  "demo_stream_env = (demo_replica_env (dir_client []))\<lparr>re_stream := (\<lambda>s t.
     Ok (Some [Ok (EvIdle (Some 2), []), Ok (EvLtx (mk_info 0 2 2 0 None), demo_readers ! 1), Ok (EvClosed, [])]))\<rparr>"

theorem follow_keeps_history_witness:
  "\<exists>pos m' f'. case follow demo_stream_env (CancelAfter 20) follow_options_default [demo_l0_bucket, demo_l0_bucket] (demo_replica []) of
     (res, r') \<Rightarrow> fst (position r') = Ok pos \<and> 1 \<le> pos \<and> rp_db r' = Some f' \<and> between 512 demo_history pos m' f'"
proof -
  let ?r = "demo_replica ([] :: file_system)"
  obtain res r' where run: "follow demo_stream_env (CancelAfter 20) follow_options_default [demo_l0_bucket, demo_l0_bucket] ?r = (res, r')"
    by fastforce
  have r: "rp_db ?r = Some (demo_page1 @ replicate 512 6)" "\<not> ro_auto_reset (rp_opts ?r)"
    "re_x demo_stream_env = demo_externs" "re_client demo_stream_env = dir_client []"
    by (simp_all add: demo_replica_def replica_open_def replica_options_default_def demo_stream_env_def demo_replica_env_def)
  have "faithful_stream demo_externs 512 demo_history evs" if "re_stream demo_stream_env s p = Ok (Some evs)" for s p evs
    using that demo_decode2 demo_faithful by (auto simp: demo_stream_env_def faithful_stream_def)
  moreover have "dir_inv demo_l0_bucket" by (simp add: dir_inv_def demo_l0_bucket_def)
  ultimately have feeds: "\<forall>s \<in> set [demo_l0_bucket, demo_l0_bucket]. dir_inv s \<and>
      faithful_bucket (re_x demo_stream_env) 512 demo_history (dir_contents [] s) \<and>
      (\<forall>p evs. re_stream demo_stream_env s p = Ok (Some evs) \<longrightarrow> faithful_stream (re_x demo_stream_env) 512 demo_history evs)"
    using demo_faithful_bucket by (simp add: r)
  from follow_keeps_history [OF demo_is_history r(4) feeds r(1) demo_between demo_position _ r(2) run] show ?thesis
    unfolding run by simp
qed

end
