(* ===== verification/ReplicaRestore.thy ===== *)
theory ReplicaRestore
  imports ReplicaFollow
begin

text \<open>
  The full restore of \<open>crates/liters/src/replica.rs\<close>: the image it materialises is the state of the
  history at the end of the restore plan.  The lemmas follow the image through its making: the files
  of the plan, their merge, the pages of the merged snapshot in order, the rewritten journal mode.
\<close>

section \<open>The image of a snapshot\<close>

lemma decode_database_pages_OkD:
  assumes "decode_database_pages x lock n pgnos d w = Ok (d', w')" and "decode_pages x d n = Ok (ps, dd)"
    and "distinct (map fst ps)"
  shows "\<exists>qs rest. ps = qs @ rest \<and> map fst qs = filter (\<lambda>k. k \<noteq> lock) pgnos \<and> decode_pages x d' n = Ok (rest, dd) \<and>
    w' = w @ database_image lock n ps pgnos"
  using assms
proof (induction pgnos arbitrary: d w ps)
  case Nil
  then show ?case by (simp add: database_image_def)
next
  case (Cons k pgnos)
  show ?case
  proof (cases "k = lock")
    case True
    with Cons.prems Cons.IH [of d "w @ replicate n 0" ps] show ?thesis by (auto simp: database_image_def)
  next
    case False
    from Cons.prems(1) False obtain p d1 where p: "decode_page x d n = Ok (p, d1)" by (auto simp: and_then_eq_Ok)
    with Cons.prems(1) False obtain hdr data where hp: "p = Some (hdr, data)" by (cases p) auto
    note step1 = p [unfolded hp]
    from Cons.prems(1) False step1 have step: "decode_page x d n = Ok (Some (hdr, data), d1)" "ph_pgno hdr = k"
      "decode_database_pages x lock n pgnos d1 (w @ data) = Ok (d', w')"
      by (auto split: if_splits)
    from step(1) Cons.prems(2) obtain qs where qs: "decode_pages x d1 n = Ok (qs, dd)" "ps = (k, data) # qs"
      by (subst (asm) decode_pages.simps) (auto simp: and_then_eq_Ok step(2))
    from Cons.IH [OF step(3) qs(1)] Cons.prems(3) qs(2) obtain qs1 rest where r: "qs = qs1 @ rest"
      "map fst qs1 = filter (\<lambda>k. k \<noteq> lock) pgnos" "decode_pages x d' n = Ok (rest, dd)" "w' = (w @ data) @ database_image lock n qs pgnos"
      by auto
    have "k \<notin> fst ` set qs" using Cons.prems(3) qs(2) by auto
    moreover have "k \<in> set (map fst qs1)" if "k \<in> set pgnos" unfolding r(2) using that False by simp
    ultimately have "k \<notin> set pgnos" using r(1) by auto
    then have "database_image lock n ps pgnos = database_image lock n qs pgnos"
      unfolding database_image_def qs(2) by (intro arg_cong [where f = concat] map_cong) auto
    then have "w' = w @ database_image lock n ps (k # pgnos)" using r(4) False qs(2) by (simp add: database_image_def)
    with r qs(2) False show ?thesis by (intro exI [of _ "(k, data) # qs1"] exI [of _ rest]) simp
  qed
qed

lemma decode_database_to_OkD:
  assumes "decode_database_to x w = Ok img" and "decode_file x w = Ok lx" and "distinct (map fst (f_pages lx))"
  shows "is_snapshot (f_header lx)"
    and "img = database_image (header_lock_pgno (f_header lx)) (unat (h_page_size (f_header lx))) (f_pages lx)
      (page_numbers (h_commit (f_header lx)))"
    and "map fst (f_pages lx) = filter (\<lambda>k. k \<noteq> header_lock_pgno (f_header lx)) (page_numbers (h_commit (f_header lx)))"
proof -
  let ?h = "f_header lx"
  let ?n = "unat (h_page_size ?h)" and ?lock = "header_lock_pgno ?h" and ?ks = "page_numbers (h_commit ?h)"
  from decode_file_OkD [OF assms(2)] obtain d dd where d: "decode_header (decoder_new w) = Ok d" "d_header d = ?h"
    "decode_pages x d ?n = Ok (f_pages lx, dd)" by blast
  from assms(1) d(1,2) obtain d1 p d2 img' where snap: "is_snapshot ?h"
    and run1: "decode_database_pages x ?lock ?n ?ks d [] = Ok (d1, img')" "decode_page x d1 ?n = Ok (p, d2)"
    by (auto simp: decode_database_to_def Let_def and_then_eq_Ok split: if_splits)
  from assms(1) d(1,2) snap run1 have "p = None \<and> img' = img"
    by (cases p) (auto simp: decode_database_to_def Let_def and_then_eq_Ok)
  with run1 have run: "decode_database_pages x ?lock ?n ?ks d [] = Ok (d1, img)" "decode_page x d1 ?n = Ok (None, d2)" by auto
  from decode_database_pages_OkD [OF run(1) d(3) assms(3)] obtain qs rest where r: "f_pages lx = qs @ rest"
    "map fst qs = filter (\<lambda>k. k \<noteq> ?lock) ?ks" "decode_pages x d1 ?n = Ok (rest, dd)" "img = database_image ?lock ?n (f_pages lx) ?ks"
    by auto
  from r(3) run(2) have "rest = []" by (subst (asm) decode_pages.simps) simp
  with r snap show "is_snapshot ?h" "img = database_image ?lock ?n (f_pages lx) ?ks"
    "map fst (f_pages lx) = filter (\<lambda>k. k \<noteq> ?lock) ?ks" by simp_all
qed

lemma nth_chunk:
  assumes "\<forall>c \<in> set cs. length c = n" and "i < length cs"
  shows "take n (drop (i * n) (concat cs)) = cs ! i"
  using assms
proof (induction cs arbitrary: i)
  case (Cons c cs)
  then show ?case by (cases i) (simp_all add: add.commute [of n])
qed simp

lemma page_numbers_nth:
  assumes "k \<noteq> 0" and "k \<le> c" shows "unat k - 1 < length (page_numbers c) \<and> page_numbers c ! (unat k - 1) = k"
proof -
  have "0 < unat k" "unat k \<le> unat c" using assms by (simp_all add: unat_gt_0 word_le_nat_alt)
  then have "[1..<Suc (unat c)] ! (unat k - 1) = unat k" by (subst nth_upt) simp_all
  with \<open>0 < unat k\<close> \<open>unat k \<le> unat c\<close> show ?thesis by (simp add: page_numbers_def del: upt_Suc)
qed

lemma page_of_image:
  assumes "\<forall>p \<in> set ps. length (snd p) = n" and "map fst ps = filter (\<lambda>k. k \<noteq> lock) (page_numbers c)" and "0 < n"
    and "k \<noteq> 0" and "k \<noteq> lock"
  shows "page_of n (database_image lock n ps (page_numbers c)) k = (if k \<le> c then map_of ps k else None)"
proof -
  let ?chunk = "\<lambda>k. if k = lock then replicate n 0 else the (map_of ps k)"
  let ?cs = "map ?chunk (page_numbers c)"
  have chunk: "\<exists>p. map_of ps j = Some p \<and> length p = n" if "j \<in> set (page_numbers c)" "j \<noteq> lock" for j
  proof -
    from that have "j \<in> set (map fst ps)" unfolding assms(2) by simp
    then obtain p where "map_of ps j = Some p" by (cases "map_of ps j") (auto simp: map_of_eq_None_iff)
    with assms(1) map_of_SomeD [OF this] show ?thesis by force
  qed
  have len: "\<forall>ch \<in> set ?cs. length ch = n" using chunk by fastforce
  have img: "database_image lock n ps (page_numbers c) = concat ?cs" by (simp add: database_image_def)
  have "length (concat ?cs) = unat c * n"
  proof -
    have "map length ?cs = replicate (length ?cs) n" using len by (intro replicate_eqI) auto
    then show ?thesis by (simp add: length_concat sum_list_replicate page_numbers_def del: map_map)
  qed
  show ?thesis
  proof (cases "k \<le> c")
    case True
    note nth = page_numbers_nth [OF assms(4) True]
    then have "k \<in> set (page_numbers c)" by (metis nth_mem)
    with chunk assms(5) obtain p where p: "map_of ps k = Some p" by blast
    have "take n (drop ((unat k - 1) * n) (concat ?cs)) = ?cs ! (unat k - 1)"
      by (rule nth_chunk [OF len]) (use nth in simp)
    also have "\<dots> = p" using nth p assms(5) by simp
    finally have "take n (drop ((unat k - 1) * n) (concat ?cs)) = p" .
    moreover have "unat k * n \<le> unat c * n" using True by (intro mult_right_mono) (simp_all add: word_le_nat_alt)
    ultimately show ?thesis using True p assms(4) \<open>length (concat ?cs) = unat c * n\<close> by (simp add: page_of_def img)
  next
    case False
    then have "unat c * n < unat k * n" using assms(3) by (intro mult_strict_right_mono) (simp_all add: word_le_nat_alt)
    then show ?thesis using False \<open>length (concat ?cs) = unat c * n\<close> by (simp add: page_of_def img)
  qed
qed

section \<open>The files of a plan\<close>

text \<open>The merge of a chain of faithful files from the beginning is the state at its end.\<close>

lemma overlay_history:
  assumes "H 0 = Map.empty" and "list_all2 (\<lambda>i lx. faithful ps H (fi_min_txid i) (fi_max_txid i) lx) plan files"
    and "chain 0 plan" and "plan \<noteq> []" and "content_page ps k" and "k \<le> h_commit (f_header (last files))"
  shows "overlay (map f_pages files) k = H (fi_max_txid (last plan)) k"
  using assms(2-4,6)
proof (induction plan arbitrary: files rule: rev_induct)
  case (snoc i plan)
  from snoc.prems(1) obtain fs lx where files: "files = fs @ [lx]" and
    fs: "list_all2 (\<lambda>i lx. faithful ps H (fi_min_txid i) (fi_max_txid i) lx) plan fs" and
    lx: "faithful ps H (fi_min_txid i) (fi_max_txid i) lx"
    by (auto simp: list_all2_append1 list_all2_Cons1)
  let ?b = "fi_max_txid i"
  have c: "is_contiguous (chain_end 0 plan) (fi_min_txid i) ?b" and pre: "chain 0 plan"
    using snoc.prems(2) by (simp_all add: chain_append)
  have k: "k \<le> h_commit (f_header lx)" using snoc.prems(4) files by simp
  show ?case
  proof (cases "map_of (f_pages lx) k")
    case (Some p)
    with lx assms(5) k have "H ?b k = Some p" unfolding faithful_def by fastforce
    with Some show ?thesis by (simp add: files overlay_append map_add_def)
  next
    case None
    let ?s = "chain_end 0 plan"
    have "unat (fi_min_txid i) \<le> unat ?s + 1 \<and> ?s \<le> ?b" using c by (simp add: is_contiguous_unat word_le_nat_alt)
    with lx assms(5) k None have eq: "H ?s k = H ?b k" unfolding faithful_def by fastforce
    moreover have "H ?b k \<noteq> None" using lx assms(5) k unfolding faithful_def by blast
    ultimately have some: "H ?s k \<noteq> None" by simp
    then have ne: "plan \<noteq> []" using assms(1) by (auto simp: chain_end_def)
    with fs have fsne: "fs \<noteq> []" by auto
    have s: "?s = fi_max_txid (last plan)" using ne by (simp add: chain_end_def)
    obtain plan' j where plan: "plan = plan' @ [j]" using ne by (cases plan rule: rev_cases) auto
    have "faithful ps H (fi_min_txid (last plan)) (fi_max_txid (last plan)) (last fs)"
      using fs unfolding plan by (auto simp: list_all2_append1 list_all2_Cons1)
    then have "k \<le> h_commit (f_header (last fs))" using some assms(5) unfolding s faithful_def by auto
    from snoc.IH [OF fs pre ne this] eq None s show ?thesis by (simp add: files overlay_append map_add_def)
  qed
qed simp

lemma faithful_ascending: "faithful ps H a b lx \<Longrightarrow> ascending (f_pages lx)"
  by (simp add: faithful_def)

lemma valid_file_page_size: "decode_file x b = Ok lx \<Longrightarrow> is_valid_page_size (h_page_size (f_header lx))"
proof -
  assume "decode_file x b = Ok lx"
  from decode_file_OkD [OF this] obtain d where "decode_header (decoder_new b) = Ok d" "d_header d = f_header lx" by blast
  with decode_header_valid have "header_validate (f_header lx) = Ok ()" by metis
  then show ?thesis by (auto simp: header_validate_def split: if_splits)
qed

lemma pages_sized: "decode_file x b = Ok lx \<Longrightarrow> \<forall>p \<in> set (f_pages lx). length (snd p) = unat (h_page_size (f_header lx))"
  using decode_file_OkD decode_pages_OkD by blast

text \<open>Presenting the image as a rollback-journal database changes the masked bytes only.\<close>

lemma presented_pages:
  assumes "100 \<le> n" and "n \<le> length f"
  shows "masked (page_of n (present_as_rollback_journal f)) k = masked (page_of n f) k"
proof -
  let ?g = "write_all_at f [1, 1] 18"
  have g: "present_as_rollback_journal f = ?g" "length ?g = length f"
    using assms by (simp_all add: present_as_rollback_journal_def write_all_at_length)
  show ?thesis
  proof (cases "page_of n f k")
    case None
    then have "page_of n ?g k = None" using g(2) by (simp add: page_of_None)
    with None show ?thesis by (simp add: masked_def g(1))
  next
    case (Some p)
    then have k: "k \<noteq> 0" "unat k * n \<le> length f" and p: "p = take n (drop ((unat k - 1) * n) f)"
      by (auto simp: page_of_def split: if_splits)
    show ?thesis
    proof (cases "k = 1")
      case True
      have p1: "p = take n f" using p True by simp
      have "page_of n ?g k = Some (take n ?g)" using True assms(2) g(2) by (simp add: page_of_def)
      moreover have "present_page 0 (take n ?g) = present_page 0 p" unfolding p1
        by (rule nth_equalityI) (use assms g(2) in \<open>auto simp: present_page_length present_page_nth write_all_at_nth\<close>)
      ultimately show ?thesis using Some True assms g p1 by (simp add: masked_def mask_page_def)
    next
      case False
      then have "2 \<le> unat k" using k(1) by (metis One_nat_def Suc_1 Suc_leI le_neq_implies_less not_less_eq_eq unat_1 unat_gt_0 word_unat_eq_iff)
      then have off: "100 \<le> (unat k - 1) * n" using assms(1) by (cases "unat k") (auto intro: order.trans [OF assms(1)])
      have "page_of n ?g k = Some p"
        by (rule page_of_eqI [OF Some]) (use k off page_range [OF k(1), of n] g(2) in \<open>auto simp: write_all_at_nth\<close>)
      with Some show ?thesis by (simp add: masked_def g)
    qed
  qed
qed

text \<open>The image of a chain of faithful files from the beginning is the state at its end.\<close>

lemma restore_image_exact:
  assumes lz4: "lz4_ok (re_x ev)" and hist: "is_history ps H" and img: "restore_image ev rdrs = Ok img"
    and plan: "chain 0 plan" "plan \<noteq> []"
    and files: "list_all2 (\<lambda>i d. \<forall>lx. decode_file (re_x ev) d = Ok lx \<longrightarrow> faithful ps H (fi_min_txid i) (fi_max_txid i) lx) plan rdrs"
  shows "exactly ps (H (fi_max_txid (last plan))) img"
proof -
  let ?x = "re_x ev" and ?n = "unat ps"
  from img obtain w h t f where c: "compact ?x HEADER_FLAG_NO_CHECKSUM False rdrs = Ok (w, h, t)"
    and f: "decode_database_to ?x w = Ok f" "img = present_as_rollback_journal f"
    by (auto simp: restore_image_def and_then_eq_Ok map_err_eq_Ok)
  from compact_OkD [OF c] obtain fs where fs: "list_all2 (\<lambda>r lx. decode_file ?x r = Ok lx) rdrs fs" by blast
  note d = compact_decode [OF lz4 c fs]
  have fa: "list_all2 (\<lambda>i lx. faithful ps H (fi_min_txid i) (fi_max_txid i) lx) plan fs"
    using files fs unfolding list_all2_conv_all_nth by metis
  have asc: "\<forall>q \<in> set (map f_pages fs). ascending q"
    using fa by (induction rule: list_all2_induct) (auto dest: faithful_ascending)
  obtain plan' i fs' lx where last: "plan = plan' @ [i]" "fs = fs' @ [lx]" and lx: "faithful ps H (fi_min_txid i) (fi_max_txid i) lx"
    using fa plan(2) by (cases plan rule: rev_cases) (auto simp: list_all2_append1 list_all2_Cons1)
  let ?pages = "merge_pages (h_commit h) (map f_pages fs)"
  have com: "h_commit h = h_commit (f_header lx)" using d(4) last by (simp add: compact_header_def)
  have "h_page_size (f_header (hd fs)) = h_page_size (f_header lx)"
    using check_inputs_page_size [OF d(3), of "f_header lx"] last(2) hd_map [OF d(2), of f_header] by simp
  then have psz: "h_page_size h = ps" using d(4) lx by (simp add: compact_header_def faithful_def)
  note merged = merge_pages_spec [OF asc, of "h_commit h"]
  have "distinct (map fst (f_pages (h, ?pages, t)))" using merged by (simp add: ascending_distinct)
  note snap = decode_database_to_OkD [OF f(1) d(1) this]
  have n: "512 \<le> ?n" using hist valid_page_size_unat(1) by (auto simp: is_history_def)
  have pages: "page_of ?n f k = H (fi_max_txid i) k" if k: "content_page ps k" for k
  proof -
    have "page_of ?n f k = (if k \<le> h_commit h then map_of ?pages k else None)"
      unfolding snap(2) f_simps psz
      by (rule page_of_image) (use snap(3) pages_sized [OF d(1)] psz n k in \<open>auto simp: content_page_def header_lock_pgno_def\<close>)
    also have "\<dots> = H (fi_max_txid i) k"
    proof (cases "k \<le> h_commit h")
      case True
      have "overlay (map f_pages fs) k = H (fi_max_txid (last plan)) k"
        by (rule overlay_history [OF _ fa plan k]) (use True com last hist in \<open>auto simp: is_history_def\<close>)
      with True merged last show ?thesis by simp
    next
      case False
      then show ?thesis using lx k com by (auto simp: faithful_def)
    qed
    finally show ?thesis .
  qed
  have "content_page ps 1" using hist valid_page_size_cases [of ps]
    by (auto simp: is_history_def content_page_def lock_pgno_def PENDING_BYTE_def)
  moreover have "1 \<le> h_commit (f_header lx)" using lx by (simp add: faithful_def word_le_nat_alt word_less_nat_alt)
  ultimately have "H (fi_max_txid i) 1 \<noteq> None" using lx by (auto simp: faithful_def)
  with pages [OF \<open>content_page ps 1\<close>] have "?n \<le> length f" by (auto simp: page_of_def split: if_splits)
  then show ?thesis using presented_pages [of ?n f] n pages by (simp add: exactly_def f(2) last masked_def)
qed

section \<open>A restore against the history\<close>

interpretation client: replica_inv "\<lambda>r. rp_client r = s" for s
proof
  show "keeps (\<lambda>r. rp_client r = s) (apply_spooled ev spool ps)" for ev :: "'a replica_env" and spool ps
    by (rule keepsI) (auto dest!: apply_spooled_run(1) simp: frame_def)
  show "keeps (\<lambda>r. rp_client r = s) r_check" by (rule keepsI) (auto simp: r_check_def split: result.splits)
  show "keeps (\<lambda>r. rp_client r = s) r_poll" by (rule keepsI) (auto simp: r_poll_def split: prod.splits)
  show "keeps (\<lambda>r. rp_client r = s) (sleep_checking d)" for d
    by (rule keepsI) (auto simp: sleep_checking_def Let_def split: prod.splits)
qed simp_all

lemma open_plan_OkD:
  assumes "open_plan ev infos r = (Ok rdrs, r')"
  shows "list_all2 (\<lambda>i d. open_ltx_file (re_client ev) (rp_client r) (fi_level i) (fi_min_txid i) (fi_max_txid i) 0 0 = Ok d) infos rdrs"
  using assms
proof (induction infos arbitrary: r rdrs)
  case (Cons i infos)
  from Cons.prems obtain r1 d ds where step: "r_check r = (Ok (), r1)" "r_open_file ev i r1 = (Ok d, r1)"
    "open_plan ev infos r1 = (Ok ds, r')" "rdrs = d # ds"
    by (auto simp: m_bind_eq_Ok r_open_file_def)
  have "rp_client r1 = rp_client r" by (rule keepsD [OF client.check refl step(1)])
  with Cons.IH [OF step(3)] step(2,4) show ?case by (simp add: r_open_file_def map_err_eq_Ok)
qed simp

text \<open>The local files between a started restore and its outcome.\<close>

lemma r_check_same: "r_check r = (res, r1) \<Longrightarrow> rp_db r1 = rp_db r \<and> rp_txid r1 = rp_txid r \<and> rp_side r1 = rp_side r \<and>
    rp_opts r1 = rp_opts r \<and> rp_client r1 = rp_client r"
  by (auto simp: r_check_def split: result.splits)

lemma open_plan_same:
  "open_plan ev infos r = (res, r1) \<Longrightarrow> rp_db r1 = rp_db r \<and> rp_txid r1 = rp_txid r \<and> rp_side r1 = rp_side r \<and> rp_opts r1 = rp_opts r"
proof (induction infos arbitrary: r res r1)
  case (Cons i infos)
  obtain c r2 where c: "r_check r = (c, r2)" by fastforce
  note same = r_check_same [OF c]
  obtain d where d: "r_open_file ev i r2 = (d, r2)" by (simp add: r_open_file_def)
  obtain v r3 where v: "open_plan ev infos r2 = (v, r3)" by fastforce
  from Cons.IH [OF v] Cons.prems c d v same show ?case by (auto simp: m_bind_def split: result.splits)
qed simp

text \<open>What the integrity check reports of an image.\<close>

definition checked :: "'s replica_env \<Rightarrow> integrity_check \<Rightarrow> byte list \<Rightarrow> string res" where
  "checked ev mode img = (case pragma_of mode of None \<Rightarrow> Ok ''ok'' | Some pragma \<Rightarrow> re_integrity ev pragma img)"

lemma check_integrity_run:
  assumes "rp_db r = Some img"
  shows "check_integrity ev r =
    (case checked ev (ro_integrity_check (rp_opts r)) img of
       Err e \<Rightarrow> (Err e, r)
     | Ok s \<Rightarrow> if s = ''ok'' then (Ok (), r)
               else (Err (Other (''post-restore integrity check failed: '' @ s)), r\<lparr>rp_db := None\<rparr>))"
  using assms by (auto simp: check_integrity_def checked_def m_bind_def split: option.split result.split)

text \<open>A run of \<open>full_restore\<close>: it stops before the image is in place, or the check decides.\<close>

lemma full_restore_run:
  assumes "full_restore ev r = (res, r')"
  shows "(\<exists>e. res = Err e) \<and> rp_db r' = rp_db r \<and> rp_txid r' = rp_txid r \<and> rp_side r' = rp_side r \<or>
    (\<exists>plan rdrs img. calc_restore_plan (re_client ev) (rp_client r) 0 = Ok plan \<and>
       list_all2 (\<lambda>i d. open_ltx_file (re_client ev) (rp_client r) (fi_level i) (fi_min_txid i) (fi_max_txid i) 0 0 = Ok d) plan rdrs \<and>
       restore_image ev rdrs = Ok img \<and> rp_side r' = filter (\<lambda>s. s \<noteq> ''-wal'' \<and> s \<noteq> ''-shm'') (rp_side r) \<and>
       (case checked ev (ro_integrity_check (rp_opts r)) img of
          Err e \<Rightarrow> res = Err e \<and> rp_db r' = Some img \<and> rp_txid r' = rp_txid r
        | Ok s \<Rightarrow> if s = ''ok'' then res = Ok (fi_max_txid (last plan)) \<and> rp_db r' = Some img \<and>
             rp_txid r' = Some (txid_display (fi_max_txid (last plan)) @ [CHR 0x0A])
           else (\<exists>e. res = Err e) \<and> rp_db r' = None \<and> rp_txid r' = rp_txid r))"
proof -
  let ?early = "(\<exists>e. res = Err e) \<and> rp_db r' = rp_db r \<and> rp_txid r' = rp_txid r \<and> rp_side r' = rp_side r"
  note run = assms [unfolded full_restore_def m_bind_simps]
  show ?thesis
  proof (cases "calc_restore_plan (re_client ev) (rp_client r) 0")
    case (Err e)
    with run show ?thesis by auto
  next
    case plan: (Ok plan)
    show ?thesis
    proof (cases "check_sizes plan")
      case (Err e)
      with run plan show ?thesis by auto
    next
      case sizes: (Ok u)
      obtain v r1 where op: "open_plan ev plan r = (v, r1)" by fastforce
      note same1 = open_plan_same [OF op]
      show ?thesis
      proof (cases v)
        case (Err e)
        with run plan sizes op same1 show ?thesis by (auto simp: m_bind_def)
      next
        case rdrs: (Ok rdrs)
        show ?thesis
        proof (cases "restore_image ev rdrs")
          case (Err e)
          with run plan sizes op rdrs same1 show ?thesis by (auto simp: m_bind_def)
        next
          case img: (Ok img)
          obtain c r2 where c: "r_check r1 = (c, r2)" by fastforce
          note same2 = r_check_same [OF c]
          show ?thesis
          proof (cases c)
            case (Err e)
            with run plan sizes op rdrs img c have "res = Err e" "r' = r2"
              by (simp_all add: m_bind_def [of "open_plan ev plan"] m_bind_def [of r_check] Let_def)
            with same1 same2 show ?thesis by auto
          next
            case (Ok u)
            let ?r = "r2\<lparr>rp_db := Some img, rp_side := filter (\<lambda>s. s \<noteq> ''-wal'' \<and> s \<noteq> ''-shm'') (rp_side r2)\<rparr>"
            have fin: "(res, r') = m_then (check_integrity ev) (m_then (write_txid_file (fi_max_txid (last plan))) (m_ok (fi_max_txid (last plan)))) ?r"
              using run plan sizes op rdrs img c Ok by (simp add: m_bind_def [of "open_plan ev plan"] m_bind_def [of r_check] Let_def)
            let ?v = "checked ev (ro_integrity_check (rp_opts r)) img"
            have chk: "check_integrity ev ?r = (case ?v of Err e \<Rightarrow> (Err e, ?r)
              | Ok s \<Rightarrow> if s = ''ok'' then (Ok (), ?r)
                  else (Err (Other (''post-restore integrity check failed: '' @ s)), ?r\<lparr>rp_db := None\<rparr>))"
              using check_integrity_run [of ?r img ev] same1 same2 by simp
            have "rp_side r' = filter (\<lambda>s. s \<noteq> ''-wal'' \<and> s \<noteq> ''-shm'') (rp_side r) \<and>
              (case ?v of
                 Err e \<Rightarrow> res = Err e \<and> rp_db r' = Some img \<and> rp_txid r' = rp_txid r
               | Ok s \<Rightarrow> if s = ''ok'' then res = Ok (fi_max_txid (last plan)) \<and> rp_db r' = Some img \<and>
                    rp_txid r' = Some (txid_display (fi_max_txid (last plan)) @ [CHR 0x0A])
                  else (\<exists>e. res = Err e) \<and> rp_db r' = None \<and> rp_txid r' = rp_txid r)"
            proof (cases ?v)
              case (Err e)
              with fin chk same1 same2 show ?thesis by (simp add: m_bind_def)
            next
              case (Ok s)
              with fin chk same1 same2 show ?thesis by (cases "s = ''ok''") (simp_all add: m_bind_def write_txid_file_def)
            qed
            with plan open_plan_OkD [OF op [unfolded rdrs]] img show ?thesis by blast
          qed
        qed
      qed
    qed
  qed
qed

lemma full_restore_OkD:
  assumes "full_restore ev r = (Ok to, r')"
  shows "\<exists>plan rdrs img. calc_restore_plan (re_client ev) (rp_client r) 0 = Ok plan \<and>
     list_all2 (\<lambda>i d. open_ltx_file (re_client ev) (rp_client r) (fi_level i) (fi_min_txid i) (fi_max_txid i) 0 0 = Ok d) plan rdrs \<and>
     restore_image ev rdrs = Ok img \<and> rp_side r' = filter (\<lambda>s. s \<noteq> ''-wal'' \<and> s \<noteq> ''-shm'') (rp_side r) \<and>
     to = fi_max_txid (last plan) \<and> rp_db r' = Some img \<and> rp_txid r' = Some (txid_display to @ [CHR 0x0A])"
  using full_restore_run [OF assms]
proof (elim disjE exE conjE)
  fix plan rdrs img
  assume "calc_restore_plan (re_client ev) (rp_client r) 0 = Ok plan" "restore_image ev rdrs = Ok img"
    "list_all2 (\<lambda>i d. open_ltx_file (re_client ev) (rp_client r) (fi_level i) (fi_min_txid i) (fi_max_txid i) 0 0 = Ok d) plan rdrs"
    "rp_side r' = filter (\<lambda>s. s \<noteq> ''-wal'' \<and> s \<noteq> ''-shm'') (rp_side r)"
    "case checked ev (ro_integrity_check (rp_opts r)) img of
          Err e \<Rightarrow> Ok to = Err e \<and> rp_db r' = Some img \<and> rp_txid r' = rp_txid r
        | Ok s \<Rightarrow> if s = ''ok'' then Ok to = (Ok (fi_max_txid (last plan)) :: txid res) \<and> rp_db r' = Some img \<and>
             rp_txid r' = Some (txid_display (fi_max_txid (last plan)) @ [CHR 0x0A])
           else (\<exists>e. Ok to = (Err e :: txid res)) \<and> rp_db r' = None \<and> rp_txid r' = rp_txid r"
  then show ?thesis by (intro exI [of _ plan] exI [of _ rdrs] exI [of _ img]) (auto split: result.splits if_splits)
qed simp

lemma sync_with_restored:
  assumes "sync_with ev cancel r = (Ok sr, r')" and "sr_restored sr"
  shows "\<exists>r1. rp_client r1 = rp_client r \<and> full_restore ev r1 = (Ok (sr_to_txid sr), r')"
proof -
  let ?r = "r\<lparr>rp_cancel := cancel\<rparr>"
  have client: "rp_client r1 = rp_client r" if "incremental_sync ev t0 ?r = (v, r1)" for t0 v r1
    using keepsD [OF client.keep_incremental _ that] by simp
  have read: "snd (read_txid_file ?r) = ?r" by (simp add: read_txid_file_def)
  from assms show ?thesis
  proof (cases "rp_db r = None \<or> fst (read_txid_file ?r) = Ok 0")
    case True
    with assms read show ?thesis
      by (intro exI [of _ ?r]) (cases "full_restore ev ?r"; cases "read_txid_file ?r",
        auto simp: sync_with_def r_set_cancel_def m_bind_def [of "full_restore ev"] m_bind_def [of read_txid_file]
          txid_is_zero_def split: if_splits result.splits)
  next
    case False
    then obtain f where f: "rp_db r = Some f" by auto
    obtain t0 where t0: "read_txid_file ?r = (Ok t0, ?r)" "t0 \<noteq> 0"
      using assms False f read
      by (cases "read_txid_file ?r") (auto simp: sync_with_def r_set_cancel_def m_bind_def [of read_txid_file] split: result.splits)
    obtain v r1 where v: "incremental_sync ev t0 ?r = (v, r1)" by fastforce
    from assms f t0 v have "full_restore ev r1 = (Ok (sr_to_txid sr), r')"
      by (auto simp: sync_with_def r_set_cancel_def m_bind_def [of "full_restore ev"] m_bind_def [of read_txid_file]
          m_try_def txid_is_zero_def split: if_splits result.splits error.splits prod.splits)
    with client [OF v] show ?thesis by blast
  qed
qed

text \<open>A plan over a faithful bucket is a chain from the beginning.\<close>

lemma plan_files:
  assumes "is_history ps H" and "dir_inv s" and "faithful_bucket x ps H (dir_contents root s)"
    and "calc_restore_plan (dir_client root) s 0 = Ok plan"
    and "list_all2 (\<lambda>i d. open_ltx_file (dir_client root) s (fi_level i) (fi_min_txid i) (fi_max_txid i) 0 0 = Ok d) plan rdrs"
    and "list_all2 (\<lambda>d lx. decode_file x d = Ok lx) rdrs files"
  shows "chain 0 plan"
    and "list_all2 (\<lambda>i d. \<forall>lx. decode_file x d = Ok lx \<longrightarrow> faithful ps H (fi_min_txid i) (fi_max_txid i) lx) plan rdrs"
proof -
  note spec = dir.restore_plan_spec [OF assms(2,4)]
  have stored: "\<exists>t. dir_contents root s (fi_level i, fi_min_txid i, fi_max_txid i) = Some (d, t)"
    if "open_ltx_file (dir_client root) s (fi_level i) (fi_min_txid i) (fi_max_txid i) 0 0 = Ok d" for i :: file_info and d
    by (rule dir.open_ltx_file_Ok [OF assms(2) that])
  have fa: "faithful ps H (fi_min_txid i) (fi_max_txid i) lx \<and> (fi_level i = SNAPSHOT_LEVEL \<longrightarrow> fi_min_txid i \<le> 1)"
    if "open_ltx_file (dir_client root) s (fi_level i) (fi_min_txid i) (fi_max_txid i) 0 0 = Ok d" "decode_file x d = Ok lx" for i :: file_info and d lx
    using stored [OF that(1)] that(2) assms(3) unfolding faithful_bucket_def by blast
  show "list_all2 (\<lambda>i d. \<forall>lx. decode_file x d = Ok lx \<longrightarrow> faithful ps H (fi_min_txid i) (fi_max_txid i) lx) plan rdrs"
    by (rule list_all2_mono [OF assms(5)]) (use fa in blast)
  from spec(3) show "chain 0 plan"
  proof
    assume snap: "fi_level (hd plan) = SNAPSHOT_LEVEL \<and> chain (fi_max_txid (hd plan)) (tl plan)"
    obtain i plan' where plan: "plan = i # plan'" using spec(1) by (cases plan) auto
    with assms(5,6) obtain d lx where d: "open_ltx_file (dir_client root) s (fi_level i) (fi_min_txid i) (fi_max_txid i) 0 0 = Ok d"
      "decode_file x d = Ok lx" by (auto simp: list_all2_Cons1)
    from fa [OF d] snap plan have f: "faithful ps H (fi_min_txid i) (fi_max_txid i) lx" "fi_min_txid i \<le> 1" by auto
    have "content_page ps 1" using assms(1) valid_page_size_cases [of ps]
      by (auto simp: is_history_def content_page_def lock_pgno_def PENDING_BYTE_def)
    moreover have "1 \<le> h_commit (f_header lx)" using f(1) by (simp add: faithful_def word_le_nat_alt word_less_nat_alt)
    ultimately have "H (fi_max_txid i) 1 \<noteq> None" using f(1) by (auto simp: faithful_def)
    then have "fi_max_txid i \<noteq> 0" using assms(1) by (auto simp: is_history_def)
    then have "is_contiguous 0 (fi_min_txid i) (fi_max_txid i)"
      using f(2) by (simp add: is_contiguous_unat word_le_nat_alt unat_gt_0)
    with snap plan show "chain 0 plan" by simp
  qed
qed

text \<open>C17: a restoring sync materialises the newest state.  Over a bucket whose readable files are faithful
  to the history, a sync that reports a restore (of a missing replica, one without a position, or
  one that has diverged) leaves a database file that is exactly the state of the transaction it
  reports, records that position, leaves no WAL beside the file, and that transaction is the newest one of the bucket: no
  file of the levels 0 to 8 reaches further, and no snapshot of level 9 does, as long as no other snapshot starts at
  a later transaction (all that the writer makes start at 1).\<close>

theorem restored_sync_exact:
  assumes "lz4_ok (re_x ev)" and "is_history ps H" and "dir_inv (rp_client r)"
    and "faithful_bucket (re_x ev) ps H (dir_contents root (rp_client r))" and "re_client ev = dir_client root"
    and "sync_with ev cancel r = (Ok sr, r')" and "sr_restored sr"
  shows "\<exists>f'. rp_db r' = Some f' \<and> exactly ps (H (sr_to_txid sr)) f' \<and> fst (position r') = Ok (sr_to_txid sr) \<and>
    ''-wal'' \<notin> set (rp_side r') \<and> ''-shm'' \<notin> set (rp_side r') \<and>
    (\<forall>level a b. level \<le> SNAPSHOT_LEVEL \<and> dir_contents root (rp_client r) (level, a, b) \<noteq> None \<and>
       (level = SNAPSHOT_LEVEL \<longrightarrow> (\<forall>a' b'. dir_contents root (rp_client r) (SNAPSHOT_LEVEL, a', b') \<noteq> None \<longrightarrow> a' \<le> a)) \<longrightarrow>
       b \<le> sr_to_txid sr)"
proof -
  from sync_with_restored [OF assms(6,7)] obtain r1 where r1: "rp_client r1 = rp_client r" "full_restore ev r1 = (Ok (sr_to_txid sr), r')"
    by blast
  from full_restore_OkD [OF r1(2), unfolded r1(1) assms(5)] obtain plan rdrs img where
    plan: "calc_restore_plan (dir_client root) (rp_client r) 0 = Ok plan" and
    rdrs: "list_all2 (\<lambda>i d. open_ltx_file (dir_client root) (rp_client r) (fi_level i) (fi_min_txid i) (fi_max_txid i) 0 0 = Ok d) plan rdrs" and
    img: "restore_image ev rdrs = Ok img" and side: "rp_side r' = filter (\<lambda>s. s \<noteq> ''-wal'' \<and> s \<noteq> ''-shm'') (rp_side r1)" and
    out: "sr_to_txid sr = fi_max_txid (last plan)" "rp_db r' = Some img" "rp_txid r' = Some (txid_display (sr_to_txid sr) @ [CHR 0x0A])"
    by blast
  from img obtain w h t where "compact (re_x ev) HEADER_FLAG_NO_CHECKSUM False rdrs = Ok (w, h, t)"
    by (auto simp: restore_image_def and_then_eq_Ok map_err_eq_Ok)
  from compact_OkD [OF this] obtain files where "list_all2 (\<lambda>d lx. decode_file (re_x ev) d = Ok lx) rdrs files" by blast
  note pf = plan_files [OF assms(2-4) plan rdrs this]
  note spec = dir.restore_plan_spec [OF assms(3) plan]
  have "exactly ps (H (sr_to_txid sr)) img"
    unfolding out(1) by (rule restore_image_exact [OF assms(1,2) img pf(1) spec(1) pf(2)])
  moreover have "fst (position r') = Ok (sr_to_txid sr)"
    by (simp add: position_def read_txid_file_def out str_trim_line [OF txid_display_not_space(2,1)])
  moreover have "b \<le> sr_to_txid sr" if "level \<le> SNAPSHOT_LEVEL" "dir_contents root (rp_client r) (level, a, b) \<noteq> None"
    "level = SNAPSHOT_LEVEL \<longrightarrow> (\<forall>a' b'. dir_contents root (rp_client r) (SNAPSHOT_LEVEL, a', b') \<noteq> None \<longrightarrow> a' \<le> a)" for level a b
  proof (cases "level = SNAPSHOT_LEVEL")
    case True
    then show ?thesis unfolding out(1) using spec(6) [OF refl] that by blast
  next
    case False
    then have "level < SNAPSHOT_LEVEL" using that(1) by simp
    then show ?thesis unfolding out(1) using spec(5) [OF refl] that(2) by blast
  qed
  moreover have "''-wal'' \<notin> set (rp_side r')" "''-shm'' \<notin> set (rp_side r')" using side by simp_all
  ultimately show ?thesis using out(2) by blast
qed

text \<open>A bucket with one snapshot, and a replica that does not exist yet.\<close>

definition demo_snap_pages :: pages where "demo_snap_pages = [(1, demo_page1), (2, replicate 512 6)]"

definition demo_snap :: "byte list" where "demo_snap = file_bytes demo_externs demo_header demo_snap_pages 0"

definition demo_snap_bucket :: file_system where
  "demo_snap_bucket = [([''ltx'', ''9'', format_filename 1 1], demo_snap, 0)]"

lemma demo_page1_length: "length demo_page1 = 512" by (simp add: demo_page1_def)

lemma demo_encode_snap:
  "encode_file demo_externs demo_header demo_snap_pages 0 = Ok (demo_snap, demo_header, file_trailer demo_externs demo_header demo_snap_pages 0)"
proof -
  have "is_ok (encode_file demo_externs demo_header demo_snap_pages 0)"
    using demo_header_valid demo_header_no_checksum by (simp add: demo_encode_simps demo_snap_pages_def demo_header_fields demo_page1_length)
  then show ?thesis by (auto simp: is_ok_iff demo_snap_def dest: encode_file_OkD)
qed

lemma demo_decode_snap:
  "decode_file demo_externs demo_snap = Ok (demo_header, demo_snap_pages, file_trailer demo_externs demo_header demo_snap_pages 0)"
  using decode_file_encode [OF demo_lz4_ok demo_encode_snap] by (simp add: demo_header_no_checksum)

lemma demo_snap_image: "restore_image (demo_replica_env c) [demo_snap] = Ok (present_as_rollback_journal (demo_page1 @ replicate 512 6))"
proof -
  let ?lx = "(demo_header, demo_snap_pages, file_trailer demo_externs demo_header demo_snap_pages 0)"
  have h: "compact_header HEADER_FLAG_NO_CHECKSUM demo_header demo_header = demo_header"
    by (simp add: compact_header_def demo_header_def header_default_def HEADER_FLAG_NO_CHECKSUM_def)
  have m: "merge_pages 2 [demo_snap_pages] = demo_snap_pages"
    by (simp add: demo_snap_pages_def Let_def head_pgno_def drop_page_def merge_pages.simps [of 2 "[[(1, a), (2, b)]]" for a b]
        merge_pages.simps [of 2 "[[(2, b)]]" for b] merge_pages_nil)
  have "compact demo_externs HEADER_FLAG_NO_CHECKSUM False [demo_snap] =
      Ok (demo_snap, demo_header, file_trailer demo_externs demo_header demo_snap_pages 0)"
  proof (rule compact_complete [of _ _ "[?lx]"])
    show "list_all2 (\<lambda>r f. decode_file demo_externs r = Ok f) [demo_snap] [?lx]" using demo_decode_snap by simp
    show "encode_file demo_externs demo_header (merge_pages (h_commit demo_header) (map f_pages [?lx]))
        (t_post_apply_checksum (f_trailer (last [?lx]))) = Ok (demo_snap, demo_header, file_trailer demo_externs demo_header demo_snap_pages 0)"
      using demo_encode_snap by (simp add: m demo_header_fields file_trailer_def)
  qed (simp_all add: h)
  moreover have "page_numbers 2 = [1, 2]" by (simp add: page_numbers_def upt_rec)
  then have "decode_database_to demo_externs demo_snap = Ok (demo_page1 @ replicate 512 6)"
    using decode_database_complete [OF demo_lz4_ok demo_encode_snap demo_header_no_checksum(2)] demo_header_no_checksum(1)
    by (simp add: demo_header_fields header_lock_pgno_def demo_lock database_image_def demo_snap_pages_def)
  ultimately show ?thesis by (simp add: restore_image_def demo_replica_env_def)
qed

lemma demo_snap_length: "100 \<le> length demo_snap" "length demo_snap < 2 ^ 64"
proof -
  have "length (encode_page_index (file_index demo_externs demo_snap_pages)) \<le> 78"
    using encode_page_index_length [of "file_index demo_externs demo_snap_pages"]
    by (simp add: file_index_def demo_snap_pages_def)
  moreover have "length (page_frame demo_externs (1, demo_page1)) \<le> 2000"
    by (simp add: page_frame_def compress_frame_def compress_block_def demo_externs_def PAGE_HEADER_SIZE_def demo_page1_length
        chunks.simps [of "65536" demo_page1] chunks.simps [of "65536" "[]"])
  ultimately show "100 \<le> length demo_snap" "length demo_snap < 2 ^ 64"
    by (simp_all add: demo_snap_def file_bytes_def demo_snap_pages_def length_demo_frame ltx_size_defs)
qed

lemma demo_snap_plan:
  "calc_restore_plan (dir_client []) demo_snap_bucket 0 = Ok [mk_info 9 1 1 (of_nat (length demo_snap)) (Some 0)]"
proof -
  define sz :: u64 where "sz = of_nat (length demo_snap)"
  have l: "ltx_files (dir_client []) demo_snap_bucket 9 0 False = Ok [mk_info 9 1 1 sz (Some 0)]"
    "ltx_files (dir_client []) demo_snap_bucket 8 0 False = Ok []" "ltx_files (dir_client []) demo_snap_bucket 7 0 False = Ok []"
    "ltx_files (dir_client []) demo_snap_bucket 6 0 False = Ok []" "ltx_files (dir_client []) demo_snap_bucket 5 0 False = Ok []"
    "ltx_files (dir_client []) demo_snap_bucket 4 0 False = Ok []" "ltx_files (dir_client []) demo_snap_bucket 3 0 False = Ok []"
    "ltx_files (dir_client []) demo_snap_bucket 2 0 False = Ok []" "ltx_files (dir_client []) demo_snap_bucket 1 0 False = Ok []"
    "ltx_files (dir_client []) demo_snap_bucket 0 0 False = Ok []"
    by (simp_all add: demo_snap_bucket_def dir_eval sz_def)
  show ?thesis unfolding sz_def [symmetric]
    unfolding calc_restore_plan_def SNAPSHOT_LEVEL_def l choose_snapshot_def
    by (simp add: plan_levels_def l txid_is_zero_def) code_simp
qed

definition demo_restore_env :: "string res \<Rightarrow> file_system replica_env" where
  "demo_restore_env v = (demo_replica_env (dir_client []))\<lparr>re_integrity := (\<lambda>pragma db. v)\<rparr>"

lemma demo_checked: "checked (demo_restore_env v) Quick img = v"
  by (simp add: checked_def pragma_of_def demo_restore_env_def)

lemma demo_full_restore:
  assumes "rp_client r = demo_snap_bucket" and "rp_cancel r = Never"
  shows "full_restore (demo_restore_env v) r =
    m_then (check_integrity (demo_restore_env v)) (m_then (write_txid_file 1) (m_ok 1))
      (r\<lparr>rp_db := Some (present_as_rollback_journal (demo_page1 @ replicate 512 6)),
         rp_side := filter (\<lambda>s. s \<noteq> ''-wal'' \<and> s \<noteq> ''-shm'') (rp_side r)\<rparr>)"
proof -
  let ?i = "mk_info 9 1 1 (of_nat (length demo_snap)) (Some 0)" and ?ev = "demo_restore_env v"
  have ev: "re_client ?ev = dir_client []" "re_x ?ev = demo_externs" by (simp_all add: demo_restore_env_def demo_replica_env_def)
  have c: "r_check r = (Ok (), r)" using assms(2) by (simp add: r_check_def)
  have "open_ltx_file (dir_client []) demo_snap_bucket 9 1 1 0 0 = Ok demo_snap"
    by (simp add: demo_snap_bucket_def dir_eval dir_open_ltx_file_def ltx_path_def)
  then have "r_open_file ?ev ?i r = (Ok demo_snap, r)" using assms(1) by (simp add: r_open_file_def ev)
  with c have op: "open_plan ?ev [?i] r = (Ok [demo_snap], r)" by (simp add: m_bind_def)
  have "unat (of_nat (length demo_snap) :: u64) = length demo_snap" using demo_snap_length(2) by (simp add: unsigned_of_nat take_bit_nat_eq_self)
  then have sizes: "check_sizes [?i] = Ok ()" using demo_snap_length(1) by (simp add: check_sizes_def HEADER_SIZE_def)
  have img: "restore_image ?ev [demo_snap] = Ok (present_as_rollback_journal (demo_page1 @ replicate 512 6))"
    using demo_snap_image [of "dir_client []"] by (simp add: restore_image_def ev demo_replica_env_def)
  show ?thesis
    using assms(1) demo_snap_plan op sizes img c
    by (simp del: open_plan.simps add: full_restore_def ev Let_def m_bind_def [of "open_plan ?ev [?i]"] m_bind_def [of r_check])
qed

lemma demo_snap_faithful: "faithful_bucket demo_externs 512 demo_history (dir_contents [] demo_snap_bucket)"
  unfolding faithful_bucket_def
proof (intro allI impI, elim conjE)
  fix l a b d tm lx assume d: "dir_contents [] demo_snap_bucket (l, a, b) = Some (d, tm)" "decode_file demo_externs d = Ok lx"
  from d(1) have "a = 1" "b = 1" "d = demo_snap"
    by (auto simp: demo_snap_bucket_def ltx_path_def level_dir_def format_filename_inj split: if_splits)
  moreover have le: "k \<le> 2 \<longleftrightarrow> k = 0 \<or> k = 1 \<or> k = 2" for k :: u32
    by (auto simp: word_le_nat_alt unat_arith_simps(3))
  ultimately show "faithful 512 demo_history a b lx \<and> (l = SNAPSHOT_LEVEL \<longrightarrow> a \<le> 1)"
    using d(2) demo_decode_snap
    by (auto simp: faithful_def demo_header_fields demo_snap_pages_def ascending_def content_page_def le demo_history_def)
qed

theorem restored_sync_exact_witness:
  "\<exists>r' f'. sync_with (demo_restore_env (Ok ''ok'')) Never
       ((demo_replica demo_snap_bucket)\<lparr>rp_db := None, rp_txid := None, rp_side := [''-wal'']\<rparr>) =
       (Ok \<lparr>sr_restored = True, sr_from_txid = 0, sr_to_txid = 1\<rparr>, r') \<and>
     rp_db r' = Some f' \<and> exactly 512 (demo_history 1) f' \<and> fst (position r') = Ok 1 \<and> ''-wal'' \<notin> set (rp_side r') \<and>
     (\<forall>b. dir_contents [] demo_snap_bucket (SNAPSHOT_LEVEL, 1, b) \<noteq> None \<longrightarrow> b \<le> 1)"
proof -
  let ?ev = "demo_restore_env (Ok ''ok'')" and ?sr = "\<lparr>sr_restored = True, sr_from_txid = 0, sr_to_txid = 1\<rparr>"
  let ?r = "(demo_replica demo_snap_bucket)\<lparr>rp_db := None, rp_txid := None, rp_side := [''-wal'']\<rparr>"
  have r: "rp_client ?r = demo_snap_bucket" "rp_cancel ?r = Never" "rp_db ?r = None" "ro_integrity_check (rp_opts ?r) = Quick"
    by (simp_all add: demo_replica_def replica_open_def token_new_def replica_options_default_def)
  have ev: "re_x ?ev = demo_externs" "re_client ?ev = dir_client []" by (simp_all add: demo_restore_env_def demo_replica_env_def)
  have "\<exists>r'. full_restore ?ev ?r = (Ok 1, r')"
    unfolding demo_full_restore [OF r(1,2)]
    using r(4) by (simp add: m_bind_def [of "check_integrity ?ev"] check_integrity_run demo_checked write_txid_file_def)
  then obtain r' where "full_restore ?ev ?r = (Ok 1, r')" by blast
  moreover have "?r\<lparr>rp_cancel := Never\<rparr> = ?r" using r(2) by simp
  ultimately have run: "sync_with ?ev Never ?r = (Ok ?sr, r')"
    by (simp add: sync_with_def r_set_cancel_def r(3) m_bind_def [of "full_restore ?ev"])
  have inv: "dir_inv (rp_client ?r)" "faithful_bucket (re_x ?ev) 512 demo_history (dir_contents [] (rp_client ?r))"
    unfolding r ev using demo_snap_faithful by (simp_all add: dir_inv_def demo_snap_bucket_def)
  have lz: "lz4_ok (re_x ?ev)" and sr: "sr_restored ?sr" unfolding ev by (rule demo_lz4_ok) simp
  note ex = restored_sync_exact [OF lz demo_is_history inv ev(2) run sr]
  have "a' \<le> 1" if "dir_contents [] demo_snap_bucket (SNAPSHOT_LEVEL, a', b') \<noteq> None" for a' b'
    using that by (auto simp: demo_snap_bucket_def ltx_path_def level_dir_def format_filename_inj split: if_splits)
  moreover from ex have new: "\<forall>level a b. level \<le> SNAPSHOT_LEVEL \<and> dir_contents [] (rp_client ?r) (level, a, b) \<noteq> None \<and>
       (level = SNAPSHOT_LEVEL \<longrightarrow> (\<forall>a' b'. dir_contents [] (rp_client ?r) (SNAPSHOT_LEVEL, a', b') \<noteq> None \<longrightarrow> a' \<le> a)) \<longrightarrow>
       b \<le> sr_to_txid ?sr" by (elim exE conjE)
  ultimately have "b \<le> 1" if "dir_contents [] demo_snap_bucket (SNAPSHOT_LEVEL, 1, b) \<noteq> None" for b
    using new [THEN spec, THEN spec, THEN spec, of SNAPSHOT_LEVEL 1 b, unfolded r(1)] that unfolding sync_result.select_convs by blast
  with ex run show ?thesis unfolding sync_result.select_convs by blast
qed

text \<open>C22: what a failed restore leaves.  The recorded position never changes.  A failure up to the renaming of the image
  (no plan, a size or a file that cannot be read, a merge that fails, a cancellation) leaves the database file and its
  \<open>-wal\<close> and \<open>-shm\<close> files as they were, and with the integrity check switched off there is no other.  A failure of
  the integrity check comes after the renaming: the \<open>-wal\<close> and \<open>-shm\<close> files are gone, and the database file is the image of
  the plan's files when the check could not be run, or is gone when the check found the image damaged.  So the
  sentence of the documentation that a failed restore leaves the old replica readable is true of the first kind only.\<close>

theorem failed_restore_state:
  assumes "full_restore ev r = (Err e, r')"
  shows "rp_txid r' = rp_txid r \<and>
    (rp_db r' = rp_db r \<and> rp_side r' = rp_side r \<or>
     ro_integrity_check (rp_opts r) \<noteq> NoCheck \<and>
     (\<exists>plan rdrs img. calc_restore_plan (re_client ev) (rp_client r) 0 = Ok plan \<and>
        list_all2 (\<lambda>i d. open_ltx_file (re_client ev) (rp_client r) (fi_level i) (fi_min_txid i) (fi_max_txid i) 0 0 = Ok d) plan rdrs \<and>
        restore_image ev rdrs = Ok img \<and> rp_side r' = filter (\<lambda>s. s \<noteq> ''-wal'' \<and> s \<noteq> ''-shm'') (rp_side r) \<and>
        (rp_db r' = Some img \<and> checked ev (ro_integrity_check (rp_opts r)) img = Err e \<or>
         rp_db r' = None \<and> (\<exists>s. s \<noteq> ''ok'' \<and> checked ev (ro_integrity_check (rp_opts r)) img = Ok s))))"
  using full_restore_run [OF assms]
proof (elim disjE exE conjE)
  fix plan rdrs img
  assume p: "calc_restore_plan (re_client ev) (rp_client r) 0 = Ok plan" "restore_image ev rdrs = Ok img"
    "list_all2 (\<lambda>i d. open_ltx_file (re_client ev) (rp_client r) (fi_level i) (fi_min_txid i) (fi_max_txid i) 0 0 = Ok d) plan rdrs"
    "rp_side r' = filter (\<lambda>s. s \<noteq> ''-wal'' \<and> s \<noteq> ''-shm'') (rp_side r)"
    and c: "case checked ev (ro_integrity_check (rp_opts r)) img of
          Err e' \<Rightarrow> Err e = (Err e' :: txid res) \<and> rp_db r' = Some img \<and> rp_txid r' = rp_txid r
        | Ok s \<Rightarrow> if s = ''ok'' then Err e = Ok (fi_max_txid (last plan)) \<and> rp_db r' = Some img \<and>
             rp_txid r' = Some (txid_display (fi_max_txid (last plan)) @ [CHR 0x0A])
           else (\<exists>e'. Err e = (Err e' :: txid res)) \<and> rp_db r' = None \<and> rp_txid r' = rp_txid r"
  have "ro_integrity_check (rp_opts r) \<noteq> NoCheck" using c by (auto simp: checked_def pragma_of_def)
  moreover have "rp_txid r' = rp_txid r \<and>
     (rp_db r' = Some img \<and> checked ev (ro_integrity_check (rp_opts r)) img = Err e \<or>
      rp_db r' = None \<and> (\<exists>s. s \<noteq> ''ok'' \<and> checked ev (ro_integrity_check (rp_opts r)) img = Ok s))"
    using c by (auto split: result.splits if_splits)
  ultimately show ?thesis using p by blast
qed simp

theorem failed_restore_state_witness:
  "\<exists>e r'. full_restore (demo_restore_env (Ok ''row 3 missing from index'')) (demo_replica demo_snap_bucket) = (Err e, r') \<and>
     rp_db (demo_replica demo_snap_bucket) \<noteq> None \<and> rp_db r' = None \<and> rp_txid r' = rp_txid (demo_replica demo_snap_bucket)"
proof -
  let ?ev = "demo_restore_env (Ok ''row 3 missing from index'')" and ?r = "demo_replica demo_snap_bucket"
  have r: "rp_client ?r = demo_snap_bucket" "rp_cancel ?r = Never" "rp_db ?r \<noteq> None" "ro_integrity_check (rp_opts ?r) = Quick"
    by (simp_all add: demo_replica_def replica_open_def token_new_def replica_options_default_def)
  have "\<exists>e r'. full_restore ?ev ?r = (Err e, r') \<and> rp_db r' = None"
    unfolding demo_full_restore [OF r(1,2)]
    using r(4) by (simp add: m_bind_def [of "check_integrity ?ev"] check_integrity_run demo_checked)
  then obtain e r' where run: "full_restore ?ev ?r = (Err e, r')" "rp_db r' = None" by blast
  with failed_restore_state [OF run(1)] r(3) show ?thesis by blast
qed

end
