(* ===== verification/RustStr.thy ===== *)
theory RustStr
  imports LtxTypes
begin

text \<open>
  The string functions of the standard library that the HTTP protocol uses.  A Rust \<open>str\<close> is its UTF-8
  bytes, so a \<open>string\<close> here is the list of these bytes as characters; \<open>to_bytes\<close> and \<open>str_of\<close> convert.
  White space is Unicode's \<open>White_Space\<close>, each character by its UTF-8 encoding.  The text of \<open>{:?}\<close> escapes
  ASCII; characters above it are printed as they are.
\<close>

section \<open>Bytes and characters\<close>

definition to_bytes :: "string \<Rightarrow> byte list" where
  "to_bytes s = map (\<lambda>c. of_nat (of_char c)) s"

definition str_of :: "byte list \<Rightarrow> string" where
  "str_of bs = map (\<lambda>b. char_of (unat b)) bs"

lemma unat_byte_of_char [simp]: "unat (of_nat (of_char c) :: byte) = of_char c"
  by (simp add: unat_of_nat)

lemma str_of_to_bytes [simp]: "str_of (to_bytes s) = s"
  by (simp add: str_of_def to_bytes_def comp_def)

lemma to_bytes_str_of [simp]: "to_bytes (str_of bs) = bs"
proof -
  have "(of_nat (of_char (char_of (unat b) :: char)) :: byte) = b" for b :: byte
  proof -
    have "unat b < 2 ^ LENGTH(8)" by (rule unsigned_less)
    then show ?thesis by simp
  qed
  then show ?thesis by (simp add: str_of_def to_bytes_def comp_def)
qed

lemma to_bytes_simps [simp]:
  "to_bytes [] = []" "to_bytes (c # s) = of_nat (of_char c) # to_bytes s" "to_bytes (s @ t) = to_bytes s @ to_bytes t"
  "length (to_bytes s) = length s"
  by (simp_all add: to_bytes_def)

lemma str_of_simps [simp]:
  "str_of [] = []" "str_of (b # bs) = char_of (unat b) # str_of bs" "str_of (xs @ ys) = str_of xs @ str_of ys"
  "length (str_of bs) = length bs"
  by (simp_all add: str_of_def)

lemma to_bytes_inj [simp]: "to_bytes s = to_bytes t \<longleftrightarrow> s = t"
  by (metis str_of_to_bytes)

lemma byte_of_char_eq: "(of_nat (of_char c) :: byte) = of_nat (of_char d) \<longleftrightarrow> c = d"
  using to_bytes_inj [of "[c]" "[d]"] by simp

text \<open>\<open>String::from_utf8\<close>: the well-formed byte sequences.\<close>

definition is_cont :: "nat \<Rightarrow> bool" where
  "is_cont b \<longleftrightarrow> 0x80 \<le> b \<and> b \<le> 0xBF"

fun utf8_valid :: "nat list \<Rightarrow> bool" where
  "utf8_valid [] = True"
| "utf8_valid (a # r) =
     (if a < 0x80 then utf8_valid r
      else if 0xC2 \<le> a \<and> a \<le> 0xDF then (case r of b # r' \<Rightarrow> is_cont b \<and> utf8_valid r' | _ \<Rightarrow> False)
      else if 0xE0 \<le> a \<and> a \<le> 0xEF then
        (case r of b # c # r' \<Rightarrow>
             (if a = 0xE0 then 0xA0 \<le> b \<and> b \<le> 0xBF else if a = 0xED then 0x80 \<le> b \<and> b \<le> 0x9F else is_cont b) \<and>
             is_cont c \<and> utf8_valid r'
         | _ \<Rightarrow> False)
      else if 0xF0 \<le> a \<and> a \<le> 0xF4 then
        (case r of b # c # d # r' \<Rightarrow>
             (if a = 0xF0 then 0x90 \<le> b \<and> b \<le> 0xBF else if a = 0xF4 then 0x80 \<le> b \<and> b \<le> 0x8F else is_cont b) \<and>
             is_cont c \<and> is_cont d \<and> utf8_valid r'
         | _ \<Rightarrow> False)
      else False)"

definition from_utf8 :: "byte list \<Rightarrow> string option" where
  "from_utf8 bs = (if utf8_valid (map unat bs) then Some (str_of bs) else None)"

definition is_ascii :: "string \<Rightarrow> bool" where
  "is_ascii s \<longleftrightarrow> list_all (\<lambda>c. (of_char c :: nat) < 0x80) s"

lemma utf8_valid_ascii: "list_all (\<lambda>n. n < 0x80) ns \<Longrightarrow> utf8_valid ns"
  by (induction ns) auto

lemma map_unat_to_bytes: "map unat (to_bytes s) = map of_char s"
  by (simp add: to_bytes_def)

lemma from_utf8_ascii: "is_ascii s \<Longrightarrow> from_utf8 (to_bytes s) = Some s"
  by (simp add: from_utf8_def map_unat_to_bytes is_ascii_def utf8_valid_ascii list_all_iff)

section \<open>White space\<close>

definition white_space :: "string list" where
  "white_space = [[CHR 0x09], [CHR 0x0A], [CHR 0x0B], [CHR 0x0C], [CHR 0x0D], [CHR 0x20],
     [CHR 0xC2, CHR 0x85], [CHR 0xC2, CHR 0xA0], [CHR 0xE1, CHR 0x9A, CHR 0x80],
     [CHR 0xE2, CHR 0x80, CHR 0x80], [CHR 0xE2, CHR 0x80, CHR 0x81], [CHR 0xE2, CHR 0x80, CHR 0x82],
     [CHR 0xE2, CHR 0x80, CHR 0x83], [CHR 0xE2, CHR 0x80, CHR 0x84], [CHR 0xE2, CHR 0x80, CHR 0x85],
     [CHR 0xE2, CHR 0x80, CHR 0x86], [CHR 0xE2, CHR 0x80, CHR 0x87], [CHR 0xE2, CHR 0x80, CHR 0x88],
     [CHR 0xE2, CHR 0x80, CHR 0x89], [CHR 0xE2, CHR 0x80, CHR 0x8A], [CHR 0xE2, CHR 0x80, CHR 0xA8],
     [CHR 0xE2, CHR 0x80, CHR 0xA9], [CHR 0xE2, CHR 0x80, CHR 0xAF], [CHR 0xE2, CHR 0x81, CHR 0x9F],
     [CHR 0xE3, CHR 0x80, CHR 0x80]]"

text \<open>The length of the white-space character at the front of the text, 0 if there is none.\<close>

definition ws_len :: "string list \<Rightarrow> string \<Rightarrow> nat" where
  "ws_len ws s = (case find (\<lambda>w. take (length w) s = w) ws of None \<Rightarrow> 0 | Some w \<Rightarrow> length w)"

lemma ws_len_Nil [simp]: "ws_len ws [] = 0"
  by (auto simp: ws_len_def find_Some_iff split: option.splits)

function skip_ws :: "string list \<Rightarrow> string \<Rightarrow> string" where
  "skip_ws ws s = (if ws_len ws s = 0 then s else skip_ws ws (drop (ws_len ws s) s))"
  by auto
termination
proof (relation "measure (\<lambda>(_, s). length s)")
  fix ws s assume "ws_len ws s \<noteq> 0"
  moreover then have "s \<noteq> []" by auto
  ultimately show "((ws, drop (ws_len ws s) s), ws, s) \<in> measure (\<lambda>(_, s). length s)" by (cases s) auto
qed simp

declare skip_ws.simps [simp del]

definition trim :: "string \<Rightarrow> string" where
  "trim s = rev (skip_ws (map rev white_space) (rev (skip_ws white_space s)))"

fun until_ws :: "string \<Rightarrow> string \<times> string" where
  "until_ws [] = ([], [])"
| "until_ws (c # cs) =
     (if ws_len white_space (c # cs) \<noteq> 0 then ([], c # cs) else case until_ws cs of (w, r) \<Rightarrow> (c # w, r))"

lemma skip_ws_Nil [simp]: "skip_ws ws [] = []"
  by (simp add: skip_ws.simps)

lemma length_until_ws: "until_ws s = (w, r) \<Longrightarrow> s = w @ r"
  by (induction s arbitrary: w r) (auto split: if_splits prod.splits)

lemma length_skip_ws: "length (skip_ws ws s) \<le> length s"
proof (induction ws s rule: skip_ws.induct)
  case (1 ws s)
  then show ?case by (subst skip_ws.simps) force
qed

lemma skip_ws_stop: "ws_len ws (skip_ws ws s) = 0"
proof (induction ws s rule: skip_ws.induct)
  case (1 ws s)
  then show ?case by (subst skip_ws.simps) simp
qed

function split_whitespace :: "string \<Rightarrow> string list" where
  "split_whitespace s =
     (let t = skip_ws white_space s
      in if t = [] then [] else case until_ws t of (w, r) \<Rightarrow> w # split_whitespace r)"
  by auto
termination
proof (relation "measure length")
  fix s t w r assume t: "t = skip_ws white_space s" "t \<noteq> []" "(w, r) = until_ws t"
  from t(2) obtain c cs where c: "t = c # cs" by (meson neq_Nil_conv)
  have "ws_len white_space t = 0" using t(1) skip_ws_stop by simp
  moreover have "until_ws t = (w, r)" using t(3) by simp
  ultimately obtain w' where "until_ws cs = (w', r)" unfolding c by (auto split: prod.splits)
  then have "length r < length t" using length_until_ws [of cs w' r] c by simp
  moreover have "length t \<le> length s" using t(1) length_skip_ws by simp
  ultimately show "(r, s) \<in> measure length" by simp
qed simp

declare split_whitespace.simps [simp del]

text \<open>Printable ASCII has no white space: words of it are found as they are.\<close>

definition plain :: "string \<Rightarrow> bool" where
  "plain s \<longleftrightarrow> list_all (\<lambda>c. 0x21 \<le> (of_char c :: nat) \<and> (of_char c :: nat) \<le> 0x7E) s"

definition not_plain :: "string \<Rightarrow> bool" where
  "not_plain w \<longleftrightarrow> w \<noteq> [] \<and> ((of_char (hd w) :: nat) < 0x21 \<or> 0x7E < (of_char (hd w) :: nat))"

lemma white_space_not_plain: "list_all not_plain white_space" "list_all not_plain (map rev white_space)"
  by code_simp+

lemma ws_len_not_plain:
  assumes "list_all not_plain ws" and "0x21 \<le> (of_char c :: nat)" and "(of_char c :: nat) \<le> 0x7E"
  shows "ws_len ws (c # cs) = 0"
proof -
  have "take (length w) (c # cs) \<noteq> w" if "w \<in> set ws" for w
  proof
    assume eq: "take (length w) (c # cs) = w"
    have w: "not_plain w" using assms(1) that by (simp add: list_all_iff)
    then have "hd w = c" using eq by (cases w) (auto simp: not_plain_def)
    with w assms(2,3) show False by (simp add: not_plain_def)
  qed
  then show ?thesis by (auto simp: ws_len_def find_Some_iff split: option.splits)
qed

lemmas ws_len_plain = ws_len_not_plain [OF white_space_not_plain(1)]
lemmas ws_len_plain_rev = ws_len_not_plain [OF white_space_not_plain(2)]

lemma ws_len_space: "ws_len white_space (CHR '' '' # cs) = 1"
  by (simp add: ws_len_def white_space_def)

lemma plain_simps [simp]:
  "plain []" "plain (c # s) \<longleftrightarrow> 0x21 \<le> (of_char c :: nat) \<and> (of_char c :: nat) \<le> 0x7E \<and> plain s"
  "plain (s @ t) \<longleftrightarrow> plain s \<and> plain t"
  by (auto simp: plain_def)

lemma plain_ascii: "plain s \<Longrightarrow> is_ascii s"
  by (auto simp: plain_def is_ascii_def list_all_iff)

lemma plain_rev [simp]: "plain (rev s) = plain s"
  by (simp add: plain_def list_all_iff)

lemma skip_ws_plain: "plain s \<Longrightarrow> skip_ws white_space (s @ r) = (if s = [] then skip_ws white_space r else s @ r)"
  by (cases s) (auto simp: skip_ws.simps ws_len_plain)

lemma trim_plain: "plain s \<Longrightarrow> trim s = s"
proof (cases "s = []")
  case False
  assume p: "plain s"
  then have "plain (rev s)" by simp
  with False obtain c cs where c: "rev s = c # cs" "0x21 \<le> (of_char c :: nat)" "(of_char c :: nat) \<le> 0x7E"
    by (cases "rev s") (auto simp: plain_def)
  then have "skip_ws (map rev white_space) (rev s) = rev s" by (simp add: skip_ws.simps ws_len_plain_rev)
  then show ?thesis using skip_ws_plain [OF p, of "[]"] False by (simp add: trim_def)
qed (simp add: trim_def)

lemma until_ws_plain: "plain w \<Longrightarrow> ws_len white_space r \<noteq> 0 \<or> r = [] \<Longrightarrow> until_ws (w @ r) = (w, r)"
proof (induction w)
  case Nil
  then show ?case by (cases r) auto
qed (auto simp: ws_len_plain)

lemma skip_ws_space: "skip_ws white_space (CHR '' '' # s) = skip_ws white_space s"
  by (subst skip_ws.simps) (simp add: ws_len_space)

lemma split_whitespace_space: "split_whitespace (CHR '' '' # s) = split_whitespace s"
  by (subst (1 2) split_whitespace.simps) (simp add: skip_ws_space)

lemma split_whitespace_Nil [simp]: "split_whitespace [] = []"
  by (simp add: split_whitespace.simps)

lemma split_whitespace_word:
  assumes "plain w" and "w \<noteq> []"
  shows "split_whitespace (w @ CHR '' '' # s) = w # split_whitespace s" and "split_whitespace w = [w]"
proof -
  have "until_ws (w @ CHR '' '' # s) = (w, CHR '' '' # s)" by (rule until_ws_plain [OF assms(1)]) (simp add: ws_len_space)
  then show "split_whitespace (w @ CHR '' '' # s) = w # split_whitespace s"
    using skip_ws_plain [OF assms(1), of "CHR '' '' # s"] assms(2)
    by (subst split_whitespace.simps) (simp add: split_whitespace_space Let_def)
  show "split_whitespace w = [w]"
    using skip_ws_plain [OF assms(1), of "[]"] until_ws_plain [OF assms(1), of "[]"] assms(2)
    by (subst split_whitespace.simps) (simp add: Let_def)
qed

definition split_once_ws :: "string \<Rightarrow> (string \<times> string) option" where
  "split_once_ws s =
     (case until_ws s of (w, r) \<Rightarrow> if r = [] then None else Some (w, drop (ws_len white_space r) r))"

section \<open>Splitting and stripping\<close>

definition split_once :: "char \<Rightarrow> string \<Rightarrow> (string \<times> string) option" where
  "split_once c s =
     (case dropWhile (\<lambda>x. x \<noteq> c) s of [] \<Rightarrow> None | _ # r \<Rightarrow> Some (takeWhile (\<lambda>x. x \<noteq> c) s, r))"

definition rsplit_once :: "char \<Rightarrow> string \<Rightarrow> (string \<times> string) option" where
  "rsplit_once c s = (case split_once c (rev s) of None \<Rightarrow> None | Some (a, b) \<Rightarrow> Some (rev b, rev a))"

fun split_on :: "char \<Rightarrow> string \<Rightarrow> string list" where
  "split_on c [] = [[]]"
| "split_on c (x # xs) =
     (if x = c then [] # split_on c xs
      else case split_on c xs of [] \<Rightarrow> [[x]] | w # ws \<Rightarrow> (x # w) # ws)"

fun join :: "char \<Rightarrow> string list \<Rightarrow> string" where
  "join c [] = []"
| "join c [w] = w"
| "join c (w # ws) = w @ c # join c ws"

definition trim_end_matches :: "char \<Rightarrow> string \<Rightarrow> string" where
  "trim_end_matches c s = rev (dropWhile (\<lambda>x. x = c) (rev s))"

definition trim_matches :: "char \<Rightarrow> string \<Rightarrow> string" where
  "trim_matches c s = trim_end_matches c (dropWhile (\<lambda>x. x = c) s)"

definition strip_prefix :: "string \<Rightarrow> string \<Rightarrow> string option" where
  "strip_prefix p s = (if take (length p) s = p then Some (drop (length p) s) else None)"

definition strip_cr :: "string \<Rightarrow> string" where
  "strip_cr s = (if s \<noteq> [] \<and> last s = CHR 0x0D then butlast s else s)"

text \<open>\<open>str::lines\<close>: a last line without a line feed keeps a carriage return.\<close>

definition lines :: "string \<Rightarrow> string list" where
  "lines s =
     (let ps = split_on (CHR 0x0A) s
      in map strip_cr (butlast ps) @ (if last ps = [] then [] else [last ps]))"

definition ascii_lower :: "char \<Rightarrow> char" where
  "ascii_lower c = (let n = of_char c :: nat in if 65 \<le> n \<and> n \<le> 90 then char_of (n + 32) else c)"

definition to_ascii_lowercase :: "string \<Rightarrow> string" where
  "to_ascii_lowercase s = map ascii_lower s"

definition eq_ignore_ascii_case :: "string \<Rightarrow> string \<Rightarrow> bool" where
  "eq_ignore_ascii_case a b \<longleftrightarrow> to_ascii_lowercase a = to_ascii_lowercase b"

text \<open>\<open>{:?}\<close> of a string.\<close>

definition char_debug :: "char \<Rightarrow> string" where
  "char_debug c =
     (let n = of_char c :: nat
      in if c = CHR 0x22 \<or> c = CHR 0x5C then [CHR 0x5C, c]
         else if n = 0 then [CHR 0x5C, CHR ''0''] else if n = 9 then [CHR 0x5C, CHR ''t'']
         else if n = 10 then [CHR 0x5C, CHR ''n''] else if n = 13 then [CHR 0x5C, CHR ''r'']
         else if n < 32 \<or> n = 127 then [CHR 0x5C, CHR ''u'', CHR 0x7B] @ fmt_hex n @ [CHR 0x7D]
         else [c])"

definition str_debug :: "string \<Rightarrow> string" where
  "str_debug s = [CHR 0x22] @ concat (map char_debug s) @ [CHR 0x22]"

lemma split_on_not_Nil [simp]: "split_on c s \<noteq> []"
  by (induction s) (auto split: list.splits)

lemma split_on_append: "c \<notin> set w \<Longrightarrow> split_on c (w @ c # s) = w # split_on c s"
  by (induction w) auto

lemma split_on_word: "c \<notin> set w \<Longrightarrow> split_on c w = [w]"
  by (induction w) auto

lemma split_once_append: "c \<notin> set w \<Longrightarrow> split_once c (w @ c # s) = Some (w, s)"
proof -
  assume "c \<notin> set w"
  then have "takeWhile (\<lambda>x. x \<noteq> c) (w @ c # s) = w" "dropWhile (\<lambda>x. x \<noteq> c) (w @ c # s) = c # s"
    by (induction w) auto
  then show ?thesis by (simp add: split_once_def)
qed

lemma split_once_None: "c \<notin> set w \<Longrightarrow> split_once c w = None"
proof -
  assume "c \<notin> set w"
  then have "dropWhile (\<lambda>x. x \<noteq> c) w = []" by (induction w) auto
  then show ?thesis unfolding split_once_def by (simp only: list.case)
qed

lemma strip_prefix_append [simp]: "strip_prefix p (p @ s) = Some s"
  by (simp add: strip_prefix_def)

text \<open>A text made of terminated lines splits into these lines.\<close>

lemma lines_terminated:
  "\<forall>l \<in> set ls. plain l \<or> (CHR 0x0A \<notin> set l \<and> CHR 0x0D \<notin> set l) \<Longrightarrow>
   lines (concat (map (\<lambda>l. l @ [CHR 0x0A]) ls)) = ls"
proof -
  assume ls: "\<forall>l \<in> set ls. plain l \<or> (CHR 0x0A \<notin> set l \<and> CHR 0x0D \<notin> set l)"
  have nl: "CHR 0x0A \<notin> set l" "CHR 0x0D \<notin> set l" if "l \<in> set ls" for l
    using ls that by (force simp: plain_def list_all_iff)+
  have "split_on (CHR 0x0A) (concat (map (\<lambda>l. l @ [CHR 0x0A]) ls)) = ls @ [[]]"
    using nl(1) by (induction ls) (auto simp: split_on_append)
  moreover have "map strip_cr ls = ls"
    using nl(2) by (intro map_idI) (auto simp: strip_cr_def dest: last_in_set)
  ultimately show ?thesis by (simp add: lines_def Let_def)
qed

section \<open>Numbers are plain words\<close>

lemma plain_digit_char: "d < 16 \<Longrightarrow> plain [digit_char d]"
  by (simp add: of_char_digit_char)

lemma plain_digits: "b \<le> 16 \<Longrightarrow> 2 \<le> b \<Longrightarrow> plain (map digit_char (digits_of b n))"
proof -
  assume "b \<le> 16" "2 \<le> b"
  then have "\<forall>d \<in> set (digits_of b n). d < 16" using digits_of_bound [of b n] by auto
  then show ?thesis by (auto simp: plain_def list_all_iff of_char_digit_char)
qed

lemma plain_fmt_dec [simp]: "plain (fmt_dec n)"
  by (simp add: fmt_dec_def plain_digits)

lemma plain_fmt_hex [simp]: "plain (fmt_hex n)"
  by (simp add: fmt_hex_def plain_digits)

lemma plain_fmt_hex0 [simp]: "plain (fmt_hex0 w n)"
  unfolding plain_def list_all_iff by (auto simp: of_char_digit_char dest!: set_fmt_hex0)

lemma fmt_not_Nil [simp]: "fmt_dec n \<noteq> []" "fmt_hex n \<noteq> []" "fmt_hex0 w n \<noteq> []"
  by (simp_all add: fmt_dec_def fmt_hex_def fmt_hex0_def Let_def)

lemma plain_txid [simp]: "plain (txid_display t)" "txid_display t \<noteq> []"
  by (simp_all add: txid_display_def)

lemma plain_filename [simp]: "plain (format_filename a b)" "format_filename a b \<noteq> []"
  by (simp_all add: format_filename_def)

end
