(* ===== verification/Wire.thy ===== *)
theory Wire
  imports RustStr ResultState
begin

text \<open>
  Model of \<open>crates/liters-storage/src/http/wire.rs\<close>: lines, request and response heads, query parameters and
  the chunked transfer encoding.  What a socket will deliver is a list of events, data in arbitrary
  pieces, failures of a single read (timeouts) and a broken connection; its end is the end of the
  stream.  The locale \<open>byte_source\<close> is the contract of \<open>io::Read\<close> that the readers rely on and provide;
  sockets and the chunked reader interpret it, and the line reader is proved over it.
\<close>

section \<open>Constants\<close>

definition PROTOCOL_VERSION :: string where "PROTOCOL_VERSION = ''1''"
definition PROTOCOL_HEADER :: string where "PROTOCOL_HEADER = ''x-liters-protocol''"
definition MAX_LINE :: nat where "MAX_LINE = 8192"
definition MAX_HEADERS :: nat where "MAX_HEADERS = 100"

definition is_timeout :: "io_error \<Rightarrow> bool" where
  "is_timeout e \<longleftrightarrow> kind e = WouldBlock \<or> kind e = TimedOut"

abbreviation LF :: byte where "LF \<equiv> 0x0A"
abbreviation CR :: byte where "CR \<equiv> 0x0D"
definition CRLF :: "byte list" where "CRLF = [CR, LF]"

section \<open>Sockets\<close>

datatype read_event = Arrive "byte list" | Fail io_error | Broken io_error

type_synonym net = "read_event list"
type_synonym 'r read_fn = "nat \<Rightarrow> 'r \<Rightarrow> (io_error, byte list) result \<times> 'r"

text \<open>\<open>read\<close> into a buffer of \<open>n\<close> bytes; no bytes mean the end of the stream.\<close>

fun net_read :: "net read_fn" where
  "net_read n [] = (Ok [], [])"
| "net_read n (Fail e # es) = (Err e, es)"
| "net_read n (Broken e # es) = (Err e, Broken e # es)"
| "net_read n (Arrive bs # es) =
     (if bs = [] then net_read n es
      else (Ok (take n bs), if length bs \<le> n then es else Arrive (drop n bs) # es))"

fun net_size :: "net \<Rightarrow> nat" where
  "net_size [] = 0"
| "net_size (Arrive bs # es) = Suc (length bs + net_size es)"
| "net_size (_ # es) = Suc (net_size es)"

lemma net_read_size: "net_read n net = (r, net') \<Longrightarrow> net_size net' \<le> net_size net"
  by (induction n net rule: net_read.induct) (auto split: if_splits)

lemma net_read_consumes: "net_read n net = (Ok (b # bs), net') \<Longrightarrow> net_size net' < net_size net"
proof (induction n net rule: net_read.induct)
  case (4 n bs' es)
  then show ?case by (cases "bs' = []"; cases n) (auto split: if_splits)
qed simp_all

section \<open>Lines\<close>

text \<open>
  \<open>LineBuf::read_line\<close> over a reader \<open>rd\<close>; the bytes of a partial line stay in the buffer.  A line is
  finished, too long or interrupted after at most \<open>MAX_LINE + 1\<close> bytes whatever the reader does.
\<close>

definition finish_line :: "byte list \<Rightarrow> (io_error, string option) result" where
  "finish_line line =
     (case from_utf8 (if line \<noteq> [] \<and> last line = CR then butlast line else line) of
        Some s \<Rightarrow> Ok (Some s)
      | None \<Rightarrow> Err (IoError InvalidData ''non-utf8 line''))"

function read_line :: "'r read_fn \<Rightarrow> byte list \<Rightarrow> 'r \<Rightarrow> (io_error, string option) result \<times> byte list \<times> 'r" where
  "read_line rd buf r =
     (case rd 1 r of
        (Err e, r') \<Rightarrow> (Err e, buf, r')
      | (Ok [], r') \<Rightarrow>
          if buf = [] then (Ok None, buf, r') else (Err (IoError UnexpectedEof ''eof mid-line''), buf, r')
      | (Ok (b # _), r') \<Rightarrow>
          if b = LF then (finish_line buf, [], r')
          else if MAX_LINE \<le> length buf then (Err (IoError InvalidData ''line exceeds max length''), buf, r')
          else read_line rd (buf @ [b]) r')"
  by pat_completeness auto
termination by (relation "measure (\<lambda>(_, buf, _). Suc MAX_LINE - length buf)") auto

declare read_line.simps [simp del]

lemma read_line_net_size:
  "read_line net_read buf net = (r, buf', net') \<Longrightarrow> net_size net' \<le> net_size net"
  "read_line net_read buf net = (Ok (Some l), buf', net') \<Longrightarrow> net_size net' < net_size net"
proof -
  have "net_size net' \<le> net_size net \<and> (\<forall>l. r = Ok (Some l) \<longrightarrow> net_size net' < net_size net)"
    if "rd = net_read" "read_line rd buf net = (r, buf', net')" for rd r
    using that
  proof (induction rd buf net rule: read_line.induct)
    case (1 rd buf net)
    obtain x net1 where x: "net_read 1 net = (x, net1)" by fastforce
    show ?case
    proof (cases "\<exists>b bs. x = Ok (b # bs) \<and> b \<noteq> LF \<and> length buf < MAX_LINE")
      case True
      then obtain b bs where b: "x = Ok (b # bs)" "b \<noteq> LF" "\<not> MAX_LINE \<le> length buf" by auto
      then have "read_line rd (buf @ [b]) net1 = (r, buf', net')" using "1.prems" x by (subst (asm) read_line.simps) simp
      moreover have "net_size net1 < net_size net" using net_read_consumes x b(1) by blast
      moreover have "(Ok (b # bs), net1) = rd 1 net" using x b(1) "1.prems"(1) by simp
      ultimately show ?thesis using "1.IH" [of "Ok (b # bs)" net1 "b # bs" b bs] b(2,3) "1.prems"(1) by auto
    next
      case False
      then have "net' = net1 \<and> (\<forall>l. r = Ok (Some l) \<longrightarrow> (\<exists>b bs. x = Ok (b # bs)))"
        using "1.prems" x by (subst (asm) read_line.simps) (auto split: result.splits list.splits if_splits)
      then show ?thesis using x net_read_size [of 1 net x net1] net_read_consumes [of 1 net _ _ net1] by auto
    qed
  qed
  then show "read_line net_read buf net = (r, buf', net') \<Longrightarrow> net_size net' \<le> net_size net"
    "read_line net_read buf net = (Ok (Some l), buf', net') \<Longrightarrow> net_size net' < net_size net" by blast+
qed

section \<open>Heads\<close>

type_synonym headers = "(string \<times> string) list"

function read_headers :: "headers \<Rightarrow> byte list \<Rightarrow> net \<Rightarrow> (io_error, headers) result \<times> net" where
  "read_headers hs buf net =
     (case read_line net_read buf net of
        (Err e, _, net') \<Rightarrow> (Err e, net')
      | (Ok None, _, net') \<Rightarrow> (Err (IoError UnexpectedEof ''eof in headers''), net')
      | (Ok (Some line), buf', net') \<Rightarrow>
          if line = [] then (Ok hs, net')
          else if MAX_HEADERS \<le> length hs then (Err (IoError InvalidData ''too many headers''), net')
          else read_headers
            (case split_once (CHR '':'') line of
               None \<Rightarrow> hs | Some (name, value) \<Rightarrow> hs @ [(to_ascii_lowercase (trim name), trim value)]) buf' net')"
  by pat_completeness auto
termination by (relation "measure (\<lambda>(_, _, net). net_size net)") (auto dest: read_line_net_size(2) [OF sym])

declare read_headers.simps [simp del]

definition read_head :: "net \<Rightarrow> (io_error, string \<times> headers) result \<times> net" where
  "read_head net =
     (case read_line net_read [] net of
        (Err e, _, net') \<Rightarrow> (Err e, net')
      | (Ok l, buf, net') \<Rightarrow>
          (case l of
             Some start \<Rightarrow>
               if start \<noteq> [] then
                 (case read_headers [] buf net' of
                    (Ok hs, net'') \<Rightarrow> (Ok (start, hs), net'') | (Err e, net'') \<Rightarrow> (Err e, net''))
               else (Err (IoError UnexpectedEof ''empty request head''), net')
           | None \<Rightarrow> (Err (IoError UnexpectedEof ''empty request head''), net')))"

definition get_header :: "headers \<Rightarrow> string \<Rightarrow> string option" where
  "get_header hs name = map_option snd (find (\<lambda>(n, _). n = name) hs)"

definition query_param :: "string \<Rightarrow> string \<Rightarrow> string option" where
  "query_param query name =
     map_option snd (find (\<lambda>(k, _). k = name) (List.map_filter (split_once (CHR ''='')) (split_on (CHR ''&'') query)))"

section \<open>Writers\<close>

text \<open>
  The sending side of a connection: what was sent, and how many more bytes the peer takes before the
  connection breaks (\<open>None\<close>: it does not).  \<open>write_all\<close> sends what it can.
\<close>

record sink =
  s_out :: "byte list"
  s_room :: "nat option"

type_synonym 'a sink_action = "(sink, io_error, 'a) action"

definition broken_pipe :: io_error where
  "broken_pipe = IoError OtherKind ''Broken pipe (os error 32)''"

definition write_all :: "byte list \<Rightarrow> unit sink_action" where
  "write_all bs k =
     (case s_room k of
        None \<Rightarrow> (Ok (), k\<lparr>s_out := s_out k @ bs\<rparr>)
      | Some n \<Rightarrow>
          if length bs \<le> n then (Ok (), k\<lparr>s_out := s_out k @ bs, s_room := Some (n - length bs)\<rparr>)
          else (Err broken_pipe, k\<lparr>s_out := s_out k @ take n bs, s_room := Some 0\<rparr>))"

section \<open>Chunked transfer encoding\<close>

definition chunk :: "byte list \<Rightarrow> unit sink_action" where
  "chunk data =
     (if data = [] then m_ok ()
      else m_then (write_all (to_bytes (fmt_hex (length data)) @ CRLF))
        (m_then (write_all data) (write_all CRLF)))"

definition chunk_finish :: "unit sink_action" where
  "chunk_finish = write_all (to_bytes ''0'' @ CRLF @ CRLF)"

datatype chunk_state = Size | Data nat | DataEnd | Trailer | Eof

record chunked_reader =
  cr_inner :: net
  cr_state :: chunk_state
  cr_line :: "byte list"

definition chunked_new :: "net \<Rightarrow> chunked_reader" where
  "chunked_new net = \<lparr>cr_inner = net, cr_state = Size, cr_line = []\<rparr>"

text \<open>\<open>u64::from_str_radix\<close> of the text before an extension.\<close>

definition parse_chunk_size :: "string \<Rightarrow> nat option" where
  "parse_chunk_size line = from_str_radix 64 16 (trim (hd (split_on (CHR '';'') line)))"

text \<open>A line of the framing; the end of the stream is an error with the given text.\<close>

definition frame_line :: "string \<Rightarrow> chunked_reader \<Rightarrow> (io_error, string) result \<times> chunked_reader" where
  "frame_line eof cr =
     (case read_line net_read (cr_line cr) (cr_inner cr) of
        (r, line, net) \<Rightarrow>
          ((case r of Err e \<Rightarrow> Err e | Ok None \<Rightarrow> Err (IoError UnexpectedEof eof) | Ok (Some l) \<Rightarrow> Ok l),
           cr\<lparr>cr_inner := net, cr_line := line\<rparr>))"

lemma frame_line_size:
  "frame_line eof cr = (Ok l, cr') \<Longrightarrow> net_size (cr_inner cr') < net_size (cr_inner cr)"
  "frame_line eof cr = (r, cr') \<Longrightarrow> net_size (cr_inner cr') \<le> net_size (cr_inner cr)"
  by (auto simp: frame_line_def split: prod.splits result.splits option.splits dest: read_line_net_size)

function chunked_read :: "nat \<Rightarrow> chunked_reader \<Rightarrow> (io_error, byte list) result \<times> chunked_reader" where
  "chunked_read n cr =
     (case cr_state cr of
        Size \<Rightarrow>
          (case frame_line ''eof before chunk size'' cr of
             (Err e, cr') \<Rightarrow> (Err e, cr')
           | (Ok line, cr') \<Rightarrow>
               (case parse_chunk_size line of
                  None \<Rightarrow> (Err (IoError InvalidData ''bad chunk size''), cr')
                | Some sz \<Rightarrow> chunked_read n (cr'\<lparr>cr_state := (if sz = 0 then Trailer else Data sz)\<rparr>)))
      | Data remaining \<Rightarrow>
          if n = 0 then (Ok [], cr)
          else (case net_read (min n remaining) (cr_inner cr) of
             (Err e, net) \<Rightarrow> (Err e, cr\<lparr>cr_inner := net\<rparr>)
           | (Ok bs, net) \<Rightarrow>
               if bs = [] then (Err (IoError UnexpectedEof ''eof mid-chunk''), cr\<lparr>cr_inner := net\<rparr>)
               else (Ok bs, cr\<lparr>cr_inner := net,
                       cr_state := (if remaining - length bs = 0 then DataEnd else Data (remaining - length bs))\<rparr>))
      | DataEnd \<Rightarrow>
          (case frame_line ''eof after chunk'' cr of
             (Err e, cr') \<Rightarrow> (Err e, cr')
           | (Ok line, cr') \<Rightarrow>
               if line \<noteq> [] then (Err (IoError InvalidData ''missing chunk terminator''), cr')
               else chunked_read n (cr'\<lparr>cr_state := Size\<rparr>))
      | Trailer \<Rightarrow>
          (case frame_line ''eof in trailer'' cr of
             (Err e, cr') \<Rightarrow> (Err e, cr')
           | (Ok line, cr') \<Rightarrow> chunked_read n (if line = [] then cr'\<lparr>cr_state := Eof\<rparr> else cr'))
      | Eof \<Rightarrow> (Ok [], cr))"
  by pat_completeness auto
termination by (relation "measure (\<lambda>(_, cr). net_size (cr_inner cr))") (auto dest: frame_line_size(1) [OF sym])

declare chunked_read.simps [simp del]

end
