(* ===== verification/WireProps.thy ===== *)
theory WireProps
  imports Wire
begin

text \<open>
  Readers as byte sources.  \<open>pends r d fin\<close> says what a reader is still to deliver: with no \<open>fin\<close> exactly
  the bytes \<open>d\<close> and then the end of the stream, with a kind of error only bytes of \<open>d\<close> and then that
  error, never the end of the stream.  Timeouts may interrupt it and lose nothing.  The line reader is
  proved over the locale; sockets, the chunked reader and the length-bounded readers interpret it.
\<close>

lemma first_occurrence: "x \<notin> set a \<Longrightarrow> x \<notin> set b \<Longrightarrow> a @ x # s = b @ x # t \<Longrightarrow> a = b \<and> s = t"
proof (induction a arbitrary: b)
  case Nil
  then show ?case by (cases b) auto
next
  case (Cons y a)
  then show ?case by (cases b) auto
qed

lemma append_split_le: "xs @ ys = zs @ ws \<Longrightarrow> length xs \<le> length zs \<Longrightarrow> \<exists>u. zs = xs @ u \<and> ys = u @ ws"
  by (auto simp: append_eq_append_conv2)

section \<open>The contract of a reader\<close>

locale byte_source =
  fixes rd :: "'r read_fn" and pends :: "'r \<Rightarrow> byte list \<Rightarrow> io_kind option \<Rightarrow> bool" and ticks :: "'r \<Rightarrow> nat"
  assumes rd_Ok: "pends r d fin \<Longrightarrow> 0 < n \<Longrightarrow> rd n r = (Ok bs, r') \<Longrightarrow>
      length bs \<le> n \<and> ticks r' \<le> ticks r \<and> (\<exists>d'. d = bs @ d' \<and> pends r' d' fin) \<and> (bs = [] \<longrightarrow> d = [] \<and> fin = None)"
    and rd_Err: "pends r d fin \<Longrightarrow> 0 < n \<Longrightarrow> rd n r = (Err e, r') \<Longrightarrow>
      is_timeout e \<and> pends r' d fin \<and> ticks r' < ticks r \<or> fin = Some (kind e)"
begin

text \<open>A line that is coming is read whole, or a timeout leaves its parts in place.\<close>

lemma read_line_finds:
  assumes "pends r d fin" and "buf @ d = w @ LF # rest" and "LF \<notin> set buf" and "LF \<notin> set w" and "length w \<le> MAX_LINE"
    and "finish_line w = Ok (Some l)" and "read_line rd buf r = (res, buf', r')"
  shows "res = Ok (Some l) \<and> buf' = [] \<and> pends r' rest fin \<and> ticks r' \<le> ticks r \<or>
    (\<exists>e. res = Err e \<and>
      (fin = Some (kind e) \<or>
       is_timeout e \<and> ticks r' < ticks r \<and> LF \<notin> set buf' \<and> (\<exists>d'. pends r' d' fin \<and> buf' @ d' = w @ LF # rest)))"
  using assms
proof (induction "Suc MAX_LINE - length buf" arbitrary: buf r d rule: less_induct)
  case less
  obtain x r1 where x: "rd 1 r = (x, r1)" by fastforce
  show ?case
  proof (cases x)
    case (Err e)
    then have "res = Err e" "buf' = buf" "r' = r1" using less.prems(7) x by (simp_all add: read_line.simps)
    then show ?thesis using rd_Err [OF less.prems(1) _ x [unfolded Err]] less.prems(2,3) by auto
  next
    case (Ok bs)
    note ok = rd_Ok [OF less.prems(1) zero_less_one x [unfolded Ok]]
    show ?thesis
    proof (cases bs)
      case Nil
      then have "d = []" using ok by simp
      then have "LF \<in> set buf" using less.prems(2) by (metis append_Nil2 in_set_conv_decomp)
      with less.prems(3) show ?thesis by simp
    next
      case (Cons b bs')
      then have bs: "bs = [b]" using ok by simp
      obtain d1 where d1: "d = b # d1" "pends r1 d1 fin" using ok bs by auto
      show ?thesis
      proof (cases "b = LF")
        case True
        have "w = buf" "rest = d1"
          using first_occurrence [OF less.prems(3,4), of d1 rest] less.prems(2) d1(1) True by auto
        then show ?thesis using less.prems(6,7) x Ok bs True d1(2) ok by (simp add: read_line.simps)
      next
        case False
        have len: "length buf < MAX_LINE"
        proof -
          have "\<not> length w \<le> length buf"
          proof
            assume "length w \<le> length buf"
            then obtain u where "buf = w @ u" "LF # rest = u @ b # d1"
              using less.prems(2) d1(1) by (auto simp: append_eq_append_conv2)
            then show False using less.prems(3) False by (cases u) auto
          qed
          with less.prems(5) show ?thesis by simp
        qed
        have run: "read_line rd (buf @ [b]) r1 = (res, buf', r')"
          using less.prems(7) x Ok bs False len by (subst (asm) read_line.simps) simp
        have "Suc MAX_LINE - length (buf @ [b]) < Suc MAX_LINE - length buf" using len by simp
        moreover have "(buf @ [b]) @ d1 = w @ LF # rest" "LF \<notin> set (buf @ [b])"
          using less.prems(2,3) d1(1) False by auto
        ultimately show ?thesis using less.hyps [of "buf @ [b]" r1 d1] d1(2) less.prems(4-6) run ok by fastforce
      qed
    qed
  qed
qed

text \<open>A stream that is cut before the line feed is an error, or no line at all.\<close>

lemma read_line_cut:
  assumes "pends r d fin" and "LF \<notin> set (buf @ d)" and "length (buf @ d) \<le> MAX_LINE"
    and "read_line rd buf r = (res, buf', r')"
  shows "res = Ok None \<and> fin = None \<or>
    (\<exists>e. res = Err e \<and>
      (fin = Some (kind e) \<or> fin = None \<and> kind e = UnexpectedEof \<or>
       is_timeout e \<and> ticks r' < ticks r \<and> (\<exists>d'. pends r' d' fin \<and> buf' @ d' = buf @ d)))"
  using assms
proof (induction "Suc MAX_LINE - length buf" arbitrary: buf r d rule: less_induct)
  case less
  obtain x r1 where x: "rd 1 r = (x, r1)" by fastforce
  show ?case
  proof (cases x)
    case (Err e)
    then have "res = Err e" "buf' = buf" "r' = r1" using less.prems(4) x by (simp_all add: read_line.simps)
    then show ?thesis using rd_Err [OF less.prems(1) _ x [unfolded Err]] by auto
  next
    case (Ok bs)
    note ok = rd_Ok [OF less.prems(1) zero_less_one x [unfolded Ok]]
    show ?thesis
    proof (cases bs)
      case Nil
      then show ?thesis using ok less.prems(4) x Ok by (auto simp: read_line.simps split: if_splits)
    next
      case (Cons b bs')
      then have bs: "bs = [b]" using ok by simp
      obtain d1 where d1: "d = b # d1" "pends r1 d1 fin" using ok bs by auto
      have b: "b \<noteq> LF" "length buf < MAX_LINE" using less.prems(2,3) d1(1) by auto
      have run: "read_line rd (buf @ [b]) r1 = (res, buf', r')"
        using less.prems(4) x Ok bs b by (subst (asm) read_line.simps) simp
      have "Suc MAX_LINE - length (buf @ [b]) < Suc MAX_LINE - length buf" using b by simp
      then show ?thesis using less.hyps [of "buf @ [b]" r1 d1] d1 less.prems(2,3) run ok by fastforce
    qed
  qed
qed

end

section \<open>Sockets\<close>

fun net_pends :: "net \<Rightarrow> byte list \<Rightarrow> io_kind option \<Rightarrow> bool" where
  "net_pends [] d fin \<longleftrightarrow> d = [] \<and> fin = None"
| "net_pends (Arrive bs # es) d fin \<longleftrightarrow> take (length bs) d = bs \<and> net_pends es (drop (length bs) d) fin"
| "net_pends (Fail e # es) d fin \<longleftrightarrow> is_timeout e \<and> net_pends es d fin \<or> fin = Some (kind e)"
| "net_pends (Broken e # es) d fin \<longleftrightarrow> fin = Some (kind e)"

fun net_ticks :: "net \<Rightarrow> nat" where
  "net_ticks [] = 0"
| "net_ticks (Fail _ # es) = Suc (net_ticks es)"
| "net_ticks (_ # es) = net_ticks es"

interpretation net: byte_source net_read net_pends net_ticks
proof
  fix r d fin n bs r'
  assume "net_pends r d fin" "0 < n" "net_read n r = (Ok bs, r')"
  then show "length bs \<le> n \<and> net_ticks r' \<le> net_ticks r \<and> (\<exists>d'. d = bs @ d' \<and> net_pends r' d' fin) \<and> (bs = [] \<longrightarrow> d = [] \<and> fin = None)"
  proof (induction n r arbitrary: d rule: net_read.induct)
    case (4 n as es)
    show ?case
    proof (cases "as = []")
      case False
      have d: "d = as @ drop (length as) d" "net_pends es (drop (length as) d) fin"
        using "4.prems"(1) by (auto, metis append_take_drop_id)
      have bs: "bs = take n as" "r' = (if length as \<le> n then es else Arrive (drop n as) # es)"
        using "4.prems"(3) False by auto
      have "bs \<noteq> []" using bs(1) "4.prems"(2) False by (cases n) auto
      moreover have "d = bs @ drop (length bs) d" using d(1) bs(1)
        by (metis append_assoc append_take_drop_id append_eq_conv_conj)
      moreover have "net_pends r' (drop (length bs) d) fin"
      proof (cases "length as \<le> n")
        case False
        have "drop n d = drop n as @ drop (length as) d" using d(1) False
          by (metis drop_append diff_is_0_eq' drop0 nle_le)
        then show ?thesis using bs d(2) False by (simp add: min_def)
      qed (use bs d(2) in \<open>simp add: min_def\<close>)
      ultimately show ?thesis using bs by auto
    qed (use 4 in simp)
  qed auto
next
  fix r d fin n e r'
  assume "net_pends r d fin" "0 < n" "net_read n r = (Err e, r')"
  then show "is_timeout e \<and> net_pends r' d fin \<and> net_ticks r' < net_ticks r \<or> fin = Some (kind e)"
    by (induction n r arbitrary: d rule: net_read.induct) (auto split: if_splits)
qed

section \<open>The chunked encoding\<close>

definition chunk_bytes :: "byte list \<Rightarrow> byte list" where
  "chunk_bytes c = to_bytes (fmt_hex (length c)) @ CRLF @ c @ CRLF"

definition chunked_body :: "byte list list \<Rightarrow> byte list" where
  "chunked_body cs = concat (map chunk_bytes cs) @ to_bytes ''0'' @ CRLF @ CRLF"

definition good_chunks :: "byte list list \<Rightarrow> bool" where
  "good_chunks cs \<longleftrightarrow> list_all (\<lambda>c. c \<noteq> [] \<and> length c < 2 ^ 64) cs"

text \<open>What is left of an encoded body in each state of the reader, and the data in it.\<close>

definition enc :: "chunk_state \<Rightarrow> byte list \<Rightarrow> byte list \<Rightarrow> byte list \<Rightarrow> bool" where
  "enc st line b d \<longleftrightarrow> LF \<notin> set line \<and>
     (case st of
        Size \<Rightarrow> \<exists>cs. good_chunks cs \<and> line @ b = chunked_body cs \<and> d = concat cs
      | Data k \<Rightarrow> line = [] \<and> (\<exists>a cs. good_chunks cs \<and> b = a @ CRLF @ chunked_body cs \<and> length a = k \<and> 0 < k \<and> d = a @ concat cs)
      | DataEnd \<Rightarrow> \<exists>cs. good_chunks cs \<and> line @ b = CRLF @ chunked_body cs \<and> d = concat cs
      | Trailer \<Rightarrow> line @ b = CRLF \<and> d = []
      | Eof \<Rightarrow> line = [] \<and> b = [] \<and> d = [])"

definition cut_as :: "io_kind option \<Rightarrow> byte list \<Rightarrow> io_kind option \<Rightarrow> bool" where
  "cut_as f missing fin \<longleftrightarrow>
     (if missing = [] then f = None \<and> fin = None
      else fin = Some (case f of None \<Rightarrow> UnexpectedEof | Some k \<Rightarrow> k))"

text \<open>The socket delivers an encoded body, perhaps followed by other bytes, or a proper prefix of one.\<close>

definition chunked_pends :: "chunked_reader \<Rightarrow> byte list \<Rightarrow> io_kind option \<Rightarrow> bool" where
  "chunked_pends cr d fin \<longleftrightarrow>
     (\<exists>raw f missing b rest. net_pends (cr_inner cr) raw f \<and> raw @ missing = b @ rest \<and>
        enc (cr_state cr) (cr_line cr) b d \<and> (missing = [] \<or> rest = []) \<and> cut_as f missing fin)"

lemma chunked_pendsI:
  "net_pends (cr_inner cr) raw f \<Longrightarrow> raw @ missing = b @ rest \<Longrightarrow> enc (cr_state cr) (cr_line cr) b d \<Longrightarrow>
   missing = [] \<or> rest = [] \<Longrightarrow> cut_as f missing fin \<Longrightarrow> chunked_pends cr d fin"
  unfolding chunked_pends_def by blast

definition chunked_ticks :: "chunked_reader \<Rightarrow> nat" where
  "chunked_ticks cr = net_ticks (cr_inner cr)"

lemma hex_line:
  "finish_line (to_bytes (fmt_hex n) @ [CR]) = Ok (Some (fmt_hex n))" "LF \<notin> set (to_bytes (fmt_hex n) @ [CR])"
  "finish_line [CR] = Ok (Some [])"
proof -
  show "finish_line (to_bytes (fmt_hex n) @ [CR]) = Ok (Some (fmt_hex n))" by (simp add: finish_line_def from_utf8_ascii plain_ascii)
  show "finish_line [CR] = Ok (Some [])" using from_utf8_ascii [of "[]"] by (simp add: finish_line_def is_ascii_def)
  have "LF \<noteq> of_nat (of_char c)" if "plain [c]" for c
  proof
    assume "LF = of_nat (of_char c)"
    then have "unat (of_nat (of_char c) :: byte) = unat LF" by simp
    then have "of_char c = (10 :: nat)" by simp
    with that show False by simp
  qed
  moreover have "plain [c]" if "c \<in> set (fmt_hex n)" for c
    using plain_fmt_hex [of n] that by (auto simp: plain_def list_all_iff)
  ultimately show "LF \<notin> set (to_bytes (fmt_hex n) @ [CR])" by (auto simp: to_bytes_def)
qed


lemma parse_chunk_size_hex: "n < 2 ^ 64 \<Longrightarrow> parse_chunk_size (fmt_hex n) = Some n"
proof -
  assume n: "n < 2 ^ 64"
  have d: "\<forall>c \<in> set (fmt_hex n). \<exists>d < 16. c = digit_char d"
    using digits_of_bound [of 16 n] by (auto simp: fmt_hex_def)
  have neq: "c \<noteq> CHR '';''" if c: "c \<in> set (fmt_hex n)" for c
  proof
    assume "c = CHR '';''"
    then obtain d where "d < 16" "digit_char d = CHR '';''" using d c by force
    then have "(of_char (digit_char d) :: nat) = of_char (CHR '';'')" by simp
    then show False using \<open>d < 16\<close> by (auto simp: of_char_digit_char split: if_splits)
  qed
  then have "split_on (CHR '';'') (fmt_hex n) = [fmt_hex n]" by (auto intro: split_on_word)
  moreover have "from_str_radix 64 16 (fmt_hex n) = Some n"
  proof (rule from_str_radix_no_sign)
    show "hd (fmt_hex n) \<noteq> CHR ''+''" using d digit_char_neq_plus by (metis fmt_not_Nil(2) hd_in_set)
    show "parse_digits 16 0 (fmt_hex n) = Some n" by (simp add: fmt_hex_def parse_digits_digits_of)
  qed (use n in simp_all)
  ultimately show ?thesis by (simp add: parse_chunk_size_def trim_plain)
qed

lemma length_hex: "n < 2 ^ 64 \<Longrightarrow> length (fmt_hex n) \<le> 16"
  using length_digits_of_le [of 16 16 n] by (simp add: fmt_hex_def)

text \<open>The framing lines: what follows each of them.\<close>

definition next_state :: "chunk_state \<Rightarrow> string \<Rightarrow> chunk_state option" where
  "next_state st l =
     (case st of
        Size \<Rightarrow> map_option (\<lambda>sz. if sz = 0 then Trailer else Data sz) (parse_chunk_size l)
      | DataEnd \<Rightarrow> if l = [] then Some Size else None
      | Trailer \<Rightarrow> Some (if l = [] then Eof else Trailer)
      | _ \<Rightarrow> None)"

definition framing :: "chunk_state \<Rightarrow> bool" where
  "framing st \<longleftrightarrow> st = Size \<or> st = DataEnd \<or> st = Trailer"

lemma chunked_read_framing:
  assumes "framing (cr_state cr)"
  shows "\<exists>eof err. chunked_read n cr =
    (case frame_line eof cr of (Err e, cr') \<Rightarrow> (Err e, cr')
     | (Ok l, cr') \<Rightarrow> (case next_state (cr_state cr) l of None \<Rightarrow> (Err err, cr')
         | Some st \<Rightarrow> chunked_read n (cr'\<lparr>cr_state := st\<rparr>)))"
proof -
  have upd: "cr'\<lparr>cr_state := Trailer\<rparr> = cr'" if "frame_line eof cr = (r, cr')" "cr_state cr = Trailer" for eof r cr'
    using that by (auto simp: frame_line_def split: prod.splits)
  from assms consider "cr_state cr = Size" | "cr_state cr = DataEnd" | "cr_state cr = Trailer" by (auto simp: framing_def)
  then show ?thesis
  proof cases
    case 1
    then show ?thesis by (intro exI [of _ "''eof before chunk size''"] exI [of _ "IoError InvalidData ''bad chunk size''"],
        subst chunked_read.simps) (auto simp: next_state_def split: prod.splits result.splits option.splits)
  next
    case 2
    then show ?thesis by (intro exI [of _ "''eof after chunk''"] exI [of _ "IoError InvalidData ''missing chunk terminator''"],
        subst chunked_read.simps) (auto simp: next_state_def split: prod.splits result.splits option.splits)
  next
    case 3
    then show ?thesis by (intro exI [of _ "''eof in trailer''"] exI [of _ "broken_pipe"],
        subst chunked_read.simps) (auto simp: next_state_def upd split: prod.splits result.splits option.splits)
  qed
qed

lemma enc_framing:
  assumes "enc st line b d" and "framing st"
  obtains w l rst st' where "line @ b = w @ LF # rst" "LF \<notin> set w" "length w \<le> MAX_LINE" "finish_line w = Ok (Some l)"
    "next_state st l = Some st'" "enc st' [] rst d" "LF \<notin> set line"
proof -
  have line: "LF \<notin> set line" using assms(1) by (simp add: enc_def)
  from assms(2) consider "st = Size" | "st = DataEnd" | "st = Trailer" by (auto simp: framing_def)
  then show ?thesis
  proof cases
    case 1
    then obtain cs where cs: "good_chunks cs" "line @ b = chunked_body cs" "d = concat cs" using assms(1) by (auto simp: enc_def)
    show ?thesis
    proof (cases cs)
      case Nil
      have "fmt_hex 0 = ''0''" by code_simp
      then have "finish_line (to_bytes ''0'' @ [CR]) = Ok (Some ''0'')" "LF \<notin> set (to_bytes ''0'' @ [CR])"
        "parse_chunk_size ''0'' = Some 0" using hex_line(1,2) [of 0] parse_chunk_size_hex [of 0] by simp_all
      with Nil cs 1 line show ?thesis
        by (intro that [of "to_bytes ''0'' @ [CR]" CRLF "''0''" Trailer])
          (auto simp: chunked_body_def CRLF_def MAX_LINE_def next_state_def enc_def)
    next
      case (Cons c cs')
      then have c: "c \<noteq> []" "length c < 2 ^ 64" "good_chunks cs'" using cs(1) by (auto simp: good_chunks_def)
      show ?thesis
        by (rule that [of "to_bytes (fmt_hex (length c)) @ [CR]" "c @ CRLF @ chunked_body cs'" "fmt_hex (length c)" "Data (length c)"])
          (use Cons cs c 1 line hex_line(1,2) [of "length c"] parse_chunk_size_hex [of "length c"] length_hex [of "length c"]
            in \<open>auto simp: chunked_body_def chunk_bytes_def CRLF_def MAX_LINE_def next_state_def enc_def\<close>)
    qed
  next
    case 2
    then obtain cs where "good_chunks cs" "line @ b = [CR] @ LF # chunked_body cs" "d = concat cs"
      using assms(1) by (auto simp: enc_def CRLF_def)
    with 2 line hex_line(3) show ?thesis
      by (intro that [of "[CR]" "chunked_body cs" "[]" Size]) (auto simp: enc_def MAX_LINE_def next_state_def)
  next
    case 3
    with assms(1) line hex_line(3) show ?thesis
      by (intro that [of "[CR]" "[]" "[]" Eof]) (auto simp: enc_def CRLF_def MAX_LINE_def next_state_def)
  qed
qed

lemma frame_line_step:
  assumes "net_pends (cr_inner cr) raw f" and "cr_line cr @ raw @ missing = w @ LF # rst"
    and "LF \<notin> set (cr_line cr)" and w: "LF \<notin> set w" "length w \<le> MAX_LINE" "finish_line w = Ok (Some l)"
    and run: "frame_line eof cr = (res, cr')"
  shows "(\<exists>raw'. res = Ok l \<and> cr_line cr' = [] \<and> net_pends (cr_inner cr') raw' f \<and> raw' @ missing = rst \<and>
        chunked_ticks cr' \<le> chunked_ticks cr) \<or>
    (\<exists>e. res = Err e \<and>
       ((\<exists>raw'. is_timeout e \<and> chunked_ticks cr' < chunked_ticks cr \<and> LF \<notin> set (cr_line cr') \<and>
          net_pends (cr_inner cr') raw' f \<and> cr_line cr' @ raw' @ missing = w @ LF # rst) \<or>
        f = Some (kind e) \<or> f = None \<and> kind e = UnexpectedEof \<and> missing \<noteq> []))"
proof -
  obtain x buf net where x: "read_line net_read (cr_line cr) (cr_inner cr) = (x, buf, net)" by (metis prod_cases3)
  then have cr': "cr_line cr' = buf" "cr_inner cr' = net"
    and res: "res = (case x of Err e \<Rightarrow> Err e | Ok None \<Rightarrow> Err (IoError UnexpectedEof eof) | Ok (Some l) \<Rightarrow> Ok l)"
    using run by (auto simp: frame_line_def)
  show ?thesis
  proof (cases "LF \<in> set raw")
    case True
    then obtain u v where u: "raw = u @ LF # v" "LF \<notin> set u" by (metis split_list_first)
    have "(cr_line cr @ u) @ LF # (v @ missing) = w @ LF # rst" using assms(2) u(1) by simp
    with first_occurrence [OF _ w(1) this] u assms(3) have *: "cr_line cr @ u = w" "v @ missing = rst" by auto
    then have "cr_line cr @ raw = w @ LF # v" using u(1) by simp
    from net.read_line_finds [OF assms(1) this assms(3) w x] *(2) show ?thesis
      unfolding chunked_ticks_def cr' res by (elim disjE exE conjE) auto
  next
    case False
    then have "LF \<notin> set (cr_line cr @ raw)" using assms(3) by simp
    moreover from this obtain v where v: "w = (cr_line cr @ raw) @ v"
    proof -
      have "(cr_line cr @ raw) @ missing = w @ LF # rst" using assms(2) by simp
      then obtain us where "cr_line cr @ raw = w @ us \<and> us @ missing = LF # rst \<or> (cr_line cr @ raw) @ us = w"
        unfolding append_eq_append_conv2 [of "cr_line cr @ raw"] by blast
      moreover have "us = []" if "cr_line cr @ raw = w @ us" "us @ missing = LF # rst"
      proof (rule ccontr)
        assume "us \<noteq> []"
        then have "LF \<in> set us" using that(2) by (cases us) auto
        then have "LF \<in> set (cr_line cr @ raw)" unfolding that(1) by simp
        then show False using False assms(3) by simp
      qed
      ultimately show ?thesis using that by fastforce
    qed
    moreover have "length (cr_line cr @ raw) \<le> MAX_LINE" using v w(2) by simp
    moreover have "missing \<noteq> []" using assms(2) v by auto
    ultimately have "x = Ok None \<and> f = None \<or> (\<exists>e. x = Err e \<and> (f = Some (kind e) \<or> f = None \<and> kind e = UnexpectedEof \<or>
        is_timeout e \<and> net_ticks net < net_ticks (cr_inner cr) \<and> (\<exists>d'. net_pends net d' f \<and> buf @ d' = cr_line cr @ raw)))"
      using net.read_line_cut [OF assms(1) _ _ x] by blast
    moreover have "LF \<notin> set buf \<and> buf @ d' @ missing = w @ LF # rst" if "buf @ d' = cr_line cr @ raw" for d'
    proof -
      have "set buf \<subseteq> set (cr_line cr @ raw)" unfolding that [symmetric] by simp
      then show ?thesis using \<open>LF \<notin> set (cr_line cr @ raw)\<close> assms(2) that by (metis append_assoc subsetD)
    qed
    ultimately show ?thesis using \<open>missing \<noteq> []\<close> unfolding chunked_ticks_def cr' res by (elim disjE exE conjE) auto
  qed
qed

lemma frame_line_state: "frame_line eof cr = (res, cr') \<Longrightarrow> cr_state cr' = cr_state cr"
  by (auto simp: frame_line_def split: prod.splits)

text \<open>One read in the middle of a chunk.\<close>

lemma chunked_read_data:
  assumes pend: "net_pends (cr_inner cr) raw f" "raw @ missing = b @ rest" "missing = [] \<or> rest = []" "cut_as f missing fin"
    and enc: "enc (Data k) (cr_line cr) b d" and st: "cr_state cr = Data k" and n: "0 < n" and run: "chunked_read n cr = (res, cr')"
  shows "(\<exists>bs. res = Ok bs \<and> bs \<noteq> [] \<and> length bs \<le> n \<and> chunked_ticks cr' \<le> chunked_ticks cr \<and> (\<exists>d'. d = bs @ d' \<and> chunked_pends cr' d' fin)) \<or>
    (\<exists>e. res = Err e \<and> (is_timeout e \<and> chunked_pends cr' d fin \<and> chunked_ticks cr' < chunked_ticks cr \<or> fin = Some (kind e)))"
proof -
  from enc obtain a cs where a: "cr_line cr = []" "good_chunks cs" "b = a @ CRLF @ chunked_body cs" "length a = k" "0 < k" "d = a @ concat cs"
    by (auto simp: enc_def)
  obtain x net where x: "net_read (min n k) (cr_inner cr) = (x, net)" by fastforce
  have m: "0 < min n k" using n a(5) by simp
  show ?thesis
  proof (cases x)
    case (Err e)
    then have "res = Err e" "cr' = cr\<lparr>cr_inner := net\<rparr>" using run st n x by (simp_all add: chunked_read.simps)
    moreover have "fin = Some (kind e)" if "f = Some (kind e)" using that pend(4) by (auto simp: cut_as_def split: if_splits)
    moreover have "chunked_pends (cr\<lparr>cr_inner := net\<rparr>) d fin" if "net_pends net raw f"
      by (rule chunked_pendsI [OF _ pend(2) _ pend(3,4)]) (use that enc st in simp_all)
    ultimately show ?thesis using net.rd_Err [OF pend(1) m x [unfolded Err]] by (auto simp: chunked_ticks_def)
  next
    case (Ok bs)
    note ok = net.rd_Ok [OF pend(1) m x [unfolded Ok]]
    show ?thesis
    proof (cases "bs = []")
      case True
      then have "raw = []" "f = None" using ok by auto
      moreover have "b \<noteq> []" using a(3,4,5) by auto
      ultimately have "missing \<noteq> []" using pend(2) by auto
      then have "fin = Some UnexpectedEof" using pend(4) \<open>f = None\<close> by (simp add: cut_as_def)
      moreover have "res = Err (IoError UnexpectedEof ''eof mid-chunk'')" using run st n x Ok True by (simp add: chunked_read.simps)
      ultimately show ?thesis by simp
    next
      case False
      define st' where "st' = (if k - length bs = 0 then DataEnd else Data (k - length bs))"
      have res: "res = Ok bs" "cr' = cr\<lparr>cr_inner := net, cr_state := st'\<rparr>"
        using run st n x Ok False by (simp_all add: chunked_read.simps st'_def)
      obtain raw' where raw': "raw = bs @ raw'" "net_pends net raw' f" using ok by auto
      have "length bs \<le> k" using ok by simp
      moreover have "bs @ raw' @ missing = a @ (CRLF @ chunked_body cs @ rest)" using pend(2) raw'(1) a(3) by simp
      ultimately obtain a' where a': "a = bs @ a'" "raw' @ missing = (a' @ CRLF @ chunked_body cs) @ rest"
        using append_split_le [of bs "raw' @ missing" a] a(4) by auto
      have "enc st' [] (a' @ CRLF @ chunked_body cs) (a' @ concat cs)"
      proof (cases "a' = []")
        case True
        then have "st' = DataEnd" using a(4) a'(1) by (simp add: st'_def)
        then show ?thesis using a(2) True by (auto simp: enc_def)
      next
        case False
        then have "st' = Data (length a')" using a(4) a'(1) by (auto simp: st'_def)
        then show ?thesis using a(2) False by (auto simp: enc_def)
      qed
      then have "chunked_pends cr' (a' @ concat cs) fin"
        unfolding res(2) by (intro chunked_pendsI [OF _ a'(2) _ pend(3,4)]) (use raw'(2) a(1) in simp_all)
      moreover have "d = bs @ a' @ concat cs" using a(6) a'(1) by simp
      ultimately show ?thesis using res ok False by (auto simp: chunked_ticks_def)
    qed
  qed
qed

lemma chunked_step:
  assumes "chunked_pends cr d fin" and "0 < n" and "chunked_read n cr = (res, cr')"
  shows "(\<exists>bs. res = Ok bs \<and> length bs \<le> n \<and> chunked_ticks cr' \<le> chunked_ticks cr \<and>
        (\<exists>d'. d = bs @ d' \<and> chunked_pends cr' d' fin) \<and> (bs = [] \<longrightarrow> d = [] \<and> fin = None)) \<or>
    (\<exists>e. res = Err e \<and> (is_timeout e \<and> chunked_pends cr' d fin \<and> chunked_ticks cr' < chunked_ticks cr \<or> fin = Some (kind e)))"
  using assms(1,3)
proof (induction "net_size (cr_inner cr)" arbitrary: cr rule: less_induct)
  case less
  from less.prems(1) obtain raw f missing b rest where pend: "net_pends (cr_inner cr) raw f" "raw @ missing = b @ rest"
      "missing = [] \<or> rest = []" "cut_as f missing fin" and enc: "enc (cr_state cr) (cr_line cr) b d"
    unfolding chunked_pends_def by blast
  have fatal: "fin = Some (kind e)" if "f = Some (kind e) \<or> f = None \<and> kind e = UnexpectedEof \<and> missing \<noteq> []" for e
    using that pend(4) by (auto simp: cut_as_def split: if_splits)
  show ?case
  proof (cases "framing (cr_state cr)")
    case True
    obtain w l rst st' where w: "cr_line cr @ b = w @ LF # rst" "LF \<notin> set w" "length w \<le> MAX_LINE" "finish_line w = Ok (Some l)"
      and st': "next_state (cr_state cr) l = Some st'" "enc st' [] rst d" and line: "LF \<notin> set (cr_line cr)"
      by (rule enc_framing [OF enc True])
    obtain eof err where rd: "chunked_read n cr = (case frame_line eof cr of (Err e, cr') \<Rightarrow> (Err e, cr')
        | (Ok l, cr') \<Rightarrow> (case next_state (cr_state cr) l of None \<Rightarrow> (Err err, cr') | Some st \<Rightarrow> chunked_read n (cr'\<lparr>cr_state := st\<rparr>)))"
      using chunked_read_framing [OF True, of n] by (elim exE) (rule that)
    obtain x cr1 where x: "frame_line eof cr = (x, cr1)" by fastforce
    have "cr_line cr @ raw @ missing = w @ LF # (rst @ rest)" using pend(2) w(1) by simp
    from frame_line_step [OF pend(1) this line w(2-4) x] consider
        raw' where "x = Ok l" "cr_line cr1 = []" "net_pends (cr_inner cr1) raw' f" "raw' @ missing = rst @ rest" "chunked_ticks cr1 \<le> chunked_ticks cr"
      | e raw' where "x = Err e" "is_timeout e" "chunked_ticks cr1 < chunked_ticks cr" "LF \<notin> set (cr_line cr1)"
          "net_pends (cr_inner cr1) raw' f" "cr_line cr1 @ raw' @ missing = w @ LF # rst @ rest"
      | e where "x = Err e" "fin = Some (kind e)" using fatal by blast
    then show ?thesis
    proof cases
      case 1
      define cr2 where "cr2 = cr1\<lparr>cr_state := st'\<rparr>"
      have "chunked_pends cr2 d fin"
        by (rule chunked_pendsI [OF _ 1(4) _ pend(3,4)]) (use 1 st'(2) in \<open>simp_all add: cr2_def\<close>)
      moreover have "chunked_read n cr2 = (res, cr')" using less.prems(2) rd x 1(1) st'(1) by (simp add: cr2_def)
      moreover have "net_size (cr_inner cr2) < net_size (cr_inner cr)" using frame_line_size(1) x 1(1) by (simp add: cr2_def)
      moreover have "chunked_ticks cr2 \<le> chunked_ticks cr" using 1(5) by (simp add: cr2_def chunked_ticks_def)
      ultimately have "(\<exists>bs. res = Ok bs \<and> length bs \<le> n \<and> chunked_ticks cr' \<le> chunked_ticks cr2 \<and>
          (\<exists>d'. d = bs @ d' \<and> chunked_pends cr' d' fin) \<and> (bs = [] \<longrightarrow> d = [] \<and> fin = None)) \<or>
        (\<exists>e. res = Err e \<and> (is_timeout e \<and> chunked_pends cr' d fin \<and> chunked_ticks cr' < chunked_ticks cr2 \<or> fin = Some (kind e)))"
        and t: "chunked_ticks cr2 \<le> chunked_ticks cr" using less.hyps [of cr2] by (blast, simp)
      then show ?thesis using t by (elim disjE exE conjE) force+
    next
      case 2
      have "res = Err e" "cr' = cr1" using less.prems(2) rd x 2(1) by simp_all
      moreover have "\<exists>b'. raw' @ missing = b' @ rest \<and> cr_line cr1 @ b' = cr_line cr @ b"
      proof -
        have eq: "(cr_line cr1 @ raw') @ missing = (w @ LF # rst) @ rest" using 2(6) by simp
        show ?thesis
        proof (cases "missing = []")
          case True
          then have "cr_line cr1 @ raw' = (w @ LF # rst) @ rest" using eq by simp
          moreover have "length (cr_line cr1) \<le> length (w @ LF # rst)"
          proof (rule ccontr)
            assume "\<not> ?thesis"
            then obtain u where "cr_line cr1 = (w @ LF # rst) @ u"
              using append_split_le [OF calculation [symmetric]] by auto
            then show False using 2(4) by simp
          qed
          ultimately obtain u where "w @ LF # rst = cr_line cr1 @ u" "raw' = u @ rest"
            using append_split_le by blast
          then show ?thesis using True w(1) by auto
        next
          case False
          then have "rest = []" using pend(3) by simp
          then show ?thesis using eq w(1) by auto
        qed
      qed
      then obtain b' where b': "raw' @ missing = b' @ rest" "cr_line cr1 @ b' = cr_line cr @ b" by blast
      moreover have "enc (cr_state cr1) (cr_line cr1) b' d"
        using enc b'(2) 2(4) True frame_line_state [OF x] by (auto simp: enc_def framing_def)
      ultimately show ?thesis using 2(2,3) chunked_pendsI [OF 2(5) b'(1) _ pend(3,4)] by simp
    next
      case 3
      then have "res = Err e" using less.prems(2) rd x by simp
      with 3(2) show ?thesis by simp
    qed
  next
    case False
    show ?thesis
    proof (cases "cr_state cr")
      case (Data k)
      from chunked_read_data [OF pend enc [unfolded Data] Data assms(2) less.prems(2)] show ?thesis by blast
    next
      case Eof
      then have "res = Ok []" "cr' = cr" "d = []" "b = []" using less.prems(2) enc by (auto simp: chunked_read.simps enc_def)
      moreover have "fin = None" using pend(2-4) \<open>b = []\<close> by (cases "missing = []") (auto simp: cut_as_def)
      ultimately show ?thesis using less.prems(1) by auto
    qed (use False in \<open>auto simp: framing_def\<close>)
  qed
qed

interpretation chunked: byte_source chunked_read chunked_pends chunked_ticks
proof
  fix r d fin n bs r'
  assume "chunked_pends r d fin" "0 < n" "chunked_read n r = (Ok bs, r')"
  from chunked_step [OF this] show "length bs \<le> n \<and> chunked_ticks r' \<le> chunked_ticks r \<and>
      (\<exists>d'. d = bs @ d' \<and> chunked_pends r' d' fin) \<and> (bs = [] \<longrightarrow> d = [] \<and> fin = None)" by auto
next
  fix r d fin n e r'
  assume "chunked_pends r d fin" "0 < n" "chunked_read n r = (Err e, r')"
  from chunked_step [OF this] show "is_timeout e \<and> chunked_pends r' d fin \<and> chunked_ticks r' < chunked_ticks r \<or> fin = Some (kind e)" by auto
qed

end
