(* ===== verification/HttpBody.thy ===== *)
theory HttpBody
  imports WireProps
begin

text \<open>
  The readers of request and response bodies: the chunked reader, the server's \<open>ExactLen\<close>
  (\<open>crates/liters-storage/src/http/server.rs\<close>), the client's \<open>take\<close> and close-delimited bodies
  (\<open>body_reader\<close> of \<open>transport.rs\<close>), and the loops that spool a whole body (\<open>spool_put_body\<close> of
  \<open>mount.rs\<close>, \<open>spool_body\<close> of \<open>client.rs\<close>).  \<open>Box<dyn Read>\<close> is the datatype \<open>body\<close>.
\<close>

section \<open>Bodies\<close>

record exact_len =
  el_inner :: net
  el_remaining :: nat

text \<open>\<open>ExactLen::read\<close>: the end of the stream before the announced length is an error.\<close>

definition exact_read :: "exact_len read_fn" where
  "exact_read n b =
     (if el_remaining b = 0 \<or> n = 0 then (Ok [], b)
      else case net_read (min (el_remaining b) n) (el_inner b) of
        (Err e, net) \<Rightarrow> (Err e, b\<lparr>el_inner := net\<rparr>)
      | (Ok bs, net) \<Rightarrow>
          if bs = [] then (Err (IoError UnexpectedEof ''request body shorter than content-length''), b\<lparr>el_inner := net\<rparr>)
          else (Ok bs, b\<lparr>el_inner := net, el_remaining := el_remaining b - length bs\<rparr>))"

text \<open>\<open>Read::take\<close> of the standard library.\<close>

definition take_read :: "net \<Rightarrow> nat \<Rightarrow> nat \<Rightarrow> (io_error, byte list) result \<times> net \<times> nat" where
  "take_read net limit n =
     (if limit = 0 then (Ok [], net, limit)
      else case net_read (min limit n) net of
        (Err e, net') \<Rightarrow> (Err e, net', limit)
      | (Ok bs, net') \<Rightarrow> (Ok bs, net', limit - length bs))"

datatype body = BChunked chunked_reader | BExact exact_len | BTake net nat | BSocket net | BEmpty

fun body_read :: "body read_fn" where
  "body_read n (BChunked cr) = (case chunked_read n cr of (r, cr') \<Rightarrow> (r, BChunked cr'))"
| "body_read n (BExact b) = (case exact_read n b of (r, b') \<Rightarrow> (r, BExact b'))"
| "body_read n (BTake net limit) = (case take_read net limit n of (r, net', limit') \<Rightarrow> (r, BTake net' limit'))"
| "body_read n (BSocket net) = (case net_read n net of (r, net') \<Rightarrow> (r, BSocket net'))"
| "body_read n BEmpty = (Ok [], BEmpty)"

fun body_net :: "body \<Rightarrow> net" where
  "body_net (BChunked cr) = cr_inner cr"
| "body_net (BExact b) = el_inner b"
| "body_net (BTake net _) = net"
| "body_net (BSocket net) = net"
| "body_net BEmpty = []"

lemma chunked_read_size:
  "chunked_read n cr = (Ok (b # bs), cr') \<Longrightarrow> net_size (cr_inner cr') < net_size (cr_inner cr)"
proof (induction "net_size (cr_inner cr)" arbitrary: cr rule: less_induct)
  case less
  show ?case
  proof (cases "framing (cr_state cr)")
    case True
    obtain eof err where rd: "chunked_read n cr = (case frame_line eof cr of (Err e, cr') \<Rightarrow> (Err e, cr')
        | (Ok l, cr') \<Rightarrow> (case next_state (cr_state cr) l of None \<Rightarrow> (Err err, cr') | Some st \<Rightarrow> chunked_read n (cr'\<lparr>cr_state := st\<rparr>)))"
      using chunked_read_framing [OF True, of n] by (elim exE) (rule that)
    then obtain l cr1 st where l: "frame_line eof cr = (Ok l, cr1)" "chunked_read n (cr1\<lparr>cr_state := st\<rparr>) = (Ok (b # bs), cr')"
      using less.prems by (auto split: prod.splits result.splits option.splits)
    then show ?thesis using less.hyps [of "cr1\<lparr>cr_state := st\<rparr>"] frame_line_size(1) [OF l(1)] by simp
  next
    case False
    then show ?thesis using less.prems
      by (cases "cr_state cr") (auto simp: chunked_read.simps framing_def split: if_splits prod.splits result.splits dest: net_read_consumes)
  qed
qed

lemma body_read_size: "body_read n b = (Ok (x # xs), b') \<Longrightarrow> net_size (body_net b') < net_size (body_net b)"
  by (cases b) (auto simp: exact_read_def take_read_def split: prod.splits result.splits if_splits
      dest: chunked_read_size net_read_consumes)

section \<open>What a body delivers\<close>

fun body_pends :: "body \<Rightarrow> byte list \<Rightarrow> io_kind option \<Rightarrow> bool" where
  "body_pends (BChunked cr) d fin \<longleftrightarrow> chunked_pends cr d fin"
| "body_pends (BExact b) d fin \<longleftrightarrow> length d = el_remaining b \<and>
     (\<exists>raw f missing rest. net_pends (el_inner b) raw f \<and> raw @ missing = d @ rest \<and>
        (missing = [] \<or> rest = []) \<and> cut_as f missing fin)"
| "body_pends (BTake net k) d fin \<longleftrightarrow>
     (\<exists>raw f. net_pends net raw f \<and> d = take k raw \<and> fin = f \<and> (f = None \<or> length raw < k))"
| "body_pends (BSocket net) d fin \<longleftrightarrow> net_pends net d fin"
| "body_pends BEmpty d fin \<longleftrightarrow> d = [] \<and> fin = None"

definition body_ticks :: "body \<Rightarrow> nat" where
  "body_ticks b = net_ticks (body_net b)"

lemma exact_step:
  assumes pend: "body_pends (BExact b) d fin" and n: "0 < n" and run: "exact_read n b = (res, b')"
  shows "(\<exists>bs. res = Ok bs \<and> length bs \<le> n \<and> net_ticks (el_inner b') \<le> net_ticks (el_inner b) \<and>
        (\<exists>d'. d = bs @ d' \<and> body_pends (BExact b') d' fin) \<and> (bs = [] \<longrightarrow> d = [] \<and> fin = None)) \<or>
    (\<exists>e. res = Err e \<and> (is_timeout e \<and> body_pends (BExact b') d fin \<and> net_ticks (el_inner b') < net_ticks (el_inner b) \<or>
      fin = Some (kind e)))"
proof -
  from pend obtain raw f missing rest where raw: "net_pends (el_inner b) raw f" "raw @ missing = d @ rest"
    and fine: "missing = [] \<or> rest = []" "cut_as f missing fin" and len: "length d = el_remaining b" by auto
  show ?thesis
  proof (cases "el_remaining b = 0")
    case True
    then have "d = []" using len by simp
    moreover have "fin = None" using raw(2) fine calculation by (cases "missing = []") (auto simp: cut_as_def)
    ultimately show ?thesis using run pend True by (auto simp: exact_read_def)
  next
    case False
    obtain x net where x: "net_read (min (el_remaining b) n) (el_inner b) = (x, net)" by fastforce
    have m: "0 < min (el_remaining b) n" using n False by simp
    show ?thesis
    proof (cases x)
      case (Err e)
      then have "res = Err e" "b' = b\<lparr>el_inner := net\<rparr>" using run False n x by (simp_all add: exact_read_def)
      moreover have "fin = Some (kind e)" if "f = Some (kind e)" using that fine(2) by (auto simp: cut_as_def split: if_splits)
      ultimately show ?thesis using net.rd_Err [OF raw(1) m x [unfolded Err]] raw(2) fine len by auto
    next
      case (Ok bs)
      note ok = net.rd_Ok [OF raw(1) m x [unfolded Ok]]
      show ?thesis
      proof (cases "bs = []")
        case True
        then have "raw = []" "f = None" using ok by auto
        then have "missing \<noteq> []" using raw(2) len False by auto
        then have "fin = Some UnexpectedEof" using fine(2) \<open>f = None\<close> by (simp add: cut_as_def)
        then show ?thesis using run False n x Ok True by (auto simp: exact_read_def)
      next
        case False2: False
        then have res: "res = Ok bs" "b' = b\<lparr>el_inner := net, el_remaining := el_remaining b - length bs\<rparr>"
          using run False n x Ok by (simp_all add: exact_read_def)
        obtain raw' where raw': "raw = bs @ raw'" "net_pends net raw' f" using ok by auto
        have "length bs \<le> length d" using ok len by simp
        then obtain d' where d': "d = bs @ d'" "raw' @ missing = d' @ rest"
          using append_split_le [of bs "raw' @ missing" d rest] raw(2) raw'(1) by auto
        then show ?thesis using res ok raw'(2) fine len False2 by auto
      qed
    qed
  qed
qed

lemma take_step:
  assumes pend: "body_pends (BTake net k) d fin" and n: "0 < n" and run: "take_read net k n = (res, net', k')"
  shows "(\<exists>bs. res = Ok bs \<and> length bs \<le> n \<and> net_ticks net' \<le> net_ticks net \<and>
        (\<exists>d'. d = bs @ d' \<and> body_pends (BTake net' k') d' fin) \<and> (bs = [] \<longrightarrow> d = [] \<and> fin = None)) \<or>
    (\<exists>e. res = Err e \<and> (is_timeout e \<and> body_pends (BTake net' k') d fin \<and> net_ticks net' < net_ticks net \<or> fin = Some (kind e)))"
proof -
  from pend obtain raw f where raw: "net_pends net raw f" "d = take k raw" "fin = f" "f = None \<or> length raw < k" by auto
  show ?thesis
  proof (cases "k = 0")
    case True
    then show ?thesis using run raw pend by (auto simp: take_read_def)
  next
    case False
    obtain x net1 where x: "net_read (min k n) net = (x, net1)" by fastforce
    have m: "0 < min k n" using n False by simp
    show ?thesis
    proof (cases x)
      case (Err e)
      then show ?thesis using net.rd_Err [OF raw(1) m x [unfolded Err]] raw run x False by (auto simp: take_read_def)
    next
      case (Ok bs)
      note ok = net.rd_Ok [OF raw(1) m x [unfolded Ok]]
      then obtain raw' where raw': "raw = bs @ raw'" "net_pends net1 raw' f" by auto
      have "length bs \<le> k" using ok by simp
      moreover have res: "res = Ok bs" "net' = net1" "k' = k - length bs" using run x False Ok by (auto simp: take_read_def)
      ultimately have "d = bs @ take k' raw'" using raw(2) raw'(1) by simp
      moreover have "body_pends (BTake net' k') (take k' raw') fin" using raw'(2) raw(3,4) res raw'(1) by auto
      moreover have "d = [] \<and> fin = None" if "bs = []" using ok that raw(2,3) by auto
      ultimately show ?thesis using res ok by auto
    qed
  qed
qed

interpretation body: byte_source body_read body_pends body_ticks
proof
  fix r d fin n bs r'
  assume a: "body_pends r d fin" "0 < n" "body_read n r = (Ok bs, r')"
  show "length bs \<le> n \<and> body_ticks r' \<le> body_ticks r \<and> (\<exists>d'. d = bs @ d' \<and> body_pends r' d' fin) \<and> (bs = [] \<longrightarrow> d = [] \<and> fin = None)"
  proof (cases r)
    case (BChunked cr)
    then show ?thesis using a chunked.rd_Ok [of cr d fin n bs] by (auto simp: body_ticks_def chunked_ticks_def split: prod.splits)
  next
    case (BExact b)
    then obtain b' where b': "exact_read n b = (Ok bs, b')" "r' = BExact b'" using a(3) by (auto split: prod.splits)
    from exact_step [OF a(1) [unfolded BExact] a(2) b'(1)] show ?thesis unfolding BExact b'(2) body_ticks_def body_net.simps by auto
  next
    case (BTake net k)
    then obtain net' k' where b': "take_read net k n = (Ok bs, net', k')" "r' = BTake net' k'" using a(3) by (auto split: prod.splits)
    from take_step [OF a(1) [unfolded BTake] a(2) b'(1)] show ?thesis unfolding BTake b'(2) body_ticks_def body_net.simps by auto
  next
    case (BSocket net)
    then show ?thesis using a net.rd_Ok [of net d fin n bs] by (auto simp: body_ticks_def split: prod.splits)
  qed (use a in auto)
next
  fix r d fin n e r'
  assume a: "body_pends r d fin" "0 < n" "body_read n r = (Err e, r')"
  show "is_timeout e \<and> body_pends r' d fin \<and> body_ticks r' < body_ticks r \<or> fin = Some (kind e)"
  proof (cases r)
    case (BChunked cr)
    then show ?thesis using a chunked.rd_Err [of cr d fin n e] by (auto simp: body_ticks_def chunked_ticks_def split: prod.splits)
  next
    case (BExact b)
    then obtain b' where b': "exact_read n b = (Err e, b')" "r' = BExact b'" using a(3) by (auto split: prod.splits)
    from exact_step [OF a(1) [unfolded BExact] a(2) b'(1)] show ?thesis unfolding BExact b'(2) body_ticks_def body_net.simps by auto
  next
    case (BTake net k)
    then obtain net' k' where b': "take_read net k n = (Err e, net', k')" "r' = BTake net' k'" using a(3) by (auto split: prod.splits)
    from take_step [OF a(1) [unfolded BTake] a(2) b'(1)] show ?thesis unfolding BTake b'(2) body_ticks_def body_net.simps by auto
  next
    case (BSocket net)
    then show ?thesis using a net.rd_Err [of net d fin n e] by (auto simp: body_ticks_def split: prod.splits)
  qed (use a in auto)
qed

section \<open>Spooling a body\<close>

text \<open>\<open>spool_put_body\<close>: the whole body or the error that interrupted it; the spool file is its bytes.\<close>

definition COPY_BUF :: nat where "COPY_BUF = 65536"

function spool_put_body :: "byte list \<Rightarrow> body \<Rightarrow> (io_error, byte list) result \<times> body" where
  "spool_put_body spool b =
     (case body_read COPY_BUF b of
        (Err e, b') \<Rightarrow> (Err e, b')
      | (Ok [], b') \<Rightarrow> (Ok spool, b')
      | (Ok (x # xs), b') \<Rightarrow> spool_put_body (spool @ x # xs) b')"
  by pat_completeness auto
termination by (relation "measure (\<lambda>(_, b). net_size (body_net b))") (auto dest: body_read_size [OF sym])

declare spool_put_body.simps [simp del]

lemma spool_put_body_pends:
  assumes "body_pends b d fin" and "spool_put_body spool b = (res, b')"
  shows "res = Ok (spool @ d) \<and> fin = None \<or> (\<exists>e. res = Err e \<and> (is_timeout e \<and> 0 < body_ticks b \<or> fin = Some (kind e)))"
  using assms
proof (induction spool b arbitrary: d rule: spool_put_body.induct)
  case (1 spool b)
  obtain x b1 where x: "body_read COPY_BUF b = (x, b1)" by fastforce
  have pos: "0 < COPY_BUF" by (simp add: COPY_BUF_def)
  show ?case
  proof (cases x)
    case (Err e)
    then show ?thesis using body.rd_Err [OF "1.prems"(1) pos x [unfolded Err]] "1.prems"(2) x
      by (auto simp: spool_put_body.simps)
  next
    case (Ok bs)
    note ok = body.rd_Ok [OF "1.prems"(1) pos x [unfolded Ok]]
    show ?thesis
    proof (cases bs)
      case Nil
      then show ?thesis using ok "1.prems"(2) x Ok by (auto simp: spool_put_body.simps)
    next
      case (Cons y ys)
      obtain d' where d': "d = bs @ d'" "body_pends b1 d' fin" using ok by auto
      have "spool_put_body (spool @ y # ys) b1 = (res, b')" using "1.prems"(2) x Ok Cons by (subst (asm) spool_put_body.simps) simp
      from "1.IH" [of "Ok bs" b1 bs y ys d'] this d' x Ok Cons ok show ?thesis by auto
    qed
  qed
qed

section \<open>A chunked transfer arrives whole or fails\<close>

text \<open>A producer that writes the pieces of a body through the chunked writer and finishes it.\<close>

fun send_chunks :: "byte list list \<Rightarrow> unit sink_action" where
  "send_chunks [] = chunk_finish"
| "send_chunks (c # cs) = m_then (chunk c) (send_chunks cs)"

lemma write_all_unbroken: "s_room k = None \<Longrightarrow> write_all bs k = (Ok (), k\<lparr>s_out := s_out k @ bs\<rparr>)"
  by (simp add: write_all_def)

lemma chunk_unbroken:
  "s_room k = None \<Longrightarrow> chunk c k = (Ok (), k\<lparr>s_out := s_out k @ (if c = [] then [] else chunk_bytes c)\<rparr>)"
  by (simp add: chunk_def chunk_bytes_def m_bind_def write_all_unbroken)

lemma send_chunks_unbroken:
  "s_room k = None \<Longrightarrow> send_chunks cs k = (Ok (), k\<lparr>s_out := s_out k @ chunked_body (filter (\<lambda>c. c \<noteq> []) cs)\<rparr>)"
proof (induction cs arbitrary: k)
  case Nil
  then show ?case by (simp add: chunk_finish_def chunked_body_def write_all_unbroken)
next
  case (Cons c cs)
  then show ?case by (auto simp: m_bind_def chunk_unbroken chunked_body_def)
qed

lemma concat_filter_not_Nil: "concat (filter (\<lambda>c. c \<noteq> []) cs) = concat cs"
  by (induction cs) auto

lemma chunked_new_pends:
  assumes "good_chunks cs" and "net_pends net raw None" and "raw @ missing = chunked_body cs"
  shows "body_pends (BChunked (chunked_new net)) (concat cs) (if missing = [] then None else Some UnexpectedEof)"
proof -
  have "enc Size [] (chunked_body cs) (concat cs)" using assms(1) by (auto simp: enc_def)
  then have "chunked_pends (chunked_new net) (concat cs) (if missing = [] then None else Some UnexpectedEof)"
    by (intro chunked_pendsI [where raw = raw and f = None and missing = missing and b = "chunked_body cs" and rest = "[]"])
      (use assms in \<open>auto simp: chunked_new_def cut_as_def\<close>)
  then show ?thesis by simp
qed

text \<open>C27: a chunked body is received whole or not at all.  A body is sent in any pieces through the
  chunked writer; the connection delivers a prefix of what was sent, split and buffered in any way, and
  then ends.  Spooling the body through the chunked reader gives exactly the data when everything that was
  sent arrived, and an \<open>UnexpectedEof\<close> error, never a shorter body, when the connection was cut anywhere
  before the end of the terminating chunk.\<close>

theorem chunked_transfer_whole:
  assumes "list_all (\<lambda>c. length c < 2 ^ 64) cs" and "send_chunks cs \<lparr>s_out = [], s_room = None\<rparr> = (Ok (), k)"
    and "prefix raw (s_out k)" and "net_pends net raw None" and "net_ticks net = 0"
  shows "case fst (spool_put_body [] (BChunked (chunked_new net))) of
      Ok d \<Rightarrow> raw = s_out k \<and> d = concat cs
    | Err e \<Rightarrow> raw \<noteq> s_out k \<and> kind e = UnexpectedEof"
proof -
  define cs' where "cs' = filter (\<lambda>c. c \<noteq> []) cs"
  have sent: "s_out k = chunked_body cs'" using assms(2) send_chunks_unbroken [of "\<lparr>s_out = [], s_room = None\<rparr>" cs]
    by (auto simp: cs'_def)
  have good: "good_chunks cs'" using assms(1) by (auto simp: good_chunks_def cs'_def list_all_iff)
  obtain missing where missing: "raw @ missing = chunked_body cs'" using assms(3) sent by (auto simp: prefix_def)
  obtain res b' where run: "spool_put_body [] (BChunked (chunked_new net)) = (res, b')" by fastforce
  have "body_ticks (BChunked (chunked_new net)) = 0" using assms(5) by (simp add: body_ticks_def chunked_new_def)
  moreover have "concat cs' = concat cs" by (simp add: cs'_def concat_filter_not_Nil)
  ultimately show ?thesis using spool_put_body_pends [OF chunked_new_pends [OF good assms(4) missing] run] run missing sent
    by (auto split: if_splits)
qed

theorem chunked_transfer_whole_witness:
  "case fst (spool_put_body [] (BChunked (chunked_new [Arrive (to_bytes ''3''), Arrive (CRLF @ [1, 2, 3] @ CRLF @ to_bytes ''0'' @ CRLF)]))) of
      Ok d \<Rightarrow> False | Err e \<Rightarrow> kind e = UnexpectedEof"
proof -
  let ?raw = "to_bytes ''3'' @ CRLF @ [1, 2, 3] @ CRLF @ to_bytes ''0'' @ CRLF"
  let ?k = "\<lparr>s_out = ?raw @ CRLF, s_room = None\<rparr>"
  have "fmt_hex (Suc (Suc (Suc 0))) = ''3''" by code_simp
  then have "send_chunks [[1, 2, 3]] \<lparr>s_out = [], s_room = None\<rparr> = (Ok (), ?k)"
    by (subst send_chunks_unbroken) (simp_all add: chunked_body_def chunk_bytes_def)
  moreover have "list_all (\<lambda>c. length c < 2 ^ 64) [[1, 2, 3 :: byte]]" "prefix ?raw (s_out ?k)"
    "net_pends [Arrive (to_bytes ''3''), Arrive (CRLF @ [1, 2, 3] @ CRLF @ to_bytes ''0'' @ CRLF)] ?raw None"
    "net_ticks [Arrive (to_bytes ''3''), Arrive (CRLF @ [1, 2, 3] @ CRLF @ to_bytes ''0'' @ CRLF)] = 0" by simp_all
  ultimately have "case fst (spool_put_body [] (BChunked (chunked_new [Arrive (to_bytes ''3''), Arrive (CRLF @ [1, 2, 3] @ CRLF @ to_bytes ''0'' @ CRLF)]))) of
      Ok d \<Rightarrow> ?raw = s_out ?k \<and> d = concat [[1, 2, 3]] | Err e \<Rightarrow> ?raw \<noteq> s_out ?k \<and> kind e = UnexpectedEof"
    by (intro chunked_transfer_whole)
  moreover have "?raw \<noteq> s_out ?k" by (simp add: CRLF_def)
  ultimately show ?thesis by (auto split: result.splits)
qed

end
