(* ===== verification/Mount.thy ===== *)
theory Mount
  imports HttpBody Storage
begin

text \<open>
  Model of \<open>crates/liters-storage/src/http/mount.rs\<close>: one database's bucket behind the HTTP protocol.  The
  mount's state is the backing client's store, the notification counter, the writer lease and the readings
  of the monotonic clock; \<open>handle\<close> answers one request.  A \<open>PUT\<close> has two parts, because its body is received
  before the write gate is taken and other requests run in between: \<open>put_begin\<close> (checks, advisory fence,
  spooling) and \<open>put_commit\<close> (everything under the gate).  The step relation \<open>mount_step\<close> interleaves them.
  Failures of the local spool file are not represented.
\<close>

section \<open>Options, requests, responses\<close>

record mount_options =
  mo_writable :: bool
  mo_auth_token :: "string option"
  mo_lease_ttl :: nat
  mo_poll_interval :: nat
  mo_ping_interval :: nat

definition mount_options_default :: mount_options where
  "mount_options_default = \<lparr>mo_writable = False, mo_auth_token = None, mo_lease_ttl = 24 * 60 * 60 * 1000000000,
     mo_poll_interval = 1000000000, mo_ping_interval = 15 * 1000000000\<rparr>"

record request =
  rq_method :: string
  rq_path :: string
  rq_query :: string
  rq_headers :: headers
  rq_body :: body
  rq_cancel :: cancel_token

record stream_body =
  sb_cursor :: txid
  sb_poll_interval :: nat
  sb_ping_interval :: nat
  sb_cancel :: cancel_token

text \<open>A file that was opened is its bytes.\<close>

datatype resp_body = BodyBytes "byte list" | BodyReader "byte list" | BodyStream stream_body

record response =
  rs_status :: nat
  rs_headers :: headers
  rs_body :: resp_body

definition NL :: string where "NL = [CHR 0x0A]"

definition response_text :: "nat \<Rightarrow> string \<Rightarrow> response" where
  "response_text status body =
     \<lparr>rs_status = status, rs_headers = [(''content-type'', ''text/plain; charset=utf-8'')], rs_body = BodyBytes (to_bytes body)\<rparr>"

definition response_error :: "nat \<Rightarrow> string \<Rightarrow> response" where
  "response_error status msg = response_text status (msg @ NL)"

definition version_line :: string where
  "version_line = ''liters 0.1.0'' @ NL"

fun storage_error_display :: "storage_error \<Rightarrow> string" where
  "storage_error_display (NotFound level a b) =
     ''ltx file not found: L'' @ fmt_dec (unat level) @ '' '' @ txid_display a @ ''-'' @ txid_display b"
| "storage_error_display (StLtx e) = ''ltx: '' @ ltx_error_display e"
| "storage_error_display (StIo e) = message e"
| "storage_error_display (Unavailable m) = ''storage unavailable: '' @ m"
| "storage_error_display (Unauthorized m) = ''unauthorized: '' @ m"
| "storage_error_display (Conflict m) = ''conflict: '' @ m"
| "storage_error_display (ReadOnly m) = ''read-only: '' @ m"
| "storage_error_display StCancelled = ''operation cancelled''"
| "storage_error_display (StOther m) = m"

section \<open>The mount\<close>

record writer_lease =
  wl_id :: string
  wl_last_seen :: nat

record 's mount =
  mt_store :: 's
  mt_generation :: u64
  mt_lease :: "writer_lease option"
  mt_clock :: "nat \<Rightarrow> nat"

definition mount_new :: "'s \<Rightarrow> (nat \<Rightarrow> nat) \<Rightarrow> 's mount" where
  "mount_new s clock = \<lparr>mt_store = s, mt_generation = 0, mt_lease = None, mt_clock = clock\<rparr>"

definition now :: "'s mount \<Rightarrow> nat \<times> 's mount" where
  "now m = (mt_clock m 0, m\<lparr>mt_clock := (\<lambda>i. mt_clock m (Suc i))\<rparr>)"

definition notify :: "'s mount \<Rightarrow> 's mount" where
  "notify m = m\<lparr>mt_generation := mt_generation m + 1\<rparr>"

section \<open>Parsing and formatting\<close>

definition created_ms :: "sys_time option \<Rightarrow> string option" where
  "created_ms t =
     (case t of None \<Rightarrow> None
      | Some t \<Rightarrow> if t < 0 then None else Some (fmt_dec (min (nat (t div 1000000)) (2 ^ 64 - 1))))"

definition listing_line :: "file_info \<Rightarrow> string" where
  "listing_line info =
     file_info_filename info @ '' '' @ fmt_dec (unat (fi_size info)) @ '' '' @
     (case created_ms (fi_created_at info) of None \<Rightarrow> ''-'' | Some s \<Rightarrow> s) @ NL"

definition parse_level :: "string \<Rightarrow> u8 option" where
  "parse_level s =
     (if length s \<noteq> 1 then None
      else case parse_dec 8 s of None \<Rightarrow> None
      | Some n \<Rightarrow> if of_nat n \<le> SNAPSHOT_LEVEL then Some (of_nat n) else None)"

definition authorized :: "headers \<Rightarrow> string \<Rightarrow> bool" where
  "authorized hs expected =
     (case get_header hs ''authorization'' of None \<Rightarrow> False
      | Some value \<Rightarrow> (case split_once_ws value of None \<Rightarrow> False
          | Some (scheme, token) \<Rightarrow> eq_ignore_ascii_case scheme ''bearer'' \<and> trim token = expected))"

text \<open>\<open>stored_matches_spool\<close> compares block by block; the sizes were compared before.\<close>

function stored_matches_spool :: "byte list \<Rightarrow> byte list \<Rightarrow> bool" where
  "stored_matches_spool stored spool =
     (if stored = [] then True
      else let n = min COPY_BUF (length stored) in
        if length spool < n then False
        else if take n stored \<noteq> take n spool then False
        else stored_matches_spool (drop n stored) (drop n spool))"
  by auto
termination by (relation "measure (\<lambda>(stored, _). length stored)") (auto simp: COPY_BUF_def)

declare stored_matches_spool.simps [simp del]

section \<open>Reading requests\<close>

definition serve_listing :: "'s client \<Rightarrow> 's \<Rightarrow> string \<Rightarrow> string \<Rightarrow> response" where
  "serve_listing c s lev query =
     (case parse_level lev of None \<Rightarrow> response_error 404 ''no such level''
      | Some level \<Rightarrow>
          (case (case query_param query ''seek'' of None \<Rightarrow> Some 0 | Some t \<Rightarrow> txid_parse t) of
             None \<Rightarrow> response_error 400 ''bad seek''
           | Some seek \<Rightarrow>
               (case ltx_files c s level seek (query_param query ''meta'' = Some ''1'') of
                  Err e \<Rightarrow> response_error 500 (''list: '' @ storage_error_display e)
                | Ok infos \<Rightarrow> response_text 200 (concat (map listing_line infos)))))"

definition parse_u64 :: "string \<Rightarrow> string \<Rightarrow> nat option" where
  "parse_u64 query name = (case query_param query name of None \<Rightarrow> Some 0 | Some v \<Rightarrow> parse_dec 64 v)"

definition serve_file :: "'s client \<Rightarrow> 's \<Rightarrow> string \<Rightarrow> string \<Rightarrow> string \<Rightarrow> response" where
  "serve_file c s lev name query =
     (case parse_level lev of None \<Rightarrow> response_error 404 ''no such level''
      | Some level \<Rightarrow>
          (case parse_filename name of None \<Rightarrow> response_error 404 ''no such file''
           | Some (min_txid, max_txid) \<Rightarrow>
               (case (parse_u64 query ''offset'', parse_u64 query ''size'') of
                  (Some offset, Some sz) \<Rightarrow>
                    (case open_ltx_file c s level min_txid max_txid (of_nat offset) (of_nat sz) of
                       Ok rd \<Rightarrow> \<lparr>rs_status = 200, rs_headers = [(''content-type'', ''application/octet-stream'')], rs_body = BodyReader rd\<rparr>
                     | Err (NotFound _ _ _) \<Rightarrow> response_error 404 ''no such file''
                     | Err e \<Rightarrow> response_error 500 (''open: '' @ storage_error_display e))
                | _ \<Rightarrow> response_error 400 ''bad offset/size'')))"

definition serve_stream :: "mount_options \<Rightarrow> string \<Rightarrow> cancel_token \<Rightarrow> response" where
  "serve_stream opts query cancel =
     (case (case query_param query ''seek'' of None \<Rightarrow> None | Some t \<Rightarrow> txid_parse t) of
        Some t \<Rightarrow>
          if \<not> txid_is_zero t then
            \<lparr>rs_status = 200,
             rs_headers = [(''content-type'', ''application/x-liters-ltx-stream''),
               (''cache-control'', ''no-cache, no-transform''), (''x-accel-buffering'', ''no'')],
             rs_body = BodyStream \<lparr>sb_cursor = t, sb_poll_interval = mo_poll_interval opts,
               sb_ping_interval = mo_ping_interval opts, sb_cancel = cancel\<rparr>\<rparr>
          else response_error 400 ''stream requires seek >= 1''
      | None \<Rightarrow> response_error 400 ''stream requires seek >= 1'')"

section \<open>Fencing\<close>

datatype fence_reject = FenceConflict string | FenceBackend storage_error

record fence_pass =
  fp_claim :: "string option"
  fp_existing_l0 :: "file_info option"

definition max_txid_of :: "file_info list \<Rightarrow> txid" where
  "max_txid_of fs = foldl max 0 (map fi_max_txid fs)"

fun bucket_max_levels :: "'s client \<Rightarrow> 's \<Rightarrow> txid \<Rightarrow> u8 list \<Rightarrow> txid st_result" where
  "bucket_max_levels c s m [] = Ok m"
| "bucket_max_levels c s m (level # levels) =
     and_then (ltx_files c s level 0 False) (\<lambda>fs.
       bucket_max_levels c s (foldl (\<lambda>m info. if m < fi_max_txid info then fi_max_txid info else m) m fs) levels)"

definition bucket_max :: "'s client \<Rightarrow> 's \<Rightarrow> txid st_result" where
  "bucket_max c s = bucket_max_levels c s 0 (map of_nat [0..<Suc (unat SNAPSHOT_LEVEL)])"

definition fence_reject_response :: "fence_reject \<Rightarrow> response" where
  "fence_reject_response rej =
     (case rej of FenceConflict msg \<Rightarrow> response_error 409 msg
      | FenceBackend e \<Rightarrow> response_error 500 (''fence: '' @ storage_error_display e))"

text \<open>The lease part; \<open>elapsed\<close> reads the clock only when another writer holds the lease.\<close>

definition check_lease :: "mount_options \<Rightarrow> 's mount \<Rightarrow> headers \<Rightarrow> (fence_reject, string option) result \<times> 's mount" where
  "check_lease opts m hs =
     (case get_header hs ''x-liters-writer-id'' of
        None \<Rightarrow> (Ok None, m)
      | Some wid \<Rightarrow>
          let takeover = (get_header hs ''x-liters-writer-takeover'' = Some ''1'') in
          (case mt_lease m of
             None \<Rightarrow> (Ok (Some wid), m)
           | Some l \<Rightarrow>
               if wl_id l = wid then (Ok (Some wid), m)
               else case now m of (t, m') \<Rightarrow>
                 if t - wl_last_seen l < mo_lease_ttl opts \<and> \<not> takeover
                 then (Err (FenceConflict (''bucket is owned by writer '' @ wl_id l)), m')
                 else (Ok (Some wid), m')))"

text \<open>The position part of a \<open>PUT\<close>: the matching L0 file, if it exists already.\<close>

definition check_position :: "'s client \<Rightarrow> 's \<Rightarrow> u8 \<Rightarrow> txid \<Rightarrow> txid \<Rightarrow> (fence_reject, file_info option) result" where
  "check_position c s level min_txid max_txid =
     (if level = 0 then
        and_then (map_err FenceBackend (ltx_files c s 0 0 False)) (\<lambda>files.
          let cur = max_txid_of files in
          case find (\<lambda>f. fi_min_txid f = min_txid \<and> fi_max_txid f = max_txid) files of
            Some existing \<Rightarrow> Ok (Some existing)
          | None \<Rightarrow>
              if \<not> (files = [] \<or> min_txid = cur + 1)
              then Err (FenceConflict (''non-monotonic L0 push: '' @ txid_display min_txid @ ''-'' @ txid_display max_txid @
                     '' offered, bucket at '' @ txid_display cur))
              else Ok None)
      else
        and_then (map_err FenceBackend (bucket_max c s)) (\<lambda>bmax.
          if bmax < max_txid
          then Err (FenceConflict (''L'' @ fmt_dec (unat level) @ '' push beyond bucket max: '' @ txid_display min_txid @ ''-'' @
                 txid_display max_txid @ '' offered, bucket max is '' @ txid_display bmax @
                 ''; upload the L0 backlog before pushing compactions or snapshots''))
          else Ok None))"

definition check_fence ::
  "'s client \<Rightarrow> mount_options \<Rightarrow> 's mount \<Rightarrow> headers \<Rightarrow> (u8 \<times> txid \<times> txid) option \<Rightarrow> (fence_reject, fence_pass) result \<times> 's mount" where
  "check_fence c opts m hs put =
     (case check_lease opts m hs of
        (Err rej, m') \<Rightarrow> (Err rej, m')
      | (Ok claim, m') \<Rightarrow>
          ((case put of
              None \<Rightarrow> Ok \<lparr>fp_claim = claim, fp_existing_l0 = None\<rparr>
            | Some (level, min_txid, max_txid) \<Rightarrow>
                and_then (check_position c (mt_store m') level min_txid max_txid) (\<lambda>existing.
                  Ok \<lparr>fp_claim = claim, fp_existing_l0 = existing\<rparr>)),
           m'))"

definition commit_lease :: "fence_pass \<Rightarrow> 's mount \<Rightarrow> 's mount" where
  "commit_lease pass m =
     (case fp_claim pass of None \<Rightarrow> m
      | Some wid \<Rightarrow> (case now m of (t, m') \<Rightarrow> m'\<lparr>mt_lease := Some \<lparr>wl_id = wid, wl_last_seen = t\<rparr>\<rparr>))"

section \<open>Writing requests\<close>

definition read_only_response :: response where
  "read_only_response = response_error 403 ''server is read-only (writable: false)''"

text \<open>The first part of a \<open>PUT\<close>: its answer, or the target and the spooled body.\<close>

record pending_put =
  pp_level :: u8
  pp_min_txid :: txid
  pp_max_txid :: txid
  pp_headers :: headers
  pp_spool :: "byte list"

definition put_begin ::
  "'s client \<Rightarrow> mount_options \<Rightarrow> 's mount \<Rightarrow> string \<Rightarrow> string \<Rightarrow> headers \<Rightarrow> body \<Rightarrow> (response, pending_put) result \<times> 's mount" where
  "put_begin c opts m lev name hs body =
     (if \<not> mo_writable opts then (Err read_only_response, m)
      else case parse_level lev of None \<Rightarrow> (Err (response_error 404 ''no such level''), m)
      | Some level \<Rightarrow>
          (case parse_filename name of None \<Rightarrow> (Err (response_error 404 ''bad ltx filename''), m)
           | Some (min_txid, max_txid) \<Rightarrow>
               (case check_fence c opts m hs (Some (level, min_txid, max_txid)) of
                  (Err rej, m') \<Rightarrow> (Err (fence_reject_response rej), m')
                | (Ok _, m') \<Rightarrow>
                    ((case fst (spool_put_body [] body) of
                        Ok spool \<Rightarrow> Ok \<lparr>pp_level = level, pp_min_txid = min_txid, pp_max_txid = max_txid,
                                        pp_headers = hs, pp_spool = spool\<rparr>
                      | Err e \<Rightarrow>
                          if kind e = UnexpectedEof
                          then Err (response_error 400 (''short or truncated ltx body: '' @ message e))
                          else Err (response_error 500 (''read body: '' @ message e))),
                     m'))))"

text \<open>Whether a re-push is byte-identical; an open error is the fence's answer.\<close>

definition same_as_stored :: "'s client \<Rightarrow> 's \<Rightarrow> file_info \<Rightarrow> byte list \<Rightarrow> bool st_result" where
  "same_as_stored c s existing spool =
     (if unat (fi_size existing) \<noteq> length spool then Ok False
      else and_then (open_ltx_file c s (fi_level existing) (fi_min_txid existing) (fi_max_txid existing) 0 0) (\<lambda>stored.
        Ok (stored_matches_spool stored spool)))"

definition put_write :: "'s client \<Rightarrow> 's mount \<Rightarrow> fence_pass \<Rightarrow> pending_put \<Rightarrow> response \<times> 's mount" where
  "put_write c m pass p =
     (case write_ltx_file c (mt_store m) (pp_level p) (pp_min_txid p) (pp_max_txid p) (pp_spool p) of
        Ok (info, s') \<Rightarrow> (response_text 200 (listing_line info), notify (commit_lease pass (m\<lparr>mt_store := s'\<rparr>)))
      | Err (StLtx e) \<Rightarrow> (response_error 400 (''bad ltx file: '' @ ltx_error_display e), m)
      | Err (StIo e) \<Rightarrow>
          if kind e = UnexpectedEof then (response_error 400 (''short or truncated ltx body: '' @ message e), m)
          else (response_error 500 (''write: '' @ message e), m)
      | Err e \<Rightarrow> (response_error 500 (''write: '' @ storage_error_display e), m))"

definition put_commit :: "'s client \<Rightarrow> mount_options \<Rightarrow> 's mount \<Rightarrow> pending_put \<Rightarrow> response \<times> 's mount" where
  "put_commit c opts m p =
     (case check_fence c opts m (pp_headers p) (Some (pp_level p, pp_min_txid p, pp_max_txid p)) of
        (Err rej, m') \<Rightarrow> (fence_reject_response rej, m')
      | (Ok pass, m') \<Rightarrow>
          (case fp_existing_l0 pass of
             None \<Rightarrow> put_write c m' pass p
           | Some existing \<Rightarrow>
               (case same_as_stored c (mt_store m') existing (pp_spool p) of
                  Err e \<Rightarrow> (response_error 500 (''fence: '' @ storage_error_display e), m')
                | Ok same \<Rightarrow>
                    if \<not> same
                    then (response_error 409 (''L0 re-push of '' @ txid_display (pp_min_txid p) @ ''-'' @ txid_display (pp_max_txid p) @
                            '' does not match the stored file (divergent writer?)''), m')
                    else put_write c m' pass p)))"

definition accept_file :: "'s client \<Rightarrow> mount_options \<Rightarrow> 's mount \<Rightarrow> string \<Rightarrow> string \<Rightarrow> headers \<Rightarrow> body \<Rightarrow> response \<times> 's mount" where
  "accept_file c opts m lev name hs body =
     (case put_begin c opts m lev name hs body of (Err resp, m') \<Rightarrow> (resp, m') | (Ok p, m') \<Rightarrow> put_commit c opts m' p)"

text \<open>The shared tail of the two deletions.\<close>

definition deleted :: "string \<Rightarrow> fence_pass \<Rightarrow> 's st_result \<Rightarrow> 's mount \<Rightarrow> response \<times> 's mount" where
  "deleted what pass r m =
     (case r of
        Ok s' \<Rightarrow> (response_text 200 (''deleted'' @ NL), notify (commit_lease pass (m\<lparr>mt_store := s'\<rparr>)))
      | Err e \<Rightarrow> (response_error 500 (what @ storage_error_display e), m))"

definition delete_file :: "'s client \<Rightarrow> mount_options \<Rightarrow> 's mount \<Rightarrow> string \<Rightarrow> string \<Rightarrow> headers \<Rightarrow> response \<times> 's mount" where
  "delete_file c opts m lev name hs =
     (if \<not> mo_writable opts then (read_only_response, m)
      else case parse_level lev of None \<Rightarrow> (response_error 404 ''no such level'', m)
      | Some level \<Rightarrow>
          (case parse_filename name of None \<Rightarrow> (response_error 404 ''bad ltx filename'', m)
           | Some (min_txid, max_txid) \<Rightarrow>
               (case check_fence c opts m hs None of
                  (Err rej, m') \<Rightarrow> (fence_reject_response rej, m')
                | (Ok pass, m') \<Rightarrow>
                    deleted ''delete: '' pass
                      (delete_ltx_files c (mt_store m') [mk_info level min_txid max_txid 0 None]) m')))"

definition mount_delete_all :: "'s client \<Rightarrow> mount_options \<Rightarrow> 's mount \<Rightarrow> headers \<Rightarrow> response \<times> 's mount" where
  "mount_delete_all c opts m hs =
     (if \<not> mo_writable opts then (read_only_response, m)
      else case check_fence c opts m hs None of
        (Err rej, m') \<Rightarrow> (fence_reject_response rej, m')
      | (Ok pass, m') \<Rightarrow> deleted ''delete all: '' pass (delete_all c (mt_store m')) m')"

section \<open>Routing\<close>

text \<open>What a request asks for, after authorization.\<close>

datatype route =
    RVersion | RListing string | RFile string string | RStream
  | RPut string string | RDelete string string | RDeleteAll | RNotFound | RNotAllowed

definition route_of :: "string \<Rightarrow> string \<Rightarrow> route" where
  "route_of meth path =
     (let segments = split_on (CHR ''/'') (trim_matches (CHR ''/'') path) in
      if meth = ''GET'' then
        (case segments of
           [] \<Rightarrow> RVersion
         | [a] \<Rightarrow> if a = [] then RVersion else if a = ''stream'' then RStream else RNotFound
         | [a, lev] \<Rightarrow> if a = ''ltx'' then RListing lev else RNotFound
         | [a, lev, name] \<Rightarrow> if a = ''ltx'' then RFile lev name else RNotFound
         | _ \<Rightarrow> RNotFound)
      else if meth = ''PUT'' then
        (case segments of [a, lev, name] \<Rightarrow> if a = ''ltx'' then RPut lev name else RNotFound | _ \<Rightarrow> RNotFound)
      else if meth = ''DELETE'' then
        (case segments of
           [a] \<Rightarrow> if a = ''all'' then RDeleteAll else RNotFound
         | [a, lev, name] \<Rightarrow> if a = ''ltx'' then RDelete lev name else RNotFound
         | _ \<Rightarrow> RNotFound)
      else RNotAllowed)"

definition unauthorized :: "mount_options \<Rightarrow> headers \<Rightarrow> bool" where
  "unauthorized opts hs = (case mo_auth_token opts of None \<Rightarrow> False | Some expected \<Rightarrow> \<not> authorized hs expected)"

definition handle :: "'s client \<Rightarrow> mount_options \<Rightarrow> 's mount \<Rightarrow> request \<Rightarrow> response \<times> 's mount" where
  "handle c opts m req =
     (if unauthorized opts (rq_headers req) then (response_error 401 ''authorization required'', m)
      else case route_of (rq_method req) (rq_path req) of
        RVersion \<Rightarrow> (response_text 200 version_line, m)
      | RListing lev \<Rightarrow> (serve_listing c (mt_store m) lev (rq_query req), m)
      | RFile lev name \<Rightarrow> (serve_file c (mt_store m) lev name (rq_query req), m)
      | RStream \<Rightarrow> (serve_stream opts (rq_query req) (rq_cancel req), m)
      | RPut lev name \<Rightarrow> accept_file c opts m lev name (rq_headers req) (rq_body req)
      | RDelete lev name \<Rightarrow> delete_file c opts m lev name (rq_headers req)
      | RDeleteAll \<Rightarrow> mount_delete_all c opts m (rq_headers req)
      | RNotFound \<Rightarrow> (response_error 404 ''not found'', m)
      | RNotAllowed \<Rightarrow> (response_error 405 ''method not allowed'', m))"

section \<open>Interleaved requests\<close>

text \<open>
  Connections run in threads of their own.  A step is a whole request, or one of the two parts of a \<open>PUT\<close>;
  between them the spooled body waits for the write gate.  \<open>ok\<close> says which requests the peers send.
\<close>

inductive mount_step ::
  "'s client \<Rightarrow> mount_options \<Rightarrow> (request \<Rightarrow> bool) \<Rightarrow> 's mount \<times> pending_put list \<Rightarrow> 's mount \<times> pending_put list \<Rightarrow> bool"
  for c opts ok where
  request: "ok req \<Longrightarrow> handle c opts m req = (resp, m') \<Longrightarrow> mount_step c opts ok (m, ps) (m', ps)"
| received: "ok req \<Longrightarrow> \<not> unauthorized opts (rq_headers req) \<Longrightarrow> route_of (rq_method req) (rq_path req) = RPut lev name \<Longrightarrow>
    put_begin c opts m lev name (rq_headers req) (rq_body req) = (Ok p, m') \<Longrightarrow> mount_step c opts ok (m, ps) (m', p # ps)"
| commit: "p \<in> set ps \<Longrightarrow> put_commit c opts m p = (resp, m') \<Longrightarrow> mount_step c opts ok (m, ps) (m', remove1 p ps)"

end
