(* ===== verification/MountProps.thy ===== *)
theory MountProps
  imports Mount DirClient
begin

text \<open>
  Properties of the mount: which requests may change the bucket, how a \<open>PUT\<close> is decided, and the
  fencing of level 0 under every interleaving of requests.  The locale \<open>wipable_client\<close> adds \<open>delete_all\<close>
  to the contract of a backend; the directory backend interprets it.
\<close>

section \<open>Backends that can be wiped\<close>

locale wipable_client = bucket_client c inv contents for c :: "'s client" and inv contents +
  assumes delete_all_Ok: "inv s \<Longrightarrow> delete_all c s = Ok s' \<Longrightarrow> inv s' \<and> contents s' = Map.empty"

lemma dir_delete_all_contents: "dir_contents root (filter (\<lambda>(q, _). take (length root) q \<noteq> root) fs) = Map.empty"
proof
  fix k :: file_key
  obtain l a b where k: "k = (l, a, b)" by (metis prod_cases3)
  have "take (length root) (ltx_path root l a b) = root" by (simp add: ltx_path_def level_dir_def)
  then have "\<not> (\<exists>v. (ltx_path root l a b, v) \<in> set (filter (\<lambda>(q, _). take (length root) q \<noteq> root) fs))" by auto
  then show "dir_contents root (filter (\<lambda>(q, _). take (length root) q \<noteq> root) fs) k = Map.empty k"
    unfolding k dir_contents.simps by (metis map_of_SomeD not_None_eq)
qed

interpretation dirw: wipable_client "dir_client root" dir_inv "dir_contents root" for root
proof
  fix s s' assume "dir_inv s" "delete_all (dir_client root) s = Ok s'"
  then have "s' = filter (\<lambda>(q, _). take (length root) q \<noteq> root) s" by (simp add: dir_client_def dir_delete_all_def)
  with \<open>dir_inv s\<close> show "dir_inv s' \<and> dir_contents root s' = Map.empty"
    by (simp only: dir_inv_filter dir_delete_all_contents)
qed

section \<open>What each part leaves alone\<close>

text \<open>The fence reads the store and at most ticks the clock.\<close>

definition same_but_clock :: "'s mount \<Rightarrow> 's mount \<Rightarrow> bool" where
  "same_but_clock m m' \<longleftrightarrow> (\<exists>cl. m' = m\<lparr>mt_clock := cl\<rparr>)"

lemma same_but_clock_refl [simp]: "same_but_clock m m"
  unfolding same_but_clock_def by (rule exI [of _ "mt_clock m"]) simp

lemma same_but_clock_sel:
  "same_but_clock m m' \<Longrightarrow> mt_store m' = mt_store m \<and> mt_generation m' = mt_generation m \<and> mt_lease m' = mt_lease m"
  by (auto simp: same_but_clock_def)

lemma same_but_clock_trans: "same_but_clock m m' \<Longrightarrow> same_but_clock m' m'' \<Longrightarrow> same_but_clock m m''"
  by (auto simp: same_but_clock_def)

lemma check_lease_clock: "check_lease opts m hs = (r, m') \<Longrightarrow> same_but_clock m m'"
  by (auto simp: check_lease_def now_def Let_def same_but_clock_def split: option.splits if_splits) (metis mount.surjective mount.update_convs(4))+

lemma check_fence_clock: "check_fence c opts m hs put = (r, m') \<Longrightarrow> same_but_clock m m'"
  by (auto simp: check_fence_def split: prod.splits result.splits dest: check_lease_clock)

lemma check_fence_Ok:
  assumes "check_fence c opts m hs put = (Ok pass, m')"
  shows "check_lease opts m hs = (Ok (fp_claim pass), m')"
    and "put = Some (level, a, b) \<Longrightarrow> check_position c (mt_store m) level a b = Ok (fp_existing_l0 pass)"
  using assms same_but_clock_sel [OF check_fence_clock [OF assms]]
  by (auto simp: check_fence_def and_then_eq_Ok split: prod.splits result.splits option.splits)

lemma put_begin_clock: "put_begin c opts m lev name hs body = (r, m') \<Longrightarrow> same_but_clock m m'"
  by (auto simp: put_begin_def split: if_splits option.splits prod.splits result.splits dest: check_fence_clock)

text \<open>The effect of an accepted write: the new store, one notification, the lease of the writer that identified itself.\<close>

definition accepted :: "string option \<Rightarrow> 's \<Rightarrow> 's mount \<Rightarrow> 's mount \<Rightarrow> bool" where
  "accepted claim s' m m' \<longleftrightarrow>
     mt_store m' = s' \<and> mt_generation m' = mt_generation m + 1 \<and>
     (case claim of None \<Rightarrow> mt_lease m' = mt_lease m
      | Some wid \<Rightarrow> \<exists>l. mt_lease m' = Some l \<and> wl_id l = wid)"

lemma accepted_commit: "same_but_clock m m1 \<Longrightarrow> accepted (fp_claim pass) s' m (notify (commit_lease pass (m1\<lparr>mt_store := s'\<rparr>)))"
  by (auto simp: accepted_def notify_def commit_lease_def now_def dest: same_but_clock_sel split: option.splits)

section \<open>The outcomes of a request\<close>

text \<open>When the lease lets a writer through: it does not identify itself, no other writer holds the lease, the
  lease has run out at a reading of the clock, or the writer takes over.\<close>

definition lease_allows :: "mount_options \<Rightarrow> 's mount \<Rightarrow> headers \<Rightarrow> bool" where
  "lease_allows opts m hs \<longleftrightarrow>
     (\<forall>wid l. get_header hs ''x-liters-writer-id'' = Some wid \<longrightarrow> mt_lease m = Some l \<longrightarrow>
        wl_id l = wid \<or> get_header hs ''x-liters-writer-takeover'' = Some ''1'' \<or>
        (\<exists>i. mo_lease_ttl opts \<le> mt_clock m i - wl_last_seen l))"

lemma check_lease_Ok:
  "check_lease opts m hs = (Ok claim, m') \<Longrightarrow> claim = get_header hs ''x-liters-writer-id'' \<and> lease_allows opts m hs"
  by (auto simp: check_lease_def lease_allows_def now_def Let_def not_less split: option.splits if_splits)

lemma response_status [simp]: "rs_status (response_text n b) = n" "rs_status (response_error n b) = n"
  by (simp_all add: response_text_def response_error_def)

lemma fence_status: "rs_status (fence_reject_response rej) \<in> {409, 500}"
  by (simp add: fence_reject_response_def split: fence_reject.splits)

lemma put_write_cases:
  assumes "put_write c m pass p = (resp, m')"
  obtains "m' = m" "rs_status resp \<in> {400, 500}"
  | info s' where "write_ltx_file c (mt_store m) (pp_level p) (pp_min_txid p) (pp_max_txid p) (pp_spool p) = Ok (info, s')"
      "resp = response_text 200 (listing_line info)" "m' = notify (commit_lease pass (m\<lparr>mt_store := s'\<rparr>))"
  using assms by (auto simp: put_write_def split: result.splits storage_error.splits if_splits)

text \<open>A commit under the gate: refused with the mount as it was, or one write that the fence admits.\<close>

definition fence_admits :: "'s client \<Rightarrow> 's \<Rightarrow> pending_put \<Rightarrow> bool" where
  "fence_admits c s p \<longleftrightarrow>
     (\<exists>existing. check_position c s (pp_level p) (pp_min_txid p) (pp_max_txid p) = Ok existing \<and>
        (\<forall>f. existing = Some f \<longrightarrow> same_as_stored c s f (pp_spool p) = Ok True))"

lemma put_commit_cases:
  assumes "put_commit c opts m p = (resp, m')"
  obtains "same_but_clock m m'" "rs_status resp \<in> {400, 409, 500}"
  | info s' where "write_ltx_file c (mt_store m) (pp_level p) (pp_min_txid p) (pp_max_txid p) (pp_spool p) = Ok (info, s')"
      "resp = response_text 200 (listing_line info)" "accepted (get_header (pp_headers p) ''x-liters-writer-id'') s' m m'"
      "lease_allows opts m (pp_headers p)" "fence_admits c (mt_store m) p"
proof -
  note refused = that(1) and written = that(2)
  obtain r m1 where r: "check_fence c opts m (pp_headers p) (Some (pp_level p, pp_min_txid p, pp_max_txid p)) = (r, m1)"
    by fastforce
  note clock = check_fence_clock [OF r]
  show thesis
  proof (cases r)
    case (Err rej)
    then have "resp = fence_reject_response rej" "m' = m1" using assms r by (simp_all add: put_commit_def)
    then show ?thesis using refused clock fence_status [of rej] by auto
  next
    case (Ok pass)
    note pass = check_fence_Ok [OF r [unfolded Ok]]
    have store: "mt_store m1 = mt_store m" using same_but_clock_sel [OF clock] by simp
    have writes: thesis if run: "put_write c m1 pass p = (resp, m')"
      and ex: "\<forall>f. fp_existing_l0 pass = Some f \<longrightarrow> same_as_stored c (mt_store m) f (pp_spool p) = Ok True"
      using run
    proof (cases rule: put_write_cases)
      case 1
      then show ?thesis using refused clock by auto
    next
      case (2 info s')
      have "fence_admits c (mt_store m) p" using pass(2) [OF refl] ex by (auto simp: fence_admits_def)
      moreover have "fp_claim pass = get_header (pp_headers p) ''x-liters-writer-id''" "lease_allows opts m (pp_headers p)"
        using check_lease_Ok [OF pass(1)] by simp_all
      ultimately show ?thesis using written 2 accepted_commit [OF clock, of pass s'] store by auto
    qed
    show ?thesis
    proof (cases "fp_existing_l0 pass")
      case None
      then have "put_write c m1 pass p = (resp, m')" using assms r Ok by (simp add: put_commit_def)
      then show ?thesis using writes None by auto
    next
      case (Some f)
      show ?thesis
      proof (cases "same_as_stored c (mt_store m) f (pp_spool p) = Ok True")
        case True
        then have "put_write c m1 pass p = (resp, m')" using assms r Ok Some store by (simp add: put_commit_def)
        then show ?thesis using writes Some True by auto
      next
        case False
        then have "m' = m1" "rs_status resp \<in> {400, 409, 500}" using assms r Ok Some store
          by (auto simp: put_commit_def split: result.splits)
        then show ?thesis using refused clock by simp
      qed
    qed
  qed
qed

text \<open>Every request: the mount as it was but for the clock, or one change of the store that the guards allow.\<close>

definition refused_status :: "nat set" where
  "refused_status = {400, 401, 403, 404, 405, 409, 500}"

lemma accept_file_cases:
  assumes "accept_file c opts m lev name hs body = (resp, m')"
  obtains "same_but_clock m m'" "rs_status resp \<in> refused_status"
  | p m1 info s' where "put_begin c opts m lev name hs body = (Ok p, m1)" "put_commit c opts m1 p = (resp, m')" "mo_writable opts"
      "resp = response_text 200 (listing_line info)" "accepted (get_header hs ''x-liters-writer-id'') s' m m'" "lease_allows opts m hs"
proof -
  note refused = that(1) and written = that(2)
  obtain r m1 where r: "put_begin c opts m lev name hs body = (r, m1)" by fastforce
  note clock = put_begin_clock [OF r]
  show thesis
  proof (cases r)
    case (Err e)
    then have "resp = e" "m' = m1" using assms r by (simp_all add: accept_file_def)
    moreover have "rs_status e \<in> refused_status" using r Err fence_status
      by (auto simp: put_begin_def read_only_response_def refused_status_def split: if_splits option.splits prod.splits result.splits)
    ultimately show ?thesis using refused clock by simp
  next
    case (Ok p)
    then have run: "put_commit c opts m1 p = (resp, m')" using assms r by (simp add: accept_file_def)
    have p: "pp_headers p = hs" "mo_writable opts" using r Ok
      by (auto simp: put_begin_def split: if_splits option.splits prod.splits result.splits)
    from run show ?thesis
    proof (cases rule: put_commit_cases)
      case 1
      then show ?thesis using refused same_but_clock_trans [OF clock] by (auto simp: refused_status_def)
    next
      case (2 info s')
      have "accepted (get_header hs ''x-liters-writer-id'') s' m m'"
        using 2(3) same_but_clock_sel [OF clock] p(1) by (simp add: accepted_def split: option.splits)
      moreover have "lease_allows opts m hs"
      proof -
        obtain k where "mt_clock m1 = (\<lambda>i. mt_clock m (i + k))"
        proof -
          obtain fr where "check_lease opts m hs = (fr, m1)" using r Ok
            by (auto simp: put_begin_def check_fence_def split: if_splits option.splits prod.splits result.splits)
          then have "mt_clock m1 = mt_clock m \<or> mt_clock m1 = (\<lambda>i. mt_clock m (i + 1))"
            by (auto simp: check_lease_def now_def Let_def split: option.splits if_splits)
          then show ?thesis using that [of 0] that [of 1] by auto
        qed
        then show ?thesis using 2(4) same_but_clock_sel [OF clock] p(1) unfolding lease_allows_def by metis
      qed
      ultimately show ?thesis using written [OF r [unfolded Ok] run p(2) 2(2)] by blast
    qed
  qed
qed

lemma deleted_cases:
  assumes "deleted what pass r m = (resp, m')"
  obtains e where "r = Err e" "resp = response_error 500 (what @ storage_error_display e)" "m' = m"
  | s' where "r = Ok s'" "resp = response_text 200 (''deleted'' @ NL)" "m' = notify (commit_lease pass (m\<lparr>mt_store := s'\<rparr>))"
  using assms by (auto simp: deleted_def split: result.splits)

text \<open>A deletion: refused, or applied to the store under the lease rule.\<close>

lemma delete_cases:
  assumes "delete_file c opts m lev name hs = (resp, m') \<or> mount_delete_all c opts m hs = (resp, m')"
  obtains "same_but_clock m m'" "rs_status resp \<in> refused_status"
  | s' where "delete_all c (mt_store m) = Ok s' \<or> (\<exists>f. delete_ltx_files c (mt_store m) [f] = Ok s')" "mo_writable opts"
      "rs_status resp = 200" "accepted (get_header hs ''x-liters-writer-id'') s' m m'" "lease_allows opts m hs"
proof -
  note refused = that(1) and finished = that(2)
  obtain r m1 where r: "check_fence c opts m hs None = (r, m1)" by fastforce
  note clock = check_fence_clock [OF r]
  have store: "mt_store m1 = mt_store m" using same_but_clock_sel [OF clock] by simp
  have applied: thesis if d: "deleted what pass v m1 = (resp, m')" "r = Ok pass" "mo_writable opts"
    and v: "\<And>s'. v = Ok s' \<Longrightarrow> delete_all c (mt_store m) = Ok s' \<or> (\<exists>f. delete_ltx_files c (mt_store m) [f] = Ok s')" for what pass v
    using d(1)
  proof (cases rule: deleted_cases)
    case (1 e)
    then show ?thesis using refused clock by (simp add: refused_status_def)
  next
    case (2 s')
    have "fp_claim pass = get_header hs ''x-liters-writer-id''" "lease_allows opts m hs"
      using check_lease_Ok [OF check_fence_Ok(1) [OF r [unfolded d(2)]]] by simp_all
    then show ?thesis using finished [of s'] v 2 d(3) accepted_commit [OF clock, of pass s'] by simp
  qed
  have rejected: thesis if "resp = fence_reject_response rej" "m' = m1" for rej
    using refused clock fence_status [of rej] that by (auto simp: refused_status_def)
  show thesis
  proof (cases "mo_writable opts")
    case False
    then have "resp = read_only_response" "m' = m" using assms by (auto simp: delete_file_def mount_delete_all_def)
    then show ?thesis using refused by (simp add: read_only_response_def refused_status_def)
  next
    case True
    from assms show ?thesis
    proof
      assume run: "mount_delete_all c opts m hs = (resp, m')"
      show ?thesis
        by (cases r) (use run r True store rejected applied [of "''delete all: ''"] in \<open>auto simp: mount_delete_all_def\<close>)
    next
      assume run: "delete_file c opts m lev name hs = (resp, m')"
      show ?thesis
      proof (cases "\<exists>level a b. parse_level lev = Some level \<and> parse_filename name = Some (a, b)")
        case named: True
        show ?thesis
        proof (cases r)
          case (Err rej)
          then show ?thesis using run r True named rejected by (auto simp: delete_file_def)
        next
          case (Ok pass)
          then obtain f where "deleted ''delete: '' pass (delete_ltx_files c (mt_store m) [f]) m1 = (resp, m')"
            using run r True named store by (auto simp: delete_file_def)
          then show ?thesis by (rule applied) (use Ok True in auto)
        qed
      next
        case False
        then have "m' = m" "rs_status resp = 404" using run True by (auto simp: delete_file_def split: option.splits)
        then show ?thesis using refused by (simp add: refused_status_def)
      qed
    qed
  qed
qed

lemma route_of_method:
  "route_of meth path = RPut lev name \<Longrightarrow> meth = ''PUT''" "route_of meth path = RDelete lev name \<Longrightarrow> meth = ''DELETE''"
  "route_of meth path = RDeleteAll \<Longrightarrow> meth = ''DELETE''"
  by (auto simp: route_of_def Let_def split: if_splits list.splits)

text \<open>C28: only an admitted write changes a mount.  If a request leaves the store, the notification counter or the
  writer lease different, then it was answered 200, the mount is writable, the request carried the configured
  token, it was a \<open>PUT\<close> or a \<open>DELETE\<close>, and the lease let the writer through (no other holder, an expired
  lease, or a takeover); the counter advanced by one, so that streams are woken, and the lease belongs to the
  writer that identified itself.  A refused or failed request therefore never creates or refreshes a lease.\<close>

theorem mount_guards:
  assumes "handle c opts m req = (resp, m')"
    and "(mt_store m', mt_generation m', mt_lease m') \<noteq> (mt_store m, mt_generation m, mt_lease m)"
  shows "rs_status resp = 200 \<and> mo_writable opts \<and> rq_method req \<in> {''PUT'', ''DELETE''} \<and>
    (case mo_auth_token opts of None \<Rightarrow> True | Some token \<Rightarrow> authorized (rq_headers req) token) \<and>
    lease_allows opts m (rq_headers req) \<and>
    accepted (get_header (rq_headers req) ''x-liters-writer-id'') (mt_store m') m m'"
proof -
  have changed: "\<not> same_but_clock m m'" using assms(2) by (auto dest: same_but_clock_sel)
  then have auth: "\<not> unauthorized opts (rq_headers req)" using assms(1) by (auto simp: handle_def)
  then have token: "case mo_auth_token opts of None \<Rightarrow> True | Some token \<Rightarrow> authorized (rq_headers req) token"
    by (simp add: unauthorized_def split: option.splits)
  have same: "accepted claim s' m m' \<Longrightarrow> accepted claim (mt_store m') m m'" for claim s' by (auto simp: accepted_def)
  show ?thesis
  proof (cases "route_of (rq_method req) (rq_path req)")
    case (RPut lev name)
    then have "accept_file c opts m lev name (rq_headers req) (rq_body req) = (resp, m')" using assms(1) auth by (simp add: handle_def)
    then show ?thesis
      by (cases rule: accept_file_cases) (use changed token route_of_method(1) [OF RPut] same in \<open>auto\<close>)
  next
    case (RDelete lev name)
    then have "delete_file c opts m lev name (rq_headers req) = (resp, m') \<or> mount_delete_all c opts m (rq_headers req) = (resp, m')"
      using assms(1) auth by (simp add: handle_def)
    then show ?thesis
      by (cases rule: delete_cases) (use changed token route_of_method(2) [OF RDelete] same in \<open>auto\<close>)
  next
    case RDeleteAll
    then have "delete_file c opts m [] [] (rq_headers req) = (resp, m') \<or> mount_delete_all c opts m (rq_headers req) = (resp, m')"
      using assms(1) auth by (simp add: handle_def)
    then show ?thesis
      by (cases rule: delete_cases) (use changed token route_of_method(3) [OF RDeleteAll] same in \<open>auto\<close>)
  qed (use assms(1) auth changed in \<open>auto simp: handle_def\<close>)
qed

definition delete_all_request :: request where
  "delete_all_request = \<lparr>rq_method = ''DELETE'', rq_path = ''/all'', rq_query = [], rq_headers = [], rq_body = BEmpty, rq_cancel = Never\<rparr>"

theorem mount_guards_witness:
  "\<exists>resp m'. handle (dir_client []) (mount_options_default\<lparr>mo_writable := True\<rparr>) (mount_new [([''x''], [], 0)] (\<lambda>_. 0)) delete_all_request =
      (resp, m') \<and> rs_status resp = 200 \<and> mt_generation m' = 1"
proof -
  have route: "route_of ''DELETE'' ''/all'' = RDeleteAll" by code_simp
  obtain resp m' where run: "handle (dir_client []) (mount_options_default\<lparr>mo_writable := True\<rparr>) (mount_new [([''x''], [], 0)] (\<lambda>_. 0))
      delete_all_request = (resp, m')" by fastforce
  then have "mt_store m' = []"
    by (simp add: handle_def delete_all_request_def route unauthorized_def mount_options_default_def mount_delete_all_def check_fence_def
        check_lease_def get_header_def deleted_def dir_client_def dir_delete_all_def mount_new_def commit_lease_def notify_def)
      (auto simp: commit_lease_def notify_def)
  then have "(mt_store m', mt_generation m', mt_lease m') \<noteq> (mt_store (mount_new [([''x''], [], 0)] (\<lambda>_. 0) :: file_system mount),
      mt_generation (mount_new [([''x''], [], 0)] (\<lambda>_. 0) :: file_system mount), mt_lease (mount_new [([''x''], [], 0)] (\<lambda>_. 0) :: file_system mount))"
    by (simp add: mount_new_def)
  from mount_guards [OF run this] run show ?thesis by (auto simp: accepted_def mount_new_def)
qed

section \<open>Fencing of level 0\<close>

lemma stored_matches_prefix: "stored_matches_spool stored spool \<longleftrightarrow> prefix stored spool"
proof (induction stored spool rule: stored_matches_spool.induct)
  case (1 stored spool)
  show ?case
  proof (cases "stored = []")
    case False
    let ?n = "min COPY_BUF (length stored)"
    have split: "prefix stored spool \<longleftrightarrow> ?n \<le> length spool \<and> take ?n stored = take ?n spool \<and> prefix (drop ?n stored) (drop ?n spool)"
    proof
      assume "prefix stored spool"
      then show "?n \<le> length spool \<and> take ?n stored = take ?n spool \<and> prefix (drop ?n stored) (drop ?n spool)"
        by (auto simp: prefix_def)
    next
      assume a: "?n \<le> length spool \<and> take ?n stored = take ?n spool \<and> prefix (drop ?n stored) (drop ?n spool)"
      then obtain u where "drop ?n spool = drop ?n stored @ u" by (auto simp: prefix_def)
      then have "spool = take ?n stored @ drop ?n stored @ u" using a by (metis append_take_drop_id)
      then show "prefix stored spool" by (metis append_assoc append_take_drop_id prefixI)
    qed
    show ?thesis
      by (subst stored_matches_spool.simps) (use 1 False split in \<open>auto simp: Let_def not_less\<close>)
  qed (simp add: stored_matches_spool.simps)
qed

lemma max_txid_of_ge: "f \<in> set fs \<Longrightarrow> fi_max_txid f \<le> max_txid_of fs"
proof -
  have "x \<le> foldl max x ys \<and> (\<forall>y \<in> set ys. y \<le> foldl max x ys)" for x :: txid and ys
    by (induction ys arbitrary: x) (auto intro: order.trans [OF max.cobounded1] order.trans [OF max.cobounded2])
  then show "f \<in> set fs \<Longrightarrow> ?thesis" by (auto simp: max_txid_of_def)
qed

text \<open>Level 0 is a log: its ranges are in order and do not overlap.\<close>

definition l0_log :: "contents \<Rightarrow> bool" where
  "l0_log m \<longleftrightarrow>
     (\<forall>a b. m (0, a, b) \<noteq> None \<longrightarrow> a \<le> b) \<and>
     (\<forall>a b a' b'. m (0, a, b) \<noteq> None \<longrightarrow> m (0, a', b') \<noteq> None \<longrightarrow> (a, b) = (a', b') \<or> b < a' \<or> b' < a)"

text \<open>Every file of level 0 is still there with the same bytes.\<close>

definition l0_kept :: "contents \<Rightarrow> contents \<Rightarrow> bool" where
  "l0_kept m m' \<longleftrightarrow> (\<forall>a b d t. m (0, a, b) = Some (d, t) \<longrightarrow> (\<exists>t'. m' (0, a, b) = Some (d, t')))"

lemma l0_kept_trans: "l0_kept m m' \<Longrightarrow> l0_kept m' m'' \<Longrightarrow> l0_kept m m''"
  unfolding l0_kept_def by meson

lemma l0_log_restrict: "l0_log m \<Longrightarrow> l0_log (m |` K)"
  by (auto simp: l0_log_def restrict_map_def)

definition named_range :: "pending_put \<Rightarrow> bool" where
  "named_range p \<longleftrightarrow> pp_level p = 0 \<longrightarrow> pp_min_txid p \<noteq> 0 \<and> pp_min_txid p \<le> pp_max_txid p"

context wipable_client
begin

text \<open>A write that the fence admits appends to the log or repeats one of its files.\<close>

lemma admitted_write:
  assumes inv: "inv s" and admits: "fence_admits c s p"
    and run: "write_ltx_file c s (pp_level p) (pp_min_txid p) (pp_max_txid p) (pp_spool p) = Ok (info, s')"
  shows "inv s'" and "l0_kept (contents s) (contents s')"
    and "named_range p \<Longrightarrow> l0_log (contents s) \<Longrightarrow> l0_log (contents s')"
proof -
  let ?a = "pp_min_txid p" and ?b = "pp_max_txid p"
  from write_ltx_file_Ok [OF inv run] obtain t where s': "inv s'"
    and upd: "contents s' = (contents s)((pp_level p, ?a, ?b) \<mapsto> (pp_spool p, t))" by blast
  then show "inv s'" by simp
  have "l0_kept (contents s) (contents s') \<and> (named_range p \<longrightarrow> l0_log (contents s) \<longrightarrow> l0_log (contents s'))"
  proof (cases "pp_level p = 0")
    case False
    then have "contents s' (0, a, b) = contents s (0, a, b)" for a b using upd by simp
    then show ?thesis by (simp add: l0_kept_def l0_log_def)
  next
    case True
    then obtain files existing where files: "ltx_files c s 0 0 False = Ok files"
      and ex: "check_position c s 0 ?a ?b = Ok existing" and same: "\<And>f. existing = Some f \<Longrightarrow> same_as_stored c s f (pp_spool p) = Ok True"
      using admits by (auto simp: fence_admits_def check_position_def and_then_eq_Ok map_err_eq_Ok)
    have listed: "is_listing (contents s) 0 0 files" by (rule ltx_files_Ok [OF inv files])
    then have mem: "f \<in> set files \<longleftrightarrow> (\<exists>a b d t. f = mk_info 0 a b (of_nat (length d)) (Some t) \<and> contents s (0, a, b) = Some (d, t))" for f
      by (auto simp: is_listing_def)
    have present: "\<exists>f \<in> set files. fi_min_txid f = a \<and> fi_max_txid f = b" if "contents s (0, a, b) \<noteq> None" for a b
    proof -
      from that obtain d t where "contents s (0, a, b) = Some (d, t)" by auto
      then have "mk_info 0 a b (of_nat (length d)) (Some t) \<in> set files" using mem by blast
      then show ?thesis by force
    qed
    show ?thesis
    proof (cases existing)
      case (Some f)
      then have "f \<in> set files" "fi_min_txid f = ?a" "fi_max_txid f = ?b"
        using ex files by (auto simp: check_position_def Let_def find_Some_iff split: option.splits if_splits)
      then obtain d t0 where d: "contents s (0, ?a, ?b) = Some (d, t0)" "f = mk_info 0 ?a ?b (of_nat (length d)) (Some t0)"
        using mem by auto
      from same [OF Some] obtain stored where stored: "open_ltx_file c s 0 ?a ?b 0 0 = Ok stored"
          "unat (of_nat (length d) :: u64) = length (pp_spool p)" "stored_matches_spool stored (pp_spool p)"
        by (subst (asm) d(2)) (auto simp: same_as_stored_def and_then_eq_Ok split: if_splits)
      then have "stored = d" using open_ltx_file_Ok [OF inv stored(1)] d(1) by simp
      then obtain u where u: "pp_spool p = d @ u" using stored(3) by (auto simp: stored_matches_prefix prefix_def)
      have "unat (of_nat (length d) :: u64) \<le> length d" by (simp add: unat_of_nat)
      then have "length (pp_spool p) \<le> length d" using stored(2) by simp
      then have "pp_spool p = d" using u by simp
      then have "contents s' = (contents s)((0, ?a, ?b) \<mapsto> (d, t))" using upd True by simp
      then show ?thesis using d(1) by (auto simp: l0_kept_def l0_log_def)
    next
      case None
      have new: "contents s (0, ?a, ?b) = None"
      proof (rule ccontr)
        assume "contents s (0, ?a, ?b) \<noteq> None"
        from present [OF this] show False using ex files None
          by (auto simp: check_position_def Let_def find_None_iff split: option.splits if_splits)
      qed
      have above: "b' < ?a" if "contents s (0, a', b') \<noteq> None" "?a \<noteq> 0" for a' b'
      proof -
        from present [OF that(1)] obtain f where f: "f \<in> set files" "fi_max_txid f = b'" by blast
        then have "files \<noteq> []" by auto
        then have "?a = max_txid_of files + 1" using ex files None
          by (auto simp: check_position_def Let_def split: option.splits if_splits)
        moreover have "b' \<le> max_txid_of files" using max_txid_of_ge [OF f(1)] f(2) by simp
        ultimately show ?thesis using that(2) word_less_plus_one [of "max_txid_of files"] by auto
      qed
      have upd0: "contents s' = (contents s)((0, ?a, ?b) \<mapsto> (pp_spool p, t))" using upd True by simp
      then have "l0_kept (contents s) (contents s')" using new by (auto simp: l0_kept_def)
      moreover have "l0_log (contents s')" if p: "named_range p" and log: "l0_log (contents s)"
        unfolding l0_log_def
      proof (intro conjI allI impI)
        fix a b assume "contents s' (0, a, b) \<noteq> None"
        then show "a \<le> b" using p log True upd0 by (auto simp: named_range_def l0_log_def split: if_splits)
      next
        fix a b a' b' assume "contents s' (0, a, b) \<noteq> None" "contents s' (0, a', b') \<noteq> None"
        then consider "(a, b) = (?a, ?b)" "(a', b') = (?a, ?b)" | "(a, b) = (?a, ?b)" "contents s (0, a', b') \<noteq> None"
          | "contents s (0, a, b) \<noteq> None" "(a', b') = (?a, ?b)" | "contents s (0, a, b) \<noteq> None" "contents s (0, a', b') \<noteq> None"
          unfolding upd0 by (auto split: if_splits)
        then show "(a, b) = (a', b') \<or> b < a' \<or> b' < a"
          using above p True log by cases (auto simp: named_range_def l0_log_def)
      qed
      ultimately show ?thesis by blast
    qed
  qed
  then show "l0_kept (contents s) (contents s')" "named_range p \<Longrightarrow> l0_log (contents s) \<Longrightarrow> l0_log (contents s')" by blast+
qed

text \<open>One commit, one deletion, one request of any kind.\<close>

lemma commit_effect:
  assumes "inv (mt_store m)" and "put_commit c opts m p = (resp, m')"
  shows "inv (mt_store m')" and "l0_kept (contents (mt_store m)) (contents (mt_store m'))"
    and "named_range p \<Longrightarrow> l0_log (contents (mt_store m)) \<Longrightarrow> l0_log (contents (mt_store m'))"
proof -
  have "inv (mt_store m') \<and> l0_kept (contents (mt_store m)) (contents (mt_store m')) \<and>
      (named_range p \<longrightarrow> l0_log (contents (mt_store m)) \<longrightarrow> l0_log (contents (mt_store m')))"
    using assms(2)
  proof (cases rule: put_commit_cases)
    case 1
    then show ?thesis using assms(1) same_but_clock_sel [of m m'] by (auto simp: l0_kept_def)
  next
    case (2 info s')
    then show ?thesis using admitted_write [OF assms(1) 2(5,1)] by (simp add: accepted_def)
  qed
  then show "inv (mt_store m')" "l0_kept (contents (mt_store m)) (contents (mt_store m'))"
    "named_range p \<Longrightarrow> l0_log (contents (mt_store m)) \<Longrightarrow> l0_log (contents (mt_store m'))" by blast+
qed

lemma delete_effect:
  assumes "inv (mt_store m)" and "delete_file c opts m lev name hs = (resp, m') \<or> mount_delete_all c opts m hs = (resp, m')"
  shows "inv (mt_store m')" and "l0_log (contents (mt_store m)) \<Longrightarrow> l0_log (contents (mt_store m'))"
proof -
  have "inv (mt_store m') \<and> (l0_log (contents (mt_store m)) \<longrightarrow> l0_log (contents (mt_store m')))"
    using assms(2)
  proof (cases rule: delete_cases)
    case 1
    then show ?thesis using assms(1) same_but_clock_sel [of m m'] by auto
  next
    case (2 s')
    have s': "mt_store m' = s'" using 2(4) by (simp add: accepted_def)
    from 2(1) show ?thesis
    proof (elim disjE exE)
      assume "delete_all c (mt_store m) = Ok s'"
      from delete_all_Ok [OF assms(1) this] show ?thesis by (simp add: s' l0_log_def)
    next
      fix f assume "delete_ltx_files c (mt_store m) [f] = Ok s'"
      from delete_ltx_files_Ok [OF assms(1) this] show ?thesis by (simp add: s' l0_log_restrict)
    qed
  qed
  then show "inv (mt_store m')" "l0_log (contents (mt_store m)) \<Longrightarrow> l0_log (contents (mt_store m'))" by blast+
qed

lemma put_begin_named:
  assumes "put_begin c opts m lev name hs body = (Ok p, m')" and "\<And>a b. parse_filename name = Some (a, b) \<Longrightarrow> a \<noteq> 0 \<and> a \<le> b"
  shows "named_range p"
  using assms by (auto simp: put_begin_def named_range_def split: if_splits option.splits prod.splits result.splits)

lemma handle_effect:
  assumes "inv (mt_store m)" and run: "handle c opts m req = (resp, m')"
    and named: "\<And>lev name a b. route_of (rq_method req) (rq_path req) = RPut lev name \<Longrightarrow> parse_filename name = Some (a, b) \<Longrightarrow> a \<noteq> 0 \<and> a \<le> b"
  shows "inv (mt_store m')" and "l0_log (contents (mt_store m)) \<Longrightarrow> l0_log (contents (mt_store m'))"
    and "rq_method req \<noteq> ''DELETE'' \<Longrightarrow> l0_kept (contents (mt_store m)) (contents (mt_store m'))"
proof -
  have "inv (mt_store m') \<and> (l0_log (contents (mt_store m)) \<longrightarrow> l0_log (contents (mt_store m'))) \<and>
      (rq_method req \<noteq> ''DELETE'' \<longrightarrow> l0_kept (contents (mt_store m)) (contents (mt_store m')))"
  proof (cases "unauthorized opts (rq_headers req)")
    case True
    then show ?thesis using run assms(1) by (auto simp: handle_def l0_kept_def)
  next
    case auth: False
    show ?thesis
    proof (cases "route_of (rq_method req) (rq_path req)")
      case (RPut lev name)
      then have acc: "accept_file c opts m lev name (rq_headers req) (rq_body req) = (resp, m')" using run auth by (simp add: handle_def)
      obtain r m1 where r: "put_begin c opts m lev name (rq_headers req) (rq_body req) = (r, m1)" by fastforce
      have store: "mt_store m1 = mt_store m" using same_but_clock_sel [OF put_begin_clock [OF r]] by simp
      show ?thesis
      proof (cases r)
        case (Err e)
        then show ?thesis using acc r store assms(1) by (auto simp: accept_file_def l0_kept_def)
      next
        case (Ok p)
        then have run': "put_commit c opts m1 p = (resp, m')" using acc r by (simp add: accept_file_def)
        have "named_range p" by (rule put_begin_named [OF r [unfolded Ok] named [OF RPut]])
        then show ?thesis using commit_effect [OF _ run'] assms(1) store by auto
      qed
    next
      case (RDelete lev name)
      then have "delete_file c opts m lev name (rq_headers req) = (resp, m') \<or> mount_delete_all c opts m (rq_headers req) = (resp, m')"
        using run auth by (simp add: handle_def)
      from delete_effect [OF assms(1) this] show ?thesis using route_of_method(2) [OF RDelete] by simp
    next
      case RDeleteAll
      then have "delete_file c opts m [] [] (rq_headers req) = (resp, m') \<or> mount_delete_all c opts m (rq_headers req) = (resp, m')"
        using run auth by (simp add: handle_def)
      from delete_effect [OF assms(1) this] show ?thesis using route_of_method(3) [OF RDeleteAll] by simp
    qed (use run auth assms(1) in \<open>auto simp: handle_def l0_kept_def\<close>)
  qed
  then show "inv (mt_store m')" "l0_log (contents (mt_store m)) \<Longrightarrow> l0_log (contents (mt_store m'))"
    "rq_method req \<noteq> ''DELETE'' \<Longrightarrow> l0_kept (contents (mt_store m)) (contents (mt_store m'))" by blast+
qed

text \<open>Every interleaving keeps the log.\<close>

lemma steps_keep_log:
  assumes "(mount_step c opts ok)\<^sup>*\<^sup>* (m0, []) st" and "inv (mt_store m0)" and "l0_log (contents (mt_store m0))"
    and named: "\<And>req lev name a b. ok req \<Longrightarrow> route_of (rq_method req) (rq_path req) = RPut lev name \<Longrightarrow>
      parse_filename name = Some (a, b) \<Longrightarrow> a \<noteq> 0 \<and> a \<le> b"
  shows "inv (mt_store (fst st)) \<and> l0_log (contents (mt_store (fst st))) \<and> (\<forall>p \<in> set (snd st). named_range p) \<and>
    ((\<forall>req. ok req \<longrightarrow> rq_method req \<noteq> ''DELETE'') \<longrightarrow> l0_kept (contents (mt_store m0)) (contents (mt_store (fst st))))"
  using assms(1)
proof (induction rule: rtranclp_induct)
  case base
  then show ?case using assms(2,3) by (auto simp: l0_kept_def)
next
  case (step st1 st2)
  from step.hyps(2) show ?case
  proof cases
    case (request req m resp m' ps)
    have m: "inv (mt_store m)" "l0_log (contents (mt_store m))" using step.IH request(1) by simp_all
    have names: "\<And>lev name a b. route_of (rq_method req) (rq_path req) = RPut lev name \<Longrightarrow> parse_filename name = Some (a, b) \<Longrightarrow> a \<noteq> 0 \<and> a \<le> b"
      by (rule named [OF request(3)])
    have "inv (mt_store m')" by (rule handle_effect(1) [OF m(1) request(4)]) (rule names)
    moreover have "l0_log (contents (mt_store m'))" by (rule handle_effect(2) [OF m(1) request(4) _ m(2)]) (rule names)
    moreover have "l0_kept (contents (mt_store m0)) (contents (mt_store m'))" if "\<forall>req. ok req \<longrightarrow> rq_method req \<noteq> ''DELETE''"
    proof (rule l0_kept_trans)
      show "l0_kept (contents (mt_store m0)) (contents (mt_store m))" using that step.IH request(1) by simp
      show "l0_kept (contents (mt_store m)) (contents (mt_store m'))"
        by (rule handle_effect(3) [OF m(1) request(4)]) (use names that request(3) in auto)
    qed
    ultimately show ?thesis using step.IH request(1,2) by simp
  next
    case (received req lev name m p m' ps)
    have "mt_store m' = mt_store m" using same_but_clock_sel [OF put_begin_clock [OF received(6)]] by simp
    moreover have "named_range p" by (rule put_begin_named [OF received(6) named [OF received(3,5)]])
    ultimately show ?thesis using step.IH received(1,2) by auto
  next
    case (commit p ps m resp m')
    then have p: "named_range p" "inv (mt_store m)" "l0_log (contents (mt_store m))" using step.IH by auto
    note e = commit_effect [OF p(2) commit(4)]
    have "l0_kept (contents (mt_store m0)) (contents (mt_store m'))" if "\<forall>req. ok req \<longrightarrow> rq_method req \<noteq> ''DELETE''"
      using e(2) that commit(1) step.IH l0_kept_trans by simp blast
    moreover have "set (remove1 p ps) \<subseteq> set ps" by (rule set_remove1_subset)
    ultimately show ?thesis using e(1) e(3) [OF p(1,3)] step.IH commit(1,2) by auto
  qed
qed

end

text \<open>C23: fencing keeps level 0 a log.  However the requests of any number of peers are interleaved on a mount over
  a directory bucket (bodies are received while other requests run), if the names of the pushed files are
  ranges that start at 1 or above, level 0 always consists of disjoint ranges; and if no peer deletes, every level-0
  file that was ever stored keeps its bytes, so that divergent content is never put in its place.\<close>

theorem mount_fencing:
  assumes "(mount_step (dir_client root) opts ok)\<^sup>*\<^sup>* (m, []) (m', ps)"
    and "dir_inv (mt_store m)" and "l0_log (dir_contents root (mt_store m))"
    and "\<And>req lev name a b. ok req \<Longrightarrow> route_of (rq_method req) (rq_path req) = RPut lev name \<Longrightarrow>
      parse_filename name = Some (a, b) \<Longrightarrow> a \<noteq> 0 \<and> a \<le> b"
  shows "l0_log (dir_contents root (mt_store m')) \<and>
    ((\<forall>req. ok req \<longrightarrow> rq_method req \<noteq> ''DELETE'') \<longrightarrow> l0_kept (dir_contents root (mt_store m)) (dir_contents root (mt_store m')))"
  using dirw.steps_keep_log [OF assms] by simp

definition demo_put :: request where
  "demo_put = \<lparr>rq_method = ''PUT'', rq_path = ''/ltx/0/0000000000000001-0000000000000001.ltx'', rq_query = [], rq_headers = [],
     rq_body = BExact \<lparr>el_inner = [Arrive (header_encode header_default)], el_remaining = HEADER_SIZE\<rparr>, rq_cancel = Never\<rparr>"

lemma demo_put_route: "route_of ''PUT'' ''/ltx/0/0000000000000001-0000000000000001.ltx'' = RPut ''0'' ''0000000000000001-0000000000000001.ltx''"
  "parse_level ''0'' = Some 0" "parse_filename ''0000000000000001-0000000000000001.ltx'' = Some (1, 1)"
proof -
  have "format_filename 1 1 = ''0000000000000001-0000000000000001.ltx''" by code_simp
  then show "parse_filename ''0000000000000001-0000000000000001.ltx'' = Some (1, 1)" by (metis parse_format_filename)
qed code_simp+

lemma demo_put_body: "body_pends (rq_body demo_put) (header_encode header_default) None" "body_ticks (rq_body demo_put) = 0"
proof -
  show "body_pends (rq_body demo_put) (header_encode header_default) None"
    unfolding demo_put_def request.simps body_pends.simps
    by (intro conjI exI [of _ "header_encode header_default"] exI [of _ None] exI [of _ "[]"]) (simp_all add: cut_as_def)
qed (simp add: demo_put_def body_ticks_def)

text \<open>The upload of one file, received and then committed, beside a mount that is empty.\<close>

lemma demo_put_run:
  fixes m :: "file_system mount"
  assumes "m = mount_new [] (\<lambda>_. 0)" and "opts = mount_options_default\<lparr>mo_writable := True\<rparr>"
  obtains p where "put_begin (dir_client []) opts m ''0'' ''0000000000000001-0000000000000001.ltx'' [] (rq_body demo_put) = (Ok p, m)"
    "fst (put_commit (dir_client []) opts m p) = response_text 200 (listing_line (mk_info 0 1 1 (of_nat HEADER_SIZE) (Some 0)))"
proof -
  have spool: "fst (spool_put_body [] (rq_body demo_put)) = Ok (header_encode header_default)"
    using demo_put_body spool_put_body_pends [of "rq_body demo_put" _ None "[]"] by (metis append_Nil less_irrefl option.distinct(1) prod.collapse)
  have listing: "ltx_files (dir_client []) [] 0 0 False = Ok []" by (simp add: dir_eval)
  have fence: "check_fence (dir_client []) opts m [] (Some (0, 1, 1)) = (Ok \<lparr>fp_claim = None, fp_existing_l0 = None\<rparr>, m)"
    by (simp add: assms check_fence_def check_lease_def get_header_def check_position_def listing mount_new_def Let_def)
  let ?p = "\<lparr>pp_level = 0, pp_min_txid = 1, pp_max_txid = 1, pp_headers = [], pp_spool = header_encode header_default\<rparr>"
  have "put_begin (dir_client []) opts m ''0'' ''0000000000000001-0000000000000001.ltx'' [] (rq_body demo_put) = (Ok ?p, m)"
    using spool fence by (simp add: put_begin_def demo_put_route assms(2))
  moreover have "fst (put_commit (dir_client []) opts m ?p) = response_text 200 (listing_line (mk_info 0 1 1 (of_nat HEADER_SIZE) (Some 0)))"
    using fence header_decode_encode_append [of header_default "[]"]
    by (simp add: put_commit_def put_write_def dir_client_def dir_write_ltx_file_def read_exact_def Let_def header_time_def header_default_def)
  ultimately show ?thesis by (rule that)
qed

theorem mount_fencing_witness:
  "\<exists>m' ps. (mount_step (dir_client []) (mount_options_default\<lparr>mo_writable := True\<rparr>) (\<lambda>req. req = demo_put))\<^sup>*\<^sup>*
      (mount_new [] (\<lambda>_. 0), []) (m', ps) \<and> l0_log (dir_contents [] (mt_store m')) \<and> mt_generation m' = 1"
proof -
  let ?m = "mount_new [] (\<lambda>_. 0) :: file_system mount" and ?opts = "mount_options_default\<lparr>mo_writable := True\<rparr>"
  let ?step = "mount_step (dir_client []) ?opts (\<lambda>req. req = demo_put)"
  obtain p where p: "put_begin (dir_client []) ?opts ?m ''0'' ''0000000000000001-0000000000000001.ltx'' [] (rq_body demo_put) = (Ok p, ?m)"
    "fst (put_commit (dir_client []) ?opts ?m p) = response_text 200 (listing_line (mk_info 0 1 1 (of_nat HEADER_SIZE) (Some 0)))"
    by (rule demo_put_run [OF refl refl])
  obtain resp m' where c: "put_commit (dir_client []) ?opts ?m p = (resp, m')" by fastforce
  have "?step (?m, []) (?m, [p])"
    by (rule mount_step.received [OF refl])
      (use p(1) demo_put_route(1) in \<open>simp_all add: unauthorized_def mount_options_default_def demo_put_def\<close>)
  moreover have "?step (?m, [p]) (m', remove1 p [p])" by (rule mount_step.commit [OF _ c]) simp
  ultimately have run: "?step\<^sup>*\<^sup>* (?m, []) (m', remove1 p [p])" by (meson converse_rtranclp_into_rtranclp rtranclp.rtrancl_refl)
  moreover have "l0_log (dir_contents [] (mt_store m'))"
    using mount_fencing [OF run] demo_put_route by (auto simp: mount_new_def dir_inv_def l0_log_def demo_put_def)
  moreover have "mt_generation m' = 1"
    using c by (cases rule: put_commit_cases) (use p(2) c in \<open>auto simp: accepted_def mount_new_def\<close>)
  ultimately show ?thesis by blast
qed

section \<open>The decision on a PUT\<close>

text \<open>Another writer holds the lease and it has not run out, and the request does not take over.\<close>

definition lease_held :: "mount_options \<Rightarrow> 's mount \<Rightarrow> headers \<Rightarrow> bool" where
  "lease_held opts m hs \<longleftrightarrow>
     (\<exists>wid l. get_header hs ''x-liters-writer-id'' = Some wid \<and> mt_lease m = Some l \<and> wl_id l \<noteq> wid \<and>
        get_header hs ''x-liters-writer-takeover'' \<noteq> Some ''1'' \<and> mt_clock m 0 - wl_last_seen l < mo_lease_ttl opts)"

text \<open>
  Where a file may be put.  At level 0: in the place of a file of the same name, first of all, or right behind
  the newest transaction.  At the other levels: not beyond the newest transaction of the bucket.
\<close>

definition put_position_ok :: "contents \<Rightarrow> u8 \<Rightarrow> txid \<Rightarrow> txid \<Rightarrow> bool" where
  "put_position_ok cs l a b \<longleftrightarrow>
     (if l = 0 then
        cs (0, a, b) \<noteq> None \<or> (\<forall>a' b'. cs (0, a', b') = None) \<or>
        (\<exists>a' b'. cs (0, a', b') \<noteq> None \<and> a = b' + 1 \<and> (\<forall>a'' b''. cs (0, a'', b'') \<noteq> None \<longrightarrow> b'' \<le> b'))
      else b = 0 \<or> (\<exists>l' a' b'. l' \<le> SNAPSHOT_LEVEL \<and> cs (l', a', b') \<noteq> None \<and> b \<le> b'))"

text \<open>The status of a \<open>PUT\<close> of the body \<open>d\<close>, which arrived whole or was cut short (\<open>torn\<close>).\<close>

definition put_status :: "contents \<Rightarrow> u8 \<Rightarrow> txid \<Rightarrow> txid \<Rightarrow> byte list \<Rightarrow> bool \<Rightarrow> nat" where
  "put_status cs l a b d torn =
     (if \<not> put_position_ok cs l a b then 409
      else if torn then 400
      else if l = 0 \<and> (\<exists>d' t. cs (0, a, b) = Some (d', t) \<and> d' \<noteq> d) then 409
      else if HEADER_SIZE \<le> length d \<and> (\<exists>h. header_decode (take HEADER_SIZE d) = Ok h) then 200
      else 400)"

lemma check_lease_held:
  assumes "check_lease opts m hs = (r, m')"
  shows "if lease_held opts m hs then \<exists>msg. r = Err (FenceConflict msg) else r = Ok (get_header hs ''x-liters-writer-id'')"
    and "mono (mt_clock m) \<Longrightarrow> \<not> lease_held opts m hs \<Longrightarrow> \<not> lease_held opts m' hs"
proof -
  show "if lease_held opts m hs then \<exists>msg. r = Err (FenceConflict msg) else r = Ok (get_header hs ''x-liters-writer-id'')"
    using assms by (auto simp: check_lease_def lease_held_def now_def Let_def split: option.splits if_splits)
  assume "mono (mt_clock m)" and free: "\<not> lease_held opts m hs"
  then have "mt_clock m 0 \<le> mt_clock m (Suc 0)" by (simp add: monoD)
  with assms free show "\<not> lease_held opts m' hs"
    by (auto simp: check_lease_def lease_held_def now_def Let_def split: option.splits if_splits)
qed

lemma le_bucket_fold:
  "x \<le> foldl (\<lambda>m info. if m < fi_max_txid info then fi_max_txid info else m) m fs \<longleftrightarrow> x \<le> m \<or> (\<exists>f \<in> set fs. x \<le> fi_max_txid f)"
  by (induction fs arbitrary: m) auto

lemma le_max_txid_of: "x \<le> max_txid_of fs \<longleftrightarrow> x = 0 \<or> (\<exists>f \<in> set fs. x \<le> fi_max_txid f)"
proof -
  have "x \<le> foldl max m (map fi_max_txid fs) \<longleftrightarrow> x \<le> m \<or> (\<exists>f \<in> set fs. x \<le> fi_max_txid f)" for m
    by (induction fs arbitrary: m) (auto simp: le_max_iff_disj)
  then show ?thesis by (simp add: max_txid_of_def)
qed

lemma max_txid_of_attained:
  assumes "fs \<noteq> []" obtains f where "f \<in> set fs" "fi_max_txid f = max_txid_of fs"
proof -
  have "max_txid_of fs = 0 \<or> (\<exists>f \<in> set fs. max_txid_of fs \<le> fi_max_txid f)" using le_max_txid_of [of "max_txid_of fs" fs] by simp
  then obtain f where "f \<in> set fs" "max_txid_of fs \<le> fi_max_txid f" using assms by (metis list.set_intros(1) neq_Nil_conv word_zero_le)
  then show thesis using that [of f] max_txid_of_ge [of f fs] by auto
qed

text \<open>The directory can always be listed; its entries are the stored files.\<close>

lemma dir_listed:
  assumes "dir_inv s"
  shows "\<exists>fs. ltx_files (dir_client root) s l 0 False = Ok fs \<and> (\<forall>f. f \<in> set fs \<longleftrightarrow>
    (\<exists>a b d t. f = mk_info l a b (of_nat (length d)) (Some t) \<and> dir_contents root s (l, a, b) = Some (d, t)))"
proof -
  obtain fs where fs: "ltx_files (dir_client root) s l 0 False = Ok fs" by (simp add: dir_client_def dir_ltx_files_def)
  from dir.ltx_files_Ok [OF assms fs] show ?thesis by (intro exI [of _ fs]) (auto simp: fs is_listing_def)
qed

lemma dir_bucket_max_levels:
  assumes "dir_inv s"
  shows "\<exists>M. bucket_max_levels (dir_client root) s m ls = Ok M \<and>
    (\<forall>x. x \<le> M \<longleftrightarrow> x \<le> m \<or> (\<exists>l \<in> set ls. \<exists>a b. dir_contents root s (l, a, b) \<noteq> None \<and> x \<le> b))"
proof (induction ls arbitrary: m)
  case (Cons l ls)
  obtain fs where fs: "ltx_files (dir_client root) s l 0 False = Ok fs"
    "\<And>f. f \<in> set fs \<longleftrightarrow> (\<exists>a b d t. f = mk_info l a b (of_nat (length d)) (Some t) \<and> dir_contents root s (l, a, b) = Some (d, t))"
    using dir_listed [OF assms, of root l] by blast
  have "(\<exists>f \<in> set fs. x \<le> fi_max_txid f) \<longleftrightarrow> (\<exists>a b. dir_contents root s (l, a, b) \<noteq> None \<and> x \<le> b)" for x
    by (simp only: Bex_def fs(2)) (fastforce simp del: dir_contents.simps)
  then show ?case
    using Cons.IH [of "foldl (\<lambda>m info. if m < fi_max_txid info then fi_max_txid info else m) m fs"]
    by (simp add: fs(1) le_bucket_fold del: dir_contents.simps)
qed simp

lemma all_levels: "set (map of_nat [0..<Suc (unat SNAPSHOT_LEVEL)]) = {l :: u8. l \<le> SNAPSHOT_LEVEL}"
proof -
  have "l \<in> of_nat ` {0..unat SNAPSHOT_LEVEL}" if "l \<le> SNAPSHOT_LEVEL" for l :: u8
    using that by (intro image_eqI [of _ _ "unat l"]) (auto simp: word_le_nat_alt)
  moreover have "(of_nat n :: u8) \<le> SNAPSHOT_LEVEL" if "n \<le> unat SNAPSHOT_LEVEL" for n
    using that by (simp add: SNAPSHOT_LEVEL_def word_le_nat_alt unat_of_nat)
  ultimately show ?thesis unfolding set_map set_upt atLeastLessThanSuc_atLeastAtMost by auto
qed

lemma dir_check_position:
  assumes inv: "dir_inv s"
  shows "case check_position (dir_client root) s l a b of
      Ok None \<Rightarrow> put_position_ok (dir_contents root s) l a b \<and> (l = 0 \<longrightarrow> dir_contents root s (0, a, b) = None)
    | Ok (Some f) \<Rightarrow> put_position_ok (dir_contents root s) l a b \<and> l = 0 \<and>
        (\<exists>d t. dir_contents root s (0, a, b) = Some (d, t) \<and> f = mk_info 0 a b (of_nat (length d)) (Some t))
    | Err (FenceConflict msg) \<Rightarrow> \<not> put_position_ok (dir_contents root s) l a b
    | Err (FenceBackend e) \<Rightarrow> False"
proof (cases "l = 0")
  case False
  from dir_bucket_max_levels [OF inv, of root 0 "map of_nat [0..<Suc (unat SNAPSHOT_LEVEL)]"] obtain M where
    M: "bucket_max (dir_client root) s = Ok M" "\<And>x. x \<le> M \<longleftrightarrow> x = 0 \<or> (\<exists>l \<le> SNAPSHOT_LEVEL. \<exists>a b. dir_contents root s (l, a, b) \<noteq> None \<and> x \<le> b)"
    unfolding bucket_max_def all_levels by (auto simp del: dir_contents.simps)
  have "put_position_ok (dir_contents root s) l a b \<longleftrightarrow> b \<le> M"
    using False M(2) [of b] unfolding put_position_ok_def by (simp del: dir_contents.simps)
  then show ?thesis using False M(1) by (auto simp: check_position_def not_less)
next
  case True
  obtain fs where fs: "ltx_files (dir_client root) s 0 0 False = Ok fs"
    "\<And>f. f \<in> set fs \<longleftrightarrow> (\<exists>a b d t. f = mk_info 0 a b (of_nat (length d)) (Some t) \<and> dir_contents root s (0, a, b) = Some (d, t))"
    using dir_listed [OF inv, of root 0] by blast
  show ?thesis
  proof (cases "find (\<lambda>f. fi_min_txid f = a \<and> fi_max_txid f = b) fs")
    case (Some f)
    then have "f \<in> set fs" "fi_min_txid f = a" "fi_max_txid f = b" by (auto simp: find_Some_iff)
    then show ?thesis using True Some fs
      by (auto simp: check_position_def put_position_ok_def Let_def simp del: dir_contents.simps)
  next
    case None
    have new: "dir_contents root s (0, a, b) = None"
    proof (rule ccontr)
      assume "dir_contents root s (0, a, b) \<noteq> None"
      then obtain d t where "dir_contents root s (0, a, b) = Some (d, t)" by (auto simp del: dir_contents.simps)
      then have "mk_info 0 a b (of_nat (length d)) (Some t) \<in> set fs" using fs(2) by blast
      then show False using None unfolding find_None_iff by (metis mk_info_sel(2,3))
    qed
    have stored: "(\<exists>a. dir_contents root s (0, a, b') \<noteq> None) \<longleftrightarrow> (\<exists>f \<in> set fs. fi_max_txid f = b')" for b'
      by (simp only: Bex_def fs(2)) (fastforce simp del: dir_contents.simps)
    have empty: "fs = [] \<longleftrightarrow> (\<forall>a' b'. dir_contents root s (0, a', b') = None)"
      using stored by (metis list.set_intros(1) neq_Nil_conv empty_iff list.set(1))
    have newest: "(\<exists>a' b'. dir_contents root s (0, a', b') \<noteq> None \<and> a = b' + 1 \<and>
        (\<forall>a'' b''. dir_contents root s (0, a'', b'') \<noteq> None \<longrightarrow> b'' \<le> b')) \<longleftrightarrow> a = max_txid_of fs + 1" if "fs \<noteq> []"
    proof -
      obtain f where f: "f \<in> set fs" "fi_max_txid f = max_txid_of fs" by (rule max_txid_of_attained [OF \<open>fs \<noteq> []\<close>])
      have "b' = max_txid_of fs" if "dir_contents root s (0, a', b') \<noteq> None"
        "\<forall>a'' b''. dir_contents root s (0, a'', b'') \<noteq> None \<longrightarrow> b'' \<le> b'" for a' b'
        using that stored f max_txid_of_ge by (metis order_antisym)
      moreover have "b'' \<le> max_txid_of fs" if "dir_contents root s (0, a'', b'') \<noteq> None" for a'' b''
        using that stored max_txid_of_ge by metis
      ultimately show ?thesis using stored f by metis
    qed
    have "put_position_ok (dir_contents root s) 0 a b \<longleftrightarrow> fs = [] \<or> a = max_txid_of fs + 1"
      unfolding put_position_ok_def if_P [OF refl] using new empty newest by metis
    then show ?thesis using True None fs(1) new
      by (auto simp: check_position_def Let_def simp del: dir_contents.simps)
  qed
qed

lemma check_fence_decides:
  assumes inv: "dir_inv (mt_store m)" and run: "check_fence (dir_client root) opts m hs (Some (l, a, b)) = (r, m')"
  shows "if lease_held opts m hs \<or> \<not> put_position_ok (dir_contents root (mt_store m)) l a b then \<exists>msg. r = Err (FenceConflict msg)
    else \<exists>pass. r = Ok pass"
proof -
  obtain q m1 where q: "check_lease opts m hs = (q, m1)" by fastforce
  have store: "mt_store m1 = mt_store m" using same_but_clock_sel [OF check_lease_clock [OF q]] by simp
  show ?thesis using run q check_lease_held(1) [OF q] dir_check_position [OF inv, of root l a b]
    by (auto simp: check_fence_def store split: result.splits fence_reject.splits option.splits if_splits)
qed

lemma dir_write_status:
  assumes "put_write (dir_client root) m pass p = (resp, m')"
  shows "rs_status resp = (if HEADER_SIZE \<le> length (pp_spool p) \<and> (\<exists>h. header_decode (take HEADER_SIZE (pp_spool p)) = Ok h) then 200 else 400)"
  using assms
  by (cases "header_decode (take HEADER_SIZE (pp_spool p))")
    (auto simp: put_write_def dir_client_def dir_write_ltx_file_def read_exact_def Let_def split: if_splits)

lemma same_as_stored_iff:
  assumes "dir_contents root s (0, a, b) = Some (d, t)" and "length spool < 2 ^ 64"
  shows "same_as_stored (dir_client root) s (mk_info 0 a b (of_nat (length d)) (Some t)) spool = Ok (d = spool)"
proof (cases "unat (of_nat (length d) :: u64) = length spool")
  case True
  have "unat (of_nat (length d) :: u64) \<le> length d" by (simp add: unat_of_nat)
  then have "prefix d spool \<longleftrightarrow> d = spool" using True by (auto simp: prefix_def)
  then show ?thesis using True assms
    by (auto simp: same_as_stored_def stored_matches_prefix dir_client_def dir_open_ltx_file_def)
next
  case False
  then have "d \<noteq> spool" using assms(2) by (auto simp: unat_of_nat)
  then show ?thesis using False by (simp add: same_as_stored_def)
qed

lemma dir_put_commit_status:
  assumes inv: "dir_inv (mt_store m)" and run: "put_commit (dir_client root) opts m p = (resp, m')"
    and free: "\<not> lease_held opts m (pp_headers p)" and small: "length (pp_spool p) < 2 ^ 64"
  shows "rs_status resp = put_status (dir_contents root (mt_store m)) (pp_level p) (pp_min_txid p) (pp_max_txid p) (pp_spool p) False"
proof -
  let ?C = "dir_contents root (mt_store m)" and ?a = "pp_min_txid p" and ?b = "pp_max_txid p"
  obtain r m1 where r: "check_fence (dir_client root) opts m (pp_headers p) (Some (pp_level p, ?a, ?b)) = (r, m1)" by fastforce
  have store: "mt_store m1 = mt_store m" using same_but_clock_sel [OF check_fence_clock [OF r]] by simp
  show ?thesis
  proof (cases "put_position_ok ?C (pp_level p) ?a ?b")
    case False
    then show ?thesis using check_fence_decides [OF inv r] run r free
      by (auto simp: put_commit_def put_status_def fence_reject_response_def)
  next
    case True
    then obtain pass where pass: "r = Ok pass" using check_fence_decides [OF inv r] free by auto
    note pos = check_fence_Ok(2) [OF r [unfolded pass] refl]
    show ?thesis
    proof (cases "fp_existing_l0 pass")
      case None
      then have "put_write (dir_client root) m1 pass p = (resp, m')" using run r pass by (simp add: put_commit_def)
      from dir_write_status [OF this] show ?thesis using True dir_check_position [OF inv, of root "pp_level p" ?a ?b] pos None
        by (auto simp: put_status_def simp del: dir_contents.simps)
    next
      case (Some f)
      then obtain d t where d: "pp_level p = 0" "?C (0, ?a, ?b) = Some (d, t)" "f = mk_info 0 ?a ?b (of_nat (length d)) (Some t)"
        using dir_check_position [OF inv, of root "pp_level p" ?a ?b] pos by (auto simp del: dir_contents.simps)
      have same: "same_as_stored (dir_client root) (mt_store m1) f (pp_spool p) = Ok (d = pp_spool p)"
        using same_as_stored_iff [OF d(2) small] by (simp add: store d(3))
      show ?thesis
      proof (cases "d = pp_spool p")
        case True
        then have "put_write (dir_client root) m1 pass p = (resp, m')" using run r pass Some same by (simp add: put_commit_def)
        from dir_write_status [OF this] show ?thesis using \<open>put_position_ok _ _ _ _\<close> d True
          by (simp add: put_status_def del: dir_contents.simps)
      next
        case False
        then show ?thesis using run r pass Some same \<open>put_position_ok _ _ _ _\<close> d
          by (auto simp: put_commit_def put_status_def simp del: dir_contents.simps)
      qed
    qed
  qed
qed

text \<open>C29: the decision on a \<open>PUT\<close>, over a directory bucket.  Whatever level, name and headers a \<open>PUT /ltx/level/name\<close>
  has, and whether its body arrives whole or is cut short (no read times out and the clock does not run
  backwards): without the token it is answered 401, on a read-only mount 403, under a name that is not a level
  and a range 404, while another writer's lease runs and is not taken over 409.  Otherwise the contents of the bucket
  decide: 409 at a position where the file may not go, 400 for a body that is cut short or does not start with
  an LTX header, 409 for other bytes in the place of a stored level-0 file, and 200 in all other cases.  With 200
  exactly this file is in the bucket with the bytes sent, and followers are notified; with any other status neither
  the bucket nor the notification counter changed.\<close>

theorem put_decision:
  assumes "handle (dir_client root) opts m req = (resp, m')" and "dir_inv (mt_store m)" and "mono (mt_clock m)"
    and "route_of (rq_method req) (rq_path req) = RPut lev name"
    and "body_pends (rq_body req) d (if torn then Some UnexpectedEof else None)" and "body_ticks (rq_body req) = 0"
    and "length d < 2 ^ 64"
  shows "rs_status resp =
     (if unauthorized opts (rq_headers req) then 401 else if \<not> mo_writable opts then 403
      else case (parse_level lev, parse_filename name) of
        (Some l, Some (a, b)) \<Rightarrow>
          if lease_held opts m (rq_headers req) then 409 else put_status (dir_contents root (mt_store m)) l a b d torn
      | _ \<Rightarrow> 404) \<and>
    (if rs_status resp = 200
     then mt_generation m' = mt_generation m + 1 \<and>
       (\<exists>l a b t. parse_level lev = Some l \<and> parse_filename name = Some (a, b) \<and>
          dir_contents root (mt_store m') = (dir_contents root (mt_store m))((l, a, b) \<mapsto> (d, t)))
     else mt_generation m' = mt_generation m \<and> mt_store m' = mt_store m)"
proof (cases "\<not> unauthorized opts (rq_headers req) \<and> mo_writable opts \<and> parse_level lev \<noteq> None \<and> parse_filename name \<noteq> None")
  case False
  then show ?thesis using assms(1,4)
    by (auto simp: handle_def accept_file_def put_begin_def read_only_response_def split: if_splits option.splits prod.splits)
next
  case True
  then obtain l a b where n: "parse_level lev = Some l" "parse_filename name = Some (a, b)" by auto
  let ?hs = "rq_headers req" and ?C = "dir_contents root (mt_store m)"
  have acc: "accept_file (dir_client root) opts m lev name ?hs (rq_body req) = (resp, m')"
    using assms(1,4) True by (simp add: handle_def)
  obtain r m1 where r: "check_fence (dir_client root) opts m ?hs (Some (l, a, b)) = (r, m1)" by fastforce
  note same = same_but_clock_sel [OF check_fence_clock [OF r]]
  show ?thesis
  proof (cases "lease_held opts m ?hs \<or> \<not> put_position_ok ?C l a b")
    case True
    then obtain msg where "r = Err (FenceConflict msg)" using check_fence_decides [OF assms(2) r] by auto
    then have "resp = response_error 409 msg" "m' = m1" using acc r n \<open>\<not> unauthorized _ _ \<and> _\<close>
      by (simp_all add: accept_file_def put_begin_def fence_reject_response_def)
    then show ?thesis using True same n \<open>\<not> unauthorized _ _ \<and> _\<close> by (auto simp: put_status_def)
  next
    case free: False
    then obtain pass where pass: "r = Ok pass" using check_fence_decides [OF assms(2) r] by auto
    obtain sp b' where sp: "spool_put_body [] (rq_body req) = (sp, b')" by fastforce
    note spool = spool_put_body_pends [OF assms(5) sp]
    show ?thesis
    proof (cases torn)
      case True
      then obtain e where "sp = Err e" "kind e = UnexpectedEof" using spool assms(6) by auto
      then have "rs_status resp = 400" "m' = m1" using acc r n pass sp \<open>\<not> unauthorized _ _ \<and> _\<close>
        by (auto simp: accept_file_def put_begin_def)
      then show ?thesis using True free same n \<open>\<not> unauthorized _ _ \<and> _\<close> by (simp add: put_status_def)
    next
      case False
      let ?p = "\<lparr>pp_level = l, pp_min_txid = a, pp_max_txid = b, pp_headers = ?hs, pp_spool = d\<rparr>"
      have "sp = Ok d" using spool assms(6) False by auto
      then have run: "put_commit (dir_client root) opts m1 ?p = (resp, m')" using acc r n pass sp \<open>\<not> unauthorized _ _ \<and> _\<close>
        by (simp add: accept_file_def put_begin_def)
      have "\<not> lease_held opts m1 ?hs"
        using check_lease_held(2) [OF check_fence_Ok(1) [OF r [unfolded pass]] assms(3)] free by blast
      then have "rs_status resp = put_status ?C l a b d False"
        using dir_put_commit_status [OF _ run] assms(2,7) same by (simp del: dir_contents.simps)
      moreover from run have "if rs_status resp = 200 then mt_generation m' = mt_generation m + 1 \<and>
          (\<exists>t. dir_contents root (mt_store m') = ?C((l, a, b) \<mapsto> (d, t)))
        else mt_generation m' = mt_generation m \<and> mt_store m' = mt_store m"
      proof (cases rule: put_commit_cases)
        case 1
        then show ?thesis using same same_but_clock_sel [OF 1(1)] by auto
      next
        case (2 info s')
        then show ?thesis using dir.write_ltx_file_Ok [of "mt_store m", OF assms(2), of root l a b d info s'] same
          by (auto simp: accepted_def)
      qed
      ultimately show ?thesis using n free False \<open>\<not> unauthorized _ _ \<and> _\<close> by (auto simp del: dir_contents.simps split: if_splits)
    qed
  qed
qed

theorem put_decision_witness:
  "\<exists>resp m' t. handle (dir_client []) (mount_options_default\<lparr>mo_writable := True\<rparr>) (mount_new [] (\<lambda>_. 0)) demo_put = (resp, m') \<and>
    rs_status resp = 200 \<and> dir_contents [] (mt_store m') (0, 1, 1) = Some (header_encode header_default, t)"
proof -
  let ?m = "mount_new [] (\<lambda>_. 0) :: file_system mount" and ?opts = "mount_options_default\<lparr>mo_writable := True\<rparr>"
  obtain resp m' where run: "handle (dir_client []) ?opts ?m demo_put = (resp, m')" by fastforce
  have dm: "rq_method demo_put = ''PUT''" "rq_headers demo_put = []"
    "rq_path demo_put = ''/ltx/0/0000000000000001-0000000000000001.ltx''" by (simp_all add: demo_put_def)
  have auth: "\<not> unauthorized ?opts []" "mo_writable ?opts" by (simp_all add: unauthorized_def mount_options_default_def)
  have empty: "dir_contents [] (mt_store ?m) k = None" for k by (cases k) (simp add: mount_new_def)
  have status: "put_status (dir_contents [] (mt_store ?m)) 0 1 1 (header_encode header_default) False = 200"
    using header_decode_encode_append [of header_default "[]"]
    by (simp add: put_status_def put_position_ok_def empty header_default_def del: dir_contents.simps)
  have small: "length (header_encode header_default) < 2 ^ 64" by (simp add: HEADER_SIZE_def)
  have route: "route_of (rq_method demo_put) (rq_path demo_put) = RPut ''0'' ''0000000000000001-0000000000000001.ltx''"
    by (simp add: dm demo_put_route)
  have inv: "dir_inv (mt_store ?m)" "mono (mt_clock ?m)" "\<not> lease_held ?opts ?m []"
    by (simp_all add: mount_new_def dir_inv_def mono_def lease_held_def)
  have pend: "body_pends (rq_body demo_put) (header_encode header_default) (if False then Some UnexpectedEof else None)"
    using demo_put_body(1) by simp
  note decided = put_decision [OF run inv(1,2) route pend demo_put_body(2) small, unfolded dm(2)]
  then have "rs_status resp = 200" by (simp add: auth demo_put_route inv(3) status del: dir_contents.simps)
  then show ?thesis using decided run by (auto simp: demo_put_route simp del: dir_contents.simps)
qed

text \<open>The fence compares only where a range starts: on an empty level 0 a name whose last transaction
  lies before its first is let through as well.\<close>

lemma fence_admits_reversed_range:
  "check_position (dir_client []) [] 0 5 2 = Ok None"
  by (simp add: check_position_def dir_eval Let_def)

end
