(* ===== verification/NotifyingClient.thy ===== *)
theory NotifyingClient
  imports MountProps
begin

text \<open>
  The tee of \<open>crates/liters-storage/src/http/mount.rs\<close> that a local writer pushes through: the inner client works on the
  mount's bucket, and every successful mutation wakes the mount's followers.
\<close>

definition notified :: "'s mount \<Rightarrow> 's \<Rightarrow> 's mount" where
  "notified m s' = notify (m\<lparr>mt_store := s'\<rparr>)"

definition notifying_client :: "'s client \<Rightarrow> 's mount client" where
  "notifying_client inner =
     \<lparr>ltx_files = (\<lambda>m. ltx_files inner (mt_store m)),
      open_ltx_file = (\<lambda>m. open_ltx_file inner (mt_store m)),
      write_ltx_file = (\<lambda>m level min_txid max_txid rd.
        and_then (write_ltx_file inner (mt_store m) level min_txid max_txid rd) (\<lambda>(info, s'). Ok (info, notified m s'))),
      delete_ltx_files = (\<lambda>m infos. and_then (delete_ltx_files inner (mt_store m) infos) (\<lambda>s'. Ok (notified m s'))),
      delete_all = (\<lambda>m. and_then (delete_all inner (mt_store m)) (\<lambda>s'. Ok (notified m s')))\<rparr>"

lemma notified_sel [simp]:
  "mt_store (notified m s') = s'" "mt_generation (notified m s') = mt_generation m + 1" "mt_lease (notified m s') = mt_lease m"
  by (simp_all add: notified_def notify_def)

text \<open>The tee is transparent: over the directory backend it keeps the whole contract of a backend.\<close>

interpretation tee: replica_client "notifying_client (dir_client root)" "\<lambda>m. dir_inv (mt_store m)" "\<lambda>m. dir_contents root (mt_store m)" for root
proof
  fix m :: "file_system mount" and level seek um assume "dir_inv (mt_store m)"
  then show "\<exists>fs. ltx_files (notifying_client (dir_client root)) m level seek um = Ok fs \<and> is_listing (dir_contents root (mt_store m)) level seek fs"
    using dir.ltx_files_listing by (simp add: notifying_client_def)
next
  fix m :: "file_system mount" and level a b assume "dir_inv (mt_store m)"
  then show "open_ltx_file (notifying_client (dir_client root)) m level a b 0 0 =
      (case dir_contents root (mt_store m) (level, a, b) of None \<Rightarrow> Err (NotFound level a b) | Some (d, t) \<Rightarrow> Ok d)"
    using dir.open_ltx_file_contents by (simp add: notifying_client_def)
next
  fix m :: "file_system mount" and level a b and rd :: reader and h
  assume "dir_inv (mt_store m)" "HEADER_SIZE \<le> length rd" "header_decode (take HEADER_SIZE rd) = Ok h"
  from dir.write_ltx_file_contents [OF this, of root level a b]
  show "\<exists>m'. write_ltx_file (notifying_client (dir_client root)) m level a b rd = Ok (mk_info level a b (of_nat (length rd)) (Some (header_time h)), m') \<and>
      dir_inv (mt_store m') \<and> dir_contents root (mt_store m') = (dir_contents root (mt_store m))((level, a, b) \<mapsto> (rd, header_time h))"
    by (auto simp: notifying_client_def)
next
  fix m :: "file_system mount" and level a b and rd :: reader and r
  assume "dir_inv (mt_store m)" "write_ltx_file (notifying_client (dir_client root)) m level a b rd = Ok r"
  then show "HEADER_SIZE \<le> length rd \<and> (\<exists>h. header_decode (take HEADER_SIZE rd) = Ok h)"
    using dir.write_ltx_file_checks [of "mt_store m" root level a b rd] by (auto simp: notifying_client_def and_then_eq_Ok)
next
  fix m :: "file_system mount" and infos assume "dir_inv (mt_store m)"
  from dir.delete_ltx_files_contents [OF this, of root infos]
  show "\<exists>m'. delete_ltx_files (notifying_client (dir_client root)) m infos = Ok m' \<and> dir_inv (mt_store m') \<and>
      dir_contents root (mt_store m') = dir_contents root (mt_store m) |` (- (info_key ` set infos))"
    by (auto simp: notifying_client_def)
qed

text \<open>Every successful mutation moves the generation that the followers wait on; a failed one leaves the mount alone.\<close>

lemma notifying_client_wakes:
  "write_ltx_file (notifying_client c) m level a b rd = Ok (info, m') \<Longrightarrow> mt_generation m' = mt_generation m + 1 \<and> mt_generation m' \<noteq> mt_generation m"
  "delete_ltx_files (notifying_client c) m infos = Ok m' \<Longrightarrow> mt_generation m' = mt_generation m + 1 \<and> mt_generation m' \<noteq> mt_generation m"
  "delete_all (notifying_client c) m = Ok m' \<Longrightarrow> mt_generation m' = mt_generation m + 1 \<and> mt_generation m' \<noteq> mt_generation m"
  by (auto simp: notifying_client_def and_then_eq_Ok)

end
