(* ===== verification/MountStream.thy ===== *)
theory MountStream
  imports MountProps
begin

text \<open>
  The follow feed of \<open>crates/liters-storage/src/http/mount.rs\<close> (\<open>LtxStreamBody\<close>).  The bucket changes while a stream
  runs: every backend call sees the next of a sequence of stores, and every look at the clock the next
  of its readings.  Waiting for a notification only lets time pass.  The loop runs for a given number of
  rounds; what it has written after any number of them is what the peer has to read.
\<close>

section \<open>State\<close>

record 's stream_run =
  sr_stores :: "nat \<Rightarrow> 's"
  sr_clock :: "nat \<Rightarrow> nat"
  sr_cancel :: cancel_token
  sr_sink :: sink
  sr_cursor :: txid
  sr_last_ping :: nat

type_synonym ('s, 'a) sr = "('s stream_run, io_error, 'a) action"

definition sr_write :: "byte list \<Rightarrow> ('s, unit) sr" where
  "sr_write bs r = (case write_all bs (sr_sink r) of (x, k) \<Rightarrow> (x, r\<lparr>sr_sink := k\<rparr>))"

definition sr_now :: "('s, nat) sr" where
  "sr_now r = (Ok (sr_clock r 0), r\<lparr>sr_clock := (\<lambda>i. sr_clock r (Suc i))\<rparr>)"

definition sr_poll :: "('s, bool) sr" where
  "sr_poll r = (case token_poll (sr_cancel r) of (b, t) \<Rightarrow> (Ok b, r\<lparr>sr_cancel := t\<rparr>))"

text \<open>The store of the next backend call.\<close>

definition sr_store :: "('s, 's) sr" where
  "sr_store r = (Ok (sr_stores r 0), r\<lparr>sr_stores := (\<lambda>i. sr_stores r (Suc i))\<rparr>)"

definition other_io :: "string \<Rightarrow> io_error" where
  "other_io msg = IoError OtherKind msg"

section \<open>Frames\<close>

definition ltx_line :: "file_info \<Rightarrow> string" where
  "ltx_line info = ''ltx '' @ fmt_dec (unat (fi_level info)) @ '' '' @ txid_display (fi_min_txid info) @ '' '' @
     txid_display (fi_max_txid info) @ '' '' @ fmt_dec (unat (fi_size info)) @ NL"

definition reset_line :: "txid \<Rightarrow> string" where "reset_line m = ''reset '' @ txid_display m @ NL"
definition gap_line :: "txid \<Rightarrow> string" where "gap_line m = ''gap '' @ txid_display m @ NL"
definition ping_line :: "txid \<Rightarrow> string" where "ping_line m = ''ping '' @ txid_display m @ NL"
definition preamble_line :: string where "preamble_line = ''liters-stream '' @ PROTOCOL_VERSION @ NL"

definition is_reset :: "txid \<Rightarrow> txid \<Rightarrow> bool" where
  "is_reset bmax cursor \<longleftrightarrow> \<not> txid_is_zero bmax \<and> bmax < cursor - 1"

text \<open>The copy loop of a frame: the token is read before every block.\<close>

function send_blocks :: "byte list \<Rightarrow> ('s, unit) sr" where
  "send_blocks d =
     m_bind sr_poll (\<lambda>cancelled.
       if cancelled then m_err (other_io ''stream cancelled'')
       else if d = [] then m_ok ()
       else m_then (sr_write (take COPY_BUF d)) (send_blocks (drop COPY_BUF d)))"
  by auto
termination by (relation "measure length") (auto simp: COPY_BUF_def)

declare send_blocks.simps [simp del]

definition send_ltx_frame :: "'s client \<Rightarrow> file_info \<Rightarrow> ('s, bool) sr" where
  "send_ltx_frame c info =
     m_bind sr_store (\<lambda>s.
       case open_ltx_file c s (fi_level info) (fi_min_txid info) (fi_max_txid info) 0 0 of
         Err (NotFound _ _ _) \<Rightarrow> m_ok False
       | Err e \<Rightarrow> m_err (other_io (storage_error_display e))
       | Ok rd \<Rightarrow>
           m_then (sr_write (to_bytes (ltx_line info)))
           (m_then (send_blocks (take (unat (fi_size info)) rd))
             (if length (take (unat (fi_size info)) rd) \<noteq> unat (fi_size info)
              then m_err (other_io ''ltx file shorter than its listed size'')
              else m_ok True)))"

section \<open>Rounds\<close>

fun stream_bucket_max :: "'s client \<Rightarrow> txid \<Rightarrow> u8 list \<Rightarrow> ('s, txid st_result) sr" where
  "stream_bucket_max c m [] = m_ok (Ok m)"
| "stream_bucket_max c m (level # levels) =
     m_bind sr_store (\<lambda>s.
       case ltx_files c s level 0 False of
         Err e \<Rightarrow> m_ok (Err e)
       | Ok fs \<Rightarrow>
           stream_bucket_max c (foldl (\<lambda>m info. if m < fi_max_txid info then fi_max_txid info else m) m fs) levels)"

definition all_levels :: "u8 list" where
  "all_levels = map of_nat [0..<Suc (unat SNAPSHOT_LEVEL)]"

text \<open>The files of a listing, up to a gap or a file that was deleted meanwhile.\<close>

fun send_files :: "'s client \<Rightarrow> bool \<Rightarrow> file_info list \<Rightarrow> ('s, bool \<times> txid option) sr" where
  "send_files c progressed [] = m_ok (progressed, None)"
| "send_files c progressed (info # infos) =
     m_bind m_get (\<lambda>r.
       if fi_max_txid info < sr_cursor r then send_files c progressed infos
       else if sr_cursor r < fi_min_txid info then m_ok (progressed, Some (fi_min_txid info))
       else m_bind (send_ltx_frame c info) (\<lambda>sent.
         if sent then
           m_then (m_mod (\<lambda>r. r\<lparr>sr_cursor := fi_max_txid info + 1\<rparr>)) (send_files c True infos)
         else m_ok (progressed, None)))"

definition set_last_ping :: "('s, unit) sr" where
  "set_last_ping = m_bind sr_now (\<lambda>t. m_mod (\<lambda>r. r\<lparr>sr_last_ping := t\<rparr>))"

definition send_reset :: "txid \<Rightarrow> ('s, bool) sr" where
  "send_reset m = m_then (sr_write (to_bytes (reset_line m))) (m_ok True)"

text \<open>The idle part of a round: the keepalive with its divergence check, or the wait.\<close>

definition ping_or_wait :: "'s client \<Rightarrow> nat \<Rightarrow> ('s, bool) sr" where
  "ping_or_wait c ping_interval =
     m_bind sr_now (\<lambda>t. m_bind m_get (\<lambda>r.
       if ping_interval - (t - sr_last_ping r) = 0 then
         m_bind (stream_bucket_max c 0 all_levels) (\<lambda>b.
           let bmax = (case b of Ok m \<Rightarrow> m | Err _ \<Rightarrow> 0) in
           if is_reset bmax (sr_cursor r) then send_reset bmax
           else m_then (sr_write (to_bytes (ping_line bmax))) (m_then set_last_ping (m_ok False)))
       else m_ok False))"

text \<open>One round; the result says whether the stream is over.\<close>

definition stream_round :: "'s client \<Rightarrow> nat \<Rightarrow> ('s, bool) sr" where
  "stream_round c ping_interval =
     m_bind sr_poll (\<lambda>cancelled.
       if cancelled then m_ok True
       else m_bind sr_store (\<lambda>s.
         case ltx_files c s 0 0 False of
           Err _ \<Rightarrow> m_err (other_io ''stream: backend list failed'')
         | Ok files \<Rightarrow>
             m_bind (send_files c False files) (\<lambda>(progressed, gap).
               case gap of
                 Some next \<Rightarrow> m_then (sr_write (to_bytes (gap_line next))) (m_ok True)
               | None \<Rightarrow>
                   if progressed then m_then set_last_ping (m_ok False)
                   else m_bind m_get (\<lambda>r.
                     if is_reset (max_txid_of files) (sr_cursor r) then
                       m_bind (stream_bucket_max c 0 all_levels) (\<lambda>b.
                         case b of
                           Ok m \<Rightarrow> if is_reset m (sr_cursor r) then send_reset m else ping_or_wait c ping_interval
                         | Err _ \<Rightarrow> ping_or_wait c ping_interval)
                     else ping_or_wait c ping_interval))))"

fun stream_rounds :: "'s client \<Rightarrow> nat \<Rightarrow> nat \<Rightarrow> ('s, bool) sr" where
  "stream_rounds c ping_interval 0 = m_ok False"
| "stream_rounds c ping_interval (Suc n) =
     m_bind (stream_round c ping_interval) (\<lambda>over. if over then m_ok True else stream_rounds c ping_interval n)"

definition write_to :: "'s client \<Rightarrow> nat \<Rightarrow> nat \<Rightarrow> ('s, bool) sr" where
  "write_to c ping_interval rounds =
     m_then (sr_write (to_bytes preamble_line))
     (m_bind (stream_bucket_max c 0 all_levels) (\<lambda>b. m_bind m_get (\<lambda>r.
       let go = m_then set_last_ping (stream_rounds c ping_interval rounds) in
       case b of
         Ok m \<Rightarrow> if is_reset m (sr_cursor r) then send_reset m else go
       | Err _ \<Rightarrow> go)))"

text \<open>The run of a stream body handed to the host.\<close>

definition stream_start :: "stream_body \<Rightarrow> (nat \<Rightarrow> 's) \<Rightarrow> (nat \<Rightarrow> nat) \<Rightarrow> sink \<Rightarrow> 's stream_run" where
  "stream_start sb stores clock k =
     \<lparr>sr_stores = stores, sr_clock = clock, sr_cancel = sb_cancel sb, sr_sink = k, sr_cursor = sb_cursor sb, sr_last_ping = 0\<rparr>"

end
