(* ===== verification/StreamProps.thy ===== *)
theory StreamProps
  imports MountStream
begin

text \<open>
  What the follow feed writes: the preamble and then frames that form a chain from the follower's position.
  Every \<open>ltx\<close> frame carries a whole file of level 0 that covers the next transaction, a \<open>ping\<close> is never
  evidence of divergence, and \<open>gap\<close> and \<open>reset\<close> end the feed.
\<close>

section \<open>Chains of frames\<close>

datatype frame = FLtx file_info "byte list" | FPing txid | FGap txid | FReset txid

fun frame_bytes :: "frame \<Rightarrow> byte list" where
  "frame_bytes (FLtx i d) = to_bytes (ltx_line i) @ d"
| "frame_bytes (FPing m) = to_bytes (ping_line m)"
| "frame_bytes (FGap m) = to_bytes (gap_line m)"
| "frame_bytes (FReset m) = to_bytes (reset_line m)"

fun chain :: "(file_info \<Rightarrow> byte list \<Rightarrow> bool) \<Rightarrow> txid \<Rightarrow> frame list \<Rightarrow> bool" where
  "chain G cur [] \<longleftrightarrow> True"
| "chain G cur (FLtx i d # fs) \<longleftrightarrow> G i d \<and> fi_min_txid i \<le> cur \<and> cur \<le> fi_max_txid i \<and> chain G (fi_max_txid i + 1) fs"
| "chain G cur (FPing m # fs) \<longleftrightarrow> \<not> is_reset m cur \<and> chain G cur fs"
| "chain G cur (FGap m # fs) \<longleftrightarrow> cur < m \<and> fs = []"
| "chain G cur (FReset m # fs) \<longleftrightarrow> is_reset m cur \<and> fs = []"

fun end_cursor :: "txid \<Rightarrow> frame list \<Rightarrow> txid" where
  "end_cursor cur [] = cur"
| "end_cursor cur (FLtx i d # fs) = end_cursor (fi_max_txid i + 1) fs"
| "end_cursor cur (_ # fs) = end_cursor cur fs"

fun is_over :: "frame \<Rightarrow> bool" where
  "is_over (FGap _) = True"
| "is_over (FReset _) = True"
| "is_over _ = False"

lemma frames_chain_append:
  "\<not> list_ex is_over fs \<Longrightarrow> chain G cur (fs @ gs) \<longleftrightarrow> chain G cur fs \<and> chain G (end_cursor cur fs) gs"
  by (induction G cur fs rule: chain.induct) auto

lemma end_cursor_append: "end_cursor cur (fs @ gs) = end_cursor (end_cursor cur fs) gs"
  by (induction cur fs rule: end_cursor.induct) auto

section \<open>What has been written\<close>

definition frames_bytes :: "byte list \<Rightarrow> frame list \<Rightarrow> byte list" where
  "frames_bytes base fs = base @ concat (map frame_bytes fs)"

lemma frames_bytes_snoc: "frames_bytes base (fs @ [f]) = frames_bytes base fs @ frame_bytes f"
  by (simp add: frames_bytes_def)

text \<open>The feed is open after \<open>fs\<close>, over after a last frame, or broken off.\<close>

definition wrote :: "(file_info \<Rightarrow> byte list \<Rightarrow> bool) \<Rightarrow> byte list \<Rightarrow> txid \<Rightarrow> 's stream_run \<Rightarrow> bool" where
  "wrote G base cur r \<longleftrightarrow>
     (\<exists>fs. s_out (sr_sink r) = frames_bytes base fs \<and> chain G cur fs \<and> \<not> list_ex is_over fs \<and> end_cursor cur fs = sr_cursor r)"

definition finished :: "(file_info \<Rightarrow> byte list \<Rightarrow> bool) \<Rightarrow> byte list \<Rightarrow> txid \<Rightarrow> 's stream_run \<Rightarrow> bool" where
  "finished G base cur r \<longleftrightarrow> (\<exists>fs. s_out (sr_sink r) = frames_bytes base fs \<and> chain G cur fs)"

definition broken_off :: "(file_info \<Rightarrow> byte list \<Rightarrow> bool) \<Rightarrow> byte list \<Rightarrow> txid \<Rightarrow> 's stream_run \<Rightarrow> bool" where
  "broken_off G base cur r \<longleftrightarrow> (\<exists>fs. prefix (s_out (sr_sink r)) (frames_bytes base fs) \<and> chain G cur fs)"

lemma wrote_finished: "wrote G base cur r \<Longrightarrow> finished G base cur r"
  by (auto simp: wrote_def finished_def)

lemma finished_broken_off: "finished G base cur r \<Longrightarrow> broken_off G base cur r"
  by (auto simp: finished_def broken_off_def)

definition env :: "('s \<Rightarrow> bool) \<Rightarrow> 's stream_run \<Rightarrow> bool" where
  "env ok r \<longleftrightarrow> (\<forall>i. ok (sr_stores r i))"

section \<open>Statements\<close>

lemma sr_write_run:
  assumes "sr_write bs r = (x, r')"
  obtains k where "r' = r\<lparr>sr_sink := k\<rparr>" "x = Ok ()" "s_out k = s_out (sr_sink r) @ bs"
  | k e n where "r' = r\<lparr>sr_sink := k\<rparr>" "x = Err e" "s_out k = s_out (sr_sink r) @ take n bs"
proof -
  obtain y k where k: "write_all bs (sr_sink r) = (y, k)" by fastforce
  then have r': "r' = r\<lparr>sr_sink := k\<rparr>" "x = y" using assms by (simp_all add: sr_write_def)
  show thesis
  proof (cases y)
    case (Ok u)
    then have "s_out k = s_out (sr_sink r) @ bs" using k by (auto simp: write_all_def split: option.splits if_splits)
    then show ?thesis using that(1) r' Ok by simp
  next
    case (Err e)
    then obtain n where "s_out k = s_out (sr_sink r) @ take n bs" using k by (auto simp: write_all_def split: option.splits if_splits)
    then show ?thesis using that(2) r' Err by simp
  qed
qed

text \<open>Everything but the sink, the token and the clock; the store sequence only moves on.\<close>

definition same_env :: "'s stream_run \<Rightarrow> 's stream_run \<Rightarrow> bool" where
  "same_env r r' \<longleftrightarrow> sr_cursor r' = sr_cursor r \<and> (\<forall>i. \<exists>j. sr_stores r' i = sr_stores r j)"

lemma same_env_refl [simp]: "same_env r r"
  by (auto simp: same_env_def)

lemma same_env_trans: "same_env r r' \<Longrightarrow> same_env r' r'' \<Longrightarrow> same_env r r''"
  unfolding same_env_def by metis

lemma same_env_env: "same_env r r' \<Longrightarrow> env ok r \<Longrightarrow> env ok r'"
  unfolding same_env_def env_def by metis

lemma same_env_updates [simp]:
  "same_env r (r\<lparr>sr_sink := k\<rparr>)" "same_env r (r\<lparr>sr_cancel := t\<rparr>)" "same_env r (r\<lparr>sr_clock := cl\<rparr>)"
  "same_env r (r\<lparr>sr_last_ping := p\<rparr>)" "same_env r (r\<lparr>sr_stores := (\<lambda>i. sr_stores r (Suc i))\<rparr>)"
  by (auto simp: same_env_def)

lemma sr_poll_run: "sr_poll r = (x, r') \<Longrightarrow> \<exists>b t. x = Ok b \<and> r' = r\<lparr>sr_cancel := t\<rparr>"
  by (auto simp: sr_poll_def split: prod.splits)

lemma send_blocks_run:
  assumes "send_blocks d r = (x, r')"
  shows "same_env r r' \<and> (\<exists>p. prefix p d \<and> s_out (sr_sink r') = s_out (sr_sink r) @ p \<and> (\<forall>u. x = Ok u \<longrightarrow> p = d))"
  using assms
proof (induction d arbitrary: r rule: send_blocks.induct)
  case (1 d)
  obtain y r1 where y: "sr_poll r = (y, r1)" by fastforce
  then obtain b t where b: "y = Ok b" "r1 = r\<lparr>sr_cancel := t\<rparr>" using sr_poll_run by blast
  show ?case
  proof (cases "b \<or> d = []")
    case True
    then have "r' = r1" "\<forall>u. x = Ok u \<longrightarrow> d = []" using "1.prems" y b
      by (auto simp: send_blocks.simps [of d] m_bind_def split: if_splits)
    then show ?thesis using b(2) by (intro conjI exI [of _ "[]"]) auto
  next
    case False
    obtain z r2 where z: "sr_write (take COPY_BUF d) r1 = (z, r2)" by fastforce
    then show ?thesis
    proof (cases rule: sr_write_run)
      case (1 k)
      then have run: "send_blocks (drop COPY_BUF d) r2 = (x, r')" using "1.prems" y b False z
        by (subst (asm) send_blocks.simps) (simp add: m_bind_def)
      obtain p where p: "same_env r2 r'" "prefix p (drop COPY_BUF d)" "s_out (sr_sink r') = s_out (sr_sink r2) @ p"
          "\<forall>u. x = Ok u \<longrightarrow> p = drop COPY_BUF d"
        using "1.IH" [OF _ _ run, of False] False by auto
      have "same_env r r2" using 1 b(2) by (auto simp: same_env_def)
      moreover have "prefix (take COPY_BUF d @ p) d" using p(2) by (metis append_take_drop_id same_prefix_prefix)
      moreover have "s_out (sr_sink r') = s_out (sr_sink r) @ (take COPY_BUF d @ p)" using p(3) 1 b(2) by simp
      moreover have "\<forall>u. x = Ok u \<longrightarrow> take COPY_BUF d @ p = d" using p(4) by auto
      ultimately show ?thesis using same_env_trans p(1) by blast
    next
      case (2 k e n)
      then have "x = Err e" "r' = r2" using "1.prems" y b False z by (auto simp: send_blocks.simps [of d] m_bind_def)
      moreover have "prefix (take n (take COPY_BUF d)) d" by (simp add: take_is_prefix)
      moreover have "same_env r r2" using 2 b(2) by (auto simp: same_env_def)
      ultimately show ?thesis using 2 b(2) by auto
    qed
  qed
qed

text \<open>Statements that write nothing.\<close>

definition quiet :: "('s, 'a) sr \<Rightarrow> bool" where
  "quiet m \<longleftrightarrow> (\<forall>r x r'. m r = (x, r') \<longrightarrow> same_env r r' \<and> sr_sink r' = sr_sink r)"

lemma quietD: "quiet m \<Longrightarrow> m r = (x, r') \<Longrightarrow> same_env r r' \<and> sr_sink r' = sr_sink r"
  by (auto simp: quiet_def)

lemma quiet_basic: "quiet (m_ok x)" "quiet (m_err e)" "quiet m_get" "quiet sr_poll" "quiet sr_now" "quiet sr_store" "quiet (Pair y)"
  by (auto simp: quiet_def sr_now_def sr_store_def dest: sr_poll_run)

lemma quiet_bind: "quiet m \<Longrightarrow> (\<And>x. quiet (f x)) \<Longrightarrow> quiet (m_bind m f)"
  unfolding quiet_def
proof (intro allI impI)
  fix r x r'
  assume m: "\<forall>r x r'. m r = (x, r') \<longrightarrow> same_env r r' \<and> sr_sink r' = sr_sink r"
    and f: "\<And>x. \<forall>r y r'. f x r = (y, r') \<longrightarrow> same_env r r' \<and> sr_sink r' = sr_sink r" and run: "m_bind m f r = (x, r')"
  obtain y r1 where y: "m r = (y, r1)" by fastforce
  show "same_env r r' \<and> sr_sink r' = sr_sink r"
  proof (cases y)
    case (Err e)
    then show ?thesis using run y m by (auto simp: m_bind_def)
  next
    case (Ok v)
    then have "f v r1 = (x, r')" using run y by (simp add: m_bind_def)
    then show ?thesis using y m f same_env_trans by metis
  qed
qed

lemma quiet_bucket_max: "quiet (stream_bucket_max c m levels)"
  by (induction c m levels rule: stream_bucket_max.induct) (auto intro!: quiet_basic quiet_bind split: result.splits)

lemma quiet_last_ping: "quiet set_last_ping"
  unfolding set_last_ping_def by (intro quiet_bind quiet_basic) (auto simp: quiet_def)

lemma wrote_quiet: "same_env r r' \<Longrightarrow> sr_sink r' = sr_sink r \<Longrightarrow> wrote G base cur r \<Longrightarrow> wrote G base cur r'"
  by (simp add: wrote_def same_env_def)

lemma triple_quiet:
  assumes "quiet m"
  shows "triple (\<lambda>r. env ok r \<and> wrote G base cur r \<and> sr_cursor r = c0) m (\<lambda>_ r. env ok r \<and> wrote G base cur r \<and> sr_cursor r = c0) (broken_off G base cur)"
proof (rule tripleI)
  fix s x s' assume P: "env ok s \<and> wrote G base cur s \<and> sr_cursor s = c0" and run: "m s = (Ok x, s')"
  note q = quietD [OF assms run]
  from q P show "env ok s' \<and> wrote G base cur s' \<and> sr_cursor s' = c0"
    using same_env_env [of s s' ok] wrote_quiet [of s s'] by (auto simp: same_env_def)
next
  fix s e s' assume P: "env ok s \<and> wrote G base cur s \<and> sr_cursor s = c0" and run: "m s = (Err e, s')"
  from quietD [OF assms run] P wrote_quiet [of s s'] show "broken_off G base cur s'"
    by (blast intro: finished_broken_off wrote_finished)
qed

text \<open>Writing one more frame line.\<close>

lemma triple_frame:
  fixes ok :: "'s \<Rightarrow> bool"
  assumes "chain G c0 [f]" and "frame_bytes f = bs"
  shows "triple (\<lambda>r. env ok r \<and> wrote G base cur r \<and> sr_cursor r = c0) (sr_write bs)
    (\<lambda>_ r. env ok r \<and> sr_cursor r = c0 \<and> finished G base cur r \<and> (\<not> is_over f \<and> end_cursor c0 [f] = c0 \<longrightarrow> wrote G base cur r)) (broken_off G base cur)"
proof -
  have step: "(\<exists>fs. frames_bytes base fs = s_out (sr_sink s) @ bs \<and> chain G cur fs \<and>
      (\<not> is_over f \<and> end_cursor c0 [f] = c0 \<longrightarrow> \<not> list_ex is_over fs \<and> end_cursor cur fs = c0))"
    if P: "env ok s \<and> wrote G base cur s \<and> sr_cursor s = c0" for s :: "'s stream_run"
  proof -
    from P obtain fs where fs: "s_out (sr_sink s) = frames_bytes base fs" "chain G cur fs" "\<not> list_ex is_over fs" "end_cursor cur fs = c0"
      by (auto simp: wrote_def)
    then show ?thesis using assms by (intro exI [of _ "fs @ [f]"]) (auto simp: frames_bytes_snoc frames_chain_append end_cursor_append)
  qed
  show ?thesis
  proof (rule tripleI)
    fix s :: "'s stream_run" and x s'
    assume P: "env ok s \<and> wrote G base cur s \<and> sr_cursor s = c0" and run: "sr_write bs s = (Ok x, s')"
    from run obtain k where k: "s' = s\<lparr>sr_sink := k\<rparr>" "s_out k = s_out (sr_sink s) @ bs" by (cases rule: sr_write_run) auto
    from step [OF P] obtain fs where "frames_bytes base fs = s_out k" "chain G cur fs"
        "\<not> is_over f \<and> end_cursor c0 [f] = c0 \<longrightarrow> \<not> list_ex is_over fs \<and> end_cursor cur fs = c0" using k(2) by auto
    then show "env ok s' \<and> sr_cursor s' = c0 \<and> finished G base cur s' \<and> (\<not> is_over f \<and> end_cursor c0 [f] = c0 \<longrightarrow> wrote G base cur s')"
      using P k unfolding finished_def wrote_def by (auto simp: env_def intro!: exI [of _ fs])
  next
    fix s :: "'s stream_run" and e s'
    assume P: "env ok s \<and> wrote G base cur s \<and> sr_cursor s = c0" and run: "sr_write bs s = (Err e, s')"
    from run obtain k n where k: "s' = s\<lparr>sr_sink := k\<rparr>" "s_out k = s_out (sr_sink s) @ take n bs" by (cases rule: sr_write_run) auto
    from step [OF P] obtain fs where "frames_bytes base fs = s_out (sr_sink s) @ bs" "chain G cur fs" by auto
    then show "broken_off G base cur s'"
      using k unfolding broken_off_def by (auto simp: take_is_prefix intro!: exI [of _ fs])
  qed
qed

lemma triple_at:
  assumes "\<And>v. C v \<Longrightarrow> triple (\<lambda>s. P s \<and> f s = v) m Q E"
  shows "triple (\<lambda>s. P s \<and> C (f s)) m Q E"
proof (rule tripleI)
  fix s x s' assume s: "P s \<and> C (f s)" and run: "m s = (Ok x, s')"
  show "Q x s'" by (rule tripleD(1) [OF assms [of "f s"] _ run]) (use s in auto)
next
  fix s e s' assume s: "P s \<and> C (f s)" and run: "m s = (Err e, s')"
  show "E s'" by (rule tripleD(2) [OF assms [of "f s"] _ run]) (use s in auto)
qed

section \<open>Buckets whose files do not change under their names\<close>

text \<open>A genuine file of level 0, with its exact size.\<close>

definition genuine_in :: "('s \<Rightarrow> bool) \<Rightarrow> ('s \<Rightarrow> contents) \<Rightarrow> file_info \<Rightarrow> byte list \<Rightarrow> bool" where
  "genuine_in ok contents i d \<longleftrightarrow>
     fi_level i = 0 \<and> unat (fi_size i) = length d \<and> (\<exists>s t. ok s \<and> contents s (info_key i) = Some (d, t))"

locale bucket_history = bucket_client c inv contents for c :: "'s client" and inv contents +
  fixes ok :: "'s \<Rightarrow> bool"
  assumes ok_inv: "ok s \<Longrightarrow> inv s"
    and stable: "ok s \<Longrightarrow> ok s' \<Longrightarrow> contents s k = Some (d, t) \<Longrightarrow> contents s' k = Some (d', t') \<Longrightarrow> d = d'"
    and small: "ok s \<Longrightarrow> contents s k = Some (d, t) \<Longrightarrow> length d < 2 ^ 64"
begin

abbreviation genuine :: "file_info \<Rightarrow> byte list \<Rightarrow> bool" where
  "genuine \<equiv> genuine_in ok contents"

abbreviation running :: "byte list \<Rightarrow> txid \<Rightarrow> txid \<Rightarrow> 's stream_run \<Rightarrow> bool" where
  "running base cur c0 \<equiv> \<lambda>r. env ok r \<and> wrote genuine base cur r \<and> sr_cursor r = c0"

lemma listed_file:
  assumes "ok s" and "ltx_files c s 0 0 False = Ok files" and "info \<in> set files"
  obtains d t where "contents s (info_key info) = Some (d, t)" "fi_level info = 0" "unat (fi_size info) = length d"
    "info = mk_info 0 (fi_min_txid info) (fi_max_txid info) (of_nat (length d)) (Some t)"
proof -
  have "is_listing (contents s) 0 0 files" by (rule ltx_files_Ok [OF ok_inv [OF assms(1)] assms(2)])
  then obtain a b d t where i: "info = mk_info 0 a b (of_nat (length d)) (Some t)" "contents s (0, a, b) = Some (d, t)"
    using assms(3) by (auto simp: is_listing_def)
  moreover have "unat (of_nat (length d) :: u64) = length d" using small [OF assms(1) i(2)] by (simp add: unat_of_nat)
  ultimately show thesis using that by simp
qed

lemma send_ltx_frame_triple:
  assumes "ok s0" and "ltx_files c s0 0 0 False = Ok files" and "info \<in> set files"
    and "fi_min_txid info \<le> c0" and "c0 \<le> fi_max_txid info"
  shows "triple (running base cur c0) (send_ltx_frame c info)
    (\<lambda>sent r. if sent then env ok r \<and> wrote genuine base cur (r\<lparr>sr_cursor := fi_max_txid info + 1\<rparr>) else running base cur c0 r)
    (broken_off genuine base cur)"
proof -
  obtain d t where d: "contents s0 (info_key info) = Some (d, t)" "fi_level info = 0" "unat (fi_size info) = length d"
    by (rule listed_file [OF assms(1-3)])
  have key: "info_key info = (fi_level info, fi_min_txid info, fi_max_txid info)" by (simp add: info_key_def)
  have step: "(case send_ltx_frame c info r of
      (Ok sent, r') \<Rightarrow> if sent then env ok r' \<and> wrote genuine base cur (r'\<lparr>sr_cursor := fi_max_txid info + 1\<rparr>) else running base cur c0 r'
    | (Err e, r') \<Rightarrow> broken_off genuine base cur r')" if P: "running base cur c0 r" for r
  proof -
    define r1 where "r1 = r\<lparr>sr_stores := (\<lambda>i. sr_stores r (Suc i))\<rparr>"
    have env1: "env ok r1" "sr_sink r1 = sr_sink r" "sr_cursor r1 = c0" using P by (auto simp: env_def r1_def)
    have ok: "ok (sr_stores r 0)" using P by (simp add: env_def)
    obtain fs where fs: "s_out (sr_sink r) = frames_bytes base fs" "chain genuine cur fs" "\<not> list_ex is_over fs" "end_cursor cur fs = c0"
      using P by (auto simp: wrote_def)
    have wrote1: "wrote genuine base cur r1" using fs env1 by (auto simp: wrote_def)
    show ?thesis
    proof (cases "open_ltx_file c (sr_stores r 0) (fi_level info) (fi_min_txid info) (fi_max_txid info) 0 0")
      case (Err e)
      then have "send_ltx_frame c info r = (Ok False, r1) \<or> (\<exists>e'. send_ltx_frame c info r = (Err e', r1))"
        by (cases e) (auto simp: send_ltx_frame_def m_bind_def sr_store_def r1_def)
      then show ?thesis using env1 wrote1 finished_broken_off wrote_finished by fastforce
    next
      case (Ok rd)
      then have "rd = d" using open_ltx_file_Ok [OF ok_inv [OF ok] Ok] stable [OF ok assms(1)] d(1) key by fastforce
      then have all: "take (unat (fi_size info)) rd = d" "length d = unat (fi_size info)" using d(3) by simp_all
      have gen: "genuine info d" using d assms(1) by (auto simp: genuine_in_def)
      then have "chain genuine c0 [FLtx info d]" using assms(4,5) by simp
      then have chain: "chain genuine cur (fs @ [FLtx info d])" using fs by (simp add: frames_chain_append)
      have out: "frames_bytes base (fs @ [FLtx info d]) = s_out (sr_sink r1) @ to_bytes (ltx_line info) @ d"
        using fs(1) env1 by (simp add: frames_bytes_snoc)
      obtain x r2 where x: "sr_write (to_bytes (ltx_line info)) r1 = (x, r2)" by fastforce
      from x show ?thesis
      proof (cases rule: sr_write_run)
        case (2 k e n)
        then have "send_ltx_frame c info r = (Err e, r2)" using Ok x by (auto simp: send_ltx_frame_def m_bind_def sr_store_def r1_def)
        moreover have "prefix (s_out (sr_sink r2)) (frames_bytes base (fs @ [FLtx info d]))"
          using 2 unfolding out by (simp add: take_is_prefix prefix_prefix)
        ultimately show ?thesis using chain by (auto simp: broken_off_def)
      next
        case (1 k)
        obtain y r3 where y: "send_blocks d r2 = (y, r3)" by fastforce
        obtain q where q: "same_env r2 r3" "prefix q d" "s_out (sr_sink r3) = s_out (sr_sink r2) @ q" "\<forall>u. y = Ok u \<longrightarrow> q = d"
          using send_blocks_run [OF y] by blast
        show ?thesis
        proof (cases y)
          case (Err e)
          then have "send_ltx_frame c info r = (Err e, r3)" using Ok x 1 y all by (auto simp: send_ltx_frame_def m_bind_def sr_store_def r1_def)
          moreover have "prefix (s_out (sr_sink r3)) (frames_bytes base (fs @ [FLtx info d]))"
            using q(2,3) 1 unfolding out by simp
          ultimately show ?thesis using chain by (auto simp: broken_off_def)
        next
          case Ok2: (Ok u)
          then have run: "send_ltx_frame c info r = (Ok True, r3)" using Ok x 1 y all by (auto simp: send_ltx_frame_def m_bind_def sr_store_def r1_def)
          have "env ok r2" using 1 env1(1) by (simp add: env_def)
          then have "env ok r3" using same_env_env [OF q(1)] by simp
          moreover have "s_out (sr_sink r3) = frames_bytes base (fs @ [FLtx info d])" using q(3,4) Ok2 1 unfolding out by simp
          moreover have "end_cursor cur (fs @ [FLtx info d]) = fi_max_txid info + 1" by (simp add: end_cursor_append)
          ultimately show ?thesis unfolding run wrote_def using chain fs(3) by (auto intro!: exI [of _ "fs @ [FLtx info d]"])
        qed
      qed
    qed
  qed
  show ?thesis unfolding triple_def by (intro allI impI) (rule step)
qed

abbreviation alive :: "byte list \<Rightarrow> txid \<Rightarrow> 's stream_run \<Rightarrow> bool" where
  "alive base cur \<equiv> \<lambda>r. env ok r \<and> wrote genuine base cur r"

lemma triple_alive:
  assumes "\<And>c0. triple (running base cur c0) m Q E"
  shows "triple (alive base cur) m Q E"
  using assms by (auto simp: triple_def)

lemma send_files_triple:
  assumes "ok s0" and "ltx_files c s0 0 0 False = Ok files" and "set infos \<subseteq> set files"
  shows "triple (alive base cur) (send_files c progressed infos)
    (\<lambda>(_, gap) r. alive base cur r \<and> (case gap of None \<Rightarrow> True | Some n \<Rightarrow> sr_cursor r < n)) (broken_off genuine base cur)"
  using assms(3)
proof (induction infos arbitrary: progressed)
  case Nil
  show ?case by (simp only: send_files.simps) (rule triple_ok, auto)
next
  case (Cons info infos)
  have info: "info \<in> set files" "set infos \<subseteq> set files" using Cons.prems by auto
  note IH = Cons.IH [OF info(2)]
  show ?case unfolding send_files.simps
  proof (rule triple_get)
    fix r assume P: "alive base cur r"
    let ?P = "\<lambda>r'. alive base cur r' \<and> r' = r"
    let ?Q = "\<lambda>(_, gap) r. alive base cur r \<and> (case gap of None \<Rightarrow> True | Some n \<Rightarrow> sr_cursor r < n)"
    consider (old) "fi_max_txid info < sr_cursor r" | (gap) "\<not> fi_max_txid info < sr_cursor r" "sr_cursor r < fi_min_txid info"
      | (next_file) "\<not> fi_max_txid info < sr_cursor r" "\<not> sr_cursor r < fi_min_txid info" by blast
    then show "triple ?P (if fi_max_txid info < sr_cursor r then send_files c progressed infos
        else if sr_cursor r < fi_min_txid info then m_ok (progressed, Some (fi_min_txid info))
        else m_bind (send_ltx_frame c info) (\<lambda>sent. if sent then m_then (m_mod (\<lambda>r. r\<lparr>sr_cursor := fi_max_txid info + 1\<rparr>)) (send_files c True infos)
             else m_ok (progressed, None))) ?Q (broken_off genuine base cur)"
    proof cases
      case old
      then show ?thesis by (simp only: if_True) (rule triple_weaken [OF IH], auto)
    next
      case gap
      then show ?thesis by (simp only: if_False if_True) (rule triple_ok, auto)
    next
      case next_file
      then have range: "fi_min_txid info \<le> sr_cursor r" "sr_cursor r \<le> fi_max_txid info" by simp_all
      have frame: "triple ?P (send_ltx_frame c info)
          (\<lambda>sent r'. if sent then env ok r' \<and> wrote genuine base cur (r'\<lparr>sr_cursor := fi_max_txid info + 1\<rparr>) else running base cur (sr_cursor r) r')
          (broken_off genuine base cur)"
        by (rule triple_weaken [OF send_ltx_frame_triple [OF assms(1,2) info(1) range]]) auto
      have rest: "triple (\<lambda>r'. if sent then env ok r' \<and> wrote genuine base cur (r'\<lparr>sr_cursor := fi_max_txid info + 1\<rparr>) else running base cur (sr_cursor r) r')
          (if sent then m_then (m_mod (\<lambda>r. r\<lparr>sr_cursor := fi_max_txid info + 1\<rparr>)) (send_files c True infos) else m_ok (progressed, None))
          ?Q (broken_off genuine base cur)" for sent
      proof (cases sent)
        case True
        have "triple (\<lambda>r'. env ok r' \<and> wrote genuine base cur (r'\<lparr>sr_cursor := fi_max_txid info + 1\<rparr>))
            (m_mod (\<lambda>r. r\<lparr>sr_cursor := fi_max_txid info + 1\<rparr>)) (\<lambda>_. alive base cur) (broken_off genuine base cur)"
          by (rule tripleI) (auto simp: env_def)
        from triple_bind [OF this IH] True show ?thesis by simp
      next
        case False
        then show ?thesis by (simp only: if_False) (rule triple_ok, auto)
      qed
      from next_file triple_bind [OF frame rest] show ?thesis by (simp only: if_False)
    qed
  qed
qed

lemma send_reset_triple:
  assumes "is_reset m c0"
  shows "triple (running base cur c0) (send_reset m) (\<lambda>over r. if over then finished genuine base cur r else alive base cur r) (broken_off genuine base cur)"
  unfolding send_reset_def
  by (rule triple_bind [OF triple_frame [where f = "FReset m"]]) (use assms in \<open>auto intro!: triple_ok simp del: m_run\<close>)

lemma ping_or_wait_triple:
  "triple (running base cur c0) (ping_or_wait c p) (\<lambda>over r. if over then finished genuine base cur r else alive base cur r) (broken_off genuine base cur)"
  unfolding ping_or_wait_def
proof (rule triple_bind [OF triple_quiet [OF quiet_basic(5)]], rule triple_get)
  fix t r assume "running base cur c0 r"
  then have c0: "sr_cursor r = c0" by simp
  have ping: "triple (running base cur c0) (m_then (sr_write (to_bytes (ping_line m))) (m_then set_last_ping (m_ok False)))
      (\<lambda>over r. if over then finished genuine base cur r else alive base cur r) (broken_off genuine base cur)" if "\<not> is_reset m c0" for m
  proof (rule triple_bind)
    have "chain genuine c0 [FPing m]" using that by simp
    from triple_frame [OF this frame_bytes.simps(2)]
    show "triple (running base cur c0) (sr_write (to_bytes (ping_line m))) (\<lambda>_. running base cur c0) (broken_off genuine base cur)"
      by (rule triple_weaken) auto
    show "triple (running base cur c0) (m_then set_last_ping (m_ok False))
        (\<lambda>over r. if over then finished genuine base cur r else alive base cur r) (broken_off genuine base cur)"
      by (rule triple_bind [OF triple_quiet [OF quiet_last_ping]], rule triple_ok) simp
  qed
  show "triple (\<lambda>s'. running base cur c0 s' \<and> s' = r)
     (if p - (t - sr_last_ping r) = 0
      then m_bind (stream_bucket_max c 0 all_levels)
            (\<lambda>b. let bmax = case b of Ok m \<Rightarrow> m | Err _ \<Rightarrow> 0 in
                 if is_reset bmax (sr_cursor r) then send_reset bmax
                 else m_then (sr_write (to_bytes (ping_line bmax))) (m_then set_last_ping (m_ok False)))
      else m_ok False)
     (\<lambda>over r. if over then finished genuine base cur r else alive base cur r) (broken_off genuine base cur)"
  proof (rule triple_weaken [where P = "running base cur c0"], rule triple_if)
    show "triple (running base cur c0) (m_bind (stream_bucket_max c 0 all_levels)
            (\<lambda>b. let bmax = case b of Ok m \<Rightarrow> m | Err _ \<Rightarrow> 0 in
                 if is_reset bmax (sr_cursor r) then send_reset bmax
                 else m_then (sr_write (to_bytes (ping_line bmax))) (m_then set_last_ping (m_ok False))))
        (\<lambda>over r. if over then finished genuine base cur r else alive base cur r) (broken_off genuine base cur)"
    proof (rule triple_bind [OF triple_quiet [OF quiet_bucket_max]])
      fix b :: "txid st_result"
      let ?m = "case b of Ok m \<Rightarrow> m | Err _ \<Rightarrow> 0"
      show "triple (running base cur c0) (let bmax = ?m in if is_reset bmax (sr_cursor r) then send_reset bmax
           else m_then (sr_write (to_bytes (ping_line bmax))) (m_then set_last_ping (m_ok False)))
          (\<lambda>over r. if over then finished genuine base cur r else alive base cur r) (broken_off genuine base cur)"
        unfolding Let_def c0 by (cases "is_reset ?m c0") (simp_all only: if_True if_False send_reset_triple ping not_False_eq_True)
    qed
    show "triple (running base cur c0) (m_ok False) (\<lambda>over r. if over then finished genuine base cur r else alive base cur r) (broken_off genuine base cur)"
      by (rule triple_ok) simp
  qed auto
qed

abbreviation outcome :: "byte list \<Rightarrow> txid \<Rightarrow> bool \<Rightarrow> 's stream_run \<Rightarrow> bool" where
  "outcome base cur \<equiv> \<lambda>over r. if over then finished genuine base cur r else alive base cur r"

lemma idle_triple:
  "triple (running base cur c0)
     (if is_reset l0_max c0 then m_bind (stream_bucket_max c 0 all_levels) (\<lambda>b.
        case b of Ok m \<Rightarrow> if is_reset m c0 then send_reset m else ping_or_wait c p | Err _ \<Rightarrow> ping_or_wait c p)
      else ping_or_wait c p) (outcome base cur) (broken_off genuine base cur)"
proof (rule triple_if)
  show "triple (running base cur c0) (m_bind (stream_bucket_max c 0 all_levels) (\<lambda>b.
        case b of Ok m \<Rightarrow> if is_reset m c0 then send_reset m else ping_or_wait c p | Err _ \<Rightarrow> ping_or_wait c p))
      (outcome base cur) (broken_off genuine base cur)"
  proof (rule triple_bind [OF triple_quiet [OF quiet_bucket_max]])
    fix b :: "txid st_result"
    show "triple (running base cur c0) (case b of Ok m \<Rightarrow> if is_reset m c0 then send_reset m else ping_or_wait c p | Err _ \<Rightarrow> ping_or_wait c p)
        (outcome base cur) (broken_off genuine base cur)"
      by (cases b) (use send_reset_triple ping_or_wait_triple in auto)
  qed
qed (rule ping_or_wait_triple)

lemma stream_round_triple:
  "triple (alive base cur) (stream_round c p) (outcome base cur) (broken_off genuine base cur)"
  unfolding stream_round_def
proof (rule triple_bind)
  let ?Q = "outcome base cur" and ?E = "broken_off genuine base cur"
  show "triple (alive base cur) sr_poll (\<lambda>_. alive base cur) ?E"
    by (rule triple_alive) (rule triple_weaken [OF triple_quiet [OF quiet_basic(4)]], auto)
  fix cancelled
  show "triple (alive base cur) (if cancelled then m_ok True else m_bind sr_store (\<lambda>s.
         case ltx_files c s 0 0 False of
           Err _ \<Rightarrow> m_err (other_io ''stream: backend list failed'')
         | Ok files \<Rightarrow>
             m_bind (send_files c False files) (\<lambda>(progressed, gap).
               case gap of
                 Some next \<Rightarrow> m_then (sr_write (to_bytes (gap_line next))) (m_ok True)
               | None \<Rightarrow>
                   if progressed then m_then set_last_ping (m_ok False)
                   else m_bind m_get (\<lambda>r.
                     if is_reset (max_txid_of files) (sr_cursor r) then
                       m_bind (stream_bucket_max c 0 all_levels) (\<lambda>b.
                         case b of Ok m \<Rightarrow> if is_reset m (sr_cursor r) then send_reset m else ping_or_wait c p
                         | Err _ \<Rightarrow> ping_or_wait c p)
                     else ping_or_wait c p)))) ?Q ?E" (is "triple _ (if _ then _ else m_bind sr_store (\<lambda>s. ?body s)) _ _")
  proof (rule triple_if)
    show "triple (alive base cur) (m_ok True) ?Q ?E" by (rule triple_ok) (auto dest: wrote_finished)
    show "triple (alive base cur) (m_bind sr_store (\<lambda>s. ?body s)) ?Q ?E"
    proof (rule triple_bind)
      show "triple (alive base cur) sr_store (\<lambda>s r. alive base cur r \<and> ok s) ?E"
        by (rule tripleI) (auto simp: sr_store_def env_def wrote_def)
      fix s
      show "triple (\<lambda>r. alive base cur r \<and> ok s) (?body s) ?Q ?E"
      proof (cases "ltx_files c s 0 0 False")
        case (Err e)
        then show ?thesis by (simp only: result.case) (rule triple_err, auto intro: finished_broken_off wrote_finished)
      next
        case (Ok files)
        have tail: "triple (\<lambda>r. alive base cur r \<and> (case gap of None \<Rightarrow> True | Some n \<Rightarrow> sr_cursor r < n))
            (case gap of Some next \<Rightarrow> m_then (sr_write (to_bytes (gap_line next))) (m_ok True)
             | None \<Rightarrow> if progressed then m_then set_last_ping (m_ok False)
                 else m_bind m_get (\<lambda>r. if is_reset (max_txid_of files) (sr_cursor r) then
                       m_bind (stream_bucket_max c 0 all_levels) (\<lambda>b.
                         case b of Ok m \<Rightarrow> if is_reset m (sr_cursor r) then send_reset m else ping_or_wait c p
                         | Err _ \<Rightarrow> ping_or_wait c p)
                     else ping_or_wait c p)) ?Q ?E" for progressed gap
        proof (cases gap)
          case (Some n)
          have "triple (\<lambda>r. alive base cur r \<and> sr_cursor r = c0) (m_then (sr_write (to_bytes (gap_line n))) (m_ok True)) ?Q ?E" if "c0 < n" for c0
          proof (rule triple_bind)
            have "chain genuine c0 [FGap n]" using that by simp
            from triple_frame [OF this frame_bytes.simps(3)]
            show "triple (\<lambda>r. alive base cur r \<and> sr_cursor r = c0) (sr_write (to_bytes (gap_line n))) (\<lambda>_. finished genuine base cur) ?E"
              by (rule triple_weaken) auto
          qed (rule triple_ok, simp)
          from triple_at [where f = sr_cursor and C = "\<lambda>c0. c0 < n", OF this] show ?thesis unfolding Some option.case by simp
        next
          case None
          have "triple (running base cur c0) (m_then set_last_ping (m_ok False)) ?Q ?E" for c0
            by (rule triple_bind [OF triple_quiet [OF quiet_last_ping]], rule triple_ok) simp
          then have ping: "triple (alive base cur) (m_then set_last_ping (m_ok False)) ?Q ?E" by (rule triple_alive)
          have "triple (alive base cur) (m_bind m_get (\<lambda>r. if is_reset (max_txid_of files) (sr_cursor r) then
                       m_bind (stream_bucket_max c 0 all_levels) (\<lambda>b.
                         case b of Ok m \<Rightarrow> if is_reset m (sr_cursor r) then send_reset m else ping_or_wait c p
                         | Err _ \<Rightarrow> ping_or_wait c p)
                     else ping_or_wait c p)) ?Q ?E"
            by (rule triple_get) (rule triple_weaken [OF idle_triple], auto)
          with ping None show ?thesis by simp
        qed
        have "triple (\<lambda>r. alive base cur r \<and> ok s) (m_bind (send_files c False files) (\<lambda>(progressed, gap).
               case gap of
                 Some next \<Rightarrow> m_then (sr_write (to_bytes (gap_line next))) (m_ok True)
               | None \<Rightarrow>
                   if progressed then m_then set_last_ping (m_ok False)
                   else m_bind m_get (\<lambda>r.
                     if is_reset (max_txid_of files) (sr_cursor r) then
                       m_bind (stream_bucket_max c 0 all_levels) (\<lambda>b.
                         case b of Ok m \<Rightarrow> if is_reset m (sr_cursor r) then send_reset m else ping_or_wait c p
                         | Err _ \<Rightarrow> ping_or_wait c p)
                     else ping_or_wait c p))) ?Q ?E" if "ok s"
        proof (rule triple_bind)
          show "triple (\<lambda>r. alive base cur r \<and> ok s) (send_files c False files)
              (\<lambda>(_, gap) r. alive base cur r \<and> (case gap of None \<Rightarrow> True | Some n \<Rightarrow> sr_cursor r < n)) ?E"
            by (rule triple_weaken [OF send_files_triple [OF that Ok subset_refl]]) auto
        qed (simp only: case_prod_beta, rule tail)
        then show ?thesis unfolding Ok result.case by (cases "ok s") (assumption | simp add: triple_def)+
      qed
    qed
  qed
qed

lemma stream_rounds_triple:
  "triple (alive base cur) (stream_rounds c p n) (outcome base cur) (broken_off genuine base cur)"
proof (induction n)
  case 0
  show ?case unfolding stream_rounds.simps by (rule triple_ok) simp
next
  case (Suc n)
  show ?case unfolding stream_rounds.simps
  proof (rule triple_bind [OF stream_round_triple])
    fix over
    show "triple (outcome base cur over) (if over then m_ok True else stream_rounds c p n) (outcome base cur) (broken_off genuine base cur)"
      using Suc by (cases over) (auto simp del: m_run intro!: triple_ok)
  qed
qed

text \<open>The whole feed.\<close>

lemma write_to_frames:
  assumes "\<And>i. ok (stores i)" and run: "write_to c p n (stream_start sb stores clock \<lparr>s_out = [], s_room = room\<rparr>) = (res, r')"
  shows "\<exists>fs. chain genuine (sb_cursor sb) fs \<and> prefix (s_out (sr_sink r')) (frames_bytes (to_bytes preamble_line) fs) \<and>
    (\<forall>over. res = Ok over \<longrightarrow> s_out (sr_sink r') = frames_bytes (to_bytes preamble_line) fs)"
proof -
  let ?base = "to_bytes preamble_line" and ?cur = "sb_cursor sb"
  let ?r = "stream_start sb stores clock \<lparr>s_out = [], s_room = room\<rparr>"
  let ?Q = "outcome ?base ?cur" and ?E = "broken_off genuine ?base ?cur"
  have t: "triple (\<lambda>r. r = ?r) (write_to c p n) ?Q ?E"
    unfolding write_to_def
  proof (rule triple_bind)
    show "triple (\<lambda>r. r = ?r) (sr_write ?base) (\<lambda>_. running ?base ?cur ?cur) ?E"
    proof (rule tripleI)
      fix r x r1 assume r: "r = ?r" and "sr_write ?base r = (Ok x, r1)"
      then obtain k where "r1 = ?r\<lparr>sr_sink := k\<rparr>" "s_out k = ?base"
        by (auto elim!: sr_write_run simp: stream_start_def)
      then show "running ?base ?cur ?cur r1"
        using assms(1) by (auto simp: env_def wrote_def stream_start_def frames_bytes_def intro!: exI [of _ "[]"])
    next
      fix r e r1 assume r: "r = ?r" and "sr_write ?base r = (Err e, r1)"
      then obtain k m where "r1 = ?r\<lparr>sr_sink := k\<rparr>" "s_out k = take m ?base"
        by (auto elim!: sr_write_run simp: stream_start_def)
      then show "?E r1" by (auto simp: broken_off_def frames_bytes_def take_is_prefix intro!: exI [of _ "[]"])
    qed
    have go: "triple (running ?base ?cur ?cur) (m_then set_last_ping (stream_rounds c p n)) ?Q ?E"
    proof (rule triple_bind [OF triple_quiet [OF quiet_last_ping]])
      show "triple (running ?base ?cur ?cur) (stream_rounds c p n) ?Q ?E"
        by (rule triple_weaken [OF stream_rounds_triple]) auto
    qed
    show "triple (running ?base ?cur ?cur) (m_bind (stream_bucket_max c 0 all_levels) (\<lambda>b. m_bind m_get (\<lambda>r.
        let go = m_then set_last_ping (stream_rounds c p n) in
        case b of Ok m \<Rightarrow> if is_reset m (sr_cursor r) then send_reset m else go | Err _ \<Rightarrow> go))) ?Q ?E"
    proof (rule triple_bind [OF triple_quiet [OF quiet_bucket_max]], rule triple_get)
      fix b :: "txid st_result" and r assume "running ?base ?cur ?cur r"
      then have c0: "sr_cursor r = ?cur" by simp
      show "triple (\<lambda>s'. running ?base ?cur ?cur s' \<and> s' = r) (let go = m_then set_last_ping (stream_rounds c p n) in
        case b of Ok m \<Rightarrow> if is_reset m (sr_cursor r) then send_reset m else go | Err _ \<Rightarrow> go) ?Q ?E"
        unfolding c0 Let_def
      proof (rule triple_weaken [where P = "running ?base ?cur ?cur"])
        show "triple (running ?base ?cur ?cur) (case b of Ok m \<Rightarrow> if is_reset m ?cur then send_reset m else m_then set_last_ping (stream_rounds c p n)
            | Err _ \<Rightarrow> m_then set_last_ping (stream_rounds c p n)) ?Q ?E"
        proof (cases b)
          case (Ok m)
          then show ?thesis using go send_reset_triple [of m ?cur ?base ?cur] by (cases "is_reset m ?cur") (simp_all only: result.case if_True if_False)
        qed (simp only: result.case go)
      qed auto
    qed
  qed
  show ?thesis
  proof (cases res)
    case (Err e)
    from tripleD(2) [OF t refl run [unfolded Err]] Err show ?thesis by (auto simp: broken_off_def)
  next
    case (Ok over)
    from tripleD(1) [OF t refl run [unfolded Ok]] have "finished genuine ?base ?cur r'"
      by (auto split: if_splits dest: wrote_finished)
    then show ?thesis by (auto simp: finished_def)
  qed
qed

end

section \<open>The directory backend\<close>

text \<open>The states of a directory bucket in which every file has the bytes \<open>F\<close> gives for its name.\<close>

definition files_of :: "path \<Rightarrow> (file_key \<Rightarrow> byte list) \<Rightarrow> file_system \<Rightarrow> bool" where
  "files_of root F fs \<longleftrightarrow>
     dir_inv fs \<and> (\<forall>k d t. dir_contents root fs k = Some (d, t) \<longrightarrow> d = F k \<and> length d < 2 ^ 64)"

interpretation dirh: bucket_history "dir_client root" dir_inv "dir_contents root" "files_of root F" for root F
  by unfold_locales (unfold files_of_def, blast+)

end
