(* ===== verification/HttpStream.thy ===== *)
theory HttpStream
  imports StreamProps
begin

text \<open>
  The receiving side of the follow feed: \<open>StdNetBody\<close> and \<open>BodyReader\<close> of
  \<open>crates/liters-storage/src/http/transport.rs\<close> and \<open>HttpLtxStream\<close> of \<open>client.rs\<close>.  The sink of \<open>next\<close> is the
  caller's spool; the loop of one call runs on fuel.
\<close>

section \<open>Bodies of a transport\<close>

datatype body_outcome = GotBytes "byte list" | IdleTick | BodyEnd

definition std_net_body_read :: "bool \<Rightarrow> nat \<Rightarrow> body \<Rightarrow> (io_error, body_outcome) result \<times> body" where
  "std_net_body_read long_lived n b =
     (case body_read n b of
        (Ok bs, b') \<Rightarrow> (Ok (if bs = [] then BodyEnd else GotBytes bs), b')
      | (Err e, b') \<Rightarrow> if is_timeout e \<and> long_lived then (Ok IdleTick, b') else (Err e, b'))"

definition body_reader_read :: "bool \<Rightarrow> body read_fn" where
  "body_reader_read long_lived n b =
     (case std_net_body_read long_lived n b of
        (Err e, b') \<Rightarrow> (Err e, b')
      | (Ok (GotBytes bs), b') \<Rightarrow> (Ok bs, b')
      | (Ok BodyEnd, b') \<Rightarrow> (Ok [], b')
      | (Ok IdleTick, b') \<Rightarrow> (Err (IoError WouldBlock ''idle tick''), b'))"

text \<open>A body whose connection does not end in an everlasting timeout.\<close>

definition transport_pends :: "body \<Rightarrow> byte list \<Rightarrow> io_kind option \<Rightarrow> bool" where
  "transport_pends b d fin \<longleftrightarrow> body_pends b d fin \<and> fin \<noteq> Some WouldBlock \<and> fin \<noteq> Some TimedOut"

interpretation transport: byte_source "body_reader_read ll" transport_pends body_ticks for ll
proof
  fix r d fin n bs r'
  assume a: "transport_pends r d fin" "0 < n" "body_reader_read ll n r = (Ok bs, r')"
  then have "body_read n r = (Ok bs, r')"
    by (auto simp: body_reader_read_def std_net_body_read_def split: prod.splits result.splits if_splits body_outcome.splits)
  from body.rd_Ok [OF _ a(2) this, of d fin] a(1) show "length bs \<le> n \<and> body_ticks r' \<le> body_ticks r \<and>
      (\<exists>d'. d = bs @ d' \<and> transport_pends r' d' fin) \<and> (bs = [] \<longrightarrow> d = [] \<and> fin = None)" by (auto simp: transport_pends_def)
next
  fix r d fin n e r'
  assume a: "transport_pends r d fin" "0 < n" "body_reader_read ll n r = (Err e, r')"
  then obtain e0 where e0: "body_read n r = (Err e0, r')" "e = e0 \<or> is_timeout e0 \<and> e = IoError WouldBlock ''idle tick''"
    by (auto simp: body_reader_read_def std_net_body_read_def split: prod.splits result.splits if_splits body_outcome.splits)
  from body.rd_Err [OF _ a(2) e0(1), of d fin] a(1) e0(2)
  show "is_timeout e \<and> transport_pends r' d fin \<and> body_ticks r' < body_ticks r \<or> fin = Some (kind e)"
    by (auto simp: transport_pends_def is_timeout_def)
qed

section \<open>The stream\<close>

datatype http_stream_state = Preamble | Frame | InBody file_info nat

record http_ltx_stream =
  hs_body :: body
  hs_line :: "byte list"
  hs_state :: http_stream_state
  hs_last_byte :: nat
  hs_deadman :: nat
  hs_cancel :: cancel_token
  hs_clock :: "nat \<Rightarrow> nat"

definition hs_now :: "http_ltx_stream \<Rightarrow> nat \<times> http_ltx_stream" where
  "hs_now st = (hs_clock st 0, st\<lparr>hs_clock := (\<lambda>i. hs_clock st (Suc i))\<rparr>)"

definition hs_touch :: "http_ltx_stream \<Rightarrow> http_ltx_stream" where
  "hs_touch st = (case hs_now st of (t, st') \<Rightarrow> st'\<lparr>hs_last_byte := t\<rparr>)"

text \<open>The stream as \<open>open_ltx_stream\<close> hands it out.\<close>

definition http_stream_new :: "body \<Rightarrow> nat \<Rightarrow> cancel_token \<Rightarrow> (nat \<Rightarrow> nat) \<Rightarrow> http_ltx_stream" where
  "http_stream_new b dm cancel clock =
     hs_touch \<lparr>hs_body = b, hs_line = [], hs_state = Preamble, hs_last_byte = 0, hs_deadman = dm, hs_cancel = cancel, hs_clock = clock\<rparr>"

definition deadman :: "http_ltx_stream \<Rightarrow> unit st_result \<times> http_ltx_stream" where
  "deadman st =
     (case hs_now st of (t, st') \<Rightarrow>
        (if hs_deadman st \<le> t - hs_last_byte st
         then Err (Unavailable (''ltx stream stalled: no data for '' @ fmt_dec (hs_deadman st div 1000000000) @ ''s''))
         else Ok (), st'))"

definition stream_io_err :: "io_error \<Rightarrow> storage_error" where
  "stream_io_err e =
     (if kind e = InvalidData then StOther (''ltx stream: '' @ message e) else Unavailable (''ltx stream: '' @ message e))"

definition parse_frame_line :: "string \<Rightarrow> http_stream_state st_result" where
  "parse_frame_line line =
     (let protocol_err = StOther (''bad stream frame '' @ str_debug line) in
      case split_whitespace line of
        [w, lev, a, b, sz] \<Rightarrow>
          if w = ''ltx'' then
            and_then (ok_or (parse_dec 8 lev) protocol_err) (\<lambda>level.
            and_then (ok_or (txid_parse a) protocol_err) (\<lambda>min_txid.
            and_then (ok_or (txid_parse b) protocol_err) (\<lambda>max_txid.
            and_then (ok_or (parse_dec 64 sz) protocol_err) (\<lambda>size.
              Ok (InBody (mk_info (of_nat level) min_txid max_txid (of_nat size) None) size)))))
          else Err protocol_err
      | _ \<Rightarrow> Err protocol_err)"

text \<open>The control frames, then the \<open>ltx\<close> frame.\<close>

definition frame_of_line :: "string \<Rightarrow> (stream_event, http_stream_state) result st_result" where
  "frame_of_line line =
     (case strip_prefix ''ping '' line of
        Some rest \<Rightarrow> map_err (\<lambda>_. StOther (''bad ping frame '' @ str_debug line)) (and_then (ok_or (txid_parse (trim rest)) ()) (\<lambda>m. Ok (Err (EvIdle (Some m)))))
      | None \<Rightarrow>
      case strip_prefix ''gap '' line of
        Some rest \<Rightarrow> map_err (\<lambda>_. StOther (''bad gap frame '' @ str_debug line)) (and_then (ok_or (txid_parse (trim rest)) ()) (\<lambda>m. Ok (Err (EvGap m))))
      | None \<Rightarrow>
      case strip_prefix ''reset '' line of
        Some rest \<Rightarrow> map_err (\<lambda>_. StOther (''bad reset frame '' @ str_debug line)) (and_then (ok_or (txid_parse (trim rest)) ()) (\<lambda>m. Ok (Err (EvReset m))))
      | None \<Rightarrow> and_then (parse_frame_line line) (\<lambda>st. Ok (Ok st)))"

text \<open>One pass of the loop of \<open>next\<close>: a result, or another pass.\<close>

definition FRAME_BUF :: nat where "FRAME_BUF = 8192"

type_synonym pass = "stream_event st_result option \<times> byte list \<times> http_ltx_stream"

text \<open>What a line, or the end of the body, means in the states between frames.\<close>

definition after_line :: "byte list \<Rightarrow> http_ltx_stream \<Rightarrow> string option \<Rightarrow> pass" where
  "after_line spool st l =
     (case l of
        None \<Rightarrow>
          (Some (if hs_state st = Frame then Ok EvClosed else Err (Unavailable ''stream closed before preamble'')), spool, st)
      | Some line \<Rightarrow>
          if hs_state st = Preamble then
            (let expected = ''liters-stream '' @ PROTOCOL_VERSION in
             if line \<noteq> expected
             then (Some (Err (StOther (''bad stream preamble '' @ str_debug line @ '' (expected '' @ str_debug expected @ '')''))), spool, st)
             else (None, spool, st\<lparr>hs_state := Frame\<rparr>))
          else (case frame_of_line line of
             Err e \<Rightarrow> (Some (Err e), spool, st)
           | Ok (Err ev) \<Rightarrow> (Some (Ok ev), spool, st)
           | Ok (Ok s) \<Rightarrow> (None, spool, st\<lparr>hs_state := s\<rparr>)))"

definition line_pass :: "byte list \<Rightarrow> http_ltx_stream \<Rightarrow> pass" where
  "line_pass spool st0 =
     (case read_line (body_reader_read True) (hs_line st0) (hs_body st0) of (r, line, b) \<Rightarrow>
      let st = st0\<lparr>hs_body := b, hs_line := line\<rparr> in
      case r of
        Err e \<Rightarrow>
          if is_timeout e then
            (case deadman st of (Err e', st') \<Rightarrow> (Some (Err e'), spool, st') | (Ok _, st') \<Rightarrow> (Some (Ok (EvIdle None)), spool, st'))
          else (Some (Err (stream_io_err e)), spool, st)
      | Ok l \<Rightarrow> after_line spool (hs_touch st) l)"

definition body_pass :: "file_info \<Rightarrow> nat \<Rightarrow> byte list \<Rightarrow> http_ltx_stream \<Rightarrow> pass" where
  "body_pass info remaining spool st =
     (if remaining = 0 then (Some (Ok (EvLtx info)), spool, st\<lparr>hs_state := Frame\<rparr>)
      else case body_reader_read True (min remaining FRAME_BUF) (hs_body st) of
        (Ok bs, b) \<Rightarrow>
          if bs = [] then (Some (Err (Unavailable ''stream ended mid-frame'')), spool, st\<lparr>hs_body := b\<rparr>)
          else (None, spool @ bs, (hs_touch (st\<lparr>hs_body := b\<rparr>))\<lparr>hs_state := InBody info (remaining - length bs)\<rparr>)
      | (Err e, b) \<Rightarrow>
          if is_timeout e then
            (case deadman (st\<lparr>hs_body := b\<rparr>) of (Err e', st') \<Rightarrow> (Some (Err e'), spool, st') | (Ok _, st') \<Rightarrow> (None, spool, st'))
          else (Some (Err (stream_io_err e)), spool, st\<lparr>hs_body := b\<rparr>))"

definition next_pass :: "byte list \<Rightarrow> http_ltx_stream \<Rightarrow> pass" where
  "next_pass spool st =
     (case token_check (hs_cancel st) of
        Err e \<Rightarrow> (Some (Err e), spool, st)
      | Ok t \<Rightarrow>
          let st = st\<lparr>hs_cancel := t\<rparr> in
          (case hs_state st of InBody info remaining \<Rightarrow> body_pass info remaining spool st | _ \<Rightarrow> line_pass spool st))"

fun next_event :: "nat \<Rightarrow> byte list \<Rightarrow> http_ltx_stream \<Rightarrow> (stream_event st_result \<times> byte list \<times> http_ltx_stream) option" where
  "next_event 0 spool st = None"
| "next_event (Suc fuel) spool st =
     (case next_pass spool st of
        (Some r, spool', st') \<Rightarrow> Some (r, spool', st')
      | (None, spool', st') \<Rightarrow> next_event fuel spool' st')"

text \<open>A session: the results of successive calls up to the end of the feed, each call with an empty spool.\<close>

fun session :: "nat \<Rightarrow> nat \<Rightarrow> http_ltx_stream \<Rightarrow> (stream_event \<times> byte list) st_result list" where
  "session fuel 0 st = []"
| "session fuel (Suc n) st =
     (case next_event fuel [] st of
        None \<Rightarrow> []
      | Some (Err e, _, _) \<Rightarrow> [Err e]
      | Some (Ok ev, spool, st') \<Rightarrow> Ok (ev, spool) # (if ev = EvClosed then [] else session fuel n st'))"

section \<open>The lines of the feed\<close>

definition text_line :: "string \<Rightarrow> bool" where
  "text_line s \<longleftrightarrow> list_all (\<lambda>c. 0x20 \<le> (of_char c :: nat) \<and> (of_char c :: nat) \<le> 0x7E) s"

lemma text_line_simps [simp]:
  "text_line []" "text_line (c # s) \<longleftrightarrow> 0x20 \<le> (of_char c :: nat) \<and> (of_char c :: nat) \<le> 0x7E \<and> text_line s"
  "text_line (s @ t) \<longleftrightarrow> text_line s \<and> text_line t"
  by (auto simp: text_line_def)

lemma text_line_plain: "plain s \<Longrightarrow> text_line s"
  by (auto simp: text_line_def plain_def list_all_iff)

lemma text_line_finish:
  assumes "text_line s"
  shows "LF \<notin> set (to_bytes s)" and "finish_line (to_bytes s) = Ok (Some s)"
proof -
  have b: "10 \<noteq> (of_char c :: nat)" "13 \<noteq> (of_char c :: nat)" if "c \<in> set s" for c
    using assms that by (auto simp: text_line_def list_all_iff)
  have byte: "unat (of_nat (of_char c) :: byte) = of_char c" for c :: char by (rule unat_byte_of_char)
  show "LF \<notin> set (to_bytes s)"
  proof
    assume "LF \<in> set (to_bytes s)"
    then obtain c where "c \<in> set s" "LF = of_nat (of_char c)" by (auto simp: to_bytes_def)
    then show False using b(1) byte [of c] by simp
  qed
  have "to_bytes s \<noteq> [] \<Longrightarrow> last (to_bytes s) \<noteq> CR"
  proof
    assume ne: "to_bytes s \<noteq> []" and cr: "last (to_bytes s) = CR"
    then have "last (to_bytes s) \<in> set (to_bytes s)" by (rule_tac last_in_set)
    then obtain c where "c \<in> set s" "CR = of_nat (of_char c)" using cr by (auto simp: to_bytes_def)
    then show False using b(2) byte [of c] by simp
  qed
  moreover have "is_ascii s" using assms by (auto simp: text_line_def is_ascii_def list_all_iff)
  ultimately show "finish_line (to_bytes s) = Ok (Some s)" by (auto simp: finish_line_def from_utf8_ascii)
qed

lemma length_txid [simp]: "length (txid_display t) = 16"
proof -
  have "unat t < 2 ^ LENGTH(64)" by (rule unsigned_less)
  then show ?thesis by (simp add: txid_display_def length_fmt_hex0)
qed

lemma length_dec_u64: "n < 2 ^ 64 \<Longrightarrow> length (fmt_dec n) \<le> 20"
  using length_digits_of_le [of 10 20 n] by (simp add: fmt_dec_def)

fun frame_str :: "frame \<Rightarrow> string" where
  "frame_str (FLtx i d) = ''ltx'' @ CHR '' '' # fmt_dec (unat (fi_level i)) @ CHR '' '' # txid_display (fi_min_txid i) @ CHR '' '' #
     txid_display (fi_max_txid i) @ CHR '' '' # fmt_dec (unat (fi_size i))"
| "frame_str (FPing m) = ''ping '' @ txid_display m"
| "frame_str (FGap m) = ''gap '' @ txid_display m"
| "frame_str (FReset m) = ''reset '' @ txid_display m"

fun frame_data :: "frame \<Rightarrow> byte list" where
  "frame_data (FLtx i d) = d"
| "frame_data _ = []"

fun frame_event :: "frame \<Rightarrow> stream_event" where
  "frame_event (FLtx i d) = EvLtx (mk_info (fi_level i) (fi_min_txid i) (fi_max_txid i) (fi_size i) None)"
| "frame_event (FPing m) = EvIdle (Some m)"
| "frame_event (FGap m) = EvGap m"
| "frame_event (FReset m) = EvReset m"

lemma frame_bytes_str: "frame_bytes f = to_bytes (frame_str f) @ LF # frame_data f"
  by (cases f) (simp_all add: ltx_line_def ping_line_def gap_line_def reset_line_def NL_def)

lemma frame_str_line: "text_line (frame_str f)" "length (frame_str f) \<le> MAX_LINE"
proof -
  show "text_line (frame_str f)" by (cases f) (simp_all add: text_line_plain)
  have lev: "length (fmt_dec (unat l)) \<le> 20" for l :: u8
  proof -
    have "unat l < 2 ^ LENGTH(8)" by (rule unsigned_less)
    then have "unat l < 2 ^ 64" by simp
    then show ?thesis by (rule length_dec_u64)
  qed
  have sz: "length (fmt_dec (unat n)) \<le> 20" for n :: u64
  proof -
    have "unat n < 2 ^ LENGTH(64)" by (rule unsigned_less)
    then have "unat n < 2 ^ 64" by simp
    then show ?thesis by (rule length_dec_u64)
  qed
  show "length (frame_str f) \<le> MAX_LINE"
  proof (cases f)
    case (FLtx i d)
    then show ?thesis using lev [of "fi_level i"] sz [of "fi_size i"] by (simp add: MAX_LINE_def)
  qed (simp_all add: MAX_LINE_def)
qed

lemma frame_of_line_str:
  "frame_of_line (frame_str f) =
     (case f of FLtx i d \<Rightarrow> Ok (Ok (InBody (mk_info (fi_level i) (fi_min_txid i) (fi_max_txid i) (fi_size i) None) (unat (fi_size i))))
      | _ \<Rightarrow> Ok (Err (frame_event f)))"
proof (cases f)
  case (FLtx i d)
  have bounds: "unat (fi_level i) < 2 ^ 8" "unat (fi_size i) < 2 ^ 64"
    using unsigned_less [of "fi_level i"] unsigned_less [of "fi_size i"] by simp_all
  have "split_whitespace (frame_str f) = [''ltx'', fmt_dec (unat (fi_level i)), txid_display (fi_min_txid i), txid_display (fi_max_txid i),
      fmt_dec (unat (fi_size i))]"
    unfolding FLtx frame_str.simps using split_whitespace_word(1) [of "''ltx''"] by (simp add: split_whitespace_word)
  then have "parse_frame_line (frame_str f) =
      Ok (InBody (mk_info (fi_level i) (fi_min_txid i) (fi_max_txid i) (fi_size i) None) (unat (fi_size i)))"
    by (simp add: parse_frame_line_def Let_def parse_fmt_dec [OF bounds(1)] parse_fmt_dec [OF bounds(2)])
  then show ?thesis using FLtx by (simp add: frame_of_line_def strip_prefix_def)
next
  case (FPing m)
  then show ?thesis by (simp add: frame_of_line_def strip_prefix_def trim_plain)
next
  case (FGap m)
  then show ?thesis by (simp add: frame_of_line_def strip_prefix_def trim_plain)
next
  case (FReset m)
  then show ?thesis by (simp add: frame_of_line_def strip_prefix_def trim_plain)
qed

end
