(* ===== verification/HttpStreamProps.thy ===== *)
theory HttpStreamProps
  imports HttpStream
begin

text \<open>
  The feed arrives: whatever frames the mount writes, the client reads the same events with the same bytes,
  however the connection splits them and however often a read times out in between.
\<close>

section \<open>One call\<close>

definition awaits :: "http_ltx_stream \<Rightarrow> byte list \<Rightarrow> io_kind option \<Rightarrow> bool" where
  "awaits st bytes fin \<longleftrightarrow>
     LF \<notin> set (hs_line st) \<and> (\<exists>d. transport_pends (hs_body st) d fin \<and> hs_line st @ d = bytes)"

text \<open>Nobody cancels, and the clock stays below the dead-man bound.\<close>

definition calm :: "http_ltx_stream \<Rightarrow> bool" where
  "calm st \<longleftrightarrow> hs_cancel st = Never \<and> (\<forall>i. hs_clock st i < hs_deadman st)"

abbreviation hs_ticks :: "http_ltx_stream \<Rightarrow> nat" where
  "hs_ticks st \<equiv> body_ticks (hs_body st)"

lemma calm_updates [simp]:
  "calm (st\<lparr>hs_body := b\<rparr>) = calm st" "calm (st\<lparr>hs_line := l\<rparr>) = calm st" "calm (st\<lparr>hs_state := s\<rparr>) = calm st"
  by (simp_all add: calm_def)

lemma hs_touch_sel [simp]:
  "hs_body (hs_touch st) = hs_body st" "hs_line (hs_touch st) = hs_line st" "hs_state (hs_touch st) = hs_state st"
  by (simp_all add: hs_touch_def hs_now_def)

lemma calm_touch: "calm st \<Longrightarrow> calm (hs_touch st)"
  by (simp add: calm_def hs_touch_def hs_now_def)

lemma deadman_calm:
  assumes "calm st"
  obtains st' where "deadman st = (Ok (), st')" "calm st'" "hs_body st' = hs_body st" "hs_line st' = hs_line st" "hs_state st' = hs_state st"
proof -
  have "hs_clock st 0 < hs_deadman st" using assms by (simp add: calm_def)
  then have "\<not> hs_deadman st \<le> hs_clock st 0 - hs_last_byte st" by linarith
  then have "deadman st = (Ok (), st\<lparr>hs_clock := (\<lambda>i. hs_clock st (Suc i))\<rparr>)" by (simp add: deadman_def hs_now_def)
  moreover have "calm (st\<lparr>hs_clock := (\<lambda>i. hs_clock st (Suc i))\<rparr>)" using assms by (simp add: calm_def)
  ultimately show thesis using that by simp
qed

lemma next_pass_calm:
  "calm st \<Longrightarrow> next_pass spool st =
     (case hs_state st of InBody info k \<Rightarrow> body_pass info k spool st | _ \<Rightarrow> line_pass spool st)"
proof -
  assume "calm st"
  then have "st\<lparr>hs_cancel := Never\<rparr> = st" "token_check (hs_cancel st) = Ok Never" by (simp_all add: calm_def)
  then show ?thesis by (simp add: next_pass_def)
qed

lemma line_pass_line:
  assumes calm: "calm st" and aw: "awaits st (to_bytes l @ LF # rest) fin" and l: "text_line l" "length l \<le> MAX_LINE"
    and run: "line_pass spool st = (r, spool', st')"
  shows "(\<exists>st1. calm st1 \<and> hs_state st1 = hs_state st \<and> hs_line st1 = [] \<and> transport_pends (hs_body st1) rest fin \<and>
        hs_ticks st1 \<le> hs_ticks st \<and> after_line spool st1 (Some l) = (r, spool', st')) \<or>
    r = Some (Ok (EvIdle None)) \<and> spool' = spool \<and> calm st' \<and> hs_state st' = hs_state st \<and>
      awaits st' (to_bytes l @ LF # rest) fin \<and> hs_ticks st' < hs_ticks st \<or>
    (\<exists>e. r = Some (Err e) \<and> fin \<noteq> None)"
proof -
  from aw obtain d where d: "transport_pends (hs_body st) d fin" "hs_line st @ d = to_bytes l @ LF # rest" "LF \<notin> set (hs_line st)"
    by (auto simp: awaits_def)
  obtain x buf b where x: "read_line (body_reader_read True) (hs_line st) (hs_body st) = (x, buf, b)" by (metis prod_cases3)
  have len: "length (to_bytes l) \<le> MAX_LINE" using l(2) by simp
  from transport.read_line_finds [OF d(1) d(2) d(3) text_line_finish(1) [OF l(1)] len text_line_finish(2) [OF l(1)] x]
  consider "x = Ok (Some l)" "buf = []" "transport_pends b rest fin" "body_ticks b \<le> hs_ticks st"
    | e where "x = Err e" "fin = Some (kind e)"
    | e d' where "x = Err e" "is_timeout e" "body_ticks b < hs_ticks st" "LF \<notin> set buf" "transport_pends b d' fin" "buf @ d' = to_bytes l @ LF # rest"
    by blast
  then show ?thesis
  proof cases
    case 1
    let ?st1 = "hs_touch (st\<lparr>hs_body := b, hs_line := []\<rparr>)"
    have "after_line spool ?st1 (Some l) = (r, spool', st')" using run x 1 by (simp add: line_pass_def)
    moreover have "calm ?st1" using calm calm_touch by simp
    ultimately show ?thesis using 1 by (intro disjI1 exI [of _ ?st1]) simp
  next
    case 2
    have "\<not> is_timeout e" using d(1) 2(2) by (auto simp: transport_pends_def is_timeout_def)
    then show ?thesis using run x 2 by (auto simp: line_pass_def)
  next
    case 3
    let ?st1 = "st\<lparr>hs_body := b, hs_line := buf\<rparr>"
    have "calm ?st1" using calm by simp
    then obtain st2 where st2: "deadman ?st1 = (Ok (), st2)" "calm st2" "hs_body st2 = b" "hs_line st2 = buf" "hs_state st2 = hs_state st"
      by (rule deadman_calm) simp
    then have "r = Some (Ok (EvIdle None))" "spool' = spool" "st' = st2" using run x 3 by (simp_all add: line_pass_def)
    then show ?thesis using 3 st2 by (auto simp: awaits_def)
  qed
qed

text \<open>The bytes of a frame.\<close>

definition body_spec :: "nat \<Rightarrow> byte list \<Rightarrow> http_ltx_stream \<Rightarrow> file_info \<Rightarrow> byte list \<Rightarrow> byte list \<Rightarrow> io_kind option \<Rightarrow> bool" where
  "body_spec fuel spool st info x rest fin \<longleftrightarrow>
     (\<forall>r spool' st'. next_event fuel spool st = Some (r, spool', st') \<longrightarrow>
        r = Ok (EvLtx info) \<and> spool' = spool @ x \<and> calm st' \<and> hs_state st' = Frame \<and> hs_line st' = [] \<and>
          transport_pends (hs_body st') rest fin \<and> hs_ticks st' \<le> hs_ticks st \<or> (\<exists>e. r = Err e \<and> fin \<noteq> None)) \<and>
     (length x + hs_ticks st < fuel \<longrightarrow> next_event fuel spool st \<noteq> None)"

lemma body_spec_step:
  assumes "next_event (Suc fuel) spool st = next_event fuel (spool @ bs) su" and "x = bs @ x'"
    and "hs_ticks su + length x' < hs_ticks st + length x" and "hs_ticks su \<le> hs_ticks st"
    and "body_spec fuel (spool @ bs) su info x' rest fin"
  shows "body_spec (Suc fuel) spool st info x rest fin"
  unfolding body_spec_def assms(1)
proof (intro conjI allI impI)
  fix r spool' st' assume "next_event fuel (spool @ bs) su = Some (r, spool', st')"
  then have "r = Ok (EvLtx info) \<and> spool' = (spool @ bs) @ x' \<and> calm st' \<and> hs_state st' = Frame \<and> hs_line st' = [] \<and>
      transport_pends (hs_body st') rest fin \<and> hs_ticks st' \<le> hs_ticks su \<or> (\<exists>e. r = Err e \<and> fin \<noteq> None)"
    using assms(5) unfolding body_spec_def by blast
  then show "r = Ok (EvLtx info) \<and> spool' = spool @ x \<and> calm st' \<and> hs_state st' = Frame \<and> hs_line st' = [] \<and>
      transport_pends (hs_body st') rest fin \<and> hs_ticks st' \<le> hs_ticks st \<or> (\<exists>e. r = Err e \<and> fin \<noteq> None)"
    using assms(2,4) by auto
next
  assume "length x + hs_ticks st < Suc fuel"
  then have "length x' + hs_ticks su < fuel" using assms(3) by linarith
  then show "next_event fuel (spool @ bs) su \<noteq> None" using assms(5) unfolding body_spec_def by blast
qed

lemma next_event_body:
  "calm st \<Longrightarrow> hs_state st = InBody info (length x) \<Longrightarrow> hs_line st = [] \<Longrightarrow> transport_pends (hs_body st) (x @ rest) fin \<Longrightarrow>
   body_spec fuel spool st info x rest fin"
proof (induction fuel arbitrary: x spool st)
  case 0
  then show ?case by (simp add: body_spec_def)
next
  case (Suc fuel)
  have pass: "next_pass spool st = body_pass info (length x) spool st" using Suc.prems(1,2) by (simp add: next_pass_calm)
  show ?case
  proof (cases "x = []")
    case True
    then have "next_event (Suc fuel) spool st = Some (Ok (EvLtx info), spool, st\<lparr>hs_state := Frame\<rparr>)"
      using pass by (simp add: body_pass_def)
    then show ?thesis unfolding body_spec_def using Suc.prems True by simp
  next
    case False
    let ?n = "min (length x) FRAME_BUF"
    have n: "0 < ?n" using False by (simp add: FRAME_BUF_def)
    obtain y b where y: "body_reader_read True ?n (hs_body st) = (y, b)" by fastforce
    show ?thesis
    proof (cases y)
      case (Err e)
      from transport.rd_Err [OF Suc.prems(4) n y [unfolded Err]] show ?thesis
      proof
        assume fin: "fin = Some (kind e)"
        then have "\<not> is_timeout e" using Suc.prems(4) by (auto simp: transport_pends_def is_timeout_def)
        then have "next_event (Suc fuel) spool st = Some (Err (stream_io_err e), spool, st\<lparr>hs_body := b\<rparr>)"
          using pass y Err False by (simp add: body_pass_def)
        then show ?thesis unfolding body_spec_def using fin by simp
      next
        assume t: "is_timeout e \<and> transport_pends b (x @ rest) fin \<and> body_ticks b < hs_ticks st"
        have "calm (st\<lparr>hs_body := b\<rparr>)" using Suc.prems(1) by simp
        then obtain st2 where st2: "deadman (st\<lparr>hs_body := b\<rparr>) = (Ok (), st2)" "calm st2" "hs_body st2 = b" "hs_line st2 = hs_line st" "hs_state st2 = hs_state st"
          by (rule deadman_calm) simp
        show ?thesis
        proof (rule body_spec_step [where bs = "[]" and su = st2 and x' = x])
          show "next_event (Suc fuel) spool st = next_event fuel (spool @ []) st2" using pass y Err False t st2(1) by (simp add: body_pass_def)
          show "body_spec fuel (spool @ []) st2 info x rest fin" by (rule Suc.IH) (use st2 t Suc.prems(2,3) in simp_all)
        qed (use t st2(3) in simp_all)
      qed
    next
      case (Ok bs)
      note ok = transport.rd_Ok [OF Suc.prems(4) n y [unfolded Ok]]
      have bs: "bs \<noteq> []" using ok False by auto
      obtain d' where d': "x @ rest = bs @ d'" "transport_pends b d' fin" using ok by auto
      have "length bs \<le> length x" using ok by simp
      then obtain x' where x': "x = bs @ x'" "d' = x' @ rest" using append_split_le [of bs d' x rest] d'(1) by auto
      let ?st1 = "(hs_touch (st\<lparr>hs_body := b\<rparr>))\<lparr>hs_state := InBody info (length x')\<rparr>"
      show ?thesis
      proof (rule body_spec_step [where bs = bs and su = ?st1 and x' = x'])
        show "next_event (Suc fuel) spool st = next_event fuel (spool @ bs) ?st1"
          using pass y Ok False bs x'(1) by (simp add: body_pass_def)
        have "calm ?st1" using Suc.prems(1) calm_touch by simp
        then show "body_spec fuel (spool @ bs) ?st1 info x' rest fin"
          by (rule Suc.IH) (use d'(2) x'(2) Suc.prems(3) in simp_all)
        show "hs_ticks ?st1 + length x' < hs_ticks st + length x" using ok x'(1) bs by (cases bs) auto
      qed (use ok x'(1) in simp_all)
    qed
  qed
qed

section \<open>A call between frames\<close>

definition feed :: "frame list \<Rightarrow> byte list" where
  "feed fs = concat (map frame_bytes fs)"

lemma feed_simps [simp]: "feed [] = []" "feed (f # fs) = frame_bytes f @ feed fs"
  by (simp_all add: feed_def)

definition preamble_str :: string where "preamble_str = ''liters-stream '' @ PROTOCOL_VERSION"

text \<open>The client between frames, with \<open>fs\<close> still to come; before the preamble when \<open>pre\<close>.\<close>

definition ready :: "bool \<Rightarrow> http_ltx_stream \<Rightarrow> frame list \<Rightarrow> io_kind option \<Rightarrow> bool" where
  "ready pre st fs fin \<longleftrightarrow>
     calm st \<and> hs_state st = (if pre then Preamble else Frame) \<and>
     awaits st ((if pre then to_bytes preamble_str @ [LF] else []) @ feed fs) fin"

definition sized :: "frame \<Rightarrow> bool" where
  "sized f = (case f of FLtx i d \<Rightarrow> length d = unat (fi_size i) | _ \<Rightarrow> True)"

lemma awaits_start: "hs_line st = [] \<Longrightarrow> transport_pends (hs_body st) d fin \<Longrightarrow> awaits st d fin"
  by (auto simp: awaits_def)

lemma next_event_line:
  assumes "calm st" and "hs_state st = Preamble \<or> hs_state st = Frame"
  shows "next_event (Suc fuel) spool st =
    (case line_pass spool st of (Some r, spool', st') \<Rightarrow> Some (r, spool', st') | (None, spool', st') \<Rightarrow> next_event fuel spool' st')"
  using assms by (auto simp: next_pass_calm)

lemma line_pass_end:
  assumes "ready False st [] fin" and run: "line_pass spool st = (p, spool', st')"
  shows "p = Some (Ok EvClosed) \<and> spool' = spool \<and> fin = None \<or>
    p = Some (Ok (EvIdle None)) \<and> spool' = spool \<and> ready False st' [] fin \<and> hs_ticks st' < hs_ticks st \<or> (\<exists>e. p = Some (Err e) \<and> fin \<noteq> None)"
proof -
  from assms(1) have st: "calm st" "hs_state st = Frame" "hs_line st = []" "transport_pends (hs_body st) [] fin"
    by (auto simp: ready_def awaits_def)
  obtain x buf b where x: "read_line (body_reader_read True) (hs_line st) (hs_body st) = (x, buf, b)" by (metis prod_cases3)
  consider "x = Ok None" "fin = None" | e where "x = Err e" "fin = Some (kind e)"
    | e where "x = Err e" "is_timeout e" "body_ticks b < hs_ticks st" "transport_pends b [] fin" "buf = []"
    | e where "x = Err e" "fin = None" "kind e = UnexpectedEof"
    using transport.read_line_cut [OF st(4), of "[]" True x buf b] x st(3) by auto
  then show ?thesis
  proof cases
    case 1
    then show ?thesis using run x st by (auto simp: line_pass_def after_line_def)
  next
    case 2
    have "\<not> is_timeout e" using st(4) 2(2) by (auto simp: transport_pends_def is_timeout_def)
    then show ?thesis using run x 2 by (auto simp: line_pass_def)
  next
    case 3
    let ?st1 = "st\<lparr>hs_body := b, hs_line := buf\<rparr>"
    have "calm ?st1" using st(1) by simp
    then obtain st2 where st2: "deadman ?st1 = (Ok (), st2)" "calm st2" "hs_body st2 = b" "hs_line st2 = buf" "hs_state st2 = hs_state st"
      by (rule deadman_calm) simp
    then have "p = Some (Ok (EvIdle None))" "spool' = spool" "st' = st2" using run x 3 by (simp_all add: line_pass_def)
    then show ?thesis using 3 st2 st by (auto simp: ready_def awaits_def)
  next
    case 4
    have "read_line (body_reader_read True) [] (hs_body st) = (Err e, buf, b)" using x st(3) 4(1) by simp
    then have "\<exists>r'. body_reader_read True 1 (hs_body st) = (Err e, r')"
      using transport.rd_Ok [OF st(4), of 1 True] by (subst (asm) read_line.simps) (auto split: prod.splits result.splits list.splits if_splits)
    then show ?thesis using transport.rd_Err [OF st(4), of 1 True e] 4 by (auto simp: is_timeout_def)
  qed
qed

text \<open>The next frame arrives, or the call reports an idle tick and loses nothing.\<close>

lemma next_event_frame:
  assumes "ready False st (f # fs) fin" and f: "sized f" and "next_event fuel spool st = Some (r, spool', st')"
  shows "r = Ok (frame_event f) \<and> spool' = spool @ frame_data f \<and> ready False st' fs fin \<and> hs_ticks st' \<le> hs_ticks st \<or>
    r = Ok (EvIdle None) \<and> spool' = spool \<and> ready False st' (f # fs) fin \<and> hs_ticks st' < hs_ticks st \<or> (\<exists>e. r = Err e \<and> fin \<noteq> None)"
proof -
  from assms(1) have st: "calm st" "hs_state st = Frame" by (auto simp: ready_def)
  have aw: "awaits st (to_bytes (frame_str f) @ LF # (frame_data f @ feed fs)) fin"
    using assms(1) by (simp add: ready_def frame_bytes_str)
  obtain n where fuel: "fuel = Suc n" using assms(3) by (cases fuel) auto
  obtain p sp su where p: "line_pass spool st = (p, sp, su)" by (metis prod_cases3)
  have run: "(case p of Some r \<Rightarrow> Some (r, sp, su) | None \<Rightarrow> next_event n sp su) = Some (r, spool', st')"
    using assms(3) next_event_line [OF st(1), of n spool] st(2) fuel p by (auto split: option.splits)
  from line_pass_line [OF st(1) aw frame_str_line p, unfolded st(2)] consider
      sv where "calm sv" "hs_state sv = Frame" "hs_line sv = []" "transport_pends (hs_body sv) (frame_data f @ feed fs) fin"
        "hs_ticks sv \<le> hs_ticks st" "after_line spool sv (Some (frame_str f)) = (p, sp, su)"
    | "p = Some (Ok (EvIdle None))" "sp = spool" "calm su" "hs_state su = Frame"
        "awaits su (to_bytes (frame_str f) @ LF # (frame_data f @ feed fs)) fin" "hs_ticks su < hs_ticks st"
    | e where "p = Some (Err e)" "fin \<noteq> None" by blast
  then show ?thesis
  proof cases
    case 1
    show ?thesis
    proof (cases "\<exists>i d. f = FLtx i d")
      case True
      then obtain i d where i: "f = FLtx i d" by blast
      let ?info = "mk_info (fi_level i) (fi_min_txid i) (fi_max_txid i) (fi_size i) None"
      have d: "unat (fi_size i) = length d" using f i by (simp add: sized_def)
      have su: "p = None" "sp = spool" "su = sv\<lparr>hs_state := InBody ?info (length d)\<rparr>"
        using 1(2,6) frame_of_line_str [of f] i d by (auto simp: after_line_def)
      have "body_spec n spool su ?info d (feed fs) fin"
        by (rule next_event_body) (use 1 su i in simp_all)
      then have "r = Ok (EvLtx ?info) \<and> spool' = spool @ d \<and> calm st' \<and> hs_state st' = Frame \<and> hs_line st' = [] \<and>
          transport_pends (hs_body st') (feed fs) fin \<and> hs_ticks st' \<le> hs_ticks su \<or> (\<exists>e. r = Err e \<and> fin \<noteq> None)"
        using run su(1,2) unfolding body_spec_def by auto
      moreover have "hs_ticks su = hs_ticks sv" using su by simp
      ultimately show ?thesis using i 1(5) awaits_start by (auto simp: ready_def)
    next
      case False
      then have "frame_of_line (frame_str f) = Ok (Err (frame_event f))" "frame_data f = []"
        using frame_of_line_str [of f] by (cases f; simp)+
      then have "p = Some (Ok (frame_event f))" "sp = spool" "su = sv" using 1(2,6) by (auto simp: after_line_def)
      then show ?thesis using run 1 \<open>frame_data f = []\<close> awaits_start by (auto simp: ready_def)
    qed
  next
    case 2
    then show ?thesis using run by (auto simp: ready_def frame_bytes_str)
  next
    case 3
    then show ?thesis using run by auto
  qed
qed

text \<open>One call, in all cases.\<close>

definition step_spec :: "http_ltx_stream \<Rightarrow> byte list \<Rightarrow> frame list \<Rightarrow> io_kind option \<Rightarrow> stream_event st_result \<Rightarrow> byte list \<Rightarrow> http_ltx_stream \<Rightarrow> bool" where
  "step_spec st spool fs fin r spool' st' \<longleftrightarrow>
     (case fs of
        [] \<Rightarrow> r = Ok EvClosed \<and> spool' = spool \<and> fin = None
      | f # gs \<Rightarrow> r = Ok (frame_event f) \<and> spool' = spool @ frame_data f \<and> ready False st' gs fin \<and> hs_ticks st' \<le> hs_ticks st) \<or>
     r = Ok (EvIdle None) \<and> spool' = spool \<and> (\<exists>pre. ready pre st' fs fin) \<and> hs_ticks st' < hs_ticks st \<or>
     (\<exists>e. r = Err e \<and> fin \<noteq> None)"

lemma next_event_ready:
  assumes "ready False st fs fin" and "list_all sized fs" and "next_event fuel spool st = Some (r, spool', st')"
  shows "step_spec st spool fs fin r spool' st'"
proof (cases fs)
  case Nil
  have st: "calm st" "hs_state st = Frame" using assms(1) by (auto simp: ready_def)
  obtain n where fuel: "fuel = Suc n" using assms(3) by (cases fuel) auto
  obtain p sp su where p: "line_pass spool st = (p, sp, su)" by (metis prod_cases3)
  have "(case p of Some r \<Rightarrow> Some (r, sp, su) | None \<Rightarrow> next_event n sp su) = Some (r, spool', st')"
    using assms(3) next_event_line [OF st(1), of n spool] st(2) fuel p by (auto split: option.splits)
  with line_pass_end [OF _ p, of fin] assms(1) Nil show ?thesis by (auto simp: step_spec_def)
next
  case (Cons f gs)
  then show ?thesis using next_event_frame [of st f gs fin fuel spool r spool' st'] assms by (auto simp: step_spec_def)
qed

lemma next_event_total_ready:
  assumes "ready False st fs fin" and "list_all sized fs" and "length (feed fs) + hs_ticks st < fuel"
  shows "next_event (Suc fuel) spool st \<noteq> None"
proof -
  have st: "calm st" "hs_state st = Frame" using assms(1) by (auto simp: ready_def)
  obtain p sp su where p: "line_pass spool st = (p, sp, su)" by (metis prod_cases3)
  have run: "next_event (Suc fuel) spool st = (case p of Some r \<Rightarrow> Some (r, sp, su) | None \<Rightarrow> next_event fuel sp su)"
    using next_event_line [OF st(1), of fuel spool] st(2) p by (auto split: option.splits)
  show ?thesis
  proof (cases fs)
    case Nil
    then show ?thesis using line_pass_end [OF _ p, of fin] assms(1) run by auto
  next
    case (Cons f gs)
    have aw: "awaits st (to_bytes (frame_str f) @ LF # (frame_data f @ feed gs)) fin"
      using assms(1) Cons by (simp add: ready_def frame_bytes_str)
    show ?thesis
    proof (cases p)
      case None
      with line_pass_line [OF st(1) aw frame_str_line p, unfolded st(2)] obtain sv where sv: "calm sv" "hs_state sv = Frame" "hs_line sv = []"
          "transport_pends (hs_body sv) (frame_data f @ feed gs) fin" "hs_ticks sv \<le> hs_ticks st" "after_line spool sv (Some (frame_str f)) = (None, sp, su)"
        by auto
      then obtain i d where i: "f = FLtx i d" using frame_of_line_str [of f] by (cases f) (auto simp: after_line_def)
      let ?info = "mk_info (fi_level i) (fi_min_txid i) (fi_max_txid i) (fi_size i) None"
      have d: "unat (fi_size i) = length d" using assms(2) Cons i by (simp add: sized_def)
      have su: "sp = spool" "su = sv\<lparr>hs_state := InBody ?info (length d)\<rparr>"
        using sv(2,6) frame_of_line_str [of f] i d by (auto simp: after_line_def)
      have "body_spec fuel spool su ?info d (feed gs) fin" by (rule next_event_body) (use sv su i in simp_all)
      moreover have "length d + hs_ticks su < fuel" using assms(3) Cons i su sv(5) by simp
      ultimately have "next_event fuel spool su \<noteq> None" unfolding body_spec_def by blast
      then show ?thesis using run None su(1) by simp
    qed (use run in simp)
  qed
qed

lemma preamble_text: "text_line preamble_str" "length preamble_str \<le> MAX_LINE"
  by (simp_all add: preamble_str_def PROTOCOL_VERSION_def MAX_LINE_def)

text \<open>The same before the preamble: it is read first, in the same call if it is there.\<close>

lemma next_event_any:
  assumes "ready pre st fs fin" and "list_all sized fs"
  shows "next_event fuel spool st = Some (r, spool', st') \<Longrightarrow> step_spec st spool fs fin r spool' st'"
    and "length (feed fs) + hs_ticks st + 2 < fuel \<Longrightarrow> next_event fuel spool st \<noteq> None"
proof -
  have "(next_event fuel spool st = Some (r, spool', st') \<longrightarrow> step_spec st spool fs fin r spool' st') \<and>
      (length (feed fs) + hs_ticks st + 2 < fuel \<longrightarrow> next_event fuel spool st \<noteq> None)"
  proof (cases pre)
    case False
    have "next_event fuel spool st \<noteq> None" if "length (feed fs) + hs_ticks st + 2 < fuel"
      using next_event_total_ready [of st fs fin "fuel - 1" spool] assms False that by simp
    moreover have "step_spec st spool fs fin r spool' st'" if "next_event fuel spool st = Some (r, spool', st')"
      using next_event_ready [OF _ assms(2) that] assms(1) False by simp
    ultimately show ?thesis by blast
  next
    case True
    have st: "calm st" "hs_state st = Preamble" "awaits st (to_bytes preamble_str @ LF # feed fs) fin"
      using assms(1) True by (auto simp: ready_def)
    show ?thesis
    proof (cases fuel)
      case (Suc n)
      obtain p sp su where p: "line_pass spool st = (p, sp, su)" by (metis prod_cases3)
      have run: "next_event fuel spool st = (case p of Some r \<Rightarrow> Some (r, sp, su) | None \<Rightarrow> next_event n sp su)"
        using next_event_line [OF st(1), of n spool] st(2) Suc p by (auto split: option.splits)
      from line_pass_line [OF st(1,3) preamble_text p, unfolded st(2)] consider
          sv where "calm sv" "hs_state sv = Preamble" "hs_line sv = []" "transport_pends (hs_body sv) (feed fs) fin" "hs_ticks sv \<le> hs_ticks st"
            "after_line spool sv (Some preamble_str) = (p, sp, su)"
        | "p = Some (Ok (EvIdle None))" "sp = spool" "calm su" "hs_state su = Preamble" "awaits su (to_bytes preamble_str @ LF # feed fs) fin" "hs_ticks su < hs_ticks st"
        | e where "p = Some (Err e)" "fin \<noteq> None" by blast
      then show ?thesis
      proof cases
        case 1
        have su: "p = None" "sp = spool" "su = sv\<lparr>hs_state := Frame\<rparr>" using 1(2,6) by (auto simp: after_line_def preamble_str_def)
        then have rdy: "ready False su fs fin" using 1 awaits_start [of su] by (simp add: ready_def)
        have ticks: "hs_ticks su \<le> hs_ticks st" using su 1(5) by simp
        have "step_spec st spool fs fin r spool' st'" if "next_event n spool su = Some (r, spool', st')"
          using next_event_ready [OF rdy assms(2) that] ticks by (auto simp: step_spec_def split: list.splits)
        moreover have "next_event n spool su \<noteq> None" if "length (feed fs) + hs_ticks st + 2 < fuel"
          using next_event_total_ready [OF rdy assms(2), of "n - 1" spool] that ticks Suc by (cases n) simp_all
        ultimately show ?thesis using run su by simp
      next
        case 2
        then have "ready True su fs fin" by (simp add: ready_def)
        then show ?thesis using run 2 by (auto simp: step_spec_def)
      next
        case 3
        then show ?thesis using run by (auto simp: step_spec_def)
      qed
    qed simp
  qed
  then show "next_event fuel spool st = Some (r, spool', st') \<Longrightarrow> step_spec st spool fs fin r spool' st'"
    "length (feed fs) + hs_ticks st + 2 < fuel \<Longrightarrow> next_event fuel spool st \<noteq> None" by blast+
qed

section \<open>A session\<close>

text \<open>What a session yields apart from idle ticks.\<close>

definition deliveries :: "(stream_event \<times> byte list) st_result list \<Rightarrow> (stream_event \<times> byte list) st_result list" where
  "deliveries rs = filter (\<lambda>r. r \<noteq> Ok (EvIdle None, [])) rs"

definition delivered :: "frame list \<Rightarrow> (stream_event \<times> byte list) st_result list" where
  "delivered fs = map (\<lambda>f. Ok (frame_event f, frame_data f)) fs @ [Ok (EvClosed, [])]"

lemma frame_event_neq [simp]: "frame_event f \<noteq> EvIdle None" "frame_event f \<noteq> EvClosed"
  by (cases f; simp)+

lemma deliveries_simps [simp]:
  "deliveries [] = []" "deliveries (Ok (EvIdle None, []) # rs) = deliveries rs"
  "deliveries (Ok (EvClosed, d) # rs) = Ok (EvClosed, d) # deliveries rs"
  "deliveries (Ok (frame_event f, d) # rs) = Ok (frame_event f, d) # deliveries rs"
  by (simp_all add: deliveries_def)

lemma delivered_simps [simp]: "delivered [] = [Ok (EvClosed, [])]" "delivered (f # fs) = Ok (frame_event f, frame_data f) # delivered fs"
  by (simp_all add: delivered_def)

lemma session_step:
  assumes "ready pre st fs None" and "list_all sized fs" and "next_event fuel [] st = Some x"
  obtains "fs = []" "session fuel (Suc n) st = [Ok (EvClosed, [])]"
  | f gs st' where "fs = f # gs" "ready False st' gs None" "hs_ticks st' \<le> hs_ticks st"
      "session fuel (Suc n) st = Ok (frame_event f, frame_data f) # session fuel n st'"
  | st' pre' where "ready pre' st' fs None" "hs_ticks st' < hs_ticks st" "session fuel (Suc n) st = Ok (EvIdle None, []) # session fuel n st'"
proof -
  obtain r spool st' where x: "x = (r, spool, st')" by (metis prod_cases3)
  have "step_spec st [] fs None r spool st'" using next_event_any(1) [OF assms(1,2)] assms(3) x by simp
  then consider "fs = []" "r = Ok EvClosed" "spool = []"
    | f gs where "fs = f # gs" "r = Ok (frame_event f)" "spool = frame_data f" "ready False st' gs None" "hs_ticks st' \<le> hs_ticks st"
    | pre' where "r = Ok (EvIdle None)" "spool = []" "ready pre' st' fs None" "hs_ticks st' < hs_ticks st"
    by (auto simp: step_spec_def split: list.splits)
  then show thesis using assms(3) x by cases (auto intro: that)
qed

lemma session_prefix:
  "ready pre st fs None \<Longrightarrow> list_all sized fs \<Longrightarrow> prefix (deliveries (session fuel n st)) (delivered fs)"
proof (induction n arbitrary: pre st fs)
  case (Suc n)
  show ?case
  proof (cases "next_event fuel [] st")
    case (Some x)
    show ?thesis by (rule session_step [OF Suc.prems Some, of n]) (use Suc in auto)
  qed simp
qed simp

lemma session_whole:
  "ready pre st fs None \<Longrightarrow> list_all sized fs \<Longrightarrow> length (feed fs) + hs_ticks st + 2 < fuel \<Longrightarrow> length fs + hs_ticks st < n \<Longrightarrow>
   deliveries (session fuel n st) = delivered fs"
proof (induction n arbitrary: pre st fs)
  case (Suc n)
  obtain x where x: "next_event fuel [] st = Some x" using next_event_any(2) [OF Suc.prems(1,2,3)] by blast
  show ?case
  proof (rule session_step [OF Suc.prems(1,2) x, of n])
    fix f gs st' assume *: "fs = f # gs" "ready False st' gs None" "hs_ticks st' \<le> hs_ticks st"
      "session fuel (Suc n) st = Ok (frame_event f, frame_data f) # session fuel n st'"
    have "deliveries (session fuel n st') = delivered gs"
      by (rule Suc.IH [OF *(2)]) (use Suc.prems *(1,3) in auto)
    then show ?thesis using *(1,4) by simp
  next
    fix st' pre' assume *: "ready pre' st' fs None" "hs_ticks st' < hs_ticks st" "session fuel (Suc n) st = Ok (EvIdle None, []) # session fuel n st'"
    have "deliveries (session fuel n st') = delivered fs"
      by (rule Suc.IH [OF *(1)]) (use Suc.prems *(2) in auto)
    then show ?thesis using *(3) by simp
  qed simp
qed simp

lemma chain_sized: "chain (genuine_in ok contents) cur fs \<Longrightarrow> list_all sized fs"
  by (induction "genuine_in ok contents" cur fs rule: chain.induct) (auto simp: sized_def genuine_in_def)

lemma ready_new:
  assumes "transport_pends b (to_bytes preamble_line @ feed fs) fin" and "\<forall>i. clock i < dm"
  shows "ready True (http_stream_new b dm Never clock) fs fin"
  using assms
  by (auto simp: ready_def http_stream_new_def calm_def awaits_def hs_touch_def hs_now_def preamble_line_def preamble_str_def NL_def)

text \<open>An example: a bucket with one file.\<close>

definition demo_feed :: file_system where
  "demo_feed = [([''ltx'', ''0'', format_filename 1 1], [7, 8, 9], 5)]"

definition demo_body :: stream_body where
  "demo_body = \<lparr>sb_cursor = 1, sb_poll_interval = 1, sb_ping_interval = 100, sb_cancel = Never\<rparr>"

definition demo_start :: "file_system stream_run" where
  "demo_start = stream_start demo_body (\<lambda>_. demo_feed) (\<lambda>_. 0) \<lparr>s_out = [], s_room = None\<rparr>"

lemma all_levels_eq: "all_levels = [0, 1, 2, 3, 4, 5, 6, 7, 8, 9]"
  by (simp add: all_levels_def SNAPSHOT_LEVEL_def upt_rec)

lemma demo_feed_listing:
  "dir_ltx_files [] demo_feed l 0 False = Ok (if l = 0 then [mk_info 0 1 1 3 (Some 5)] else [])" if "l \<in> set all_levels"
  using that unfolding all_levels_eq by (auto simp: demo_feed_def dir_eval)

lemma demo_feed_open: "dir_open_ltx_file [] demo_feed 0 1 1 0 0 = Ok [7, 8, 9]"
  by (simp add: demo_feed_def dir_open_ltx_file_def ltx_path_def dir_eval)

lemma demo_stream:
  obtains run where "write_to (dir_client []) 100 1 demo_start = (Ok False, run)"
    "s_out (sr_sink run) = to_bytes (preamble_line @ ltx_line (mk_info 0 1 1 3 (Some 5))) @ [7, 8, 9]"
proof -
  note listing = demo_feed_listing [unfolded all_levels_eq]
  have "\<exists>run. write_to (dir_client []) 100 1 demo_start = (Ok False, run) \<and>
    s_out (sr_sink run) = to_bytes (preamble_line @ ltx_line (mk_info 0 1 1 3 (Some 5))) @ [7, 8, 9]"
    by (simp add: write_to_def all_levels_eq demo_start_def stream_start_def demo_body_def dir_client_def sr_store_def m_bind_def
      sr_write_def write_all_def is_reset_def set_last_ping_def sr_now_def listing demo_feed_open
      stream_round_def sr_poll_def token_poll_def m_mod_def m_get_def send_ltx_frame_def send_blocks.simps Let_def m_ok_def COPY_BUF_def)
  then show thesis using that by blast
qed

text \<open>C24: the follow feed carries the history from the mount to the follower, over any connection.  The mount
  streams a directory bucket that other processes change at every look, as long as no file changes its bytes
  under its name; its output is chunked in any way, and the connection delivers it in any pieces with read
  timeouts anywhere.  Then there is a chain of frames from the requested position, every \<open>ltx\<close> frame
  being a whole genuine file of level 0 that continues the one before, and a pending \<open>gap\<close> or \<open>reset\<close>
  its last frame, such that what the follower's stream yields, apart from idle ticks, is always a prefix of exactly the
  events of these frames with exactly their bytes and then the end of the feed, and all of it once it has been
  asked often enough.\<close>

theorem stream_delivered:
  assumes "\<forall>i. files_of root F (stores i)"
    and "write_to (dir_client root) ping rounds (stream_start sb stores clock \<lparr>s_out = [], s_room = room\<rparr>) = (Ok over, run)"
    and "good_chunks cs" and "concat cs = s_out (sr_sink run)" and "net_pends net (chunked_body cs) None"
    and "\<forall>i. client_clock i < dm"
  shows "\<exists>fs. chain (genuine_in (files_of root F) (dir_contents root)) (sb_cursor sb) fs \<and>
    (\<forall>fuel calls. let got = deliveries (session fuel calls (http_stream_new (BChunked (chunked_new net)) dm Never client_clock)) in
       prefix got (delivered fs) \<and>
       (length (feed fs) + net_ticks net + 2 < fuel \<and> length fs + net_ticks net < calls \<longrightarrow> got = delivered fs))"
proof -
  let ?st = "http_stream_new (BChunked (chunked_new net)) dm Never client_clock"
  obtain fs where fs: "chain (genuine_in (files_of root F) (dir_contents root)) (sb_cursor sb) fs"
      "s_out (sr_sink run) = frames_bytes (to_bytes preamble_line) fs"
    using dirh.write_to_frames [OF _ assms(2)] assms(1) by blast
  have "body_pends (BChunked (chunked_new net)) (to_bytes preamble_line @ feed fs) None"
    using chunked_new_pends [OF assms(3,5), of "[]"] assms(4) fs(2) by (simp add: frames_bytes_def feed_def)
  then have "transport_pends (BChunked (chunked_new net)) (to_bytes preamble_line @ feed fs) None" by (simp add: transport_pends_def)
  then have rdy: "ready True ?st fs None" using ready_new assms(6) by blast
  have sz: "list_all sized fs" using chain_sized [OF fs(1)] .
  have ticks: "hs_ticks ?st = net_ticks net" by (simp add: http_stream_new_def body_ticks_def chunked_new_def)
  show ?thesis
    using fs(1) session_prefix [OF rdy sz] session_whole [OF rdy sz] ticks by (intro exI [of _ fs]) (auto simp: Let_def)
qed

theorem stream_delivered_witness:
  "\<exists>run net fs fuel calls. write_to (dir_client []) 100 1 (stream_start demo_body (\<lambda>_. demo_feed) (\<lambda>_. 0) \<lparr>s_out = [], s_room = None\<rparr>) = (Ok False, run) \<and>
     net_pends net (chunked_body [s_out (sr_sink run)]) None \<and> net_ticks net = 1 \<and>
     chain (genuine_in (files_of [] (\<lambda>_. [7, 8, 9])) (dir_contents [])) 1 fs \<and>
     deliveries (session fuel calls (http_stream_new (BChunked (chunked_new net)) 10 Never (\<lambda>_. 0))) = delivered fs"
proof -
  let ?F = "\<lambda>_ :: file_key. [7, 8, 9 :: byte]"
  obtain run where run: "write_to (dir_client []) 100 1 demo_start = (Ok False, run)"
      "s_out (sr_sink run) = to_bytes (preamble_line @ ltx_line (mk_info 0 1 1 3 (Some 5))) @ [7, 8, 9]"
    by (rule demo_stream)
  let ?cs = "[s_out (sr_sink run)]"
  let ?net = "[Arrive (take 20 (chunked_body ?cs)), Fail (IoError TimedOut ''timed out''), Arrive (drop 20 (chunked_body ?cs))]"
  have net: "net_pends ?net (chunked_body ?cs) None" "net_ticks ?net = 1" by (simp_all add: is_timeout_def min_def)
  have files: "\<forall>i :: nat. files_of [] ?F demo_feed"
    by (auto simp: files_of_def demo_feed_def dir_inv_def split: if_splits)
  have "length (frame_str (FLtx (mk_info 0 1 1 3 (Some 5)) [])) \<le> MAX_LINE" by (rule frame_str_line)
  then have cs: "good_chunks ?cs" "concat ?cs = s_out (sr_sink run)"
    using run(2) by (simp_all add: good_chunks_def ltx_line_def preamble_line_def PROTOCOL_VERSION_def NL_def MAX_LINE_def)
  have "\<exists>fs. chain (genuine_in (files_of [] ?F) (dir_contents [])) (sb_cursor demo_body) fs \<and>
    (\<forall>fuel calls. let got = deliveries (session fuel calls (http_stream_new (BChunked (chunked_new ?net)) 10 Never (\<lambda>_. 0))) in
       prefix got (delivered fs) \<and>
       (length (feed fs) + net_ticks ?net + 2 < fuel \<and> length fs + net_ticks ?net < calls \<longrightarrow> got = delivered fs))"
    by (rule stream_delivered [OF files run(1) [unfolded demo_start_def] cs net(1)]) simp
  then obtain fs where fs: "chain (genuine_in (files_of [] ?F) (dir_contents [])) (sb_cursor demo_body) fs"
    and go: "\<And>fuel calls. length (feed fs) + net_ticks ?net + 2 < fuel \<and> length fs + net_ticks ?net < calls \<longrightarrow>
      deliveries (session fuel calls (http_stream_new (BChunked (chunked_new ?net)) 10 Never (\<lambda>_. 0))) = delivered fs"
    unfolding Let_def by blast
  have "sb_cursor demo_body = 1" by (simp add: demo_body_def)
  with fs have "chain (genuine_in (files_of [] ?F) (dir_contents [])) 1 fs" by simp
  moreover from go [of "length (feed fs) + 4" "length fs + 2"] net(2)
  have "deliveries (session (length (feed fs) + 4) (length fs + 2) (http_stream_new (BChunked (chunked_new ?net)) 10 Never (\<lambda>_. 0))) = delivered fs"
    by (simp del: session.simps)
  ultimately show ?thesis using run(1) net unfolding demo_start_def by blast
qed

end
