(* ===== verification/HttpServer.thy ===== *)
theory HttpServer
  imports MountStream
begin

text \<open>
  Model of \<open>crates/liters-storage/src/http/server.rs\<close>: what one connection of the built-in server does with the
  bytes it receives.  The request head is parsed, the mount prefix is stripped, the body is framed, the
  mount answers and the response is written; a stream response writes its head and hands the feed
  (\<open>MountStream\<close>) to the caller.  Accepting connections, their threads, socket options and the draining of
  an unread request body after the response are not represented.
\<close>

section \<open>Options\<close>

record http_server_options =
  so_poll_interval :: nat
  so_ping_interval :: nat
  so_writable :: bool
  so_auth_token :: "string option"
  so_lease_ttl :: nat
  so_base_path :: "string option"

definition http_server_options_default :: http_server_options where
  "http_server_options_default = \<lparr>so_poll_interval = 1000000000, so_ping_interval = 15 * 1000000000, so_writable = False,
     so_auth_token = None, so_lease_ttl = 24 * 60 * 60 * 1000000000, so_base_path = None\<rparr>"

definition server_mount_options :: "http_server_options \<Rightarrow> mount_options" where
  "server_mount_options opts = \<lparr>mo_writable = so_writable opts, mo_auth_token = so_auth_token opts, mo_lease_ttl = so_lease_ttl opts,
     mo_poll_interval = so_poll_interval opts, mo_ping_interval = so_ping_interval opts\<rparr>"

definition normalize_base :: "string option \<Rightarrow> string list" where
  "normalize_base base = filter (\<lambda>s. s \<noteq> []) (split_on (CHR ''/'') (case base of None \<Rightarrow> [] | Some b \<Rightarrow> b))"

section \<open>Framing headers\<close>

definition is_chunked :: "headers \<Rightarrow> bool" where
  "is_chunked hs = (case get_header hs ''transfer-encoding'' of None \<Rightarrow> False | Some v \<Rightarrow> eq_ignore_ascii_case v ''chunked'')"

definition content_length :: "headers \<Rightarrow> nat option" where
  "content_length hs = (case get_header hs ''content-length'' of None \<Rightarrow> None | Some v \<Rightarrow> parse_dec 64 v)"

definition has_body :: "headers \<Rightarrow> bool" where
  "has_body hs = (if is_chunked hs then True else case content_length hs of None \<Rightarrow> False | Some n \<Rightarrow> 0 < n)"

section \<open>Responses\<close>

definition reason :: "nat \<Rightarrow> string" where
  "reason status =
     (if status = 200 then ''OK'' else if status = 400 then ''Bad Request'' else if status = 401 then ''Unauthorized''
      else if status = 403 then ''Forbidden'' else if status = 404 then ''Not Found'' else if status = 405 then ''Method Not Allowed''
      else if status = 409 then ''Conflict'' else if status = 411 then ''Length Required'' else ''Internal Server Error'')"

definition CRLF_str :: string where "CRLF_str = [CHR 0x0D, CHR 0x0A]"

definition header_line :: "string \<times> string \<Rightarrow> string" where
  "header_line h = fst h @ '': '' @ snd h @ CRLF_str"

definition header_lines :: "headers \<Rightarrow> string" where
  "header_lines hs = concat (map header_line hs)"

definition response_head :: "response \<Rightarrow> string" where
  "response_head resp =
     ''HTTP/1.1 '' @ fmt_dec (rs_status resp) @ '' '' @ reason (rs_status resp) @ CRLF_str @
     header_lines ([(PROTOCOL_HEADER, PROTOCOL_VERSION), (''server'', ''liters''), (''connection'', ''close'')] @ rs_headers resp)"

text \<open>The copy loop of a file body: an error leaves the chunked body unfinished.\<close>

function send_reader :: "byte list \<Rightarrow> cancel_token \<Rightarrow> unit sink_action" where
  "send_reader d stop =
     (case token_poll stop of (cancelled, stop') \<Rightarrow>
        if cancelled then m_err (other_io ''server shutting down'')
        else if d = [] then chunk_finish
        else m_then (chunk (take COPY_BUF d)) (send_reader (drop COPY_BUF d) stop'))"
  by auto
termination by (relation "measure (\<lambda>(d, _). length d)") (auto simp: COPY_BUF_def)

declare send_reader.simps [simp del]

definition write_response_body :: "response \<Rightarrow> cancel_token \<Rightarrow> stream_body option sink_action" where
  "write_response_body resp stop =
     (let head = response_head resp in
      case rs_body resp of
        BodyBytes b \<Rightarrow>
          m_then (write_all (to_bytes (head @ header_line (''content-length'', fmt_dec (length b)) @ CRLF_str)))
            (m_then (write_all b) (m_ok None))
      | BodyReader rd \<Rightarrow>
          m_then (write_all (to_bytes (head @ header_line (''transfer-encoding'', ''chunked'') @ CRLF_str)))
            (m_then (send_reader rd stop) (m_ok None))
      | BodyStream sb \<Rightarrow>
          m_then (write_all (to_bytes (head @ header_line (''transfer-encoding'', ''chunked'') @ CRLF_str))) (m_ok (Some sb)))"

section \<open>Requests\<close>

text \<open>
  The body of a \<open>PUT\<close> is framed by its headers; without a length it is refused with 411 before the mount sees
  it.  The bare root answers without authorization.
\<close>

definition put_body :: "headers \<Rightarrow> net \<Rightarrow> body option" where
  "put_body hs net =
     (if is_chunked hs then Some (BChunked (chunked_new net))
      else map_option (\<lambda>n. BExact \<lparr>el_inner = net, el_remaining = n\<rparr>) (content_length hs))"

definition server_route ::
  "'s client \<Rightarrow> mount_options \<Rightarrow> string list \<Rightarrow> cancel_token \<Rightarrow> 's mount \<Rightarrow> string \<Rightarrow> string \<Rightarrow> string \<Rightarrow> headers \<Rightarrow> net \<Rightarrow>
   response \<times> 's mount" where
  "server_route c opts base stop m meth path query hs net =
     (let segments = split_on (CHR ''/'') (trim_matches (CHR ''/'') path) in
      if meth = ''GET'' \<and> segments = [[]] then (response_text 200 version_line, m)
      else if \<not> (length base \<le> length segments \<and> take (length base) segments = base) then (response_error 404 ''not found'', m)
      else
        let mount_path = join (CHR ''/'') (drop (length base) segments) in
        case (if meth = ''PUT'' then put_body hs net else Some BEmpty) of
          None \<Rightarrow> (response_error 411 ''length required (content-length or chunked)'', m)
        | Some body \<Rightarrow>
            handle c opts m \<lparr>rq_method = meth, rq_path = mount_path, rq_query = query, rq_headers = hs, rq_body = body, rq_cancel = stop\<rparr>)"

definition handle_connection ::
  "'s client \<Rightarrow> mount_options \<Rightarrow> string list \<Rightarrow> cancel_token \<Rightarrow> 's mount \<Rightarrow> net \<Rightarrow> sink \<Rightarrow> (stream_body option \<times> sink) \<times> 's mount" where
  "handle_connection c opts base stop m net k =
     (case read_head net of
        (Err _, _) \<Rightarrow> ((None, k), m)
      | (Ok (request_line, hs), net') \<Rightarrow>
          (case split_whitespace request_line of
             meth # target # _ \<Rightarrow>
               (case (case split_once (CHR ''?'') target of None \<Rightarrow> (target, []) | Some pq \<Rightarrow> pq) of
                  (path, query) \<Rightarrow>
                    (case server_route c opts base stop m meth path query hs net' of
                       (resp, m') \<Rightarrow>
                         ((case write_response_body resp stop k of (Ok sb, k') \<Rightarrow> (sb, k') | (Err _, k') \<Rightarrow> (None, k')), m')))
           | _ \<Rightarrow> ((None, k), m)))"

end
