(* ===== verification/HttpTransport.thy ===== *)
theory HttpTransport
  imports HttpServer HttpStream
begin

text \<open>
  Model of \<open>crates/liters-storage/src/http/transport.rs\<close>: the built-in transport, one connection per request.  The
  network is a parameter, the record \<open>link\<close>: what name resolution and connecting yield, how the socket answers
  each \<open>write\<close> call, and what the peer answers to the bytes it was sent.  Setting a socket option does not fail.
\<close>

section \<open>Requests and responses\<close>

record transport_request =
  tq_method :: string
  tq_url :: string
  tq_headers :: headers
  tq_body :: "byte list option"
  tq_long_lived :: bool

record transport_response =
  tp_status :: nat
  tp_headers :: headers
  tp_body :: body
  tp_long_lived :: bool

definition parse_authority :: "string \<Rightarrow> (string \<times> nat) st_result" where
  "parse_authority authority =
     (let bad_port = StOther (''bad port in '' @ str_debug authority) in
      case strip_prefix [CHR 0x5B] authority of
        Some v6 \<Rightarrow>
          (case split_once (CHR 0x5D) v6 of
             None \<Rightarrow> Err (StOther (''bad ipv6 authority '' @ str_debug authority))
           | Some (host, r) \<Rightarrow>
               if r = [] then Ok (host, 80)
               else (case strip_prefix '':'' r of
                  None \<Rightarrow> Err bad_port
                | Some p \<Rightarrow> and_then (ok_or (parse_dec 16 p) bad_port) (\<lambda>port. Ok (host, port))))
      | None \<Rightarrow>
          (case rsplit_once (CHR '':'') authority of
             Some (h, p) \<Rightarrow> and_then (ok_or (parse_dec 16 p) bad_port) (\<lambda>port. Ok (h, port))
           | None \<Rightarrow> Ok (authority, 80)))"

definition parse_http_url :: "string \<Rightarrow> (string \<times> nat \<times> string) st_result" where
  "parse_http_url url =
     (case strip_prefix ''http://'' url of
        None \<Rightarrow>
          if strip_prefix ''https://'' url \<noteq> None
          then Err (StOther (''https is not supported by the built-in transport; terminate TLS with a reverse proxy, or inject '' @
                 ''a transport that owns TLS''))
          else Err (StOther (''invalid liters url '' @ str_debug url @ '': expected http://host:port[/path]''))
      | Some rest \<Rightarrow>
          let authority = takeWhile (\<lambda>c. c \<noteq> CHR ''/'') rest;
              target = (case dropWhile (\<lambda>c. c \<noteq> CHR ''/'') rest of [] \<Rightarrow> ''/'' | t \<Rightarrow> t) in
          and_then (parse_authority authority) (\<lambda>(host, port).
            if host = [] then Err (StOther (''missing host in url '' @ str_debug url)) else Ok (host, port, target)))"

section \<open>The connection\<close>

text \<open>For every address of a host the outcome of connecting to it.\<close>

text \<open>
  What one \<open>write\<close> call does: it takes up to so many bytes, times out when the stall timer stands at so many
  nanoseconds, is interrupted, or fails.  Behind the events of the schedule the socket takes everything.
\<close>

datatype write_event = Wrote nat | WTimeout nat | WInterrupted | WFailed io_error

record conn =
  c_out :: "byte list"
  c_writes :: "write_event list"

record 'w link =
  lk_resolve :: "string \<Rightarrow> nat \<Rightarrow> (io_error, (io_error, unit) result list) result"
  lk_io_timeout :: nat
  lk_writes :: "write_event list"
  lk_peer :: "byte list \<Rightarrow> 'w \<Rightarrow> net \<times> 'w"

record 'w tstate =
  ts_cancel :: cancel_token
  ts_conn :: conn
  ts_world :: 'w

type_synonym ('w, 'a) tr = "('w tstate, storage_error, 'a) action"

definition tr_check :: "('w, unit) tr" where
  "tr_check st = (case token_check (ts_cancel st) of Err e \<Rightarrow> (Err e, st) | Ok t \<Rightarrow> (Ok (), st\<lparr>ts_cancel := t\<rparr>))"

fun try_addrs :: "string \<Rightarrow> nat \<Rightarrow> io_error option \<Rightarrow> (io_error, unit) result list \<Rightarrow> ('w, unit) tr" where
  "try_addrs host port last_err [] =
     m_err (Unavailable (case last_err of
        Some e \<Rightarrow> ''connect '' @ host @ '':'' @ fmt_dec port @ '': '' @ message e
      | None \<Rightarrow> ''no addresses for '' @ host @ '':'' @ fmt_dec port))"
| "try_addrs host port last_err (r # rs) =
     m_then tr_check (case r of Ok _ \<Rightarrow> tr_check | Err e \<Rightarrow> try_addrs host port (Some e) rs)"

definition connect :: "'w link \<Rightarrow> string \<Rightarrow> nat \<Rightarrow> ('w, unit) tr" where
  "connect lk host port =
     m_then tr_check
       (case lk_resolve lk host port of
          Err e \<Rightarrow> m_err (Unavailable (''resolve '' @ host @ '':'' @ fmt_dec port @ '': '' @ message e))
        | Ok addrs \<Rightarrow>
            m_then (try_addrs host port None addrs) (m_mod (\<lambda>st. st\<lparr>ts_conn := \<lparr>c_out = [], c_writes = lk_writes lk\<rparr>\<rparr>)))"

text \<open>The socket after a call: the bytes it took and the events that remain.\<close>

definition conn_wrote :: "byte list \<Rightarrow> write_event list \<Rightarrow> ('w, unit) tr" where
  "conn_wrote bs evs = m_mod (\<lambda>st. st\<lparr>ts_conn := \<lparr>c_out = c_out (ts_conn st) @ bs, c_writes = evs\<rparr>\<rparr>)"

fun write_loop :: "nat \<Rightarrow> write_event list \<Rightarrow> byte list \<Rightarrow> ('w, unit) tr" where
  "write_loop io evs [] = conn_wrote [] evs"
| "write_loop io [] (b # bs) = m_then tr_check (conn_wrote (b # bs) [])"
| "write_loop io (ev # evs) (b # bs) =
     m_then tr_check
       (case ev of
          Wrote n \<Rightarrow>
            if n = 0 then m_then (conn_wrote [] evs) (m_err (Unavailable ''socket write returned 0''))
            else m_then (conn_wrote (take n (b # bs)) evs) (write_loop io evs (drop n (b # bs)))
        | WTimeout elapsed \<Rightarrow>
            if io \<le> elapsed
            then m_then (conn_wrote [] evs) (m_err (Unavailable (''write stalled: no progress for '' @ fmt_dec (io div 1000000000) @ ''s'')))
            else write_loop io evs (b # bs)
        | WInterrupted \<Rightarrow> write_loop io evs (b # bs)
        | WFailed e \<Rightarrow> m_then (conn_wrote [] evs) (m_then tr_check (m_err (Unavailable (''write: '' @ message e)))))"

definition write_full :: "nat \<Rightarrow> byte list \<Rightarrow> ('w, unit) tr" where
  "write_full io bs st = write_loop io (c_writes (ts_conn st)) bs st"

text \<open>The chunks of an upload.\<close>

function upload_body :: "nat \<Rightarrow> byte list \<Rightarrow> ('w, unit) tr" where
  "upload_body io d =
     m_then tr_check
       (if d = [] then write_full io (to_bytes ''0'' @ CRLF @ CRLF)
        else
          let buf = take COPY_BUF d in
          m_then (write_full io (to_bytes (fmt_hex (length buf)) @ CRLF))
            (m_then (write_full io buf) (m_then (write_full io CRLF) (upload_body io (drop COPY_BUF d)))))"
  by auto
termination by (relation "measure (\<lambda>(_, d). length d)") (auto simp: COPY_BUF_def)

declare upload_body.simps [simp del]

section \<open>Responses\<close>

definition body_reader :: "headers \<Rightarrow> net \<Rightarrow> body" where
  "body_reader hs net =
     (if is_chunked hs then BChunked (chunked_new net)
      else case content_length hs of Some n \<Rightarrow> BTake net n | None \<Rightarrow> BSocket net)"

definition parse_status :: "string \<Rightarrow> nat option" where
  "parse_status line = (case split_whitespace line of _ # s # _ \<Rightarrow> parse_dec 16 s | _ \<Rightarrow> None)"

definition read_response :: "'w link \<Rightarrow> bool \<Rightarrow> ('w, transport_response) tr" where
  "read_response lk long_lived st =
     (case lk_peer lk (c_out (ts_conn st)) (ts_world st) of (net, w) \<Rightarrow>
      let st = st\<lparr>ts_world := w\<rparr> in
      case read_head net of
        (Err e, _) \<Rightarrow> m_then tr_check (m_err (Unavailable (''read response: '' @ message e))) st
      | (Ok (status_line, hs), net') \<Rightarrow>
          (case parse_status status_line of
             None \<Rightarrow> (Err (StOther (''bad status line '' @ str_debug status_line)), st)
           | Some status \<Rightarrow>
               (Ok \<lparr>tp_status = status, tp_headers = hs, tp_body = body_reader hs net', tp_long_lived = long_lived\<rparr>, st)))"

section \<open>One request\<close>

definition request_head :: "string \<Rightarrow> string \<Rightarrow> string \<Rightarrow> nat \<Rightarrow> headers \<Rightarrow> string" where
  "request_head meth target host port hs =
     meth @ '' '' @ target @ '' HTTP/1.1'' @ CRLF_str @ header_line (''host'', host @ '':'' @ fmt_dec port) @ header_lines hs"

definition execute :: "'w link \<Rightarrow> transport_request \<Rightarrow> ('w, transport_response) tr" where
  "execute lk req =
     m_bind (m_lift (parse_http_url (tq_url req))) (\<lambda>(host, port, target).
       m_then (connect lk host port)
         (let head = request_head (tq_method req) target host port (tq_headers req) in
          case tq_body req of
            Some d \<Rightarrow>
              m_try (m_then
                  (write_full (lk_io_timeout lk) (to_bytes (head @ header_lines [(''transfer-encoding'', ''chunked''), (''connection'', ''close'')] @ CRLF_str)))
                  (upload_body (lk_io_timeout lk) d)) (\<lambda>upload.
                case upload of
                  Ok _ \<Rightarrow> read_response lk (tq_long_lived req)
                | Err upload_err \<Rightarrow>
                    if upload_err = StCancelled then m_err upload_err
                    else m_try (read_response lk (tq_long_lived req)) (\<lambda>r.
                      case r of Ok resp \<Rightarrow> m_ok resp | Err _ \<Rightarrow> m_err upload_err))
          | None \<Rightarrow>
              m_then (write_full (lk_io_timeout lk) (to_bytes (head @ header_lines [(''connection'', ''close'')] @ CRLF_str)))
                (read_response lk (tq_long_lived req))))"

end
