(* ===== verification/HttpClient.thy ===== *)
theory HttpClient
  imports HttpTransport
begin

text \<open>
  Model of \<open>crates/liters-storage/src/http/client.rs\<close>: \<open>HttpReplicaClient\<close>, the \<open>ReplicaClient\<close> that reaches a bucket
  through an \<open>HttpTransport\<close>.  The transport is the function \<open>ex\<close> of the operations (\<open>execute lk\<close> for the
  built-in one); the state holds the current cancellation token and the world behind the transport.  The
  bytes of a whole file are spooled; the spool file is its bytes.
\<close>

section \<open>Options\<close>

record http_client_options =
  co_auth_token :: "string option"
  co_writer_id :: "string option"
  co_takeover :: bool
  co_connect_timeout :: nat
  co_io_timeout :: nat
  co_stream_deadman :: nat

definition http_client_options_default :: http_client_options where
  "http_client_options_default = \<lparr>co_auth_token = None, co_writer_id = None, co_takeover = False,
     co_connect_timeout = 10 * 1000000000, co_io_timeout = 30 * 1000000000, co_stream_deadman = 45 * 1000000000\<rparr>"

definition validate_value :: "string \<Rightarrow> string option \<Rightarrow> unit st_result" where
  "validate_value name v =
     (case v of
        None \<Rightarrow> Ok ()
      | Some s \<Rightarrow>
          if s = [] \<or> \<not> list_all (\<lambda>b. 0x21 \<le> b \<and> b \<le> 0x7E) (to_bytes s)
          then Err (StOther (name @ '' must be non-empty visible ASCII (no spaces, CR/LF, or control bytes)''))
          else Ok ())"

definition options_validate :: "http_client_options \<Rightarrow> unit st_result" where
  "options_validate opts =
     and_then (validate_value ''auth_token'' (co_auth_token opts)) (\<lambda>_. validate_value ''writer_id'' (co_writer_id opts))"

definition normalize_base_url :: "string \<Rightarrow> bool \<Rightarrow> string st_result" where
  "normalize_base_url url allow_https =
     and_then
       (case strip_prefix ''http://'' url of
          Some rest \<Rightarrow> Ok (''http'', rest)
        | None \<Rightarrow>
            (case strip_prefix ''https://'' url of
               Some rest \<Rightarrow>
                 if allow_https then Ok (''https'', rest)
                 else Err (StOther (''https is not supported; terminate TLS with a reverse proxy and use http://, '' @
                        ''or inject a transport that owns TLS''))
             | None \<Rightarrow> Err (StOther (''invalid liters url '' @ str_debug url @ '': expected http://host:port[/path]''))))
       (\<lambda>(scheme, rest).
          let authority = takeWhile (\<lambda>c. c \<noteq> CHR ''/'') rest;
              path = trim_end_matches (CHR ''/'') (dropWhile (\<lambda>c. c \<noteq> CHR ''/'') rest) in
          if CHR 0x40 \<in> set authority then Err (StOther ''userinfo in url is not supported'')
          else if authority = [] then Err (StOther (''missing host in url '' @ str_debug url))
          else Ok (scheme @ ''://'' @ authority @ path))"

record http_replica_client =
  hc_base_url :: string
  hc_opts :: http_client_options

text \<open>\<open>with_options\<close> uses the built-in transport, \<open>with_transport\<close> (\<open>allow_https\<close>) an injected one.\<close>

definition client_with :: "bool \<Rightarrow> string \<Rightarrow> http_client_options \<Rightarrow> http_replica_client st_result" where
  "client_with allow_https url opts =
     and_then (options_validate opts) (\<lambda>_.
     and_then (normalize_base_url url allow_https) (\<lambda>base_url. Ok \<lparr>hc_base_url = base_url, hc_opts = opts\<rparr>))"

section \<open>Requests\<close>

type_synonym 'w transport = "transport_request \<Rightarrow> ('w, transport_response) tr"

definition extra_headers :: "http_client_options \<Rightarrow> bool \<Rightarrow> headers" where
  "extra_headers opts write_op =
     (case co_auth_token opts of None \<Rightarrow> [] | Some token \<Rightarrow> [(''authorization'', ''Bearer '' @ token)]) @
     (if write_op then
        (case co_writer_id opts of None \<Rightarrow> [] | Some wid \<Rightarrow> [(''x-liters-writer-id'', wid)]) @
        (if co_takeover opts then [(''x-liters-writer-takeover'', ''1'')] else [])
      else [])"

definition exec :: "'w transport \<Rightarrow> http_replica_client \<Rightarrow> string \<Rightarrow> string \<Rightarrow> bool \<Rightarrow> byte list option \<Rightarrow> ('w, transport_response) tr" where
  "exec ex cl meth url long_lived body =
     m_then tr_check
       (m_bind (ex \<lparr>tq_method = meth, tq_url = url, tq_headers = extra_headers (hc_opts cl) (meth \<noteq> ''GET''),
                    tq_body = body, tq_long_lived = long_lived\<rparr>) (\<lambda>resp.
          case get_header (tp_headers resp) PROTOCOL_HEADER of
            Some v \<Rightarrow>
              if v = PROTOCOL_VERSION then m_ok resp
              else m_err (StOther (''server speaks liters protocol '' @ str_debug v @ '', this client speaks '' @ PROTOCOL_VERSION))
          | None \<Rightarrow> m_err (StOther (url @ '' is not a liters server (status '' @ fmt_dec (tp_status resp) @ '', no '' @ PROTOCOL_HEADER @ '' header)''))))"

text \<open>\<open>take(limit).read_to_string\<close>: what was read before the end, the limit or an error, and the error.  A read that was
  interrupted is repeated; the socket is not interrupted for ever.\<close>

lemma body_reader_read_size:
  "body_reader_read ll n b = (Ok (x # xs), b') \<Longrightarrow> net_size (body_net b') < net_size (body_net b)"
  by (auto simp: body_reader_read_def std_net_body_read_def split: prod.splits result.splits if_splits body_outcome.splits dest: body_read_size)

function read_limited :: "bool \<Rightarrow> nat \<Rightarrow> byte list \<Rightarrow> body \<Rightarrow> byte list \<times> io_error option" where
  "read_limited ll limit acc b =
     (if limit = 0 then (acc, None)
      else case body_reader_read ll limit b of
        (Err e, b') \<Rightarrow>
          if kind e = Interrupted \<and> net_size (body_net b') < net_size (body_net b) then read_limited ll limit acc b' else (acc, Some e)
      | (Ok [], _) \<Rightarrow> (acc, None)
      | (Ok (x # xs), b') \<Rightarrow> read_limited ll (limit - Suc (length xs)) (acc @ x # xs) b')"
  by pat_completeness auto
termination by (relation "measure (\<lambda>(_, _, _, b). net_size (body_net b))") (auto dest: body_reader_read_size [OF sym])

declare read_limited.simps [simp del]

definition error_detail :: "transport_response \<Rightarrow> string" where
  "error_detail resp =
     (let buf = (case from_utf8 (fst (read_limited (tp_long_lived resp) 512 [] (tp_body resp))) of None \<Rightarrow> [] | Some s \<Rightarrow> s);
          trimmed = trim buf
      in if trimmed = [] then [] else '': '' @ trimmed)"

definition status_error :: "string \<Rightarrow> bool \<Rightarrow> transport_response \<Rightarrow> storage_error" where
  "status_error ctx write_op resp =
     (let status = tp_status resp;
          msg = ctx @ '': http status '' @ fmt_dec status @ error_detail resp
      in if status = 401 then Unauthorized msg
         else if status = 403 \<and> write_op then ReadOnly msg
         else if status = 409 then Conflict msg
         else StOther msg)"

definition transport_err :: "string \<Rightarrow> io_error \<Rightarrow> storage_error" where
  "transport_err ctx e = Unavailable (ctx @ '': '' @ message e)"

text \<open>The read loops of \<open>ltx_files\<close> and \<open>spool_body\<close>: the token is checked before every read and after a failed one.\<close>

function read_all_checked :: "string \<Rightarrow> byte list \<Rightarrow> bool \<Rightarrow> body \<Rightarrow> ('w, byte list) tr" where
  "read_all_checked ctx raw ll b =
     m_then tr_check
       (case body_reader_read ll COPY_BUF b of
          (Err e, _) \<Rightarrow> m_then tr_check (m_err (transport_err ctx e))
        | (Ok [], _) \<Rightarrow> m_ok raw
        | (Ok (x # xs), b') \<Rightarrow> read_all_checked ctx (raw @ x # xs) ll b')"
  by pat_completeness auto
termination by (relation "measure (\<lambda>(_, _, _, b). net_size (body_net b))") (auto dest: body_reader_read_size [OF sym])

declare read_all_checked.simps [simp del]

section \<open>Listings\<close>

definition parse_listing_line :: "string \<Rightarrow> u8 \<Rightarrow> file_info option" where
  "parse_listing_line line level =
     (case split_whitespace line of
        name # sz # created # _ \<Rightarrow>
          (case parse_filename name of
             None \<Rightarrow> None
           | Some (min_txid, max_txid) \<Rightarrow>
               (case parse_dec 64 sz of
                  None \<Rightarrow> None
                | Some n \<Rightarrow>
                    Some (mk_info level min_txid max_txid (of_nat n)
                      (if created = ''-'' then None else map_option (\<lambda>ms. int ms * 1000000) (parse_dec 64 created)))))
      | _ \<Rightarrow> None)"

definition MAX_LISTING :: nat where "MAX_LISTING = 67108864"

definition listing_ctx :: "u8 \<Rightarrow> string" where
  "listing_ctx level = ''list level '' @ fmt_dec (unat level)"

definition parse_listing :: "u8 \<Rightarrow> string \<Rightarrow> file_info list" where
  "parse_listing level text = sort_key range_key (List.map_filter (\<lambda>line. parse_listing_line line level) (lines text))"

text \<open>What the client makes of a response to a listing request.\<close>

definition receive_listing :: "u8 \<Rightarrow> transport_response \<Rightarrow> ('w, file_info list) tr" where
  "receive_listing level resp =
     (let ctx = listing_ctx level in
      if tp_status resp \<noteq> 200 then m_err (status_error ctx False resp)
      else case content_length (tp_headers resp) of
        None \<Rightarrow> m_err (StOther (ctx @ '': missing content-length''))
      | Some declared \<Rightarrow>
          if MAX_LISTING < declared then m_err (StOther (ctx @ '': implausible listing size '' @ fmt_dec declared))
          else m_bind (read_all_checked ctx [] (tp_long_lived resp) (tp_body resp)) (\<lambda>raw.
            if length raw \<noteq> declared
            then m_err (Unavailable (ctx @ '': truncated listing ('' @ fmt_dec (length raw) @ '' of '' @ fmt_dec declared @ '' bytes)''))
            else case from_utf8 raw of
              None \<Rightarrow> m_err (StOther (ctx @ '': non-utf8 listing''))
            | Some text \<Rightarrow> m_ok (parse_listing level text)))"

definition http_ltx_files :: "'w transport \<Rightarrow> http_replica_client \<Rightarrow> u8 \<Rightarrow> txid \<Rightarrow> bool \<Rightarrow> ('w, file_info list) tr" where
  "http_ltx_files ex cl level seek use_metadata =
     (let url = hc_base_url cl @ ''/ltx/'' @ fmt_dec (unat level) @ ''?seek='' @ txid_display seek @ (if use_metadata then ''&meta=1'' else []) in
      m_bind (exec ex cl ''GET'' url False None) (receive_listing level))"

section \<open>Files\<close>

definition file_url :: "http_replica_client \<Rightarrow> u8 \<Rightarrow> txid \<Rightarrow> txid \<Rightarrow> string" where
  "file_url cl level min_txid max_txid = hc_base_url cl @ ''/ltx/'' @ fmt_dec (unat level) @ ''/'' @ format_filename min_txid max_txid"

definition range_text :: "u8 \<Rightarrow> txid \<Rightarrow> txid \<Rightarrow> string" where
  "range_text level min_txid max_txid = ''L'' @ fmt_dec (unat level) @ '' '' @ txid_display min_txid @ ''-'' @ txid_display max_txid"

text \<open>An opened file is spooled bytes, or, for a range, the reader of the body.\<close>

datatype opened = Spooled "byte list" | Streaming bool body

definition spool_body :: "bool \<Rightarrow> body \<Rightarrow> ('w, byte list) tr" where
  "spool_body ll b = read_all_checked ''read file body'' [] ll b"

definition receive_file :: "u8 \<Rightarrow> txid \<Rightarrow> txid \<Rightarrow> bool \<Rightarrow> transport_response \<Rightarrow> ('w, opened) tr" where
  "receive_file level min_txid max_txid whole resp =
     (if tp_status resp = 200 \<and> whole then
        m_bind (spool_body (tp_long_lived resp) (tp_body resp)) (\<lambda>spool. m_ok (Spooled spool))
      else if tp_status resp = 200 then m_ok (Streaming (tp_long_lived resp) (tp_body resp))
      else if tp_status resp = 404 then m_err (NotFound level min_txid max_txid)
      else m_err (status_error (''open '' @ range_text level min_txid max_txid) False resp))"

definition http_open_ltx_file :: "'w transport \<Rightarrow> http_replica_client \<Rightarrow> u8 \<Rightarrow> txid \<Rightarrow> txid \<Rightarrow> u64 \<Rightarrow> u64 \<Rightarrow> ('w, opened) tr" where
  "http_open_ltx_file ex cl level min_txid max_txid offset sz =
     (let url = file_url cl level min_txid max_txid @
            (if 0 < offset \<or> 0 < sz then ''?offset='' @ fmt_dec (unat offset) @ ''&size='' @ fmt_dec (unat sz) else []) in
      m_bind (exec ex cl ''GET'' url False None) (receive_file level min_txid max_txid (offset = 0 \<and> sz = 0)))"

definition receive_put :: "u8 \<Rightarrow> string \<Rightarrow> transport_response \<Rightarrow> ('w, file_info) tr" where
  "receive_put level ctx resp =
     (if tp_status resp = 200 then
        (case read_limited (tp_long_lived resp) 4096 [] (tp_body resp) of
           (raw, Some e) \<Rightarrow> m_err (transport_err ctx e)
         | (raw, None) \<Rightarrow>
             (case from_utf8 raw of
                None \<Rightarrow> m_err (transport_err ctx (IoError InvalidData ''stream did not contain valid UTF-8''))
              | Some body \<Rightarrow>
                  (case parse_listing_line (case lines body of [] \<Rightarrow> [] | l # _ \<Rightarrow> l) level of
                     Some info \<Rightarrow> m_ok info
                   | None \<Rightarrow> m_err (StOther (''push L'' @ fmt_dec (unat level) @ '': bad put response '' @ str_debug body)))))
      else m_err (status_error ctx True resp))"

definition http_write_ltx_file :: "'w transport \<Rightarrow> http_replica_client \<Rightarrow> u8 \<Rightarrow> txid \<Rightarrow> txid \<Rightarrow> byte list \<Rightarrow> ('w, file_info) tr" where
  "http_write_ltx_file ex cl level min_txid max_txid rd =
     m_bind (exec ex cl ''PUT'' (file_url cl level min_txid max_txid) False (Some rd))
       (receive_put level (''push '' @ range_text level min_txid max_txid))"

fun http_delete_ltx_files :: "'w transport \<Rightarrow> http_replica_client \<Rightarrow> file_info list \<Rightarrow> ('w, unit) tr" where
  "http_delete_ltx_files ex cl [] = m_ok ()"
| "http_delete_ltx_files ex cl (info # infos) =
     m_bind (exec ex cl ''DELETE'' (file_url cl (fi_level info) (fi_min_txid info) (fi_max_txid info)) False None) (\<lambda>resp.
       if tp_status resp \<noteq> 200
       then m_err (status_error (''delete '' @ range_text (fi_level info) (fi_min_txid info) (fi_max_txid info)) True resp)
       else http_delete_ltx_files ex cl infos)"

definition http_delete_all :: "'w transport \<Rightarrow> http_replica_client \<Rightarrow> ('w, unit) tr" where
  "http_delete_all ex cl =
     m_bind (exec ex cl ''DELETE'' (hc_base_url cl @ ''/all'') False None) (\<lambda>resp.
       if tp_status resp \<noteq> 200 then m_err (status_error ''delete all'' True resp) else m_ok ())"

definition http_set_cancel :: "cancel_token \<Rightarrow> ('w, unit) tr" where
  "http_set_cancel token = m_mod (\<lambda>st. st\<lparr>ts_cancel := token\<rparr>)"

definition http_open_ltx_stream :: "'w transport \<Rightarrow> http_replica_client \<Rightarrow> (nat \<Rightarrow> nat) \<Rightarrow> txid \<Rightarrow> ('w, http_ltx_stream) tr" where
  "http_open_ltx_stream ex cl clock seek =
     m_bind (exec ex cl ''GET'' (hc_base_url cl @ ''/stream?seek='' @ txid_display seek) True None) (\<lambda>resp.
       if tp_status resp \<noteq> 200 then m_err (status_error ''open stream'' False resp)
       else m_bind m_get (\<lambda>st. m_ok (http_stream_new (tp_body resp) (co_stream_deadman (hc_opts cl)) (ts_cancel st) clock)))"

end
