(* ===== verification/HttpHeads.thy ===== *)
theory HttpHeads
  imports HttpClient
begin

text \<open>
  Heads across a connection: a request or response head that one side writes is the head the other side reads,
  in whatever pieces it arrives, and the socket is left exactly behind it.
\<close>

section \<open>Texts\<close>

lemma text_line_CR: "text_line s \<Longrightarrow> finish_line (to_bytes s @ [CR]) = Ok (Some s)"
proof -
  assume s: "text_line s"
  then have "is_ascii s" by (auto simp: text_line_def is_ascii_def list_all_iff)
  then show ?thesis by (simp add: finish_line_def from_utf8_ascii)
qed

definition trimmed :: "string \<Rightarrow> bool" where
  "trimmed s \<longleftrightarrow> text_line s \<and> (s = [] \<or> plain [hd s] \<and> plain [last s])"

lemma trim_trimmed: "trimmed s \<Longrightarrow> trim s = s"
proof (cases "s = []")
  case False
  assume "trimmed s"
  then have e: "plain [hd s]" "plain [last s]" using False by (auto simp: trimmed_def)
  have "skip_ws white_space s = s" using e(1) False by (cases s) (auto simp: skip_ws.simps ws_len_plain)
  moreover have "skip_ws (map rev white_space) (rev s) = rev s"
    using e(2) False by (cases s rule: rev_cases) (auto simp: skip_ws.simps ws_len_plain_rev)
  ultimately show ?thesis by (simp add: trim_def)
qed (simp add: trim_def)

lemma trim_space: "trim (CHR '' '' # s) = trim s"
  by (simp add: trim_def skip_ws_space)

lemma plain_trimmed: "plain s \<Longrightarrow> trimmed s"
proof -
  assume s: "plain s"
  then have "plain [c]" if "c \<in> set s" for c using that by (simp add: plain_def list_all_iff)
  then show ?thesis using s hd_in_set [of s] last_in_set [of s] by (cases "s = []") (simp_all add: trimmed_def text_line_plain)
qed

section \<open>Header lines\<close>

definition good_header :: "string \<times> string \<Rightarrow> bool" where
  "good_header h \<longleftrightarrow> plain (fst h) \<and> CHR '':'' \<notin> set (fst h) \<and> to_ascii_lowercase (fst h) = fst h \<and> trimmed (snd h) \<and>
     length (fst h) + length (snd h) + 3 \<le> MAX_LINE"

lemma good_header_line:
  assumes "good_header h"
  shows "text_line (fst h @ '': '' @ snd h)" and "length (fst h @ '': '' @ snd h) + 1 \<le> MAX_LINE"
    and "split_once (CHR '':'') (fst h @ '': '' @ snd h) = Some (fst h, CHR '' '' # snd h)"
    and "to_ascii_lowercase (trim (fst h)) = fst h" and "trim (CHR '' '' # snd h) = snd h"
  using assms split_once_append [of "CHR '':''" "fst h" "CHR '' '' # snd h"]
  by (auto simp: good_header_def trimmed_def text_line_plain trim_plain trim_space trim_trimmed)

text \<open>A line that ends in CRLF, read from a socket that does not time out.\<close>

lemma read_line_CRLF:
  assumes "net_pends net (to_bytes (s @ CRLF_str) @ rest) None" and "net_ticks net = 0" and "text_line s" and "length s + 1 \<le> MAX_LINE"
  obtains net' where "read_line net_read [] net = (Ok (Some s), [], net')" "net_pends net' rest None" "net_ticks net' = 0"
proof -
  obtain res buf net' where run: "read_line net_read [] net = (res, buf, net')" by (metis prod_cases3)
  have d: "to_bytes (s @ CRLF_str) @ rest = (to_bytes s @ [CR]) @ LF # rest" by (simp add: CRLF_str_def)
  have "LF \<notin> set (to_bytes s @ [CR])" using text_line_finish(1) [OF assms(3)] by simp
  moreover have "length (to_bytes s @ [CR]) \<le> MAX_LINE" using assms(4) by simp
  ultimately show thesis
    using net.read_line_finds [OF assms(1), of "[]" "to_bytes s @ [CR]" rest s res buf net'] d text_line_CR [OF assms(3)] run assms(2) that
    by auto
qed

lemma read_headers_lines:
  assumes "net_pends net (to_bytes (header_lines hs @ CRLF_str) @ rest) None" and "net_ticks net = 0" and "list_all good_header hs"
    and "length acc + length hs \<le> MAX_HEADERS"
  obtains net' where "read_headers acc [] net = (Ok (acc @ hs), net')" "net_pends net' rest None" "net_ticks net' = 0"
proof -
  have "\<exists>net'. read_headers acc [] net = (Ok (acc @ hs), net') \<and> net_pends net' rest None \<and> net_ticks net' = 0"
    using assms
  proof (induction hs arbitrary: acc net)
    case Nil
    have "net_pends net (to_bytes ([] @ CRLF_str) @ rest) None" using Nil.prems(1) by (simp add: header_lines_def)
    from read_line_CRLF [OF this Nil.prems(2)] obtain net1
      where "read_line net_read [] net = (Ok (Some []), [], net1)" "net_pends net1 rest None" "net_ticks net1 = 0" by (auto simp: MAX_LINE_def)
    then show ?case by (subst read_headers.simps) simp
  next
    case (Cons h hs)
    note line = good_header_line [of h]
    let ?l = "fst h @ '': '' @ snd h"
    have h: "good_header h" using Cons.prems(3) by simp
    have "net_pends net (to_bytes (?l @ CRLF_str) @ to_bytes (header_lines hs @ CRLF_str) @ rest) None"
      using Cons.prems(1) by (simp add: header_lines_def header_line_def)
    from read_line_CRLF [OF this Cons.prems(2) line(1,2) [OF h]] obtain net1
      where net1: "read_line net_read [] net = (Ok (Some ?l), [], net1)" "net_pends net1 (to_bytes (header_lines hs @ CRLF_str) @ rest) None"
        "net_ticks net1 = 0" .
    have "\<not> MAX_HEADERS \<le> length acc" using Cons.prems(4) by simp
    moreover have "?l \<noteq> []" by simp
    ultimately have "read_headers acc [] net = read_headers (acc @ [h]) [] net1"
      using net1(1) line(3-5) [OF h] by (subst read_headers.simps) simp
    then show ?case using Cons.IH [OF net1(2,3), of "acc @ [h]"] Cons.prems(3,4) by simp
  qed
  then show thesis using that by blast
qed

lemma read_head_lines:
  assumes "net_pends net (to_bytes (start @ CRLF_str @ header_lines hs @ CRLF_str) @ rest) None" and "net_ticks net = 0"
    and "text_line start" "start \<noteq> []" "length start + 1 \<le> MAX_LINE" and "list_all good_header hs" "length hs \<le> MAX_HEADERS"
  obtains net' where "read_head net = (Ok (start, hs), net')" "net_pends net' rest None" "net_ticks net' = 0"
proof -
  have "net_pends net (to_bytes (start @ CRLF_str) @ to_bytes (header_lines hs @ CRLF_str) @ rest) None" using assms(1) by simp
  from read_line_CRLF [OF this assms(2,3,5)] obtain net1 where net1: "read_line net_read [] net = (Ok (Some start), [], net1)"
    "net_pends net1 (to_bytes (header_lines hs @ CRLF_str) @ rest) None" "net_ticks net1 = 0" .
  from read_headers_lines [OF net1(2,3) assms(6), of "[]"] assms(7) obtain net2
    where "read_headers [] [] net1 = (Ok hs, net2)" "net_pends net2 rest None" "net_ticks net2 = 0" by auto
  then show thesis using that net1(1) assms(4) by (auto simp: read_head_def)
qed

end
