(* ===== verification/HttpExchange.thy ===== *)
theory HttpExchange
  imports HttpHeads MountProps
begin

text \<open>
  One request and its response: what the built-in transport sends reaches the mount as the request it stands for, and
  the mount's response comes back with its status, its headers and its whole body, in whatever pieces the network
  delivers the two byte streams.
\<close>

section \<open>Lines beyond the bound\<close>

context byte_source
begin

text \<open>A line that is longer than the bound is never returned.\<close>

lemma read_line_long:
  assumes "pends r d fin" and "buf @ d = w @ rest" and "LF \<notin> set w" and "MAX_LINE < length w" and "length buf \<le> MAX_LINE"
    and "read_line rd buf r = (res, buf', r')"
  shows "\<exists>e. res = Err e"
  using assms
proof (induction "Suc MAX_LINE - length buf" arbitrary: buf r d rule: less_induct)
  case less
  obtain u where u: "w = buf @ u" "d = u @ rest" using append_split_le [of buf d w rest] less.prems(2,4,5) by auto
  then obtain b u' where b: "u = b # u'" using less.prems(4,5) by (cases u) auto
  obtain x r1 where x: "rd 1 r = (x, r1)" by fastforce
  show ?case
  proof (cases x)
    case (Err e)
    then show ?thesis using less.prems(6) x by (auto simp: read_line.simps)
  next
    case (Ok bs)
    note ok = rd_Ok [OF less.prems(1) zero_less_one x [unfolded Ok]]
    have bs: "bs = [b]" using ok u b by (cases bs) auto
    obtain d1 where d1: "d = b # d1" "pends r1 d1 fin" using ok bs by auto
    have "b \<noteq> LF" using less.prems(3) u b by auto
    then have run: "(if MAX_LINE \<le> length buf then (Err (IoError InvalidData ''line exceeds max length''), buf, r1) else read_line rd (buf @ [b]) r1) = (res, buf', r')"
      using less.prems(6) x Ok bs by (subst (asm) read_line.simps) simp
    show ?thesis
    proof (cases "MAX_LINE \<le> length buf")
      case False
      then have "read_line rd (buf @ [b]) r1 = (res, buf', r')" using run by simp
      then show ?thesis using less.hyps [of "buf @ [b]" r1 d1] d1 less.prems(2-5) False by auto
    qed (use run in auto)
  qed
qed

end

section \<open>Paths\<close>

definition good_word :: "string \<Rightarrow> bool" where
  "good_word w \<longleftrightarrow> plain w \<and> w \<noteq> [] \<and> CHR ''/'' \<notin> set w \<and> CHR ''?'' \<notin> set w"

definition url_path :: "string list \<Rightarrow> string" where
  "url_path ws = concat (map (\<lambda>w. CHR ''/'' # w) ws)"

lemma url_path_append [simp]: "url_path (vs @ ws) = url_path vs @ url_path ws"
  by (simp add: url_path_def)

lemma url_path_join: "ws \<noteq> [] \<Longrightarrow> url_path ws = CHR ''/'' # join (CHR ''/'') ws"
  by (induction "CHR ''/''" ws rule: join.induct) (simp_all add: url_path_def)

lemma plain_url_path: "list_all good_word ws \<Longrightarrow> plain (url_path ws)"
  by (induction ws) (auto simp: url_path_def good_word_def)

lemma query_not_in_path: "list_all good_word ws \<Longrightarrow> CHR ''?'' \<notin> set (url_path ws)"
  by (induction ws) (auto simp: url_path_def good_word_def)

lemma split_on_join: "ws \<noteq> [] \<Longrightarrow> list_all good_word ws \<Longrightarrow> split_on (CHR ''/'') (join (CHR ''/'') ws) = ws"
  by (induction "CHR ''/''" ws rule: join.induct) (auto simp: good_word_def split_on_word split_on_append)

lemma join_ends:
  assumes "ws \<noteq> []" and "list_all good_word ws"
  shows "join (CHR ''/'') ws \<noteq> [] \<and> hd (join (CHR ''/'') ws) \<noteq> CHR ''/'' \<and> last (join (CHR ''/'') ws) \<noteq> CHR ''/''"
  using assms
proof (induction ws rule: list.induct)
  case (Cons w ws)
  then have "w \<noteq> []" "hd w \<noteq> CHR ''/''" "last w \<noteq> CHR ''/''" by (auto simp: good_word_def dest: hd_in_set last_in_set)
  then show ?case using Cons by (cases ws) auto
qed simp

lemma dropWhile_hd: "xs \<noteq> [] \<Longrightarrow> \<not> P (hd xs) \<Longrightarrow> dropWhile P xs = xs"
  by (cases xs) auto

lemma trim_matches_join:
  assumes "ws \<noteq> []" and "list_all good_word ws"
  shows "trim_matches (CHR ''/'') (join (CHR ''/'') ws) = join (CHR ''/'') ws" "trim_matches (CHR ''/'') (url_path ws) = join (CHR ''/'') ws"
  using join_ends [OF assms] by (simp_all add: url_path_join [OF assms(1)] trim_matches_def trim_end_matches_def dropWhile_hd hd_rev)

lemmas path_segments = trim_matches_join split_on_join

section \<open>The request\<close>

definition target_of :: "string list \<Rightarrow> string \<Rightarrow> string" where
  "target_of ws query = url_path ws @ (if query = [] then [] else CHR ''?'' # query)"

lemma plain_target: "list_all good_word ws \<Longrightarrow> plain query \<Longrightarrow> plain (target_of ws query)"
  by (simp add: target_of_def plain_url_path)

lemma split_target:
  "list_all good_word ws \<Longrightarrow>
   (case split_once (CHR ''?'') (target_of ws query) of None \<Rightarrow> (target_of ws query, []) | Some pq \<Rightarrow> pq) = (url_path ws, query)"
  using query_not_in_path [of ws] by (simp add: target_of_def split_once_append split_once_None)

definition mount_request :: "string \<Rightarrow> string list \<Rightarrow> string \<Rightarrow> headers \<Rightarrow> body \<Rightarrow> request" where
  "mount_request meth rest query hs body =
     \<lparr>rq_method = meth, rq_path = join (CHR ''/'') rest, rq_query = query, rq_headers = hs, rq_body = body, rq_cancel = Never\<rparr>"

lemma server_route_mount:
  assumes "list_all good_word (base @ rest)" and "rest \<noteq> []" and "(if meth = ''PUT'' then put_body hs net else Some BEmpty) = Some body"
  shows "server_route c opts base Never m meth (url_path (base @ rest)) query hs net =
    handle c opts m (mount_request meth rest query hs body)"
proof -
  have ws: "base @ rest \<noteq> []" using assms(2) by simp
  have seg: "split_on (CHR ''/'') (trim_matches (CHR ''/'') (url_path (base @ rest))) = base @ rest"
    using path_segments(2,3) [OF ws assms(1)] by simp
  have "base @ rest \<noteq> [[]]" using assms(1) by (cases "base @ rest") (auto simp: good_word_def)
  then show ?thesis unfolding server_route_def seg Let_def using assms(3) by (simp add: mount_request_def)
qed

text \<open>The head of a request as the server reads it.\<close>

lemma server_reads:
  assumes "net_pends net (to_bytes (meth @ '' '' @ target_of ws query @ '' HTTP/1.1'' @ CRLF_str @ header_lines hs @ CRLF_str) @ d) None"
    and "net_ticks net = 0" and "plain meth" "meth \<noteq> []" and "ws \<noteq> []" "list_all good_word ws" and "plain query"
    and "length meth + length (target_of ws query) + 11 \<le> MAX_LINE" and "list_all good_header hs" "length hs \<le> MAX_HEADERS"
  obtains net' where "net_pends net' d None" "net_ticks net' = 0"
    "handle_connection c opts base Never m net k =
       (case server_route c opts base Never m meth (url_path ws) query hs net' of (resp, m') \<Rightarrow>
          ((case write_response_body resp Never k of (Ok sb, k') \<Rightarrow> (sb, k') | (Err _, k') \<Rightarrow> (None, k')), m'))"
proof -
  let ?t = "target_of ws query" let ?start = "meth @ '' '' @ ?t @ '' HTTP/1.1''"
  have t: "plain ?t" "?t \<noteq> []" using plain_target [OF assms(6,7)] assms(5) by (auto simp: target_of_def url_path_join)
  have "net_pends net (to_bytes (?start @ CRLF_str @ header_lines hs @ CRLF_str) @ d) None" using assms(1) by simp
  moreover have "text_line ?start" "?start \<noteq> []" using assms(3,4) t by (simp_all add: text_line_plain)
  moreover have "length ?start + 1 \<le> MAX_LINE" using assms(8) by simp
  ultimately obtain net' where net': "read_head net = (Ok (?start, hs), net')" "net_pends net' d None" "net_ticks net' = 0"
    using read_head_lines [of net ?start hs d] assms(2,9,10) by blast
  have "split_whitespace (meth @ CHR '' '' # (?t @ CHR '' '' # ''HTTP/1.1'')) = [meth, ?t, ''HTTP/1.1'']"
    using split_whitespace_word [OF assms(3,4)] split_whitespace_word(1) [OF t] split_whitespace_word(2) [of "''HTTP/1.1''"] by simp
  then have words: "split_whitespace ?start = [meth, ?t, ''HTTP/1.1'']" by simp
  show thesis
  proof (rule that [OF net'(2,3)])
    show "handle_connection c opts base Never m net k =
       (case server_route c opts base Never m meth (url_path ws) query hs net' of (resp, m') \<Rightarrow>
          ((case write_response_body resp Never k of (Ok sb, k') \<Rightarrow> (sb, k') | (Err _, k') \<Rightarrow> (None, k')), m'))"
      unfolding handle_connection_def net'(1) words prod.case result.case list.case split_target [OF assms(6)] by simp
  qed
qed

section \<open>The response\<close>

text \<open>The headers a mount sets.\<close>

definition mount_headers :: "headers list" where
  "mount_headers = [[(''content-type'', ''text/plain; charset=utf-8'')], [(''content-type'', ''application/octet-stream'')],
     [(''content-type'', ''application/x-liters-ltx-stream''), (''cache-control'', ''no-cache, no-transform''), (''x-accel-buffering'', ''no'')]]"

definition framed :: "response \<Rightarrow> bool" where
  "framed resp \<longleftrightarrow> rs_headers resp \<in> set mount_headers \<and> rs_status resp < 1000"

definition is_stream :: "response \<Rightarrow> bool" where
  "is_stream resp \<longleftrightarrow> (\<exists>sb. rs_body resp = BodyStream sb)"

definition textual :: "response \<Rightarrow> bool" where
  "textual resp \<longleftrightarrow> (\<exists>n b. resp = response_text n b \<and> n < 1000)"

lemma textual_framed: "textual resp \<Longrightarrow> framed resp \<and> \<not> is_stream resp"
  by (auto simp: textual_def framed_def is_stream_def response_text_def mount_headers_def)

lemma textual_text: "n < 1000 \<Longrightarrow> textual (response_text n b)" "n < 1000 \<Longrightarrow> textual (response_error n b)"
  by (auto simp: textual_def response_error_def)

lemma textual_fence: "textual (fence_reject_response rej)"
  by (cases rej) (simp_all add: fence_reject_response_def textual_text)

lemma textual_put:
  assumes "accept_file c opts m lev name hs body = (resp, m')"
  shows "textual resp"
proof -
  have w: "textual resp" if "put_write c m2 pass p = (resp, m')" for m2 pass p
    using that by (auto simp: put_write_def textual_text split: result.splits storage_error.splits if_splits)
  have "textual resp" if "put_commit c opts m1 p = (resp, m')" for m1 p
    using that w by (auto simp: put_commit_def textual_text textual_fence split: prod.splits result.splits option.splits if_splits)
  moreover have "textual e" if "put_begin c opts m lev name hs body = (Err e, m1)" for e m1
    using that by (auto simp: put_begin_def read_only_response_def textual_text textual_fence split: if_splits option.splits prod.splits result.splits)
  ultimately show ?thesis using assms by (auto simp: accept_file_def split: prod.splits result.splits)
qed

lemma textual_serve:
  "textual (serve_listing c s lev query)" "delete_file c opts m lev name hs = (resp, m') \<Longrightarrow> textual resp"
  "mount_delete_all c opts m hs = (resp, m') \<Longrightarrow> textual resp"
  by (auto simp: serve_listing_def delete_file_def mount_delete_all_def deleted_def read_only_response_def textual_text textual_fence
      split: if_splits option.splits prod.splits result.splits)

lemma framed_serve:
  "framed (serve_file c s lev name query) \<and> \<not> is_stream (serve_file c s lev name query)" "framed (serve_stream opts query cancel)"
proof -
  have served: "framed r \<and> \<not> is_stream r" if "r = \<lparr>rs_status = 200, rs_headers = [(''content-type'', ''application/octet-stream'')], rs_body = BodyReader d\<rparr>"
    for r d using that by (simp add: framed_def is_stream_def mount_headers_def)
  have bad: "framed (response_error n e) \<and> \<not> is_stream (response_error n e)" if "n < 1000" for n e by (rule textual_framed [OF textual_text(2) [OF that]])
  show "framed (serve_file c s lev name query) \<and> \<not> is_stream (serve_file c s lev name query)"
    unfolding serve_file_def by (auto simp: bad served split: option.splits result.splits storage_error.splits)
  have stream: "framed \<lparr>rs_status = 200, rs_headers = [(''content-type'', ''application/x-liters-ltx-stream''),
      (''cache-control'', ''no-cache, no-transform''), (''x-accel-buffering'', ''no'')], rs_body = b\<rparr>" for b
    by (simp add: framed_def mount_headers_def)
  show "framed (serve_stream opts query cancel)" by (auto simp: serve_stream_def bad stream split: option.splits)
qed

lemma handle_framed:
  assumes "handle c opts m req = (resp, m')"
  shows "framed resp" and "route_of (rq_method req) (rq_path req) \<noteq> RStream \<Longrightarrow> \<not> is_stream resp"
proof -
  have t: "framed (response_text n b)" "\<not> is_stream (response_text n b)" "framed (response_error n b)" "\<not> is_stream (response_error n b)" if "n < 1000" for n b
    using textual_framed [OF textual_text(1) [OF that]] textual_framed [OF textual_text(2) [OF that]] by blast+
  note d = textual_framed [OF textual_put] textual_framed [OF textual_serve(2)] textual_framed [OF textual_serve(3)]
  note l = textual_framed [OF textual_serve(1)]
  show "framed resp" using assms by (auto simp: handle_def t framed_serve l dest: d split: if_splits route.splits)
  show "route_of (rq_method req) (rq_path req) \<noteq> RStream \<Longrightarrow> \<not> is_stream resp"
    using assms by (auto simp: handle_def t framed_serve l dest: d split: if_splits route.splits)
qed

lemma get_header_append: "get_header (xs @ ys) n = (case get_header xs n of None \<Rightarrow> get_header ys n | Some v \<Rightarrow> Some v)"
  by (induction xs) (auto simp: get_header_def)

lemma get_header_Cons: "get_header ((n, v) # hs) n' = (if n = n' then Some v else get_header hs n')"
  by (simp add: get_header_def)

lemma get_header_Nil [simp]: "get_header [] n = None"
  by (simp add: get_header_def)

definition response_headers :: "response \<Rightarrow> headers" where
  "response_headers resp =
     [(PROTOCOL_HEADER, PROTOCOL_VERSION), (''server'', ''liters''), (''connection'', ''close'')] @ rs_headers resp @
     [case rs_body resp of BodyBytes b \<Rightarrow> (''content-length'', fmt_dec (length b)) | _ \<Rightarrow> (''transfer-encoding'', ''chunked'')]"

definition payload :: "response \<Rightarrow> byte list" where
  "payload resp = (case rs_body resp of BodyBytes b \<Rightarrow> b | BodyReader d \<Rightarrow> d | BodyStream _ \<Rightarrow> [])"

lemma chunked_body_simps: "chunked_body [] = to_bytes ''0'' @ CRLF @ CRLF" "chunked_body (b # cs) = chunk_bytes b @ chunked_body cs"
  by (simp_all add: chunked_body_def)

lemma send_reader_chunks:
  "s_room k = None \<Longrightarrow> \<exists>cs. good_chunks cs \<and> concat cs = d \<and> send_reader d Never k = (Ok (), k\<lparr>s_out := s_out k @ chunked_body cs\<rparr>)"
proof (induction "length d" arbitrary: d k rule: less_induct)
  case less
  show ?case
  proof (cases "d = []")
    case True
    then show ?thesis using less.prems
      by (intro exI [of _ "[]"]) (simp add: send_reader.simps token_poll_def good_chunks_def chunk_finish_def write_all_unbroken chunked_body_simps)
  next
    case False
    let ?b = "take COPY_BUF d" let ?k = "k\<lparr>s_out := s_out k @ chunk_bytes ?b\<rparr>"
    have b: "?b \<noteq> []" "length ?b < 2 ^ 64" "length (drop COPY_BUF d) < length d" using False by (simp_all add: COPY_BUF_def)
    obtain cs where cs: "good_chunks cs" "concat cs = drop COPY_BUF d"
        "send_reader (drop COPY_BUF d) Never ?k = (Ok (), ?k\<lparr>s_out := s_out ?k @ chunked_body cs\<rparr>)"
      using less.hyps [OF b(3), of ?k] less.prems by auto
    have "send_reader d Never k = (Ok (), k\<lparr>s_out := s_out k @ chunked_body (?b # cs)\<rparr>)"
      using cs(3) chunk_unbroken [OF less.prems, of ?b] b(1) False
      by (subst send_reader.simps) (simp add: token_poll_def m_bind_def chunked_body_simps)
    moreover have "good_chunks (?b # cs)" "concat (?b # cs) = d" using cs(1,2) b(1,2) by (simp_all add: good_chunks_def)
    ultimately show ?thesis by blast
  qed
qed

text \<open>The bytes of a response.\<close>

lemma write_response_bytes:
  assumes "\<not> is_stream resp"
  obtains coded where "write_response_body resp Never \<lparr>s_out = [], s_room = None\<rparr> =
      (Ok None, \<lparr>s_out = to_bytes ((''HTTP/1.1 '' @ fmt_dec (rs_status resp) @ '' '' @ reason (rs_status resp)) @ CRLF_str @
         header_lines (response_headers resp) @ CRLF_str) @ coded, s_room = None\<rparr>)"
    "case rs_body resp of BodyBytes b \<Rightarrow> coded = b | _ \<Rightarrow> \<exists>cs. good_chunks cs \<and> concat cs = payload resp \<and> coded = chunked_body cs"
proof (cases "rs_body resp")
  case (BodyBytes b)
  then show thesis
    by (intro that [of b]) (simp_all add: write_response_body_def response_head_def response_headers_def header_lines_def header_line_def
        write_all_unbroken m_bind_def)
next
  case (BodyReader d)
  let ?k = "\<lparr>s_out = to_bytes (response_head resp @ header_line (''transfer-encoding'', ''chunked'') @ CRLF_str), s_room = None\<rparr>"
  obtain cs where cs: "good_chunks cs" "concat cs = d" "send_reader d Never ?k = (Ok (), ?k\<lparr>s_out := s_out ?k @ chunked_body cs\<rparr>)"
    using send_reader_chunks [of ?k d] by auto
  show thesis
    by (rule that [of "chunked_body cs"])
      (use cs BodyReader in \<open>auto simp: payload_def write_response_body_def response_head_def response_headers_def header_lines_def
        header_line_def write_all_unbroken m_bind_def\<close>)
next
  case (BodyStream sb)
  then show thesis using assms by (simp add: is_stream_def)
qed

lemma good_mount_headers: "list_all (list_all good_header) mount_headers"
  by (simp add: mount_headers_def good_header_def trimmed_def to_ascii_lowercase_def ascii_lower_def MAX_LINE_def)

lemma good_standard_headers:
  "list_all good_header [(PROTOCOL_HEADER, PROTOCOL_VERSION), (''server'', ''liters''), (''connection'', ''close'')]"
  "good_header (''transfer-encoding'', ''chunked'')"
  by (simp_all add: PROTOCOL_HEADER_def PROTOCOL_VERSION_def good_header_def trimmed_def to_ascii_lowercase_def ascii_lower_def MAX_LINE_def)

lemma good_content_length: "n < 2 ^ 64 \<Longrightarrow> good_header (''content-length'', fmt_dec n)"
  using length_dec_u64 [of n]
  by (simp add: good_header_def to_ascii_lowercase_def ascii_lower_def MAX_LINE_def plain_trimmed)

text \<open>A last header that does not fit makes the head an error.\<close>

lemma read_headers_long:
  assumes "net_pends net (to_bytes (header_lines (hs @ [h])) @ rest) None" and "net_ticks net = 0" and "list_all good_header hs"
    and "text_line (fst h @ '': '' @ snd h)" and "MAX_LINE < length (fst h @ '': '' @ snd h) + 1"
  shows "\<exists>e net'. read_headers acc [] net = (Err e, net')"
  using assms
proof (induction hs arbitrary: acc net)
  case Nil
  let ?w = "to_bytes (fst h @ '': '' @ snd h) @ [CR]"
  obtain res buf net' where run: "read_line net_read [] net = (res, buf, net')" by (metis prod_cases3)
  moreover have "to_bytes (header_lines ([] @ [h])) @ rest = ?w @ LF # rest" by (simp add: header_lines_def header_line_def CRLF_str_def)
  moreover have "LF \<notin> set ?w" "MAX_LINE < length ?w" using text_line_finish(1) [OF Nil.prems(4)] Nil.prems(5) by simp_all
  ultimately obtain e where "res = Err e"
    using net.read_line_long [OF Nil.prems(1), of "[]" ?w "LF # rest" res buf net'] by auto
  then show ?case using run by (subst read_headers.simps) simp
next
  case (Cons g hs)
  let ?l = "fst g @ '': '' @ snd g"
  have g: "good_header g" using Cons.prems(3) by simp
  have "net_pends net (to_bytes (?l @ CRLF_str) @ to_bytes (header_lines (hs @ [h])) @ rest) None"
    using Cons.prems(1) by (simp add: header_lines_def header_line_def)
  from read_line_CRLF [OF this Cons.prems(2) good_header_line(1,2) [OF g]] obtain net1
    where net1: "read_line net_read [] net = (Ok (Some ?l), [], net1)" "net_pends net1 (to_bytes (header_lines (hs @ [h])) @ rest) None"
      "net_ticks net1 = 0" .
  have "?l \<noteq> []" by simp
  then have "read_headers acc [] net = (if MAX_HEADERS \<le> length acc then (Err (IoError InvalidData ''too many headers''), net1)
      else read_headers (acc @ [g]) [] net1)"
    using net1(1) good_header_line(3-5) [OF g] by (subst read_headers.simps) simp
  then show ?case using Cons.IH [OF net1(2,3)] Cons.prems(3-5) by simp
qed

definition status_line :: "response \<Rightarrow> string" where
  "status_line resp = ''HTTP/1.1 '' @ fmt_dec (rs_status resp) @ '' '' @ reason (rs_status resp)"

lemma reason_text: "text_line (reason n)" "length (reason n) \<le> 25"
  by (simp_all add: reason_def)

lemma status_line_text:
  assumes "rs_status resp < 1000"
  shows "text_line (status_line resp)" and "length (status_line resp) + 1 \<le> MAX_LINE" and "parse_status (status_line resp) = Some (rs_status resp)"
proof -
  show "text_line (status_line resp)" by (simp add: status_line_def text_line_plain reason_text)
  have "length (fmt_dec (rs_status resp)) \<le> 20" by (rule length_dec_u64) (use assms in simp)
  then show "length (status_line resp) + 1 \<le> MAX_LINE" using reason_text(2) [of "rs_status resp"] by (simp add: status_line_def MAX_LINE_def)
  have "split_whitespace (''HTTP/1.1'' @ CHR '' '' # (fmt_dec (rs_status resp) @ CHR '' '' # reason (rs_status resp))) =
      ''HTTP/1.1'' # fmt_dec (rs_status resp) # split_whitespace (reason (rs_status resp))"
    using split_whitespace_word(1) [of "''HTTP/1.1''"] split_whitespace_word(1) [of "fmt_dec (rs_status resp)"] by simp
  moreover have "parse_dec 16 (fmt_dec (rs_status resp)) = Some (rs_status resp)" by (rule parse_fmt_dec) (use assms in simp)
  ultimately show "parse_status (status_line resp) = Some (rs_status resp)" by (simp add: parse_status_def status_line_def)
qed

definition framing_header :: "response \<Rightarrow> string \<times> string" where
  "framing_header resp =
     (case rs_body resp of BodyBytes b \<Rightarrow> (''content-length'', fmt_dec (length b)) | _ \<Rightarrow> (''transfer-encoding'', ''chunked''))"

definition fits :: "response \<Rightarrow> bool" where
  "fits resp \<longleftrightarrow> (case rs_body resp of BodyBytes b \<Rightarrow> length b < 2 ^ 64 | _ \<Rightarrow> True)"

lemma framing_header_good: "fits resp \<Longrightarrow> good_header (framing_header resp)"
  by (simp add: fits_def framing_header_def good_content_length good_standard_headers(2) split: resp_body.splits)

lemma leading_headers_good:
  assumes "framed resp"
  obtains hs where "response_headers resp = hs @ [framing_header resp]" "list_all good_header hs" "length hs \<le> 6"
proof -
  let ?hs = "[(PROTOCOL_HEADER, PROTOCOL_VERSION), (''server'', ''liters''), (''connection'', ''close'')] @ rs_headers resp"
  have "list_all good_header (rs_headers resp)" "length (rs_headers resp) \<le> 3"
    using assms good_mount_headers by (auto simp: framed_def list_all_iff mount_headers_def)
  then show thesis using that [of ?hs] good_standard_headers(1) by (simp add: response_headers_def framing_header_def)
qed

text \<open>The head of a response as the client reads it.\<close>

lemma client_reads:
  assumes "framed resp" and "net_pends net (to_bytes (status_line resp @ CRLF_str @ header_lines (response_headers resp) @ CRLF_str) @ coded) None"
    and "net_ticks net = 0"
  obtains net' where "read_head net = (Ok (status_line resp, response_headers resp), net')" "net_pends net' coded None" "net_ticks net' = 0"
  | e net' where "read_head net = (Err e, net')" "\<not> fits resp"
proof -
  note start = status_line_text [of resp]
  have st: "rs_status resp < 1000" "status_line resp \<noteq> []" using assms(1) by (simp_all add: framed_def status_line_def)
  obtain hs where hs: "response_headers resp = hs @ [framing_header resp]" "list_all good_header hs" "length hs \<le> 6"
    by (rule leading_headers_good [OF assms(1)])
  show thesis
  proof (cases "good_header (framing_header resp)")
    case True
    then have "list_all good_header (response_headers resp)" "length (response_headers resp) \<le> MAX_HEADERS"
      using hs by (simp_all add: MAX_HEADERS_def)
    then show thesis using read_head_lines [OF assms(2,3) start(1) [OF st(1)] st(2) start(2) [OF st(1)]] that(1) by blast
  next
    case False
    let ?h = "framing_header resp"
    have big: "\<not> fits resp" using False framing_header_good by blast
    then have "\<exists>n. ?h = (''content-length'', fmt_dec n)" by (cases "rs_body resp") (auto simp: fits_def framing_header_def)
    then obtain n where b: "?h = (''content-length'', fmt_dec n)" by blast
    have "text_line (fst ?h @ '': '' @ snd ?h)" using b by (simp add: text_line_plain)
    moreover have "MAX_LINE < length (fst ?h @ '': '' @ snd ?h) + 1"
      using False b by (simp add: good_header_def plain_trimmed to_ascii_lowercase_def ascii_lower_def)
    moreover have "net_pends net (to_bytes (status_line resp @ CRLF_str) @ to_bytes (header_lines (hs @ [?h])) @ to_bytes CRLF_str @ coded) None"
      using assms(2) hs(1) by simp
    from read_line_CRLF [OF this assms(3) start(1,2) [OF st(1)]] obtain net1
      where net1: "read_line net_read [] net = (Ok (Some (status_line resp)), [], net1)"
        "net_pends net1 (to_bytes (header_lines (hs @ [?h])) @ to_bytes CRLF_str @ coded) None" "net_ticks net1 = 0" .
    ultimately obtain e net' where "read_headers [] [] net1 = (Err e, net')" using read_headers_long [OF net1(2,3) hs(2)] by blast
    then have "read_head net = (Err e, net')" using net1(1) st(2) by (simp add: read_head_def)
    then show thesis using that(2) big by blast
  qed
qed

text \<open>The body as the client reads it.\<close>

lemma response_framing:
  assumes "framed resp"
  shows "is_chunked (response_headers resp) \<longleftrightarrow> \<not> (\<exists>b. rs_body resp = BodyBytes b)"
    and "rs_body resp = BodyBytes b \<Longrightarrow> content_length (response_headers resp) = parse_dec 64 (fmt_dec (length b))"
    and "get_header (response_headers resp) PROTOCOL_HEADER = Some PROTOCOL_VERSION"
proof -
  have no: "get_header (rs_headers resp) ''transfer-encoding'' = None" "get_header (rs_headers resp) ''content-length'' = None"
    using assms by (auto simp: framed_def mount_headers_def get_header_Cons)
  show "is_chunked (response_headers resp) \<longleftrightarrow> \<not> (\<exists>b. rs_body resp = BodyBytes b)"
    using no by (simp add: is_chunked_def response_headers_def get_header_Cons get_header_append PROTOCOL_HEADER_def eq_ignore_ascii_case_def
        split: resp_body.splits)
  show "rs_body resp = BodyBytes b \<Longrightarrow> content_length (response_headers resp) = parse_dec 64 (fmt_dec (length b))"
    using no by (simp add: content_length_def response_headers_def get_header_Cons get_header_append PROTOCOL_HEADER_def)
  show "get_header (response_headers resp) PROTOCOL_HEADER = Some PROTOCOL_VERSION"
    by (simp add: response_headers_def get_header_Cons)
qed

lemma response_body_pends:
  assumes "framed resp" and "fits resp" and "net_pends net coded None" and "net_ticks net = 0"
    and "case rs_body resp of BodyBytes b \<Rightarrow> coded = b | _ \<Rightarrow> \<exists>cs. good_chunks cs \<and> concat cs = payload resp \<and> coded = chunked_body cs"
  shows "body_pends (body_reader (response_headers resp) net) (payload resp) None" and "body_ticks (body_reader (response_headers resp) net) = 0"
proof -
  note fr = response_framing [OF assms(1)]
  have "body_pends (body_reader (response_headers resp) net) (payload resp) None \<and> body_ticks (body_reader (response_headers resp) net) = 0"
  proof (cases "rs_body resp")
    case (BodyBytes b)
    then have "body_reader (response_headers resp) net = BTake net (length b)"
      using fr(1,2) assms(2) by (simp add: body_reader_def fits_def parse_fmt_dec)
    moreover have "coded = b" "payload resp = b" using assms(5) BodyBytes by (simp_all add: payload_def)
    ultimately show ?thesis using assms(3,4) by (auto simp: body_ticks_def intro!: exI [of _ b])
  next
    case (BodyReader d)
    then obtain cs where cs: "good_chunks cs" "concat cs = payload resp" "coded = chunked_body cs" using assms(5) by auto
    have "body_reader (response_headers resp) net = BChunked (chunked_new net)" using fr(1) BodyReader by (simp add: body_reader_def)
    then show ?thesis using chunked_new_pends [OF cs(1), of net coded "[]"] assms(3,4) cs
      by (simp add: body_ticks_def chunked_new_def)
  next
    case (BodyStream sb)
    then obtain cs where cs: "good_chunks cs" "concat cs = payload resp" "coded = chunked_body cs" using assms(5) by auto
    have "body_reader (response_headers resp) net = BChunked (chunked_new net)" using fr(1) BodyStream by (simp add: body_reader_def)
    then show ?thesis using chunked_new_pends [OF cs(1), of net coded "[]"] assms(3,4) cs
      by (simp add: body_ticks_def chunked_new_def)
  qed
  then show "body_pends (body_reader (response_headers resp) net) (payload resp) None"
    "body_ticks (body_reader (response_headers resp) net) = 0" by blast+
qed

section \<open>The connection\<close>

text \<open>
  A network that delivers what was sent, in pieces of its choice, and the built-in server over a mount as the peer.
  The world of a client is the mount.
\<close>

record network =
  nw_carry :: "byte list \<Rightarrow> net"
  nw_io_timeout :: nat
  nw_writes :: "write_event list"

definition flowing :: "nat \<Rightarrow> write_event \<Rightarrow> bool" where
  "flowing io ev = (case ev of Wrote n \<Rightarrow> 0 < n | WTimeout elapsed \<Rightarrow> elapsed < io | WInterrupted \<Rightarrow> True | WFailed _ \<Rightarrow> False)"

definition carries :: "network \<Rightarrow> bool" where
  "carries nw \<longleftrightarrow> (\<forall>d. net_pends (nw_carry nw d) d None \<and> net_ticks (nw_carry nw d) = 0) \<and> list_all (flowing (nw_io_timeout nw)) (nw_writes nw)"

definition mount_peer :: "'s client \<Rightarrow> mount_options \<Rightarrow> string list \<Rightarrow> network \<Rightarrow> byte list \<Rightarrow> 's mount \<Rightarrow> net \<times> 's mount" where
  "mount_peer c opts base nw sent m =
     (case handle_connection c opts base Never m (nw_carry nw sent) \<lparr>s_out = [], s_room = None\<rparr> of ((_, k), m') \<Rightarrow> (nw_carry nw (s_out k), m'))"

definition mount_link :: "'s client \<Rightarrow> mount_options \<Rightarrow> string list \<Rightarrow> network \<Rightarrow> 's mount link" where
  "mount_link c opts base nw =
     \<lparr>lk_resolve = (\<lambda>_ _. Ok [Ok ()]), lk_io_timeout = nw_io_timeout nw, lk_writes = nw_writes nw, lk_peer = mount_peer c opts base nw\<rparr>"

definition idle :: "'w \<Rightarrow> conn \<Rightarrow> 'w tstate" where
  "idle w k = \<lparr>ts_cancel = Never, ts_conn = k, ts_world = w\<rparr>"

lemma tr_check_idle [simp]: "tr_check (idle w k) = (Ok (), idle w k)"
  by (simp add: tr_check_def idle_def)

text \<open>However the socket cuts, delays and interrupts the writes, what was to be sent is sent, once and in order.\<close>

lemma conn_wrote_idle: "conn_wrote bs evs (idle w k) = (Ok (), idle w \<lparr>c_out = c_out k @ bs, c_writes = evs\<rparr>)"
  by (simp add: conn_wrote_def idle_def)

lemma write_loop_idle:
  assumes "list_all (flowing io) evs"
  shows "\<exists>evs'. list_all (flowing io) evs' \<and> write_loop io evs bs (idle w k) = (Ok (), idle w \<lparr>c_out = c_out k @ bs, c_writes = evs'\<rparr>)"
  using assms
proof (induction io evs bs arbitrary: k rule: write_loop.induct)
  case (3 io ev evs b bs)
  show ?case
  proof (cases ev)
    case (Wrote n)
    then have n: "n \<noteq> 0" using "3.prems" by (simp add: flowing_def)
    from "3.IH"(1) [OF Wrote n, of "\<lparr>c_out = c_out k @ take n (b # bs), c_writes = evs\<rparr>"] "3.prems"
    show ?thesis using Wrote n by (auto simp: m_bind_def conn_wrote_idle)
  next
    case (WTimeout t)
    then have t: "\<not> io \<le> t" using "3.prems" by (simp add: flowing_def)
    then show ?thesis using "3.IH"(2) [OF WTimeout t] "3.prems" WTimeout by (simp add: m_bind_def)
  next
    case WInterrupted
    then show ?thesis using "3.IH"(3) [OF WInterrupted] "3.prems" by (simp add: m_bind_def)
  next
    case (WFailed e)
    then show ?thesis using "3.prems" by (simp add: flowing_def)
  qed
qed (auto simp: m_bind_def conn_wrote_idle intro: exI [of _ "[]"])

definition flows :: "nat \<Rightarrow> conn \<Rightarrow> bool" where
  "flows io k \<longleftrightarrow> list_all (flowing io) (c_writes k)"

lemma write_full_idle:
  assumes "flows io k"
  obtains k' where "write_full io bs (idle w k) = (Ok (), idle w k')" "c_out k' = c_out k @ bs" "flows io k'"
  using write_loop_idle [of io "c_writes k" bs w k] assms by (auto simp: write_full_def flows_def idle_def)

lemma connect_idle:
  "carries nw \<Longrightarrow> \<exists>k'. connect (mount_link c opts base nw) host port (idle m k) = (Ok (), idle m k') \<and> c_out k' = [] \<and> flows (nw_io_timeout nw) k'"
  by (simp add: connect_def mount_link_def m_bind_def) (simp add: idle_def carries_def flows_def)

lemma upload_body_chunks:
  assumes "flows io k"
  shows "\<exists>cs k'. good_chunks cs \<and> concat cs = d \<and> upload_body io d (idle w k) = (Ok (), idle w k') \<and> c_out k' = c_out k @ chunked_body cs"
  using assms
proof (induction "length d" arbitrary: d k rule: less_induct)
  case less
  show ?case
  proof (cases "d = []")
    case True
    obtain k' where "write_full io (to_bytes ''0'' @ CRLF @ CRLF) (idle w k) = (Ok (), idle w k')" "c_out k' = c_out k @ to_bytes ''0'' @ CRLF @ CRLF"
      by (rule write_full_idle [OF less.prems])
    then show ?thesis using True
      by (intro exI [of _ "[]"] exI [of _ k']) (simp add: upload_body.simps m_bind_def good_chunks_def chunked_body_simps)
  next
    case False
    let ?b = "take COPY_BUF d"
    have b: "?b \<noteq> []" "length ?b < 2 ^ 64" "length (drop COPY_BUF d) < length d" using False by (simp_all add: COPY_BUF_def)
    obtain k1 where k1: "write_full io (to_bytes (fmt_hex (length ?b)) @ CRLF) (idle w k) = (Ok (), idle w k1)"
        "c_out k1 = c_out k @ to_bytes (fmt_hex (length ?b)) @ CRLF" "flows io k1" by (rule write_full_idle [OF less.prems])
    obtain k2 where k2: "write_full io ?b (idle w k1) = (Ok (), idle w k2)" "c_out k2 = c_out k1 @ ?b" "flows io k2" by (rule write_full_idle [OF k1(3)])
    obtain k3 where k3: "write_full io CRLF (idle w k2) = (Ok (), idle w k3)" "c_out k3 = c_out k2 @ CRLF" "flows io k3" by (rule write_full_idle [OF k2(3)])
    obtain cs k' where cs: "good_chunks cs" "concat cs = drop COPY_BUF d"
        "upload_body io (drop COPY_BUF d) (idle w k3) = (Ok (), idle w k')" "c_out k' = c_out k3 @ chunked_body cs"
      using less.hyps [OF b(3) k3(3)] by blast
    have "upload_body io d (idle w k) = (Ok (), idle w k')"
      using False k1(1) k2(1) k3(1) cs(3) by (subst upload_body.simps) (simp add: m_bind_def Let_def)
    moreover have "c_out k' = c_out k @ chunked_body (?b # cs)"
      using k1(2) k2(2) k3(2) cs(4) by (simp add: chunked_body_simps chunk_bytes_def)
    moreover have "good_chunks (?b # cs)" "concat (?b # cs) = d" using cs(1,2) b(1,2) by (simp_all add: good_chunks_def)
    ultimately show ?thesis by blast
  qed
qed

text \<open>What a client gets for a response of the mount.\<close>

definition answered :: "response \<Rightarrow> 's mount \<Rightarrow> bool \<Rightarrow> transport_response st_result \<times> 's mount tstate \<Rightarrow> bool" where
  "answered resp m' ll r \<longleftrightarrow>
     (\<exists>tr k. r = (Ok tr, idle m' k) \<and> tp_status tr = rs_status resp \<and> tp_headers tr = response_headers resp \<and> tp_long_lived tr = ll \<and>
        (fits resp \<longrightarrow> body_pends (tp_body tr) (payload resp) None \<and> body_ticks (tp_body tr) = 0)) \<or>
     (\<exists>e k. r = (Err e, idle m' k) \<and> \<not> fits resp)"

lemma read_response_answered:
  assumes "carries carry" and "framed resp" and "\<not> is_stream resp"
    and "handle_connection c opts base Never m (nw_carry carry (c_out k)) \<lparr>s_out = [], s_room = None\<rparr> =
      ((case write_response_body resp Never \<lparr>s_out = [], s_room = None\<rparr> of (Ok sb, k') \<Rightarrow> (sb, k') | (Err _, k') \<Rightarrow> (None, k')), m')"
  shows "answered resp m' ll (read_response (mount_link c opts base carry) ll (idle m k))"
proof -
  obtain coded where w: "write_response_body resp Never \<lparr>s_out = [], s_room = None\<rparr> =
      (Ok None, \<lparr>s_out = to_bytes (status_line resp @ CRLF_str @ header_lines (response_headers resp) @ CRLF_str) @ coded, s_room = None\<rparr>)"
    and coded: "case rs_body resp of BodyBytes b \<Rightarrow> coded = b | _ \<Rightarrow> \<exists>cs. good_chunks cs \<and> concat cs = payload resp \<and> coded = chunked_body cs"
    by (rule write_response_bytes [OF assms(3)]) (simp add: status_line_def)
  let ?out = "to_bytes (status_line resp @ CRLF_str @ header_lines (response_headers resp) @ CRLF_str) @ coded"
  have peer: "lk_peer (mount_link c opts base carry) (c_out k) m = (nw_carry carry ?out, m')"
    using assms(4) w by (simp add: mount_link_def mount_peer_def)
  have net: "net_pends (nw_carry carry ?out) ?out None" "net_ticks (nw_carry carry ?out) = 0" using assms(1) by (simp_all add: carries_def)
  have st: "rs_status resp < 1000" using assms(2) by (simp add: framed_def)
  have world: "(idle m k)\<lparr>ts_world := m'\<rparr> = idle m' k" "ts_conn (idle m k) = k" "ts_world (idle m k) = m" by (simp_all add: idle_def)
  from client_reads [OF assms(2) net] show ?thesis
  proof cases
    case (1 net')
    then have "read_response (mount_link c opts base carry) ll (idle m k) =
        (Ok \<lparr>tp_status = rs_status resp, tp_headers = response_headers resp, tp_body = body_reader (response_headers resp) net', tp_long_lived = ll\<rparr>, idle m' k)"
      using peer st world by (simp add: read_response_def status_line_text(3) Let_def)
    then show ?thesis using response_body_pends [OF assms(2) _ 1(2,3) coded] by (auto simp: answered_def)
  next
    case (2 e net')
    then show ?thesis using peer world by (auto simp: read_response_def answered_def m_bind_def)
  qed
qed

section \<open>An endpoint\<close>

text \<open>A client whose URL leads to the server, and whose options and names fit into the lines of a head.\<close>

definition good_endpoint :: "http_replica_client \<Rightarrow> string \<Rightarrow> string \<Rightarrow> nat \<Rightarrow> string list \<Rightarrow> bool" where
  "good_endpoint cl authority host port base \<longleftrightarrow>
     hc_base_url cl = ''http://'' @ authority @ url_path base \<and>
     CHR ''/'' \<notin> set authority \<and> parse_authority authority = Ok (host, port) \<and> host \<noteq> [] \<and> plain host \<and> port < 65536 \<and>
     list_all good_word base \<and> options_validate (hc_opts cl) = Ok () \<and> length host \<le> 4096 \<and> length (url_path base) \<le> 4096 \<and>
     (\<forall>v. co_auth_token (hc_opts cl) = Some v \<or> co_writer_id (hc_opts cl) = Some v \<longrightarrow> length v \<le> 4096)"

lemma visible_plain: "list_all (\<lambda>b. 0x21 \<le> b \<and> b \<le> 0x7E) (to_bytes s) \<Longrightarrow> plain s"
proof -
  have b: "0x21 \<le> (of_nat (of_char c) :: byte) \<longleftrightarrow> 0x21 \<le> (of_char c :: nat)" "(of_nat (of_char c) :: byte) \<le> 0x7E \<longleftrightarrow> (of_char c :: nat) \<le> 0x7E" for c
    by (simp_all add: word_le_nat_alt)
  show "list_all (\<lambda>b. 0x21 \<le> b \<and> b \<le> 0x7E) (to_bytes s) \<Longrightarrow> plain s"
    by (simp add: plain_def to_bytes_def list.pred_map comp_def b)
qed

lemma validated: "options_validate opts = Ok () \<Longrightarrow> co_auth_token opts = Some v \<or> co_writer_id opts = Some v \<Longrightarrow> plain v \<and> v \<noteq> []"
  by (auto simp: options_validate_def validate_value_def and_then_eq_Ok visible_plain split: option.splits if_splits)

lemma good_option_headers:
  assumes "plain v" and "v \<noteq> []" and "length v \<le> 4096"
  shows "good_header (''authorization'', ''Bearer '' @ v)" and "good_header (''x-liters-writer-id'', v)"
proof -
  have "plain [last v]" using assms(1,2) plain_trimmed [of v] by (auto simp: trimmed_def)
  then have "trimmed (''Bearer '' @ v)" using assms(1,2) by (simp add: trimmed_def text_line_plain)
  then show "good_header (''authorization'', ''Bearer '' @ v)" "good_header (''x-liters-writer-id'', v)"
    using assms by (simp_all add: good_header_def to_ascii_lowercase_def ascii_lower_def MAX_LINE_def plain_trimmed)
qed

lemma good_takeover: "good_header (''x-liters-writer-takeover'', ''1'')"
  by (simp add: good_header_def to_ascii_lowercase_def ascii_lower_def MAX_LINE_def plain_trimmed)

lemma extra_headers_good:
  assumes "good_endpoint cl authority host port base"
  shows "list_all good_header (extra_headers (hc_opts cl) w)" and "length (extra_headers (hc_opts cl) w) \<le> 3"
    and "get_header (extra_headers (hc_opts cl) w) ''transfer-encoding'' = None"
proof -
  have v: "plain v \<and> v \<noteq> [] \<and> length v \<le> 4096" if "co_auth_token (hc_opts cl) = Some v \<or> co_writer_id (hc_opts cl) = Some v" for v
    using assms that validated by (auto simp: good_endpoint_def)
  have token: "good_header (''authorization'', ''Bearer '' @ v)" if "co_auth_token (hc_opts cl) = Some v" for v
    using v [of v] that by (intro good_option_headers) simp_all
  have wid: "good_header (''x-liters-writer-id'', v)" if "co_writer_id (hc_opts cl) = Some v" for v
    using v [of v] that by (intro good_option_headers) simp_all
  show "list_all good_header (extra_headers (hc_opts cl) w)"
    unfolding extra_headers_def using token wid good_takeover by (auto simp del: append.simps split: option.splits)
  show "length (extra_headers (hc_opts cl) w) \<le> 3" by (simp add: extra_headers_def split: option.splits)
  show "get_header (extra_headers (hc_opts cl) w) ''transfer-encoding'' = None"
    by (simp add: extra_headers_def get_header_append get_header_Cons split: option.splits)
qed

lemma split_slash:
  "x \<notin> set xs \<Longrightarrow> takeWhile (\<lambda>y. y \<noteq> x) (xs @ x # ys) = xs" "x \<notin> set xs \<Longrightarrow> dropWhile (\<lambda>y. y \<noteq> x) (xs @ x # ys) = x # ys"
  by (induction xs) auto

lemma parse_endpoint:
  assumes "good_endpoint cl authority host port base" and "rest \<noteq> []"
  shows "parse_http_url (hc_base_url cl @ target_of rest q) = Ok (host, port, target_of (base @ rest) q)"
proof -
  have ep: "hc_base_url cl = ''http://'' @ authority @ url_path base" "CHR ''/'' \<notin> set authority" "parse_authority authority = Ok (host, port)" "host \<noteq> []"
    using assms by (auto simp: good_endpoint_def)
  obtain t where t: "target_of (base @ rest) q = CHR ''/'' # t"
    using assms(2) url_path_join [of "base @ rest"] by (simp add: target_of_def del: url_path_append)
  have "hc_base_url cl @ target_of rest q = ''http://'' @ (authority @ target_of (base @ rest) q)" using ep(1) by (simp add: target_of_def)
  then have "strip_prefix ''http://'' (hc_base_url cl @ target_of rest q) = Some (authority @ CHR ''/'' # t)"
    unfolding t by (simp only: strip_prefix_append)
  then show ?thesis using ep(3,4) split_slash [OF ep(2), of t] t by (simp add: parse_http_url_def Let_def)
qed

definition request_headers :: "http_replica_client \<Rightarrow> string \<Rightarrow> nat \<Rightarrow> string \<Rightarrow> headers" where
  "request_headers cl host port meth =
     (''host'', host @ '':'' @ fmt_dec port) # extra_headers (hc_opts cl) (meth \<noteq> ''GET'') @
     (if meth = ''PUT'' then [(''transfer-encoding'', ''chunked'')] else []) @ [(''connection'', ''close'')]"

lemma request_headers_good:
  assumes "good_endpoint cl authority host port base"
  shows "list_all good_header (request_headers cl host port meth)" and "length (request_headers cl host port meth) \<le> MAX_HEADERS"
    and "is_chunked (request_headers cl host port meth) \<longleftrightarrow> meth = ''PUT''"
proof -
  note extra = extra_headers_good [OF assms, of "meth \<noteq> ''GET''"]
  have host: "plain host" "length host \<le> 4096" "port < 65536" using assms by (auto simp: good_endpoint_def)
  have "length (fmt_dec port) \<le> 20" by (rule length_dec_u64) (use host(3) in simp)
  then have "good_header (''host'', host @ '':'' @ fmt_dec port)"
    using host by (simp add: good_header_def to_ascii_lowercase_def ascii_lower_def MAX_LINE_def plain_trimmed)
  moreover have "good_header (''connection'', ''close'')" using good_standard_headers(1) by simp
  ultimately show "list_all good_header (request_headers cl host port meth)"
    using extra(1) good_standard_headers(2) unfolding request_headers_def by (simp del: append.simps)
  show "length (request_headers cl host port meth) \<le> MAX_HEADERS" using extra_headers_good(2) [OF assms, of True] extra(2) by (auto simp: request_headers_def MAX_HEADERS_def)
  show "is_chunked (request_headers cl host port meth) \<longleftrightarrow> meth = ''PUT''"
    using extra(3) by (simp add: is_chunked_def request_headers_def get_header_Cons get_header_append eq_ignore_ascii_case_def)
qed

lemma exec_answered:
  assumes "answered resp m' ll (ex req (idle m k))" and "framed resp"
    and "req = \<lparr>tq_method = meth, tq_url = url, tq_headers = extra_headers (hc_opts cl) (meth \<noteq> ''GET''), tq_body = body, tq_long_lived = ll\<rparr>"
  shows "answered resp m' ll (exec ex cl meth url ll body (idle m k))"
  using assms(1) response_framing(3) [OF assms(2)] unfolding answered_def exec_def assms(3) [symmetric] by (auto simp: m_bind_def)

text \<open>A request of the client is answered with the mount's response to it.\<close>

lemma exchange:
  assumes "carries carry" and ep: "good_endpoint cl authority host port base" and rest: "list_all good_word rest" "rest \<noteq> []"
    and q: "plain q" "length (target_of rest q) \<le> 1000" and meth: "meth \<in> {''GET'', ''PUT'', ''DELETE''}"
    and body: "body = (if meth = ''PUT'' then Some d else None)"
  obtains b where "meth \<noteq> ''PUT'' \<Longrightarrow> b = BEmpty" "meth = ''PUT'' \<Longrightarrow> body_pends b d None \<and> body_ticks b = 0"
    "\<And>resp m'. handle c opts m (mount_request meth rest q (request_headers cl host port meth) b) = (resp, m') \<Longrightarrow> \<not> is_stream resp \<Longrightarrow>
       answered resp m' ll (exec (execute (mount_link c opts base carry)) cl meth (hc_base_url cl @ target_of rest q) ll body (idle m k))"
proof -
  let ?lk = "mount_link c opts base carry" and ?hs = "request_headers cl host port meth" and ?url = "hc_base_url cl @ target_of rest q"
  let ?t = "target_of (base @ rest) q"
  let ?head = "to_bytes (meth @ '' '' @ ?t @ '' HTTP/1.1'' @ CRLF_str @ header_lines ?hs @ CRLF_str)"
  let ?req = "\<lparr>tq_method = meth, tq_url = ?url, tq_headers = extra_headers (hc_opts cl) (meth \<noteq> ''GET''), tq_body = body, tq_long_lived = ll\<rparr>"
  note hs = request_headers_good [OF ep, of meth]
  obtain k1 where k1: "connect ?lk host port (idle m k) = (Ok (), idle m k1)" "c_out k1 = []" "flows (nw_io_timeout carry) k1"
    using connect_idle [OF assms(1)] by blast
  obtain k2 where k2: "write_full (nw_io_timeout carry) ?head (idle m k1) = (Ok (), idle m k2)" "c_out k2 = ?head" "flows (nw_io_timeout carry) k2"
    using write_full_idle [OF k1(3), of ?head m] k1(2) by auto
  obtain cs k3 where cs: "good_chunks cs" "concat cs = d" "upload_body (nw_io_timeout carry) d (idle m k2) = (Ok (), idle m k3)"
      "c_out k3 = ?head @ chunked_body cs"
    using upload_body_chunks [OF k2(3), of d m] k2(2) by auto
  define coded where "coded = (if meth = ''PUT'' then chunked_body cs else [])"
  define k' where "k' = (if meth = ''PUT'' then k3 else k2)"
  have sent: "c_out k' = ?head @ coded" using k2(2) cs(4) by (simp add: k'_def coded_def)
  have io: "lk_io_timeout ?lk = nw_io_timeout carry" by (simp add: mount_link_def)
  have run: "execute ?lk ?req (idle m k) = read_response ?lk ll (idle m k')"
    using k1(1) k2(1) cs(3) meth unfolding body k'_def
    by (auto simp: execute_def io parse_endpoint [OF ep rest(2)] m_bind_def m_try_def Let_def request_head_def request_headers_def header_lines_def)
  have words: "list_all good_word (base @ rest)" "base @ rest \<noteq> []" using ep rest by (simp_all add: good_endpoint_def)
  have "length ?t \<le> length (url_path base) + length (target_of rest q)" by (simp add: target_of_def)
  moreover have "length (url_path base) \<le> 4096" using ep by (simp add: good_endpoint_def)
  moreover have "length meth \<le> 6" "plain meth" "meth \<noteq> []" using meth by auto
  ultimately have fine: "plain meth" "meth \<noteq> []" "length meth + length ?t + 11 \<le> MAX_LINE" using q(2) by (simp_all add: MAX_LINE_def)
  have "net_pends (nw_carry carry (?head @ coded)) (?head @ coded) None" "net_ticks (nw_carry carry (?head @ coded)) = 0" using assms(1) by (simp_all add: carries_def)
  from server_reads [OF this fine(1,2) words(2,1) q(1) fine(3) hs(1,2), of c opts base m "\<lparr>s_out = [], s_room = None\<rparr>"]
  obtain net' where net': "net_pends net' coded None" "net_ticks net' = 0"
    "handle_connection c opts base Never m (nw_carry carry (?head @ coded)) \<lparr>s_out = [], s_room = None\<rparr> =
       (case server_route c opts base Never m meth (url_path (base @ rest)) q ?hs net' of (resp, m') \<Rightarrow>
          ((case write_response_body resp Never \<lparr>s_out = [], s_room = None\<rparr> of (Ok sb, k') \<Rightarrow> (sb, k') | (Err _, k') \<Rightarrow> (None, k')), m'))" .
  define b where "b = (if meth = ''PUT'' then BChunked (chunked_new net') else BEmpty)"
  have "(if meth = ''PUT'' then put_body ?hs net' else Some BEmpty) = Some b" using hs(3) by (auto simp: put_body_def b_def)
  note route = server_route_mount [OF words(1) rest(2) this, of c opts m q]
  show thesis
  proof (rule that [of b])
    show "meth \<noteq> ''PUT'' \<Longrightarrow> b = BEmpty" by (simp add: b_def)
    show "body_pends b d None \<and> body_ticks b = 0" if "meth = ''PUT''"
      using chunked_new_pends [OF cs(1), of net' coded "[]"] net'(1,2) cs(2) that by (simp add: b_def coded_def body_ticks_def chunked_new_def)
    fix resp m' assume h: "handle c opts m (mount_request meth rest q ?hs b) = (resp, m')" and ns: "\<not> is_stream resp"
    have fr: "framed resp" using handle_framed(1) [OF h] .
    have "answered resp m' ll (read_response ?lk ll (idle m k'))"
      by (rule read_response_answered [OF assms(1) fr ns]) (use net'(3) route h sent in simp)
    then show "answered resp m' ll (exec (execute ?lk) cl meth ?url ll body (idle m k))"
      using run by (intro exec_answered [OF _ fr refl]) simp
  qed
qed

end
