(* ===== verification/HttpBucket.thy ===== *)
theory HttpBucket
  imports HttpExchange
begin

text \<open>
  The HTTP client as a backend: over the built-in transport, the built-in server and a mount it keeps the
  contract of the bucket behind the mount, so that everything that rests on \<open>bucket_client\<close> holds over the
  network too.  Creation times have the precision of the protocol, milliseconds.
\<close>

section \<open>Bodies\<close>

lemma body_reader_read_short: "body_reader_read False n b = body_read n b"
  by (auto simp: body_reader_read_def std_net_body_read_def split: prod.splits result.splits)

lemma read_all_whole:
  assumes "body_pends b d None" and "body_ticks b = 0"
  shows "read_all_checked ctx raw False b (idle w k) = (Ok (raw @ d), idle w k)"
  using assms
proof (induction ctx raw False b arbitrary: d rule: read_all_checked.induct)
  case (1 ctx raw b)
  obtain x b1 where x: "body_read COPY_BUF b = (x, b1)" by fastforce
  have pos: "0 < COPY_BUF" by (simp add: COPY_BUF_def)
  show ?case
  proof (cases x)
    case (Err e)
    then show ?thesis using body.rd_Err [OF "1.prems"(1) pos x [unfolded Err]] "1.prems"(2) by simp
  next
    case (Ok bs)
    note ok = body.rd_Ok [OF "1.prems"(1) pos x [unfolded Ok]]
    show ?thesis
    proof (cases bs)
      case Nil
      then show ?thesis using ok x Ok by (subst read_all_checked.simps) (simp add: body_reader_read_short m_bind_def)
    next
      case (Cons y ys)
      obtain d' where d': "d = bs @ d'" "body_pends b1 d' None" using ok by auto
      have "body_ticks b1 = 0" using ok "1.prems"(2) by simp
      then have "read_all_checked ctx (raw @ y # ys) False b1 (idle w k) = (Ok ((raw @ y # ys) @ d'), idle w k)"
        using "1.hyps" [of "Ok bs" b1 bs y ys d'] x Ok Cons d'(2) by (simp add: body_reader_read_short)
      then show ?thesis using x Ok Cons d'(1) by (subst read_all_checked.simps) (simp add: body_reader_read_short m_bind_def)
    qed
  qed
qed

lemma read_limited_whole:
  assumes "body_pends b d None" and "body_ticks b = 0" and "length d \<le> limit"
  shows "read_limited False limit acc b = (acc @ d, None)"
  using assms
proof (induction False limit acc b arbitrary: d rule: read_limited.induct)
  case (1 limit acc b)
  show ?case
  proof (cases "limit = 0")
    case True
    then show ?thesis using "1.prems"(3) by (simp add: read_limited.simps)
  next
    case False
    then have pos: "0 < limit" by simp
    obtain x b1 where x: "body_read limit b = (x, b1)" by fastforce
    show ?thesis
    proof (cases x)
      case (Err e)
      then show ?thesis using body.rd_Err [OF "1.prems"(1) pos x [unfolded Err]] "1.prems"(2) by simp
    next
      case (Ok bs)
      note ok = body.rd_Ok [OF "1.prems"(1) pos x [unfolded Ok]]
      show ?thesis
      proof (cases bs)
        case Nil
        then show ?thesis using ok x Ok False by (subst read_limited.simps) (simp add: body_reader_read_short)
      next
        case (Cons y ys)
        obtain d' where d': "d = bs @ d'" "body_pends b1 d' None" using ok by auto
        have "body_ticks b1 = 0" using ok "1.prems"(2) by simp
        moreover have "length d' \<le> limit - Suc (length ys)" using "1.prems"(3) d'(1) Cons by simp
        ultimately have "read_limited False (limit - Suc (length ys)) (acc @ y # ys) b1 = ((acc @ y # ys) @ d', None)"
          using "1.hyps"(2) [OF False, of "Ok bs" b1 bs y ys d'] x Ok Cons d'(2) by (simp add: body_reader_read_short)
        then show ?thesis using x Ok Cons d'(1) False by (subst read_limited.simps) (simp add: body_reader_read_short)
      qed
    qed
  qed
qed

section \<open>Listing lines\<close>

text \<open>A time as it crosses the network.\<close>

definition ms_time :: "sys_time \<Rightarrow> sys_time" where
  "ms_time t = t div 1000000 * 1000000"

definition ms_info :: "file_info \<Rightarrow> file_info" where
  "ms_info f = mk_info (fi_level f) (fi_min_txid f) (fi_max_txid f) (fi_size f) (map_option ms_time (fi_created_at f))"

definition timely :: "sys_time \<Rightarrow> bool" where
  "timely t \<longleftrightarrow> 0 \<le> t \<and> t div 1000000 < 2 ^ 64"

lemma header_time_timely: "timely (header_time h)"
proof -
  have "sint (h_timestamp h) < 2 ^ 63" using sint_lt [of "h_timestamp h"] by simp
  then show ?thesis by (simp add: timely_def header_time_def)
qed

definition listing_words :: "file_info \<Rightarrow> string" where
  "listing_words f = format_filename (fi_min_txid f) (fi_max_txid f) @ CHR '' '' # fmt_dec (unat (fi_size f)) @ CHR '' '' #
     (case created_ms (fi_created_at f) of None \<Rightarrow> ''-'' | Some s \<Rightarrow> s)"

lemma listing_line_words: "listing_line f = listing_words f @ NL"
  by (simp add: listing_line_def listing_words_def file_info_filename_def split: option.splits)

lemma timely_nat: "timely t \<Longrightarrow> nat (t div 1000000) < 2 ^ 64 \<and> int (nat (t div 1000000)) = t div 1000000"
  by (simp add: timely_def) linarith

lemma created_ms_timely: "timely t \<Longrightarrow> created_ms (Some t) = Some (fmt_dec (nat (t div 1000000)))"
proof -
  assume t: "timely t"
  then have "nat (t div 1000000) < 2 ^ 64" using timely_nat by blast
  then show ?thesis using t by (simp add: created_ms_def timely_def)
qed

lemma fmt_dec_neq_dash: "fmt_dec n \<noteq> ''-''"
proof
  assume "fmt_dec n = ''-''"
  then have "parse_dec (Suc n) (fmt_dec n) = parse_dec (Suc n) ''-''" by simp
  moreover have "n < 2 ^ Suc n" using less_exp [of "Suc n"] by linarith
  then have "parse_dec (Suc n) (fmt_dec n) = Some n" by (rule parse_fmt_dec)
  moreover have "parse_digits 10 0 ''-'' = None" by code_simp
  then have "parse_dec (Suc n) ''-'' = None" by (simp add: from_str_radix_def)
  ultimately show False by simp
qed

lemma parse_listing_words:
  assumes "fi_created_at f = Some t" and "timely t"
  shows "parse_listing_line (listing_words f) (fi_level f) = Some (ms_info f)"
proof -
  let ?ms = "fmt_dec (nat (t div 1000000))"
  have words: "split_whitespace (listing_words f) = [format_filename (fi_min_txid f) (fi_max_txid f), fmt_dec (unat (fi_size f)), ?ms]"
    using created_ms_timely [OF assms(2)] assms(1) by (simp add: listing_words_def split_whitespace_word)
  have ms: "nat (t div 1000000) < 2 ^ 64" "int (nat (t div 1000000)) = t div 1000000" using timely_nat [OF assms(2)] by blast+
  have sz: "unat (fi_size f) < 2 ^ 64" using unsigned_less [of "fi_size f"] by simp
  show ?thesis unfolding parse_listing_line_def words
    using parse_fmt_dec [OF ms(1)] parse_fmt_dec [OF sz] fmt_dec_neq_dash ms(2) assms(1)
    by (simp add: parse_format_filename ms_info_def ms_time_def)
qed

lemma listing_words_chars: "CHR 0x0A \<notin> set (listing_words f)" "CHR 0x0D \<notin> set (listing_words f)"
proof -
  have "plain s \<Longrightarrow> CHR 0x0A \<notin> set s \<and> CHR 0x0D \<notin> set s" for s by (auto simp: plain_def list_all_iff)
  then have *: "CHR 0x0A \<notin> set s" "CHR 0x0D \<notin> set s" if "plain s" for s using that by auto
  have "plain (case created_ms (fi_created_at f) of None \<Rightarrow> ''-'' | Some s \<Rightarrow> s)" by (auto simp: created_ms_def split: option.splits)
  then show "CHR 0x0A \<notin> set (listing_words f)" "CHR 0x0D \<notin> set (listing_words f)" by (simp_all add: listing_words_def *)
qed

lemma lines_listing: "lines (concat (map listing_line fs)) = map listing_words fs"
proof -
  have "concat (map listing_line fs) = concat (map (\<lambda>l. l @ [CHR 0x0A]) (map listing_words fs))"
    by (induction fs) (simp_all add: listing_line_words NL_def)
  then show ?thesis using listing_words_chars by (simp only:) (rule lines_terminated, auto)
qed

lemma ascii_listing: "is_ascii (concat (map listing_line fs))"
proof (induction fs)
  case (Cons f fs)
  have "plain (case created_ms (fi_created_at f) of None \<Rightarrow> ''-'' | Some s \<Rightarrow> s)" by (auto simp: created_ms_def split: option.splits)
  then have "text_line (listing_words f)" by (simp add: listing_words_def text_line_plain)
  then have "is_ascii (listing_line f)" by (auto simp: listing_line_words NL_def is_ascii_def text_line_def list_all_iff)
  then show ?case using Cons by (simp add: is_ascii_def)
qed (simp add: is_ascii_def)

lemma parse_listing_text:
  assumes "\<And>f. f \<in> set fs \<Longrightarrow> fi_level f = level \<and> (\<exists>t. fi_created_at f = Some t \<and> timely t)" and "sorted_wrt range_less fs"
  shows "parse_listing level (concat (map listing_line fs)) = map ms_info fs"
proof -
  have "List.map_filter (\<lambda>line. parse_listing_line line level) (map listing_words fs) = map ms_info fs"
    using assms(1)
  proof (induction fs)
    case (Cons f fs)
    then have "parse_listing_line (listing_words f) level = Some (ms_info f)" using parse_listing_words by (metis list.set_intros(1))
    then show ?case using Cons by (simp add: map_filter_simps)
  qed (simp add: map_filter_simps)
  moreover have "sorted (map range_key (map ms_info fs))"
  proof -
    have "sorted_wrt (\<lambda>f g. range_key (ms_info f) \<le> range_key (ms_info g)) fs"
      using assms(2) by (rule sorted_wrt_mono_rel [rotated]) (auto simp: range_less_def range_key_def ms_info_def less_eq_prod_def)
    then show ?thesis by (simp add: sorted_map sorted_wrt_map)
  qed
  ultimately show ?thesis by (simp add: parse_listing_def lines_listing sort_key_id_if_sorted)
qed

section \<open>Requests of the client\<close>

lemma digit_char_separator: "d < 16 \<Longrightarrow> digit_char d \<notin> {CHR ''/'', CHR ''?'', CHR ''&'', CHR ''=''}"
proof
  assume d: "d < 16" and "digit_char d \<in> {CHR ''/'', CHR ''?'', CHR ''&'', CHR ''=''}"
  then have "(of_char (digit_char d) :: nat) \<in> {47, 63, 38, 61}" by auto
  then show False using of_char_digit_char [OF d] d by (auto split: if_splits)
qed

lemma number_separators:
  assumes "x \<in> {CHR ''/'', CHR ''?'', CHR ''&'', CHR ''=''}"
  shows "x \<notin> set (fmt_dec n)" and "x \<notin> set (txid_display t)" and "x \<notin> set (format_filename a b)"
proof -
  have dec: "x \<notin> set (fmt_dec n)" for n
  proof
    assume "x \<in> set (fmt_dec n)"
    then obtain d where "d \<in> set (digits_of 10 n)" "x = digit_char d" by (auto simp: fmt_dec_def)
    then show False using digits_of_bound [of 10 n] digit_char_separator [of d] assms by auto
  qed
  have hex: "x \<notin> set (txid_display t)" for t
  proof
    assume "x \<in> set (txid_display t)"
    then obtain d where "d < 16" "x = digit_char d" using set_fmt_hex0 [of x 16 "unat t"] by (auto simp: txid_display_def)
    then show False using digit_char_separator [of d] assms by simp
  qed
  show "x \<notin> set (fmt_dec n)" "x \<notin> set (txid_display t)" by (rule dec hex)+
  show "x \<notin> set (format_filename a b)" using hex [of a] hex [of b] assms by (auto simp: format_filename_def)
qed

lemma length_dec_level: "length (fmt_dec (unat (level :: u8))) \<le> 20"
proof -
  have "unat level < 2 ^ LENGTH(8)" by (rule unsigned_less)
  then have "unat level < 2 ^ 64" by simp
  then show ?thesis by (rule length_dec_u64)
qed

lemma good_words [simp]: "good_word ''ltx''" "good_word (fmt_dec n)" "good_word (format_filename a b)"
  by (simp_all add: good_word_def number_separators)

lemma good_words2 [simp]: "good_word ''all''"
  by (simp add: good_word_def)

definition listing_query :: "txid \<Rightarrow> bool \<Rightarrow> string" where
  "listing_query seek um = ''seek='' @ txid_display seek @ (if um then ''&meta=1'' else [])"

lemma query_param_first:
  assumes "CHR ''='' \<notin> set k" and "CHR ''&'' \<notin> set k" and "CHR ''&'' \<notin> set v"
  shows "query_param (k @ CHR ''='' # v) name = (if name = k then Some v else None)"
    and "query_param (k @ CHR ''='' # v @ CHR ''&'' # r) name = (if name = k then Some v else query_param r name)"
proof -
  have kv: "CHR ''&'' \<notin> set (k @ CHR ''='' # v)" using assms by simp
  have one: "split_once (CHR ''='') (k @ CHR ''='' # v) = Some (k, v)" by (rule split_once_append [OF assms(1)])
  show "query_param (k @ CHR ''='' # v) name = (if name = k then Some v else None)"
    unfolding query_param_def split_on_word [OF kv] using one by (simp add: map_filter_simps)
  have "split_on (CHR ''&'') ((k @ CHR ''='' # v) @ CHR ''&'' # r) = (k @ CHR ''='' # v) # split_on (CHR ''&'') r" by (rule split_on_append [OF kv])
  then show "query_param (k @ CHR ''='' # v @ CHR ''&'' # r) name = (if name = k then Some v else query_param r name)"
    unfolding query_param_def using one by (simp add: map_filter_simps)
qed

lemma listing_query_params:
  "query_param (listing_query seek um) ''seek'' = Some (txid_display seek)"
  "query_param (listing_query seek um) ''meta'' = (if um then Some ''1'' else None)"
proof -
  have k: "CHR ''='' \<notin> set ''seek''" "CHR ''&'' \<notin> set ''seek''" "CHR ''&'' \<notin> set (txid_display seek)" by (simp_all add: number_separators)
  have meta: "query_param (''meta'' @ CHR ''='' # ''1'') name = (if name = ''meta'' then Some ''1'' else None)" for name
    by (rule query_param_first) simp_all
  show "query_param (listing_query seek um) ''seek'' = Some (txid_display seek)"
    "query_param (listing_query seek um) ''meta'' = (if um then Some ''1'' else None)"
    using query_param_first(1) [OF k] query_param_first(2) [OF k, of "''meta=1''"] meta by (auto simp: listing_query_def)
qed

lemma query_param_Nil [simp]: "query_param [] name = None"
  by (simp add: query_param_def split_once_def map_filter_simps)

text \<open>How the mount serves them.\<close>

lemma route_of_words:
  "good_word lev \<Longrightarrow> route_of ''GET'' (join (CHR ''/'') [''ltx'', lev]) = RListing lev"
  "good_word lev \<Longrightarrow> good_word name \<Longrightarrow> route_of ''GET'' (join (CHR ''/'') [''ltx'', lev, name]) = RFile lev name"
  "good_word lev \<Longrightarrow> good_word name \<Longrightarrow> route_of ''PUT'' (join (CHR ''/'') [''ltx'', lev, name]) = RPut lev name"
  "good_word lev \<Longrightarrow> good_word name \<Longrightarrow> route_of ''DELETE'' (join (CHR ''/'') [''ltx'', lev, name]) = RDelete lev name"
  "route_of ''DELETE'' (join (CHR ''/'') [''all'']) = RDeleteAll"
proof -
  have seg: "split_on (CHR ''/'') (trim_matches (CHR ''/'') (join (CHR ''/'') ws)) = ws" if "ws \<noteq> []" "list_all good_word ws" for ws
    using path_segments(1,3) [OF that] by simp
  show "good_word lev \<Longrightarrow> route_of ''GET'' (join (CHR ''/'') [''ltx'', lev]) = RListing lev"
    unfolding route_of_def using seg [of "[''ltx'', lev]"] by simp
  show "good_word lev \<Longrightarrow> good_word name \<Longrightarrow> route_of ''GET'' (join (CHR ''/'') [''ltx'', lev, name]) = RFile lev name"
    "good_word lev \<Longrightarrow> good_word name \<Longrightarrow> route_of ''PUT'' (join (CHR ''/'') [''ltx'', lev, name]) = RPut lev name"
    "good_word lev \<Longrightarrow> good_word name \<Longrightarrow> route_of ''DELETE'' (join (CHR ''/'') [''ltx'', lev, name]) = RDelete lev name"
    unfolding route_of_def using seg [of "[''ltx'', lev, name]"] by simp_all
  show "route_of ''DELETE'' (join (CHR ''/'') [''all'']) = RDeleteAll" unfolding route_of_def using seg [of "[''all'']"] by simp
qed

lemma parse_level_dec:
  "parse_level (fmt_dec (unat level)) = Some l \<Longrightarrow> l = level"
  "level \<le> SNAPSHOT_LEVEL \<Longrightarrow> parse_level (fmt_dec (unat level)) = Some level"
proof -
  have "unat level < 2 ^ 8" using unsigned_less [of level] by simp
  then have p: "parse_dec 8 (fmt_dec (unat level)) = Some (unat level)" by (rule parse_fmt_dec)
  then show "parse_level (fmt_dec (unat level)) = Some l \<Longrightarrow> l = level" by (simp add: parse_level_def split: if_splits)
  assume level: "level \<le> SNAPSHOT_LEVEL"
  then have "unat level < 10" by (simp add: SNAPSHOT_LEVEL_def word_le_nat_alt)
  then have "length (fmt_dec (unat level)) = 1" by (simp add: fmt_dec_def digits_of.simps)
  then show "parse_level (fmt_dec (unat level)) = Some level" using p level by (simp add: parse_level_def)
qed

lemma parse_dec_fmt: "parse_dec bits (fmt_dec n) = Some k \<Longrightarrow> k = n \<and> n < 2 ^ bits"
proof -
  assume p: "parse_dec bits (fmt_dec n) = Some k"
  have "n < 2 ^ (n + bits)" using less_exp [of n] power_increasing [of n "n + bits" "2 :: nat"] by linarith
  then have "parse_dec (n + bits) (fmt_dec n) = Some n" by (rule parse_fmt_dec)
  then show ?thesis using p by (auto simp: from_str_radix_def Let_def split: if_splits option.splits list.splits)
qed

lemma delete_file_200:
  assumes "delete_file c opts m lev name hs = (resp, m')" and "rs_status resp = 200"
  obtains level a b s' where "parse_level lev = Some level" "parse_filename name = Some (a, b)"
    "delete_ltx_files c (mt_store m) [mk_info level a b 0 None] = Ok s'" "mt_store m' = s'"
proof -
  obtain r m1 where r: "check_fence c opts m hs None = (r, m1)" by fastforce
  have store: "mt_store m1 = mt_store m" using same_but_clock_sel [OF check_fence_clock [OF r]] by simp
  have bad: "rs_status (response_error n msg) = n" for n msg by (simp add: response_error_def response_text_def)
  have w: "mo_writable opts" using assms by (auto simp: delete_file_def read_only_response_def bad split: if_splits)
  obtain level where l: "parse_level lev = Some level" using assms w by (cases "parse_level lev") (auto simp: delete_file_def bad)
  obtain a b where ab: "parse_filename name = Some (a, b)" using assms w l by (cases "parse_filename name") (auto simp: delete_file_def bad)
  have "rs_status (fence_reject_response rej) \<noteq> 200" for rej using fence_status [of rej] by auto
  then obtain pass where "r = Ok pass" using assms w l ab r by (cases r) (auto simp: delete_file_def)
  note p = l ab this
  have "deleted ''delete: '' pass (delete_ltx_files c (mt_store m) [mk_info level a b 0 None]) m1 = (resp, m')"
    using assms(1) r store p w by (simp add: delete_file_def)
  then obtain s' where "delete_ltx_files c (mt_store m) [mk_info level a b 0 None] = Ok s'" "m' = notify (commit_lease pass (m1\<lparr>mt_store := s'\<rparr>))"
    using assms(2) by (auto simp: deleted_def bad split: result.splits)
  moreover have "mt_store (notify (commit_lease pass (m1\<lparr>mt_store := s'\<rparr>))) = s'" for s'
    by (simp add: notify_def commit_lease_def now_def split: option.splits)
  ultimately show thesis using that p by blast
qed

lemma accept_file_200:
  assumes "accept_file c opts m lev name hs body = (resp, m')" and "rs_status resp = 200" and "body_pends body d None" and "body_ticks body = 0"
  obtains level a b info s' where "parse_level lev = Some level" "parse_filename name = Some (a, b)"
    "write_ltx_file c (mt_store m) level a b d = Ok (info, s')" "mt_store m' = s'" "resp = response_text 200 (listing_line info)"
  using assms(1)
proof (cases rule: accept_file_cases)
  case 1
  then show thesis using assms(2) by (simp add: refused_status_def)
next
  case (2 p m1 info s')
  obtain r b where sp: "spool_put_body [] body = (r, b)" by fastforce
  have spool: "fst (spool_put_body [] body) = Ok d" using spool_put_body_pends [OF assms(3) sp] assms(4) sp by auto
  obtain level a b where p: "parse_level lev = Some level" "parse_filename name = Some (a, b)" "pp_level p = level" "pp_min_txid p = a" "pp_max_txid p = b"
      "pp_spool p = d"
    using 2(1) spool by (auto simp: put_begin_def split: if_splits option.splits prod.splits result.splits)
  have store: "mt_store m1 = mt_store m" using same_but_clock_sel [OF put_begin_clock [OF 2(1)]] by simp
  from 2(2) show thesis
  proof (cases rule: put_commit_cases)
    case 1
    then show thesis using assms(2) by simp
  next
    case (2 info' s2)
    then show thesis using that [OF p(1,2), of info' s2] p store by (simp add: accepted_def)
  qed
qed

section \<open>The contract\<close>

definition ms_contents :: "contents \<Rightarrow> contents" where
  "ms_contents f = (\<lambda>k. map_option (\<lambda>(d, t). (d, ms_time t)) (f k))"

lemma ms_contents_update: "ms_contents (f(k \<mapsto> (d, t))) = (ms_contents f)(k \<mapsto> (d, ms_time t))"
  by (simp add: ms_contents_def fun_eq_iff)

lemma ms_contents_restrict: "ms_contents (f |` A) = ms_contents f |` A"
  by (auto simp: ms_contents_def fun_eq_iff restrict_map_def)

lemma ms_listing:
  assumes "is_listing f level seek fs"
  shows "is_listing (ms_contents f) level seek (map ms_info fs)"
proof -
  have "sorted_wrt range_less (map ms_info fs)"
    using assms by (auto simp: is_listing_def sorted_wrt_map range_less_def ms_info_def elim: sorted_wrt_mono_rel [rotated])
  moreover have "set (map ms_info fs) = {mk_info level a b (of_nat (length d)) (Some t) | a b d t. ms_contents f (level, a, b) = Some (d, t) \<and> seek \<le> a}"
    using assms by (auto simp: is_listing_def ms_contents_def ms_info_def image_iff) force+
  ultimately show ?thesis by (simp add: is_listing_def)
qed

text \<open>The client as a backend whose state is the mount; the type of \<open>client\<close> drops the state after an error.\<close>

definition http_client :: "'w transport \<Rightarrow> http_replica_client \<Rightarrow> 'w client" where
  "http_client ex cl =
     (let k = \<lparr>c_out = [], c_writes = []\<rparr> in
      \<lparr>ltx_files = (\<lambda>w level seek um. fst (http_ltx_files ex cl level seek um (idle w k))),
       open_ltx_file = (\<lambda>w level a b offset sz.
         and_then (fst (http_open_ltx_file ex cl level a b offset sz (idle w k))) (\<lambda>r.
           case r of Spooled d \<Rightarrow> Ok d | Streaming ll b \<Rightarrow> map_err (transport_err ''read'') (fst (spool_put_body [] b)))),
       write_ltx_file = (\<lambda>w level a b rd.
         case http_write_ltx_file ex cl level a b rd (idle w k) of (Ok info, st) \<Rightarrow> Ok (info, ts_world st) | (Err e, _) \<Rightarrow> Err e),
       delete_ltx_files = (\<lambda>w infos.
         case http_delete_ltx_files ex cl infos (idle w k) of (Ok _, st) \<Rightarrow> Ok (ts_world st) | (Err e, _) \<Rightarrow> Err e),
       delete_all = (\<lambda>w. case http_delete_all ex cl (idle w k) of (Ok _, st) \<Rightarrow> Ok (ts_world st) | (Err e, _) \<Rightarrow> Err e)\<rparr>)"

lemma length_filename: "length (format_filename a b) = 37"
  by (simp add: format_filename_def)

definition file_words :: "u8 \<Rightarrow> txid \<Rightarrow> txid \<Rightarrow> string list" where
  "file_words level a b = [''ltx'', fmt_dec (unat level), format_filename a b]"

locale http_bucket = bucket_client c inv contents for c :: "'s client" and inv contents +
  fixes opts :: mount_options and base :: "string list" and carry :: network
    and cl :: http_replica_client and authority host :: string and port :: nat
  assumes network: "carries carry"
    and endpoint: "good_endpoint cl authority host port base"
    and timely: "inv s \<Longrightarrow> contents s k = Some (d, t) \<Longrightarrow> timely t"
begin

abbreviation wire :: "'s mount transport" where
  "wire \<equiv> execute (mount_link c opts base carry)"

lemma request_Ok:
  assumes rest: "list_all good_word rest" "rest \<noteq> []" and q: "plain q" "length (target_of rest q) \<le> 1000"
    and meth: "meth \<in> {''GET'', ''PUT'', ''DELETE''}" and body: "body = (if meth = ''PUT'' then Some d else None)"
    and route: "route_of meth (join (CHR ''/'') rest) \<noteq> RStream"
    and run: "m_bind (exec wire cl meth (hc_base_url cl @ target_of rest q) False body) f (idle m k) = (Ok x, st)"
  obtains b resp m' tr k' where "handle c opts m (mount_request meth rest q (request_headers cl host port meth) b) = (resp, m')"
    "meth = ''PUT'' \<Longrightarrow> body_pends b d None \<and> body_ticks b = 0" "f tr (idle m' k') = (Ok x, st)" "framed resp"
    "tp_status tr = rs_status resp" "tp_headers tr = response_headers resp" "tp_long_lived tr = False"
    "fits resp \<Longrightarrow> body_pends (tp_body tr) (payload resp) None \<and> body_ticks (tp_body tr) = 0"
proof -
  obtain b where b: "meth = ''PUT'' \<Longrightarrow> body_pends b d None \<and> body_ticks b = 0"
    "\<And>resp m'. handle c opts m (mount_request meth rest q (request_headers cl host port meth) b) = (resp, m') \<Longrightarrow> \<not> is_stream resp \<Longrightarrow>
      answered resp m' False (exec wire cl meth (hc_base_url cl @ target_of rest q) False body (idle m k))"
    using exchange [OF network endpoint rest q meth body, of c opts m False k] by metis
  obtain resp m' where h: "handle c opts m (mount_request meth rest q (request_headers cl host port meth) b) = (resp, m')" by fastforce
  have "\<not> is_stream resp" using handle_framed(2) [OF h] route by (simp add: mount_request_def)
  from b(2) [OF h this] run obtain tr k' where "f tr (idle m' k') = (Ok x, st)"
    "tp_status tr = rs_status resp" "tp_headers tr = response_headers resp" "tp_long_lived tr = False"
    "fits resp \<longrightarrow> body_pends (tp_body tr) (payload resp) None \<and> body_ticks (tp_body tr) = 0"
    by (auto simp: answered_def m_bind_def)
  then show thesis using that [OF h b(1)] handle_framed(1) [OF h] by blast
qed

text \<open>A successful listing is the mount's listing.\<close>

lemma listing_request:
  fixes level :: u8
  shows "list_all good_word [''ltx'', fmt_dec (unat level)]" "[''ltx'', fmt_dec (unat level)] \<noteq> []" "plain (listing_query seek um)"
  "length (target_of [''ltx'', fmt_dec (unat level)] (listing_query seek um)) \<le> 1000"
  "hc_base_url cl @ ''/ltx/'' @ fmt_dec (unat level) @ ''?seek='' @ txid_display seek @ (if um then ''&meta=1'' else []) =
     hc_base_url cl @ target_of [''ltx'', fmt_dec (unat level)] (listing_query seek um)"
  "route_of ''GET'' (join (CHR ''/'') [''ltx'', fmt_dec (unat level)]) = RListing (fmt_dec (unat level))"
  using length_dec_level [of level] route_of_words(1) [of "fmt_dec (unat level)"]
  by (simp_all add: listing_query_def target_of_def url_path_def)

lemma listing_received:
  assumes run: "http_ltx_files wire cl level seek um (idle m k) = (Ok fs, st)"
  obtains infos where "ltx_files c (mt_store m) level seek um = Ok infos" "fs = parse_listing level (concat (map listing_line infos))"
proof -
  let ?rest = "[''ltx'', fmt_dec (unat level)]" and ?q = "listing_query seek um" and ?hs = "request_headers cl host port ''GET''"
  note rq = listing_request
  have run': "m_bind (exec wire cl ''GET'' (hc_base_url cl @ target_of ?rest ?q) False None) (receive_listing level) (idle m k) = (Ok fs, st)"
    using run unfolding http_ltx_files_def Let_def rq(5) .
  obtain b resp m' tr k' where h: "handle c opts m (mount_request ''GET'' ?rest ?q ?hs b) = (resp, m')"
    and go: "receive_listing level tr (idle m' k') = (Ok fs, st)" and fr: "framed resp"
    and tr: "tp_status tr = rs_status resp" "tp_headers tr = response_headers resp" "tp_long_lived tr = False"
      "fits resp \<Longrightarrow> body_pends (tp_body tr) (payload resp) None \<and> body_ticks (tp_body tr) = 0"
    by (rule request_Ok [OF rq(1-4) _ _ _ run', where d = "[]"]) (use rq(6) in simp_all)
  have "rs_status resp = 200" using go tr(1) by (auto simp: receive_listing_def Let_def split: if_splits)
  then obtain infos where infos: "ltx_files c (mt_store m) level seek um = Ok infos" "resp = response_text 200 (concat (map listing_line infos))"
    using h rq(6) parse_level_dec(1) [of level]
    by (auto simp: handle_def mount_request_def serve_listing_def response_error_def response_text_def listing_query_params txid_parse_display
        split: option.splits result.splits if_splits)
  let ?text = "concat (map listing_line infos)"
  have body: "rs_body resp = BodyBytes (to_bytes ?text)" "payload resp = to_bytes ?text" using infos(2) by (simp_all add: response_text_def payload_def)
  have cl: "content_length (tp_headers tr) = parse_dec 64 (fmt_dec (length ?text))" using response_framing(2) [OF fr body(1)] tr(2) by simp
  obtain n where n: "content_length (tp_headers tr) = Some n"
    using go by (cases "content_length (tp_headers tr)") (auto simp: receive_listing_def Let_def split: if_splits)
  then have len: "n = length ?text" "length ?text < 2 ^ 64" using cl parse_dec_fmt [of 64 "length ?text" n] by simp_all
  then have "fits resp" using body(1) by (simp add: fits_def)
  then have "read_all_checked (listing_ctx level) [] (tp_long_lived tr) (tp_body tr) (idle m' k') = (Ok (to_bytes ?text), idle m' k')"
    using tr(3,4) body(2) read_all_whole [of "tp_body tr" "to_bytes ?text" "listing_ctx level" "[]" m' k'] by simp
  then have "fs = parse_listing level ?text"
    using go n len ascii_listing [of infos] by (auto simp: receive_listing_def Let_def m_bind_def from_utf8_ascii split: if_splits)
  then show thesis using that infos(1) by blast
qed

lemma ltx_files_wire:
  assumes "inv (mt_store m)" and "http_ltx_files wire cl level seek um (idle m k) = (Ok fs, st)"
  shows "is_listing (ms_contents (contents (mt_store m))) level seek fs"
proof -
  obtain infos where infos: "ltx_files c (mt_store m) level seek um = Ok infos" "fs = parse_listing level (concat (map listing_line infos))"
    by (rule listing_received [OF assms(2)])
  have listing: "is_listing (contents (mt_store m)) level seek infos" by (rule ltx_files_Ok [OF assms(1) infos(1)])
  have "fi_level f = level \<and> (\<exists>t. fi_created_at f = Some t \<and> timely t)" if f: "f \<in> set infos" for f
  proof -
    obtain a b d t where "f = mk_info level a b (of_nat (length d)) (Some t)" "contents (mt_store m) (level, a, b) = Some (d, t)"
      using listing f unfolding is_listing_def by blast
    then show ?thesis using timely [OF assms(1)] by simp
  qed
  moreover have "sorted_wrt range_less infos" using listing by (simp add: is_listing_def)
  ultimately have "parse_listing level (concat (map listing_line infos)) = map ms_info infos" by (rule parse_listing_text)
  then show ?thesis using ms_listing [OF listing] infos(2) by simp
qed

text \<open>A file is what the mount's store holds; a \<open>PUT\<close> and a \<open>DELETE\<close> reach it once.\<close>

lemma file_request:
  "list_all good_word (file_words level a b)" "file_words level a b \<noteq> []" "length (target_of (file_words level a b) []) \<le> 1000"
  "file_url cl level a b = hc_base_url cl @ target_of (file_words level a b) []"
  "route_of ''GET'' (join (CHR ''/'') (file_words level a b)) = RFile (fmt_dec (unat level)) (format_filename a b)"
  "route_of ''PUT'' (join (CHR ''/'') (file_words level a b)) = RPut (fmt_dec (unat level)) (format_filename a b)"
  "route_of ''DELETE'' (join (CHR ''/'') (file_words level a b)) = RDelete (fmt_dec (unat level)) (format_filename a b)"
  unfolding file_words_def using length_dec_level [of level] route_of_words(2-4) [of "fmt_dec (unat level)" "format_filename a b"]
  by (simp_all add: target_of_def url_path_def file_url_def length_filename)

lemma open_wire:
  assumes "inv (mt_store m)" and run: "http_open_ltx_file wire cl level a b 0 0 (idle m k) = (Ok r, st)"
  obtains d t where "r = Spooled d" "contents (mt_store m) (level, a, b) = Some (d, t)"
proof -
  note rq = file_request [of level a b]
  have run': "m_bind (exec wire cl ''GET'' (hc_base_url cl @ target_of (file_words level a b) []) False None)
      (receive_file level a b True) (idle m k) = (Ok r, st)"
    using run by (simp add: http_open_ltx_file_def rq(4))
  obtain body resp m' tr k' where
    h: "handle c opts m (mount_request ''GET'' (file_words level a b) [] (request_headers cl host port ''GET'') body) = (resp, m')"
    and go: "receive_file level a b True tr (idle m' k') = (Ok r, st)"
    and tr: "tp_status tr = rs_status resp" "tp_long_lived tr = False"
      "fits resp \<Longrightarrow> body_pends (tp_body tr) (payload resp) None \<and> body_ticks (tp_body tr) = 0"
    by (rule request_Ok [OF rq(1,2) plain_simps(1) rq(3) _ _ _ run', where d = "[]"]) (use rq(5) in simp_all)
  have "rs_status resp = 200" using go tr(1) by (auto simp: receive_file_def split: if_splits)
  then obtain d where d: "open_ltx_file c (mt_store m) level a b 0 0 = Ok d" "rs_body resp = BodyReader d"
    using h rq(5) parse_level_dec(1) [of level]
    by (auto simp: handle_def mount_request_def serve_file_def parse_u64_def response_error_def response_text_def parse_format_filename
        split: option.splits result.splits if_splits storage_error.splits)
  then have "body_pends (tp_body tr) d None" "body_ticks (tp_body tr) = 0" using tr(3) by (simp_all add: fits_def payload_def)
  then have "r = Spooled d"
    using go tr(1,2) \<open>rs_status resp = 200\<close> by (auto simp: receive_file_def spool_body_def read_all_whole m_bind_def)
  then show thesis using that open_ltx_file_Ok [OF assms(1) d(1)] by blast
qed

lemma put_wire:
  assumes "inv (mt_store m)" and run: "http_write_ltx_file wire cl level a b d (idle m k) = (Ok info, st)"
  shows "inv (mt_store (ts_world st)) \<and> (\<exists>t. contents (mt_store (ts_world st)) = (contents (mt_store m))((level, a, b) \<mapsto> (d, t)))"
proof -
  note rq = file_request [of level a b]
  let ?hs = "request_headers cl host port ''PUT''"
  have run': "m_bind (exec wire cl ''PUT'' (hc_base_url cl @ target_of (file_words level a b) []) False (Some d))
      (receive_put level (''push '' @ range_text level a b)) (idle m k) = (Ok info, st)"
    using run by (simp add: http_write_ltx_file_def rq(4))
  obtain body resp m' tr k' where
    h: "handle c opts m (mount_request ''PUT'' (file_words level a b) [] ?hs body) = (resp, m')"
    and pend: "body_pends body d None" "body_ticks body = 0"
    and go: "receive_put level (''push '' @ range_text level a b) tr (idle m' k') = (Ok info, st)"
    and tr: "tp_status tr = rs_status resp"
    by (rule request_Ok [OF rq(1,2) plain_simps(1) rq(3) _ _ _ run', where d = d]) (use rq(6) in simp_all)
  have ok: "rs_status resp = 200" "st = idle m' k'" using go tr(1) by (auto simp: receive_put_def split: if_splits option.splits prod.splits)
  then have "accept_file c opts m (fmt_dec (unat level)) (format_filename a b) ?hs body = (resp, m')"
    using h rq(6) by (auto simp: handle_def mount_request_def response_error_def response_text_def split: if_splits)
  then obtain level' info' s' where w: "parse_level (fmt_dec (unat level)) = Some level'"
      "write_ltx_file c (mt_store m) level' a b d = Ok (info', s')" "mt_store m' = s'"
    by (rule accept_file_200 [OF _ ok(1) pend]) (simp add: parse_format_filename)
  then show ?thesis using write_ltx_file_Ok [OF assms(1), of level a b d info' s'] parse_level_dec(1) [OF w(1)] ok(2) by (simp add: idle_def)
qed

lemma delete_wire:
  assumes "inv (mt_store m)" and "http_delete_ltx_files wire cl infos (idle m k) = (Ok u, st)"
  shows "inv (mt_store (ts_world st)) \<and> contents (mt_store (ts_world st)) = contents (mt_store m) |` (- (info_key ` set infos))"
  using assms
proof (induction infos arbitrary: m k)
  case Nil
  then show ?case by (auto simp: idle_def)
next
  case (Cons i infos)
  let ?rest = "file_words (fi_level i) (fi_min_txid i) (fi_max_txid i)" and ?hs = "request_headers cl host port ''DELETE''"
  note rq = file_request [of "fi_level i" "fi_min_txid i" "fi_max_txid i"]
  obtain body resp m' tr k' where h: "handle c opts m (mount_request ''DELETE'' ?rest [] ?hs body) = (resp, m')"
    and go: "(if tp_status tr \<noteq> 200
       then m_err (status_error (''delete '' @ range_text (fi_level i) (fi_min_txid i) (fi_max_txid i)) True tr)
       else http_delete_ltx_files wire cl infos) (idle m' k') = (Ok u, st)"
    and tr: "tp_status tr = rs_status resp"
    by (rule request_Ok [OF rq(1,2) plain_simps(1) rq(3) _ _ _ Cons.prems(2) [unfolded http_delete_ltx_files.simps rq(4)], where d = "[]"]) (use rq(7) in simp_all)
  have ok: "rs_status resp = 200" and rec: "http_delete_ltx_files wire cl infos (idle m' k') = (Ok u, st)"
    using go tr by (auto split: if_splits)
  have "delete_file c opts m (fmt_dec (unat (fi_level i))) (format_filename (fi_min_txid i) (fi_max_txid i)) ?hs = (resp, m')"
    using h rq(7) ok by (auto simp: handle_def mount_request_def response_error_def response_text_def split: if_splits)
  then obtain level where "parse_level (fmt_dec (unat (fi_level i))) = Some level"
      "delete_ltx_files c (mt_store m) [mk_info level (fi_min_txid i) (fi_max_txid i) 0 None] = Ok (mt_store m')"
    by (rule delete_file_200 [OF _ ok]) (simp add: parse_format_filename)
  then have "inv (mt_store m') \<and> contents (mt_store m') = contents (mt_store m) |` (- {info_key i})"
    using delete_ltx_files_Ok [OF Cons.prems(1)] parse_level_dec(1) [of "fi_level i" level] by (fastforce simp: info_key_def)
  moreover have "- {info_key i} \<inter> - (info_key ` set infos) = - (info_key ` set (i # infos))" by auto
  ultimately show ?case using Cons.IH [OF _ rec] by (simp add: Int_commute)
qed

text \<open>Requests the mount can serve are served.\<close>

lemma request_served:
  assumes rest: "list_all good_word rest" "rest \<noteq> []" and q: "plain q" "length (target_of rest q) \<le> 1000"
    and h: "\<And>b. handle c opts m (mount_request ''GET'' rest q (request_headers cl host port ''GET'') b) = (resp, m)"
    and resp: "\<not> is_stream resp" "fits resp"
  obtains tr k' where "m_bind (exec wire cl ''GET'' (hc_base_url cl @ target_of rest q) False None) f (idle m k) = f tr (idle m k')"
    "tp_status tr = rs_status resp" "tp_headers tr = response_headers resp" "tp_long_lived tr = False"
    "body_pends (tp_body tr) (payload resp) None" "body_ticks (tp_body tr) = 0"
proof -
  obtain b where b: "\<And>resp m'. handle c opts m (mount_request ''GET'' rest q (request_headers cl host port ''GET'') b) = (resp, m') \<Longrightarrow> \<not> is_stream resp \<Longrightarrow>
      answered resp m' False (exec wire cl ''GET'' (hc_base_url cl @ target_of rest q) False None (idle m k))"
    by (rule exchange [OF network endpoint rest q, where meth = "''GET''" and body = None and c = c and opts = opts and m = m and ll = False and k = k]) auto
  from b [OF h resp(1)] resp(2) show thesis by (auto simp: answered_def m_bind_def intro: that)
qed

lemma open_served:
  assumes auth: "\<not> unauthorized opts (request_headers cl host port ''GET'')" and level: "level \<le> SNAPSHOT_LEVEL"
  shows "open_ltx_file c (mt_store m) level a b 0 0 = Ok d \<Longrightarrow>
      \<exists>k'. http_open_ltx_file wire cl level a b 0 0 (idle m k) = (Ok (Spooled d), idle m k')"
    and "open_ltx_file c (mt_store m) level a b 0 0 = Err (NotFound l x y) \<Longrightarrow>
      \<exists>k'. http_open_ltx_file wire cl level a b 0 0 (idle m k) = (Err (NotFound level a b), idle m k')"
proof -
  note rq = file_request [of level a b]
  let ?file = "\<lparr>rs_status = 200, rs_headers = [(''content-type'', ''application/octet-stream'')], rs_body = BodyReader d\<rparr>"
  let ?missing = "response_error 404 ''no such file''"
  have resp: "\<not> is_stream ?file" "fits ?file" "payload ?file = d" "\<not> is_stream ?missing" "fits ?missing" "rs_status ?missing = 404"
    by (simp_all add: is_stream_def fits_def payload_def response_error_def response_text_def NL_def)
  have h: "handle c opts m (mount_request ''GET'' (file_words level a b) [] (request_headers cl host port ''GET'') body) =
      (serve_file c (mt_store m) (fmt_dec (unat level)) (format_filename a b) [], m)" for body
    using auth rq(5) by (simp add: handle_def mount_request_def)
  note served = request_served [OF rq(1,2) plain_simps(1) rq(3), where f = "receive_file level a b True" and m = m and k = k]
  note eval = http_open_ltx_file_def rq(4) receive_file_def spool_body_def read_all_whole m_bind_def serve_file_def parse_u64_def
    parse_format_filename parse_level_dec(2) [OF level]
  show "\<exists>k'. http_open_ltx_file wire cl level a b 0 0 (idle m k) = (Ok (Spooled d), idle m k')" if "open_ltx_file c (mt_store m) level a b 0 0 = Ok d"
    by (rule served [of ?file]) (use that h resp in \<open>auto simp: eval\<close>)
  show "\<exists>k'. http_open_ltx_file wire cl level a b 0 0 (idle m k) = (Err (NotFound level a b), idle m k')"
    if "open_ltx_file c (mt_store m) level a b 0 0 = Err (NotFound l x y)"
    by (rule served [of ?missing]) (use that h resp in \<open>auto simp: eval\<close>)
qed

lemma listing_served:
  assumes auth: "\<not> unauthorized opts (request_headers cl host port ''GET'')" and level: "level \<le> SNAPSHOT_LEVEL"
    and infos: "ltx_files c (mt_store m) level seek um = Ok infos" and len: "length (concat (map listing_line infos)) \<le> MAX_LISTING"
  shows "\<exists>fs k'. http_ltx_files wire cl level seek um (idle m k) = (Ok fs, idle m k')"
proof -
  let ?resp = "response_text 200 (concat (map listing_line infos))"
  note rq = listing_request
  have h: "handle c opts m (mount_request ''GET'' [''ltx'', fmt_dec (unat level)] (listing_query seek um) (request_headers cl host port ''GET'') b) = (?resp, m)" for b
    using auth rq(6) parse_level_dec(2) [OF level] infos
    by (cases um) (simp_all add: handle_def mount_request_def serve_listing_def listing_query_params txid_parse_display)
  have fr: "framed ?resp" using handle_framed(1) [OF h] .
  have n: "length (concat (map listing_line infos)) < 2 ^ 64" using len by (simp add: MAX_LISTING_def)
  have resp: "\<not> is_stream ?resp" "fits ?resp" "payload ?resp = to_bytes (concat (map listing_line infos))" "rs_status ?resp = 200"
    using n by (simp_all add: is_stream_def fits_def payload_def response_text_def)
  have cl: "content_length (response_headers ?resp) = Some (length (concat (map listing_line infos)))"
    using response_framing(2) [OF fr, of "to_bytes (concat (map listing_line infos))"] parse_fmt_dec [OF n] by (simp add: response_text_def)
  show ?thesis
    by (rule request_served [OF rq(1-4) h resp(1,2), where f = "receive_listing level" and k = k])
      (use rq(5) resp cl len ascii_listing [of infos] in \<open>auto simp: http_ltx_files_def receive_listing_def Let_def read_all_whole m_bind_def from_utf8_ascii\<close>)
qed

end

end
