(* ===== verification/HttpBucketProps.thy ===== *)
theory HttpBucketProps
  imports HttpBucket WriterProps
begin

text \<open>
  The directory backend behind a mount, seen by the HTTP client: the contract of \<open>HttpBucket\<close> instantiated,
  with what the client can rely on when the mount lets it in, and a writer that uploads through it.
\<close>

sublocale http_bucket \<subseteq> web: bucket_client "http_client (execute (mount_link c opts base carry)) cl" "\<lambda>m. inv (mt_store m)"
  "\<lambda>m. ms_contents (contents (mt_store m))"
proof
  fix m level seek um fs
  assume "inv (mt_store m)" "ltx_files (http_client wire cl) m level seek um = Ok fs"
  then show "is_listing (ms_contents (contents (mt_store m))) level seek fs"
    using ltx_files_wire [of m level seek um] by (simp add: http_client_def Let_def) (metis prod.collapse)
next
  fix m level a b d
  assume inv: "inv (mt_store m)" and o: "open_ltx_file (http_client wire cl) m level a b 0 0 = Ok d"
  then obtain r st where "http_open_ltx_file wire cl level a b 0 0 (idle m \<lparr>c_out = [], c_writes = []\<rparr>) = (Ok r, st)"
      "(case r of Spooled d \<Rightarrow> Ok d | Streaming ll b \<Rightarrow> map_err (transport_err ''read'') (fst (spool_put_body [] b))) = Ok d"
    by (auto simp: http_client_def Let_def and_then_eq_Ok) (metis prod.collapse)
  then show "\<exists>t. ms_contents (contents (mt_store m)) (level, a, b) = Some (d, t)"
    by (auto simp: ms_contents_def elim!: open_wire [OF inv])
next
  fix m level a b d info m'
  assume inv: "inv (mt_store m)" and w: "write_ltx_file (http_client wire cl) m level a b d = Ok (info, m')"
  then obtain st where "http_write_ltx_file wire cl level a b d (idle m \<lparr>c_out = [], c_writes = []\<rparr>) = (Ok info, st)" "m' = ts_world st"
    by (auto simp: http_client_def Let_def split: prod.splits result.splits)
  then show "inv (mt_store m') \<and> (\<exists>t. ms_contents (contents (mt_store m')) = (ms_contents (contents (mt_store m)))((level, a, b) \<mapsto> (d, t)))"
    using put_wire [OF inv] ms_contents_update by metis
next
  fix m infos m'
  assume inv: "inv (mt_store m)" and w: "delete_ltx_files (http_client wire cl) m infos = Ok m'"
  then obtain u st where "http_delete_ltx_files wire cl infos (idle m \<lparr>c_out = [], c_writes = []\<rparr>) = (Ok u, st)" "m' = ts_world st"
    by (auto simp: http_client_def Let_def split: prod.splits result.splits)
  then show "inv (mt_store m') \<and> ms_contents (contents (mt_store m')) = ms_contents (contents (mt_store m)) |` (- (info_key ` set infos))"
    using delete_wire [OF inv] ms_contents_restrict by metis
qed

context http_bucket
begin

lemma web_bucket: "bucket_client (http_client wire cl) (\<lambda>m. inv (mt_store m)) (\<lambda>m. ms_contents (contents (mt_store m)))"
  by (rule web.bucket_client_axioms)

end

section \<open>Refused writes\<close>

text \<open>Over a backend that names what it wrote, a \<open>PUT\<close> that the client reports as failed has not changed the store.\<close>

lemma length_listing_line: "length (listing_line f) \<le> 80"
proof -
  have "unat (fi_size f) < 2 ^ 64" using unsigned_less [of "fi_size f"] by simp
  then have "length (fmt_dec (unat (fi_size f))) \<le> 20" by (rule length_dec_u64)
  moreover have "length (fmt_dec (min n (2 ^ 64 - 1))) \<le> 20" for n by (rule length_dec_u64) simp
  then have "length (case created_ms (fi_created_at f) of None \<Rightarrow> ''-'' | Some s \<Rightarrow> s) \<le> 20"
    by (auto simp: created_ms_def split: option.splits)
  ultimately show ?thesis by (simp add: listing_line_words listing_words_def length_filename NL_def)
qed

lemma receive_put_line:
  assumes "tp_status tr = 200" and "tp_long_lived tr = False" and "body_pends (tp_body tr) (to_bytes (listing_line f)) None" and "body_ticks (tp_body tr) = 0"
    and "fi_created_at f = Some t" and "timely t"
  shows "receive_put (fi_level f) ctx tr st = (Ok (ms_info f), st)"
proof -
  have "read_limited False 4096 [] (tp_body tr) = ([] @ to_bytes (listing_line f), None)"
    by (rule read_limited_whole [OF assms(3,4)]) (use length_listing_line [of f] in simp)
  moreover have "from_utf8 (to_bytes (listing_line f)) = Some (listing_line f)" using ascii_listing [of "[f]"] by (simp add: from_utf8_ascii)
  moreover have "lines (listing_line f) = [listing_words f]" using lines_listing [of "[f]"] by simp
  ultimately show ?thesis using assms(1,2) parse_listing_words [OF assms(5,6)] by (simp add: receive_put_def)
qed

lemma receive_put_state: "receive_put level ctx tr st = (r, st') \<Longrightarrow> st' = st"
  by (auto simp: receive_put_def split: if_splits prod.splits option.splits)

locale http_replica = http_bucket c inv contents opts base carry cl authority host port + replica_client c inv contents
  for c :: "'s client" and inv contents opts base carry cl authority host port
begin

lemma put_failed:
  assumes inv: "inv (mt_store m)" and run: "http_write_ltx_file wire cl level a b d (idle m k) = (Err e, st)"
  shows "mt_store (ts_world st) = mt_store m"
proof (rule ccontr)
  assume changed: "mt_store (ts_world st) \<noteq> mt_store m"
  note rq = file_request [of level a b]
  let ?hs = "request_headers cl host port ''PUT''" and ?ctx = "''push '' @ range_text level a b"
  obtain body where pend: "body_pends body d None" "body_ticks body = 0"
    and ans: "\<And>resp m'. handle c opts m (mount_request ''PUT'' (file_words level a b) [] ?hs body) = (resp, m') \<Longrightarrow> \<not> is_stream resp \<Longrightarrow>
      answered resp m' False (exec wire cl ''PUT'' (hc_base_url cl @ target_of (file_words level a b) []) False (Some d) (idle m k))"
    by (rule exchange [OF network endpoint rq(1,2) plain_simps(1) rq(3), where meth = "''PUT''" and body = "Some d" and d = d and c = c and opts = opts
        and m = m and ll = False and k = k]) auto
  obtain resp m' where h: "handle c opts m (mount_request ''PUT'' (file_words level a b) [] ?hs body) = (resp, m')" by fastforce
  have ns: "\<not> is_stream resp" using handle_framed(2) [OF h] rq(6) by (simp add: mount_request_def)
  have store: "mt_store (ts_world st) = mt_store m'"
    using ans [OF h ns] run by (auto simp: answered_def http_write_ltx_file_def rq(4) m_bind_def idle_def dest!: receive_put_state)
  then have acc: "accept_file c opts m (fmt_dec (unat level)) (format_filename a b) ?hs body = (resp, m')"
    using h rq(6) changed by (auto simp: handle_def mount_request_def split: if_splits)
  from acc have ok: "rs_status resp = 200"
    by (cases rule: accept_file_cases) (use changed store in \<open>auto simp: response_text_def dest: same_but_clock_sel\<close>)
  obtain level' info s' where w: "parse_level (fmt_dec (unat level)) = Some level'" "write_ltx_file c (mt_store m) level' a b d = Ok (info, s')"
      "resp = response_text 200 (listing_line info)"
    by (rule accept_file_200 [OF acc ok pend]) (auto simp: parse_format_filename)
  then have l: "level' = level" using parse_level_dec(1) by blast
  obtain h where hd: "HEADER_SIZE \<le> length d" "header_decode (take HEADER_SIZE d) = Ok h" using write_ltx_file_checks [OF inv w(2)] by blast
  then obtain s2 where s2: "info = mk_info level a b (of_nat (length d)) (Some (header_time h))"
    using write_ltx_file_contents [OF inv hd, of level a b] w(2) l by auto
  have "fits resp" "payload resp = to_bytes (listing_line info)"
    using w(3) length_listing_line [of info] by (simp_all add: fits_def payload_def response_text_def)
  with ans [OF h ns] obtain tr k' where "exec wire cl ''PUT'' (hc_base_url cl @ target_of (file_words level a b) []) False (Some d) (idle m k) = (Ok tr, idle m' k')"
      "tp_status tr = 200" "tp_long_lived tr = False" "body_pends (tp_body tr) (to_bytes (listing_line info)) None" "body_ticks (tp_body tr) = 0"
    using ok by (auto simp: answered_def)
  then show False using run receive_put_line [of tr info "header_time h" ?ctx "idle m' k'"] s2 header_time_timely
    by (simp add: http_write_ltx_file_def rq(4) m_bind_def)
qed

end

section \<open>Lost responses\<close>

text \<open>A link whose peer works as before, but whose answers are delayed, cut, garbled or lost on the way back.\<close>

definition lossy_link :: "'w link \<Rightarrow> (net \<Rightarrow> net) \<Rightarrow> 'w link" where
  "lossy_link lk down = lk\<lparr>lk_peer := (\<lambda>sent w. case lk_peer lk sent w of (net, w') \<Rightarrow> (down net, w'))\<rparr>"

lemma lossy_link_sel [simp]:
  "lk_resolve (lossy_link lk down) = lk_resolve lk" "lk_io_timeout (lossy_link lk down) = lk_io_timeout lk" "lk_writes (lossy_link lk down) = lk_writes lk"
  by (simp_all add: lossy_link_def)

text \<open>What the peer did is the same.\<close>

lemma tr_check_world [simp]: "ts_world (snd (tr_check st)) = ts_world st"
  by (simp add: tr_check_def split: result.splits)

lemma read_response_world: "ts_world (snd (read_response lk ll st)) = snd (lk_peer lk (c_out (ts_conn st)) (ts_world st))"
proof -
  obtain net w where p: "lk_peer lk (c_out (ts_conn st)) (ts_world st) = (net, w)" by fastforce
  obtain r net' where h: "read_head net = (r, net')" by fastforce
  obtain q st' where t: "tr_check (st\<lparr>ts_world := w\<rparr>) = (q, st')" by fastforce
  then have "ts_world st' = w" using tr_check_world [of "st\<lparr>ts_world := w\<rparr>"] by simp
  then show ?thesis using p h t by (cases r; cases q) (auto simp: read_response_def Let_def m_bind_def split: option.splits)
qed

lemma read_response_lossy: "ts_world (snd (read_response (lossy_link lk down) ll st)) = ts_world (snd (read_response lk ll st))"
  by (simp add: read_response_world) (simp add: lossy_link_def split: prod.splits)

text \<open>Two computations that leave the same world.\<close>

definition same_world :: "('w, 'a) tr \<Rightarrow> ('w, 'b) tr \<Rightarrow> bool" where
  "same_world f g \<longleftrightarrow> (\<forall>st. ts_world (snd (f st)) = ts_world (snd (g st)))"

lemma same_world_refl: "same_world f f"
  by (simp add: same_world_def)

lemma same_world_bind: "(\<And>x. same_world (f x) (g x)) \<Longrightarrow> same_world (m_bind m f) (m_bind m g)"
  by (auto simp: same_world_def m_bind_def split: prod.splits result.splits)

lemma same_world_try: "(\<And>x. same_world (f x) (g x)) \<Longrightarrow> same_world (m_try m f) (m_try m g)"
  by (auto simp: same_world_def m_try_def split: prod.splits)

lemma same_world_tail:
  assumes "same_world m n" and "\<And>x st. ts_world (snd (f x st)) = ts_world st" and "\<And>x st. ts_world (snd (g x st)) = ts_world st"
  shows "same_world (m_bind m f) (m_bind n g)"
proof -
  have "ts_world (snd (m_bind m f st)) = ts_world (snd (m st))" for st using assms(2) by (simp add: m_bind_def split: prod.splits result.splits)
  moreover have "ts_world (snd (m_bind n g st)) = ts_world (snd (n st))" for st using assms(3) by (simp add: m_bind_def split: prod.splits result.splits)
  ultimately show ?thesis using assms(1) by (simp add: same_world_def)
qed

lemma same_world_try_tail:
  assumes "same_world m n" and "\<And>x st. ts_world (snd (f x st)) = ts_world st" and "\<And>x st. ts_world (snd (g x st)) = ts_world st"
  shows "same_world (m_try m f) (m_try n g)"
  using assms by (simp add: same_world_def m_try_def split: prod.splits) (metis snd_conv)

lemma execute_lossy: "same_world (execute (lossy_link lk down) req) (execute lk req)"
proof -
  have r: "same_world (read_response (lossy_link lk down) ll) (read_response lk ll)" for ll by (simp add: same_world_def read_response_lossy)
  have c: "connect (lossy_link lk down) = connect lk" by (intro ext) (unfold connect_def lossy_link_sel, rule refl)
  have "same_world (m_try (read_response (lossy_link lk down) ll) (\<lambda>r. case r of Ok resp \<Rightarrow> m_ok resp | Err _ \<Rightarrow> m_err e))
      (m_try (read_response lk ll) (\<lambda>r. case r of Ok resp \<Rightarrow> m_ok resp | Err _ \<Rightarrow> m_err e))" for ll e
    by (rule same_world_try_tail [OF r]) (auto split: result.splits)
  then show ?thesis unfolding execute_def c lossy_link_sel Let_def
    by (intro same_world_bind) (auto split: option.splits result.splits intro!: same_world_bind same_world_try same_world_refl r)
qed

lemma exec_lossy: "same_world (exec (execute (lossy_link lk down)) cl meth url ll body) (exec (execute lk) cl meth url ll body)"
  unfolding exec_def by (intro same_world_bind same_world_tail [OF execute_lossy]) (auto split: option.splits)

lemma put_lossy: "same_world (http_write_ltx_file (execute (lossy_link lk down)) cl level a b d) (http_write_ltx_file (execute lk) cl level a b d)"
  unfolding http_write_ltx_file_def
  by (intro same_world_tail [OF exec_lossy]) (metis prod.collapse receive_put_state)+

text \<open>A token that is never cancelled stays so; it is the one the calls of this backend run with.\<close>

definition keeps_never :: "('w, 'a) tr \<Rightarrow> bool" where
  "keeps_never f \<longleftrightarrow> (\<forall>st. ts_cancel st = Never \<longrightarrow> ts_cancel (snd (f st)) = Never)"

lemma never_basic: "keeps_never (m_ok x)" "keeps_never (m_err e)" "keeps_never (m_lift r)" "keeps_never tr_check" "keeps_never (conn_wrote bs evs)"
  "keeps_never (m_mod (\<lambda>st. st\<lparr>ts_conn := k\<rparr>))"
  by (simp_all add: keeps_never_def tr_check_def conn_wrote_def)

lemma never_bind: "keeps_never m \<Longrightarrow> (\<And>x. keeps_never (f x)) \<Longrightarrow> keeps_never (m_bind m f)"
  by (auto simp: keeps_never_def m_bind_def split: prod.splits result.splits)

lemma never_try: "keeps_never m \<Longrightarrow> (\<And>x. keeps_never (f x)) \<Longrightarrow> keeps_never (m_try m f)"
  by (auto simp: keeps_never_def m_try_def split: prod.splits)

lemmas nevers = never_basic never_bind never_try

lemma never_write_full: "keeps_never (write_full io bs)"
proof -
  have "keeps_never (write_loop io evs bs)" for evs bs
  proof (induction io evs bs rule: write_loop.induct)
    case (3 io ev evs b bs)
    then show ?case by (cases ev) (auto intro!: nevers)
  qed (auto intro!: nevers)
  then show ?thesis unfolding keeps_never_def write_full_def by blast
qed

lemma never_upload_body: "keeps_never (upload_body io d)"
proof (induction io d rule: upload_body.induct)
  case (1 io d)
  then show ?case by (subst upload_body.simps) (auto simp: Let_def intro!: nevers never_write_full)
qed

lemma never_connect: "keeps_never (connect lk host port)"
proof -
  have "keeps_never (try_addrs host port last_err rs)" for last_err rs
    by (induction rs arbitrary: last_err) (auto intro!: nevers split: result.splits)
  then show ?thesis unfolding connect_def by (intro nevers) (auto intro!: nevers split: result.splits)
qed

lemma never_read_response: "keeps_never (read_response lk ll)"
  unfolding keeps_never_def
proof (intro allI impI)
  fix st :: "'a tstate" assume "ts_cancel st = Never"
  then show "ts_cancel (snd (read_response lk ll st)) = Never"
    by (auto simp: read_response_def Let_def m_bind_def tr_check_def split: prod.splits result.splits option.splits)
qed

lemma never_exec: "keeps_never (exec (execute lk) cl meth url ll body)"
proof -
  have "keeps_never (execute lk req)" for req unfolding execute_def Let_def
    by (auto intro!: nevers never_connect never_write_full never_upload_body never_read_response split: prod.splits option.splits result.splits)
  then show ?thesis unfolding exec_def by (auto intro!: nevers split: option.splits)
qed

lemma idle_state: "ts_cancel st = Never \<Longrightarrow> st = idle (ts_world st) (ts_conn st)"
  by (simp add: idle_def)

text \<open>Whatever becomes of the responses, a deletion removes files it names and nothing else.\<close>

context http_bucket
begin

lemma delete_one_lossy:
  fixes i :: file_info
  assumes inv: "inv (mt_store m)"
    and run: "exec (execute (lossy_link (mount_link c opts base carry) down)) cl ''DELETE'' (file_url cl (fi_level i) (fi_min_txid i) (fi_max_txid i)) False None (idle m k) = (r, st)"
  obtains m' k' where "st = idle m' k'" "inv (mt_store m')"
    "contents (mt_store m') = contents (mt_store m) \<or> contents (mt_store m') = contents (mt_store m) |` (- {info_key i})"
proof -
  let ?rest = "file_words (fi_level i) (fi_min_txid i) (fi_max_txid i)" and ?hs = "request_headers cl host port ''DELETE''"
  note rq = file_request [of "fi_level i" "fi_min_txid i" "fi_max_txid i"]
  obtain body where ans: "\<And>resp m'. handle c opts m (mount_request ''DELETE'' ?rest [] ?hs body) = (resp, m') \<Longrightarrow> \<not> is_stream resp \<Longrightarrow>
      answered resp m' False (exec wire cl ''DELETE'' (hc_base_url cl @ target_of ?rest []) False None (idle m k))"
    by (rule exchange [OF network endpoint rq(1,2) plain_simps(1) rq(3), where meth = "''DELETE''" and body = None and d = "[]" and c = c and opts = opts
        and m = m and ll = False and k = k]) auto
  obtain resp m' where h: "handle c opts m (mount_request ''DELETE'' ?rest [] ?hs body) = (resp, m')" by fastforce
  have ns: "\<not> is_stream resp" using handle_framed(2) [OF h] rq(7) by (simp add: mount_request_def)
  have "ts_world (snd (exec wire cl ''DELETE'' (hc_base_url cl @ target_of ?rest []) False None (idle m k))) = m'"
    using ans [OF h ns] by (auto simp: answered_def idle_def)
  then have world: "ts_world st = m'"
    using exec_lossy [of "mount_link c opts base carry" down cl "''DELETE''"] run by (simp add: same_world_def rq(4)) (metis snd_conv)
  moreover have "ts_cancel st = Never"
    using never_exec [of "lossy_link (mount_link c opts base carry) down" cl "''DELETE''"] run unfolding keeps_never_def by (metis snd_conv idle_def tstate.select_convs(1))
  ultimately have "st = idle m' (ts_conn st)" using idle_state by metis
  moreover have "inv (mt_store m') \<and>
      (contents (mt_store m') = contents (mt_store m) \<or> contents (mt_store m') = contents (mt_store m) |` (- {info_key i}))"
  proof (cases "mt_store m' = mt_store m")
    case False
    then have del: "delete_file c opts m (fmt_dec (unat (fi_level i))) (format_filename (fi_min_txid i) (fi_max_txid i)) ?hs = (resp, m')"
      using h rq(7) by (auto simp: handle_def mount_request_def split: if_splits)
    then have "delete_file c opts m (fmt_dec (unat (fi_level i))) (format_filename (fi_min_txid i) (fi_max_txid i)) ?hs = (resp, m') \<or>
        mount_delete_all c opts m ?hs = (resp, m')" by blast
    then have ok: "rs_status resp = 200" by (cases rule: delete_cases) (use False in \<open>auto dest: same_but_clock_sel\<close>)
    obtain level where "parse_level (fmt_dec (unat (fi_level i))) = Some level"
        "delete_ltx_files c (mt_store m) [mk_info level (fi_min_txid i) (fi_max_txid i) 0 None] = Ok (mt_store m')"
      by (rule delete_file_200 [OF del ok]) (simp add: parse_format_filename)
    then show ?thesis
      using delete_ltx_files_Ok [OF inv] parse_level_dec(1) [of "fi_level i" level] by (fastforce simp: info_key_def)
  qed (use inv in simp)
  ultimately show thesis using that by blast
qed

lemma delete_lossy:
  assumes "inv (mt_store m)"
    and "http_delete_ltx_files (execute (lossy_link (mount_link c opts base carry) down)) cl infos (idle m k) = (r, st)"
  shows "\<exists>gone \<subseteq> info_key ` set infos. contents (mt_store (ts_world st)) = contents (mt_store m) |` (- gone)"
  using assms
proof (induction infos arbitrary: m k)
  case Nil
  then show ?case by (auto simp: idle_def)
next
  case (Cons i infos)
  have all: "f |` (- {}) = f" for f :: contents by (simp add: restrict_map_def)
  let ?ex = "execute (lossy_link (mount_link c opts base carry) down)"
  obtain q st1 where q: "exec ?ex cl ''DELETE'' (file_url cl (fi_level i) (fi_min_txid i) (fi_max_txid i)) False None (idle m k) = (q, st1)" by fastforce
  obtain m1 k1 where m1: "st1 = idle m1 k1" "inv (mt_store m1)"
    "contents (mt_store m1) = contents (mt_store m) \<or> contents (mt_store m1) = contents (mt_store m) |` (- {info_key i})"
    by (rule delete_one_lossy [OF Cons.prems(1) q])
  then have one: "\<exists>gone \<subseteq> {info_key i}. contents (mt_store m1) = contents (mt_store m) |` (- gone)" by (metis all empty_subsetI order_refl)
  have "ts_world st = m1 \<or> http_delete_ltx_files ?ex cl infos (idle m1 k1) = (r, st)"
    using Cons.prems(2) q m1(1) by (auto simp: m_bind_def idle_def split: result.splits if_splits)
  then have "\<exists>gone \<subseteq> info_key ` set infos. contents (mt_store (ts_world st)) = contents (mt_store m1) |` (- gone)"
    using Cons.IH [OF m1(2)] by (metis all empty_subsetI)
  then obtain g h where "g \<subseteq> {info_key i}" "h \<subseteq> info_key ` set infos" "contents (mt_store (ts_world st)) = contents (mt_store m) |` (- g) |` (- h)"
    using one by metis
  then show ?case by (intro exI [of _ "g \<union> h"]) (auto simp: Int_commute)
qed

end

text \<open>A \<open>PUT\<close> whose response is lost has taken effect as a whole or not at all.\<close>

context http_replica
begin

lemma put_lossy_effect:
  assumes inv: "inv (mt_store m)"
    and run: "http_write_ltx_file (execute (lossy_link (mount_link c opts base carry) down)) cl level a b d (idle m k) = (r, st)"
  shows "mt_store (ts_world st) = mt_store m \<or> (\<exists>t. contents (mt_store (ts_world st)) = (contents (mt_store m))((level, a, b) \<mapsto> (d, t)))"
proof -
  obtain r' st' where w: "http_write_ltx_file wire cl level a b d (idle m k) = (r', st')" by fastforce
  then have "ts_world st = ts_world st'"
    using put_lossy [of "mount_link c opts base carry" down cl level a b d] run unfolding same_world_def by (metis snd_conv)
  then show ?thesis using w put_wire [OF inv, of level a b d k] put_failed [OF inv, of level a b d k] by (cases r') auto
qed

end

section \<open>The directory behind the mount\<close>

text \<open>Every creation time fits the protocol; the times the backend itself records do.\<close>

definition timed :: "contents \<Rightarrow> bool" where
  "timed f \<longleftrightarrow> (\<forall>k d t. f k = Some (d, t) \<longrightarrow> timely t)"

definition dir_timed :: "path \<Rightarrow> file_system \<Rightarrow> bool" where
  "dir_timed root fs \<longleftrightarrow> dir_inv fs \<and> timed (dir_contents root fs)"

lemma timed_update: "timed f \<Longrightarrow> timely t \<Longrightarrow> timed (f(k \<mapsto> (d, t)))"
  by (auto simp: timed_def)

lemma timed_restrict: "timed f \<Longrightarrow> timed (f |` A)"
  by (auto simp: timed_def restrict_map_def split: if_splits)

interpretation tdir: replica_client "dir_client root" "dir_timed root" "dir_contents root" for root
proof
  fix s level seek um assume "dir_timed root s"
  then show "\<exists>fs. ltx_files (dir_client root) s level seek um = Ok fs \<and> is_listing (dir_contents root s) level seek fs"
    using dir.ltx_files_listing by (simp add: dir_timed_def)
next
  fix s level a b assume "dir_timed root s"
  then show "open_ltx_file (dir_client root) s level a b 0 0 =
      (case dir_contents root s (level, a, b) of None \<Rightarrow> Err (NotFound level a b) | Some (d, t) \<Rightarrow> Ok d)"
    using dir.open_ltx_file_contents by (simp add: dir_timed_def)
next
  fix s level a b and rd :: reader and h
  assume s: "dir_timed root s" and rd: "HEADER_SIZE \<le> length rd" "header_decode (take HEADER_SIZE rd) = Ok h"
  then obtain s' where "write_ltx_file (dir_client root) s level a b rd = Ok (mk_info level a b (of_nat (length rd)) (Some (header_time h)), s')"
      "dir_inv s'" "dir_contents root s' = (dir_contents root s)((level, a, b) \<mapsto> (rd, header_time h))"
    using dir.write_ltx_file_contents [of s rd h root level a b] by (auto simp: dir_timed_def)
  then show "\<exists>s'. write_ltx_file (dir_client root) s level a b rd = Ok (mk_info level a b (of_nat (length rd)) (Some (header_time h)), s') \<and>
      dir_timed root s' \<and> dir_contents root s' = (dir_contents root s)((level, a, b) \<mapsto> (rd, header_time h))"
    using s timed_update [OF _ header_time_timely] by (simp add: dir_timed_def)
next
  fix s level a b and rd :: reader and r assume "dir_timed root s" "write_ltx_file (dir_client root) s level a b rd = Ok r"
  then show "HEADER_SIZE \<le> length rd \<and> (\<exists>h. header_decode (take HEADER_SIZE rd) = Ok h)"
    using dir.write_ltx_file_checks [of s root level a b rd r] by (simp add: dir_timed_def)
next
  fix s infos assume "dir_timed root s"
  then show "\<exists>s'. delete_ltx_files (dir_client root) s infos = Ok s' \<and> dir_timed root s' \<and>
      dir_contents root s' = dir_contents root s |` (- (info_key ` set infos))"
    using dir.delete_ltx_files_contents [of s root infos] timed_restrict [of "dir_contents root s"] by (auto simp: dir_timed_def)
qed

lemma http_replica_dir:
  assumes "carries carry" and "good_endpoint cl authority host port base"
  shows "http_replica (dir_client root) (dir_timed root) (dir_contents root) base carry cl authority host port"
  using assms tdir.bucket_client_axioms tdir.replica_client_axioms
  by (intro http_replica.intro http_bucket.intro http_bucket_axioms.intro) (auto simp: dir_timed_def timed_def)

text \<open>The token of the client is the one the mount asks for.\<close>

lemma client_authorized:
  assumes "good_endpoint cl authority host port base" and "mo_auth_token opts = None \<or> mo_auth_token opts = co_auth_token (hc_opts cl)"
  shows "\<not> unauthorized opts (request_headers cl host port meth)"
proof (cases "mo_auth_token opts")
  case (Some tok)
  then have tok: "co_auth_token (hc_opts cl) = Some tok" using assms(2) by simp
  then have p: "plain tok" using validated [of "hc_opts cl" tok] assms(1) by (simp add: good_endpoint_def)
  have "get_header (request_headers cl host port meth) ''authorization'' = Some (''Bearer'' @ CHR '' '' # tok)"
    using tok by (simp add: request_headers_def extra_headers_def get_header_Cons)
  moreover have "until_ws (''Bearer'' @ CHR '' '' # tok) = (''Bearer'', CHR '' '' # tok)" by (rule until_ws_plain) (simp_all add: ws_len_space)
  moreover have "eq_ignore_ascii_case ''Bearer'' ''bearer''" by code_simp
  ultimately show ?thesis using Some p by (simp add: unauthorized_def authorized_def split_once_ws_def ws_len_space trim_plain)
qed (simp add: unauthorized_def)

definition remote_client :: "path \<Rightarrow> mount_options \<Rightarrow> string list \<Rightarrow> network \<Rightarrow> http_replica_client \<Rightarrow> file_system mount client" where
  "remote_client root opts base carry cl = http_client (execute (mount_link (dir_client root) opts base carry)) cl"

lemma remote_bucket:
  assumes "carries carry" and "good_endpoint cl authority host port base"
  shows "bucket_client (remote_client root opts base carry cl) (\<lambda>m. dir_timed root (mt_store m)) (\<lambda>m. ms_contents (dir_contents root (mt_store m)))"
  unfolding remote_client_def
  by (rule http_bucket.web_bucket [OF http_replica.axioms(1) [OF http_replica_dir [OF assms]]])

lemma remote_serves:
  assumes "carries carry" and "good_endpoint cl authority host port base" and "dir_timed root (mt_store m)"
    and auth: "mo_auth_token opts = None \<or> mo_auth_token opts = co_auth_token (hc_opts cl)" and level: "level \<le> SNAPSHOT_LEVEL"
  shows "open_ltx_file (remote_client root opts base carry cl) m level a b 0 0 =
      (case dir_contents root (mt_store m) (level, a, b) of None \<Rightarrow> Err (NotFound level a b) | Some (d, t) \<Rightarrow> Ok d)"
    and "ltx_files (dir_client root) (mt_store m) level seek um = Ok infos \<Longrightarrow> length infos \<le> 800000 \<Longrightarrow>
      \<exists>fs. ltx_files (remote_client root opts base carry cl) m level seek um = Ok fs"
proof -
  note rep = http_replica_dir [OF assms(1,2), of root]
  note let_in = client_authorized [OF assms(2) auth, of "''GET''"]
  note served = http_bucket.open_served [OF http_replica.axioms(1) [OF rep] let_in level, where m = m and a = a and b = b and k = "\<lparr>c_out = [], c_writes = []\<rparr>"]
  have o: "open_ltx_file (dir_client root) (mt_store m) level a b 0 0 =
      (case dir_contents root (mt_store m) (level, a, b) of None \<Rightarrow> Err (NotFound level a b) | Some (d, t) \<Rightarrow> Ok d)"
    using tdir.open_ltx_file_contents [OF assms(3)] by simp
  show "open_ltx_file (remote_client root opts base carry cl) m level a b 0 0 =
      (case dir_contents root (mt_store m) (level, a, b) of None \<Rightarrow> Err (NotFound level a b) | Some (d, t) \<Rightarrow> Ok d)"
  proof (cases "dir_contents root (mt_store m) (level, a, b)")
    case None
    then show ?thesis using served(2) [of level a b] o by (auto simp: remote_client_def http_client_def Let_def)
  next
    case (Some f)
    then show ?thesis using served(1) [of "fst f"] o by (auto simp: remote_client_def http_client_def Let_def split: prod.splits)
  qed
  assume infos: "ltx_files (dir_client root) (mt_store m) level seek um = Ok infos" and n: "length infos \<le> 800000"
  have "length (concat (map listing_line infos)) \<le> 80 * length infos"
    using length_listing_line by (induction infos) (auto intro: add_mono)
  then have "length (concat (map listing_line infos)) \<le> MAX_LISTING" using n by (simp add: MAX_LISTING_def)
  from http_bucket.listing_served [OF http_replica.axioms(1) [OF rep] let_in level infos this, of "\<lparr>c_out = [], c_writes = []\<rparr>"]
  show "\<exists>fs. ltx_files (remote_client root opts base carry cl) m level seek um = Ok fs"
    by (auto simp: remote_client_def http_client_def Let_def)
qed

text \<open>C25: the HTTP client is a faithful view of the directory behind a mount.  Let the client's URL and options be
  valid and lead to the server, and the network carry requests and responses whole, in whatever pieces.  Every call of the
  client that succeeds, through its request head, the chunked upload, the server's parser, the mount's
  handlers and the response framing, has done what the contract of a backend says to the directory: a listing
  is complete and in order (times in milliseconds), an opened file has the stored bytes, a \<open>PUT\<close> stored exactly
  its bytes under its name, a deletion removed exactly the named files; and a \<open>PUT\<close> that is reported as failed has not changed the
  directory.  That last point needs the response: if responses are cut, garbled or lost in any way, a \<open>PUT\<close>, whatever the client
  is told, has left the directory unchanged or has stored exactly its bytes under its name, and a deletion has removed
  some of the files it names and nothing else.  With the mount's token, a level of the protocol and a network that carries
  everything, opening gives the stored bytes or \<open>NotFound\<close>, and a listing of up to 800000 files is returned.\<close>

theorem http_bucket_contract:
  assumes "carries carry" and "good_endpoint cl authority host port base" and "dir_timed root (mt_store m)"
  shows "(\<forall>level seek um fs. ltx_files (remote_client root opts base carry cl) m level seek um = Ok fs \<longrightarrow>
       is_listing (ms_contents (dir_contents root (mt_store m))) level seek fs) \<and>
    (\<forall>level a b d info m'. write_ltx_file (remote_client root opts base carry cl) m level a b d = Ok (info, m') \<longrightarrow>
       dir_timed root (mt_store m') \<and> (\<exists>t. dir_contents root (mt_store m') = (dir_contents root (mt_store m))((level, a, b) \<mapsto> (d, t)))) \<and>
    (\<forall>infos m'. delete_ltx_files (remote_client root opts base carry cl) m infos = Ok m' \<longrightarrow>
       dir_timed root (mt_store m') \<and> dir_contents root (mt_store m') = dir_contents root (mt_store m) |` (- (info_key ` set infos))) \<and>
    (\<forall>level a b d e st. http_write_ltx_file (execute (mount_link (dir_client root) opts base carry)) cl level a b d (idle m k) = (Err e, st) \<longrightarrow>
       mt_store (ts_world st) = mt_store m) \<and>
    (\<forall>down level a b d r st. http_write_ltx_file (execute (lossy_link (mount_link (dir_client root) opts base carry) down)) cl level a b d (idle m k) = (r, st) \<longrightarrow>
       mt_store (ts_world st) = mt_store m \<or>
       (\<exists>t. dir_contents root (mt_store (ts_world st)) = (dir_contents root (mt_store m))((level, a, b) \<mapsto> (d, t)))) \<and>
    (\<forall>down infos r st. http_delete_ltx_files (execute (lossy_link (mount_link (dir_client root) opts base carry) down)) cl infos (idle m k) = (r, st) \<longrightarrow>
       (\<exists>gone \<subseteq> info_key ` set infos. dir_contents root (mt_store (ts_world st)) = dir_contents root (mt_store m) |` (- gone))) \<and>
    (mo_auth_token opts = None \<or> mo_auth_token opts = co_auth_token (hc_opts cl) \<longrightarrow>
       (\<forall>level a b. level \<le> SNAPSHOT_LEVEL \<longrightarrow> open_ltx_file (remote_client root opts base carry cl) m level a b 0 0 =
          (case dir_contents root (mt_store m) (level, a, b) of None \<Rightarrow> Err (NotFound level a b) | Some (d, t) \<Rightarrow> Ok d)) \<and>
       (\<forall>level seek um infos. level \<le> SNAPSHOT_LEVEL \<longrightarrow> ltx_files (dir_client root) (mt_store m) level seek um = Ok infos \<longrightarrow>
          length infos \<le> 800000 \<longrightarrow> (\<exists>fs. ltx_files (remote_client root opts base carry cl) m level seek um = Ok fs)))"
proof -
  note rep = http_replica_dir [OF assms(1,2), of root]
  note net = http_replica.axioms(1) [OF rep]
  let ?wire = "execute (mount_link (dir_client root) opts base carry)" and ?k = "\<lparr>c_out = [], c_writes = []\<rparr>"
  have puts: "dir_timed root (mt_store m') \<and> (\<exists>t. dir_contents root (mt_store m') = (dir_contents root (mt_store m))((level, a, b) \<mapsto> (d, t)))"
    if "write_ltx_file (remote_client root opts base carry cl) m level a b d = Ok (info, m')" for level a b d info m'
  proof -
    from that obtain st where "http_write_ltx_file ?wire cl level a b d (idle m ?k) = (Ok info, st)" "m' = ts_world st"
      by (auto simp: remote_client_def http_client_def Let_def split: prod.splits result.splits)
    then show ?thesis using http_bucket.put_wire [OF net assms(3)] by metis
  qed
  have deletes: "dir_timed root (mt_store m') \<and> dir_contents root (mt_store m') = dir_contents root (mt_store m) |` (- (info_key ` set infos))"
    if "delete_ltx_files (remote_client root opts base carry cl) m infos = Ok m'" for infos m'
  proof -
    from that obtain u st where "http_delete_ltx_files ?wire cl infos (idle m ?k) = (Ok u, st)" "m' = ts_world st"
      by (auto simp: remote_client_def http_client_def Let_def split: prod.splits result.splits)
    then show ?thesis using http_bucket.delete_wire [OF net assms(3)] by metis
  qed
  note lists = bucket_client.ltx_files_Ok [OF remote_bucket [OF assms(1,2)], where s = m, OF assms(3)]
  note lossy = http_replica.put_lossy_effect [OF rep assms(3)] http_bucket.delete_lossy [OF net assms(3)]
  show ?thesis
  proof (intro conjI allI impI)
    fix level a b assume "mo_auth_token opts = None \<or> mo_auth_token opts = co_auth_token (hc_opts cl)" "level \<le> SNAPSHOT_LEVEL"
    then show "open_ltx_file (remote_client root opts base carry cl) m level a b 0 0 =
        (case dir_contents root (mt_store m) (level, a, b) of None \<Rightarrow> Err (NotFound level a b) | Some (d, t) \<Rightarrow> Ok d)"
      by (rule remote_serves(1) [OF assms])
  qed (use lists puts deletes lossy http_replica.put_failed [OF rep assms(3)] remote_serves(2) [OF assms] in \<open>(metis | blast)+\<close>)
qed

text \<open>C26: a writer that uploads over HTTP extends the directory behind the mount without a hole.  Over a network that carries
  requests and responses whole, whatever the upload returns, there is a transaction \<open>k\<close> at or after its start such that the directory afterwards holds, for every transaction after the start
  up to \<open>k\<close>, exactly the bytes of the local L0 file, and is otherwise unchanged (times in milliseconds); a successful upload
  reports \<open>k\<close> and the number of files.\<close>

theorem upload_over_http:
  assumes "carries carry" and "good_endpoint cl authority host port base" and "dir_timed root (mt_store (w_client w))"
    and "upload \<lparr>ev_x = x, ev_client = remote_client root opts base carry cl, ev_sql = sql\<rparr> w = (r, w')"
  shows "\<exists>k. upload_start w \<le> k \<and> dir_timed root (mt_store (w_client w')) \<and>
    extended_by (ms_contents (dir_contents root (mt_store (w_client w)))) (w_meta w) (upload_start w) k
      (ms_contents (dir_contents root (mt_store (w_client w')))) \<and>
    (case r of Err e \<Rightarrow> True | Ok (n, b, cur) \<Rightarrow> cur = k \<and> n = unat k - unat (upload_start w))"
  using bucket_client.upload_extends [OF remote_bucket [OF assms(1,2)] _ assms(3,4)] by simp

section \<open>A concrete deployment\<close>

text \<open>A network that delivers every byte on its own and takes the first writes in small pieces, and a client with a token.\<close>

definition slow_network :: network where
  "slow_network = \<lparr>nw_carry = map (\<lambda>b. Arrive [b]), nw_io_timeout = 30, nw_writes = [Wrote 1, WTimeout 2, WInterrupted, Wrote 7]\<rparr>"

lemma slow_network_carries: "carries slow_network"
proof -
  have "net_pends (map (\<lambda>b. Arrive [b]) d) d None \<and> net_ticks (map (\<lambda>b. Arrive [b]) d) = 0" for d by (induction d) simp_all
  then show ?thesis by (simp add: carries_def slow_network_def flowing_def)
qed

definition demo_http_client :: http_replica_client where
  "demo_http_client = \<lparr>hc_base_url = ''http://localhost/db'', hc_opts = http_client_options_default\<lparr>co_auth_token := Some ''secret''\<rparr>\<rparr>"

definition demo_mount_options :: mount_options where
  "demo_mount_options = mount_options_default\<lparr>mo_writable := True, mo_auth_token := Some ''secret''\<rparr>"

lemma demo_options_valid: "options_validate (hc_opts demo_http_client) = Ok ()"
  by (simp add: options_validate_def validate_value_def demo_http_client_def http_client_options_default_def to_bytes_def)

lemma demo_client_with: "client_with False ''http://localhost/db/'' (hc_opts demo_http_client) = Ok demo_http_client"
proof -
  have "normalize_base_url ''http://localhost/db/'' False = Ok ''http://localhost/db''" by code_simp
  then show ?thesis using demo_options_valid by (simp add: client_with_def) (simp add: demo_http_client_def)
qed

lemma demo_endpoint: "good_endpoint demo_http_client ''localhost'' ''localhost'' 80 [''db'']"
proof -
  have "parse_authority ''localhost'' = Ok (''localhost'', 80)" by code_simp
  then show ?thesis
    using demo_options_valid by (simp add: good_endpoint_def demo_http_client_def http_client_options_default_def url_path_def good_word_def)
qed

interpretation demo_web: http_replica "dir_client root" "dir_timed root" "dir_contents root" demo_mount_options "[''db'']" slow_network
  demo_http_client "''localhost''" "''localhost''" 80 for root
  by (rule http_replica_dir [OF slow_network_carries demo_endpoint])

definition demo_stored :: "file_system mount" where
  "demo_stored = mount_new [(ltx_path [] 0 1 1, [1, 2, 3], 5000000)] (\<lambda>_. 0)"

lemma demo_stored_timed: "dir_timed [] (mt_store demo_stored)"
  by (auto simp: dir_timed_def timed_def dir_inv_def demo_stored_def mount_new_def timely_def split: if_splits)

theorem http_bucket_contract_witness:
  "open_ltx_file (remote_client [] demo_mount_options [''db''] slow_network demo_http_client) demo_stored 0 1 1 0 0 = Ok [1, 2, 3] \<and>
   open_ltx_file (remote_client [] demo_mount_options [''db''] slow_network demo_http_client) demo_stored 0 2 2 0 0 = Err (NotFound 0 2 2) \<and>
   (\<exists>fs. ltx_files (remote_client [] demo_mount_options [''db''] slow_network demo_http_client) demo_stored 0 0 False = Ok fs \<and>
      is_listing (ms_contents (dir_contents [] (mt_store demo_stored))) 0 0 fs)"
proof -
  note laws = http_bucket_contract [OF slow_network_carries demo_endpoint demo_stored_timed, of demo_mount_options "\<lparr>c_out = [], c_writes = []\<rparr>"]
  have auth: "mo_auth_token demo_mount_options = co_auth_token (hc_opts demo_http_client)"
    by (simp add: demo_mount_options_def demo_http_client_def)
  have level: "(0 :: u8) \<le> SNAPSHOT_LEVEL" by simp
  have stored: "dir_contents [] (mt_store demo_stored) (0, 1, 1) = Some ([1, 2, 3], 5000000)" "dir_contents [] (mt_store demo_stored) (0, 2, 2) = None"
    by (simp_all add: demo_stored_def mount_new_def ltx_path_inj)
  obtain infos where infos: "ltx_files (dir_client []) (mt_store demo_stored) 0 0 False = Ok infos" "length infos \<le> 800000"
    by (auto simp: demo_stored_def mount_new_def dir_client_def dir_ltx_files_def read_dir_def List.map_filter_def)
  note serves = mp [OF laws [THEN conjunct2, THEN conjunct2, THEN conjunct2, THEN conjunct2, THEN conjunct2, THEN conjunct2] disjI2 [OF auth]]
  note opens = conjunct1 [OF serves, rule_format, OF level] and lists = conjunct2 [OF serves, rule_format, OF level infos]
  show ?thesis using opens [of 1 1] opens [of 2 2] stored lists laws by (auto simp del: dir_contents.simps)
qed

definition demo_remote_writer :: "file_system mount writer" where
  "demo_remote_writer =
     \<lparr>w_db = w_db demo_writer, w_wal = w_wal demo_writer, w_meta = demo_l0_meta, w_page_size = 512, w_client = mount_new [] (\<lambda>_. 0),
      w_opts = writer_options_default, w_state = w_state demo_writer, w_cached_pos = w_cached_pos demo_writer, w_remote_txid = Some 0,
      w_verified_pos = 0, w_verified_pos_provisional = False, w_lineage_checked = True, w_read_lock = True, w_cancel = Never, w_clock = (\<lambda>n. 0)\<rparr>"

theorem upload_over_http_witness:
  "\<exists>k w'. w' = snd (upload \<lparr>ev_x = demo_externs, ev_client = remote_client [] demo_mount_options [''db''] slow_network demo_http_client,
       ev_sql = demo_sqlite\<rparr> demo_remote_writer) \<and> dir_timed [] (mt_store (w_client w')) \<and>
     extended_by Map.empty demo_l0_meta 0 k (ms_contents (dir_contents [] (mt_store (w_client w'))))"
proof -
  have w: "dir_timed [] (mt_store (w_client demo_remote_writer))" "upload_start demo_remote_writer = 0" "w_meta demo_remote_writer = demo_l0_meta"
    "ms_contents (dir_contents [] (mt_store (w_client demo_remote_writer))) = Map.empty"
    by (auto simp: demo_remote_writer_def dir_timed_def timed_def dir_inv_def mount_new_def upload_start_def ms_contents_def fun_eq_iff)
  from upload_over_http [OF slow_network_carries demo_endpoint w(1) prod.collapse [symmetric], where x = demo_externs and sql = demo_sqlite and opts = demo_mount_options] w(2-4)
  show ?thesis by auto
qed

end
