(* ===== verification/Manager.thy ===== *)
theory Manager
  imports Maintain Replica HttpClient
begin

text \<open>
  Model of \<open>crates/liters/src/manager.rs\<close>.  Every critical section of an entry's lock is one function on the shared
  state; a worker thread is a program counter with its locals, and a call of \<open>drain_events\<close> is a task of its
  own.  The step relation \<open>entry_step\<close> interleaves the worker, the control calls and all drain tasks of one
  database in every order.  A cancel token is a number, and a fresh one is never used before.  What the writer, the
  replica, the clocks and an app-provided client factory answer is an argument (\<open>answer\<close>) of a worker step,
  so everything proved holds whatever they do.
\<close>

section \<open>Configuration\<close>

type_synonym token = nat

text \<open>\<open>Http\<close> carries whether a shared transport was given; the S3 client and an app's factory are not part of the sources
  modelled here, so what they answer is passed in.\<close>

datatype storage_config = CfgDir path | CfgHttp string http_client_options bool | CfgOther

datatype 'x built_client = BuiltDir path | BuiltHttp http_replica_client | BuiltOther 'x

definition build :: "storage_config \<Rightarrow> 'x res \<Rightarrow> 'x built_client res" where
  "build cfg other =
     (case cfg of
        CfgDir p \<Rightarrow> Ok (BuiltDir p)
      | CfgHttp url options transport \<Rightarrow> st_q (and_then (client_with transport url options) (\<lambda>client. Ok (BuiltHttp client)))
      | CfgOther \<Rightarrow> and_then other (\<lambda>client. Ok (BuiltOther client)))"

record manager_options =
  mgo_backoff :: "u32 \<Rightarrow> nat"
  mgo_default_push_interval :: "nat option"

record push_config =
  pcf_storage :: storage_config
  pcf_push_interval :: "nat option"
  pcf_maintenance :: "(maintenance_options \<times> nat) option"
  pcf_backoff :: "(u32 \<Rightarrow> nat) option"

record follow_config =
  fcf_storage :: storage_config
  fcf_follow_options :: follow_options

datatype db_role = RolePush | RoleFollow

datatype db_state = DbIdle | DbWorking | DbBackingOff nat u32 | DbSleeping | DbFailed

datatype manager_event =
    StateChanged string db_state
  | PushCompleted string push_result
  | SyncCompleted string sync_result
  | ErrorEvent string string bool

section \<open>The shared state of an entry\<close>

datatype ctrl = CtrlRunning | CtrlSleeping | CtrlShutdown

text \<open>
  \<open>es_cancelled\<close> are the cancelled tokens, \<open>es_fresh\<close> is the next unused one; \<open>es_log\<close> is a history variable, all
  events in the order they were queued.
\<close>

record entry_shared =
  es_ctrl :: ctrl
  es_nudged :: bool
  es_session :: token
  es_state :: db_state
  es_position :: "txid option"
  es_last_error :: "string option"
  es_last_activity :: "nat option"
  es_pending :: "manager_event list"
  es_emitting :: bool
  es_cancelled :: "token list"
  es_fresh :: token
  es_log :: "manager_event list"

definition entry_shared_new :: entry_shared where
  "entry_shared_new =
     \<lparr>es_ctrl = CtrlRunning, es_nudged = False, es_session = 0, es_state = DbIdle, es_position = None, es_last_error = None,
      es_last_activity = None, es_pending = [], es_emitting = False, es_cancelled = [], es_fresh = 1, es_log = []\<rparr>"

definition cancel_session :: "entry_shared \<Rightarrow> entry_shared" where
  "cancel_session g = g\<lparr>es_cancelled := es_session g # es_cancelled g\<rparr>"

definition new_session :: "entry_shared \<Rightarrow> entry_shared" where
  "new_session g = g\<lparr>es_session := es_fresh g, es_fresh := es_fresh g + 1\<rparr>"

definition enqueue :: "manager_event \<Rightarrow> entry_shared \<Rightarrow> entry_shared" where
  "enqueue ev g = g\<lparr>es_pending := es_pending g @ [ev], es_log := es_log g @ [ev]\<rparr>"

definition transition_running :: "string \<Rightarrow> db_state \<Rightarrow> entry_shared \<Rightarrow> entry_shared" where
  "transition_running eid new g =
     (if es_ctrl g \<noteq> CtrlRunning \<or> es_state g = new then g
      else enqueue (StateChanged eid new) (g\<lparr>es_state := new\<rparr>))"

definition record_error :: "string \<Rightarrow> string \<Rightarrow> bool \<Rightarrow> entry_shared \<Rightarrow> entry_shared" where
  "record_error eid msg transient g = enqueue (ErrorEvent eid msg transient) (g\<lparr>es_last_error := Some msg\<rparr>)"

text \<open>The two critical sections of \<open>drain_events\<close>: taking the next event, and clearing the flag behind the callback.\<close>

definition drain_take :: "entry_shared \<Rightarrow> (manager_event \<times> entry_shared) option" where
  "drain_take g =
     (if es_emitting g then None
      else case es_pending g of [] \<Rightarrow> None | ev # rest \<Rightarrow> Some (ev, g\<lparr>es_pending := rest, es_emitting := True\<rparr>))"

definition drain_clear :: "entry_shared \<Rightarrow> entry_shared" where
  "drain_clear g = g\<lparr>es_emitting := False\<rparr>"

section \<open>Control calls\<close>

text \<open>\<open>sleep_entry\<close> up to its \<open>drain_events\<close>: None is the early return.\<close>

definition sleep_entry :: "string \<Rightarrow> entry_shared \<Rightarrow> entry_shared option" where
  "sleep_entry eid g =
     (if es_ctrl g \<noteq> CtrlRunning then None
      else Some (enqueue (StateChanged eid DbSleeping) ((cancel_session (g\<lparr>es_ctrl := CtrlSleeping\<rparr>))\<lparr>es_state := DbSleeping\<rparr>)))"

definition resume_entry :: "entry_shared \<Rightarrow> entry_shared" where
  "resume_entry g =
     (case es_ctrl g of
        CtrlShutdown \<Rightarrow> g
      | CtrlRunning \<Rightarrow> if es_state g = DbFailed then g\<lparr>es_nudged := True\<rparr> else g
      | CtrlSleeping \<Rightarrow> (new_session (g\<lparr>es_ctrl := CtrlRunning\<rparr>))\<lparr>es_nudged := True, es_state := DbIdle\<rparr>)"

definition push_now_entry :: "entry_shared \<Rightarrow> entry_shared" where
  "push_now_entry g = (if es_ctrl g \<noteq> CtrlRunning then g else g\<lparr>es_nudged := True\<rparr>)"

definition sync_now_entry :: "entry_shared \<Rightarrow> entry_shared" where
  "sync_now_entry g = (if es_ctrl g \<noteq> CtrlRunning then g else (new_session (cancel_session g))\<lparr>es_nudged := True\<rparr>)"

definition signal_shutdown :: "entry_shared \<Rightarrow> entry_shared" where
  "signal_shutdown g = cancel_session (g\<lparr>es_ctrl := CtrlShutdown\<rparr>)"

section \<open>Waiting\<close>

datatype due = DueNow | DueAt nat | DueNever

datatype action_kind = ActRound token | ActRelease | ActExit

text \<open>One pass of the loop of \<open>wait_for_action\<close> at a clock reading; None means that the worker waits on the condition variable.\<close>

definition wait_for_action :: "bool \<Rightarrow> due \<Rightarrow> nat \<Rightarrow> entry_shared \<Rightarrow> (action_kind \<times> entry_shared) option" where
  "wait_for_action session_alive d t0 g =
     (case es_ctrl g of
        CtrlShutdown \<Rightarrow> Some (ActExit, g)
      | CtrlSleeping \<Rightarrow> if session_alive then Some (ActRelease, g) else None
      | CtrlRunning \<Rightarrow>
          if es_nudged g then Some (ActRound (es_session g), g\<lparr>es_nudged := False\<rparr>)
          else if es_state g = DbFailed then None
          else (case d of
              DueNow \<Rightarrow> Some (ActRound (es_session g), g)
            | DueNever \<Rightarrow> None
            | DueAt t \<Rightarrow> if t \<le> t0 then Some (ActRound (es_session g), g) else None))"

section \<open>Workers\<close>

text \<open>
  The program counters: where a worker stands between two critical sections.  A writer is represented by the token
  of the session whose round built it.
\<close>

datatype push_pc = PWait | PStart token | PPush token | PMaintain token | PIdle | PBackoff db_state | PFail | PTick | PExit

record push_locals =
  pw_pc :: push_pc
  pw_writer :: "token option"
  pw_attempt :: u32
  pw_retry_at :: "nat option"
  pw_next_push :: "nat option"
  pw_last_maintain :: "nat option"

datatype follow_pc = FWait | FBuild token | FError db_state | FStart token | FFollow token | FFail | FExit

record follow_locals =
  fw_pc :: follow_pc
  fw_attempt :: u32
  fw_retry_at :: "nat option"

datatype worker = PushWorker push_config push_locals | FollowWorker follow_config follow_locals

text \<open>What the world answers to a step of a worker.\<close>

record answer =
  an_now :: nat
  an_system_time :: nat
  an_other_client :: "unit res"
  an_open :: "unit res"
  an_push :: "push_result res"
  an_maintain :: "unit res"
  an_follow :: "unit res"

record manager_env =
  me_opts :: manager_options
  me_display :: "error \<Rightarrow> string"

definition sat_add_one :: "u32 \<Rightarrow> u32" where
  "sat_add_one n = (if n = - 1 then n else n + 1)"

definition push_interval :: "manager_env \<Rightarrow> push_config \<Rightarrow> nat option" where
  "push_interval mgr cfg = (case pcf_push_interval cfg of None \<Rightarrow> mgo_default_push_interval (me_opts mgr) | Some i \<Rightarrow> Some i)"

definition push_worker_new :: "manager_env \<Rightarrow> push_config \<Rightarrow> nat \<Rightarrow> push_locals" where
  "push_worker_new mgr cfg t0 =
     \<lparr>pw_pc = PWait, pw_writer = None, pw_attempt = 0, pw_retry_at = None, pw_next_push = map_option (\<lambda>_. t0) (push_interval mgr cfg),
      pw_last_maintain = None\<rparr>"

definition push_backoff :: "manager_env \<Rightarrow> push_config \<Rightarrow> u32 \<Rightarrow> nat" where
  "push_backoff mgr cfg = (case pcf_backoff cfg of None \<Rightarrow> mgo_backoff (me_opts mgr) | Some b \<Rightarrow> b)"

definition push_due :: "push_locals \<Rightarrow> due" where
  "push_due l = (case pw_retry_at l of Some t \<Rightarrow> DueAt t | None \<Rightarrow> (case pw_next_push l of Some t \<Rightarrow> DueAt t | None \<Rightarrow> DueNever))"

definition ensure_writer :: "push_config \<Rightarrow> token \<Rightarrow> answer \<Rightarrow> push_locals \<Rightarrow> unit res \<times> push_locals" where
  "ensure_writer cfg token a l =
     (if pw_writer l \<noteq> None then (Ok (), l)
      else case and_then (build (pcf_storage cfg) (an_other_client a)) (\<lambda>_. an_open a) of
        Err e \<Rightarrow> (Err e, l)
      | Ok _ \<Rightarrow> (Ok (), l\<lparr>pw_writer := Some token\<rparr>))"

text \<open>The result of a step of a worker: its locals, the shared state, and whether \<open>drain_events\<close> is called next.\<close>

definition push_outcome ::
  "manager_env \<Rightarrow> string \<Rightarrow> push_config \<Rightarrow> token \<Rightarrow> answer \<Rightarrow> push_result res \<Rightarrow> push_locals \<Rightarrow> entry_shared \<Rightarrow> push_locals \<times> entry_shared \<times> bool" where
  "push_outcome mgr eid cfg token a r l g =
     (case r of
        Ok res \<Rightarrow>
          (l\<lparr>pw_attempt := 0, pw_pc := PMaintain token\<rparr>,
           enqueue (PushCompleted eid res) (g\<lparr>es_position := Some (pr_txid res), es_last_activity := Some (an_system_time a), es_last_error := None\<rparr>), True)
      | Err e \<Rightarrow>
          if e = Cancelled then (l\<lparr>pw_pc := PTick\<rparr>, g, False)
          else if is_transient e then
            let delay = push_backoff mgr cfg (pw_attempt l); attempt = sat_add_one (pw_attempt l) in
            (l\<lparr>pw_attempt := attempt, pw_retry_at := Some (an_now a + delay), pw_pc := PBackoff (DbBackingOff (an_system_time a + delay) attempt)\<rparr>,
             record_error eid (me_display mgr e) True g, False)
          else (l\<lparr>pw_attempt := 0, pw_writer := None, pw_pc := PFail\<rparr>, record_error eid (me_display mgr e) False g, False))"

definition push_maintain ::
  "manager_env \<Rightarrow> string \<Rightarrow> push_config \<Rightarrow> answer \<Rightarrow> push_locals \<Rightarrow> entry_shared \<Rightarrow> push_locals \<times> entry_shared \<times> bool" where
  "push_maintain mgr eid cfg a l g =
     (case pcf_maintenance cfg of
        None \<Rightarrow> (l\<lparr>pw_pc := PIdle\<rparr>, g, False)
      | Some (mopts, every) \<Rightarrow>
          if (case pw_last_maintain l of None \<Rightarrow> True | Some t \<Rightarrow> every \<le> an_now a - t) then
            let l' = l\<lparr>pw_last_maintain := Some (an_now a), pw_pc := PIdle\<rparr> in
            (case an_maintain a of
               Ok _ \<Rightarrow> (l', g, False)
             | Err e \<Rightarrow> if e = Cancelled then (l', g, False) else (l', record_error eid (me_display mgr e) (is_transient e) g, True))
          else (l\<lparr>pw_pc := PIdle\<rparr>, g, False))"

fun push_step :: "manager_env \<Rightarrow> string \<Rightarrow> push_config \<Rightarrow> answer \<Rightarrow> push_pc \<Rightarrow> push_locals \<Rightarrow> entry_shared \<Rightarrow> (push_locals \<times> entry_shared \<times> bool) option" where
  "push_step mgr eid cfg a PWait l g =
     (case wait_for_action (pw_writer l \<noteq> None) (push_due l) (an_now a) g of
        None \<Rightarrow> None
      | Some (ActExit, g') \<Rightarrow> Some (l\<lparr>pw_pc := PExit\<rparr>, g', False)
      | Some (ActRelease, g') \<Rightarrow> Some (l\<lparr>pw_writer := None\<rparr>, g', False)
      | Some (ActRound token, g') \<Rightarrow> Some (l\<lparr>pw_retry_at := None, pw_pc := PStart token\<rparr>, g', False))"
| "push_step mgr eid cfg a (PStart token) l g = Some (l\<lparr>pw_pc := PPush token\<rparr>, transition_running eid DbWorking g, True)"
| "push_step mgr eid cfg a (PPush token) l g =
     (case ensure_writer cfg token a l of
        (Err e, l') \<Rightarrow> Some (push_outcome mgr eid cfg token a (Err e) l' g)
      | (Ok _, l') \<Rightarrow> Some (push_outcome mgr eid cfg token a (an_push a) l' g))"
| "push_step mgr eid cfg a (PMaintain token) l g = Some (push_maintain mgr eid cfg a l g)"
| "push_step mgr eid cfg a PIdle l g = Some (l\<lparr>pw_pc := PTick\<rparr>, transition_running eid DbIdle g, True)"
| "push_step mgr eid cfg a (PBackoff st) l g = Some (l\<lparr>pw_pc := PTick\<rparr>, transition_running eid st g, True)"
| "push_step mgr eid cfg a PFail l g = Some (l\<lparr>pw_pc := PTick\<rparr>, transition_running eid DbFailed g, True)"
| "push_step mgr eid cfg a PTick l g = Some (l\<lparr>pw_next_push := map_option (\<lambda>i. an_now a + i) (push_interval mgr cfg), pw_pc := PWait\<rparr>, g, False)"
| "push_step mgr eid cfg a PExit l g = None"

definition follow_worker_new :: follow_locals where
  "follow_worker_new = \<lparr>fw_pc = FWait, fw_attempt = 0, fw_retry_at = None\<rparr>"

definition follow_backoff :: "manager_env \<Rightarrow> follow_config \<Rightarrow> u32 \<Rightarrow> nat" where
  "follow_backoff mgr cfg = (case fo_retry (fcf_follow_options cfg) of None \<Rightarrow> mgo_backoff (me_opts mgr) | Some b \<Rightarrow> b)"

definition follow_due :: "follow_locals \<Rightarrow> due" where
  "follow_due l = (case fw_retry_at l of Some t \<Rightarrow> DueAt t | None \<Rightarrow> DueNow)"

definition follow_build ::
  "manager_env \<Rightarrow> string \<Rightarrow> follow_config \<Rightarrow> token \<Rightarrow> answer \<Rightarrow> follow_locals \<Rightarrow> entry_shared \<Rightarrow> follow_locals \<times> entry_shared \<times> bool" where
  "follow_build mgr eid cfg token a l g =
     (case build (fcf_storage cfg) (an_other_client a) of
        Ok _ \<Rightarrow> (l\<lparr>fw_attempt := 0, fw_pc := FStart token\<rparr>, g, False)
      | Err e \<Rightarrow>
          if e = Cancelled then (l\<lparr>fw_pc := FWait\<rparr>, g, False)
          else if is_transient e then
            let delay = follow_backoff mgr cfg (fw_attempt l); attempt = sat_add_one (fw_attempt l) in
            (l\<lparr>fw_attempt := attempt, fw_retry_at := Some (an_now a + delay), fw_pc := FError (DbBackingOff (an_system_time a + delay) attempt)\<rparr>,
             record_error eid (me_display mgr e) True g, False)
          else (l\<lparr>fw_attempt := 0, fw_pc := FError DbFailed\<rparr>, record_error eid (me_display mgr e) False g, False))"

fun follow_step :: "manager_env \<Rightarrow> string \<Rightarrow> follow_config \<Rightarrow> answer \<Rightarrow> follow_pc \<Rightarrow> follow_locals \<Rightarrow> entry_shared \<Rightarrow> (follow_locals \<times> entry_shared \<times> bool) option" where
  "follow_step mgr eid cfg a FWait l g =
     (case wait_for_action False (follow_due l) (an_now a) g of
        None \<Rightarrow> None
      | Some (ActExit, g') \<Rightarrow> Some (l\<lparr>fw_pc := FExit\<rparr>, g', False)
      | Some (ActRelease, g') \<Rightarrow> Some (l, g', False)
      | Some (ActRound token, g') \<Rightarrow> Some (l\<lparr>fw_retry_at := None, fw_pc := FBuild token\<rparr>, g', False))"
| "follow_step mgr eid cfg a (FBuild token) l g = Some (follow_build mgr eid cfg token a l g)"
| "follow_step mgr eid cfg a (FError st) l g = Some (l\<lparr>fw_pc := FWait\<rparr>, transition_running eid st g, True)"
| "follow_step mgr eid cfg a (FStart token) l g = Some (l\<lparr>fw_pc := FFollow token\<rparr>, transition_running eid DbWorking g, True)"
| "follow_step mgr eid cfg a (FFollow token) l g =
     (case an_follow a of
        Ok _ \<Rightarrow> Some (l\<lparr>fw_pc := FWait\<rparr>, g, False)
      | Err e \<Rightarrow> Some (l\<lparr>fw_pc := FFail\<rparr>, record_error eid (me_display mgr e) (is_transient e) g, False))"
| "follow_step mgr eid cfg a FFail l g = Some (l\<lparr>fw_pc := FWait\<rparr>, transition_running eid DbFailed g, True)"
| "follow_step mgr eid cfg a FExit l g = None"

definition worker_step :: "manager_env \<Rightarrow> string \<Rightarrow> answer \<Rightarrow> worker \<Rightarrow> entry_shared \<Rightarrow> (worker \<times> entry_shared \<times> bool) option" where
  "worker_step mgr eid a w g =
     (case w of
        PushWorker cfg l \<Rightarrow> map_option (\<lambda>(l', r). (PushWorker cfg l', r)) (push_step mgr eid cfg a (pw_pc l) l g)
      | FollowWorker cfg l \<Rightarrow> map_option (\<lambda>(l', r). (FollowWorker cfg l', r)) (follow_step mgr eid cfg a (fw_pc l) l g))"

section \<open>One database: worker, control calls and callbacks interleaved\<close>

text \<open>
  A call of \<open>drain_events\<close> stands before taking an event, in the observer's callback, or behind it.  \<open>True\<close> marks the
  call of the worker, which does not go on before it has returned.  \<open>en_delivered\<close> is what the observer has been called with.
\<close>

datatype drain_pc = DTake | DEmit manager_event | DClear

record entry =
  en_id :: string
  en_db_path :: path
  en_canonical :: path
  en_role :: db_role
  en_shared :: entry_shared
  en_worker :: worker
  en_drains :: "(bool \<times> drain_pc) list"
  en_delivered :: "manager_event list"

definition entry_new :: "string \<Rightarrow> path \<Rightarrow> path \<Rightarrow> db_role \<Rightarrow> worker \<Rightarrow> entry" where
  "entry_new eid db_path canonical role w =
     \<lparr>en_id = eid, en_db_path = db_path, en_canonical = canonical, en_role = role, en_shared = entry_shared_new, en_worker = w,
      en_drains = [], en_delivered = []\<rparr>"

definition drain_step :: "nat \<Rightarrow> entry \<Rightarrow> entry" where
  "drain_step i e =
     (case en_drains e ! i of
        (own, DTake) \<Rightarrow>
          (case drain_take (en_shared e) of
             None \<Rightarrow> e\<lparr>en_drains := take i (en_drains e) @ drop (Suc i) (en_drains e)\<rparr>
           | Some (ev, g) \<Rightarrow> e\<lparr>en_shared := g, en_drains := (en_drains e)[i := (own, DEmit ev)]\<rparr>)
      | (own, DEmit ev) \<Rightarrow> e\<lparr>en_delivered := en_delivered e @ [ev], en_drains := (en_drains e)[i := (own, DClear)]\<rparr>
      | (own, DClear) \<Rightarrow> e\<lparr>en_shared := drain_clear (en_shared e), en_drains := (en_drains e)[i := (own, DTake)]\<rparr>)"

inductive entry_step :: "manager_env \<Rightarrow> entry \<Rightarrow> entry \<Rightarrow> bool" for mgr where
  sleep: "sleep_entry (en_id e) (en_shared e) = Some g \<Longrightarrow>
    entry_step mgr e (e\<lparr>en_shared := g, en_drains := en_drains e @ [(False, DTake)]\<rparr>)"
| resume: "entry_step mgr e (e\<lparr>en_shared := resume_entry (en_shared e)\<rparr>)"
| push_now: "en_role e = RolePush \<Longrightarrow> entry_step mgr e (e\<lparr>en_shared := push_now_entry (en_shared e)\<rparr>)"
| sync_now: "en_role e = RoleFollow \<Longrightarrow> entry_step mgr e (e\<lparr>en_shared := sync_now_entry (en_shared e)\<rparr>)"
| drain: "i < length (en_drains e) \<Longrightarrow> entry_step mgr e (drain_step i e)"
| work: "\<forall>d \<in> set (en_drains e). \<not> fst d \<Longrightarrow> worker_step mgr (en_id e) a (en_worker e) (en_shared e) = Some (w, g, drains) \<Longrightarrow>
    entry_step mgr e (e\<lparr>en_worker := w, en_shared := g, en_drains := (if drains then en_drains e @ [(True, DTake)] else en_drains e)\<rparr>)"

section \<open>The registry\<close>

text \<open>
  The registered entries, and those that were removed: they are signalled in a step of their own, and then their worker
  is joined.  Threads are created with the answer \<open>spawned\<close> of the system.
\<close>

record manager =
  mg_entries :: "(string \<times> entry) list"
  mg_joining :: "entry list"

definition manager_new :: manager where
  "manager_new = \<lparr>mg_entries = [], mg_joining = []\<rparr>"

definition insert_and_spawn :: "entry \<Rightarrow> (io_error, unit) result \<Rightarrow> manager \<Rightarrow> unit res \<times> manager" where
  "insert_and_spawn e spawned m =
     (if map_of (mg_entries m) (en_id e) \<noteq> None then (Err (Other (''db id already registered: '' @ str_debug (en_id e))), m)
      else case find (\<lambda>(_, r). en_canonical r = en_canonical e) (mg_entries m) of
        Some (_, other) \<Rightarrow>
          (Err (Other (''db path '' @ path_debug (en_db_path e) @ '' already registered as '' @ str_debug (en_id other))), m)
      | None \<Rightarrow>
          (case spawned of
             Err err \<Rightarrow> (Err (Other (''spawn worker thread: '' @ message err)), m)
           | Ok _ \<Rightarrow> (Ok (), m\<lparr>mg_entries := (en_id e, e) # mg_entries m\<rparr>)))"

text \<open>The writer id of an HTTP push is filled in from the meta directory.\<close>

definition fill_writer_id :: "byte list \<Rightarrow> push_config \<Rightarrow> meta_dir \<Rightarrow> push_config \<times> meta_dir" where
  "fill_writer_id rnd cfg meta =
     (case pcf_storage cfg of
        CfgHttp url options transport \<Rightarrow>
          if co_writer_id options = None then
            (case writer_id rnd meta of (wid, meta') \<Rightarrow> (cfg\<lparr>pcf_storage := CfgHttp url (options\<lparr>co_writer_id := Some wid\<rparr>) transport\<rparr>, meta'))
          else (cfg, meta)
      | _ \<Rightarrow> (cfg, meta))"

definition register_push ::
  "manager_env \<Rightarrow> string \<Rightarrow> path \<Rightarrow> path \<Rightarrow> push_config \<Rightarrow> byte list \<Rightarrow> nat \<Rightarrow> (io_error, unit) result \<Rightarrow> manager \<times> meta_dir \<Rightarrow> unit res \<times> manager \<times> meta_dir" where
  "register_push mgr eid db_path canonical cfg rnd t0 spawned = (\<lambda>(m, meta).
     case fill_writer_id rnd cfg meta of (cfg', meta') \<Rightarrow>
     case insert_and_spawn (entry_new eid db_path canonical RolePush (PushWorker cfg' (push_worker_new mgr cfg' t0))) spawned m of
       (r, m') \<Rightarrow> (r, m', meta'))"

definition register_follow :: "string \<Rightarrow> path \<Rightarrow> path \<Rightarrow> follow_config \<Rightarrow> (io_error, unit) result \<Rightarrow> manager \<Rightarrow> unit res \<times> manager" where
  "register_follow eid db_path canonical cfg spawned =
     insert_and_spawn (entry_new eid db_path canonical RoleFollow (FollowWorker cfg follow_worker_new)) spawned"

definition get_entry :: "string \<Rightarrow> manager \<Rightarrow> entry res" where
  "get_entry eid m = ok_or (map_of (mg_entries m) eid) (Other (''unknown db id: '' @ str_debug eid))"

definition set_entry :: "string \<Rightarrow> entry \<Rightarrow> manager \<Rightarrow> manager" where
  "set_entry eid e m = m\<lparr>mg_entries := map (\<lambda>(k, r). (k, if k = eid then e else r)) (mg_entries m)\<rparr>"

text \<open>The critical sections of the control calls on a registered entry; \<open>sleep\<close> starts a drain task.\<close>

definition slept :: "entry \<Rightarrow> entry" where
  "slept e = (case sleep_entry (en_id e) (en_shared e) of
      None \<Rightarrow> e | Some g \<Rightarrow> e\<lparr>en_shared := g, en_drains := en_drains e @ [(False, DTake)]\<rparr>)"

definition resumed :: "entry \<Rightarrow> entry" where
  "resumed e = e\<lparr>en_shared := resume_entry (en_shared e)\<rparr>"

definition stopped :: "entry \<Rightarrow> entry" where
  "stopped e = e\<lparr>en_shared := signal_shutdown (en_shared e)\<rparr>"

definition manager_sleep :: "string \<Rightarrow> manager \<Rightarrow> manager res" where
  "manager_sleep eid m = and_then (get_entry eid m) (\<lambda>e. Ok (set_entry eid (slept e) m))"

definition manager_resume :: "string \<Rightarrow> manager \<Rightarrow> manager res" where
  "manager_resume eid m = and_then (get_entry eid m) (\<lambda>e. Ok (set_entry eid (resumed e) m))"

definition sleep_all :: "manager \<Rightarrow> manager" where
  "sleep_all m = m\<lparr>mg_entries := map (\<lambda>(k, e). (k, slept e)) (mg_entries m)\<rparr>"

definition resume_all :: "manager \<Rightarrow> manager" where
  "resume_all m = m\<lparr>mg_entries := map (\<lambda>(k, e). (k, resumed e)) (mg_entries m)\<rparr>"

definition manager_push_now :: "string \<Rightarrow> manager \<Rightarrow> manager res" where
  "manager_push_now eid m =
     and_then (get_entry eid m) (\<lambda>e.
       if en_role e \<noteq> RolePush then Err (Other (str_debug eid @ '' is a follow registration; use sync_now''))
       else Ok (set_entry eid (e\<lparr>en_shared := push_now_entry (en_shared e)\<rparr>) m))"

definition manager_sync_now :: "string \<Rightarrow> manager \<Rightarrow> manager res" where
  "manager_sync_now eid m =
     and_then (get_entry eid m) (\<lambda>e.
       if en_role e \<noteq> RoleFollow then Err (Other (str_debug eid @ '' is a push registration; use push_now''))
       else Ok (set_entry eid (e\<lparr>en_shared := sync_now_entry (en_shared e)\<rparr>) m))"

text \<open>\<open>unregister\<close> and \<open>shutdown\<close> up to the release of the registry lock; the signals and the joins are steps of their own.\<close>

definition unregister :: "string \<Rightarrow> manager \<Rightarrow> manager res" where
  "unregister eid m =
     and_then (get_entry eid m) (\<lambda>e.
       Ok (m\<lparr>mg_entries := filter (\<lambda>(k, _). k \<noteq> eid) (mg_entries m), mg_joining := e # mg_joining m\<rparr>))"

definition manager_shutdown :: "manager \<Rightarrow> manager" where
  "manager_shutdown m = m\<lparr>mg_entries := [], mg_joining := map snd (mg_entries m) @ mg_joining m\<rparr>"

record db_status =
  dbs_id :: string
  dbs_role :: db_role
  dbs_state :: db_state
  dbs_position :: "txid option"
  dbs_last_error :: "string option"
  dbs_last_activity :: "nat option"

text \<open>The sidecar of a follower and its modification time are read before the lock is taken.\<close>

definition status_of :: "txid res \<Rightarrow> nat option \<Rightarrow> entry \<Rightarrow> db_status" where
  "status_of sidecar mtime e =
     (let g = en_shared e in
      \<lparr>dbs_id = en_id e, dbs_role = en_role e, dbs_state = es_state g,
       dbs_position = (case en_role e of RolePush \<Rightarrow> es_position g
         | RoleFollow \<Rightarrow> (case sidecar of Ok t \<Rightarrow> if txid_is_zero t then None else Some t | Err _ \<Rightarrow> None)),
       dbs_last_error = es_last_error g,
       dbs_last_activity = (case en_role e of RolePush \<Rightarrow> es_last_activity g | RoleFollow \<Rightarrow> mtime)\<rparr>)"

definition worker_exited :: "worker \<Rightarrow> bool" where
  "worker_exited w = (case w of PushWorker _ l \<Rightarrow> pw_pc l = PExit | FollowWorker _ l \<Rightarrow> fw_pc l = FExit)"

text \<open>All databases of a manager: registrations, control calls, the steps of every entry, signals and joins.\<close>

inductive manager_step :: "manager_env \<Rightarrow> manager \<Rightarrow> manager \<Rightarrow> bool" for mgr where
  registers: "insert_and_spawn (entry_new eid db_path canonical RolePush (PushWorker cfg (push_worker_new mgr cfg t0))) spawned m = (r, m') \<Longrightarrow>
    manager_step mgr m m'"
| follows: "register_follow eid db_path canonical fcfg spawned m = (r, m') \<Longrightarrow> manager_step mgr m m'"
| unregisters: "unregister eid m = Ok m' \<Longrightarrow> manager_step mgr m m'"
| shuts_down: "manager_step mgr m (manager_shutdown m)"
| steps: "(eid, e) \<in> set (mg_entries m) \<Longrightarrow> entry_step mgr e e' \<Longrightarrow> manager_step mgr m (set_entry eid e' m)"
| signals: "mg_joining m = es @ e # fs \<Longrightarrow> manager_step mgr m (m\<lparr>mg_joining := es @ stopped e # fs\<rparr>)"
| winds_down: "mg_joining m = es @ e # fs \<Longrightarrow> entry_step mgr e e' \<Longrightarrow> manager_step mgr m (m\<lparr>mg_joining := es @ e' # fs\<rparr>)"
| joins: "mg_joining m = es @ e # fs \<Longrightarrow> worker_exited (en_worker e) \<Longrightarrow> manager_step mgr m (m\<lparr>mg_joining := es @ fs\<rparr>)"

end
