(* ===== verification/ManagerProps.thy ===== *)
theory ManagerProps
  imports Manager
begin

text \<open>
  Safety of the manager under every interleaving of its workers, control calls and callbacks: the order of events, the
  authority of the control calls over the workers, the tokens of sessions, the uniqueness of registrations, and the
  end of every worker after a shutdown.
\<close>

section \<open>What a worker writes\<close>

definition is_state_event :: "manager_event \<Rightarrow> bool" where
  "is_state_event ev = (case ev of StateChanged _ _ \<Rightarrow> True | _ \<Rightarrow> False)"

text \<open>
  A critical section of a worker leaves the control fields alone, queues events behind the others, and changes the state only
  while the entry runs, with the event that says so.
\<close>

definition worker_write :: "string \<Rightarrow> entry_shared \<Rightarrow> entry_shared \<Rightarrow> manager_event list \<Rightarrow> bool" where
  "worker_write eid g g' evs \<longleftrightarrow>
     es_ctrl g' = es_ctrl g \<and> es_session g' = es_session g \<and> es_fresh g' = es_fresh g \<and> es_cancelled g' = es_cancelled g \<and>
     es_emitting g' = es_emitting g \<and> es_pending g' = es_pending g @ evs \<and> es_log g' = es_log g @ evs \<and>
     ((es_state g' = es_state g \<and> (\<forall>ev \<in> set evs. \<not> is_state_event ev)) \<or>
      (\<exists>st. evs = [StateChanged eid st] \<and> es_state g' = st \<and> es_ctrl g = CtrlRunning \<and> st \<noteq> DbSleeping))"

lemma worker_write_refl: "worker_write eid g g []"
  by (simp add: worker_write_def)

lemma worker_write_transition: "st \<noteq> DbSleeping \<Longrightarrow> \<exists>evs. worker_write eid g (transition_running eid st g) evs"
  by (auto simp: worker_write_def transition_running_def enqueue_def)

lemma worker_write_error: "\<exists>evs. worker_write eid g (record_error eid msg tr g) evs"
  by (auto simp: worker_write_def record_error_def enqueue_def is_state_event_def)

lemma worker_write_completed:
  "\<exists>evs. worker_write eid g (enqueue (PushCompleted eid res) (g\<lparr>es_position := p, es_last_activity := la, es_last_error := le\<rparr>)) evs"
  by (auto simp: worker_write_def enqueue_def is_state_event_def)

lemma worker_write_wait: "wait_for_action alive d t0 g = Some (act, g') \<Longrightarrow> worker_write eid g g' []"
  by (auto simp: worker_write_def wait_for_action_def split: ctrl.splits if_splits due.splits)

lemmas worker_writes = worker_write_refl worker_write_transition worker_write_error worker_write_completed worker_write_wait

section \<open>Program counters\<close>

text \<open>The tokens a worker holds, the states it is about to report, and whether it will call \<open>drain_events\<close> at its next step.\<close>

fun push_pc_tokens :: "push_pc \<Rightarrow> token set" where
  "push_pc_tokens (PStart t) = {t}"
| "push_pc_tokens (PPush t) = {t}"
| "push_pc_tokens (PMaintain t) = {t}"
| "push_pc_tokens _ = {}"

fun follow_pc_tokens :: "follow_pc \<Rightarrow> token set" where
  "follow_pc_tokens (FBuild t) = {t}"
| "follow_pc_tokens (FStart t) = {t}"
| "follow_pc_tokens (FFollow t) = {t}"
| "follow_pc_tokens _ = {}"

definition worker_tokens :: "worker \<Rightarrow> token set" where
  "worker_tokens w = (case w of PushWorker _ l \<Rightarrow> push_pc_tokens (pw_pc l) | FollowWorker _ l \<Rightarrow> follow_pc_tokens (fw_pc l))"

definition will_drain :: "worker \<Rightarrow> bool" where
  "will_drain w =
     (case w of
        PushWorker _ l \<Rightarrow> (case pw_pc l of PBackoff _ \<Rightarrow> True | PFail \<Rightarrow> True | _ \<Rightarrow> False)
      | FollowWorker _ l \<Rightarrow> (case fw_pc l of FError _ \<Rightarrow> True | FFail \<Rightarrow> True | _ \<Rightarrow> False))"

definition pc_ok :: "worker \<Rightarrow> bool" where
  "pc_ok w =
     (case w of
        PushWorker _ l \<Rightarrow> (case pw_pc l of PBackoff st \<Rightarrow> st \<noteq> DbSleeping | _ \<Rightarrow> True)
      | FollowWorker _ l \<Rightarrow> (case fw_pc l of FError st \<Rightarrow> st \<noteq> DbSleeping | _ \<Rightarrow> True))"

text \<open>What one step of a worker does to the shared state.\<close>

definition step_effect :: "string \<Rightarrow> worker \<Rightarrow> entry_shared \<Rightarrow> worker \<Rightarrow> entry_shared \<Rightarrow> bool \<Rightarrow> bool" where
  "step_effect eid w g w' g' drains \<longleftrightarrow>
     (\<exists>evs. worker_write eid g g' evs \<and> (evs \<noteq> [] \<longrightarrow> drains \<or> will_drain w')) \<and> (will_drain w \<longrightarrow> drains) \<and> pc_ok w' \<and>
     worker_tokens w' \<subseteq> worker_tokens w \<union> (if es_ctrl g = CtrlRunning then {es_session g} else {})"

lemma wait_for_action_round: "wait_for_action alive d t0 g = Some (ActRound t, g') \<Longrightarrow> es_ctrl g = CtrlRunning \<and> t = es_session g"
  by (auto simp: wait_for_action_def split: ctrl.splits if_splits due.splits)

lemma push_step_effect:
  assumes "push_step mgr eid cfg a (pw_pc l) l g = Some (l', g', drains)" and "pc_ok (PushWorker cfg l)"
  shows "step_effect eid (PushWorker cfg l) g (PushWorker cfg l') g' drains"
proof (cases "pw_pc l")
  case PWait
  then show ?thesis using assms
    by (auto simp: step_effect_def will_drain_def pc_ok_def worker_tokens_def dest: wait_for_action_round
        intro: worker_write_wait split: option.splits prod.splits action_kind.splits)
next
  case (PPush t)
  obtain r l1 where e: "ensure_writer cfg t a l = (r, l1)" by fastforce
  have pc: "pw_pc l1 = pw_pc l" using e by (auto simp: ensure_writer_def split: if_splits result.splits)
  obtain res where "push_outcome mgr eid cfg t a res l1 g = (l', g', drains)" using assms(1) PPush e by (cases r) auto
  then show ?thesis using PPush pc
    by (auto simp: step_effect_def push_outcome_def will_drain_def pc_ok_def worker_tokens_def Let_def worker_write_error worker_write_completed
        intro: worker_write_refl split: result.splits if_splits)
next
  case (PMaintain t)
  then show ?thesis using assms
    by (auto simp: step_effect_def push_maintain_def will_drain_def pc_ok_def worker_tokens_def Let_def worker_write_error
        intro: worker_write_refl split: option.splits prod.splits result.splits if_splits)
qed (use assms in \<open>auto simp: step_effect_def will_drain_def pc_ok_def worker_tokens_def worker_write_transition intro: worker_write_refl\<close>)

lemma follow_step_effect:
  assumes "follow_step mgr eid cfg a (fw_pc l) l g = Some (l', g', drains)" and "pc_ok (FollowWorker cfg l)"
  shows "step_effect eid (FollowWorker cfg l) g (FollowWorker cfg l') g' drains"
proof (cases "fw_pc l")
  case FWait
  then show ?thesis using assms
    by (auto simp: step_effect_def will_drain_def pc_ok_def worker_tokens_def dest: wait_for_action_round
        intro: worker_write_wait split: option.splits prod.splits action_kind.splits)
next
  case (FBuild t)
  then show ?thesis using assms
    by (auto simp: step_effect_def follow_build_def will_drain_def pc_ok_def worker_tokens_def Let_def worker_write_error
        intro: worker_write_refl split: result.splits if_splits)
next
  case (FFollow t)
  then show ?thesis using assms
    by (auto simp: step_effect_def will_drain_def pc_ok_def worker_tokens_def worker_write_error intro: worker_write_refl split: result.splits)
qed (use assms in \<open>auto simp: step_effect_def will_drain_def pc_ok_def worker_tokens_def worker_write_transition\<close>)

lemma worker_step_effect:
  "worker_step mgr eid a w g = Some (w', g', drains) \<Longrightarrow> pc_ok w \<Longrightarrow> step_effect eid w g w' g' drains"
  by (cases w) (auto simp: worker_step_def dest: push_step_effect follow_step_effect)

section \<open>The invariant of an entry\<close>

definition last_state :: "manager_event list \<Rightarrow> db_state" where
  "last_state evs = foldl (\<lambda>s ev. case ev of StateChanged _ st \<Rightarrow> st | _ \<Rightarrow> s) DbIdle evs"

lemma last_state_simps [simp]:
  "last_state [] = DbIdle" "last_state (evs @ [StateChanged i st]) = st"
  by (simp_all add: last_state_def)

lemma last_state_append: "\<forall>ev \<in> set fs. \<not> is_state_event ev \<Longrightarrow> last_state (evs @ fs) = last_state evs"
  by (induction fs rule: rev_induct) (auto simp: last_state_def is_state_event_def split: manager_event.splits)

text \<open>The state the app sees against the control field and the events, and the tokens of the sessions.\<close>

definition state_ok :: "entry_shared \<Rightarrow> bool" where
  "state_ok g \<longleftrightarrow>
     (es_ctrl g = CtrlSleeping \<longrightarrow> es_state g = DbSleeping) \<and> (es_ctrl g = CtrlRunning \<longrightarrow> es_state g \<noteq> DbSleeping) \<and>
     (es_state g = last_state (es_log g) \<or> es_state g = DbIdle \<and> last_state (es_log g) = DbSleeping)"

definition tokens_ok :: "entry_shared \<Rightarrow> bool" where
  "tokens_ok g \<longleftrightarrow>
     es_session g < es_fresh g \<and> (\<forall>t \<in> set (es_cancelled g). t < es_fresh g) \<and>
     (\<forall>t < es_fresh g. t \<noteq> es_session g \<longrightarrow> t \<in> set (es_cancelled g)) \<and>
     (es_session g \<in> set (es_cancelled g) \<longleftrightarrow> es_ctrl g \<noteq> CtrlRunning)"

lemma state_ok_new: "state_ok entry_shared_new" and tokens_ok_new: "tokens_ok entry_shared_new"
  by (simp_all add: state_ok_def tokens_ok_def entry_shared_new_def)

lemma worker_write_ok:
  assumes "worker_write eid g g' evs"
  shows "state_ok g \<Longrightarrow> state_ok g'" and "tokens_ok g \<Longrightarrow> tokens_ok g'"
  using assms last_state_append by (auto simp: worker_write_def state_ok_def tokens_ok_def)

text \<open>The control calls.\<close>

lemma sleep_entry_ok:
  assumes "sleep_entry eid g = Some g'"
  shows "state_ok g'" and "tokens_ok g \<Longrightarrow> tokens_ok g'"
    and "es_pending g' = es_pending g @ [StateChanged eid DbSleeping]" "es_log g' = es_log g @ [StateChanged eid DbSleeping]" "es_emitting g' = es_emitting g"
    and "es_fresh g' = es_fresh g"
  using assms by (auto simp: sleep_entry_def cancel_session_def enqueue_def state_ok_def tokens_ok_def split: if_splits)

definition same_queue :: "entry_shared \<Rightarrow> entry_shared \<Rightarrow> bool" where
  "same_queue g g' \<longleftrightarrow> es_pending g' = es_pending g \<and> es_log g' = es_log g \<and> es_emitting g' = es_emitting g \<and> es_fresh g \<le> es_fresh g'"

lemma resume_entry_ok: "state_ok g \<Longrightarrow> state_ok (resume_entry g)" "tokens_ok g \<Longrightarrow> tokens_ok (resume_entry g)" "same_queue g (resume_entry g)"
  by (auto simp: resume_entry_def new_session_def state_ok_def tokens_ok_def same_queue_def less_Suc_eq split: ctrl.splits)

lemma push_now_entry_ok: "state_ok g \<Longrightarrow> state_ok (push_now_entry g)" "tokens_ok g \<Longrightarrow> tokens_ok (push_now_entry g)" "same_queue g (push_now_entry g)"
  by (auto simp: push_now_entry_def state_ok_def tokens_ok_def same_queue_def)

lemma sync_now_entry_ok: "state_ok g \<Longrightarrow> state_ok (sync_now_entry g)" "tokens_ok g \<Longrightarrow> tokens_ok (sync_now_entry g)" "same_queue g (sync_now_entry g)"
  by (auto simp: sync_now_entry_def cancel_session_def new_session_def state_ok_def tokens_ok_def same_queue_def less_Suc_eq)

lemma signal_shutdown_ok: "state_ok g \<Longrightarrow> state_ok (signal_shutdown g)" "tokens_ok g \<Longrightarrow> tokens_ok (signal_shutdown g)" "same_queue g (signal_shutdown g)"
  by (auto simp: signal_shutdown_def cancel_session_def state_ok_def tokens_ok_def same_queue_def)

text \<open>The events: one delivery at a time, in the order of the log, and none forgotten.\<close>

definition in_flight :: "(bool \<times> drain_pc) list \<Rightarrow> manager_event list" where
  "in_flight ds = concat (map (\<lambda>(_, d). case d of DEmit ev \<Rightarrow> [ev] | _ \<Rightarrow> []) ds)"

definition delivering :: "(bool \<times> drain_pc) list \<Rightarrow> nat" where
  "delivering ds = length (filter (\<lambda>(_, d). d \<noteq> DTake) ds)"

lemma drains_simps [simp]:
  "in_flight [] = []" "in_flight (xs @ ys) = in_flight xs @ in_flight ys" "delivering [] = 0" "delivering (xs @ ys) = delivering xs + delivering ys"
  "in_flight ((o', d) # ys) = (case d of DEmit ev \<Rightarrow> [ev] | _ \<Rightarrow> []) @ in_flight ys"
  "delivering ((o', d) # ys) = (if d = DTake then 0 else 1) + delivering ys"
  by (simp_all add: in_flight_def delivering_def)

lemma in_flight_idle: "delivering ds = 0 \<Longrightarrow> in_flight ds = []"
  by (induction ds) (auto simp: split: if_splits)

definition events_ok :: "entry \<Rightarrow> bool" where
  "events_ok e \<longleftrightarrow>
     delivering (en_drains e) = (if es_emitting (en_shared e) then 1 else 0) \<and>
     es_log (en_shared e) = en_delivered e @ in_flight (en_drains e) @ es_pending (en_shared e) \<and>
     (es_pending (en_shared e) \<noteq> [] \<longrightarrow> en_drains e \<noteq> [] \<or> will_drain (en_worker e))"

definition entry_inv :: "entry \<Rightarrow> bool" where
  "entry_inv e \<longleftrightarrow>
     state_ok (en_shared e) \<and> tokens_ok (en_shared e) \<and> events_ok e \<and> pc_ok (en_worker e) \<and>
     (\<forall>t \<in> worker_tokens (en_worker e). t < es_fresh (en_shared e))"

lemma drain_step_at:
  assumes "en_drains e = xs @ (own, d) # ys"
  shows "drain_step (length xs) e =
     (case d of
        DTake \<Rightarrow> (case drain_take (en_shared e) of None \<Rightarrow> e\<lparr>en_drains := xs @ ys\<rparr> | Some (ev, g) \<Rightarrow> e\<lparr>en_shared := g, en_drains := xs @ (own, DEmit ev) # ys\<rparr>)
      | DEmit ev \<Rightarrow> e\<lparr>en_delivered := en_delivered e @ [ev], en_drains := xs @ (own, DClear) # ys\<rparr>
      | DClear \<Rightarrow> e\<lparr>en_shared := drain_clear (en_shared e), en_drains := xs @ (own, DTake) # ys\<rparr>)"
  using assms by (simp add: drain_step_def split: drain_pc.splits option.splits prod.splits)

lemma drain_take_ok:
  assumes "drain_take g = Some (ev, g')"
  shows "\<not> es_emitting g" "es_emitting g'" "es_pending g = ev # es_pending g'" "es_log g' = es_log g" "es_fresh g' = es_fresh g"
    "state_ok g \<Longrightarrow> state_ok g'" "tokens_ok g \<Longrightarrow> tokens_ok g'"
  using assms by (auto simp: drain_take_def state_ok_def tokens_ok_def split: if_splits list.splits)

lemma drain_inv:
  assumes "entry_inv e" and "i < length (en_drains e)"
  shows "entry_inv (drain_step i e)"
proof -
  obtain xs own d ys where ds: "en_drains e = xs @ (own, d) # ys" "i = length xs"
    using id_take_nth_drop [OF assms(2)] assms(2) by (metis length_take min.absorb4 prod.exhaust)
  note at = drain_step_at [OF ds(1)]
  show ?thesis
  proof (cases d)
    case DTake
    show ?thesis
    proof (cases "drain_take (en_shared e)")
      case None
      then have "es_emitting (en_shared e) \<or> es_pending (en_shared e) = []" by (auto simp: drain_take_def split: if_splits list.splits)
      moreover have "xs = [] \<and> ys = [] \<Longrightarrow> \<not> es_emitting (en_shared e)" using assms(1) ds(1) DTake by (auto simp: entry_inv_def events_ok_def split: if_splits)
      ultimately show ?thesis using assms(1) ds at DTake None by (auto simp: entry_inv_def events_ok_def)
    next
      case (Some p)
      obtain ev g where p: "p = (ev, g)" by fastforce
      note ok = drain_take_ok [OF Some [unfolded p]]
      have "in_flight xs = [] \<and> in_flight ys = []" using assms(1) ok(1) ds(1) DTake by (auto simp: entry_inv_def events_ok_def in_flight_idle)
      then show ?thesis using assms(1) ok ds at DTake Some p by (auto simp: entry_inv_def events_ok_def)
    qed
  next
    case (DEmit ev)
    then have "in_flight xs = [] \<and> in_flight ys = []" using assms(1) ds(1) by (auto simp: entry_inv_def events_ok_def in_flight_idle split: if_splits)
    then show ?thesis using assms(1) ds at DEmit by (auto simp: entry_inv_def events_ok_def)
  next
    case DClear
    then show ?thesis using assms(1) ds at by (auto simp: entry_inv_def events_ok_def drain_clear_def state_ok_def tokens_ok_def split: if_splits)
  qed
qed

lemma control_inv:
  assumes "entry_inv e" and "same_queue (en_shared e) g" and "state_ok (en_shared e) \<Longrightarrow> state_ok g" and "tokens_ok (en_shared e) \<Longrightarrow> tokens_ok g"
  shows "entry_inv (e\<lparr>en_shared := g\<rparr>)"
  using assms by (fastforce simp: entry_inv_def events_ok_def same_queue_def)

lemma work_inv:
  assumes "entry_inv e" and "step_effect (en_id e) (en_worker e) (en_shared e) w g drains"
  shows "entry_inv (e\<lparr>en_worker := w, en_shared := g, en_drains := (if drains then en_drains e @ [(True, DTake)] else en_drains e)\<rparr>)"
proof -
  obtain evs where evs: "worker_write (en_id e) (en_shared e) g evs" "evs \<noteq> [] \<longrightarrow> drains \<or> will_drain w" "will_drain (en_worker e) \<longrightarrow> drains" "pc_ok w"
    and tok: "worker_tokens w \<subseteq> worker_tokens (en_worker e) \<union> (if es_ctrl (en_shared e) = CtrlRunning then {es_session (en_shared e)} else {})"
    using assms(2) by (auto simp: step_effect_def)
  have "\<forall>t \<in> worker_tokens w. t < es_fresh g" using tok assms(1) evs(1) by (auto simp: entry_inv_def tokens_ok_def worker_write_def split: if_splits)
  moreover have "state_ok g" "tokens_ok g" using worker_write_ok [OF evs(1)] assms(1) by (auto simp: entry_inv_def)
  ultimately show ?thesis using assms(1) evs by (auto simp: entry_inv_def events_ok_def worker_write_def)
qed

lemma entry_step_inv: "entry_step mgr e e' \<Longrightarrow> entry_inv e \<Longrightarrow> entry_inv e'"
proof (induction rule: entry_step.induct)
  case (sleep e g)
  then show ?case using sleep_entry_ok [OF sleep(1)] by (auto simp: entry_inv_def events_ok_def)
next
  case (work e a w g drains)
  from work(3) have "pc_ok (en_worker e)" by (simp add: entry_inv_def)
  then show ?case by (rule work_inv [OF work(3) worker_step_effect [OF work(2)]])
qed (blast intro: control_inv drain_inv resume_entry_ok push_now_entry_ok sync_now_entry_ok signal_shutdown_ok)+

lemma entry_inv_new: "worker_tokens w = {} \<Longrightarrow> pc_ok w \<Longrightarrow> entry_inv (entry_new eid db_path canonical role w)"
  by (simp add: entry_inv_def events_ok_def entry_new_def state_ok_new tokens_ok_new) (simp add: entry_shared_new_def)

section \<open>The registry\<close>

lemma entry_step_names: "entry_step mgr e e' \<Longrightarrow> en_id e' = en_id e \<and> en_canonical e' = en_canonical e"
  by (induction rule: entry_step.induct) (auto simp: drain_step_def split: prod.splits drain_pc.splits option.splits)

definition registry_ok :: "manager \<Rightarrow> bool" where
  "registry_ok m \<longleftrightarrow> distinct (map fst (mg_entries m)) \<and> (\<forall>(k, e) \<in> set (mg_entries m). en_id e = k) \<and>
     distinct (map (\<lambda>(k, e). en_canonical e) (mg_entries m))"

lemma registry_ok_joining [simp]: "registry_ok (m\<lparr>mg_joining := es\<rparr>) = registry_ok m"
  by (simp add: registry_ok_def)

definition manager_inv :: "manager \<Rightarrow> bool" where
  "manager_inv m \<longleftrightarrow> registry_ok m \<and> (\<forall>(k, e) \<in> set (mg_entries m). entry_inv e) \<and>
     (\<forall>e \<in> set (mg_joining m). entry_inv e)"

lemma insert_inv:
  assumes "manager_inv m" and "entry_inv e" and "insert_and_spawn e spawned m = (r, m')"
  shows "manager_inv m'"
proof (cases "m' = m")
  case False
  then have new: "map_of (mg_entries m) (en_id e) = None" "find (\<lambda>(_, r). en_canonical r = en_canonical e) (mg_entries m) = None"
    "m' = m\<lparr>mg_entries := (en_id e, e) # mg_entries m\<rparr>"
    using assms(3) by (auto simp: insert_and_spawn_def split: if_splits option.splits result.splits)
  have "en_canonical e \<notin> set (map (\<lambda>(k, r). en_canonical r) (mg_entries m))" using new(2) by (auto simp: find_None_iff) blast
  moreover have "en_id e \<notin> fst ` set (mg_entries m)" using new(1) by (simp add: map_of_eq_None_iff)
  ultimately show ?thesis using assms(1,2) new(3) by (auto simp: manager_inv_def registry_ok_def)
qed (use assms(1) in simp)

lemma set_entry_inv:
  assumes "manager_inv m" and "(k, e) \<in> set (mg_entries m)" and "entry_inv e'" and "en_id e' = en_id e" and "en_canonical e' = en_canonical e"
  shows "manager_inv (set_entry k e' m)"
proof -
  have reg: "registry_ok m" using assms(1) by (simp add: manager_inv_def)
  have key: "r = e" if "(k, r) \<in> set (mg_entries m)" for r
    using eq_key_imp_eq_value [of "mg_entries m" k r e] reg assms(2) that by (simp add: registry_ok_def)
  have same: "map fst (mg_entries (set_entry k e' m)) = map fst (mg_entries m)" by (auto simp: set_entry_def)
  have same2: "map (\<lambda>(k, e). en_canonical e) (mg_entries (set_entry k e' m)) = map (\<lambda>(k, e). en_canonical e) (mg_entries m)"
    using assms(5) by (auto simp: set_entry_def dest: key)
  have "en_id e = k" using reg assms(2) by (auto simp: registry_ok_def)
  then have "\<forall>(k', r) \<in> set (mg_entries (set_entry k e' m)). en_id r = k' \<and> entry_inv r"
    using assms by (auto simp: set_entry_def manager_inv_def registry_ok_def)
  moreover have "mg_joining (set_entry k e' m) = mg_joining m" by (simp add: set_entry_def)
  ultimately show ?thesis using assms(1) reg unfolding manager_inv_def registry_ok_def same same2 by auto
qed

lemma stopped_inv: "entry_inv e \<Longrightarrow> entry_inv (stopped e)"
  using control_inv [OF _ signal_shutdown_ok(3) signal_shutdown_ok(1,2)] by (simp add: stopped_def)

lemma stopped_ctrl: "es_ctrl (en_shared (stopped e)) = CtrlShutdown"
  by (simp add: stopped_def signal_shutdown_def cancel_session_def)

lemma manager_step_inv: "manager_step mgr m m' \<Longrightarrow> manager_inv m \<Longrightarrow> manager_inv m'"
proof (induction rule: manager_step.induct)
  case (registers eid db_path canonical cfg t0 spawned m r m')
  then show ?case by (intro insert_inv [OF _ entry_inv_new registers(1)]) (simp_all add: worker_tokens_def pc_ok_def push_worker_new_def)
next
  case (follows eid db_path canonical fcfg spawned m r m')
  then show ?case by (intro insert_inv [OF _ entry_inv_new follows(1) [unfolded register_follow_def]]) (simp_all add: worker_tokens_def pc_ok_def follow_worker_new_def)
next
  case (unregisters eid m m')
  then obtain e where e: "map_of (mg_entries m) eid = Some e"
      "m' = m\<lparr>mg_entries := filter (\<lambda>(k, _). k \<noteq> eid) (mg_entries m), mg_joining := e # mg_joining m\<rparr>"
    by (auto simp: unregister_def get_entry_def ok_or_def and_then_eq_Ok split: option.splits)
  then have "entry_inv e" using map_of_SomeD [OF e(1)] unregisters(2) by (auto simp: manager_inv_def)
  then show ?case using unregisters(2) e(2) by (auto simp: manager_inv_def registry_ok_def distinct_map_filter)
next
  case (shuts_down m)
  then show ?case by (fastforce simp: manager_inv_def registry_ok_def manager_shutdown_def)
next
  case (steps eid e m e')
  then have "entry_inv e" by (auto simp: manager_inv_def)
  then show ?case using steps entry_step_inv entry_step_names by (intro set_entry_inv) blast+
next
  case (signals m es e fs)
  then show ?case using stopped_inv by (auto simp: manager_inv_def)
next
  case (winds_down m es e fs e')
  then show ?case using entry_step_inv by (auto simp: manager_inv_def)
next
  case (joins m es e fs)
  then show ?case by (auto simp: manager_inv_def)
qed

lemma manager_reachable_inv: "(manager_step mgr)\<^sup>*\<^sup>* manager_new m \<Longrightarrow> manager_inv m"
proof (induction rule: rtranclp_induct)
  case base
  show ?case by (simp add: manager_inv_def registry_ok_def manager_new_def)
qed (rule manager_step_inv)

section \<open>The end of a worker\<close>

text \<open>The steps a worker still makes after a shutdown, and those of the drain tasks.\<close>

fun push_left :: "push_pc \<Rightarrow> nat" where
  "push_left PExit = 0" | "push_left PWait = 1" | "push_left PTick = 2" | "push_left PIdle = 3" | "push_left (PBackoff _) = 3"
| "push_left PFail = 3" | "push_left (PMaintain _) = 4" | "push_left (PPush _) = 5" | "push_left (PStart _) = 6"

fun follow_left :: "follow_pc \<Rightarrow> nat" where
  "follow_left FExit = 0" | "follow_left FWait = 1" | "follow_left (FError _) = 2" | "follow_left FFail = 2" | "follow_left (FFollow _) = 3"
| "follow_left (FStart _) = 4" | "follow_left (FBuild _) = 5"

definition worker_left :: "worker \<Rightarrow> nat" where
  "worker_left w = (case w of PushWorker _ l \<Rightarrow> push_left (pw_pc l) | FollowWorker _ l \<Rightarrow> follow_left (fw_pc l))"

definition drain_left :: "entry \<Rightarrow> nat" where
  "drain_left e = 3 * length (es_pending (en_shared e)) + sum_list (map (\<lambda>(_, d). case d of DTake \<Rightarrow> 1 | DEmit _ \<Rightarrow> 3 | DClear \<Rightarrow> 2) (en_drains e))"

lemma drain_left_bound: "drain_left e \<le> 3 * (length (es_pending (en_shared e)) + length (en_drains e))"
proof -
  have "sum_list (map (\<lambda>(_, d). case d of DTake \<Rightarrow> 1 | DEmit _ \<Rightarrow> 3 | DClear \<Rightarrow> 2) ds) \<le> 3 * length ds" for ds :: "(bool \<times> drain_pc) list"
    by (induction ds) (auto split: drain_pc.splits)
  from this [of "en_drains e"] show ?thesis by (simp add: drain_left_def)
qed

lemma worker_left_exited: "worker_left w = 0 \<longleftrightarrow> worker_exited w" and worker_left_bound: "worker_left w \<le> 6"
proof -
  have "push_left pc = 0 \<longleftrightarrow> pc = PExit" "push_left pc \<le> 6" for pc by (cases pc; simp)+
  moreover have "follow_left pc = 0 \<longleftrightarrow> pc = FExit" "follow_left pc \<le> 6" for pc by (cases pc; simp)+
  ultimately show "worker_left w = 0 \<longleftrightarrow> worker_exited w" "worker_left w \<le> 6"
    by (simp_all add: worker_left_def worker_exited_def split: worker.splits)
qed

lemma wait_shutdown: "es_ctrl g = CtrlShutdown \<Longrightarrow> wait_for_action alive d t0 g = Some (ActExit, g)"
  by (simp add: wait_for_action_def)

lemma worker_step_left:
  assumes "es_ctrl g = CtrlShutdown"
  shows "worker_step mgr eid a w g = Some (w', g', drains) \<Longrightarrow> worker_left w' < worker_left w"
    and "\<not> worker_exited w \<Longrightarrow> worker_step mgr eid a w g \<noteq> None"
proof -
  have ew: "ensure_writer cfg t a l = (r, l1) \<Longrightarrow> pw_pc l1 = pw_pc l" for cfg t l r l1 by (auto simp: ensure_writer_def split: if_splits result.splits)
  have push: "push_left (pw_pc l') < push_left (pw_pc l)" if "push_step mgr eid cfg a (pw_pc l) l g = Some (l', g', drains)" for cfg l l' g' drains
    using that wait_shutdown [OF assms] by (cases "pw_pc l") (auto simp: push_outcome_def push_maintain_def Let_def split: result.splits prod.splits if_splits option.splits)
  have follow: "follow_left (fw_pc l') < follow_left (fw_pc l)" if "follow_step mgr eid cfg a (fw_pc l) l g = Some (l', g', drains)" for cfg l l' g' drains
    using that wait_shutdown [OF assms] by (cases "fw_pc l") (auto simp: follow_build_def Let_def split: result.splits prod.splits if_splits option.splits)
  show "worker_step mgr eid a w g = Some (w', g', drains) \<Longrightarrow> worker_left w' < worker_left w"
    by (cases w) (auto simp: worker_step_def worker_left_def dest: push follow)
  have "pc \<noteq> PExit \<Longrightarrow> push_step mgr eid cfg a pc l g \<noteq> None" for cfg pc l using wait_shutdown [OF assms] by (cases pc) (simp_all del: not_None_eq split: prod.splits result.splits)
  moreover have "pc \<noteq> FExit \<Longrightarrow> follow_step mgr eid cfg a pc l g \<noteq> None" for cfg pc l using wait_shutdown [OF assms] by (cases pc) (simp_all del: not_None_eq split: result.splits)
  ultimately show "\<not> worker_exited w \<Longrightarrow> worker_step mgr eid a w g \<noteq> None"
    by (cases w) (auto simp: worker_step_def worker_exited_def)
qed

lemma drain_step_left:
  assumes "i < length (en_drains e)"
  shows "en_worker (drain_step i e) = en_worker e \<and> drain_left (drain_step i e) < drain_left e"
proof -
  obtain xs own d ys where ds: "en_drains e = xs @ (own, d) # ys" "i = length xs"
    using id_take_nth_drop [OF assms] assms by (metis length_take min.absorb4 prod.exhaust)
  show ?thesis unfolding ds(2) drain_step_at [OF ds(1)]
    by (auto simp: drain_left_def ds(1) drain_take_def drain_clear_def split: drain_pc.splits option.splits if_splits list.splits)
qed

text \<open>A step of a worker queues at most one event, and starts at most one drain task.\<close>

lemma worker_step_queues:
  assumes "worker_step mgr eid a w g = Some (w', g', drains)"
  shows "length (es_pending g') \<le> Suc (length (es_pending g))"
proof -
  have act: "wait_for_action alive d t0 g = Some (act, g1) \<Longrightarrow> es_pending g1 = es_pending g" for alive d t0 act g1
    by (auto simp: wait_for_action_def split: ctrl.splits if_splits due.splits)
  note defs = transition_running_def record_error_def enqueue_def
  have "length (es_pending g1) \<le> Suc (length (es_pending g))" if "push_step mgr eid cfg a pc l g = Some (l1, g1, d1)" for cfg pc l l1 g1 d1
    using that by (cases pc) (auto simp: push_outcome_def push_maintain_def Let_def defs dest: act
        split: result.splits prod.splits if_splits option.splits action_kind.splits)
  moreover have "length (es_pending g1) \<le> Suc (length (es_pending g))" if "follow_step mgr eid cfg a pc l g = Some (l1, g1, d1)" for cfg pc l l1 g1 d1
    using that by (cases pc) (auto simp: follow_build_def Let_def defs dest: act
        split: result.splits prod.splits if_splits option.splits action_kind.splits)
  ultimately show ?thesis using assms by (cases w) (auto simp: worker_step_def)
qed

text \<open>A run of the threads of one entry, with the number of steps of its worker and of its drain tasks; control calls are not counted.
  Every sequence of steps is such a run (\<open>entry_runs_complete\<close>).\<close>

inductive entry_runs :: "manager_env \<Rightarrow> nat \<Rightarrow> nat \<Rightarrow> entry \<Rightarrow> entry \<Rightarrow> bool" for mgr where
  start: "entry_runs mgr 0 0 e e"
| works: "entry_runs mgr n k e e1 \<Longrightarrow> \<forall>d \<in> set (en_drains e1). \<not> fst d \<Longrightarrow>
    worker_step mgr (en_id e1) a (en_worker e1) (en_shared e1) = Some (w, g, drains) \<Longrightarrow>
    entry_runs mgr (Suc n) k e
      (e1\<lparr>en_worker := w, en_shared := g, en_drains := (if drains then en_drains e1 @ [(True, DTake)] else en_drains e1)\<rparr>)"
| drains: "entry_runs mgr n k e e1 \<Longrightarrow> i < length (en_drains e1) \<Longrightarrow> entry_runs mgr n (Suc k) e (drain_step i e1)"
| sleeps: "entry_runs mgr n k e e1 \<Longrightarrow> entry_runs mgr n k e (slept e1)"
| resumes: "entry_runs mgr n k e e1 \<Longrightarrow> entry_runs mgr n k e (resumed e1)"
| pushes: "entry_runs mgr n k e e1 \<Longrightarrow> en_role e1 = RolePush \<Longrightarrow> entry_runs mgr n k e (e1\<lparr>en_shared := push_now_entry (en_shared e1)\<rparr>)"
| syncs: "entry_runs mgr n k e e1 \<Longrightarrow> en_role e1 = RoleFollow \<Longrightarrow> entry_runs mgr n k e (e1\<lparr>en_shared := sync_now_entry (en_shared e1)\<rparr>)"

lemma entry_runs_complete: "(entry_step mgr)\<^sup>*\<^sup>* e e' \<Longrightarrow> \<exists>n k. entry_runs mgr n k e e'"
proof (induction rule: rtranclp_induct)
  case base
  then show ?case by (blast intro: entry_runs.start)
next
  case (step e1 e2)
  then obtain n k where run: "entry_runs mgr n k e e1" by blast
  from step.hyps(2) show ?case
  proof cases
    case (sleep g)
    then have "e2 = slept e1" by (simp add: slept_def)
    then show ?thesis using run by (blast intro: entry_runs.sleeps)
  next
    case resume
    then show ?thesis using entry_runs.resumes [OF run] by (auto simp: resumed_def)
  next
    case push_now
    then show ?thesis using entry_runs.pushes [OF run] by blast
  next
    case sync_now
    then show ?thesis using entry_runs.syncs [OF run] by blast
  next
    case (drain i)
    then show ?thesis using entry_runs.drains [OF run] by blast
  next
    case (work a w g ds)
    show ?thesis unfolding work(1) using entry_runs.works [OF run work(2,3)] by blast
  qed
qed

text \<open>Once the entry is signalled, every step of the worker comes closer to its exit, and control calls do nothing.\<close>

lemma shutdown_runs:
  assumes "entry_runs mgr n k e e'" and "es_ctrl (en_shared e) = CtrlShutdown" and "pc_ok (en_worker e)"
  shows "es_ctrl (en_shared e') = CtrlShutdown \<and> pc_ok (en_worker e') \<and> n + worker_left (en_worker e') \<le> worker_left (en_worker e) \<and>
    k + drain_left e' \<le> drain_left e + 4 * n"
  using assms
proof (induction rule: entry_runs.induct)
  case (works n k e e1 a w g drains)
  then have c: "es_ctrl (en_shared e1) = CtrlShutdown" "pc_ok (en_worker e1)" by blast+
  have "step_effect (en_id e1) (en_worker e1) (en_shared e1) w g drains" by (rule worker_step_effect [OF works(3) c(2)])
  then have "es_ctrl g = CtrlShutdown" "pc_ok w" using c(1) by (auto simp: step_effect_def worker_write_def)
  then show ?case using works worker_step_left(1) [OF c(1) works(3)] worker_step_queues [OF works(3)] by (auto simp: drain_left_def)
next
  case (drains n k e e1 i)
  then have "es_ctrl (en_shared (drain_step i e1)) = CtrlShutdown"
    by (auto simp: drain_step_def drain_take_def drain_clear_def split: prod.splits drain_pc.splits option.splits if_splits list.splits)
  then show ?case using drains drain_step_left [OF drains(2)] by (metis add_Suc add_mono_thms_linordered_semiring(1) Suc_leI order.trans add_Suc_right add_left_mono)
qed (auto simp: slept_def resumed_def sleep_entry_def resume_entry_def push_now_entry_def sync_now_entry_def drain_left_def)

section \<open>Properties\<close>

text \<open>C30: the observer's view of a database.  In every reachable state of a manager, for every registered or departing
  database: the events queued so far are, in the order of their mutations, the ones delivered to the observer, the one whose
  callback is running, and the pending ones; at most one callback runs at a time.  An event never waits without a
  thread that will deliver it, and once no delivery is due, the observer has seen everything and the last state it was told is
  the one \<open>status\<close> reports, except that \<open>resume\<close> turns \<open>Sleeping\<close> into \<open>Idle\<close> without an event.\<close>

theorem manager_events_ordered:
  assumes "(manager_step mgr)\<^sup>*\<^sup>* manager_new m" and "e \<in> snd ` set (mg_entries m) \<union> set (mg_joining m)"
  shows "es_log (en_shared e) = en_delivered e @ in_flight (en_drains e) @ es_pending (en_shared e) \<and> delivering (en_drains e) \<le> 1 \<and>
    (es_pending (en_shared e) \<noteq> [] \<longrightarrow> en_drains e \<noteq> [] \<or> will_drain (en_worker e)) \<and>
    (en_drains e = [] \<and> \<not> will_drain (en_worker e) \<longrightarrow>
       en_delivered e = es_log (en_shared e) \<and>
       (dbs_state (status_of sidecar mtime e) = last_state (en_delivered e) \<or>
        dbs_state (status_of sidecar mtime e) = DbIdle \<and> last_state (en_delivered e) = DbSleeping))"
proof -
  have "manager_inv m" using assms(1) by (rule manager_reachable_inv)
  then have "entry_inv e" using assms(2) by (auto simp: manager_inv_def)
  then show ?thesis by (auto simp: entry_inv_def events_ok_def state_ok_def status_of_def Let_def)
qed

text \<open>C31: control calls win over workers.  In every reachable state: ids and database paths are registered once.  A database that was
  put to sleep reports \<open>Sleeping\<close> whatever its worker still does, and the operation its worker runs holds a cancelled
  token, as after a shutdown; a worker that waits while asleep has released its writer.  A round only starts on a running
  database and with the token of the current session, which is not cancelled, so that no earlier cancellation reaches it.\<close>

theorem manager_sessions:
  assumes "(manager_step mgr)\<^sup>*\<^sup>* manager_new m" and "(k, e) \<in> set (mg_entries m)"
  shows "en_id e = k \<and> (\<forall>k' e'. (k', e') \<in> set (mg_entries m) \<and> (k' = k \<or> en_canonical e' = en_canonical e) \<longrightarrow> k' = k \<and> e' = e) \<and>
    (es_ctrl (en_shared e) = CtrlSleeping \<longrightarrow> es_state (en_shared e) = DbSleeping) \<and>
    (es_ctrl (en_shared e) \<noteq> CtrlRunning \<longrightarrow> worker_tokens (en_worker e) \<subseteq> set (es_cancelled (en_shared e))) \<and>
    (\<forall>cfg l a. en_worker e = PushWorker cfg l \<and> pw_pc l = PWait \<and> es_ctrl (en_shared e) = CtrlSleeping \<and>
       worker_step mgr k a (en_worker e) (en_shared e) = None \<longrightarrow> pw_writer l = None) \<and>
    (wait_for_action alive d t0 (en_shared e) = Some (ActRound t, g) \<longrightarrow>
       es_ctrl (en_shared e) = CtrlRunning \<and> t = es_session (en_shared e) \<and> t \<notin> set (es_cancelled (en_shared e)))"
proof -
  have inv: "manager_inv m" using assms(1) by (rule manager_reachable_inv)
  then have e: "entry_inv e" and reg: "registry_ok m" using assms(2) by (auto simp: manager_inv_def)
  then have names: "en_id e = k" "distinct (map fst (mg_entries m))" "distinct (map (\<lambda>(k, e). en_canonical e) (mg_entries m))"
    using assms(2) by (auto simp: registry_ok_def)
  have "k' = k \<and> e' = e" if r: "(k', e') \<in> set (mg_entries m)" "k' = k \<or> en_canonical e' = en_canonical e" for k' e'
    using r(2)
  proof
    assume "k' = k"
    then show ?thesis using eq_key_imp_eq_value [OF names(2)] r(1) assms(2) by blast
  next
    assume "en_canonical e' = en_canonical e"
    then show ?thesis using inj_onD [OF distinct_map [THEN iffD1, THEN conjunct2, OF names(3)], of "(k', e')" "(k, e)"] r(1) assms(2) by simp
  qed
  moreover have "t \<in> set (es_cancelled (en_shared e))" if "es_ctrl (en_shared e) \<noteq> CtrlRunning" "t \<in> worker_tokens (en_worker e)" for t
    using e that by (auto simp: entry_inv_def tokens_ok_def)
  moreover have "pw_writer l = None" if "en_worker e = PushWorker cfg l" "pw_pc l = PWait" "es_ctrl (en_shared e) = CtrlSleeping"
      "worker_step mgr k a (en_worker e) (en_shared e) = None" for cfg l a
    using that by (auto simp: worker_step_def wait_for_action_def split: if_splits)
  moreover have "es_ctrl (en_shared e) = CtrlSleeping \<longrightarrow> es_state (en_shared e) = DbSleeping" using e by (simp add: entry_inv_def state_ok_def)
  moreover have "es_ctrl (en_shared e) = CtrlRunning \<Longrightarrow> es_session (en_shared e) \<notin> set (es_cancelled (en_shared e))"
    using e by (simp add: entry_inv_def tokens_ok_def)
  ultimately show ?thesis using names(1) wait_for_action_round [of alive d t0 "en_shared e" t g] by blast
qed

text \<open>C32: \<open>unregister\<close> and \<open>shutdown\<close> come to an end, provided that every storage call returns.  Take a database that was removed and
  has been signalled, and any run of its threads from there, with any control calls in between and whatever the storage
  answers.  The worker makes at most six steps in it and the deliveries of events at most three for each pending event and each
  running delivery and 24 more, so no run goes on for ever; no control call revives the database; and at the end of the run the worker
  has exited, or it waits for the delivery it started and that delivery has a step to make, or its next step is possible
  whatever the answer is.\<close>

theorem manager_shutdown_ends:
  assumes "(manager_step mgr)\<^sup>*\<^sup>* manager_new m" and "e \<in> set (mg_joining m)" and "es_ctrl (en_shared e) = CtrlShutdown"
    and "entry_runs mgr n k e e'"
  shows "n \<le> 6 \<and> k \<le> 3 * (length (es_pending (en_shared e)) + length (en_drains e)) + 24 \<and> es_ctrl (en_shared e') = CtrlShutdown \<and>
    (worker_exited (en_worker e') \<or> (\<exists>i < length (en_drains e'). fst (en_drains e' ! i)) \<or>
     (\<forall>d \<in> set (en_drains e'). \<not> fst d) \<and> (\<forall>a. worker_step mgr (en_id e') a (en_worker e') (en_shared e') \<noteq> None))"
proof -
  have "manager_inv m" using assms(1) by (rule manager_reachable_inv)
  then have "pc_ok (en_worker e)" using assms(2) by (auto simp: manager_inv_def entry_inv_def)
  note run = shutdown_runs [OF assms(4,3) this]
  have "n \<le> 6" using run worker_left_bound [of "en_worker e"] by linarith
  moreover have "k \<le> 3 * (length (es_pending (en_shared e)) + length (en_drains e)) + 24"
    using run drain_left_bound [of e] \<open>n \<le> 6\<close> by linarith
  moreover have "worker_exited (en_worker e') \<or> (\<exists>i < length (en_drains e'). fst (en_drains e' ! i)) \<or>
     (\<forall>d \<in> set (en_drains e'). \<not> fst d) \<and> (\<forall>a. worker_step mgr (en_id e') a (en_worker e') (en_shared e') \<noteq> None)"
    using run worker_step_left(2) [of "en_shared e'"] by (metis in_set_conv_nth)
  ultimately show ?thesis using run by blast
qed

section \<open>Runs\<close>

text \<open>A scheduler for concrete runs of one entry.\<close>

datatype choice = DoSleep | DoResume | DoDrain nat | DoWork answer

fun entry_do :: "manager_env \<Rightarrow> entry \<Rightarrow> choice \<Rightarrow> entry" where
  "entry_do mgr e DoSleep = slept e"
| "entry_do mgr e DoResume = resumed e"
| "entry_do mgr e (DoDrain i) = (if i < length (en_drains e) then drain_step i e else e)"
| "entry_do mgr e (DoWork a) =
     (if list_ex fst (en_drains e) then e
      else case worker_step mgr (en_id e) a (en_worker e) (en_shared e) of None \<Rightarrow> e
      | Some (w, g, drains) \<Rightarrow> e\<lparr>en_worker := w, en_shared := g, en_drains := (if drains then en_drains e @ [(True, DTake)] else en_drains e)\<rparr>)"

definition entry_run :: "manager_env \<Rightarrow> entry \<Rightarrow> choice list \<Rightarrow> entry" where
  "entry_run mgr e cs = foldl (entry_do mgr) e cs"

lemma entry_do_step: "(entry_step mgr)\<^sup>*\<^sup>* e (entry_do mgr e c)"
proof -
  have work: "entry_step mgr e (e\<lparr>en_worker := w, en_shared := g, en_drains := (if drains then en_drains e @ [(True, DTake)] else en_drains e)\<rparr>)"
    if "\<not> list_ex fst (en_drains e)" "worker_step mgr (en_id e) a (en_worker e) (en_shared e) = Some (w, g, drains)" for a w g drains
    by (rule entry_step.work [OF _ that(2)]) (use that(1) in \<open>simp add: list_ex_iff\<close>)
  show ?thesis
  proof (cases c)
    case DoSleep
    then show ?thesis by (auto simp: slept_def split: option.splits intro: entry_step.sleep)
  next
    case DoResume
    then show ?thesis using entry_step.resume [of mgr e] by (simp add: resumed_def r_into_rtranclp)
  next
    case (DoDrain i)
    then show ?thesis using entry_step.drain [of i e mgr] by auto
  next
    case (DoWork a)
    then show ?thesis using work [of a] by (auto simp: r_into_rtranclp split: option.splits)
  qed
qed

lemma entry_run_steps: "(entry_step mgr)\<^sup>*\<^sup>* e (entry_run mgr e cs)"
proof (induction cs arbitrary: e)
  case (Cons c cs)
  then show ?case using rtranclp_trans [OF entry_do_step Cons.IH] by (simp add: entry_run_def)
qed (simp add: entry_run_def)

lemma lone_entry_run:
  "(entry_step mgr)\<^sup>*\<^sup>* e e' \<Longrightarrow> (manager_step mgr)\<^sup>*\<^sup>* \<lparr>mg_entries = [(k, e)], mg_joining = []\<rparr> \<lparr>mg_entries = [(k, e')], mg_joining = []\<rparr>"
proof (induction rule: rtranclp_induct)
  case (step y z)
  have "manager_step mgr \<lparr>mg_entries = [(k, y)], mg_joining = []\<rparr> (set_entry k z \<lparr>mg_entries = [(k, y)], mg_joining = []\<rparr>)"
    by (rule manager_step.steps) (use step(2) in simp_all)
  then show ?case using step(3) by (simp add: set_entry_def)
qed simp

text \<open>A database that pushes to a directory.\<close>

definition demo_mgr :: manager_env where
  "demo_mgr = \<lparr>me_opts = \<lparr>mgo_backoff = (\<lambda>_. 1), mgo_default_push_interval = Some 5\<rparr>, me_display = (\<lambda>_. ''error'')\<rparr>"

definition demo_push_config :: push_config where
  "demo_push_config = \<lparr>pcf_storage = CfgDir [''bucket''], pcf_push_interval = None, pcf_maintenance = None, pcf_backoff = None\<rparr>"

definition demo_entry :: entry where
  "demo_entry = entry_new ''a'' [''a.db''] [''a.db''] RolePush (PushWorker demo_push_config (push_worker_new demo_mgr demo_push_config 0))"

definition cancelled_answer :: answer where
  "cancelled_answer = \<lparr>an_now = 0, an_system_time = 0, an_other_client = Ok (), an_open = Ok (), an_push = Err Cancelled, an_maintain = Ok (), an_follow = Ok ()\<rparr>"

lemma demo_reachable: "(manager_step demo_mgr)\<^sup>*\<^sup>* manager_new \<lparr>mg_entries = [(''a'', entry_run demo_mgr demo_entry cs)], mg_joining = []\<rparr>"
proof -
  have "insert_and_spawn demo_entry (Ok ()) manager_new = (Ok (), \<lparr>mg_entries = [(''a'', demo_entry)], mg_joining = []\<rparr>)"
    by (simp add: insert_and_spawn_def manager_new_def demo_entry_def entry_new_def)
  then have "manager_step demo_mgr manager_new \<lparr>mg_entries = [(''a'', demo_entry)], mg_joining = []\<rparr>"
    unfolding demo_entry_def by (rule manager_step.registers)
  then show ?thesis using lone_entry_run [OF entry_run_steps] by (meson converse_rtranclp_into_rtranclp)
qed

lemmas entry_eval = entry_run_def demo_entry_def entry_new_def entry_shared_new_def demo_push_config_def push_worker_new_def push_interval_def demo_mgr_def
  cancelled_answer_def slept_def sleep_entry_def cancel_session_def enqueue_def drain_step_def drain_take_def drain_clear_def
  worker_step_def wait_for_action_def push_due_def transition_running_def ensure_writer_def build_def push_outcome_def resumed_def resume_entry_def new_session_def

theorem manager_events_ordered_witness:
  "en_delivered (entry_run demo_mgr demo_entry [DoSleep, DoDrain 0, DoDrain 0, DoDrain 0, DoDrain 0]) = [StateChanged ''a'' DbSleeping] \<and>
   dbs_state (status_of (Ok 0) None (entry_run demo_mgr demo_entry [DoSleep, DoDrain 0, DoDrain 0, DoDrain 0, DoDrain 0])) = DbSleeping"
proof -
  define e where "e = entry_run demo_mgr demo_entry [DoSleep, DoDrain 0, DoDrain 0, DoDrain 0, DoDrain 0]"
  have ev: "en_drains e = []" "\<not> will_drain (en_worker e)" "es_log (en_shared e) = [StateChanged ''a'' DbSleeping]" "es_state (en_shared e) = DbSleeping"
    unfolding e_def by (simp_all add: entry_eval will_drain_def)
  have "e \<in> snd ` set (mg_entries \<lparr>mg_entries = [(''a'', e)], mg_joining = []\<rparr>) \<union> set (mg_joining \<lparr>mg_entries = [(''a'', e)], mg_joining = []\<rparr>)" by simp
  from manager_events_ordered [OF demo_reachable [of "[DoSleep, DoDrain 0, DoDrain 0, DoDrain 0, DoDrain 0]", folded e_def] this, of "Ok 0" None] ev(1,2)
  have "en_delivered e = es_log (en_shared e)" by blast
  then show ?thesis unfolding e_def [symmetric] using ev(3,4) by (simp add: status_of_def Let_def)
qed

theorem manager_sessions_witness:
  "worker_tokens (en_worker (entry_run demo_mgr demo_entry [DoWork cancelled_answer, DoWork cancelled_answer, DoSleep])) = {0} \<and>
   0 \<in> set (es_cancelled (en_shared (entry_run demo_mgr demo_entry [DoWork cancelled_answer, DoWork cancelled_answer, DoSleep]))) \<and>
   es_state (en_shared (entry_run demo_mgr demo_entry [DoWork cancelled_answer, DoWork cancelled_answer, DoSleep])) = DbSleeping"
proof -
  define e where "e = entry_run demo_mgr demo_entry [DoWork cancelled_answer, DoWork cancelled_answer, DoSleep]"
  have ev: "worker_tokens (en_worker e) = {0}" "es_ctrl (en_shared e) = CtrlSleeping" unfolding e_def by (simp_all add: entry_eval worker_tokens_def)
  have "(''a'', e) \<in> set (mg_entries \<lparr>mg_entries = [(''a'', e)], mg_joining = []\<rparr>)" by simp
  from manager_sessions [OF demo_reachable [of "[DoWork cancelled_answer, DoWork cancelled_answer, DoSleep]", folded e_def] this] ev
  show ?thesis unfolding e_def [symmetric] by auto
qed

theorem manager_shutdown_ends_witness:
  "\<exists>e'. entry_runs demo_mgr 1 0 (stopped demo_entry) e' \<and> worker_exited (en_worker e') \<and> es_ctrl (en_shared e') = CtrlShutdown"
proof -
  let ?m = "\<lparr>mg_entries = [(''a'', demo_entry)], mg_joining = []\<rparr>" and ?e = "stopped demo_entry"
  have "(manager_step demo_mgr)\<^sup>*\<^sup>* manager_new ?m" using demo_reachable [of "[]"] by (simp add: entry_run_def)
  moreover have "manager_step demo_mgr ?m \<lparr>mg_entries = [], mg_joining = [demo_entry]\<rparr>"
    using manager_step.shuts_down [of demo_mgr ?m] by (simp add: manager_shutdown_def)
  moreover have "manager_step demo_mgr \<lparr>mg_entries = [], mg_joining = [demo_entry]\<rparr> \<lparr>mg_entries = [], mg_joining = [?e]\<rparr>"
    using manager_step.signals [of "\<lparr>mg_entries = [], mg_joining = [demo_entry]\<rparr>" "[]" demo_entry "[]"] by simp
  ultimately have run: "(manager_step demo_mgr)\<^sup>*\<^sup>* manager_new \<lparr>mg_entries = [], mg_joining = [?e]\<rparr>" by (meson rtranclp.rtrancl_into_rtrancl)
  have idle: "en_drains ?e = []" by (simp add: stopped_def demo_entry_def entry_new_def)
  obtain w where w: "worker_step demo_mgr (en_id ?e) cancelled_answer (en_worker ?e) (en_shared ?e) = Some (w, en_shared ?e, False)" "worker_exited w"
    by (simp add: stopped_def signal_shutdown_def entry_eval worker_exited_def)
  let ?e' = "?e\<lparr>en_worker := w, en_shared := en_shared ?e, en_drains := (if False then en_drains ?e @ [(True, DTake)] else en_drains ?e)\<rparr>"
  have r: "entry_runs demo_mgr (Suc 0) 0 ?e ?e'" by (rule entry_runs.works [OF entry_runs.start _ w(1)]) (simp add: idle)
  from manager_shutdown_ends [OF run _ stopped_ctrl r] r w(2) show ?thesis by (intro exI [of _ ?e']) simp
qed

text \<open>
  When a database is put to sleep and resumed before its worker comes back from the storage, the worker never sees the sleep: the
  writer of the slept session, with its client, goes on in the new session.
\<close>

definition demo_stage :: "push_pc \<Rightarrow> token option \<Rightarrow> entry_shared \<Rightarrow> (bool \<times> drain_pc) list \<Rightarrow> manager_event list \<Rightarrow> entry" where
  "demo_stage pc wr g ds evs =
     demo_entry\<lparr>en_worker := PushWorker demo_push_config ((push_worker_new demo_mgr demo_push_config 0)\<lparr>pw_pc := pc, pw_writer := wr\<rparr>),
       en_shared := g, en_drains := ds, en_delivered := evs\<rparr>"

lemma entry_run_append: "entry_run mgr e (cs @ ds) = entry_run mgr (entry_run mgr e cs) ds"
  by (simp add: entry_run_def)

lemma demo_stages:
  defines "w \<equiv> DoWork cancelled_answer" and "evs \<equiv> [StateChanged ''a'' DbWorking]"
  defines "g1 \<equiv> entry_shared_new\<lparr>es_state := DbWorking, es_log := evs\<rparr>"
  defines "g2 \<equiv> g1\<lparr>es_state := DbIdle, es_nudged := True, es_session := 1, es_fresh := 2, es_cancelled := [0], es_log := evs @ [StateChanged ''a'' DbSleeping],
      es_pending := [StateChanged ''a'' DbSleeping]\<rparr>"
  shows "entry_run demo_mgr demo_entry [w, w, DoDrain 0, DoDrain 0, DoDrain 0, DoDrain 0] = demo_stage (PPush 0) None g1 [] evs"
    and "entry_run demo_mgr (demo_stage (PPush 0) None g1 [] evs) [DoSleep, DoResume, w] = demo_stage PTick (Some 0) g2 [(False, DTake)] evs"
  unfolding w_def evs_def g1_def g2_def demo_stage_def
  by (simp_all add: entry_eval)

lemma writer_survives_sleep:
  "\<exists>e l. (manager_step demo_mgr)\<^sup>*\<^sup>* manager_new \<lparr>mg_entries = [(''a'', e)], mg_joining = []\<rparr> \<and>
     en_worker e = PushWorker demo_push_config l \<and> pw_pc l = PPush 1 \<and> pw_writer l = Some 0 \<and> 0 \<in> set (es_cancelled (en_shared e))"
proof -
  let ?w = "DoWork cancelled_answer"
  let ?e = "entry_run demo_mgr demo_entry (([?w, ?w, DoDrain 0, DoDrain 0, DoDrain 0, DoDrain 0] @ [DoSleep, DoResume, ?w]) @ [?w, ?w, ?w])"
  have "\<exists>l. en_worker ?e = PushWorker demo_push_config l \<and> pw_pc l = PPush 1 \<and> pw_writer l = Some 0 \<and> 0 \<in> set (es_cancelled (en_shared ?e))"
    unfolding entry_run_append demo_stages demo_stage_def by (simp add: entry_eval)
  then show ?thesis using demo_reachable by blast
qed

text \<open>
  \<open>unregister\<close> frees the id and the path before the worker has stopped: the same database can be registered again while the old
  worker is still at work.
\<close>

lemma path_free_before_join:
  "\<exists>m. (manager_step demo_mgr)\<^sup>*\<^sup>* manager_new m \<and> mg_entries m = [(''a'', demo_entry)] \<and> mg_joining m = [demo_entry] \<and>
     \<not> worker_exited (en_worker demo_entry)"
proof -
  let ?m = "\<lparr>mg_entries = [(''a'', demo_entry)], mg_joining = []\<rparr>" and ?gone = "\<lparr>mg_entries = [], mg_joining = [demo_entry]\<rparr>"
  let ?both = "\<lparr>mg_entries = [(''a'', demo_entry)], mg_joining = [demo_entry]\<rparr>"
  have "(manager_step demo_mgr)\<^sup>*\<^sup>* manager_new ?m" using demo_reachable [of "[]"] by (simp add: entry_run_def)
  moreover have "manager_step demo_mgr ?m ?gone" by (rule manager_step.unregisters [of "''a''"]) (simp add: unregister_def get_entry_def ok_or_def)
  moreover have "insert_and_spawn demo_entry (Ok ()) ?gone = (Ok (), ?both)" by (simp add: insert_and_spawn_def demo_entry_def entry_new_def)
  then have "manager_step demo_mgr ?gone ?both" unfolding demo_entry_def by (rule manager_step.registers)
  ultimately have "(manager_step demo_mgr)\<^sup>*\<^sup>* manager_new ?both" by (meson rtranclp.rtrancl_into_rtrancl)
  then show ?thesis
    by (intro exI [of _ ?both]) (simp add: demo_entry_def entry_new_def worker_exited_def push_worker_new_def)
qed

end
