(* ===== verification/Spec2Isabelle.thy ===== *)
theory Spec2Isabelle
  imports MaintainProps ReplicaRestore NotifyingClient HttpStreamProps HttpBucketProps ManagerProps
begin

text \<open>
  Verification of liters, asynchronous replication of SQLite databases over LTX files.

  \<^bold>\<open>The program.\<close>  A \<open>Writer\<close> reads the write-ahead log of a database (\<open>liters-wal\<close>), turns the committed pages
  of each transaction range into an LTX file (\<open>ltx\<close>), keeps it in a local meta directory and uploads it to level 0
  of a bucket through a \<open>ReplicaClient\<close> (\<open>liters-storage\<close>).  Maintenance merges files into higher levels, takes
  snapshots and deletes what is covered.  A \<open>Replica\<close> plans a chain of files, restores a database from it
  and then applies new files in place, by polling or by following a live feed.  A bucket is a directory, an
  object store, or another host reached over HTTP: the client, a transport, the server and a \<open>Mount\<close> around
  the bucket of that host.  A \<open>SyncManager\<close> runs one worker thread per database.

  \<^bold>\<open>The theories and the files under src/crates they model.\<close>
  \<^item> Shared: \<open>Prelude\<close> (integer types, \<open>Result\<close>, lists and words), \<open>Bytes\<close> (byte order and number formats),
    \<open>ResultState\<close> (methods that fail and leave a state behind, the triple \<open>keeps\<close>), \<open>RustStr\<close> (string
    functions of the standard library).
  \<^item> \<open>ltx\<close>: \<open>LtxTypes\<close> (\<open>types.rs\<close>, \<open>error.rs\<close>), \<open>Checksum\<close>, \<open>Lz4Frame\<close> (\<open>lz4f.rs\<close>), \<open>PageIndex\<close>
    (\<open>page_index.rs\<close>), \<open>Encoder\<close>, \<open>Decoder\<close> and \<open>Compactor\<close>; \<open>LtxFile\<close> relates encoder and decoder.
  \<^item> \<open>liters-wal\<close>: \<open>Wal\<close>.
  \<^item> \<open>liters-storage\<close>: \<open>Storage\<close> (\<open>lib.rs\<close>, \<open>cancel.rs\<close>), \<open>DirClient\<close> (\<open>dir.rs\<close>); \<open>http/\<close>: \<open>Wire\<close> and
    \<open>WireProps\<close> (\<open>wire.rs\<close>), \<open>HttpBody\<close> (the body readers), \<open>Mount\<close>, \<open>MountProps\<close>, \<open>MountStream\<close> and
    \<open>StreamProps\<close> (\<open>mount.rs\<close>), \<open>HttpServer\<close> (\<open>server.rs\<close>), \<open>HttpStream\<close> and \<open>HttpStreamProps\<close> (the
    follow stream of \<open>client.rs\<close>), \<open>HttpTransport\<close> (\<open>transport.rs\<close>), \<open>HttpClient\<close> (\<open>client.rs\<close>),
    \<open>NotifyingClient\<close> (the tee of \<open>mount.rs\<close>); \<open>HttpHeads\<close>, \<open>HttpExchange\<close>, \<open>HttpBucket\<close> and
    \<open>HttpBucketProps\<close> compose them.
  \<^item> \<open>liters\<close>: \<open>LitersError\<close> (\<open>error.rs\<close>), \<open>RestorePlan\<close> (\<open>plan.rs\<close>), \<open>MetaDir\<close> (\<open>meta.rs\<close>), \<open>VerifyWal\<close>
    (\<open>verify.rs\<close>), \<open>Writer\<close> and \<open>WriterProps\<close> (\<open>writer.rs\<close>, \<open>checkpoint.rs\<close>, \<open>sqlite.rs\<close>), \<open>Maintain\<close>
    and \<open>MaintainProps\<close> (\<open>compaction.rs\<close>), \<open>FileLock\<close>, \<open>Replica\<close>, \<open>ReplicaApply\<close>, \<open>ReplicaProps\<close>,
    \<open>ReplicaFollow\<close> and \<open>ReplicaRestore\<close> (\<open>replica.rs\<close>), \<open>Manager\<close> and \<open>ManagerProps\<close> (\<open>manager.rs\<close>).

  \<^bold>\<open>State and operations.\<close>  A struct is a record with a field prefix of its own, an enum a datatype, and a method one
  definition under the source's name.  Integers keep their width where the code relies on it; lengths and
  offsets of byte lists are naturals.  An early return with \<open>?\<close> is \<open>and_then\<close> or, where the object survives
  the error, \<open>m_bind\<close>.  A trait object is a record of functions: \<open>client\<close> for \<open>ReplicaClient\<close>, the function
  \<open>ex\<close> for \<open>HttpTransport\<close>, the datatype \<open>body\<close> for \<open>Box<dyn Read>\<close>.  Concurrency is interleaving:
  \<open>mount_step\<close> for the requests on a mount (with a \<open>PUT\<close> split where the code takes the write gate) and
  \<open>entry_step\<close> and \<open>manager_step\<close> for the critical sections of the manager.

  \<^bold>\<open>Interfaces.\<close>
  \<^item> \<open>wire_codec\<close> (\<open>Bytes\<close>): a self-delimiting format; the varint of the page index.
  \<^item> \<open>bucket_client\<close>, \<open>replica_client\<close> (\<open>Storage\<close>), \<open>wipable_client\<close> (\<open>MountProps\<close>), \<open>bucket_history\<close>
    (\<open>StreamProps\<close>): what a backend promises about the finite map of files it stores; the directory backend
    (\<open>dir\<close>, \<open>tdir\<close>, \<open>dirw\<close>, \<open>dirh\<close>), the notifying tee around it (\<open>tee\<close>), and, by a sublocale of
    \<open>http_bucket\<close>, every such bucket seen through the HTTP client.
  \<^item> \<open>http_bucket\<close>, \<open>http_replica\<close>: a client, a base path, a network and a mount that fit together; \<open>demo_web\<close>
    instantiates them with the directory backend and a network that delivers one byte at a time.
  \<^item> \<open>byte_source\<close> (\<open>WireProps\<close>): \<open>io::Read\<close>, by what a reader is still to deliver; sockets, the
    chunked reader, the bodies and the transport's reader.
  \<^item> \<open>meta_cell\<close> (\<open>MetaDir\<close>): a small file that is written and read back.
  \<^item> \<open>writer_view\<close>, \<open>writer_frame\<close> (\<open>WriterProps\<close>), \<open>replica_inv\<close> (\<open>ReplicaFollow\<close>): parts of the state that a
    group of methods keeps, proved once per group and used for the bucket, the session, the files, the token
    and the lock.
\<close>

text \<open>
  \<^bold>\<open>What is shown.\<close>
  \<^item> \<^emph>\<open>Files.\<close>  What the encoder accepts decodes to the same content, its index locates every page, a snapshot
    materialises as the database image, and \<open>verify\<close> accepts a file only when its checksums match the
    pages its frames hold.
    A compaction is the merge in which the newest input wins, and applying it is applying its inputs in
    order.
  \<^item> \<^emph>\<open>WAL.\<close>  The page map holds the last committed version of every page and nothing else; a resumed reader reads
    on as the first one would.
  \<^item> \<^emph>\<open>Buckets.\<close>  Plans are contiguous chains of existing files and reach the newest position; a written
    file is listed and read back.  Maintenance removes a level-0 file only under a file of level 1 or a snapshot
    and a file of another level only under a snapshot; compacted and snapshot files have the right content, and a
    snapshot is uploaded behind the level-0 files it rests on.
  \<^item> \<^emph>\<open>Replica.\<close>  Against a history that gives the database after every transaction: syncs and any number of
    follow rounds keep the replica on it as long as \<open>auto_reset\<close> is off, a restore puts it there, an
    application happens as a whole or not at all, waiting for the lock and a cancelled follower end, and every
    failed restore leaves a described state, which is not always the one the documentation promises.
  \<^item> \<^emph>\<open>HTTP.\<close>  Fencing of level 0 under all interleavings; the feed a follower reads is a chain of genuine files
    however the connection splits it; the client over transport, server and mount keeps the contract of
    the bucket behind them, and a writer uploads through it; what becomes of a request whose
    response is lost; bodies are whole or fail; which requests may change a mount, and the status and the effect of
    every \<open>PUT\<close> as a function of the request and the bucket.
  \<^item> \<^emph>\<open>Manager.\<close>  The order of events, the authority of the control calls over the workers, the sessions, and the
    end of the workers after a shutdown, under all interleavings.
  \<^item> \<^emph>\<open>Writer.\<close>  The invariant of its local position, the bucket of another lineage left alone, contiguous and
    completed uploads, the lineage check, the content of a conversion, exactly when and where it resumes in the WAL, the
    pruning of local files.

  \<^bold>\<open>Bounds and fuel.\<close>  Loops over data are structural or have a measure; the wait for the
  file lock and the way of a worker to its end (six steps) come with the number of their rounds.  A follower, a feed and a session of streamed events
  run for a given number of rounds, and what is shown holds after every number of them.  One call of
  \<open>HttpLtxStream::next\<close> runs on fuel, and fuel beyond the bytes and timeouts still to come gives a result, so
  the property of the feed also states that a call returns.  A listing over HTTP is promised to arrive for
  up to 800000 files, whose text is below the 64 MiB the client reads.  TXID arithmetic at the end of the
  64-bit range and file offsets in \<open>i64\<close> comparisons are kept as words.

  \<^bold>\<open>Parameters.\<close>  CRC-64, xxHash32 and the LZ4 block codec (\<open>externs\<close>, with the round trip of the block format as
  the hypothesis \<open>lz4_ok\<close>); SQLite (\<open>sqlite\<close>, and its integrity check); clocks, random numbers, back-off
  delays, the answers of the lock system call; name resolution, connecting and the answers of a socket
  (\<open>link\<close>); an application's own storage factory.

  \<^bold>\<open>Not modelled.\<close>
  \<^item> \<open>liters/retry.rs\<close>: delays in floating point with random jitter; its users take the schedule as a parameter.
  \<^item> \<open>liters-storage/s3.rs\<close>: calls of the \<open>object_store\<close> crate and an async runtime.  \<open>liters-ffi\<close>: wrappers
    around the library for generated bindings.  \<open>liters/lib.rs\<close>: re-exports.
  \<^item> Failures of the local file system other than missing files, and crashes between a write and its rename.
  \<^item> Changes of the database files by other connections between two statements of one writer operation.
  \<^item> The accept loop of the HTTP server, its threads, socket options and shutdown, the draining of an unread
    request body, panics of an observer.
  \<^item> A call of the record \<open>client\<close> that fails leaves the bucket as it was.  Behind the HTTP client a request
    whose response is lost may have been carried out: \<open>HttpBucketProps\<close> says what such a call leaves, but the
    writer and the maintenance are modelled over \<open>client\<close> and do not see it.
\<close>

end
